(* ===== verification/Prelude.thy ===== *)
theory Prelude
  imports Main "HOL-Library.Multiset" "HOL-Library.Product_Lexorder"
begin

text \<open>
  What the components share: the collections of simplification rules, the results of fallible
  operations (\<open>Inl\<close> an error, \<open>Inr\<close> a value), counting loops over lists, and the contract of a
  ranking. Python's \<open>sorted(xs, key=f)\<close> is stable, as \<open>sort_key f xs\<close> is; tuples compare
  lexicographically in both. A ranking whose key contains the identity of the ranked item has no
  ties, so its result cannot depend on the order the items arrive in: the locale
  \<open>total_ranking\<close> proves that once, and every component that ranks rows interprets it.
\<close>

named_theorems result_simps "case distinctions on the results of fallible operations"

type_synonym ('e, 'a) result = "'e + 'a"

definition is_ok :: "'e + 'a \<Rightarrow> bool" where
  "is_ok r \<longleftrightarrow> (case r of Inl _ \<Rightarrow> False | Inr _ \<Rightarrow> True)"

lemma is_ok_simps [simp]: "is_ok (Inr a)" "\<not> is_ok (Inl e)"
  by (simp_all add: is_ok_def)

lemma is_ok_iff [result_simps]: "is_ok r \<longleftrightarrow> (\<exists>a. r = Inr a)"
  by (cases r) auto

section \<open>Counting\<close>

text \<open>\<open>sizes = [0] * k; for c in xs: sizes[c] += 1\<close>\<close>

definition tally :: "nat \<Rightarrow> nat list \<Rightarrow> nat list" where
  "tally k xs = fold (\<lambda>c s. s[c := Suc (s ! c)]) xs (replicate k 0)"

lemma length_fold_tally: "length (fold (\<lambda>c s. s[c := Suc (s ! c)]) xs s) = length s"
  by (induction xs arbitrary: s) simp_all

lemma fold_tally_nth:
  assumes "\<forall>x \<in> set xs. x < length s" and "c < length s"
  shows "fold (\<lambda>c s. s[c := Suc (s ! c)]) xs s ! c = s ! c + count_list xs c"
  using assms
proof (induction xs arbitrary: s)
  case (Cons x xs)
  then show ?case by (cases "x = c") auto
qed simp

lemma length_tally [simp]: "length (tally k xs) = k"
  by (simp add: tally_def length_fold_tally)

lemma tally_nth: "\<forall>x \<in> set xs. x < k \<Longrightarrow> c < k \<Longrightarrow> tally k xs ! c = count_list xs c"
  by (simp add: tally_def fold_tally_nth)

lemma tally_eq: "\<forall>x \<in> set xs. x < k \<Longrightarrow> tally k xs = map (count_list xs) [0..<k]"
  by (rule nth_equalityI) (simp_all add: tally_nth)

lemma sum_list_count_list: "\<forall>x \<in> set xs. x < (k :: nat) \<Longrightarrow> (\<Sum>c<k. count_list xs c) = length xs"
proof (induction xs)
  case (Cons x xs)
  have "(\<Sum>c<k. count_list (x # xs) c) = (\<Sum>c<k. count_list xs c + (if c = x then 1 else 0))"
    by (rule sum.cong) auto
  also have "\<dots> = length xs + (\<Sum>c<k. if c = x then 1 else 0)"
    using Cons by (simp add: sum.distrib)
  also have "(\<Sum>c<k. if c = x then 1 else 0) = (1 :: nat)"
    using Cons.prems by (subst sum.delta) auto
  finally show ?case by simp
qed simp

lemma sum_list_tally: "\<forall>x \<in> set xs. x < k \<Longrightarrow> sum_list (tally k xs) = length xs"
  by (simp add: tally_eq interv_sum_list_conv_sum_set_nat atLeast0LessThan sum_list_count_list)

lemma count_list_pos: "0 < count_list xs x \<longleftrightarrow> x \<in> set xs"
  by (induction xs) auto

lemma count_list_update:
  assumes "i < length xs" and "xs ! i \<noteq> y"
  shows "count_list (xs[i := y]) c =
    (if c = y then Suc (count_list xs c) else if c = xs ! i then count_list xs c - 1 else count_list xs c)"
  using assms
proof (induction xs arbitrary: i)
  case (Cons x xs)
  show ?case
  proof (cases i)
    case 0
    with Cons.prems show ?thesis by auto
  next
    case (Suc j)
    with Cons have IH: "count_list (xs[j := y]) c =
      (if c = y then Suc (count_list xs c) else if c = xs ! j then count_list xs c - 1 else count_list xs c)"
      by simp
    have "x = xs ! j \<Longrightarrow> 0 < count_list xs x"
      using Suc Cons.prems by (auto simp: count_list_pos)
    with IH Suc Cons.prems show ?thesis by auto
  qed
qed simp

section \<open>Rankings\<close>

lemma take_sort_key_best:
  assumes "x \<in> set (take n (sort_key f xs))" and "y \<in> set (drop n (sort_key f xs))"
  shows "f x \<le> f y"
proof -
  have "sorted (map f (take n (sort_key f xs) @ drop n (sort_key f xs)))"
    by simp
  with assms show ?thesis
    by (simp only: map_append sorted_append) auto
qed

lemma distinct_map_sort_key: "distinct (map g (sort_key f xs)) = distinct (map g xs)"
  by (rule mset_eq_imp_distinct_iff) simp

locale total_ranking =
  fixes rank_key :: "'a \<Rightarrow> 'k::linorder"
    and ident :: "'a \<Rightarrow> 'i"
  assumes key_ident: "rank_key x = rank_key y \<Longrightarrow> ident x = ident y"
begin

lemma inj_on_key: "inj_on ident (set xs) \<Longrightarrow> inj_on rank_key (set xs)"
  by (auto simp: inj_on_def dest: key_ident)

lemma order_independent:
  assumes "mset xs = mset ys" and "inj_on ident (set xs)"
  shows "sort_key rank_key xs = sort_key rank_key ys"
  using assms by (intro sort_key_eq_sort_key inj_on_key)

lemma strictly_ranked:
  assumes "inj_on ident (set xs)" and "distinct xs"
  shows "sorted_wrt (<) (map rank_key (sort_key rank_key xs))"
  using assms inj_on_key [of xs]
  by (simp add: strict_sorted_iff distinct_map)

lemma best_before_rest:
  assumes "x \<in> set (take n (sort_key rank_key xs))"
    and "y \<in> set xs" and "y \<notin> set (take n (sort_key rank_key xs))"
  shows "rank_key x \<le> rank_key y"
proof -
  have "set (sort_key rank_key xs) = set (take n (sort_key rank_key xs)) \<union> set (drop n (sort_key rank_key xs))"
    by (metis append_take_drop_id set_append)
  with assms have "y \<in> set (drop n (sort_key rank_key xs))" by auto
  with assms(1) show ?thesis by (rule take_sort_key_best)
qed

end

section \<open>Runs of a state machine\<close>

text \<open>
  A component that keeps a state between calls: what every step keeps, every run keeps. The second
  locale adds a measure of what a step may only increase, for facts that once true stay true.
\<close>

locale stepwise =
  fixes step :: "'e \<Rightarrow> 's \<Rightarrow> 's"
    and inv :: "'s \<Rightarrow> bool"
  assumes step_inv: "inv s \<Longrightarrow> inv (step e s)"
begin

lemma run_inv: "inv s \<Longrightarrow> inv (fold step es s)"
  by (induction es arbitrary: s) (auto intro: step_inv)

lemma run_inv_prefix: "inv s \<Longrightarrow> inv (fold step (take n es) s)"
  by (rule run_inv)

end

section \<open>Splitting text\<close>

text \<open>Python's \<open>str.split(c)\<close> with a one-character separator, and \<open>c.join\<close>.\<close>

fun split_on :: "'a \<Rightarrow> 'a list \<Rightarrow> 'a list list" where
  "split_on c [] = [[]]"
| "split_on c (x # xs) =
    (if x = c then [] # split_on c xs
     else case split_on c xs of [] \<Rightarrow> [[x]] | p # ps \<Rightarrow> (x # p) # ps)"

fun join_with :: "'a \<Rightarrow> 'a list list \<Rightarrow> 'a list" where
  "join_with c [] = []"
| "join_with c [p] = p"
| "join_with c (p # q # ps) = p @ c # join_with c (q # ps)"

lemma split_on_not_Nil [simp]: "split_on c xs \<noteq> []"
  by (cases xs) (auto split: list.split)

lemma join_with_Cons: "ps \<noteq> [] \<Longrightarrow> join_with c (p # ps) = p @ c # join_with c ps"
  by (cases ps) auto

lemma join_with_push: "join_with c ((x # p) # ps) = x # join_with c (p # ps)"
  by (cases ps) auto

lemma join_split: "join_with c (split_on c xs) = xs"
proof (induction xs)
  case (Cons x xs)
  then show ?case
    by (cases "split_on c xs") (auto simp: join_with_Cons join_with_push)
qed simp

lemma split_on_parts: "\<forall>p\<in>set (split_on c xs). c \<notin> set p"
proof (induction xs)
  case (Cons x xs)
  then show ?case by (cases "split_on c xs") auto
qed simp

lemma split_on_append: "c \<notin> set p \<Longrightarrow> split_on c (p @ c # xs) = p # split_on c xs"
  by (induction p) auto

lemma split_on_single: "c \<notin> set p \<Longrightarrow> split_on c p = [p]"
  by (induction p) auto

lemma split_join: "ps \<noteq> [] \<Longrightarrow> \<forall>p\<in>set ps. c \<notin> set p \<Longrightarrow> split_on c (join_with c ps) = ps"
proof (induction ps)
  case (Cons p ps)
  then show ?case
    by (cases "ps = []") (auto simp: join_with_Cons split_on_append split_on_single)
qed simp

lemma length_split_on: "length (split_on c xs) = Suc (count_list xs c)"
proof (induction xs)
  case (Cons x xs)
  then show ?case by (cases "split_on c xs") auto
qed simp

lemma set_join_with: "set (join_with c ps) \<subseteq> insert c (\<Union>(set ` set ps))"
  by (induction c ps rule: join_with.induct) auto

lemma set_split_on: "\<Union>(set ` set (split_on c xs)) \<subseteq> set xs"
proof (induction xs)
  case (Cons x xs)
  then show ?case by (cases "split_on c xs") auto
qed simp

section \<open>White space\<close>

text \<open>\<open>str.isspace\<close> on the characters of the model.\<close>

definition py_isspace :: "char \<Rightarrow> bool" where
  "py_isspace c \<longleftrightarrow> c \<in> {CHR 0x09, CHR 0x0A, CHR 0x0B, CHR 0x0C, CHR 0x0D, CHR 0x1C, CHR 0x1D, CHR 0x1E, CHR 0x1F,
     CHR '' '', CHR 0x85, CHR 0xA0}"

text \<open>\<open>str.strip()\<close>\<close>

definition py_strip :: "string \<Rightarrow> string" where
  "py_strip s = rev (dropWhile py_isspace (rev (dropWhile py_isspace s)))"

lemma length_py_strip: "length (py_strip s) \<le> length s"
proof -
  have "length (dropWhile P xs) \<le> length xs" for P :: "char \<Rightarrow> bool" and xs by (rule length_dropWhile_le)
  then show ?thesis unfolding py_strip_def length_rev by (metis le_trans length_rev)
qed

lemma py_strip_last: "py_strip s \<noteq> [] \<Longrightarrow> \<not> py_isspace (last (py_strip s))"
  unfolding py_strip_def by (simp add: last_rev hd_dropWhile)

lemma py_strip_eq_Nil: "py_strip s = [] \<longleftrightarrow> (\<forall>c\<in>set s. py_isspace c)"
  by (auto simp: py_strip_def dropWhile_eq_Nil_conv dest: set_dropWhileD) (metis hd_dropWhile list.set_sel(1) dropWhile_eq_Nil_conv)

end
