(* ===== verification/RFM_Rules.thy ===== *)
theory RFM_Rules
  imports Prelude
begin

text \<open>
  The decision of the \<open>RFM_RULES\<close> method: the two queries of \<open>web/db/segments.py\<close> that a segmentation
  method reads, \<open>_SCORE_AND_MATCH\<close> (\<open>score_rfm_rules\<close>) and \<open>_RFM_INPUTS\<close> (\<open>read_rfm_inputs\<close>). A common
  table expression is a definition: the sales of the window per customer, the quintile of a distinct
  value (\<open>ntile\<close>), the band match with the lowest segment id, and the fallback to the worst label.
  Instants are microseconds, days of the calendar are day numbers, money is in cents, ids are \<open>nat\<close>.
\<close>

record sale =
  sale_customer :: nat
  sale_at :: int
  sale_total :: int
  sale_origin :: string

record segment_row =
  seg_id :: nat
  seg_label :: string
  seg_rule :: nat
  seg_from :: int
  seg_to :: "int option"

record rule_row =
  rule_id :: nat
  r_band :: "int \<times> int"
  f_band :: "int \<times> int"
  m_band :: "int \<times> int"

record sales_db =
  sdb_customers :: "nat list"
  sdb_sales :: "sale list"
  sdb_segments :: "segment_row list"
  sdb_rules :: "rule_row list"
  sdb_labels :: "(string \<times> int) list"

record scored_customer =
  sc_customer :: nat
  sc_last_purchase :: "int option"
  sc_frequency :: "int option"
  sc_monetary :: "int option"
  sc_r :: "int option"
  sc_f :: "int option"
  sc_m :: "int option"
  sc_segment :: "nat option"
  sc_label :: "string option"
  sc_via_fallback :: bool

record customer_sales =
  cs_customer :: nat
  cs_last_purchase :: "int option"
  cs_frequency :: "int option"
  cs_monetary :: "int option"

definition QUINTILES :: nat where "QUINTILES = 5"

section \<open>The window\<close>

definition days :: "int \<Rightarrow> int" where
  "days n = n * 86400000000"

definition in_window :: "int \<Rightarrow> int \<Rightarrow> sale \<Rightarrow> bool" where
  "in_window now window_days s \<longleftrightarrow> sale_at s \<ge> now - days window_days \<and> sale_at s \<le> now"

definition window_sales :: "int \<Rightarrow> int \<Rightarrow> sales_db \<Rightarrow> nat \<Rightarrow> sale list" where
  "window_sales now window_days db c =
    filter (\<lambda>s. sale_customer s = c \<and> in_window now window_days s) (sdb_sales db)"

text \<open>The row of \<open>GROUP BY customer_id\<close>: last purchase, number and total; no row without sales.\<close>

definition measures :: "int \<Rightarrow> int \<Rightarrow> sales_db \<Rightarrow> nat \<Rightarrow> (int \<times> int \<times> int) option" where
  "measures now window_days db c =
    (let ss = window_sales now window_days db c
     in if ss = [] then None
        else Some (Max (sale_at ` set ss), int (length ss), sum_list (map sale_total ss)))"

text \<open>The customers of \<open>window_sales\<close>: every customer id that has a sale in the window.\<close>

definition buyers :: "int \<Rightarrow> int \<Rightarrow> sales_db \<Rightarrow> nat list" where
  "buyers now window_days db =
    remdups (map sale_customer (filter (in_window now window_days) (sdb_sales db)))"

section \<open>Quintiles\<close>

text \<open>
  \<open>ntile(k)\<close> of the row at position \<open>i\<close> of \<open>n\<close>: buckets as even as possible, the larger ones first.
\<close>

definition ntile :: "nat \<Rightarrow> nat \<Rightarrow> nat \<Rightarrow> nat" where
  "ntile k n i =
    (let q = n div k; r = n mod k
     in if i < r * (q + 1) then i div (q + 1) + 1 else r + (i - r * (q + 1)) div q + 1)"

text \<open>The rows of a bounds table: the distinct values, highest first.\<close>

definition distinct_desc :: "int list \<Rightarrow> int list" where
  "distinct_desc vs = rev (sort (remdups vs))"

fun position :: "'a \<Rightarrow> 'a list \<Rightarrow> nat" where
  "position x [] = 0"
| "position x (y # ys) = (if x = y then 0 else Suc (position x ys))"

definition score :: "int list \<Rightarrow> int \<Rightarrow> int" where
  "score vs v =
    (let ds = distinct_desc vs
     in int QUINTILES + 1 - int (ntile QUINTILES (length ds) (position v ds)))"

definition all_measures :: "int \<Rightarrow> int \<Rightarrow> sales_db \<Rightarrow> (int \<times> int \<times> int) list" where
  "all_measures now window_days db =
    List.map_filter (measures now window_days db) (buyers now window_days db)"

definition scores :: "int \<Rightarrow> int \<Rightarrow> sales_db \<Rightarrow> int \<times> int \<times> int \<Rightarrow> int \<times> int \<times> int" where
  "scores now window_days db = (\<lambda>(latest, freq, spent).
    (let ms = all_measures now window_days db
     in (score (map fst ms) latest, score (map (fst \<circ> snd) ms) freq, score (map (snd \<circ> snd) ms) spent)))"

section \<open>Bands and labels\<close>

definition within_band :: "int \<Rightarrow> int \<times> int \<Rightarrow> bool" where
  "within_band x band \<longleftrightarrow> fst band \<le> x \<and> x \<le> snd band"

definition valid_segment :: "int \<Rightarrow> segment_row \<Rightarrow> bool" where
  "valid_segment today s \<longleftrightarrow> seg_from s \<le> today \<and> (case seg_to s of None \<Rightarrow> True | Some d \<Rightarrow> d \<ge> today)"

definition rule_of :: "sales_db \<Rightarrow> segment_row \<Rightarrow> rule_row option" where
  "rule_of db s = find (\<lambda>r. rule_id r = seg_rule s) (sdb_rules db)"

definition matches :: "sales_db \<Rightarrow> int \<Rightarrow> int \<times> int \<times> int \<Rightarrow> segment_row \<Rightarrow> bool" where
  "matches db today = (\<lambda>(r, f, m) s.
    valid_segment today s \<and> (case rule_of db s of
       None \<Rightarrow> False
     | Some rule \<Rightarrow> within_band r (r_band rule) \<and> within_band f (f_band rule) \<and> within_band m (m_band rule)))"

definition best_match :: "sales_db \<Rightarrow> int \<Rightarrow> int \<times> int \<times> int \<Rightarrow> segment_row option" where
  "best_match db today triple =
    (case sort_key seg_id (filter (matches db today triple) (sdb_segments db)) of [] \<Rightarrow> None | s # _ \<Rightarrow> Some s)"

definition fallback_match :: "sales_db \<Rightarrow> int \<Rightarrow> segment_row option" where
  "fallback_match db today =
    (case sort_key (\<lambda>s. (- the (map_of (sdb_labels db) (seg_label s)), seg_id s))
        (filter (\<lambda>s. valid_segment today s \<and> map_of (sdb_labels db) (seg_label s) \<noteq> None) (sdb_segments db)) of
       [] \<Rightarrow> None | s # _ \<Rightarrow> Some s)"

definition score_and_match :: "int \<Rightarrow> int \<Rightarrow> int \<Rightarrow> sales_db \<Rightarrow> nat \<Rightarrow> scored_customer" where
  "score_and_match now today window_days db c =
    (case measures now window_days db c of
       None \<Rightarrow> \<lparr>sc_customer = c, sc_last_purchase = None, sc_frequency = None, sc_monetary = None,
                sc_r = None, sc_f = None, sc_m = None, sc_segment = None, sc_label = None, sc_via_fallback = False\<rparr>
     | Some (latest, freq, spent) \<Rightarrow>
         (case scores now window_days db (latest, freq, spent) of (r, f, m) \<Rightarrow>
           (let bm = best_match db today (r, f, m);
                fb = (case bm of Some _ \<Rightarrow> None | None \<Rightarrow> fallback_match db today);
                chosen = (case bm of Some s \<Rightarrow> Some s | None \<Rightarrow> fb)
            in \<lparr>sc_customer = c, sc_last_purchase = Some latest, sc_frequency = Some freq, sc_monetary = Some spent,
                sc_r = Some r, sc_f = Some f, sc_m = Some m,
                sc_segment = map_option seg_id chosen, sc_label = map_option seg_label chosen,
                sc_via_fallback = (bm = None \<and> fb \<noteq> None)\<rparr>)))"

text \<open>\<open>now()\<close> and \<open>CURRENT_DATE\<close> are the transaction's.\<close>

definition score_rfm_rules :: "int \<Rightarrow> int \<Rightarrow> int \<Rightarrow> sales_db \<Rightarrow> scored_customer list" where
  "score_rfm_rules now today window_days db = map (score_and_match now today window_days db) (sort (sdb_customers db))"

definition read_rfm_inputs :: "int \<Rightarrow> int \<Rightarrow> sales_db \<Rightarrow> customer_sales list" where
  "read_rfm_inputs now window_days db =
    map (\<lambda>c. case measures now window_days db c of
       None \<Rightarrow> \<lparr>cs_customer = c, cs_last_purchase = None, cs_frequency = None, cs_monetary = None\<rparr>
     | Some (latest, freq, spent) \<Rightarrow>
         \<lparr>cs_customer = c, cs_last_purchase = Some latest, cs_frequency = Some freq, cs_monetary = Some spent\<rparr>)
      (sort (sdb_customers db))"

definition get_label_ordinals :: "sales_db \<Rightarrow> (string \<times> int) list" where
  "get_label_ordinals db = sdb_labels db"

text \<open>\<open>fn_segmentation_window_origin\<close> of the schema.\<close>

definition window_origin :: "int \<Rightarrow> int \<Rightarrow> sales_db \<Rightarrow> string" where
  "window_origin now window_days db =
    (if \<exists>s\<in>set (sdb_sales db). sale_origin s = ''SEEDED'' \<and> in_window now window_days s
     then ''SEEDED'' else ''OBSERVED'')"

section \<open>Quintiles: bounds, order and balance\<close>

lemma buckets_add_up: "(r :: nat) * (q + 1) + j * q = r + (r + j) * q"
  by (simp add: algebra_simps)

lemma ntile_range:
  assumes "0 < k" and "i < n"
  shows "1 \<le> ntile k n i \<and> ntile k n i \<le> k"
proof -
  let ?q = "n div k" and ?r = "n mod k"
  have n: "n = ?r * (?q + 1) + (k - ?r) * ?q"
  proof -
    have "?r < k" using assms(1) by simp
    then obtain j where j: "k = ?r + j" using less_imp_add_positive by metis
    have "?r * (?q + 1) + j * ?q = ?r + (?r + j) * ?q" by (rule buckets_add_up)
    also have "\<dots> = ?r + k * ?q" using j by metis
    also have "\<dots> = n" by simp
    finally show ?thesis using j by (metis diff_add_inverse)
  qed
  show ?thesis
  proof (cases "i < ?r * (?q + 1)")
    case True
    then have "i div (?q + 1) < ?r" by (simp add: less_mult_imp_div_less)
    moreover have "?r < k" using assms(1) by simp
    ultimately show ?thesis using True by (simp add: ntile_def Let_def)
  next
    case False
    then have "i - ?r * (?q + 1) < (k - ?r) * ?q" using n assms(2) by linarith
    then have "(i - ?r * (?q + 1)) div ?q < k - ?r" by (simp add: less_mult_imp_div_less)
    then show ?thesis using False by (simp add: ntile_def Let_def)
  qed
qed

lemma ntile_mono:
  assumes "i \<le> j" and "j < n" and "0 < k"
  shows "ntile k n i \<le> ntile k n j"
proof -
  let ?q = "n div k" and ?r = "n mod k"
  show ?thesis
  proof (cases "j < ?r * (?q + 1)")
    case True
    then show ?thesis using assms(1) by (simp add: ntile_def Let_def div_le_mono)
  next
    case False
    show ?thesis
    proof (cases "i < ?r * (?q + 1)")
      case True
      then have "i div (?q + 1) < ?r" by (simp add: less_mult_imp_div_less)
      with True False show ?thesis by (simp add: ntile_def Let_def)
    next
      case False
      moreover have "\<not> j < ?r * (?q + 1)" using False assms(1) by simp
      ultimately show ?thesis using assms(1) by (simp add: ntile_def Let_def div_le_mono)
    qed
  qed
qed

lemma ntile_first: "0 < k \<Longrightarrow> 0 < n \<Longrightarrow> ntile k n 0 = 1"
  by (auto simp: ntile_def Let_def mod_eq_0_iff_dvd)

lemma position_less: "x \<in> set xs \<Longrightarrow> position x xs < length xs"
  by (induction xs) auto

lemma position_antimono:
  fixes v w :: int
  assumes "sorted_wrt (>) ds" and "v \<in> set ds" and "w \<in> set ds" and "v \<le> w"
  shows "position w ds \<le> position v ds"
  using assms by (induction ds) auto

lemma set_distinct_desc [simp]: "set (distinct_desc vs) = set vs"
  by (simp add: distinct_desc_def)

lemma distinct_desc_strict: "sorted_wrt (>) (distinct_desc vs)"
proof -
  have "sorted (sort (remdups vs))" "distinct (sort (remdups vs))" by simp_all
  then have "sorted_wrt (<) (sort (remdups vs))" by (simp add: strict_sorted_iff)
  then show ?thesis by (simp add: distinct_desc_def sorted_wrt_rev)
qed

lemma length_distinct_desc: "length (distinct_desc vs) = card (set vs)"
  by (simp add: distinct_desc_def length_remdups_card_conv)

lemma distinct_desc_cong: "set vs = set ws \<Longrightarrow> distinct_desc vs = distinct_desc ws"
proof -
  assume "set vs = set ws"
  then have "sort (remdups vs) = sort (remdups ws)"
    by (intro sorted_distinct_set_unique) simp_all
  then show ?thesis by (simp add: distinct_desc_def)
qed

lemma position_first: "xs \<noteq> [] \<Longrightarrow> position (hd xs) xs = 0"
  by (cases xs) auto

lemma hd_distinct_desc:
  assumes "v \<in> set vs"
  shows "hd (distinct_desc vs) = Max (set vs)"
proof -
  have ne: "distinct_desc vs \<noteq> []" using assms by (metis empty_iff set_distinct_desc set_empty)
  then have "\<forall>x\<in>set (distinct_desc vs). x \<le> hd (distinct_desc vs)"
    using distinct_desc_strict [of vs] by (cases "distinct_desc vs") auto
  moreover have "hd (distinct_desc vs) \<in> set vs" using ne hd_in_set [OF ne] by simp
  ultimately show ?thesis by (intro Max_eqI [symmetric]) simp_all
qed

lemma score_bounds:
  assumes "v \<in> set vs"
  shows "1 \<le> score vs v \<and> score vs v \<le> 5"
  using ntile_range [of QUINTILES "position v (distinct_desc vs)" "length (distinct_desc vs)"] assms
    position_less [of v "distinct_desc vs"]
  by (simp add: score_def Let_def QUINTILES_def)

text \<open>
  A score is a quintile of the distinct values: it lies between 1 and 5, a larger value never scores
  less, so equal values score the same, the largest value scores 5, and how many customers share a
  value, or the order they come in, changes no score.
\<close>

lemma quintile_scores:
  assumes "v \<in> set vs" and "w \<in> set vs" and "v \<le> w" and "set vs' = set vs"
  shows "1 \<le> score vs v \<and> score vs v \<le> score vs w \<and> score vs w \<le> 5
    \<and> score vs (Max (set vs)) = 5 \<and> score vs' v = score vs v"
proof -
  let ?ds = "distinct_desc vs"
  have "ntile QUINTILES (length ?ds) (position w ?ds) \<le> ntile QUINTILES (length ?ds) (position v ?ds)"
    using assms position_antimono [OF distinct_desc_strict] position_less [of v ?ds]
    by (intro ntile_mono) (simp_all add: QUINTILES_def)
  then have "score vs v \<le> score vs w" by (simp add: score_def Let_def)
  moreover have "score vs (Max (set vs)) = 5"
  proof -
    have ne: "?ds \<noteq> []" using assms(1) by (metis empty_iff set_distinct_desc set_empty)
    then have "position (Max (set vs)) ?ds = 0"
      using position_first [OF ne] hd_distinct_desc [OF assms(1)] by simp
    then show ?thesis using ne by (simp add: score_def Let_def ntile_first QUINTILES_def)
  qed
  moreover have "score vs' v = score vs v" by (simp add: score_def distinct_desc_cong [OF assms(4)])
  ultimately show ?thesis using score_bounds assms(1,2) by blast
qed

section \<open>One row per customer, labelled exactly when measured\<close>

lemma measures_buyer:
  assumes "measures now w db c = Some m"
  shows "c \<in> set (buyers now w db)"
proof -
  from assms have "window_sales now w db c \<noteq> []" by (auto simp: measures_def Let_def)
  then show ?thesis by (force simp: buyers_def window_sales_def filter_empty_conv)
qed

lemma all_measures_mem:
  assumes "measures now w db c = Some m"
  shows "m \<in> set (all_measures now w db)"
proof -
  have "c \<in> set (buyers now w db)" using assms by (rule measures_buyer)
  moreover have "m = (the \<circ> measures now w db) c" using assms by simp
  ultimately show ?thesis
    unfolding all_measures_def List.map_filter_def set_map set_filter
    using assms by (cases m) (intro image_eqI [of _ _ c]; simp)
qed

lemma scores_bounds:
  assumes "measures now w db c = Some m" and "scores now w db m = (r, f, t)"
  shows "1 \<le> r \<and> r \<le> 5 \<and> 1 \<le> f \<and> f \<le> 5 \<and> 1 \<le> t \<and> t \<le> 5"
proof -
  let ?ms = "all_measures now w db"
  from all_measures_mem [OF assms(1)] have "fst m \<in> set (map fst ?ms)" "fst (snd m) \<in> set (map (fst \<circ> snd) ?ms)"
    "snd (snd m) \<in> set (map (snd \<circ> snd) ?ms)" by auto
  from this [THEN score_bounds] assms(2) show ?thesis
    by (auto simp: scores_def Let_def case_prod_unfold)
qed

lemma least_by_key:
  assumes "sort_key f xs = y # ys"
  shows "y \<in> set xs \<and> (\<forall>x\<in>set xs. f y \<le> f x)"
proof -
  have "sorted (map f (y # ys))" using sorted_sort_key [of f xs] by (simp only: assms)
  moreover have "set (y # ys) = set xs" by (metis assms set_sort)
  ultimately show ?thesis by auto
qed

lemma sort_key_Nil: "sort_key f xs = [] \<longleftrightarrow> xs = []"
  by (metis length_0_conv length_sort)

lemma best_match_Some:
  "best_match db today t = Some s \<Longrightarrow> s \<in> set (sdb_segments db) \<and> matches db today t s
    \<and> (\<forall>s'\<in>set (sdb_segments db). matches db today t s' \<longrightarrow> seg_id s \<le> seg_id s')"
  by (auto simp: best_match_def split: list.splits dest!: least_by_key)

lemma best_match_None: "best_match db today t = None \<longleftrightarrow> (\<forall>s\<in>set (sdb_segments db). \<not> matches db today t s)"
  by (auto simp: best_match_def sort_key_Nil filter_empty_conv split: list.splits dest!: least_by_key)

lemma fallback_Some:
  assumes "fallback_match db today = Some s"
  shows "s \<in> set (sdb_segments db) \<and> valid_segment today s \<and> map_of (sdb_labels db) (seg_label s) \<noteq> None
    \<and> (\<forall>s'\<in>set (sdb_segments db). valid_segment today s' \<and> map_of (sdb_labels db) (seg_label s') \<noteq> None \<longrightarrow>
        the (map_of (sdb_labels db) (seg_label s')) \<le> the (map_of (sdb_labels db) (seg_label s)))"
  using assms by (fastforce simp: fallback_match_def less_eq_prod_def split: list.splits dest!: least_by_key)

lemma fallback_None:
  "fallback_match db today = None \<longleftrightarrow>
    (\<forall>s\<in>set (sdb_segments db). \<not> (valid_segment today s \<and> map_of (sdb_labels db) (seg_label s) \<noteq> None))"
  by (auto simp: fallback_match_def sort_key_Nil filter_empty_conv split: list.splits dest!: least_by_key)

text \<open>What the rules decide for one customer, given the measures of the window.\<close>

definition usable_segment :: "sales_db \<Rightarrow> int \<Rightarrow> segment_row \<Rightarrow> bool" where
  "usable_segment db today s \<longleftrightarrow> valid_segment today s \<and> map_of (sdb_labels db) (seg_label s) \<noteq> None"

definition decided_by_rules :: "int \<Rightarrow> int \<Rightarrow> int \<Rightarrow> sales_db \<Rightarrow> scored_customer \<Rightarrow> bool" where
  "decided_by_rules now today w db row \<longleftrightarrow>
       (case measures now w db (sc_customer row) of
          None \<Rightarrow> row = \<lparr>sc_customer = sc_customer row, sc_last_purchase = None, sc_frequency = None, sc_monetary = None,
             sc_r = None, sc_f = None, sc_m = None, sc_segment = None, sc_label = None, sc_via_fallback = False\<rparr>
        | Some m \<Rightarrow> (\<exists>r f t s. scores now w db m = (r, f, t) \<and> {r, f, t} \<subseteq> {1..5}
            \<and> sc_last_purchase row = Some (fst m) \<and> sc_frequency row = Some (fst (snd m)) \<and> sc_monetary row = Some (snd (snd m))
            \<and> sc_r row = Some r \<and> sc_f row = Some f \<and> sc_m row = Some t
            \<and> s \<in> set (sdb_segments db) \<and> valid_segment today s
            \<and> sc_segment row = Some (seg_id s) \<and> sc_label row = Some (seg_label s)
            \<and> sc_via_fallback row = (\<forall>s'\<in>set (sdb_segments db). \<not> matches db today (r, f, t) s')
            \<and> (\<not> sc_via_fallback row \<longrightarrow> matches db today (r, f, t) s
                \<and> (\<forall>s'\<in>set (sdb_segments db). matches db today (r, f, t) s' \<longrightarrow> seg_id s \<le> seg_id s'))
            \<and> (sc_via_fallback row \<longrightarrow> (\<forall>s'\<in>set (sdb_segments db).
                valid_segment today s' \<and> map_of (sdb_labels db) (seg_label s') \<noteq> None \<longrightarrow>
                the (map_of (sdb_labels db) (seg_label s')) \<le> the (map_of (sdb_labels db) (seg_label s))))))"

lemma score_and_match_customer: "sc_customer (score_and_match now today w db c) = c"
  by (auto simp: score_and_match_def Let_def split: option.splits prod.splits)

lemma score_and_match_decided:
  assumes "s0 \<in> set (sdb_segments db)" and "usable_segment db today s0"
  shows "decided_by_rules now today w db (score_and_match now today w db c)"
proof -
  note id = score_and_match_customer
  define row where row: "row = score_and_match now today w db c"
  have "decided_by_rules now today w db row"
  proof (cases "measures now w db c")
    case None
    then show ?thesis by (simp add: row id decided_by_rules_def) (simp add: score_and_match_def)
  next
    case (Some m)
    obtain la fr to where m: "m = (la, fr, to)" by (cases m)
    obtain r f t where sc: "scores now w db m = (r, f, t)" by (cases "scores now w db m")
    have bounds: "{r, f, t} \<subseteq> {1..5}" using scores_bounds [OF Some sc] by simp
    have raw: "sc_last_purchase row = Some (fst m)" "sc_frequency row = Some (fst (snd m))" "sc_monetary row = Some (snd (snd m))"
      "sc_r row = Some r" "sc_f row = Some f" "sc_m row = Some t"
      using Some sc by (simp_all add: row score_and_match_def Let_def m)
    show ?thesis
    proof (cases "best_match db today (r, f, t)")
      case None
      from assms have "fallback_match db today \<noteq> None" by (auto simp: fallback_None usable_segment_def)
      then obtain s where fb: "fallback_match db today = Some s" by blast
      have "sc_segment row = Some (seg_id s)" "sc_label row = Some (seg_label s)" "sc_via_fallback row"
        using Some sc None fb by (simp_all add: row score_and_match_def Let_def m)
      with bounds raw fallback_Some [OF fb] None show ?thesis
        unfolding decided_by_rules_def row id Some option.case best_match_None by (intro exI [of _ r] exI [of _ f] exI [of _ t] exI [of _ s]) (simp add: sc row)
    next
      case (Some s)
      have "sc_segment row = Some (seg_id s)" "sc_label row = Some (seg_label s)" "\<not> sc_via_fallback row"
        using \<open>measures now w db c = Some m\<close> sc Some by (simp_all add: row score_and_match_def Let_def m)
      moreover have "valid_segment today s" using best_match_Some [OF Some] by (simp add: matches_def)
      moreover have "\<not> (\<forall>s'\<in>set (sdb_segments db). \<not> matches db today (r, f, t) s')"
        using best_match_Some [OF Some] by blast
      ultimately show ?thesis
        using bounds raw best_match_Some [OF Some] unfolding decided_by_rules_def row id \<open>measures now w db c = Some m\<close> option.case
        by (intro exI [of _ r] exI [of _ f] exI [of _ t] exI [of _ s]) (simp add: sc row)
    qed
  qed
  then show ?thesis by (simp only: row)
qed

text \<open>
  The decision of the rules: one row per customer, in the order of the ids; a customer without sales in
  the window carries nothing at all; one with sales carries all three raw values, three scores from 1 to 5,
  and the label of a segment that is valid today: the one with the lowest id whose band holds the triple,
  or, only when no band does, one with the worst label, and then the row says so.
\<close>

lemma rfm_rules_decision:
  assumes "s0 \<in> set (sdb_segments db)" and "usable_segment db today s0"
  shows "map sc_customer (score_rfm_rules now today w db) = sort (sdb_customers db)
    \<and> (\<forall>row\<in>set (score_rfm_rules now today w db). decided_by_rules now today w db row)"
  using score_and_match_decided [OF assms]
  by (simp add: score_rfm_rules_def comp_def score_and_match_customer)

definition example_sales_db :: sales_db where
  "example_sales_db = \<lparr>sdb_customers = [2, 1],
     sdb_sales = [\<lparr>sale_customer = 1, sale_at = 50, sale_total = 1000, sale_origin = ''OBSERVED''\<rparr>],
     sdb_segments = [\<lparr>seg_id = 7, seg_label = ''TOP'', seg_rule = 1, seg_from = 0, seg_to = None\<rparr>],
     sdb_rules = [\<lparr>rule_id = 1, r_band = (4, 5), f_band = (1, 5), m_band = (1, 5)\<rparr>],
     sdb_labels = [(''TOP'', 1)]\<rparr>"

end
