(* ===== verification/KMeans.thy ===== *)
theory KMeans
  imports Complex_Main Prelude
begin

text \<open>
  The K-means fit of \<open>web/services/kmeans.py\<close>: parameter validation, min-max normalisation,
  k-means++ initialisation, the assignment step, the empty-cluster policy, the centroid update,
  Lloyd's loop, the mean silhouette and the record a run stores.

  A Python float is a \<open>real\<close> here: the model has the arithmetic of the code without its rounding.
  What is proved of the assignment step and of the empty-cluster policy uses only the order of the
  distances, which floats have as well. A cluster number, an index or a count is a \<open>nat\<close>; an
  instant is an \<open>int\<close>, microseconds since the epoch. \<open>Random(seed).random()\<close> is a parameter
  \<open>rnd\<close>: \<open>rnd i\<close> is the value of the \<open>i\<close>-th call on a generator with that seed.
  Customer ids are any linearly ordered type.
\<close>

type_synonym point = "real \<times> real \<times> real"

section \<open>Parameters\<close>

text \<open>A value of a parameter that has to be a whole number, as \<open>__post_init__\<close> meets it.\<close>

datatype py_number = PyInt int | PyBool bool | PyOther
datatype py_float = Finite real | NonFinite

record kmeans_params =
  k_of :: int
  seed_of :: int
  max_iterations :: int
  tolerance :: real

datatype invalid_parameters =
    NotWhole string | KTooSmall | IterationsTooSmall | BadTolerance

fun whole :: "string \<Rightarrow> py_number \<Rightarrow> invalid_parameters + int" where
  "whole name (PyInt i) = Inr i"
| "whole name (PyBool b) = Inl (NotWhole name)"
| "whole name PyOther = Inl (NotWhole name)"

definition kmeans_params_post_init ::
  "py_number \<Rightarrow> py_number \<Rightarrow> py_number \<Rightarrow> py_float \<Rightarrow> invalid_parameters + kmeans_params" where
  "kmeans_params_post_init k seed iters tol =
    (case whole ''k'' k of Inl e \<Rightarrow> Inl e | Inr k' \<Rightarrow>
     case whole ''seed'' seed of Inl e \<Rightarrow> Inl e | Inr seed' \<Rightarrow>
     case whole ''max_iterations'' iters of Inl e \<Rightarrow> Inl e | Inr iters' \<Rightarrow>
     if k' < 1 then Inl KTooSmall
     else if iters' < 1 then Inl IterationsTooSmall
     else case tol of
         NonFinite \<Rightarrow> Inl BadTolerance
       | Finite t \<Rightarrow> if t < 0 then Inl BadTolerance
                   else Inr \<lparr>k_of = k', seed_of = seed', max_iterations = iters', tolerance = t\<rparr>)"

text \<open>What a constructed parameter object satisfies.\<close>

definition valid_params :: "kmeans_params \<Rightarrow> bool" where
  "valid_params p \<longleftrightarrow> 1 \<le> k_of p \<and> 1 \<le> max_iterations p \<and> 0 \<le> tolerance p"

lemma kmeans_params_post_init_valid:
  "kmeans_params_post_init k seed iters tol = Inr p \<Longrightarrow> valid_params p"
  by (auto simp: kmeans_params_post_init_def valid_params_def split: sum.splits if_splits py_float.splits)

section \<open>Normalisation\<close>

record 'c raw_rfm =
  customer_id :: 'c
  last_purchase_at :: int
  frequency :: int
  monetary :: real

text \<open>\<open>min\<close> and \<open>max\<close> of an empty sequence raise, which is the value \<open>None\<close>.\<close>

definition min_max :: "bool \<Rightarrow> real list \<Rightarrow> real list option" where
  "min_max reverse values =
    (if values = [] then None
     else let low = Min (set values); high = Max (set values) in
       if high = low then Some (replicate (length values) 0)
       else let span = high - low in
         if reverse then Some (map (\<lambda>v. (high - v) / span) values)
         else Some (map (\<lambda>v. (v - low) / span) values))"

definition microseconds_per_day :: real where
  "microseconds_per_day = 86400 * 1000000"

definition normalise :: "'c raw_rfm list \<Rightarrow> point list option" where
  "normalise rows =
    (if rows = [] then Some []
     else let latest = Max (set (map last_purchase_at rows));
              days = map (\<lambda>r. real_of_int (latest - last_purchase_at r) / microseconds_per_day) rows in
       case (min_max True days,
             min_max False (map (\<lambda>r. real_of_int (frequency r)) rows),
             min_max False (map monetary rows)) of
         (Some r, Some f, Some m) \<Rightarrow> Some (zip r (zip f m))
       | _ \<Rightarrow> None)"

section \<open>The pieces of Lloyd's algorithm\<close>

fun squared :: "point \<Rightarrow> point \<Rightarrow> real" where
  "squared (a0, a1, a2) (b0, b1, b2) = (a0 - b0) ^ 2 + (a1 - b1) ^ 2 + (a2 - b2) ^ 2"

text \<open>\<open>math.dist\<close>\<close>

definition dist3 :: "point \<Rightarrow> point \<Rightarrow> real" where
  "dist3 a b = sqrt (squared a b)"

lemma squared_nonneg [simp]: "0 \<le> squared a b"
  by (cases a; cases b) auto

lemma dist3_nonneg [simp]: "0 \<le> dist3 a b"
  by (simp add: dist3_def)

text \<open>
  The loop of \<open>nearest\<close>: the best index so far and its distance, replaced only by a strictly nearer
  centroid. Every caller passes at least one centroid; on none, Python raises \<open>IndexError\<close> where the
  definition has 0.
\<close>

fun nearest_loop :: "point \<Rightarrow> point list \<Rightarrow> nat \<Rightarrow> nat \<Rightarrow> real \<Rightarrow> nat" where
  "nearest_loop p [] index best best_distance = best"
| "nearest_loop p (c # cs) index best best_distance =
    (let distance = squared p c in
     if distance < best_distance then nearest_loop p cs (Suc index) index distance
     else nearest_loop p cs (Suc index) best best_distance)"

fun nearest :: "point \<Rightarrow> point list \<Rightarrow> nat" where
  "nearest p [] = 0"
| "nearest p (c # cs) = nearest_loop p cs 1 0 (squared p c)"

subsection \<open>k-means++\<close>

definition first_index :: "real \<Rightarrow> nat \<Rightarrow> nat" where
  "first_index u n = min (nat \<lfloor>u * real n\<rfloor>) (n - 1)"

text \<open>
  The walk over the weights: \<open>pick\<close> starts at \<open>-1\<close>, which is \<open>None\<close> here.
\<close>

fun pick_loop :: "real \<Rightarrow> nat \<Rightarrow> real list \<Rightarrow> nat option \<Rightarrow> real \<Rightarrow> nat option" where
  "pick_loop target index [] pick running = pick"
| "pick_loop target index (w # ws) pick running =
    (if w \<le> 0 then pick_loop target (Suc index) ws pick running
     else let running' = running + w in
       if target \<le> running' then Some index
       else pick_loop target (Suc index) ws (Some index) running')"

text \<open>
  One new centre per round until there are \<open>k\<close>. \<open>calls\<close> counts the values drawn from the
  generator. \<open>points[-1]\<close> would be the last point, and \<open>next\<close> of an exhausted generator raises;
  neither happens while fewer than \<open>k \<le> n\<close> centres are chosen (\<open>initial_centroids_from_points\<close>).
\<close>

function seed_loop ::
  "(nat \<Rightarrow> real) \<Rightarrow> point list \<Rightarrow> nat \<Rightarrow> nat \<Rightarrow> nat list \<Rightarrow> point list \<Rightarrow> real list \<Rightarrow> point list" where
  "seed_loop rnd points k calls chosen centres nearest_squared =
    (if length centres < k then
       let total = sum_list nearest_squared;
           n = length points;
           pick = (if total > 0
                   then (case pick_loop (rnd calls * total) 0 nearest_squared None 0 of
                           Some i \<Rightarrow> i | None \<Rightarrow> n - 1)
                   else (case find (\<lambda>i. i \<notin> set chosen) [0..<n] of Some i \<Rightarrow> i | None \<Rightarrow> n));
           calls' = (if total > 0 then Suc calls else calls);
           c = points ! pick
       in seed_loop rnd points k calls' (pick # chosen) (centres @ [c])
            (map2 (\<lambda>current p. min current (squared p c)) nearest_squared points)
     else centres)"
  by pat_completeness auto
termination
  by (relation "measure (\<lambda>(rnd, points, k, calls, chosen, centres, ns). k - length centres)") auto

declare seed_loop.simps [simp del]

definition initial_centroids :: "(nat \<Rightarrow> real) \<Rightarrow> point list \<Rightarrow> nat \<Rightarrow> point list" where
  "initial_centroids rnd points k =
    (let first = first_index (rnd 0) (length points); c = points ! first
     in seed_loop rnd points k 1 [first] [c] (map (\<lambda>p. squared p c) points))"

subsection \<open>The empty-cluster policy\<close>

text \<open>
  The scan for a donor: \<open>donor\<close> starts at \<open>-1\<close> (\<open>None\<close>) with \<open>farthest = -1.0\<close>; \<open>d i c\<close> is the squared
  distance of customer \<open>i\<close> from centroid \<open>c\<close>.
\<close>

fun donor_loop :: "(nat \<Rightarrow> nat \<Rightarrow> real) \<Rightarrow> nat list \<Rightarrow> nat \<Rightarrow> nat list \<Rightarrow> nat option \<Rightarrow> real \<Rightarrow> nat option" where
  "donor_loop d sizes index [] donor farthest = donor"
| "donor_loop d sizes index (c # cs) donor farthest =
    (if sizes ! c < 2 then donor_loop d sizes (Suc index) cs donor farthest
     else let distance = d index c in
       if distance > farthest then donor_loop d sizes (Suc index) cs (Some index) distance
       else donor_loop d sizes (Suc index) cs donor farthest)"

fun refill_loop ::
  "(nat \<Rightarrow> nat \<Rightarrow> real) \<Rightarrow> nat list \<Rightarrow> nat list \<Rightarrow> nat list \<Rightarrow> nat \<Rightarrow> nat list \<times> nat" where
  "refill_loop d [] sizes assigned moved = (assigned, moved)"
| "refill_loop d (c # rest) sizes assigned moved =
    (if sizes ! c \<noteq> 0 then refill_loop d rest sizes assigned moved
     else
       let donor = (case donor_loop d sizes 0 assigned None (-1) of
                      Some i \<Rightarrow> i | None \<Rightarrow> length assigned - 1);
           source = assigned ! donor;
           sizes' = (sizes[source := sizes ! source - 1])[c := 1]
       in refill_loop d rest sizes' (assigned[donor := c]) (Suc moved))"

definition refill_empty_clusters :: "point list \<Rightarrow> nat list \<Rightarrow> point list \<Rightarrow> nat list \<times> nat" where
  "refill_empty_clusters points assigned centroids =
    refill_loop (\<lambda>i c. squared (points ! i) (centroids ! c)) [0..<length centroids]
      (tally (length centroids) assigned) assigned 0"

subsection \<open>Centroids\<close>

fun add3 :: "point \<Rightarrow> point \<Rightarrow> point" where
  "add3 (a0, a1, a2) (b0, b1, b2) = (a0 + b0, a1 + b1, a2 + b2)"

fun scale3 :: "point \<Rightarrow> real \<Rightarrow> point" where
  "scale3 (a0, a1, a2) n = (a0 / n, a1 / n, a2 / n)"

fun means_step :: "point \<times> nat \<Rightarrow> point list \<times> nat list \<Rightarrow> point list \<times> nat list" where
  "means_step (p, c) (totals, counts) = (totals[c := add3 (totals ! c) p], counts[c := Suc (counts ! c)])"

text \<open>Division by a count of 0 raises; after \<open>refill_empty_clusters\<close> no count is 0.\<close>

definition means :: "point list \<Rightarrow> nat list \<Rightarrow> nat \<Rightarrow> point list" where
  "means points assigned k =
    (let (totals, counts) = fold means_step (zip points assigned) (replicate k (0, 0, 0), replicate k 0)
     in map2 (\<lambda>total count. scale3 total (real count)) totals counts)"

subsection \<open>Silhouette\<close>

definition SILHOUETTE_MAX_CUSTOMERS :: nat where "SILHOUETTE_MAX_CUSTOMERS = 2000"
definition SILHOUETTE_SAMPLE_SIZE :: nat where "SILHOUETTE_SAMPLE_SIZE = 1000"

text \<open>A partial Fisher-Yates shuffle: one swap per sampled position.\<close>

definition sample_step :: "(nat \<Rightarrow> real) \<Rightarrow> nat \<Rightarrow> nat \<Rightarrow> nat list \<Rightarrow> nat list" where
  "sample_step rnd n i pool =
    (let j = i + nat \<lfloor>rnd i * real (n - i)\<rfloor> in pool[i := pool ! j, j := pool ! i])"

definition silhouette_sample_of :: "(nat \<Rightarrow> real) \<Rightarrow> nat \<Rightarrow> nat list" where
  "silhouette_sample_of rnd n =
    (let sz = min SILHOUETTE_SAMPLE_SIZE n
     in sort (take sz (fold (sample_step rnd n) [0..<sz] [0..<n])))"

definition members_of :: "nat list \<Rightarrow> nat \<Rightarrow> nat list" where
  "members_of assigned c = filter (\<lambda>i. assigned ! i = c) [0..<length assigned]"

definition customer_silhouette :: "point list \<Rightarrow> nat list \<Rightarrow> nat \<Rightarrow> nat \<Rightarrow> real" where
  "customer_silhouette points assigned k index =
    (let own = assigned ! index; mine = members_of assigned own in
     if length mine = 1 then 0
     else
       let inside = sum_list (map (\<lambda>other. dist3 (points ! index) (points ! other))
                      (filter (\<lambda>other. other \<noteq> index) mine)) / real (length mine - 1);
           outside = Min (set (map (\<lambda>c. sum_list (map (\<lambda>other. dist3 (points ! index) (points ! other))
                        (members_of assigned c)) / real (length (members_of assigned c)))
                      (filter (\<lambda>c. c \<noteq> own \<and> members_of assigned c \<noteq> []) [0..<k])));
           scale = max inside outside
       in if scale = 0 then 0 else (outside - inside) / scale)"

definition silhouette_of ::
  "(nat \<Rightarrow> real) \<Rightarrow> point list \<Rightarrow> nat list \<Rightarrow> nat \<Rightarrow> real option \<times> nat option" where
  "silhouette_of rnd points assigned k =
    (let n = length points in
     if k < 2 then (None, None)
     else
       let sampled = SILHOUETTE_MAX_CUSTOMERS < n;
           chosen = (if sampled then silhouette_sample_of rnd n else [0..<n]);
           total = sum_list (map (customer_silhouette points assigned k) chosen)
       in (Some (total / real (length chosen)),
           if sampled then Some (length chosen) else None))"

section \<open>The fit\<close>

datatype stop_reason = StoppedOnTolerance | StoppedOnIterationLimit

text \<open>\<open>final_shift\<close> is \<open>None\<close> for the initial \<open>math.inf\<close>, which no finished fit carries.\<close>

record 'c kmeans_fit =
  fit_params :: kmeans_params
  customer_ids :: "'c list"
  fit_points :: "point list"
  assignments :: "nat list"
  centroids :: "point list"
  iterations :: nat
  converged :: bool
  stopped_on :: stop_reason
  final_shift :: "real option"
  empty_cluster_events :: nat
  inertia :: real
  silhouette :: "real option"
  cluster_sizes :: "nat list"
  silhouette_sample :: "nat option"

text \<open>\<open>KMeansFit.members\<close>\<close>

definition fit_members :: "'c kmeans_fit \<Rightarrow> nat \<Rightarrow> 'c list" where
  "fit_members r c = map fst (filter (\<lambda>(customer, assigned). assigned = c)
     (zip (customer_ids r) (assignments r)))"

datatype fit_error = NotPaired | CustomerTwice | TooFewCustomers nat int

definition shift_within :: "real option \<Rightarrow> real \<Rightarrow> bool" where
  "shift_within shift tol = (case shift of None \<Rightarrow> False | Some s \<Rightarrow> s \<le> tol)"

text \<open>The \<open>for\<close> loop of \<open>fit\<close>: \<open>remaining\<close> iterations are left, \<open>iters\<close> are over.\<close>

fun lloyd ::
  "point list \<Rightarrow> nat \<Rightarrow> real \<Rightarrow> nat \<Rightarrow> nat \<Rightarrow> point list \<Rightarrow> nat \<Rightarrow> real option
    \<Rightarrow> point list \<times> nat \<times> real option \<times> nat" where
  "lloyd data k tol 0 iters cs events shift = (cs, events, shift, iters)"
| "lloyd data k tol (Suc remaining) iters cs events shift =
    (let (assigned, moved) = refill_empty_clusters data (map (\<lambda>p. nearest p cs) data) cs;
         updated = means data assigned k;
         shift' = Max (set (map2 dist3 cs updated))
     in if shift' \<le> tol then (updated, events + moved, Some shift', Suc iters)
        else lloyd data k tol remaining (Suc iters) updated (events + moved) (Some shift'))"

definition fit ::
  "(int \<Rightarrow> nat \<Rightarrow> real) \<Rightarrow> (int \<Rightarrow> nat \<Rightarrow> real) \<Rightarrow> 'c::linorder list \<Rightarrow> point list \<Rightarrow> kmeans_params
    \<Rightarrow> fit_error + 'c kmeans_fit" where
  "fit rnd rnd_silhouette ids0 points params =
    (let n = length ids0; k = nat (k_of params) in
     if n \<noteq> length points then Inl NotPaired
     else if \<not> distinct ids0 then Inl CustomerTwice
     else if int n < k_of params then Inl (TooFewCustomers n (k_of params))
     else
       let order = sort_key (\<lambda>i. ids0 ! i) [0..<n];
           ids = map (\<lambda>i. ids0 ! i) order;
           data = map (\<lambda>i. points ! i) order;
           (cs, events, shift, iters) =
             lloyd data k (tolerance params) (nat (max_iterations params)) 0
               (initial_centroids (rnd (seed_of params)) data k) 0 None;
           conv = shift_within shift (tolerance params);
           (assigned, moved) = refill_empty_clusters data (map (\<lambda>p. nearest p cs) data) cs;
           (sil, sample) = silhouette_of (rnd_silhouette (seed_of params)) data assigned k
       in Inr \<lparr>fit_params = params, customer_ids = ids, fit_points = data, assignments = assigned,
               centroids = cs, iterations = iters, converged = conv,
               stopped_on = (if conv then StoppedOnTolerance else StoppedOnIterationLimit),
               final_shift = shift, empty_cluster_events = events + moved,
               inertia = sum_list (map2 (\<lambda>p c. squared p (cs ! c)) data assigned),
               silhouette = sil, cluster_sizes = rev (sort (tally k assigned)),
               silhouette_sample = sample\<rparr>)"

datatype fit_rows_error = NoRange | FitError fit_error

definition fit_customers ::
  "(int \<Rightarrow> nat \<Rightarrow> real) \<Rightarrow> (int \<Rightarrow> nat \<Rightarrow> real) \<Rightarrow> 'c::linorder raw_rfm list \<Rightarrow> kmeans_params
    \<Rightarrow> fit_rows_error + 'c kmeans_fit" where
  "fit_customers rnd rnd_silhouette rows params =
    (case normalise rows of
       None \<Rightarrow> Inl NoRange
     | Some points \<Rightarrow>
         (case fit rnd rnd_silhouette (map customer_id rows) points params of
            Inl e \<Rightarrow> Inl (FitError e) | Inr r \<Rightarrow> Inr r))"

section \<open>Assignment to the nearest centroid\<close>

definition nearest_upto :: "point \<Rightarrow> point list \<Rightarrow> nat \<Rightarrow> bool" where
  "nearest_upto p cs j \<longleftrightarrow> j < length cs
    \<and> (\<forall>i < length cs. squared p (cs ! j) \<le> squared p (cs ! i))
    \<and> (\<forall>i < j. squared p (cs ! j) < squared p (cs ! i))"

lemma nearest_loop_upto:
  assumes "nearest_upto p pre best"
  shows "nearest_upto p (pre @ cs) (nearest_loop p cs (length pre) best (squared p (pre ! best)))"
  using assms
proof (induction cs arbitrary: pre best)
  case (Cons c cs)
  let ?b = "if squared p c < squared p (pre ! best) then length pre else best"
  have "nearest_upto p (pre @ [c]) ?b"
    using Cons.prems unfolding nearest_upto_def
    by (fastforce simp: nth_append less_Suc_eq)
  from Cons.IH [OF this] Cons.prems show ?case
    by (auto simp: Let_def nth_append nearest_upto_def split: if_splits)
qed simp

lemma nearest_upto_nearest:
  assumes "cs \<noteq> []"
  shows "nearest_upto p cs (nearest p cs)"
proof -
  from assms obtain c ds where cs: "cs = c # ds" by (cases cs) auto
  have "nearest_upto p [c] 0" by (simp add: nearest_upto_def)
  from nearest_loop_upto [OF this, of ds] show ?thesis by (simp add: cs)
qed

lemma nearest_less: "cs \<noteq> [] \<Longrightarrow> nearest p cs < length cs"
  using nearest_upto_nearest by (auto simp: nearest_upto_def)

section \<open>No cluster ends empty\<close>

lemma donor_loop_Cons:
  "donor_loop d sizes idx (c # cs) donor far =
    donor_loop d sizes (Suc idx) cs
      (if 2 \<le> sizes ! c \<and> far < d idx c then Some idx else donor)
      (if 2 \<le> sizes ! c \<and> far < d idx c then d idx c else far)"
  by (simp add: Let_def)

declare donor_loop.simps(2) [simp del]

lemma donor_loop_mem:
  "donor_loop d sizes idx cs donor far = Some i \<Longrightarrow>
    donor = Some i \<or> (\<exists>m < length cs. i = idx + m \<and> 2 \<le> sizes ! (cs ! m))"
proof (induction cs arbitrary: idx donor far)
  case (Cons c cs)
  let ?upd = "2 \<le> sizes ! c \<and> far < d idx c"
  from Cons.prems have "donor_loop d sizes (Suc idx) cs (if ?upd then Some idx else donor)
      (if ?upd then d idx c else far) = Some i"
    by (simp only: donor_loop_Cons)
  from Cons.IH [OF this] show ?case
  proof
    assume "(if ?upd then Some idx else donor) = Some i"
    then show ?thesis by (cases ?upd) auto
  next
    assume "\<exists>m<length cs. i = Suc idx + m \<and> 2 \<le> sizes ! (cs ! m)"
    then obtain m where "m < length cs" "i = Suc idx + m" "2 \<le> sizes ! (cs ! m)" by blast
    then have "Suc m < length (c # cs) \<and> i = idx + Suc m \<and> 2 \<le> sizes ! ((c # cs) ! Suc m)" by simp
    then show ?thesis by blast
  qed
qed simp

lemma donor_loop_keeps: "donor_loop d sizes idx cs (Some j) far \<noteq> None"
  by (induction cs arbitrary: idx j far) (simp_all add: donor_loop_Cons)

lemma donor_loop_found:
  assumes "\<exists>c \<in> set cs. 2 \<le> sizes ! c" and "\<forall>i c. 0 \<le> d i c" and "far < 0"
  shows "donor_loop d sizes idx cs None far \<noteq> None"
  using assms
proof (induction cs arbitrary: idx)
  case (Cons c cs)
  have "far < d idx c" using Cons.prems(2,3) by (meson less_le_trans)
  with Cons show ?case
    by (cases "2 \<le> sizes ! c") (auto simp: donor_loop_Cons donor_loop_keeps)
qed simp

text \<open>
  The state of the policy after the clusters below \<open>e\<close> are done: the sizes are the counts of the
  assignment, no cluster is out of range and none below \<open>e\<close> is empty.
\<close>

definition refill_inv :: "nat \<Rightarrow> nat \<Rightarrow> nat list \<Rightarrow> nat list \<Rightarrow> bool" where
  "refill_inv k e sizes assigned \<longleftrightarrow>
    (\<forall>x \<in> set assigned. x < k) \<and> sizes = tally k assigned \<and> (\<forall>c < e. c \<in> set assigned)"

lemma pigeonhole_two:
  assumes "\<forall>x \<in> set assigned. x < (k :: nat)" and "k \<le> length assigned" and "e < k" and "e \<notin> set assigned"
  shows "\<exists>c \<in> set assigned. 2 \<le> tally k assigned ! c"
proof (rule ccontr)
  assume "\<not> ?thesis"
  then have le1: "count_list assigned c \<le> 1" if "c < k" for c
    using assms(1) that by (cases "c \<in> set assigned") (auto simp: tally_nth not_le)
  have "length assigned = (\<Sum>c<k. count_list assigned c)"
    using assms(1) by (simp add: sum_list_count_list)
  also have "\<dots> = (\<Sum>c \<in> {..<k} - {e}. count_list assigned c)"
    using assms(3,4) by (subst sum.remove [of _ e]) auto
  also have "\<dots> \<le> (\<Sum>c \<in> {..<k} - {e}. 1)"
    using le1 by (intro sum_mono) auto
  also have "\<dots> = k - 1" using assms(3) by simp
  finally show False using assms(2,3) by simp
qed

lemma refill_step:
  assumes inv: "refill_inv k e sizes assigned" and "e < k" and "k \<le> length assigned"
    and "\<forall>i c. 0 \<le> d i c" and "sizes ! e = 0"
  obtains i where "donor_loop d sizes 0 assigned None (-1) = Some i" and "i < length assigned"
    and "refill_inv k (Suc e) ((sizes[assigned ! i := sizes ! (assigned ! i) - 1])[e := 1]) (assigned[i := e])"
    and "set assigned \<subseteq> set (assigned[i := e])"
proof -
  from inv have bnd: "\<forall>x \<in> set assigned. x < k" and sz: "sizes = tally k assigned"
    and below: "\<forall>c < e. c \<in> set assigned"
    by (auto simp: refill_inv_def)
  from assms(2,5) sz bnd have e0: "e \<notin> set assigned"
    by (simp add: tally_nth count_list_0_iff)
  from pigeonhole_two [OF bnd assms(3,2) e0] have "donor_loop d sizes 0 assigned None (-1) \<noteq> None"
    using assms(4) sz by (intro donor_loop_found) auto
  then obtain i where i: "donor_loop d sizes 0 assigned None (-1) = Some i" by blast
  from donor_loop_mem [OF this] have il: "i < length assigned" and two: "2 \<le> sizes ! (assigned ! i)"
    by auto
  have src: "assigned ! i < k" and ne: "assigned ! i \<noteq> e"
    using il bnd e0 nth_mem by fastforce+
  have bnd': "\<forall>x \<in> set (assigned[i := e]). x < k"
    using bnd assms(2) set_update_subset_insert [of assigned i e] by blast
  have cnt: "count_list (assigned[i := e]) c =
     (if c = e then Suc (count_list assigned c)
      else if c = assigned ! i then count_list assigned c - 1 else count_list assigned c)" for c
    using count_list_update [OF il ne] .
  have sub: "set assigned \<subseteq> set (assigned[i := e])"
  proof
    fix c assume c: "c \<in> set assigned"
    have "0 < count_list (assigned[i := e]) c"
      using c two sz src bnd by (auto simp: cnt count_list_pos tally_nth)
    then show "c \<in> set (assigned[i := e])" by (simp add: count_list_pos)
  qed
  have "refill_inv k (Suc e) ((sizes[assigned ! i := sizes ! (assigned ! i) - 1])[e := 1]) (assigned[i := e])"
    unfolding refill_inv_def
  proof (intro conjI)
    show "(sizes[assigned ! i := sizes ! (assigned ! i) - 1])[e := 1] = tally k (assigned[i := e])"
      using bnd bnd' e0 ne assms(2) src
      by (intro nth_equalityI) (auto simp: sz tally_nth cnt nth_list_update count_list_0_iff)
    show "\<forall>c<Suc e. c \<in> set (assigned[i := e])"
      using below sub il by (auto simp: less_Suc_eq set_update_memI)
  qed (use bnd' in auto)
  from that [OF i il this sub] show thesis .
qed

lemma refill_loop_spec:
  assumes "refill_inv k e sizes assigned" and "e \<le> k" and "k \<le> length assigned"
    and "\<forall>i c. 0 \<le> d i c"
    and "refill_loop d [e..<k] sizes assigned moved = (assigned', moved')"
  shows "set assigned' = {..<k} \<and> length assigned' = length assigned
    \<and> moved' = moved + card ({e..<k} - set assigned)"
  using assms
proof (induction "k - e" arbitrary: e sizes assigned moved)
  case 0
  then show ?case by (auto simp: refill_inv_def)
next
  case (Suc m)
  then have ek: "e < k" and upt: "[e..<k] = e # [Suc e..<k]" by (auto simp: upt_rec)
  from Suc.prems(1) ek have sz: "sizes ! e = count_list assigned e"
    by (simp add: refill_inv_def tally_nth)
  show ?case
  proof (cases "sizes ! e = 0")
    case False
    with sz have mem: "e \<in> set assigned" by (simp add: count_list_0_iff)
    have "refill_inv k (Suc e) sizes assigned"
      using Suc.prems(1) mem by (auto simp: refill_inv_def less_Suc_eq)
    moreover have "{Suc e..<k} - set assigned = {e..<k} - set assigned" using mem by (auto simp: Suc_le_eq le_less)
    ultimately show ?thesis
      using Suc.hyps(1) [of "Suc e" sizes assigned moved] Suc.hyps(2) Suc.prems upt False ek by auto
  next
    case True
    from refill_step [OF Suc.prems(1) ek Suc.prems(3,4) True]
    obtain i where i: "donor_loop d sizes 0 assigned None (-1) = Some i" "i < length assigned"
      and inv: "refill_inv k (Suc e) ((sizes[assigned ! i := sizes ! (assigned ! i) - 1])[e := 1]) (assigned[i := e])"
      and sub: "set assigned \<subseteq> set (assigned[i := e])" .
    from True sz have out: "e \<notin> set assigned" by (simp add: count_list_0_iff)
    have seteq: "set (assigned[i := e]) = insert e (set assigned)"
      using sub i(2) set_update_subset_insert [of assigned i e] set_update_memI [OF i(2)] by blast
    have diff: "{e..<k} - set assigned = insert e ({Suc e..<k} - set (assigned[i := e]))"
      unfolding seteq using out ek by (auto simp: Suc_le_eq le_less)
    have run: "refill_loop d [Suc e..<k]
        ((sizes[assigned ! i := sizes ! (assigned ! i) - 1])[e := 1]) (assigned[i := e]) (Suc moved)
        = (assigned', moved')"
      using Suc.prems(5) True i(1) unfolding upt by (simp add: Let_def)
    have "set assigned' = {..<k} \<and> length assigned' = length (assigned[i := e])
        \<and> moved' = Suc moved + card ({Suc e..<k} - set (assigned[i := e]))"
      by (rule Suc.hyps(1) [OF _ inv _ _ Suc.prems(4) run])
        (use Suc.hyps(2) Suc.prems(3) ek in simp_all)
    moreover have "card ({e..<k} - set assigned) = Suc (card ({Suc e..<k} - set (assigned[i := e])))"
      unfolding diff by (subst card_insert_disjoint) auto
    ultimately show ?thesis by simp
  qed
qed

lemma refill_spec:
  assumes "\<forall>x \<in> set assigned. x < length cs" and "length cs \<le> length assigned"
    and "refill_empty_clusters points assigned cs = (assigned', moved)"
  shows "set assigned' = {..<length cs}" and "length assigned' = length assigned"
    and "moved = card ({..<length cs} - set assigned)"
proof -
  have "refill_inv (length cs) 0 (tally (length cs) assigned) assigned"
    using assms(1) by (simp add: refill_inv_def)
  from refill_loop_spec [OF this _ assms(2), of "\<lambda>i c. squared (points ! i) (cs ! c)" 0 assigned' moved]
  have "set assigned' = {..<length cs} \<and> length assigned' = length assigned
      \<and> moved = card ({..<length cs} - set assigned)"
    using assms(3) by (simp add: refill_empty_clusters_def atLeast0LessThan)
  then show "set assigned' = {..<length cs}" and "length assigned' = length assigned"
    and "moved = card ({..<length cs} - set assigned)" by auto
qed

section \<open>Lloyd's loop\<close>

lemma length_fold_means:
  "length (fst (fold means_step xs (t, n))) = length t \<and> length (snd (fold means_step xs (t, n))) = length n"
proof (induction xs arbitrary: t n)
  case (Cons x xs)
  then show ?case by (cases x) simp
qed simp

lemma length_means [simp]: "length (means points assigned k) = k"
  using length_fold_means [of "zip points assigned" "replicate k (0, 0, 0)" "replicate k 0"]
  by (simp add: means_def case_prod_beta)

lemma lloyd_spec:
  assumes "lloyd data k tol remaining iters cs events shift = (cs', events', shift', iters')"
    and "length cs = k" and "0 < k" and "k \<le> length data"
  shows "length cs' = k \<and> iters \<le> iters' \<and> iters' \<le> iters + remaining
    \<and> (0 < remaining \<longrightarrow> iters < iters' \<and> shift' \<noteq> None)
    \<and> (iters' < iters + remaining \<longrightarrow> shift_within shift' tol)"
  using assms
proof (induction data k tol remaining iters cs events shift rule: lloyd.induct)
  case (1 data k tol iters cs events shift)
  then show ?case by auto
next
  case (2 data k tol remaining iters cs events shift)
  let ?as = "map (\<lambda>p. nearest p cs) data"
  obtain assigned moved where r: "refill_empty_clusters data ?as cs = (assigned, moved)" by fastforce
  let ?upd = "means data assigned k"
  let ?s = "Max (set (map2 dist3 cs ?upd))"
  show ?case
  proof (cases "?s \<le> tol")
    case True
    with 2 r show ?thesis by (auto simp: Let_def shift_within_def)
  next
    case False
    from False 2(2) r have "lloyd data k tol remaining (Suc iters) ?upd (events + moved) (Some ?s)
        = (cs', events', shift', iters')"
      by (simp add: Let_def)
    from 2(1) [OF r [symmetric] refl refl refl False this] 2(3-) show ?thesis
      using \<open>lloyd data k tol remaining (Suc iters) ?upd (events + moved) (Some ?s) = _\<close>
      by (cases remaining) auto
  qed
qed

lemma seed_loop_length:
  "length centres \<le> k \<Longrightarrow> length (seed_loop rnd points k calls chosen centres ns) = k"
proof (induction rnd points k calls chosen centres ns rule: seed_loop.induct)
  case (1 rnd points k calls chosen centres ns)
  show ?case
    by (subst seed_loop.simps) (use 1 in \<open>auto simp: Let_def\<close>)
qed

lemma length_initial_centroids: "0 < k \<Longrightarrow> length (initial_centroids rnd points k) = k"
  by (simp add: initial_centroids_def Let_def seed_loop_length)

section \<open>The order rows arrive in\<close>

lemma sort_index_zip:
  assumes "distinct ids" and "length ids = length ps"
  shows "map (nth (zip ids ps)) (sort_key (nth ids) [0..<length ids]) = sort_key fst (zip ids ps)"
proof (rule sort_key_inj_key_eq [symmetric])
  let ?order = "sort_key (nth ids) [0..<length ids]"
  have "map (nth (zip ids ps)) [0..<length ids] = zip ids ps"
    using assms(2) map_nth [of "zip ids ps"] by simp
  then show "mset (zip ids ps) = mset (map (nth (zip ids ps)) ?order)"
    by (metis mset_map mset_sort)
  show "inj_on fst (set (zip ids ps))"
    using assms by (auto simp: inj_on_def in_set_zip nth_eq_iff_index_eq)
  have "map fst (map (nth (zip ids ps)) ?order) = map (nth ids) ?order"
    using assms(2) by simp
  then show "sorted (map fst (map (nth (zip ids ps)) ?order))"
    by (simp only: sorted_sort_key)
qed

lemma fit_rows:
  assumes "distinct ids" and "length ids = length ps"
  shows "map (nth ids) (sort_key (nth ids) [0..<length ids]) = map fst (sort_key fst (zip ids ps))"
    and "map (nth ps) (sort_key (nth ids) [0..<length ids]) = map snd (sort_key fst (zip ids ps))"
  using assms by (simp_all flip: sort_index_zip)

lemma sort_key_fst_zip:
  assumes "distinct ids" and "length ids = length ps"
  shows "map fst (sort_key fst (zip ids ps)) = sort ids"
proof (rule sym, rule sort_key_inj_key_eq)
  have "mset (map fst (sort_key fst (zip ids ps))) = mset (map fst (zip ids ps))"
    by (simp only: mset_map mset_sort)
  then show "mset ids = mset (map fst (sort_key fst (zip ids ps)))"
    using assms(2) by simp
qed simp_all

lemma fit_cases:
  fixes rnd rnd' :: "int \<Rightarrow> nat \<Rightarrow> real"
  assumes len: "length ids0 = length points" and dist: "distinct ids0"
    and enough: "k_of params \<le> int (length ids0)" and valid: "valid_params params"
    and k_def: "k = nat (k_of params)"
  obtains r where "fit rnd rnd' ids0 points params = Inr r" and "customer_ids r = sort ids0"
    and "0 < k" and "length (fit_points r) = length ids0" and "length (centroids r) = k"
    and "set (assignments r) = {..<k}" and "length (assignments r) = length ids0"
    and "1 \<le> iterations r" and "iterations r \<le> nat (max_iterations params)"
    and "final_shift r \<noteq> None" and "converged r = shift_within (final_shift r) (tolerance params)"
    and "stopped_on r = (if converged r then StoppedOnTolerance else StoppedOnIterationLimit)"
    and "iterations r < nat (max_iterations params) \<Longrightarrow> converged r"
    and "silhouette_of (rnd' (seed_of params)) (fit_points r) (assignments r) k = (silhouette r, silhouette_sample r)"
    and "cluster_sizes r = rev (sort (tally k (assignments r)))"
proof -
  let ?rows = "sort_key fst (zip ids0 points)"
  let ?data = "map snd ?rows"
  obtain cs events shift iters where l: "lloyd ?data k (tolerance params) (nat (max_iterations params)) 0
      (initial_centroids (rnd (seed_of params)) ?data k) 0 None = (cs, events, shift, iters)"
    by (metis prod_cases4)
  obtain assigned moved where r: "refill_empty_clusters ?data (map (\<lambda>p. nearest p cs) ?data) cs = (assigned, moved)"
    by fastforce
  obtain sil sample where sl: "silhouette_of (rnd' (seed_of params)) ?data assigned k = (sil, sample)"
    by fastforce
  have k: "0 < k" and kn: "k \<le> length ?data" and m: "0 < nat (max_iterations params)"
    using assms by (auto simp: valid_params_def)
  note ls = lloyd_spec [OF l length_initial_centroids [OF k] k kn]
  have "cs \<noteq> []" using ls k by auto
  then have near: "\<forall>x \<in> set (map (\<lambda>p. nearest p cs) ?data). x < length cs"
    by (auto simp: nearest_less)
  have rs: "set assigned = {..<k}" "length assigned = length ids0"
    using refill_spec [OF near _ r] ls kn len by auto
  let ?res = "\<lparr>fit_params = params, customer_ids = map fst ?rows,
     fit_points = ?data, assignments = assigned, centroids = cs, iterations = iters,
     converged = shift_within shift (tolerance params),
     stopped_on = (if shift_within shift (tolerance params) then StoppedOnTolerance else StoppedOnIterationLimit),
     final_shift = shift, empty_cluster_events = events + moved,
     inertia = sum_list (map2 (\<lambda>p c. squared p (cs ! c)) ?data assigned),
     silhouette = sil, cluster_sizes = rev (sort (tally k assigned)), silhouette_sample = sample\<rparr>"
  have "\<not> int (length ids0) < k_of params" using enough by simp
  then have res: "fit rnd rnd' ids0 points params = Inr ?res"
    unfolding fit_def Let_def fit_rows [OF dist len] k_def [symmetric] l prod.case r sl
    using len dist by (simp only: not_True_eq_False if_False simp_thms)
  show thesis
    by (rule that [OF res])
      (use ls m rs k len sl sort_key_fst_zip [OF dist len] in simp_all)
qed

lemma fit_refused:
  "length ids \<noteq> length points \<Longrightarrow> fit rnd rnd' ids points p = Inl NotPaired"
  "length ids = length points \<Longrightarrow> \<not> distinct ids \<Longrightarrow> fit rnd rnd' ids points p = Inl CustomerTwice"
  "length ids = length points \<Longrightarrow> distinct ids \<Longrightarrow> int (length ids) < k_of p
     \<Longrightarrow> fit rnd rnd' ids points p = Inl (TooFewCustomers (length ids) (k_of p))"
  by (simp_all add: fit_def)

text \<open>
  C5. A fit of distinct customers with at least as many customers as clusters always returns, and
  what it returns is a partition: every customer has a cluster, all \<open>k\<close> clusters hold somebody, the
  recorded sizes are \<open>k\<close> positive numbers, largest first, that add up to the customers, and the loop
  ran between one and \<open>max_iterations\<close> times.
\<close>

theorem fit_partitions_customers:
  assumes "valid_params p" and "length ids = length points" and "distinct ids"
    and "k_of p \<le> int (length ids)"
  shows "\<exists>r. fit rnd rnd' ids points p = Inr r \<and> customer_ids r = sort ids
    \<and> length (assignments r) = length ids \<and> set (assignments r) = {..<nat (k_of p)}
    \<and> length (centroids r) = nat (k_of p)
    \<and> length (cluster_sizes r) = nat (k_of p) \<and> 0 \<notin> set (cluster_sizes r)
    \<and> sum_list (cluster_sizes r) = length ids \<and> sorted (rev (cluster_sizes r))
    \<and> 1 \<le> iterations r \<and> iterations r \<le> nat (max_iterations p)"
proof -
  obtain r where f: "fit rnd rnd' ids points p = Inr r" "customer_ids r = sort ids"
    and n: "length (assignments r) = length ids" "length (centroids r) = nat (k_of p)"
    and it: "1 \<le> iterations r" "iterations r \<le> nat (max_iterations p)"
    and full: "set (assignments r) = {..<nat (k_of p)}"
    and sizes: "cluster_sizes r = rev (sort (tally (nat (k_of p)) (assignments r)))"
    using fit_cases [OF assms(2,3,4,1) refl, of rnd rnd'] by metis
  have bnd: "\<forall>x \<in> set (assignments r). x < nat (k_of p)" using full by auto
  have "count_list (assignments r) c \<noteq> 0" if "c < nat (k_of p)" for c
    using that full by (metis count_list_0_iff lessThan_iff)
  then have "0 \<notin> set (cluster_sizes r)"
    unfolding sizes tally_eq [OF bnd] by fastforce
  moreover have "sum_list (cluster_sizes r) = length ids"
    using sum_list_tally [OF bnd] n(1) unfolding sizes by (metis mset_rev mset_sort sum_mset_sum_list)
  moreover have "length (cluster_sizes r) = nat (k_of p)" "sorted (rev (cluster_sizes r))"
    by (simp_all add: sizes)
  ultimately show ?thesis using f n it full by (intro exI [of _ r] conjI)
qed

definition example_params :: kmeans_params where
  "example_params = \<lparr>k_of = 2, seed_of = 7, max_iterations = 100, tolerance = 1 / 10000\<rparr>"

lemma valid_example_params: "valid_params example_params"
  by (simp add: valid_params_def example_params_def)

theorem fit_partitions_customers_witness:
  "\<exists>r. fit (\<lambda>_ _. 0) (\<lambda>_ _. 0) [3, 1, 2 :: nat] [(0, 0, 0), (1, 1, 1), (0, 1, 0)] example_params = Inr r
    \<and> customer_ids r = [1, 2, 3] \<and> set (assignments r) = {..<2} \<and> sum_list (cluster_sizes r) = 3"
  using fit_partitions_customers [OF valid_example_params, of "[3, 1, 2 :: nat]"
      "[(0, 0, 0), (1, 1, 1), (0, 1, 0)]" "\<lambda>_ _. 0" "\<lambda>_ _. 0"]
  by (auto simp: example_params_def)

text \<open>
  A fit never claims to have settled when it did not: the final shift is finite, \<open>converged\<close> says
  exactly whether it is within the tolerance, \<open>stopped_on\<close> agrees with it, and a fit that is not
  converged used every iteration it was allowed.
\<close>

lemma fit_reports_convergence:
  assumes "valid_params p" and "fit rnd rnd' ids points p = Inr r"
  shows "\<exists>shift. final_shift r = Some shift \<and> converged r = (shift \<le> tolerance p)
    \<and> (stopped_on r = StoppedOnTolerance) = converged r
    \<and> (\<not> converged r \<longrightarrow> iterations r = nat (max_iterations p))"
proof -
  have ok: "length ids = length points" "distinct ids" "k_of p \<le> int (length ids)"
    using assms(2) fit_refused [where ids = ids and points = points and rnd = rnd and rnd' = rnd' and p = p] by (metis Inl_Inr_False not_less)+
  obtain r' where r': "fit rnd rnd' ids points p = Inr r'" "final_shift r' \<noteq> None"
    "converged r' = shift_within (final_shift r') (tolerance p)"
    "stopped_on r' = (if converged r' then StoppedOnTolerance else StoppedOnIterationLimit)"
    "iterations r' < nat (max_iterations p) \<Longrightarrow> converged r'" "iterations r' \<le> nat (max_iterations p)"
    using fit_cases [OF ok assms(1) refl, of rnd rnd'] by metis
  with assms(2) have "r' = r" by simp
  with r' show ?thesis by (auto simp: shift_within_def le_less)
qed

text \<open>
  C29. The order customers arrive in cannot reach a fit: the same customers with the same points give
  the same result, whatever permutation they are listed in.
\<close>

theorem fit_order_independent:
  assumes "length ids = length points" and "length ids' = length points'"
    and "mset (zip ids points) = mset (zip ids' points')"
  shows "fit rnd rnd' ids points p = fit rnd rnd' ids' points' p"
proof -
  have m: "mset ids = mset ids'"
    using arg_cong [OF assms(3), of "image_mset fst"] assms(1,2) by (simp flip: mset_map)
  then have len: "length ids = length ids'" and dist: "distinct ids = distinct ids'"
    by (auto dest: mset_eq_length mset_eq_imp_distinct_iff)
  show ?thesis
  proof (cases "distinct ids")
    case False
    with dist len assms(1,2) show ?thesis by (simp add: fit_refused)
  next
    case True
    with dist have True': "distinct ids'" by simp
    have "inj_on fst (set (zip ids points))"
      using True assms(1) by (auto simp: inj_on_def in_set_zip nth_eq_iff_index_eq)
    with assms(3) have rows: "sort_key fst (zip ids points) = sort_key fst (zip ids' points')"
      by (rule sort_key_eq_sort_key)
    have e1: "map (nth ids) (sort_key (nth ids) [0..<length ids])
        = map (nth ids') (sort_key (nth ids') [0..<length ids'])"
      and e2: "map (nth points) (sort_key (nth ids) [0..<length ids])
        = map (nth points') (sort_key (nth ids') [0..<length ids'])"
      by (simp_all only: fit_rows [OF True assms(1)] fit_rows [OF True' assms(2)] rows)
    show ?thesis
      unfolding fit_def Let_def e1 e2 using dist len assms(1,2) by (simp only:)
  qed
qed

theorem fit_order_independent_witness:
  "fit (\<lambda>_ _. 0) (\<lambda>_ _. 0) [1, 2 :: nat] [(0, 0, 0), (1, 1, 1)] example_params
    = fit (\<lambda>_ _. 0) (\<lambda>_ _. 0) [2, 1] [(1, 1, 1), (0, 0, 0)] example_params"
  by (rule fit_order_independent) simp_all

text \<open>
  \<open>nearest\<close> returns the lowest-numbered of the nearest centroids: no centroid is nearer, and every
  lower-numbered one is strictly farther.
\<close>

lemma nearest_is_lowest_minimum:
  assumes "cs \<noteq> []"
  shows "nearest p cs < length cs
    \<and> (\<forall>i < length cs. squared p (cs ! nearest p cs) \<le> squared p (cs ! i))
    \<and> (\<forall>i < nearest p cs. squared p (cs ! nearest p cs) < squared p (cs ! i))"
  using nearest_upto_nearest [OF assms] by (simp add: nearest_upto_def)

text \<open>
  The empty-cluster policy: from any assignment of at least \<open>k\<close> customers into \<open>k\<close> clusters, every
  cluster ends with a customer, nobody is lost, and as many customers were moved as there were empty
  clusters.
\<close>

lemma refill_leaves_no_cluster_empty:
  assumes "\<forall>c \<in> set assigned. c < length cs" and "length cs \<le> length assigned"
  shows "\<exists>assigned' moved. refill_empty_clusters points assigned cs = (assigned', moved)
    \<and> set assigned' = {..<length cs} \<and> length assigned' = length assigned
    \<and> moved = card ({..<length cs} - set assigned)"
proof -
  obtain assigned' moved where r: "refill_empty_clusters points assigned cs = (assigned', moved)"
    by fastforce
  with refill_spec [OF assms r] show ?thesis by blast
qed

section \<open>Ranges\<close>

lemma min_max_bounds:
  assumes "min_max reverse values = Some scaled"
  shows "length scaled = length values \<and> (\<forall>x \<in> set scaled. 0 \<le> x \<and> x \<le> 1)"
proof (cases "Max (set values) = Min (set values)")
  case True
  with assms show ?thesis by (auto simp: min_max_def split: if_splits)
next
  case False
  have ne: "values \<noteq> []" using assms by (auto simp: min_max_def)
  have le: "Min (set values) \<le> v \<and> v \<le> Max (set values)" if "v \<in> set values" for v
    using that by simp
  have "Min (set values) \<le> Max (set values)"
    using ne le by (metis list.set_intros(1) neq_Nil_conv order_trans)
  with False have pos: "0 < Max (set values) - Min (set values)" by simp
  show ?thesis
    using assms False ne le pos by (auto simp: min_max_def Let_def split: if_splits)
qed

lemma min_max_total: "values \<noteq> [] \<Longrightarrow> \<exists>scaled. min_max reverse values = Some scaled"
  by (simp add: min_max_def Let_def)

text \<open>
  Normalisation is total and lands in the unit cube: every row gets one point, each of whose three
  coordinates is between 0 and 1.
\<close>

lemma normalise_in_unit_cube:
  "\<exists>points. normalise rows = Some points \<and> length points = length rows
    \<and> (\<forall>(r, f, m) \<in> set points. 0 \<le> r \<and> r \<le> 1 \<and> 0 \<le> f \<and> f \<le> 1 \<and> 0 \<le> m \<and> m \<le> 1)"
proof (cases "rows = []")
  case True
  then show ?thesis by (simp add: normalise_def)
next
  case False
  let ?days = "map (\<lambda>r. real_of_int (Max (set (map last_purchase_at rows)) - last_purchase_at r)
    / microseconds_per_day) rows"
  obtain r where r: "min_max True ?days = Some r"
    using min_max_total [of ?days True] False by auto
  obtain f where f: "min_max False (map (\<lambda>r. real_of_int (frequency r)) rows) = Some f"
    using min_max_total [of "map (\<lambda>r. real_of_int (frequency r)) rows" False] False by auto
  obtain m where m: "min_max False (map monetary rows) = Some m"
    using min_max_total [of "map monetary rows" False] False by auto
  have "normalise rows = Some (zip r (zip f m))"
    using False r f m by (simp add: normalise_def Let_def)
  moreover have "length (zip r (zip f m)) = length rows"
    using min_max_bounds [OF r] min_max_bounds [OF f] min_max_bounds [OF m] by simp
  moreover have "0 \<le> a \<and> a \<le> 1 \<and> 0 \<le> b \<and> b \<le> 1 \<and> 0 \<le> c \<and> c \<le> 1"
    if "(a, b, c) \<in> set (zip r (zip f m))" for a b c
  proof -
    have "(b, c) \<in> set (zip f m)" using that by (rule set_zip_rightD)
    with that have "a \<in> set r" "b \<in> set f" "c \<in> set m"
      by (blast dest: set_zip_leftD set_zip_rightD)+
    then show ?thesis
      using min_max_bounds [OF r] min_max_bounds [OF f] min_max_bounds [OF m] by blast
  qed
  ultimately show ?thesis by blast
qed

subsection \<open>Initial centroids\<close>

lemma pick_loop_range:
  "pick_loop target index ws pick running = Some i \<Longrightarrow> pick = Some i \<or> index \<le> i \<and> i < index + length ws"
proof (induction ws arbitrary: index pick running)
  case (Cons w ws)
  show ?case
  proof (cases "0 < w \<and> target \<le> running + w")
    case True
    with Cons.prems show ?thesis by (simp add: Let_def)
  next
    case False
    with Cons.prems have "\<exists>pick' running'. pick_loop target (Suc index) ws pick' running' = Some i
        \<and> (pick' = pick \<or> pick' = Some index)"
      by (auto simp: Let_def not_less split: if_splits)
    then show ?thesis using Cons.IH by fastforce
  qed
qed simp

lemma unchosen_found:
  assumes "card (set chosen) < n"
  shows "\<exists>i < n. find (\<lambda>i. i \<notin> set chosen) [0..<n] = Some i"
proof (cases "find (\<lambda>i. i \<notin> set chosen) [0..<n]")
  case None
  then have "{..<n} \<subseteq> set chosen" by (auto simp: find_None_iff)
  then have "n \<le> card (set chosen)" by (metis card_lessThan card_mono List.finite_set)
  with assms show ?thesis by simp
next
  case (Some i)
  then have "i < n" by (auto simp: find_Some_iff)
  with Some show ?thesis by blast
qed

lemma seed_loop_from_points:
  assumes "set centres \<subseteq> set points" and "card (set chosen) \<le> length centres"
    and "k \<le> length points" and "length ns = length points"
  shows "set (seed_loop rnd points k calls chosen centres ns) \<subseteq> set points"
  using assms
proof (induction rnd points k calls chosen centres ns rule: seed_loop.induct)
  case (1 rnd points k calls chosen centres ns)
  show ?case
  proof (cases "length centres < k")
    case False
    with 1 show ?thesis by (subst seed_loop.simps) simp
  next
    case True
    define pick where "pick = (if sum_list ns > 0
        then (case pick_loop (rnd calls * sum_list ns) 0 ns None 0 of Some i \<Rightarrow> i | None \<Rightarrow> length points - 1)
        else (case find (\<lambda>i. i \<notin> set chosen) [0..<length points] of Some i \<Rightarrow> i | None \<Rightarrow> length points))"
    have "card (set chosen) < length points" using True 1(3,4) by simp
    from unchosen_found [OF this] have "pick < length points"
      using pick_loop_range [of "rnd calls * sum_list ns" 0 ns None 0] 1(5) True 1(4)
      by (auto simp: pick_def split: option.splits)
    then have mem: "points ! pick \<in> set points" by simp
    have card: "card (set (pick # chosen)) \<le> length (centres @ [points ! pick])"
      using 1(3) card_insert_le_m1 [of "Suc (length centres)" "set chosen" pick] by simp
    show ?thesis
      using 1(1) [OF True refl refl refl refl refl, folded pick_def] True mem card 1(2,4,5)
      by (subst seed_loop.simps) (simp add: Let_def flip: pick_def)
  qed
qed

text \<open>
  Initialisation gives exactly \<open>k\<close> centres, each one of the customers' own points, whatever values the
  generator returns.
\<close>

lemma initial_centroids_from_points:
  assumes "0 < k" and "k \<le> length points"
  shows "length (initial_centroids rnd points k) = k \<and> set (initial_centroids rnd points k) \<subseteq> set points"
proof -
  have "first_index (rnd 0) (length points) < length points"
    using assms by (auto simp: first_index_def)
  then have "set [points ! first_index (rnd 0) (length points)] \<subseteq> set points" by simp
  then have "set (initial_centroids rnd points k) \<subseteq> set points"
    using assms unfolding initial_centroids_def Let_def by (intro seed_loop_from_points) auto
  with assms length_initial_centroids show ?thesis by blast
qed

subsection \<open>Silhouette\<close>

lemma silhouette_ratio:
  fixes a b :: real
  assumes "0 \<le> a" and "0 \<le> b" and "max a b \<noteq> 0"
  shows "-1 \<le> (b - a) / max a b \<and> (b - a) / max a b \<le> 1"
  using assms by (auto simp: max_def field_simps split: if_splits)

lemma customer_silhouette_bounds:
  assumes "c < k" and "c \<noteq> assigned ! index" and "c \<in> set assigned"
  shows "-1 \<le> customer_silhouette points assigned k index
    \<and> customer_silhouette points assigned k index \<le> 1"
proof -
  let ?f = "\<lambda>c. sum_list (map (\<lambda>other. dist3 (points ! index) (points ! other)) (members_of assigned c))
    / real (length (members_of assigned c))"
  let ?cs = "filter (\<lambda>c. c \<noteq> assigned ! index \<and> members_of assigned c \<noteq> []) [0..<k]"
  have "members_of assigned c \<noteq> []"
    using assms(3) by (auto simp: members_of_def in_set_conv_nth filter_empty_conv)
  with assms have "c \<in> set ?cs" by simp
  then have ne: "set (map ?f ?cs) \<noteq> {}" by (simp only: set_map image_is_empty) auto
  have nonneg: "0 \<le> sum_list (map (\<lambda>other. dist3 (points ! index) (points ! other)) xs)" for xs
    by (induction xs) (simp_all add: add_nonneg_nonneg)
  have "Min (set (map ?f ?cs)) \<in> set (map ?f ?cs)"
    using ne by (intro Min_in) simp
  then have out: "0 \<le> Min (set (map ?f ?cs))"
    using nonneg by (auto simp del: Min_in)
  have ins: "0 \<le> sum_list (map (\<lambda>other. dist3 (points ! index) (points ! other))
      (filter (\<lambda>other. other \<noteq> index) (members_of assigned (assigned ! index))))
      / real (length (members_of assigned (assigned ! index)) - 1)"
    using nonneg by simp
  show ?thesis
    using silhouette_ratio [OF ins out] by (simp add: customer_silhouette_def Let_def)
qed

lemma sum_list_bounds:
  fixes f :: "'a \<Rightarrow> real"
  assumes "\<forall>x \<in> set xs. -1 \<le> f x \<and> f x \<le> 1"
  shows "- real (length xs) \<le> sum_list (map f xs) \<and> sum_list (map f xs) \<le> real (length xs)"
  using assms by (induction xs) auto

lemma mset_sample_fold:
  assumes "\<forall>i < n. 0 \<le> rnd i \<and> rnd i < 1" and "sz \<le> n" and "length pool = n"
  shows "mset (fold (sample_step rnd n) [0..<sz] pool) = mset pool"
  using assms(2)
proof (induction sz)
  case (Suc m)
  let ?pool = "fold (sample_step rnd n) [0..<m] pool"
  have IH: "mset ?pool = mset pool" using Suc by simp
  then have len: "length ?pool = n" using assms(3) by (metis mset_eq_length)
  have m: "m < n" using Suc.prems by simp
  have r: "0 \<le> rnd m" "rnd m < 1" using assms(1) m by auto
  have "rnd m * real (n - m) < real (n - m)" using r(2) m by simp
  then have "\<lfloor>rnd m * real (n - m)\<rfloor> < int (n - m)"
    unfolding floor_less_iff of_int_of_nat_eq .
  moreover have "0 \<le> \<lfloor>rnd m * real (n - m)\<rfloor>" using r(1) by simp
  ultimately have "m + nat \<lfloor>rnd m * real (n - m)\<rfloor> < n" using m by linarith
  then have "mset (sample_step rnd n m q) = mset q" if "length q = n" for q
    unfolding sample_step_def Let_def using that m by (intro mset_swap) auto
  from this [OF len] IH show ?case by simp
qed simp

lemma length_sample_fold: "length (fold (sample_step rnd n) js pool) = length pool"
  by (induction js arbitrary: pool) (simp_all add: sample_step_def Let_def)

lemma length_silhouette_sample: "length (silhouette_sample_of rnd n) = min SILHOUETTE_SAMPLE_SIZE n"
  by (simp add: silhouette_sample_of_def Let_def length_sample_fold)

lemma silhouette_bounds:
  assumes "silhouette_of rnd points assigned k = (Some s, sample)" and "points \<noteq> []"
    and "set assigned = {..<k}"
  shows "-1 \<le> s \<and> s \<le> 1"
proof -
  define chosen where "chosen = (if SILHOUETTE_MAX_CUSTOMERS < length points
    then silhouette_sample_of rnd (length points) else [0..<length points])"
  have k: "2 \<le> k" using assms(1) by (auto simp: silhouette_of_def Let_def split: if_splits)
  have s: "s = sum_list (map (customer_silhouette points assigned k) chosen) / real (length chosen)"
    using assms(1) k by (simp add: silhouette_of_def Let_def flip: chosen_def)
  have "0 < length (silhouette_sample_of rnd (length points))"
    using assms(2) unfolding length_silhouette_sample by (simp add: SILHOUETTE_SAMPLE_SIZE_def)
  then have "0 < length chosen"
    using assms(2) by (auto simp: chosen_def)
  moreover have "-1 \<le> customer_silhouette points assigned k i \<and> customer_silhouette points assigned k i \<le> 1" for i
  proof (cases "assigned ! i = 0")
    case True
    with k assms(3) show ?thesis by (intro customer_silhouette_bounds [of 1]) auto
  next
    case False
    with k assms(3) show ?thesis by (intro customer_silhouette_bounds [of 0]) auto
  qed
  ultimately show ?thesis
    using sum_list_bounds [of chosen "customer_silhouette points assigned k"] by (simp add: s field_simps)
qed

text \<open>
  The silhouette of a fit is a mean between -1 and 1, and it is absent exactly for a single cluster.
\<close>

lemma fit_silhouette_bounds:
  assumes "valid_params p" and "fit rnd rnd' ids points p = Inr r"
  shows "case silhouette r of None \<Rightarrow> k_of p = 1 | Some s \<Rightarrow> 2 \<le> k_of p \<and> -1 \<le> s \<and> s \<le> 1"
proof -
  let ?k = "nat (k_of p)"
  have ok: "length ids = length points" "distinct ids" "k_of p \<le> int (length ids)"
    using assms(2) fit_refused [where ids = ids and points = points and rnd = rnd and rnd' = rnd' and p = p]
    by (metis Inl_Inr_False not_less)+
  obtain r' where r': "fit rnd rnd' ids points p = Inr r'" "length (fit_points r') = length ids"
    "set (assignments r') = {..<?k}"
    "silhouette_of (rnd' (seed_of p)) (fit_points r') (assignments r') ?k = (silhouette r', silhouette_sample r')"
    using fit_cases [OF ok assms(1) refl, of rnd rnd'] by metis
  have k: "1 \<le> k_of p" using assms(1) by (simp add: valid_params_def)
  have r: "r' = r" using r'(1) assms(2) by simp
  have ne: "fit_points r \<noteq> []" using r'(2) k ok(3) r by auto
  show ?thesis
  proof (cases "silhouette r")
    case None
    with r'(4) r k show ?thesis by (auto simp: silhouette_of_def Let_def split: if_splits)
  next
    case (Some s)
    from silhouette_bounds [OF r'(4) [unfolded r Some] ne] r'(3) r have "-1 \<le> s \<and> s \<le> 1" by simp
    moreover have "2 \<le> k_of p"
      using r'(4) r Some by (auto simp: silhouette_of_def Let_def split: if_splits)
    ultimately show ?thesis using Some by simp
  qed
qed

text \<open>
  A silhouette sample is a set of distinct customers of the right size: with a generator in the unit
  interval, the partial shuffle never reads or repeats an index out of range.
\<close>

lemma silhouette_sample_is_sample:
  assumes "\<forall>i < n. 0 \<le> rnd i \<and> rnd i < 1"
  shows "length (silhouette_sample_of rnd n) = min SILHOUETTE_SAMPLE_SIZE n
    \<and> distinct (silhouette_sample_of rnd n) \<and> set (silhouette_sample_of rnd n) \<subseteq> {..<n}
    \<and> sorted (silhouette_sample_of rnd n)"
proof -
  let ?size = "min SILHOUETTE_SAMPLE_SIZE n"
  let ?pool = "fold (sample_step rnd n) [0..<?size] [0..<n]"
  have m: "mset ?pool = mset [0..<n]" by (rule mset_sample_fold [OF assms]) simp_all
  then have "distinct ?pool" and "set ?pool = {..<n}"
    by (metis distinct_upt mset_eq_imp_distinct_iff) (metis m atLeast_upt mset_eq_setD)
  then have "distinct (take ?size ?pool)" and "set (take ?size ?pool) \<subseteq> {..<n}"
    using set_take_subset by (force intro: distinct_take)+
  then show ?thesis
    by (simp add: length_silhouette_sample) (simp add: silhouette_sample_of_def Let_def)
qed

end
