(* ===== verification/Cluster_Labels.thy ===== *)
theory Cluster_Labels
  imports KMeans
begin

text \<open>
  From clusters to stable labels, \<open>web/services/cluster_labels.py\<close>: the best-to-worst order of the
  clusters of a fit, the pairing of that order with the label vocabulary by proportional rank, and the
  description of the pairing that a run records. A label is any type; a vocabulary is a list of labels,
  best first. The refusal \<open>VocabularySizeMismatch\<close> is a value. A dictionary is an association list in
  insertion order.
\<close>

section \<open>Definitions\<close>

datatype vocabulary_mismatch = TooFewClusters int | EmptyVocabulary

definition MIN_CLUSTERS :: int where "MIN_CLUSTERS = 2"

text \<open>
  \<open>min\<close> of no members raises in Python; every cluster of a fit has a member
  (\<open>fit_partitions_customers\<close>).
\<close>

definition order_key :: "'c::linorder kmeans_fit \<Rightarrow> nat \<Rightarrow> real \<times> real \<times> real \<times> real \<times> 'c" where
  "order_key r cluster =
    (case centroids r ! cluster of (rc, fr, mo) \<Rightarrow>
       (- (rc + fr + mo), - rc, - fr, - mo,
        Min (set (fit_members r cluster))))"

definition rank_clusters :: "'c::linorder kmeans_fit \<Rightarrow> nat list" where
  "rank_clusters r = sort_key (order_key r) [0..<length (centroids r)]"

definition check_vocabulary_size :: "int \<Rightarrow> 'l list \<Rightarrow> vocabulary_mismatch option" where
  "check_vocabulary_size k vocabulary =
    (if k < MIN_CLUSTERS then Some (TooFewClusters k)
     else if vocabulary = [] then Some EmptyVocabulary
     else None)"

definition label_index :: "int \<Rightarrow> int \<Rightarrow> int \<Rightarrow> int" where
  "label_index rank k vocabulary_size =
    (let span = vocabulary_size - 1 in (2 * rank * span + (k - 1)) div (2 * (k - 1)))"

definition labels_by_rank :: "int \<Rightarrow> 'l list \<Rightarrow> vocabulary_mismatch + 'l list" where
  "labels_by_rank k vocabulary =
    (case check_vocabulary_size k vocabulary of
       Some e \<Rightarrow> Inl e
     | None \<Rightarrow> Inr (map (\<lambda>rank. vocabulary ! nat (label_index rank k (int (length vocabulary))))
                     [0..k - 1]))"

definition label_clusters ::
  "'c::linorder kmeans_fit \<Rightarrow> 'l list \<Rightarrow> vocabulary_mismatch + (nat \<times> 'l) list" where
  "label_clusters r vocabulary =
    (case labels_by_rank (int (length (centroids r))) vocabulary of
       Inl e \<Rightarrow> Inl e
     | Inr labels \<Rightarrow> Inr (zip (rank_clusters r) labels))"

record 'l label_mapping =
  vocabulary_size :: nat
  by_rank :: "'l list"
  clusters_per_label :: "('l \<times> nat) list"
  shared_labels :: "'l list"
  labels_without_cluster :: "'l list"

definition describe_mapping :: "int \<Rightarrow> 'l list \<Rightarrow> vocabulary_mismatch + 'l label_mapping" where
  "describe_mapping k vocabulary =
    (case labels_by_rank k vocabulary of
       Inl e \<Rightarrow> Inl e
     | Inr ls \<Rightarrow> Inr \<lparr>vocabulary_size = length vocabulary, by_rank = ls,
         clusters_per_label = map (\<lambda>l. (l, count_list ls l)) vocabulary,
         shared_labels = filter (\<lambda>l. 1 < count_list ls l) vocabulary,
         labels_without_cluster = filter (\<lambda>l. count_list ls l = 0) vocabulary\<rparr>)"

text \<open>\<open>labels[cluster]\<close> finds every cluster number of the fit (\<open>label_clusters_total\<close>).\<close>

definition label_pairs ::
  "'c::linorder kmeans_fit \<Rightarrow> 'l list \<Rightarrow> vocabulary_mismatch + ('c \<times> 'l) list" where
  "label_pairs r vocabulary =
    (case label_clusters r vocabulary of
       Inl e \<Rightarrow> Inl e
     | Inr labels \<Rightarrow> Inr (map (\<lambda>(customer, cluster). (customer, the (map_of labels cluster)))
                           (zip (customer_ids r) (assignments r))))"

section \<open>The position of a rank in the vocabulary\<close>

lemma label_index_bracket:
  assumes "2 \<le> k"
  shows "2 * (k - 1) * label_index rank k v \<le> 2 * rank * (v - 1) + (k - 1)"
    and "2 * rank * (v - 1) + (k - 1) < 2 * (k - 1) * (label_index rank k v + 1)"
proof -
  let ?n = "2 * rank * (v - 1) + (k - 1)" and ?d = "2 * (k - 1)"
  have d: "0 < ?d" using assms by simp
  have "?d * (?n div ?d) + ?n mod ?d = ?n" by simp
  moreover have "0 \<le> ?n mod ?d" and "?n mod ?d < ?d" using d by simp_all
  ultimately show "?d * label_index rank k v \<le> ?n" and "?n < ?d * (label_index rank k v + 1)"
    unfolding label_index_def Let_def distrib_left by linarith+
qed

lemma label_index_mono:
  assumes "2 \<le> k" and "1 \<le> v" and "a \<le> b"
  shows "label_index a k v \<le> label_index b k v"
  unfolding label_index_def Let_def using assms
  by (intro zdiv_mono1 add_right_mono mult_right_mono) auto

lemma label_index_first: "2 \<le> k \<Longrightarrow> label_index 0 k v = 0"
  by (simp add: label_index_def)

lemma label_index_last:
  assumes "2 \<le> k"
  shows "label_index (k - 1) k v = v - 1"
proof -
  have "2 * (k - 1) * (v - 1) + (k - 1) = (k - 1) + (v - 1) * (2 * (k - 1))"
    by (simp add: algebra_simps)
  then show ?thesis using assms by (simp add: label_index_def Let_def)
qed

lemma label_index_range:
  assumes "2 \<le> k" and "1 \<le> v" and "0 \<le> rank" and "rank < k"
  shows "0 \<le> label_index rank k v" and "label_index rank k v < v"
  using label_index_mono [OF assms(1,2,3)] label_index_mono [OF assms(1,2), of rank "k - 1"] assms
  by (simp_all add: label_index_first label_index_last)

lemma label_index_step_ge:
  assumes "2 \<le> k" and "k \<le> v"
  shows "label_index rank k v + 1 \<le> label_index (rank + 1) k v"
proof -
  have "2 * rank * (v - 1) + (k - 1) + 2 * (k - 1) \<le> 2 * (rank + 1) * (v - 1) + (k - 1)"
    using assms by (simp add: algebra_simps)
  then have "(2 * rank * (v - 1) + (k - 1) + 1 * (2 * (k - 1))) div (2 * (k - 1))
      \<le> (2 * (rank + 1) * (v - 1) + (k - 1)) div (2 * (k - 1))"
    using assms(1) by (intro zdiv_mono1) auto
  moreover have "(2 * rank * (v - 1) + (k - 1) + 1 * (2 * (k - 1))) div (2 * (k - 1)) = 1 + label_index rank k v"
    unfolding label_index_def Let_def using assms(1) by (intro div_mult_self1) simp
  ultimately show ?thesis unfolding label_index_def Let_def by linarith
qed

lemma label_index_step_le:
  assumes "2 \<le> k" and "v \<le> k"
  shows "label_index (rank + 1) k v \<le> label_index rank k v + 1"
proof -
  have "2 * (rank + 1) * (v - 1) + (k - 1) \<le> 2 * rank * (v - 1) + (k - 1) + 1 * (2 * (k - 1))"
    using assms by (simp add: algebra_simps)
  then have "(2 * (rank + 1) * (v - 1) + (k - 1)) div (2 * (k - 1))
      \<le> (2 * rank * (v - 1) + (k - 1) + 1 * (2 * (k - 1))) div (2 * (k - 1))"
    using assms(1) by (intro zdiv_mono1) auto
  moreover have "(2 * rank * (v - 1) + (k - 1) + 1 * (2 * (k - 1))) div (2 * (k - 1)) = 1 + label_index rank k v"
    unfolding label_index_def Let_def using assms(1) by (intro div_mult_self1) simp
  ultimately show ?thesis unfolding label_index_def Let_def by linarith
qed

text \<open>
  Proportional rank: the position of a rank is the nearest integer to \<open>rank * (V - 1) / (k - 1)\<close>, a
  half going to the worse label; the best cluster takes the best label and the worst the worst; the
  positions stay inside the vocabulary and never go back; with as many clusters as labels the pairing
  is one to one.
\<close>

lemma label_index_proportional:
  assumes "2 \<le> k" and "1 \<le> v" and "0 \<le> rank" and "rank < k"
  shows "2 * (k - 1) * label_index rank k v \<le> 2 * rank * (v - 1) + (k - 1)
    \<and> 2 * rank * (v - 1) + (k - 1) < 2 * (k - 1) * (label_index rank k v + 1)
    \<and> label_index 0 k v = 0 \<and> label_index (k - 1) k v = v - 1
    \<and> 0 \<le> label_index rank k v \<and> label_index rank k v < v
    \<and> label_index rank k v \<le> label_index (rank + 1) k v
    \<and> label_index rank k k = rank"
proof -
  have "label_index rank k k = rank"
  proof -
    have "2 * rank * (k - 1) + (k - 1) = (k - 1) + rank * (2 * (k - 1))" by (simp add: algebra_simps)
    moreover have "((k - 1) + rank * (2 * (k - 1))) div (2 * (k - 1)) = rank + (k - 1) div (2 * (k - 1))"
      using assms(1) by (intro div_mult_self1) simp
    moreover have "(k - 1) div (2 * (k - 1)) = 0" using assms(1) by simp
    ultimately show ?thesis by (simp only: label_index_def Let_def)
  qed
  with label_index_bracket [OF assms(1), of rank v] label_index_range [OF assms]
    label_index_first [OF assms(1)] label_index_last [OF assms(1)]
    label_index_mono [OF assms(1,2), of rank "rank + 1"]
  show ?thesis by simp
qed

section \<open>How the labels are shared out\<close>

lemma upto_nth: "i < nat k \<Longrightarrow> [0..k - 1] ! i = int i"
  by simp

lemma labels_by_rank_ok:
  assumes "2 \<le> k" and "vocabulary \<noteq> []"
  shows "labels_by_rank k vocabulary = Inr (map (\<lambda>rank. vocabulary ! nat (label_index rank k (int (length vocabulary))))
                     [0..k - 1])"
  using assms by (simp add: labels_by_rank_def check_vocabulary_size_def MIN_CLUSTERS_def)

lemma labels_by_rank_error:
  "labels_by_rank k vocabulary = Inl e \<longleftrightarrow> check_vocabulary_size k vocabulary = Some e"
  by (simp add: labels_by_rank_def split: option.split)

lemma strict_positions:
  assumes "2 \<le> k" and "k \<le> v" and "a < b"
  shows "label_index a k v < label_index b k v"
proof -
  have "label_index a k v + 1 \<le> label_index (a + 1) k v" by (rule label_index_step_ge [OF assms(1,2)])
  also have "\<dots> \<le> label_index b k v" using assms by (intro label_index_mono) auto
  finally show ?thesis by simp
qed

lemma positions_reach_all:
  assumes "2 \<le> k" and "1 \<le> v" and "v \<le> k" and "0 \<le> j" and "j < v"
  shows "\<exists>rank. 0 \<le> rank \<and> rank < k \<and> label_index rank k v = j"
proof -
  have "\<exists>rank. 0 \<le> rank \<and> rank \<le> n \<and> label_index rank k v = j"
    if "0 \<le> n" and "j \<le> label_index n k v" for n :: int
    using that
  proof (induction n rule: int_ge_induct)
    case base
    then show ?case using assms by (intro exI [of _ 0]) (simp add: label_index_first)
  next
    case (step n)
    show ?case
    proof (cases "j \<le> label_index n k v")
      case True
      from step.IH [OF this] show ?thesis by (force intro: order_trans)
    next
      case False
      with step.prems label_index_step_le [OF assms(1,3), of n] have "label_index (n + 1) k v = j" by simp
      then show ?thesis using step.hyps by (intro exI [of _ "n + 1"]) simp
    qed
  qed
  from this [of "k - 1"] show ?thesis
    using assms by (force simp: label_index_last)
qed

lemma count_list_distinct: "distinct xs \<Longrightarrow> count_list xs x = (if x \<in> set xs then 1 else 0)"
  by (induction xs) auto

lemma count_list_map_ge2:
  assumes "i < length xs" and "j < length xs" and "i \<noteq> j" and "xs ! i = xs ! j"
  shows "1 < count_list xs (xs ! i)"
proof -
  let ?I = "{m. m < length xs \<and> xs ! m = xs ! i}"
  have "card {i, j} \<le> card ?I" using assms by (intro card_mono) auto
  then show ?thesis using assms(3)
    by (simp add: count_list_eq_length_filter length_filter_conv_card eq_commute)
qed

lemma labels_by_rank_facts:
  assumes "2 \<le> k" and "vocabulary \<noteq> []" and "distinct vocabulary"
  obtains ls where "labels_by_rank k vocabulary = Inr ls" and "length ls = nat k"
    and "set ls \<subseteq> set vocabulary"
    and "k \<le> int (length vocabulary) \<Longrightarrow> distinct ls"
    and "int (length vocabulary) \<le> k \<Longrightarrow> set ls = set vocabulary"
proof -
  let ?v = "int (length vocabulary)"
  let ?f = "\<lambda>rank. vocabulary ! nat (label_index rank k ?v)"
  have v: "1 \<le> ?v" using assms(2) by (cases vocabulary) auto
  note rng = label_index_range [OF assms(1) v]
  have sub: "set (map ?f [0..k - 1]) \<subseteq> set vocabulary"
    using rng by (auto simp: nat_less_iff)
  have inj: "inj_on ?f (set [0..k - 1])" if "k \<le> ?v"
  proof (rule inj_onI)
    fix a b assume a: "a \<in> set [0..k - 1]" and b: "b \<in> set [0..k - 1]" and eq: "?f a = ?f b"
    from a b rng have "nat (label_index a k ?v) = nat (label_index b k ?v)"
      using eq assms(3) by (simp add: nth_eq_iff_index_eq nat_less_iff)
    then have "label_index a k ?v = label_index b k ?v"
      using rng(1) a b by (metis atLeastAtMost_iff eq_nat_nat_iff set_upto zle_diff1_eq)
    then show "a = b" using strict_positions [OF assms(1) that, of a b] strict_positions [OF assms(1) that, of b a]
      by (metis less_irrefl linorder_less_linear)
  qed
  have all: "set vocabulary \<subseteq> set (map ?f [0..k - 1])" if vk: "?v \<le> k"
  proof
    fix l assume "l \<in> set vocabulary"
    then obtain j where j: "j < length vocabulary" "l = vocabulary ! j" by (auto simp: in_set_conv_nth)
    then obtain rank where "0 \<le> rank" "rank < k" "label_index rank k ?v = int j"
      using positions_reach_all [OF assms(1) v vk, of "int j"] by auto
    then show "l \<in> set (map ?f [0..k - 1])" using j(2) by force
  qed
  show thesis
    by (rule that [OF labels_by_rank_ok [OF assms(1,2)]]) (use sub inj all in \<open>auto simp: distinct_map\<close>)
qed

text \<open>
  What a run records of its pairing is right: with a vocabulary of distinct labels, no label is
  shared exactly when there are at most as many clusters as labels, every label has a cluster exactly
  when there are at least as many, the counts add up to the clusters, and the shared labels and the
  labels without a cluster are in the vocabulary's order.
\<close>

lemma describe_mapping_shares:
  assumes "2 \<le> k" and "vocabulary \<noteq> []" and "distinct vocabulary"
  shows "\<exists>m. describe_mapping k vocabulary = Inr m
    \<and> (shared_labels m = []) = (k \<le> int (length vocabulary))
    \<and> (labels_without_cluster m = []) = (int (length vocabulary) \<le> k)
    \<and> sum_list (map snd (clusters_per_label m)) = nat k
    \<and> map fst (clusters_per_label m) = vocabulary
    \<and> hd (by_rank m) = hd vocabulary \<and> last (by_rank m) = last vocabulary"
proof -
  obtain ls where ls: "labels_by_rank k vocabulary = Inr ls" "length ls = nat k"
    "set ls \<subseteq> set vocabulary" "k \<le> int (length vocabulary) \<Longrightarrow> distinct ls"
    "int (length vocabulary) \<le> k \<Longrightarrow> set ls = set vocabulary"
    using labels_by_rank_facts [OF assms] by metis
  let ?m = "\<lparr>vocabulary_size = length vocabulary, by_rank = ls,
         clusters_per_label = map (\<lambda>l. (l, count_list ls l)) vocabulary,
         shared_labels = filter (\<lambda>l. 1 < count_list ls l) vocabulary,
         labels_without_cluster = filter (\<lambda>l. count_list ls l = 0) vocabulary\<rparr>"
  have m: "describe_mapping k vocabulary = Inr ?m" by (simp add: describe_mapping_def ls(1))
  have card_voc: "card (set vocabulary) = length vocabulary" by (rule distinct_card [OF assms(3)])
  have shared: "filter (\<lambda>l. 1 < count_list ls l) vocabulary = [] \<longleftrightarrow> distinct ls"
  proof
    assume none: "filter (\<lambda>l. 1 < count_list ls l) vocabulary = []"
    show "distinct ls"
      unfolding distinct_conv_nth
      using count_list_map_ge2 [of _ ls] none ls(3) by (metis filter_empty_conv nth_mem subsetD)
  next
    assume "distinct ls"
    then show "filter (\<lambda>l. 1 < count_list ls l) vocabulary = []" by (auto simp: count_list_distinct filter_empty_conv)
  qed
  have le: "k \<le> int (length vocabulary)" if "distinct ls"
    using card_mono [OF _ ls(3)] distinct_card [OF that] card_voc ls(2) by simp
  have without: "filter (\<lambda>l. count_list ls l = 0) vocabulary = [] \<longleftrightarrow> set vocabulary \<subseteq> set ls"
    by (auto simp: filter_empty_conv count_list_0_iff)
  have ge: "int (length vocabulary) \<le> k" if "set vocabulary \<subseteq> set ls"
    using card_mono [OF _ that] card_length [of ls] card_voc ls(2) assms(1) by simp
  have "sum_list (map (count_list ls) vocabulary) = (\<Sum>l\<in>set vocabulary. count_list ls l)"
    by (rule sum_list_distinct_conv_sum_set [OF assms(3)])
  also have "\<dots> = length ls" using ls(3) by (simp add: sum_count_set)
  finally have total: "sum_list (map (count_list ls) vocabulary) = nat k" using ls(2) by simp
  have "nat (int (length vocabulary) - 1) = length vocabulary - 1" by simp
  then have "hd ls = hd vocabulary" "last ls = last vocabulary"
    using ls(1) assms(1,2) by (auto simp: labels_by_rank_ok hd_conv_nth last_conv_nth label_index_first label_index_last
        upto_nth nth_append nat_diff_distrib)
  with m shared le ls(4,5) without ge total show ?thesis
    by (intro exI [of _ ?m]) (auto simp: comp_def)
qed

section \<open>The order of the clusters\<close>

interpretation cluster_rank: total_ranking "order_key r" "\<lambda>c. Min (set (fit_members r c))" for r
  by unfold_locales (auto simp: order_key_def split: prod.splits)

text \<open>What every fit satisfies (\<open>fit_cases\<close>): distinct customers, one cluster each, none empty.\<close>

definition partitioned :: "'c::linorder kmeans_fit \<Rightarrow> bool" where
  "partitioned r \<longleftrightarrow> distinct (customer_ids r) \<and> length (assignments r) = length (customer_ids r)
    \<and> set (assignments r) = {..<length (centroids r)}"

lemma fit_members_iff:
  "c \<in> set (fit_members r cl) \<longleftrightarrow> (c, cl) \<in> set (zip (customer_ids r) (assignments r))"
  by (force simp: fit_members_def)

lemma partitioned_members:
  assumes "partitioned r" and "cl < length (centroids r)"
  shows "fit_members r cl \<noteq> []"
proof -
  from assms obtain i where "i < length (assignments r)" "assignments r ! i = cl"
    by (metis in_set_conv_nth lessThan_iff partitioned_def)
  with assms(1) have "(customer_ids r ! i, cl) \<in> set (zip (customer_ids r) (assignments r))"
    unfolding in_set_zip partitioned_def by (intro exI [of _ i]) simp
  then have "customer_ids r ! i \<in> set (fit_members r cl)" by (simp only: fit_members_iff)
  then show ?thesis by auto
qed

lemma members_disjoint:
  assumes "partitioned r" and "c \<in> set (fit_members r a)" and "c \<in> set (fit_members r b)"
  shows "a = b"
proof -
  have "distinct (map fst (zip (customer_ids r) (assignments r)))"
    using assms(1) by (simp add: partitioned_def)
  then show ?thesis
    using assms(2,3) unfolding fit_members_iff by (rule eq_key_imp_eq_value)
qed

lemma partitioned_min_inj:
  assumes "partitioned r"
  shows "inj_on (\<lambda>c. Min (set (fit_members r c))) (set [0..<length (centroids r)])"
proof (rule inj_onI)
  fix a b assume a: "a \<in> set [0..<length (centroids r)]" and b: "b \<in> set [0..<length (centroids r)]"
    and eq: "Min (set (fit_members r a)) = Min (set (fit_members r b))"
  have "Min (set (fit_members r a)) \<in> set (fit_members r a)"
    and "Min (set (fit_members r b)) \<in> set (fit_members r b)"
    using a b partitioned_members [OF assms] by (auto intro!: Min_in)
  with eq show "a = b" by (metis assms members_disjoint)
qed

lemma set_rank_clusters [simp]: "set (rank_clusters r) = {..<length (centroids r)}"
  and distinct_rank_clusters [simp]: "distinct (rank_clusters r)"
  and length_rank_clusters [simp]: "length (rank_clusters r) = length (centroids r)"
  by (auto simp: rank_clusters_def)

text \<open>
  The order of the clusters is a strict best-to-worst order of all of them: no two clusters of a fit
  tie, so nothing arbitrary decides between two.
\<close>

lemma rank_clusters_strict:
  assumes "partitioned r"
  shows "sorted_wrt (<) (map (order_key r) (rank_clusters r))
    \<and> distinct (rank_clusters r) \<and> set (rank_clusters r) = {..<length (centroids r)}"
  using cluster_rank.strictly_ranked [OF partitioned_min_inj [OF assms]]
  by (simp add: rank_clusters_def atLeast0LessThan)

text \<open>A fit with two clusters, used by the witnesses.\<close>

definition two_cluster_fit :: "nat kmeans_fit" where
  "two_cluster_fit = \<lparr>fit_params = example_params, customer_ids = [1, 2, 3], fit_points = [(0, 0, 0), (1, 1, 1), (1, 1, 1)],
     assignments = [0, 1, 1], centroids = [(0, 0, 0), (1, 1, 1)], iterations = 1, converged = True,
     stopped_on = StoppedOnTolerance, final_shift = Some 0, empty_cluster_events = 0, inertia = 0,
     silhouette = None, cluster_sizes = [2, 1], silhouette_sample = None\<rparr>"

lemma two_cluster_fit_partitioned: "partitioned two_cluster_fit"
  by (auto simp: partitioned_def two_cluster_fit_def)

section \<open>Cluster numbers are only names\<close>

text \<open>
  \<open>r'\<close> is \<open>r\<close> with its clusters renamed by \<open>ren\<close>: the same customers in the same groups with the same
  centroids, under other numbers.
\<close>

definition renamed :: "(nat \<Rightarrow> nat) \<Rightarrow> 'c::linorder kmeans_fit \<Rightarrow> 'c kmeans_fit \<Rightarrow> bool" where
  "renamed ren r r' \<longleftrightarrow> bij_betw ren {..<length (centroids r)} {..<length (centroids r)}
    \<and> length (centroids r') = length (centroids r)
    \<and> customer_ids r' = customer_ids r
    \<and> assignments r' = map ren (assignments r)
    \<and> (\<forall>c < length (centroids r). centroids r' ! ren c = centroids r ! c)"

lemma renamed_members:
  assumes "partitioned r" and "renamed ren r r'" and "cl < length (centroids r)"
  shows "fit_members r' (ren cl) = fit_members r cl"
proof -
  have inj: "inj_on ren {..<length (centroids r)}" using assms(2) by (auto simp: renamed_def bij_betw_def)
  have "filter (\<lambda>(c, a). a = ren cl) (zip xs (map ren as)) = map (\<lambda>(c, a). (c, ren a)) (filter (\<lambda>(c, a). a = cl) (zip xs as))"
    if "set as \<subseteq> {..<length (centroids r)}" for xs :: "'a list" and as
    using that
  proof (induction as arbitrary: xs)
    case (Cons a as)
    then show ?case using assms(3) inj by (cases xs) (auto simp: inj_on_def)
  qed simp
  from this [of "assignments r" "customer_ids r"] show ?thesis
    using assms(1,2) by (simp add: fit_members_def partitioned_def renamed_def comp_def case_prod_beta)
qed

lemma renamed_order_key:
  assumes "partitioned r" and "renamed ren r r'" and "cl < length (centroids r)"
  shows "order_key r' (ren cl) = order_key r cl"
  using assms(2,3) renamed_members [OF assms] by (simp add: order_key_def renamed_def)

lemma renamed_partitioned: "partitioned r \<Longrightarrow> renamed ren r r' \<Longrightarrow> partitioned r'"
  by (auto simp: partitioned_def renamed_def bij_betw_def)

lemma rank_clusters_renamed:
  assumes "partitioned r" and "renamed ren r r'"
  shows "rank_clusters r' = map ren (rank_clusters r)"
  unfolding rank_clusters_def [of r']
proof (rule sort_key_inj_key_eq)
  have bij: "bij_betw ren {..<length (centroids r)} {..<length (centroids r)}"
    and len: "length (centroids r') = length (centroids r)"
    using assms(2) by (auto simp: renamed_def)
  show "mset [0..<length (centroids r')] = mset (map ren (rank_clusters r))"
    using bij unfolding len
    by (intro set_eq_iff_mset_eq_distinct [THEN iffD1]) (auto simp: distinct_map bij_betw_def)
  show "inj_on (order_key r') (set [0..<length (centroids r')])"
    by (rule cluster_rank.inj_on_key [OF partitioned_min_inj [OF renamed_partitioned [OF assms]]])
  have "map (order_key r') (map ren (rank_clusters r)) = map (order_key r) (rank_clusters r)"
    using renamed_order_key [OF assms] by simp
  then show "sorted (map (order_key r') (map ren (rank_clusters r)))"
    by (simp only: rank_clusters_def sorted_sort_key)
qed

lemma map_of_zip_ren:
  assumes "inj_on ren (insert a (set xs))"
  shows "map_of (zip (map ren xs) ls) (ren a) = map_of (zip xs ls) a"
  using assms
proof (induction xs arbitrary: ls)
  case (Cons x xs)
  then have "inj_on ren (insert a (set xs))" by (auto simp: inj_on_def)
  from Cons.IH [OF this] Cons.prems show ?case by (cases ls) (auto simp: inj_on_def)
qed simp

text \<open>
  A label is a function of what a cluster contains and never of its number: renaming the clusters of
  a fit changes no customer's label.
\<close>

lemma label_pairs_renaming_invariant:
  assumes "partitioned r" and "renamed ren r r'"
  shows "label_pairs r' vocabulary = label_pairs r vocabulary"
proof (cases "labels_by_rank (int (length (centroids r))) vocabulary")
  case (Inl e)
  then show ?thesis using assms(2) by (simp add: label_pairs_def label_clusters_def renamed_def)
next
  case (Inr ls)
  have inj: "inj_on ren {..<length (centroids r)}" using assms(2) by (auto simp: renamed_def bij_betw_def)
  have "map_of (zip (map ren (rank_clusters r)) ls) (ren a) = map_of (zip (rank_clusters r) ls) a"
    if "a \<in> set (assignments r)" for a
    using that assms(1) inj by (intro map_of_zip_ren) (simp add: partitioned_def insert_absorb)
  then show ?thesis
    using Inr assms(2) rank_clusters_renamed [OF assms]
    by (auto simp: label_pairs_def label_clusters_def renamed_def zip_map2 dest: set_zip_rightD)
qed

lemma label_clusters_total:
  assumes "label_clusters r vocabulary = Inr d" and "c < length (centroids r)"
  shows "\<exists>l. map_of d c = Some l"
proof -
  from assms(1) obtain ls where ls: "labels_by_rank (int (length (centroids r))) vocabulary = Inr ls"
    and d: "d = zip (rank_clusters r) ls"
    by (auto simp: label_clusters_def split: sum.splits)
  from ls have "length ls = length (centroids r)"
    by (auto simp: labels_by_rank_def split: option.splits)
  then have "dom (map_of d) = {..<length (centroids r)}"
    unfolding d by (simp add: dom_map_of_zip)
  with assms(2) show ?thesis by blast
qed

end
