(* ===== verification/Transactions.thy ===== *)
theory Transactions
  imports Prelude
begin

text \<open>
  The life of a unit of work, \<open>web/db/transactions.py\<close>. A connection is the rows its transaction sees
  (\<open>working\<close>) beside the rows other connections see (\<open>committed\<close>). \<open>atomic\<close> commits the operation it
  wraps when it returns and rolls it back when it raises, except that an operation called while the
  connection already has an owner only joins: the owner commits or rolls back for both. The
  context variable that lists the owners is the flag \<open>owned\<close>, whether this connection is in it.

  The locale \<open>unit_of_work\<close> is the contract the services rely on: a body that keeps an invariant of the
  rows. Its lemmas say what the outside world sees after \<open>atomic\<close>: the committed rows satisfy the
  invariant whether the operation succeeded or not, and a failure leaves no trace.
\<close>

record 'db session =
  working :: 'db
  committed :: 'db

type_synonym ('db, 'e, 'a) operation = "bool \<Rightarrow> 'db session \<Rightarrow> ('e + 'a) \<times> 'db session"

definition commit :: "'db session \<Rightarrow> 'db session" where
  "commit s = s\<lparr>committed := working s\<rparr>"

definition rollback :: "'db session \<Rightarrow> 'db session" where
  "rollback s = s\<lparr>working := committed s\<rparr>"

definition atomic :: "('db, 'e, 'a) operation \<Rightarrow> ('db, 'e, 'a) operation" where
  "atomic function owned s =
    (if owned then function owned s
     else case function True s of
         (Inr result, s') \<Rightarrow> (Inr result, commit s')
       | (Inl error, s') \<Rightarrow> (Inl error, rollback s'))"

text \<open>Statements run on the rows the transaction sees.\<close>

definition statements :: "('db \<Rightarrow> ('e + 'a) \<times> 'db) \<Rightarrow> ('db, 'e, 'a) operation" where
  "statements f owned s = (case f (working s) of (r, d) \<Rightarrow> (r, s\<lparr>working := d\<rparr>))"

definition at_rest :: "'db \<Rightarrow> 'db session" where
  "at_rest d = \<lparr>working = d, committed = d\<rparr>"

lemma at_rest_simps [simp]: "working (at_rest d) = d" "committed (at_rest d) = d"
  by (simp_all add: at_rest_def)

lemma atomic_statements:
  "atomic (statements f) False (at_rest d) =
    (case f d of (Inr a, d') \<Rightarrow> (Inr a, at_rest d') | (Inl e, d') \<Rightarrow> (Inl e, at_rest d))"
  by (simp add: atomic_def statements_def commit_def rollback_def at_rest_def split: prod.split sum.split)

text \<open>Two operations in one unit of work, the second reading what the first returned.\<close>

definition and_then ::
  "('db, 'e, 'a) operation \<Rightarrow> ('a \<Rightarrow> ('db, 'e, 'b) operation) \<Rightarrow> ('db, 'e, 'b) operation" where
  "and_then f g owned s =
    (case f owned s of (Inl e, s') \<Rightarrow> (Inl e, s') | (Inr a, s') \<Rightarrow> g a owned s')"

locale unit_of_work =
  fixes body :: "'db \<Rightarrow> ('e + 'a) \<times> 'db"
    and inv :: "'db \<Rightarrow> bool"
  assumes keeps: "inv d \<Longrightarrow> body d = (Inr a, d') \<Longrightarrow> inv d'"
begin

lemma failure_leaves_no_trace:
  assumes "atomic (statements body) False (at_rest d) = (Inl e, s')"
  shows "s' = at_rest d"
  using assms by (auto simp: atomic_statements split: prod.splits sum.splits)

lemma success_is_committed:
  assumes "atomic (statements body) False (at_rest d) = (Inr a, s')"
  shows "\<exists>d'. body d = (Inr a, d') \<and> s' = at_rest d'"
  using assms by (auto simp: atomic_statements split: prod.splits sum.splits)

lemma committed_inv:
  assumes "inv d" and "atomic (statements body) False (at_rest d) = (r, s')"
  shows "inv (committed s') \<and> working s' = committed s'"
  using assms keeps by (cases r) (auto dest!: failure_leaves_no_trace success_is_committed)

end

text \<open>
  A service called from inside another's unit of work never commits on its own: when the outer
  operation fails after the inner one succeeded, the inner one's writes are rolled back with it and the
  connection is as it was before.
\<close>

lemma joined_work_rolls_back_with_owner:
  assumes "inner (working s) = (Inr a, d')"
    and "\<And>s'. \<exists>s''. outer a True s' = (Inl e, s'') \<and> committed s'' = committed s'"
  shows "\<exists>s''. atomic (and_then (atomic (statements inner)) outer) False s = (Inl e, s'')
    \<and> working s'' = committed s \<and> committed s'' = committed s"
proof -
  obtain s'' where "outer a True (s\<lparr>working := d'\<rparr>) = (Inl e, s'')" "committed s'' = committed s"
    using assms(2) [of "s\<lparr>working := d'\<rparr>"] by auto
  with assms(1) show ?thesis
    by (auto simp: atomic_def and_then_def statements_def rollback_def)
qed

end
