(* ===== verification/Sessions.thy ===== *)
theory Sessions
  imports Transactions
begin

text \<open>
  Accounts and server-side sessions: \<open>web/db/sessions.py\<close>, the user lookup of \<open>web/db/users.py\<close> and the
  authentication service \<open>web/services/auth.py\<close>. The tables are lists of rows; a join is the function
  that reads the joined row. Ids are \<open>nat\<close>, instants are microseconds (\<open>int\<close>), a setting in seconds is
  multiplied out. The clock of the transaction (\<open>now()\<close>) and the id the database generates for a new
  session are arguments. \<open>lower\<close> is PostgreSQL's, \<open>verify\<close> the verdict of argon2's \<open>PasswordHasher.verify\<close>
  and \<open>parse_uuid\<close> Python's \<open>UUID(str(...))\<close>, \<open>None\<close> where they raise \<open>ValueError\<close>.
\<close>

record app_user =
  user_id :: nat
  user_email :: string
  user_password_hash :: string
  user_role_id :: nat
  user_name :: string
  user_is_active :: bool

record app_session =
  session_id :: nat
  session_user :: nat
  created_at :: int
  last_seen_at :: int
  revoked_at :: "int option"

record auth_db =
  app_users :: "app_user list"
  role_rows :: "(nat \<times> string) list"
  app_sessions :: "app_session list"

record principal =
  principal_user :: nat
  principal_role_id :: nat
  principal_role_code :: string
  principal_name :: string

definition role_codes :: "auth_db \<Rightarrow> nat \<Rightarrow> string option" where
  "role_codes d role = map_of (role_rows d) role"

lemma role_codes_update [simp]:
  "role_codes (d\<lparr>app_users := us\<rparr>) = role_codes d" "role_codes (d\<lparr>app_sessions := ss\<rparr>) = role_codes d"
  by (simp_all add: role_codes_def fun_eq_iff)

definition seconds :: "int \<Rightarrow> int" where
  "seconds n = n * 1000000"

section \<open>Rows\<close>

definition find_session :: "auth_db \<Rightarrow> nat \<Rightarrow> app_session option" where
  "find_session d sid = find (\<lambda>s. session_id s = sid) (app_sessions d)"

definition find_user :: "auth_db \<Rightarrow> nat \<Rightarrow> app_user option" where
  "find_user d uid = find (\<lambda>u. user_id u = uid) (app_users d)"

datatype auth_error = UniqueViolation | ForeignKeyViolation

definition open_session :: "int \<Rightarrow> nat \<Rightarrow> nat \<Rightarrow> auth_db \<Rightarrow> (auth_error + nat) \<times> auth_db" where
  "open_session now sid uid d =
    (if find_user d uid = None then (Inl ForeignKeyViolation, d)
     else if find_session d sid \<noteq> None then (Inl UniqueViolation, d)
     else (Inr sid, d\<lparr>app_sessions := app_sessions d @
       [\<lparr>session_id = sid, session_user = uid, created_at = now, last_seen_at = now, revoked_at = None\<rparr>]\<rparr>))"

text \<open>The conditions of the \<open>SELECT\<close>, and the \<open>UPDATE\<close> that only follows when it found the row.\<close>

definition live_session :: "int \<Rightarrow> int \<Rightarrow> int \<Rightarrow> app_session \<Rightarrow> bool" where
  "live_session now idle absolute s \<longleftrightarrow> revoked_at s = None
    \<and> created_at s > now - seconds absolute \<and> last_seen_at s > now - seconds idle"

definition principal_of :: "auth_db \<Rightarrow> app_session \<Rightarrow> principal option" where
  "principal_of d s =
    (case find_user d (session_user s) of
       None \<Rightarrow> None
     | Some u \<Rightarrow> (case role_codes d (user_role_id u) of
           None \<Rightarrow> None
         | Some code \<Rightarrow> if user_is_active u
             then Some \<lparr>principal_user = user_id u, principal_role_id = user_role_id u,
                        principal_role_code = code, principal_name = user_name u\<rparr>
             else None))"

definition update_sessions :: "(app_session \<Rightarrow> bool) \<Rightarrow> (app_session \<Rightarrow> app_session) \<Rightarrow> auth_db \<Rightarrow> auth_db" where
  "update_sessions P f d = d\<lparr>app_sessions := map (\<lambda>s. if P s then f s else s) (app_sessions d)\<rparr>"

definition load_principal ::
  "int \<Rightarrow> int \<Rightarrow> int \<Rightarrow> nat \<Rightarrow> auth_db \<Rightarrow> principal option \<times> auth_db" where
  "load_principal now idle absolute sid d =
    (case find_session d sid of
       None \<Rightarrow> (None, d)
     | Some s \<Rightarrow>
         if live_session now idle absolute s then
           (case principal_of d s of
              None \<Rightarrow> (None, d)
            | Some p \<Rightarrow> (Some p, update_sessions (\<lambda>s. session_id s = sid \<and> revoked_at s = None)
                                  (\<lambda>s. s\<lparr>last_seen_at := now\<rparr>) d))
         else (None, d))"

definition revoke_session :: "int \<Rightarrow> nat \<Rightarrow> auth_db \<Rightarrow> auth_db" where
  "revoke_session now sid =
    update_sessions (\<lambda>s. session_id s = sid \<and> revoked_at s = None) (\<lambda>s. s\<lparr>revoked_at := Some now\<rparr>)"

definition revoke_user_sessions :: "int \<Rightarrow> nat \<Rightarrow> auth_db \<Rightarrow> auth_db" where
  "revoke_user_sessions now uid =
    update_sessions (\<lambda>s. session_user s = uid \<and> revoked_at s = None) (\<lambda>s. s\<lparr>revoked_at := Some now\<rparr>)"

definition get_user_by_email :: "(string \<Rightarrow> string) \<Rightarrow> auth_db \<Rightarrow> string \<Rightarrow> (app_user \<times> string) option" where
  "get_user_by_email lower d email =
    (case find (\<lambda>u. lower (user_email u) = lower email \<and> role_codes d (user_role_id u) \<noteq> None) (app_users d) of
       None \<Rightarrow> None
     | Some u \<Rightarrow> Some (u, the (role_codes d (user_role_id u))))"

section \<open>The authentication service\<close>

datatype verdict = Verified | Mismatch | UnusableHash

definition authenticate ::
  "(string \<Rightarrow> string) \<Rightarrow> (string \<Rightarrow> string \<Rightarrow> verdict) \<Rightarrow> string \<Rightarrow> auth_db \<Rightarrow> string \<Rightarrow> string
    \<Rightarrow> (app_user \<times> string) option" where
  "authenticate lower verify dummy_hash d email plain =
    (let user = get_user_by_email lower d email;
         active = (case user of None \<Rightarrow> False | Some (u, _) \<Rightarrow> user_is_active u);
         hash = (case user of Some (u, _) \<Rightarrow> (if active then user_password_hash u else dummy_hash)
                            | None \<Rightarrow> dummy_hash)
     in case verify hash plain of
          Mismatch \<Rightarrow> None
        | UnusableHash \<Rightarrow> None
        | Verified \<Rightarrow> (if \<not> active then None else user))"

definition session_uuid :: "(string \<Rightarrow> nat option) \<Rightarrow> string option \<Rightarrow> nat option" where
  "session_uuid parse_uuid sid =
    (case sid of None \<Rightarrow> None | Some t \<Rightarrow> if t = [] then None else parse_uuid t)"

definition start_session :: "int \<Rightarrow> nat \<Rightarrow> nat \<Rightarrow> (auth_db, auth_error, nat) operation" where
  "start_session now sid uid = atomic (statements (open_session now sid uid))"

definition end_session :: "(string \<Rightarrow> nat option) \<Rightarrow> int \<Rightarrow> string option \<Rightarrow> (auth_db, auth_error, unit) operation" where
  "end_session parse_uuid now sid = atomic (statements (\<lambda>d.
     case session_uuid parse_uuid sid of
       None \<Rightarrow> (Inr (), d)
     | Some i \<Rightarrow> (Inr (), revoke_session now i d)))"

definition current_principal ::
  "(string \<Rightarrow> nat option) \<Rightarrow> int \<Rightarrow> int \<Rightarrow> int \<Rightarrow> string option \<Rightarrow> (auth_db, auth_error, principal option) operation" where
  "current_principal parse_uuid now idle absolute sid owned s =
    (case session_uuid parse_uuid sid of
       None \<Rightarrow> (Inr None, s)
     | Some i \<Rightarrow> atomic (statements (\<lambda>d. case load_principal now idle absolute i d of (p, d') \<Rightarrow> (Inr p, d'))) owned s)"

section \<open>What each operation does to a session\<close>

lemma find_session_id: "find_session d sid = Some s \<Longrightarrow> session_id s = sid"
  by (auto simp: find_session_def find_Some_iff)

lemma find_session_update:
  assumes "\<And>s. session_id (f s) = session_id s"
  shows "find_session (update_sessions P f d) sid = map_option (\<lambda>s. if P s then f s else s) (find_session d sid)"
proof -
  have "find (\<lambda>s. session_id s = sid) (map (\<lambda>s. if P s then f s else s) ss) =
      map_option (\<lambda>s. if P s then f s else s) (find (\<lambda>s. session_id s = sid) ss)" for ss
    by (induction ss) (auto simp: assms)
  then show ?thesis by (simp add: find_session_def update_sessions_def)
qed

lemma find_session_open:
  "open_session now sid uid d = (r, d') \<Longrightarrow> find_session d i = Some s \<Longrightarrow> find_session d' i = Some s"
proof -
  have "find P xs = Some x \<Longrightarrow> find P (xs @ ys) = Some x" for P and xs ys :: "app_session list" and x
    by (induction xs) auto
  then show "open_session now sid uid d = (r, d') \<Longrightarrow> find_session d i = Some s \<Longrightarrow> find_session d' i = Some s"
    by (auto simp: open_session_def find_session_def split: if_splits)
qed

text \<open>
  A request is let in only by a live session: a session resolves exactly when its row is there, not
  revoked, younger than the absolute limit and seen within the idle limit, and its user is active and has a
  role; the principal is the user and the role the database holds now, and resolving touches that
  session's last activity and nothing else.
\<close>

lemma load_principal_exact:
  "(load_principal now idle absolute sid d = (Some p, d')) \<longleftrightarrow>
    (\<exists>s. find_session d sid = Some s \<and> revoked_at s = None
      \<and> now < created_at s + seconds absolute \<and> now < last_seen_at s + seconds idle
      \<and> principal_of d s = Some p
      \<and> d' = update_sessions (\<lambda>s. session_id s = sid \<and> revoked_at s = None) (\<lambda>s. s\<lparr>last_seen_at := now\<rparr>) d)"
  by (auto simp: load_principal_def live_session_def split: option.splits)

lemma principal_of_Some:
  "principal_of d s = Some p \<longleftrightarrow> (\<exists>u code. find_user d (session_user s) = Some u \<and> user_is_active u
    \<and> role_codes d (user_role_id u) = Some code
    \<and> p = \<lparr>principal_user = user_id u, principal_role_id = user_role_id u,
           principal_role_code = code, principal_name = user_name u\<rparr>)"
  by (auto simp: principal_of_def split: option.splits)

section \<open>Histories of sessions\<close>

text \<open>
  What happens to the tables between two requests: sign-ins, resolved requests, sign-outs, revocation of
  a user's sessions, and a change of a user's activity or role by an administrator, each at its own
  time. The order of the times is not assumed.
\<close>

datatype session_event =
    SignIn nat nat
  | Resolve int int nat
  | SignOut nat
  | RevokeUser nat
  | SetActive nat bool
  | SetRole nat nat

fun session_step :: "int \<times> session_event \<Rightarrow> auth_db \<Rightarrow> auth_db" where
  "session_step (now, SignIn sid uid) d = snd (open_session now sid uid d)"
| "session_step (now, Resolve idle absolute sid) d = snd (load_principal now idle absolute sid d)"
| "session_step (now, SignOut sid) d = revoke_session now sid d"
| "session_step (now, RevokeUser uid) d = revoke_user_sessions now uid d"
| "session_step (now, SetActive uid b) d =
     d\<lparr>app_users := map (\<lambda>u. if user_id u = uid then u\<lparr>user_is_active := b\<rparr> else u) (app_users d)\<rparr>"
| "session_step (now, SetRole uid r) d =
     d\<lparr>app_users := map (\<lambda>u. if user_id u = uid then u\<lparr>user_role_id := r\<rparr> else u) (app_users d)\<rparr>"

text \<open>A step never removes a session, never changes its creation, and never undoes a revocation.\<close>

lemma session_step_keeps:
  assumes "find_session d sid = Some s"
  shows "\<exists>s'. find_session (session_step e d) sid = Some s' \<and> created_at s' = created_at s
    \<and> session_user s' = session_user s \<and> (revoked_at s \<noteq> None \<longrightarrow> revoked_at s' = revoked_at s)"
proof (cases e)
  case (Pair now ev)
  show ?thesis
  proof (cases ev)
    case (SignIn i u)
    have "find_session (snd (open_session now i u d)) sid = Some s"
      using find_session_open [OF surjective_pairing assms] .
    then show ?thesis by (simp add: Pair SignIn)
  next
    case (Resolve idle absolute i)
    then show ?thesis
      using assms by (auto simp: Pair load_principal_def find_session_update split: option.splits if_splits)
  next
    case (SignOut i)
    then show ?thesis using assms by (simp add: Pair revoke_session_def find_session_update)
  next
    case (RevokeUser u)
    then show ?thesis using assms by (simp add: Pair revoke_user_sessions_def find_session_update)
  next
    case (SetActive u b)
    then show ?thesis using assms by (simp add: Pair find_session_def)
  next
    case (SetRole u r)
    then show ?thesis using assms by (simp add: Pair find_session_def)
  qed
qed

interpretation revoked_run: stepwise session_step
  "\<lambda>d. \<exists>s. find_session d sid = Some s \<and> revoked_at s \<noteq> None" for sid
proof
  fix d e
  assume "\<exists>s. find_session d sid = Some s \<and> revoked_at s \<noteq> None"
  then obtain s where "find_session d sid = Some s" "revoked_at s \<noteq> None" by blast
  with session_step_keeps [of d sid s e]
  show "\<exists>s. find_session (session_step e d) sid = Some s \<and> revoked_at s \<noteq> None" by auto
qed

interpretation born_run: stepwise session_step
  "\<lambda>d. \<exists>s. find_session d sid = Some s \<and> created_at s = c" for sid c
proof
  fix d e
  assume "\<exists>s. find_session d sid = Some s \<and> created_at s = c"
  then obtain s where "find_session d sid = Some s" "created_at s = c" by blast
  with session_step_keeps [of d sid s e]
  show "\<exists>s. find_session (session_step e d) sid = Some s \<and> created_at s = c" by auto
qed

text \<open>
  C14. Signing out is final: after a session is revoked, no sequence of later events, whatever their times,
  makes it resolve again, so a copied cookie stops working for good.
\<close>

theorem revoked_session_never_resolves:
  assumes "find_session d sid = Some s"
  shows "load_principal now idle absolute sid (fold session_step es (revoke_session at sid d))
    = (None, fold session_step es (revoke_session at sid d))"
proof -
  have "\<exists>s. find_session (revoke_session at sid d) sid = Some s \<and> revoked_at s \<noteq> None"
    using assms find_session_id [OF assms] by (auto simp: revoke_session_def find_session_update)
  from revoked_run.run_inv [OF this, of es] show ?thesis
    by (auto simp: load_principal_def live_session_def)
qed

text \<open>
  The absolute limit cannot be stretched: once a session is as old as the limit, it never resolves,
  however often it was used in between.
\<close>

lemma expired_session_never_resolves:
  assumes "find_session d sid = Some s" and "created_at s + seconds absolute \<le> now"
  shows "fst (load_principal now idle absolute sid (fold session_step es d)) = None"
proof -
  have "\<exists>s'. find_session d sid = Some s' \<and> created_at s' = created_at s" using assms(1) by blast
  from born_run.run_inv [OF this, of es] assms(2) show ?thesis
    by (auto simp: load_principal_def live_session_def split: option.splits)
qed

definition example_db :: auth_db where
  "example_db = \<lparr>app_users = [\<lparr>user_id = 1, user_email = ''ana@x.mx'', user_password_hash = ''h'',
       user_role_id = 4, user_name = ''Ana'', user_is_active = True\<rparr>],
     role_rows = [(1, ''ADMIN''), (4, ''ANALYST'')],
     app_sessions = [\<lparr>session_id = 9, session_user = 1, created_at = 0, last_seen_at = 0, revoked_at = None\<rparr>]\<rparr>"

lemma example_db_session:
  "find_session example_db 9 = Some \<lparr>session_id = 9, session_user = 1, created_at = 0, last_seen_at = 0, revoked_at = None\<rparr>"
  by (simp add: find_session_def example_db_def)

theorem revoked_session_never_resolves_witness:
  "fst (load_principal 20 60 3600 9 (fold session_step [(11, Resolve 60 3600 9), (12, SetActive 1 True)]
      (revoke_session 10 9 example_db))) = None"
  by (simp only: revoked_session_never_resolves [OF example_db_session] fst_conv)

text \<open>
  Signing in needs an active account and the right password: \<open>authenticate\<close> returns a user exactly
  when the address finds one that is active and whose own hash verifies the password; a missing, an
  inactive and a mistyped account are the same refusal.
\<close>

lemma authenticate_exact:
  "(authenticate lower verify dummy_hash d email plain = Some (u, code)) \<longleftrightarrow>
    (get_user_by_email lower d email = Some (u, code) \<and> user_is_active u
      \<and> verify (user_password_hash u) plain = Verified)"
  by (auto simp: authenticate_def Let_def split: option.splits verdict.splits if_splits)

end
