(* ===== verification/Authz.thy ===== *)
theory Authz
  imports Sessions "HOL-Library.List_Lexorder" "HOL-Library.Char_ord"
begin

text \<open>
  The authorization layer, \<open>web/middleware/authz.py\<close>: the permission matrix, what a view declares, the
  session that is re-read from the database on every request, the gate that runs before every view, and
  the menu. A set of permissions is a set of their names. Flask's request and cookie are records;
  \<open>views\<close> gives what is registered under an endpoint: \<open>None\<close> for no view, \<open>Some None\<close> for a view
  without a declaration. \<open>abort(403)\<close>, the redirect to the sign-in page and letting the request
  through are the three outcomes of the gate.
\<close>

section \<open>The vocabulary and the matrix\<close>

definition CATALOG_READ :: string where "CATALOG_READ = ''catalog.read''"
definition CATALOG_WRITE :: string where "CATALOG_WRITE = ''catalog.write''"
definition INVENTORY_WRITE :: string where "INVENTORY_WRITE = ''inventory.write''"
definition USER_READ :: string where "USER_READ = ''user.read''"
definition USER_WRITE :: string where "USER_WRITE = ''user.write''"
definition USER_SELF :: string where "USER_SELF = ''user.self''"
definition SEGMENT_READ :: string where "SEGMENT_READ = ''segment.read''"
definition SEGMENT_WRITE :: string where "SEGMENT_WRITE = ''segment.write''"
definition CAMPAIGN_READ :: string where "CAMPAIGN_READ = ''campaign.read''"
definition CAMPAIGN_WRITE :: string where "CAMPAIGN_WRITE = ''campaign.write''"
definition SEGMENT_RUN_EXECUTE :: string where "SEGMENT_RUN_EXECUTE = ''segment_run.execute''"
definition REPORT_READ :: string where "REPORT_READ = ''report.read''"
definition AUDIT_READ :: string where "AUDIT_READ = ''audit.read''"
definition SALES_INGEST_EXECUTE :: string where "SALES_INGEST_EXECUTE = ''sales_ingest.execute''"

lemmas permission_names = CATALOG_READ_def CATALOG_WRITE_def INVENTORY_WRITE_def USER_READ_def
  USER_WRITE_def USER_SELF_def SEGMENT_READ_def SEGMENT_WRITE_def CAMPAIGN_READ_def CAMPAIGN_WRITE_def
  SEGMENT_RUN_EXECUTE_def REPORT_READ_def AUDIT_READ_def SALES_INGEST_EXECUTE_def

definition ALL_PERMISSIONS :: "string set" where
  "ALL_PERMISSIONS = set [CATALOG_READ, CATALOG_WRITE, INVENTORY_WRITE, USER_READ, USER_WRITE, USER_SELF,
     SEGMENT_READ, SEGMENT_WRITE, CAMPAIGN_READ, CAMPAIGN_WRITE, SEGMENT_RUN_EXECUTE, REPORT_READ,
     AUDIT_READ, SALES_INGEST_EXECUTE]"

definition PERMISSIONS :: "(string \<times> string set) list" where
  "PERMISSIONS =
   [(''ADMIN'', set [CATALOG_READ, CATALOG_WRITE, USER_READ, USER_WRITE, SEGMENT_READ, SEGMENT_WRITE,
       CAMPAIGN_READ, CAMPAIGN_WRITE, SEGMENT_RUN_EXECUTE, REPORT_READ, AUDIT_READ, INVENTORY_WRITE,
       SALES_INGEST_EXECUTE]),
    (''ANALYST'', set [CATALOG_READ, SEGMENT_READ, CAMPAIGN_READ, REPORT_READ]),
    (''STORE_MANAGER'', set [CATALOG_READ, SEGMENT_READ, REPORT_READ]),
    (''MARKETING'', set [CATALOG_READ, SEGMENT_READ, CAMPAIGN_READ, CAMPAIGN_WRITE, REPORT_READ]),
    (''INVENTORY_PLANNER'', set [CATALOG_READ, INVENTORY_WRITE, REPORT_READ]),
    (''AUDITOR'', set [CATALOG_READ, USER_READ, SEGMENT_READ, CAMPAIGN_READ, REPORT_READ, AUDIT_READ]),
    (''CUSTOMER'', set [USER_SELF])]"

definition permissions_for :: "string option \<Rightarrow> string set" where
  "permissions_for role_code =
    (case role_code of
       None \<Rightarrow> {}
     | Some code \<Rightarrow> (case map_of PERMISSIONS code of None \<Rightarrow> {} | Some held \<Rightarrow> held))"

definition roles_holding :: "string \<Rightarrow> string list" where
  "roles_holding permission = sort (map fst (filter (\<lambda>(code, held). permission \<in> held) PERMISSIONS))"

section \<open>Declarations\<close>

record requirement =
  anonymous_allowed :: bool
  required :: "string set"

definition public_view :: requirement where
  "public_view = \<lparr>anonymous_allowed = True, required = {}\<rparr>"

datatype requires_error = UnknownPermissions "string list"

definition requires_view :: "string list \<Rightarrow> requires_error + requirement" where
  "requires_view permissions =
    (let unknown = filter (\<lambda>p. p \<notin> ALL_PERMISSIONS) permissions
     in if unknown \<noteq> [] then Inl (UnknownPermissions (sort (remdups unknown)))
        else Inr \<lparr>anonymous_allowed = False, required = set permissions\<rparr>)"

definition requirement_of :: "requirement option option \<Rightarrow> requirement option" where
  "requirement_of view = (case view of None \<Rightarrow> None | Some declared \<Rightarrow> declared)"

section \<open>The signed-in user\<close>

text \<open>The cookie's keys; \<open>session.get\<close> of a missing key is \<open>None\<close>.\<close>

record cookie =
  cookie_sid :: "string option"
  cookie_user_id :: "nat option"
  cookie_role_id :: "nat option"
  cookie_role_code :: "string option"
  cookie_name :: "string option"

definition cleared :: cookie where
  "cleared = \<lparr>cookie_sid = None, cookie_user_id = None, cookie_role_id = None,
     cookie_role_code = None, cookie_name = None\<rparr>"

definition is_signed_in :: "cookie \<Rightarrow> bool" where
  "is_signed_in c \<longleftrightarrow> cookie_user_id c \<noteq> None"

definition current_permissions :: "cookie \<Rightarrow> string set" where
  "current_permissions c = (if \<not> is_signed_in c then {} else permissions_for (cookie_role_code c))"

definition can :: "cookie \<Rightarrow> string \<Rightarrow> bool" where
  "can c permission \<longleftrightarrow> permission \<in> current_permissions c"

section \<open>The gate\<close>

record request =
  endpoint :: "string option"
  http_method :: string
  path :: string

datatype gate = Proceed | RedirectToLogin | Forbidden

definition authorize :: "(string \<Rightarrow> requirement option option) \<Rightarrow> request \<Rightarrow> cookie \<Rightarrow> gate" where
  "authorize views req c =
    (case endpoint req of
       None \<Rightarrow> Proceed
     | Some e \<Rightarrow>
         if e = ''static'' then Proceed
         else case requirement_of (views e) of
           None \<Rightarrow> Forbidden
         | Some r \<Rightarrow>
             if anonymous_allowed r then Proceed
             else if \<not> is_signed_in c then
               (if http_method req \<in> {''GET'', ''HEAD''} then RedirectToLogin else Forbidden)
             else if required r - current_permissions c \<noteq> {} then Forbidden
             else Proceed)"

text \<open>
  \<open>resolve_session\<close>: nothing for an anonymous cookie or a static file; otherwise the database says whose
  session it is, or the cookie is cleared.
\<close>

definition resolve_session ::
  "(string \<Rightarrow> nat option) \<Rightarrow> int \<Rightarrow> int \<Rightarrow> int \<Rightarrow> request \<Rightarrow> cookie \<Rightarrow> auth_db session \<Rightarrow> cookie \<times> auth_db session" where
  "resolve_session parse_uuid now idle absolute req c s =
    (if cookie_user_id c = None \<or> endpoint req = Some ''static'' then (c, s)
     else case current_principal parse_uuid now idle absolute (cookie_sid c) False s of
         (Inr (Some p), s') \<Rightarrow>
           (c\<lparr>cookie_user_id := Some (principal_user p), cookie_role_id := Some (principal_role_id p),
              cookie_role_code := Some (principal_role_code p), cookie_name := Some (principal_name p)\<rparr>, s')
       | (_, s') \<Rightarrow> (cleared, s'))"

text \<open>The two hooks in the order \<open>install\<close> registers them.\<close>

definition before_request ::
  "(string \<Rightarrow> nat option) \<Rightarrow> int \<Rightarrow> int \<Rightarrow> int \<Rightarrow> (string \<Rightarrow> requirement option option) \<Rightarrow> request \<Rightarrow> cookie
    \<Rightarrow> auth_db session \<Rightarrow> gate \<times> cookie \<times> auth_db session" where
  "before_request parse_uuid now idle absolute views req c s =
    (case resolve_session parse_uuid now idle absolute req c s of
       (c', s') \<Rightarrow> (authorize views req c', c', s'))"

section \<open>Returning where the visitor was going\<close>

text \<open>\<open>urlsplit\<close> is Python's: scheme, network location and path of a target.\<close>

definition safe_next :: "(string \<Rightarrow> string \<times> string \<times> string) \<Rightarrow> string option \<Rightarrow> string option" where
  "safe_next urlsplit target =
    (case target of
       None \<Rightarrow> None
     | Some t \<Rightarrow>
         if t = [] then None
         else if CHR 0x5C \<in> set t \<or> CHR 0x0D \<in> set t \<or> CHR 0x0A \<in> set t then None
         else case urlsplit t of (scheme, netloc, p) \<Rightarrow>
           if scheme \<noteq> [] \<or> netloc \<noteq> [] then None
           else if take 1 p \<noteq> ''/'' \<or> take 2 p = ''//'' then None
           else Some t)"

section \<open>The menu\<close>

record menu_entry =
  entry_label :: string
  entry_endpoint :: string
  entry_permission :: "string option"
  entry_section :: string

definition menu_entry_of :: "string \<Rightarrow> string \<Rightarrow> string option \<Rightarrow> string \<Rightarrow> menu_entry" where
  "menu_entry_of l e p s = \<lparr>entry_label = l, entry_endpoint = e, entry_permission = p, entry_section = s\<rparr>"

definition NAVIGATION :: "menu_entry list" where
  "NAVIGATION =
   [menu_entry_of ''Home'' ''home.index'' None ''Workspace'',
    menu_entry_of ''Notifications'' ''notifications.index'' None ''Workspace'',
    menu_entry_of ''Catalogs'' ''catalog.index'' (Some CATALOG_READ) ''Workspace'',
    menu_entry_of ''Users'' ''admin.list_users_view'' (Some USER_READ) ''Workspace'',
    menu_entry_of ''Sales import'' ''sales_import.index'' (Some SALES_INGEST_EXECUTE) ''Workspace'',
    menu_entry_of ''Segments'' ''catalog.segments'' (Some SEGMENT_READ) ''Analysis'',
    menu_entry_of ''Campaigns'' ''campaigns.index'' (Some CAMPAIGN_READ) ''Analysis'',
    menu_entry_of ''Experiments'' ''experiments.index'' (Some CAMPAIGN_READ) ''Analysis'',
    menu_entry_of ''Segment run'' ''segment_run.index'' (Some SEGMENT_RUN_EXECUTE) ''Analysis'',
    menu_entry_of ''Run history'' ''run_history.index'' (Some SEGMENT_READ) ''Analysis'',
    menu_entry_of ''Migration matrix'' ''migration_matrix.index'' (Some SEGMENT_READ) ''Analysis'',
    menu_entry_of ''Model comparison'' ''model_comparison.index'' (Some SEGMENT_READ) ''Analysis'',
    menu_entry_of ''Segmentation dashboard'' ''segmentation_dashboard.index'' (Some SEGMENT_READ) ''Analysis'',
    menu_entry_of ''Segment history report'' ''segment_history_report.index'' (Some SEGMENT_READ) ''Analysis'',
    menu_entry_of ''Consumption reports'' ''consumption_reports.index'' (Some SEGMENT_READ) ''Analysis'',
    menu_entry_of ''Experiment dashboard'' ''experiment_dashboard.index'' (Some CAMPAIGN_READ) ''Analysis'',
    menu_entry_of ''Experiment report'' ''experiment_report.index'' (Some CAMPAIGN_READ) ''Analysis'',
    menu_entry_of ''Reports'' ''reports.index'' (Some REPORT_READ) ''Analysis'',
    menu_entry_of ''Audit log'' ''audit.index'' (Some AUDIT_READ) ''Governance'']"

definition starts_with :: "string \<Rightarrow> string \<Rightarrow> bool" where
  "starts_with p s \<longleftrightarrow> take (length p) s = p"

definition active_endpoint :: "request \<Rightarrow> string option" where
  "active_endpoint req =
    (case endpoint req of
       None \<Rightarrow> None
     | Some e \<Rightarrow> Some
        (if starts_with ''admin.'' e then
           (if starts_with ''/admin/users'' (path req) then ''admin.list_users_view'' else ''catalog.index'')
         else if e \<in> {''catalog.segments'', ''catalog.segment_detail''} then ''catalog.segments''
         else if starts_with ''notifications.'' e then ''notifications.index''
         else if starts_with ''catalog.'' e then ''catalog.index''
         else if starts_with ''experiments.'' e then ''experiments.index''
         else e))"

definition menu :: "(string \<Rightarrow> requirement option option) \<Rightarrow> request \<Rightarrow> cookie \<Rightarrow> (menu_entry \<times> bool) list" where
  "menu views req c =
    map (\<lambda>entry. (entry, Some (entry_endpoint entry) = active_endpoint req))
      (filter (\<lambda>entry. views (entry_endpoint entry) \<noteq> None
         \<and> (case entry_permission entry of None \<Rightarrow> True | Some p \<Rightarrow> p \<in> current_permissions c)) NAVIGATION)"

section \<open>What the matrix grants\<close>

lemma permissions_for_cases:
  "p \<in> permissions_for role \<longleftrightarrow> (\<exists>code held. role = Some code \<and> (code, held) \<in> set PERMISSIONS \<and> p \<in> held)"
proof -
  have "distinct (map fst PERMISSIONS)" by (simp add: PERMISSIONS_def)
  then show ?thesis
    by (cases role) (auto simp: permissions_for_def map_of_eq_Some_iff split: option.splits
        dest: weak_map_of_SomeI eq_key_imp_eq_value)
qed

lemma roles_holding_iff: "(code \<in> set (roles_holding p)) = (p \<in> permissions_for (Some code))"
  by (force simp: permissions_for_cases roles_holding_def)

text \<open>
  The matrix is closed and the two readings of it agree: every granted permission is one that exists,
  the roles that hold a permission are exactly those whose permissions include it, in a fixed order, an
  unknown role holds nothing, and running a segmentation, changing users and importing sales belong to
  the administrator alone.
\<close>

lemma matrix_closed_and_consistent:
  "permissions_for role \<subseteq> ALL_PERMISSIONS
    \<and> (code \<in> set (roles_holding p)) = (p \<in> permissions_for (Some code))
    \<and> sorted (roles_holding p) \<and> distinct (roles_holding p)
    \<and> (code \<notin> fst ` set PERMISSIONS \<longrightarrow> permissions_for (Some code) = {})
    \<and> roles_holding SEGMENT_RUN_EXECUTE = [''ADMIN''] \<and> roles_holding USER_WRITE = [''ADMIN'']
    \<and> roles_holding SALES_INGEST_EXECUTE = [''ADMIN'']"
proof (intro conjI impI)
  have "held \<subseteq> ALL_PERMISSIONS" if "(code, held) \<in> set PERMISSIONS" for code held
    using that by (auto simp: PERMISSIONS_def ALL_PERMISSIONS_def)
  then show "permissions_for role \<subseteq> ALL_PERMISSIONS"
    using permissions_for_cases by blast
  show "(code \<in> set (roles_holding p)) = (p \<in> permissions_for (Some code))"
    by (rule roles_holding_iff)
  have "distinct (map fst PERMISSIONS)" by (simp add: PERMISSIONS_def)
  then show "distinct (roles_holding p)"
    by (simp add: roles_holding_def distinct_map_filter)
  show "permissions_for (Some code) = {}" if "code \<notin> fst ` set PERMISSIONS"
    using that by (force simp: permissions_for_cases)
  show "roles_holding SEGMENT_RUN_EXECUTE = [''ADMIN'']" "roles_holding USER_WRITE = [''ADMIN'']"
    "roles_holding SALES_INGEST_EXECUTE = [''ADMIN'']"
    by (simp_all add: roles_holding_def PERMISSIONS_def permission_names)
qed (simp add: roles_holding_def)

section \<open>What the gate lets through\<close>

lemma authorize_proceeds:
  assumes "endpoint req = Some e" and "e \<noteq> ''static''"
  shows "authorize views req c = Proceed \<longleftrightarrow>
    (\<exists>r. views e = Some (Some r) \<and>
      (anonymous_allowed r \<or> is_signed_in c \<and> required r \<subseteq> permissions_for (cookie_role_code c)))"
  using assms by (auto simp: authorize_def requirement_of_def current_permissions_def split: option.splits)

text \<open>
  Default deny: a request for a page is let through exactly when the page declares what reaching it
  requires and the declaration is met, and a page with no declaration is refused to everybody. Only a
  GET or HEAD of an anonymous visitor is sent to the sign-in page.
\<close>

lemma gate_default_deny:
  assumes "endpoint req = Some e" and "e \<noteq> ''static''"
  shows "authorize views req c =
    (case views e of
       Some (Some r) \<Rightarrow>
         if anonymous_allowed r \<or> is_signed_in c \<and> required r \<subseteq> permissions_for (cookie_role_code c) then Proceed
         else if \<not> is_signed_in c \<and> http_method req \<in> {''GET'', ''HEAD''} then RedirectToLogin
         else Forbidden
     | _ \<Rightarrow> Forbidden)"
  using assms by (auto simp: authorize_def requirement_of_def current_permissions_def split: option.splits)

definition example_request :: request where
  "example_request = \<lparr>endpoint = Some ''segment_run.index'', http_method = ''GET'', path = ''/segment-run/''\<rparr>"

lemma current_principal_Some:
  assumes "current_principal parse_uuid now idle absolute c False (at_rest d) = (Inr (Some p), s')"
  shows "\<exists>t sid d'. c = Some t \<and> parse_uuid t = Some sid
    \<and> load_principal now idle absolute sid d = (Some p, d') \<and> s' = at_rest d'"
  using assms
  by (auto simp: current_principal_def session_uuid_def atomic_statements
      split: option.splits if_splits prod.splits)

text \<open>
  C13. Nothing in the cookie is trusted: a request that reaches a page which is not public carries the id
  of a session the database holds, not revoked and within both limits, whose user is active, and it is
  the role that user has now, not the one in the cookie, that holds every permission the page requires.
\<close>

theorem protected_page_needs_live_session:
  assumes "before_request parse_uuid now idle absolute views req c (at_rest d) = (Proceed, c', s')"
    and "endpoint req = Some e" and "e \<noteq> ''static''"
    and "views e = Some (Some r)" and "\<not> anonymous_allowed r"
  shows "\<exists>t sid s u code. cookie_sid c = Some t \<and> parse_uuid t = Some sid
    \<and> find_session d sid = Some s \<and> revoked_at s = None
    \<and> now < created_at s + seconds absolute \<and> now < last_seen_at s + seconds idle
    \<and> find_user d (session_user s) = Some u \<and> user_is_active u
    \<and> role_codes d (user_role_id u) = Some code
    \<and> required r \<subseteq> permissions_for (Some code)"
proof -
  from assms(1) have res: "resolve_session parse_uuid now idle absolute req c (at_rest d) = (c', s')"
    and auth: "authorize views req c' = Proceed"
    by (auto simp: before_request_def split: prod.splits)
  from auth assms(2-5) have signed: "is_signed_in c'" and perms: "required r \<subseteq> permissions_for (cookie_role_code c')"
    by (auto simp: authorize_proceeds)
  from res signed assms(2,3) obtain p where
    p: "current_principal parse_uuid now idle absolute (cookie_sid c) False (at_rest d) = (Inr (Some p), s')"
    and role: "cookie_role_code c' = Some (principal_role_code p)"
    by (auto simp: resolve_session_def is_signed_in_def cleared_def split: if_splits prod.splits sum.splits option.splits)
  from current_principal_Some [OF p] obtain t sid d' where
    t: "cookie_sid c = Some t" "parse_uuid t = Some sid" "load_principal now idle absolute sid d = (Some p, d')"
    by blast
  from t(3) obtain s where s: "find_session d sid = Some s" "revoked_at s = None"
    "now < created_at s + seconds absolute" "now < last_seen_at s + seconds idle" "principal_of d s = Some p"
    by (auto simp: load_principal_def live_session_def split: option.splits if_splits)
  from s(5) obtain u code where "find_user d (session_user s) = Some u" "user_is_active u"
    "role_codes d (user_role_id u) = Some code" "principal_role_code p = code"
    by (auto simp: principal_of_Some)
  with t s perms role show ?thesis by auto
qed

theorem protected_page_needs_live_session_witness:
  "\<exists>c' s'. before_request (\<lambda>_. Some 9) 5 60 3600
      (\<lambda>_. Some (Some \<lparr>anonymous_allowed = False, required = {REPORT_READ}\<rparr>)) example_request
      (cleared\<lparr>cookie_sid := Some ''9'', cookie_user_id := Some 1, cookie_role_code := Some ''ADMIN''\<rparr>)
      (at_rest example_db) = (Proceed, c', s') \<and> revoked_at (the (find_session example_db 9)) = None"
proof -
  let ?views = "\<lambda>_ :: string. Some (Some \<lparr>anonymous_allowed = False, required = {REPORT_READ}\<rparr>)"
  let ?c = "cleared\<lparr>cookie_sid := Some ''9'', cookie_user_id := Some 1, cookie_role_code := Some ''ADMIN''\<rparr>"
  have u: "find_user example_db 1 = Some (hd (app_users example_db))"
    by (simp add: find_user_def example_db_def)
  have p: "\<exists>d'. load_principal 5 60 3600 9 example_db = (Some \<lparr>principal_user = 1, principal_role_id = 4,
      principal_role_code = ''ANALYST'', principal_name = ''Ana''\<rparr>, d')"
    using u by (simp add: load_principal_def example_db_session live_session_def seconds_def principal_of_def)
      (simp add: example_db_def role_codes_def)
  have "REPORT_READ \<in> permissions_for (Some ''ANALYST'')"
    by (simp add: permissions_for_def PERMISSIONS_def)
  then obtain c' s' where run: "before_request (\<lambda>_. Some 9) 5 60 3600 ?views example_request ?c (at_rest example_db) = (Proceed, c', s')"
    using p by (auto simp: before_request_def resolve_session_def current_principal_def session_uuid_def atomic_statements
        authorize_proceeds example_request_def is_signed_in_def cleared_def)
  have "endpoint example_request = Some ''segment_run.index''" by (simp add: example_request_def)
  from protected_page_needs_live_session [OF run this]
  have "\<exists>s. find_session example_db 9 = Some s \<and> revoked_at s = None"
    by auto
  with run show ?thesis by auto
qed

text \<open>
  The menu offers a visitor only what the gate would let them open, as far as the matrix goes: an entry
  is listed exactly when its page exists and the visitor holds its permission, in the declared order.
\<close>

lemma menu_offers_only_what_is_held:
  "map fst (menu views req c) = filter (\<lambda>e. views (entry_endpoint e) \<noteq> None
      \<and> (\<forall>p. entry_permission e = Some p \<longrightarrow> is_signed_in c \<and> p \<in> permissions_for (cookie_role_code c))) NAVIGATION
    \<and> (\<forall>(e, current) \<in> set (menu views req c). current \<longrightarrow> active_endpoint req = Some (entry_endpoint e))"
proof -
  have eq: "(case entry_permission e of None \<Rightarrow> True | Some p \<Rightarrow> p \<in> current_permissions c) \<longleftrightarrow>
      (\<forall>p. entry_permission e = Some p \<longrightarrow> is_signed_in c \<and> p \<in> permissions_for (cookie_role_code c))" for e
    by (auto simp: current_permissions_def split: option.splits)
  have pred: "(\<lambda>e. views (entry_endpoint e) \<noteq> None
        \<and> (case entry_permission e of None \<Rightarrow> True | Some p \<Rightarrow> p \<in> current_permissions c))
      = (\<lambda>e. views (entry_endpoint e) \<noteq> None
        \<and> (\<forall>p. entry_permission e = Some p \<longrightarrow> is_signed_in c \<and> p \<in> permissions_for (cookie_role_code c)))"
    by (intro ext) (simp only: eq)
  show ?thesis unfolding menu_def pred by (auto simp: comp_def)
qed

text \<open>
  No open redirect: a target that is honoured has no scheme and no host, starts with one slash, and
  cannot carry a backslash or a line break into the response.
\<close>

lemma safe_next_same_site:
  assumes "safe_next urlsplit target = Some t"
  shows "target = Some t \<and> (\<exists>p. urlsplit t = ([], [], p) \<and> take 1 p = ''/'' \<and> take 2 p \<noteq> ''//'')
    \<and> CHR 0x5C \<notin> set t \<and> CHR 0x0D \<notin> set t \<and> CHR 0x0A \<notin> set t"
  using assms by (auto simp: safe_next_def split: option.splits if_splits prod.splits)

end
