(* ===== verification/Notifications.thy ===== *)
theory Notifications
  imports Authz
begin

text \<open>
  In-app notifications: \<open>web/db/notifications.py\<close> and \<open>web/services/notifications.py\<close>. An event is stored
  as its subject; its kind is the column the database derives from the subject. Recipients are the rows
  of \<open>notification_recipient\<close>. Identities are given out by a counter of the state. The kinds a reader
  may see come from the permission matrix of \<open>Authz\<close>, the same map that chose the recipients.
  The foreign keys from an event to a load, a run or an experiment point at rows the caller has just
  written or read and are not part of this state; the one to a user is.
\<close>

section \<open>State\<close>

datatype subject =
    SalesLoadSubject nat
  | RunSubject nat
  | ExperimentSubject nat
  | UserSubject nat

definition SALES_LOAD_FINISHED :: string where "SALES_LOAD_FINISHED = ''SALES_LOAD_FINISHED''"
definition SEGMENT_RUN_COMPLETED :: string where "SEGMENT_RUN_COMPLETED = ''SEGMENT_RUN_COMPLETED''"
definition EXPERIMENT_ENDED :: string where "EXPERIMENT_ENDED = ''EXPERIMENT_ENDED''"
definition USER_DEACTIVATED :: string where "USER_DEACTIVATED = ''USER_DEACTIVATED''"

lemmas kind_names = SALES_LOAD_FINISHED_def SEGMENT_RUN_COMPLETED_def EXPERIMENT_ENDED_def USER_DEACTIVATED_def

fun kind_of :: "subject \<Rightarrow> string" where
  "kind_of (SalesLoadSubject _) = SALES_LOAD_FINISHED"
| "kind_of (RunSubject _) = SEGMENT_RUN_COMPLETED"
| "kind_of (ExperimentSubject _) = EXPERIMENT_ENDED"
| "kind_of (UserSubject _) = USER_DEACTIVATED"

record notice =
  note_id :: nat
  note_subject :: subject
  note_created_at :: int

record recipient =
  recipient_note :: nat
  recipient_user :: nat
  read_at :: "int option"

record app_db =
  accounts :: auth_db
  note_rows :: "notice list"
  recipient_rows :: "recipient list"
  next_note :: nat

datatype note_error = DuplicateSubject | UnknownSubject

section \<open>Statements\<close>

definition note_of :: "app_db \<Rightarrow> nat \<Rightarrow> notice option" where
  "note_of d n = find (\<lambda>x. note_id x = n) (note_rows d)"

text \<open>The \<open>UNIQUE\<close> constraints: a load, a run and an experiment are announced once; a user may be many times.\<close>

definition announced_once :: "subject \<Rightarrow> bool" where
  "announced_once s \<longleftrightarrow> (case s of UserSubject _ \<Rightarrow> False | _ \<Rightarrow> True)"

definition insert_notification :: "int \<Rightarrow> subject \<Rightarrow> app_db \<Rightarrow> (note_error + nat) \<times> app_db" where
  "insert_notification now s d =
    (if announced_once s \<and> s \<in> set (map note_subject (note_rows d)) then (Inl DuplicateSubject, d)
     else if (case s of UserSubject u \<Rightarrow> find_user (accounts d) u = None | _ \<Rightarrow> False) then (Inl UnknownSubject, d)
     else (Inr (next_note d),
       d\<lparr>note_rows := note_rows d @ [\<lparr>note_id = next_note d, note_subject = s, note_created_at = now\<rparr>],
         next_note := Suc (next_note d)\<rparr>))"

text \<open>The users of \<open>SELECT ... FROM app_user JOIN role WHERE is_active AND code = ANY(role_codes)\<close>.\<close>

definition active_holders :: "auth_db \<Rightarrow> string list \<Rightarrow> app_user list" where
  "active_holders a codes =
    filter (\<lambda>u. user_is_active u \<and> (case role_codes a (user_role_id u) of None \<Rightarrow> False | Some c \<Rightarrow> c \<in> set codes)) (app_users a)"

definition insert_recipients :: "nat \<Rightarrow> string list \<Rightarrow> app_db \<Rightarrow> nat \<times> app_db" where
  "insert_recipients n codes d =
    (let new = map (\<lambda>u. \<lparr>recipient_note = n, recipient_user = user_id u, read_at = None\<rparr>) (active_holders (accounts d) codes)
     in (length new, d\<lparr>recipient_rows := recipient_rows d @ new\<rparr>))"

definition readable :: "app_db \<Rightarrow> nat \<Rightarrow> string list \<Rightarrow> recipient \<Rightarrow> bool" where
  "readable d uid kinds r \<longleftrightarrow> recipient_user r = uid
     \<and> (case note_of d (recipient_note r) of None \<Rightarrow> False | Some n \<Rightarrow> kind_of (note_subject n) \<in> set kinds)"

definition count_notifications :: "nat \<Rightarrow> string list \<Rightarrow> app_db \<Rightarrow> nat" where
  "count_notifications uid kinds d = length (filter (readable d uid kinds) (recipient_rows d))"

definition count_unread :: "nat \<Rightarrow> string list \<Rightarrow> app_db \<Rightarrow> nat" where
  "count_unread uid kinds d = length (filter (\<lambda>r. readable d uid kinds r \<and> read_at r = None) (recipient_rows d))"

text \<open>\<open>ORDER BY notification_id DESC LIMIT limit OFFSET offset\<close>.\<close>

definition list_notifications :: "nat \<Rightarrow> string list \<Rightarrow> nat \<Rightarrow> nat \<Rightarrow> app_db \<Rightarrow> (notice \<times> recipient) list" where
  "list_notifications uid kinds limit offset d =
    take limit (drop offset (map (\<lambda>r. (the (note_of d (recipient_note r)), r))
      (rev (sort_key recipient_note (filter (readable d uid kinds) (recipient_rows d))))))"

definition get_notification :: "nat \<Rightarrow> nat \<Rightarrow> string list \<Rightarrow> app_db \<Rightarrow> (notice \<times> recipient) option" where
  "get_notification uid n kinds d =
    (case find (\<lambda>r. recipient_note r = n \<and> readable d uid kinds r) (recipient_rows d) of
       None \<Rightarrow> None
     | Some r \<Rightarrow> Some (the (note_of d n), r))"

definition mark_read :: "int \<Rightarrow> nat \<Rightarrow> nat \<Rightarrow> string list \<Rightarrow> app_db \<Rightarrow> bool \<times> app_db" where
  "mark_read now uid n kinds d =
    (let matches = (\<lambda>r. recipient_note r = n \<and> readable d uid kinds r)
     in (length (filter matches (recipient_rows d)) > 0,
         d\<lparr>recipient_rows := map (\<lambda>r. if matches r
             then r\<lparr>read_at := (case read_at r of None \<Rightarrow> Some now | Some t \<Rightarrow> Some t)\<rparr> else r) (recipient_rows d)\<rparr>))"

definition mark_all_read :: "int \<Rightarrow> nat \<Rightarrow> string list \<Rightarrow> app_db \<Rightarrow> nat \<times> app_db" where
  "mark_all_read now uid kinds d =
    (let matches = (\<lambda>r. readable d uid kinds r \<and> read_at r = None)
     in (length (filter matches (recipient_rows d)),
         d\<lparr>recipient_rows := map (\<lambda>r. if matches r then r\<lparr>read_at := Some now\<rparr> else r) (recipient_rows d)\<rparr>))"

text \<open>
  The one statement of the lazy announcement. The experiments are rows of id and end date (a day number,
  or none); \<open>announced\<close> are the inserted events, which \<open>told\<close> pairs with the holders.
\<close>

definition due_experiments :: "int \<Rightarrow> int \<Rightarrow> (nat \<times> int option) list \<Rightarrow> app_db \<Rightarrow> nat list" where
  "due_experiments today lookback experiments d =
    map snd (sort_key id (map (\<lambda>(i, e). (the e, i))
      (filter (\<lambda>(i, e). (case e of None \<Rightarrow> False | Some day \<Rightarrow> day < today \<and> day \<ge> today - lookback)
         \<and> ExperimentSubject i \<notin> set (map note_subject (note_rows d))) experiments)))"

definition announce_ended_experiments ::
  "int \<Rightarrow> int \<Rightarrow> (nat \<times> int option) list \<Rightarrow> string list \<Rightarrow> int \<Rightarrow> app_db \<Rightarrow> (nat \<times> nat) \<times> app_db" where
  "announce_ended_experiments now today experiments codes lookback d =
    (let due = due_experiments today lookback experiments d;
         announced = map (\<lambda>(j, i). \<lparr>note_id = next_note d + j, note_subject = ExperimentSubject i, note_created_at = now\<rparr>)
           (enumerate 0 due);
         told = concat (map (\<lambda>n. map (\<lambda>u. \<lparr>recipient_note = note_id n, recipient_user = user_id u, read_at = None\<rparr>)
           (active_holders (accounts d) codes)) announced)
     in ((length announced, length told),
         d\<lparr>note_rows := note_rows d @ announced, recipient_rows := recipient_rows d @ told, next_note := next_note d + length due\<rparr>))"

section \<open>The service\<close>

definition DELIVERY_PERMISSION :: "(string \<times> string) list" where
  "DELIVERY_PERMISSION =
    [(SALES_LOAD_FINISHED, SALES_INGEST_EXECUTE), (SEGMENT_RUN_COMPLETED, SEGMENT_READ),
     (EXPERIMENT_ENDED, CAMPAIGN_READ), (USER_DEACTIVATED, USER_WRITE)]"

definition PAGE_SIZE :: nat where "PAGE_SIZE = 20"
definition BADGE_CAP :: nat where "BADGE_CAP = 99"
definition EXPERIMENT_END_LOOKBACK_DAYS :: int where "EXPERIMENT_END_LOOKBACK_DAYS = 14"

definition visible_kinds :: "string option \<Rightarrow> string list" where
  "visible_kinds role_code =
    sort (map fst (filter (\<lambda>(kind, permission). permission \<in> permissions_for role_code) DELIVERY_PERMISSION))"

datatype badge = NoBadge | Exactly nat | MoreThan nat

definition badge_text :: "nat \<Rightarrow> badge" where
  "badge_text unread = (if unread = 0 then NoBadge else if unread > BADGE_CAP then MoreThan BADGE_CAP else Exactly unread)"

definition page_count :: "nat \<Rightarrow> nat \<Rightarrow> nat" where
  "page_count rows per_page = max 1 ((rows + per_page - 1) div per_page)"

record inbox =
  inbox_items :: "(notice \<times> recipient) list"
  inbox_total :: nat
  inbox_unread :: nat
  inbox_page :: nat
  inbox_page_count :: nat
  receives_any :: bool

definition has_previous :: "inbox \<Rightarrow> bool" where "has_previous i \<longleftrightarrow> inbox_page i > 1"
definition has_next :: "inbox \<Rightarrow> bool" where "has_next i \<longleftrightarrow> inbox_page i < inbox_page_count i"

definition unread_count :: "nat \<Rightarrow> string option \<Rightarrow> app_db \<Rightarrow> nat" where
  "unread_count uid role_code d = count_unread uid (visible_kinds role_code) d"

definition read_inbox :: "nat \<Rightarrow> string option \<Rightarrow> int \<Rightarrow> app_db \<Rightarrow> inbox" where
  "read_inbox uid role_code requested d =
    (let kinds = visible_kinds role_code;
         page = nat (max requested 1);
         rows_count = count_notifications uid kinds d;
         rows = list_notifications uid kinds PAGE_SIZE ((page - 1) * PAGE_SIZE) d
     in \<lparr>inbox_items = rows, inbox_total = rows_count, inbox_unread = count_unread uid kinds d, inbox_page = page,
         inbox_page_count = page_count rows_count PAGE_SIZE, receives_any = (kinds \<noteq> [])\<rparr>)"

definition read_notification :: "nat \<Rightarrow> string option \<Rightarrow> nat \<Rightarrow> app_db \<Rightarrow> (notice \<times> recipient) option" where
  "read_notification uid role_code n d = get_notification uid n (visible_kinds role_code) d"

definition mark_notification_read :: "int \<Rightarrow> nat \<Rightarrow> string option \<Rightarrow> nat \<Rightarrow> (app_db, note_error, bool) operation" where
  "mark_notification_read now uid role_code n = atomic (statements (\<lambda>d.
     case mark_read now uid n (visible_kinds role_code) d of (b, d') \<Rightarrow> (Inr b, d')))"

definition mark_all_notifications_read :: "int \<Rightarrow> nat \<Rightarrow> string option \<Rightarrow> (app_db, note_error, nat) operation" where
  "mark_all_notifications_read now uid role_code = atomic (statements (\<lambda>d.
     case mark_all_read now uid (visible_kinds role_code) d of (n, d') \<Rightarrow> (Inr n, d')))"

text \<open>\<open>_write\<close>, inside the caller's unit of work.\<close>

definition write_event :: "int \<Rightarrow> subject \<Rightarrow> app_db \<Rightarrow> (note_error + nat) \<times> app_db" where
  "write_event now s d =
    (case insert_notification now s d of
       (Inl e, d') \<Rightarrow> (Inl e, d')
     | (Inr n, d') \<Rightarrow>
         (case insert_recipients n (roles_holding (the (map_of DELIVERY_PERMISSION (kind_of s)))) d' of
            (written, d'') \<Rightarrow> (Inr written, d'')))"

definition notify_sales_load :: "int \<Rightarrow> nat \<Rightarrow> (app_db, note_error, nat) operation" where
  "notify_sales_load now load_id = atomic (statements (write_event now (SalesLoadSubject load_id)))"

definition notify_segment_run :: "int \<Rightarrow> nat \<Rightarrow> (app_db, note_error, nat) operation" where
  "notify_segment_run now run_id = atomic (statements (write_event now (RunSubject run_id)))"

definition notify_user_deactivated :: "int \<Rightarrow> nat \<Rightarrow> (app_db, note_error, nat) operation" where
  "notify_user_deactivated now uid = atomic (statements (write_event now (UserSubject uid)))"

definition announce_experiment_ends :: "int \<Rightarrow> int \<Rightarrow> (nat \<times> int option) list \<Rightarrow> (app_db, note_error, nat) operation" where
  "announce_experiment_ends now today experiments = atomic (statements (\<lambda>d.
     case announce_ended_experiments now today experiments
            (roles_holding (the (map_of DELIVERY_PERMISSION EXPERIMENT_ENDED))) EXPERIMENT_END_LOOKBACK_DAYS d of
       ((events, told), d') \<Rightarrow> (Inr events, d')))"

section \<open>Well-formed inboxes\<close>

definition notes_wf :: "app_db \<Rightarrow> bool" where
  "notes_wf d \<longleftrightarrow> distinct (map note_id (note_rows d)) \<and> (\<forall>n\<in>set (note_rows d). note_id n < next_note d)
    \<and> (\<forall>r\<in>set (recipient_rows d). recipient_note r \<in> note_id ` set (note_rows d))
    \<and> distinct (map (\<lambda>r. (recipient_note r, recipient_user r)) (recipient_rows d))
    \<and> distinct (map user_id (app_users (accounts d)))
    \<and> distinct (filter announced_once (map note_subject (note_rows d)))"

lemma find_append_None: "find P xs = None \<Longrightarrow> find P (xs @ ys) = find P ys"
  by (induction xs) (auto split: if_splits)

lemma find_append_Some: "find P xs = Some x \<Longrightarrow> find P (xs @ ys) = Some x"
  by (induction xs) auto

lemma note_of_id: "note_of d n = Some x \<Longrightarrow> x \<in> set (note_rows d) \<and> note_id x = n"
  by (auto simp: note_of_def find_Some_iff)

lemma note_of_known: "n \<in> note_id ` set (note_rows d) \<Longrightarrow> \<exists>x. note_of d n = Some x"
  by (cases "note_of d n") (auto simp: note_of_def find_None_iff)

lemma note_of_next: "notes_wf d \<Longrightarrow> note_of d (next_note d) = None"
  by (force simp: notes_wf_def note_of_def find_None_iff)

lemma distinct_append_new:
  assumes "distinct xs" and "distinct ys" and "\<And>y. y \<in> set ys \<Longrightarrow> y \<notin> set xs"
  shows "distinct (xs @ ys)"
  using assms by (simp only: distinct_append) blast

lemma holders_distinct: "distinct (map user_id (app_users a)) \<Longrightarrow> distinct (map user_id (active_holders a codes))"
  by (simp add: active_holders_def distinct_map_filter)

lemma active_holders_iff:
  "u \<in> set (active_holders a (roles_holding p)) \<longleftrightarrow> u \<in> set (app_users a) \<and> user_is_active u
    \<and> p \<in> permissions_for (role_codes a (user_role_id u))"
  by (cases "role_codes a (user_role_id u)") (auto simp: active_holders_def roles_holding_iff permissions_for_def)

lemma write_event_Inr:
  assumes "write_event now s d = (Inr n, d')"
  shows "d' = d\<lparr>note_rows := note_rows d @ [\<lparr>note_id = next_note d, note_subject = s, note_created_at = now\<rparr>],
      next_note := Suc (next_note d),
      recipient_rows := recipient_rows d @ map (\<lambda>u. \<lparr>recipient_note = next_note d, recipient_user = user_id u, read_at = None\<rparr>)
        (active_holders (accounts d) (roles_holding (the (map_of DELIVERY_PERMISSION (kind_of s)))))\<rparr>
    \<and> n = length (active_holders (accounts d) (roles_holding (the (map_of DELIVERY_PERMISSION (kind_of s)))))
    \<and> (announced_once s \<longrightarrow> s \<notin> set (map note_subject (note_rows d)))"
  using assms by (auto simp: write_event_def insert_notification_def insert_recipients_def Let_def split: if_splits)

lemma write_event_note_rows:
  assumes "write_event now s d = (Inr n, d')"
  shows "note_rows d' = note_rows d @ [\<lparr>note_id = next_note d, note_subject = s, note_created_at = now\<rparr>]"
  using write_event_Inr [OF assms] by (elim conjE) (erule ssubst, simp)

lemma write_event_wf:
  assumes "notes_wf d" and "write_event now s d = (Inr n, d')"
  shows "notes_wf d'"
proof -
  let ?h = "active_holders (accounts d) (roles_holding (the (map_of DELIVERY_PERMISSION (kind_of s))))"
  have "distinct (map user_id ?h)" using assms(1) by (simp add: notes_wf_def holders_distinct)
  then have "distinct (map (\<lambda>r. (recipient_note r, recipient_user r))
      (map (\<lambda>u. \<lparr>recipient_note = next_note d, recipient_user = user_id u, read_at = None\<rparr>) ?h))"
    by (simp add: distinct_map inj_on_def comp_def)
  moreover have "\<forall>r\<in>set (recipient_rows d). recipient_note r \<noteq> next_note d"
    using assms(1) by (force simp: notes_wf_def)
  ultimately have "distinct (map (\<lambda>r. (recipient_note r, recipient_user r)) (recipient_rows d')) "
    using assms(1) write_event_Inr [OF assms(2)] by (auto simp: notes_wf_def)
  moreover have "\<forall>n\<in>set (note_rows d). note_id n \<noteq> next_note d" using assms(1) by (auto simp: notes_wf_def)
  ultimately show ?thesis
    using assms(1) write_event_Inr [OF assms(2)] by (auto simp: notes_wf_def)
qed

lemma write_event_note_of:
  assumes "notes_wf d" and "write_event now s d = (Inr n, d')"
  shows "note_of d' i = (if i = next_note d
    then Some \<lparr>note_id = next_note d, note_subject = s, note_created_at = now\<rparr> else note_of d i)"
proof -
  have "note_of d i = None \<Longrightarrow> note_of d' i = (if i = next_note d
    then Some \<lparr>note_id = next_note d, note_subject = s, note_created_at = now\<rparr> else None)"
    using write_event_Inr [OF assms(2)] by (auto simp: note_of_def find_append_None)
  moreover have "note_of d i = Some x \<Longrightarrow> note_of d' i = Some x" for x
    using write_event_Inr [OF assms(2)] by (auto simp: note_of_def find_append_Some)
  ultimately show ?thesis using note_of_next [OF assms(1)] by (cases "note_of d i") auto
qed

lemma delivery_of_kind: "map_of DELIVERY_PERMISSION (kind_of s) =
  Some (case s of SalesLoadSubject _ \<Rightarrow> SALES_INGEST_EXECUTE | RunSubject _ \<Rightarrow> SEGMENT_READ
    | ExperimentSubject _ \<Rightarrow> CAMPAIGN_READ | UserSubject _ \<Rightarrow> USER_WRITE)"
  by (cases s) (simp_all add: DELIVERY_PERMISSION_def kind_names)

lemma visible_kinds_iff:
  "kind_of s \<in> set (visible_kinds role) \<longleftrightarrow> the (map_of DELIVERY_PERMISSION (kind_of s)) \<in> permissions_for role"
proof -
  have "distinct (map fst DELIVERY_PERMISSION)" by (simp add: DELIVERY_PERMISSION_def kind_names)
  moreover obtain p where p: "map_of DELIVERY_PERMISSION (kind_of s) = Some p" using delivery_of_kind by blast
  ultimately have "(kind_of s, q) \<in> set DELIVERY_PERMISSION \<longleftrightarrow> q = p" for q
    using map_of_eq_Some_iff [of DELIVERY_PERMISSION "kind_of s" q] by auto
  then have "(\<exists>x\<in>set DELIVERY_PERMISSION. fst x = kind_of s \<and> snd x \<in> permissions_for role) \<longleftrightarrow> p \<in> permissions_for role"
    by (metis fst_conv snd_conv prod.collapse)
  then show ?thesis by (force simp: visible_kinds_def p)
qed

section \<open>What the inbox promises\<close>

text \<open>
  C30. Writing and reading agree: an event is written for exactly the active users whose role holds its
  delivery permission, the writer's own account not excepted; each of them can read it and nobody else
  can, asking by id; and what was readable before is what it was.
\<close>

theorem event_reaches_exactly_the_holders:
  assumes "notes_wf d" and "write_event now s d = (Inr n, d')" and "u \<in> set (app_users (accounts d))"
  shows "(read_notification (user_id u) (role_codes (accounts d) (user_role_id u)) (next_note d) d' \<noteq> None)
      = (user_is_active u \<and> the (map_of DELIVERY_PERMISSION (kind_of s)) \<in> permissions_for (role_codes (accounts d) (user_role_id u)))
    \<and> (i \<noteq> next_note d \<longrightarrow> read_notification (user_id u) role i d' = read_notification (user_id u) role i d)
    \<and> n = length (active_holders (accounts d) (roles_holding (the (map_of DELIVERY_PERMISSION (kind_of s)))))"
proof -
  let ?p = "the (map_of DELIVERY_PERMISSION (kind_of s))"
  let ?role = "role_codes (accounts d) (user_role_id u)"
  let ?h = "active_holders (accounts d) (roles_holding ?p)"
  note w = write_event_Inr [OF assms(2)]
  note nn = write_event_note_of [OF assms(1,2)]
  have unique: "v = u" if "v \<in> set (app_users (accounts d))" "user_id v = user_id u" for v
    using assms(1,3) that by (intro inj_onD [of user_id "set (app_users (accounts d))"]) (simp_all add: notes_wf_def distinct_map)
  have holder: "(\<exists>v\<in>set ?h. user_id v = user_id u) \<longleftrightarrow> user_is_active u \<and> ?p \<in> permissions_for ?role"
    using unique assms(3) unfolding Bex_def active_holders_iff by metis
  have old: "\<forall>r\<in>set (recipient_rows d). recipient_note r \<noteq> next_note d"
    using assms(1) by (force simp: notes_wf_def)
  have rows: "recipient_rows d' = recipient_rows d
      @ map (\<lambda>u. \<lparr>recipient_note = next_note d, recipient_user = user_id u, read_at = None\<rparr>) ?h"
    using w by simp
  have "(read_notification (user_id u) ?role (next_note d) d' \<noteq> None) \<longleftrightarrow>
      (\<exists>r\<in>set (recipient_rows d'). recipient_note r = next_note d \<and> readable d' (user_id u) (visible_kinds ?role) r)"
    by (auto simp: read_notification_def get_notification_def find_None_iff find_Some_iff dest: nth_mem split: option.splits)
  also have "\<dots> \<longleftrightarrow> (\<exists>v\<in>set ?h. user_id v = user_id u) \<and> kind_of s \<in> set (visible_kinds ?role)"
    using old by (auto simp: rows readable_def nn bex_Un)
  also have "\<dots> \<longleftrightarrow> user_is_active u \<and> ?p \<in> permissions_for ?role"
    using holder by (auto simp: visible_kinds_iff)
  finally have A: "(read_notification (user_id u) ?role (next_note d) d' \<noteq> None) = (user_is_active u \<and> ?p \<in> permissions_for ?role)" .
  have B: "read_notification (user_id u) role i d' = read_notification (user_id u) role i d" if "i \<noteq> next_note d"
  proof -
    have P: "(\<lambda>r. recipient_note r = i \<and> readable d' (user_id u) (visible_kinds role) r)
        = (\<lambda>r. recipient_note r = i \<and> readable d (user_id u) (visible_kinds role) r)"
      using that by (auto simp: fun_eq_iff readable_def nn)
    let ?P = "\<lambda>r. recipient_note r = i \<and> readable d (user_id u) (visible_kinds role) r"
    have "find ?P (map (\<lambda>u. \<lparr>recipient_note = next_note d, recipient_user = user_id u, read_at = None\<rparr>) ?h) = None"
      using that by (auto simp: find_None_iff)
    then have "find ?P (recipient_rows d') = find ?P (recipient_rows d)"
      unfolding rows by (cases "find ?P (recipient_rows d)") (simp_all only: find_append_None find_append_Some)
    then show ?thesis using that by (simp add: read_notification_def get_notification_def P nn split: option.split)
  qed
  from A B w show ?thesis by blast
qed

definition example_app :: app_db where
  "example_app = \<lparr>accounts = example_db, note_rows = [], recipient_rows = [], next_note = 1\<rparr>"

lemma example_app_wf: "notes_wf example_app"
  by (simp add: notes_wf_def example_app_def example_db_def)

theorem event_reaches_exactly_the_holders_witness:
  "\<exists>n d'. write_event 5 (RunSubject 3) example_app = (Inr n, d') \<and> read_notification 1 (Some ''ANALYST'') 1 d' \<noteq> None"
proof -
  obtain n d' where w: "write_event 5 (RunSubject 3) example_app = (Inr n, d')"
    by (simp add: write_event_def insert_notification_def insert_recipients_def example_app_def Let_def)
  have "SEGMENT_READ \<in> permissions_for (Some ''ANALYST'')"
    by (simp add: permissions_for_def PERMISSIONS_def)
  with event_reaches_exactly_the_holders [OF example_app_wf w, of "hd (app_users example_db)"] w show ?thesis
    using delivery_of_kind [of "RunSubject 3"]
    by (auto simp: example_app_def example_db_def role_codes_def)
qed

lemma readable_mark: "readable (d\<lparr>recipient_rows := rs\<rparr>) = readable d"
  by (simp add: readable_def note_of_def fun_eq_iff)

lemma readable_read_at: "readable d uid kinds (r\<lparr>read_at := t\<rparr>) = readable d uid kinds r"
  by (simp add: readable_def)

text \<open>
  Marking everything read marks what the reader may read and nothing else: the answer is the number
  the badge showed, the badge is then empty, the inbox is as long as before, a row that was already read
  keeps its time, and no other user's row and no row of a kind the role may no longer see is touched.
\<close>

lemma mark_all_read_exact:
  "case mark_all_read now uid kinds d of (n, d') \<Rightarrow>
     n = count_unread uid kinds d \<and> count_unread uid kinds d' = 0
     \<and> count_notifications uid kinds d' = count_notifications uid kinds d
     \<and> note_rows d' = note_rows d \<and> accounts d' = accounts d
     \<and> recipient_rows d' = map (\<lambda>r. if readable d uid kinds r \<and> read_at r = None then r\<lparr>read_at := Some now\<rparr> else r)
          (recipient_rows d)"
proof -
  let ?P = "\<lambda>r. readable d uid kinds r \<and> read_at r = None"
  let ?f = "\<lambda>r. if ?P r then r\<lparr>read_at := Some now\<rparr> else r"
  have "filter (\<lambda>r. readable d uid kinds r \<and> read_at r = None) (map ?f rs) = []" for rs
    by (induction rs) (auto simp: readable_read_at)
  moreover have "length (filter (readable d uid kinds) (map ?f rs)) = length (filter (readable d uid kinds) rs)" for rs
    by (induction rs) (auto simp: readable_read_at)
  ultimately show ?thesis
    by (simp add: mark_all_read_def count_unread_def count_notifications_def readable_mark)
qed

section \<open>Announcing the end of experiments\<close>

lemma due_iff:
  "i \<in> set (due_experiments today lookback experiments d) \<longleftrightarrow>
    (\<exists>e. (i, Some e) \<in> set experiments \<and> e < today \<and> today - lookback \<le> e)
    \<and> ExperimentSubject i \<notin> set (map note_subject (note_rows d))"
  by (force simp: due_experiments_def split: option.splits)

lemma announce_subjects:
  "map note_subject (map (\<lambda>(j, i). \<lparr>note_id = k + j, note_subject = ExperimentSubject i, note_created_at = now\<rparr>) (enumerate n due))
    = map ExperimentSubject due"
  "map note_id (map (\<lambda>(j, i). \<lparr>note_id = k + j, note_subject = ExperimentSubject i, note_created_at = now\<rparr>) (enumerate n due))
    = map (\<lambda>j. k + j) [n..<n + length due]"
proof -
  have "map note_subject (map (\<lambda>(j, i). \<lparr>note_id = k + j, note_subject = ExperimentSubject i, note_created_at = now\<rparr>) xs)
      = map ExperimentSubject (map snd xs)"
    "map note_id (map (\<lambda>(j, i). \<lparr>note_id = k + j, note_subject = ExperimentSubject i, note_created_at = now\<rparr>) xs)
      = map (\<lambda>j. k + j) (map fst xs)" for xs
    by (induction xs) auto
  then show "map note_subject (map (\<lambda>(j, i). \<lparr>note_id = k + j, note_subject = ExperimentSubject i, note_created_at = now\<rparr>) (enumerate n due))
      = map ExperimentSubject due"
    "map note_id (map (\<lambda>(j, i). \<lparr>note_id = k + j, note_subject = ExperimentSubject i, note_created_at = now\<rparr>) (enumerate n due))
      = map (\<lambda>j. k + j) [n..<n + length due]"
    by (simp_all only: map_snd_enumerate map_fst_enumerate)
qed

text \<open>
  An experiment's end is announced once: a call announces exactly the experiments that ended before
  today, no longer ago than the look-back, and have no event yet, one event each; a second call for the
  same day writes nothing; and the inbox stays well formed.
\<close>

lemma experiment_end_announced_once:
  assumes "distinct (map fst experiments)"
    and "announce_experiment_ends now today experiments False (at_rest d) = (Inr n, s)"
  shows "map note_subject (note_rows (working s)) = map note_subject (note_rows d)
        @ map ExperimentSubject (due_experiments today EXPERIMENT_END_LOOKBACK_DAYS experiments d)
    \<and> (ExperimentSubject i \<in> set (map note_subject (note_rows (working s)))
        \<and> ExperimentSubject i \<notin> set (map note_subject (note_rows d))) =
      ((\<exists>e. (i, Some e) \<in> set experiments \<and> e < today \<and> today - 14 \<le> e)
        \<and> ExperimentSubject i \<notin> set (map note_subject (note_rows d)))
    \<and> distinct (due_experiments today EXPERIMENT_END_LOOKBACK_DAYS experiments d)
    \<and> announce_experiment_ends now' today experiments False s = (Inr 0, s)"
proof -
  let ?due = "due_experiments today EXPERIMENT_END_LOOKBACK_DAYS experiments d"
  have rows: "map note_subject (note_rows (working s)) = map note_subject (note_rows d) @ map ExperimentSubject ?due"
    and s: "s = at_rest (working s)"
    using assms(2) by (auto simp: announce_experiment_ends_def announce_ended_experiments_def atomic_statements Let_def
        announce_subjects simp del: map_map split: prod.splits)
  have "i \<in> set (due_experiments today EXPERIMENT_END_LOOKBACK_DAYS experiments (working s)) \<Longrightarrow> False" for i
    unfolding due_iff rows by (auto simp: due_iff image_iff)
  then have no_due: "due_experiments today EXPERIMENT_END_LOOKBACK_DAYS experiments (working s) = []"
    by (metis all_not_in_conv set_empty)
  have again: "announce_experiment_ends now' today experiments False (at_rest (working s)) = (Inr 0, at_rest (working s))"
    by (simp add: announce_experiment_ends_def announce_ended_experiments_def atomic_statements no_due Let_def)
  have "distinct ?due"
  proof -
    have "distinct (map snd (map (\<lambda>(i, e). (the e, i)) (filter P experiments)))" for P :: "nat \<times> int option \<Rightarrow> bool"
      using assms(1) distinct_map_filter [of fst experiments P] by (simp add: comp_def case_prod_unfold)
    then show ?thesis unfolding due_experiments_def distinct_map_sort_key .
  qed
  moreover have "(ExperimentSubject i \<in> set (map note_subject (note_rows (working s)))
        \<and> ExperimentSubject i \<notin> set (map note_subject (note_rows d))) =
      ((\<exists>e. (i, Some e) \<in> set experiments \<and> e < today \<and> today - 14 \<le> e)
        \<and> ExperimentSubject i \<notin> set (map note_subject (note_rows d)))"
    unfolding rows by (auto simp: due_iff image_iff EXPERIMENT_END_LOOKBACK_DAYS_def)
  ultimately show ?thesis using rows again s by metis
qed

end
