(* ===== verification/Segmentation.thy ===== *)
theory Segmentation
  imports RFM_Rules Cluster_Labels Notifications
begin

text \<open>
  The segmentation pipeline, \<open>web/services/segmentation.py\<close>, with the writing half of
  \<open>web/db/segments.py\<close>. A method is an adapter, a read of the database that returns one assignment per
  customer; the pipeline validates the result, records the run and its history rows in one unit of work
  and announces it. \<open>seg_db\<close> holds what a run reads and writes: the sales (\<open>RFM_Rules\<close>), the inbox
  (\<open>Notifications\<close>), the runs and the history. The instant \<open>ck_at\<close> that \<open>lock_for_run\<close> returns, the
  transaction's \<open>now()\<close> and the day are arguments (\<open>run_clock\<close>); the seconds a run took are left out.
  The constraints of \<open>customer_segment_history\<close> and \<open>segmentation_run\<close> refuse a write with \<open>Refused\<close>.
\<close>

section \<open>State\<close>

record history_row =
  h_customer :: nat
  h_run :: nat
  h_segment :: "nat option"
  h_label :: "string option"
  h_last :: "int option"
  h_frequency :: "int option"
  h_monetary :: "int option"
  h_r :: "int option"
  h_f :: "int option"
  h_m :: "int option"
  h_from :: int
  h_to :: "int option"

text \<open>The snapshot of a K-means run; \<open>round6\<close> of a float is Python's \<open>round(x, 6)\<close>.\<close>

record fit_quality =
  q_inertia :: real
  q_silhouette :: "real option"
  q_cluster_sizes :: "nat list"
  q_iterations :: nat
  q_converged :: bool
  q_stopped_on :: stop_reason
  q_final_shift :: "real option"
  q_empty_cluster_events :: nat
  q_customers_clustered :: nat
  q_silhouette_skipped :: bool
  q_sample :: "(nat \<times> int) option"
  q_customers_unassigned :: nat

record fit_snapshot =
  sn_k :: int
  sn_seed :: int
  sn_max_iterations :: int
  sn_tolerance :: real
  sn_window_days :: int
  sn_quality :: fit_quality

datatype run_parameters =
    RulesParameters int nat
  | KMeansParameters fit_snapshot
  | LabelledKMeansParameters fit_snapshot "string label_mapping"

record run_row =
  rr_id :: nat
  rr_method :: string
  rr_window :: int
  rr_parameters :: run_parameters
  rr_customers :: nat
  rr_at :: int
  rr_origin :: string

record seg_db =
  sales_of :: sales_db
  inbox_of :: app_db
  runs :: "run_row list"
  seg_history :: "history_row list"
  next_run :: nat

record run_clock =
  ck_now :: int
  ck_today :: int
  ck_at :: int

datatype pipeline_error =
    UnknownMethod
  | MethodUnavailable
  | AdapterMismatch
  | MeasuredUnlabelled nat
  | LabelledUnmeasured nat
  | TwiceInOneRun nat
  | VocabularyMismatch vocabulary_mismatch
  | FitFailed fit_rows_error
  | LabelMappingIncomplete nat int
  | Refused string
  | NotAnnounced note_error

section \<open>The window\<close>

definition DEFAULT_WINDOW_DAYS :: int where "DEFAULT_WINDOW_DAYS = 180"
definition MIN_WINDOW_DAYS :: int where "MIN_WINDOW_DAYS = 1"
definition MAX_WINDOW_DAYS :: int where "MAX_WINDOW_DAYS = 3650"

datatype invalid_window = NotANumber | OutOfRange

text \<open>\<open>to_int\<close> is Python's \<open>int(str(raw).strip())\<close>, \<open>None\<close> where it raises \<open>ValueError\<close>.\<close>

definition parse_window :: "(string \<Rightarrow> int option) \<Rightarrow> string option \<Rightarrow> invalid_window + int" where
  "parse_window to_int raw =
    (case raw of
       None \<Rightarrow> Inr DEFAULT_WINDOW_DAYS
     | Some text \<Rightarrow>
         (case to_int text of
            None \<Rightarrow> Inl NotANumber
          | Some n \<Rightarrow> if MIN_WINDOW_DAYS \<le> n \<and> n \<le> MAX_WINDOW_DAYS then Inr n else Inl OutOfRange))"

section \<open>The boundary\<close>

definition METHODS :: "string list" where "METHODS = [''RFM_RULES'', ''KMEANS'']"

record assignment =
  a_customer :: nat
  a_label :: "string option"
  a_segment :: "nat option"
  a_last :: "int option"
  a_frequency :: "int option"
  a_monetary :: "int option"
  a_r :: "int option"
  a_f :: "int option"
  a_m :: "int option"
  a_via_fallback :: bool

definition raw_values :: "assignment \<Rightarrow> int option list" where
  "raw_values a = [a_last a, a_frequency a, a_monetary a]"

definition validate :: "assignment \<Rightarrow> pipeline_error option" where
  "validate a =
    (let measured = raw_values a @ [a_r a, a_f a, a_m a]
     in if a_label a = None \<and> list_ex (\<lambda>v. v \<noteq> None) measured then Some (MeasuredUnlabelled (a_customer a))
        else if a_label a \<noteq> None \<and> list_ex (\<lambda>v. v = None) (raw_values a) then Some (LabelledUnmeasured (a_customer a))
        else None)"

text \<open>\<open>as_row\<close> with the run and the instant \<open>insert_assignments\<close> adds.\<close>

definition as_row :: "nat \<Rightarrow> int \<Rightarrow> assignment \<Rightarrow> history_row" where
  "as_row run tm a =
    \<lparr>h_customer = a_customer a, h_run = run, h_segment = a_segment a, h_label = a_label a, h_last = a_last a,
     h_frequency = a_frequency a, h_monetary = a_monetary a, h_r = a_r a, h_f = a_f a, h_m = a_m a,
     h_from = tm, h_to = None\<rparr>"

record method_output =
  out_assignments :: "assignment list"
  out_parameters :: run_parameters

record adapter =
  ad_method :: string
  ad_decide :: "run_clock \<Rightarrow> sales_db \<Rightarrow> int \<Rightarrow> pipeline_error + method_output"

record run_counts =
  n_processed :: nat
  n_assigned :: nat
  n_unmatched :: nat
  n_reassigned :: nat
  n_cleared :: nat
  n_fallback :: nat

definition unchanged :: "(nat \<rightharpoonup> nat option \<times> string option) \<Rightarrow> assignment \<Rightarrow> bool" where
  "unchanged prior a \<longleftrightarrow> prior (a_customer a) = Some (a_segment a, a_label a)"

text \<open>The loop of \<open>summarise\<close> over \<open>(reassigned, removed)\<close>.\<close>

definition summarise_step :: "(nat \<rightharpoonup> nat option \<times> string option) \<Rightarrow> assignment \<Rightarrow> nat \<times> nat \<Rightarrow> nat \<times> nat" where
  "summarise_step prior a = (\<lambda>(reassigned, removed).
    if unchanged prior a then (reassigned, removed)
    else if a_label a = None then (reassigned, removed + 1)
    else (reassigned + 1, removed))"

definition summarise :: "assignment list \<Rightarrow> (nat \<rightharpoonup> nat option \<times> string option) \<Rightarrow> run_counts" where
  "summarise as prior =
    (let assigned = length (filter (\<lambda>a. a_label a \<noteq> None) as)
     in case fold (summarise_step prior) as (0, 0) of (reassigned, removed) \<Rightarrow>
       \<lparr>n_processed = length as, n_assigned = assigned, n_unmatched = length as - assigned,
        n_reassigned = reassigned, n_cleared = removed, n_fallback = length (filter a_via_fallback as)\<rparr>)"

fun validated_loop :: "nat set \<Rightarrow> assignment list \<Rightarrow> pipeline_error option" where
  "validated_loop seen [] = None"
| "validated_loop seen (a # as) =
    (case validate a of
       Some e \<Rightarrow> Some e
     | None \<Rightarrow> if a_customer a \<in> seen then Some (TwiceInOneRun (a_customer a))
               else validated_loop (insert (a_customer a) seen) as)"

definition validated :: "method_output \<Rightarrow> pipeline_error + assignment list" where
  "validated out =
    (case validated_loop {} (out_assignments out) of
       Some e \<Rightarrow> Inl e | None \<Rightarrow> Inr (out_assignments out))"

section \<open>The adapters\<close>

definition assignment_of_score :: "scored_customer \<Rightarrow> assignment" where
  "assignment_of_score row =
    \<lparr>a_customer = sc_customer row, a_label = sc_label row, a_segment = sc_segment row, a_last = sc_last_purchase row,
     a_frequency = sc_frequency row, a_monetary = sc_monetary row, a_r = sc_r row, a_f = sc_f row, a_m = sc_m row,
     a_via_fallback = sc_via_fallback row\<rparr>"

definition rfm_rules_adapter :: "run_clock \<Rightarrow> sales_db \<Rightarrow> int \<Rightarrow> pipeline_error + method_output" where
  "rfm_rules_adapter clock db window_days =
    Inr \<lparr>out_assignments = map assignment_of_score (score_rfm_rules (ck_now clock) (ck_today clock) window_days db),
         out_parameters = RulesParameters window_days QUINTILES\<rparr>"

definition recorded_parameters :: "(real \<Rightarrow> real) \<Rightarrow> nat kmeans_fit \<Rightarrow> int \<Rightarrow> nat \<Rightarrow> fit_snapshot" where
  "recorded_parameters round6 result window_days unassigned =
    \<lparr>sn_k = k_of (fit_params result), sn_seed = seed_of (fit_params result),
     sn_max_iterations = max_iterations (fit_params result), sn_tolerance = tolerance (fit_params result),
     sn_window_days = window_days,
     sn_quality =
       \<lparr>q_inertia = round6 (inertia result), q_silhouette = map_option round6 (silhouette result),
        q_cluster_sizes = cluster_sizes result, q_iterations = iterations result, q_converged = converged result,
        q_stopped_on = stopped_on result, q_final_shift = map_option round6 (final_shift result),
        q_empty_cluster_events = empty_cluster_events result,
        q_customers_clustered = length (customer_ids result),
        q_silhouette_skipped = (silhouette result = None),
        q_sample = map_option (\<lambda>n. (n, seed_of (fit_params result))) (silhouette_sample result),
        q_customers_unassigned = unassigned\<rparr>\<rparr>"

text \<open>
  \<open>rnd\<close> and \<open>rnd'\<close> are the seeded generators of the fit, \<open>euros\<close> the value of an amount of cents as the
  number the fit works with.
\<close>

definition euros :: "int \<Rightarrow> real" where
  "euros cents = real_of_int cents / 100"

definition raw_rfm_of :: "customer_sales \<Rightarrow> nat raw_rfm" where
  "raw_rfm_of row =
    \<lparr>customer_id = cs_customer row, last_purchase_at = the (cs_last_purchase row), frequency = the (cs_frequency row),
     monetary = euros (the (cs_monetary row))\<rparr>"

definition kmeans_assignment :: "(nat \<times> string) list \<Rightarrow> (nat \<times> nat) list \<Rightarrow> customer_sales \<Rightarrow> assignment" where
  "kmeans_assignment labels cluster_of row =
    \<lparr>a_customer = cs_customer row,
     a_label = (case map_of cluster_of (cs_customer row) of None \<Rightarrow> None | Some c \<Rightarrow> map_of labels c),
     a_segment = None, a_last = cs_last_purchase row, a_frequency = cs_frequency row, a_monetary = cs_monetary row,
     a_r = None, a_f = None, a_m = None, a_via_fallback = False\<rparr>"

definition kmeans_decide ::
  "(int \<Rightarrow> nat \<Rightarrow> real) \<Rightarrow> (int \<Rightarrow> nat \<Rightarrow> real) \<Rightarrow> (real \<Rightarrow> real) \<Rightarrow> kmeans_params
    \<Rightarrow> (nat kmeans_fit \<Rightarrow> vocabulary_mismatch + (nat \<times> string) list)
    \<Rightarrow> run_clock \<Rightarrow> sales_db \<Rightarrow> int \<Rightarrow> pipeline_error + method_output" where
  "kmeans_decide rnd rnd' round6 params label_for_clusters clock db window_days =
    (let inputs = read_rfm_inputs (ck_now clock) window_days db;
         measured = filter (\<lambda>row. cs_frequency row \<noteq> None) inputs
     in case fit_customers rnd rnd' (map raw_rfm_of measured) params of
       Inl e \<Rightarrow> Inl (FitFailed e)
     | Inr fitted \<Rightarrow>
         (case label_for_clusters fitted of
            Inl e \<Rightarrow> Inl (VocabularyMismatch e)
          | Inr labels \<Rightarrow>
              (let unlabelled = filter (\<lambda>c. map_of labels c = None) [0..<nat (k_of params)];
                   cluster_of = zip (customer_ids fitted) (assignments fitted)
               in if unlabelled \<noteq> [] then Inl (LabelMappingIncomplete (length unlabelled) (k_of params))
                  else Inr \<lparr>out_assignments = map (kmeans_assignment labels cluster_of) inputs,
                            out_parameters = KMeansParameters (recorded_parameters round6 fitted window_days
                              (length inputs - length measured))\<rparr>)))"

definition kmeans_adapter ::
  "(int \<Rightarrow> nat \<Rightarrow> real) \<Rightarrow> (int \<Rightarrow> nat \<Rightarrow> real) \<Rightarrow> (real \<Rightarrow> real) \<Rightarrow> kmeans_params
    \<Rightarrow> (nat kmeans_fit \<Rightarrow> vocabulary_mismatch + (nat \<times> string) list) \<Rightarrow> adapter" where
  "kmeans_adapter rnd rnd' round6 params label_for_clusters =
    \<lparr>ad_method = ''KMEANS'', ad_decide = kmeans_decide rnd rnd' round6 params label_for_clusters\<rparr>"

text \<open>The labels, best to worst.\<close>

definition vocabulary_of :: "sales_db \<Rightarrow> string list" where
  "vocabulary_of db = map fst (sort_key snd (get_label_ordinals db))"

definition run_kmeans_decide ::
  "(int \<Rightarrow> nat \<Rightarrow> real) \<Rightarrow> (int \<Rightarrow> nat \<Rightarrow> real) \<Rightarrow> (real \<Rightarrow> real) \<Rightarrow> kmeans_params
    \<Rightarrow> run_clock \<Rightarrow> sales_db \<Rightarrow> int \<Rightarrow> pipeline_error + method_output" where
  "run_kmeans_decide rnd rnd' round6 params clock db window_days =
    (let vocabulary = vocabulary_of db
     in case check_vocabulary_size (k_of params) vocabulary of
       Some e \<Rightarrow> Inl (VocabularyMismatch e)
     | None \<Rightarrow>
         (case ad_decide (kmeans_adapter rnd rnd' round6 params (\<lambda>fitted. label_clusters fitted vocabulary))
                 clock db window_days of
            Inl e \<Rightarrow> Inl e
          | Inr out \<Rightarrow>
              (case describe_mapping (k_of params) vocabulary of
                 Inl e \<Rightarrow> Inl (VocabularyMismatch e)
               | Inr mapping \<Rightarrow>
                   Inr (out\<lparr>out_parameters :=
                     (case out_parameters out of
                        KMeansParameters p \<Rightarrow> LabelledKMeansParameters p mapping | p \<Rightarrow> p)\<rparr>))))"

definition run_kmeans_adapter ::
  "(int \<Rightarrow> nat \<Rightarrow> real) \<Rightarrow> (int \<Rightarrow> nat \<Rightarrow> real) \<Rightarrow> (real \<Rightarrow> real) \<Rightarrow> kmeans_params \<Rightarrow> adapter" where
  "run_kmeans_adapter rnd rnd' round6 params =
    \<lparr>ad_method = ''KMEANS'', ad_decide = run_kmeans_decide rnd rnd' round6 params\<rparr>"

definition ADAPTERS :: "(string \<times> adapter) list" where
  "ADAPTERS = [(''RFM_RULES'', \<lparr>ad_method = ''RFM_RULES'', ad_decide = rfm_rules_adapter\<rparr>)]"

section \<open>The pipeline\<close>

definition create_run :: "run_clock \<Rightarrow> string \<Rightarrow> int \<Rightarrow> run_parameters \<Rightarrow> nat \<Rightarrow> seg_db \<Rightarrow> (pipeline_error + nat \<times> string) \<times> seg_db" where
  "create_run clock method window_days parameters customer_count d =
    (let origin = window_origin (ck_now clock) window_days (sales_of d)
     in if method \<notin> set METHODS then (Inl (Refused ''segmentation_run_method_check''), d)
        else if window_days \<le> 0 then (Inl (Refused ''segmentation_run_window_days_check''), d)
        else (Inr (next_run d, origin),
          d\<lparr>runs := runs d @ [\<lparr>rr_id = next_run d, rr_method = method, rr_window = window_days,
              rr_parameters = parameters, rr_customers = customer_count, rr_at = ck_at clock, rr_origin = origin\<rparr>],
            next_run := Suc (next_run d)\<rparr>))"

definition open_row :: "history_row \<Rightarrow> bool" where
  "open_row h \<longleftrightarrow> h_to h = None"

text \<open>The rows are read into a dictionary, one open row per customer.\<close>

definition read_open_assignments :: "seg_db \<Rightarrow> nat \<rightharpoonup> nat option \<times> string option" where
  "read_open_assignments d =
    map_of (map (\<lambda>h. (h_customer h, (h_segment h, h_label h))) (filter open_row (seg_history d)))"

definition close_row :: "int \<Rightarrow> nat list \<Rightarrow> history_row \<Rightarrow> history_row" where
  "close_row tm customers h = (if open_row h \<and> h_customer h \<in> set customers then h\<lparr>h_to := Some tm\<rparr> else h)"

text \<open>One statement: a row that would end before it began refuses all of it.\<close>

definition close_open_assignments :: "nat list \<Rightarrow> int \<Rightarrow> seg_db \<Rightarrow> (pipeline_error + unit) \<times> seg_db" where
  "close_open_assignments customers tm d =
    (if list_ex (\<lambda>h. open_row h \<and> h_customer h \<in> set customers \<and> tm < h_from h) (seg_history d)
     then (Inl (Refused ''customer_segment_history_check''), d)
     else (Inr (), d\<lparr>seg_history := map (close_row tm customers) (seg_history d)\<rparr>))"

definition between_1_5 :: "int option \<Rightarrow> bool" where
  "between_1_5 s \<longleftrightarrow> (case s of None \<Rightarrow> True | Some x \<Rightarrow> 1 \<le> x \<and> x \<le> 5)"

definition not_negative :: "int option \<Rightarrow> bool" where
  "not_negative s \<longleftrightarrow> (case s of None \<Rightarrow> True | Some x \<Rightarrow> 0 \<le> x)"

text \<open>\<open>monetary_total NUMERIC(12,2)\<close>, in cents: at most ten digits before the point.\<close>

definition fits_numeric_12_2 :: "int option \<Rightarrow> bool" where
  "fits_numeric_12_2 s \<longleftrightarrow> (case s of None \<Rightarrow> True | Some x \<Rightarrow> \<bar>x\<bar> < 10 ^ 12)"

text \<open>\<open>tstzrange(valid_from, valid_to) && tstzrange(valid_from, NULL)\<close>: an empty range overlaps nothing.\<close>

definition overlaps :: "history_row \<Rightarrow> history_row \<Rightarrow> bool" where
  "overlaps old new \<longleftrightarrow> h_customer old = h_customer new
     \<and> (case h_to old of None \<Rightarrow> True | Some t \<Rightarrow> h_from old < t \<and> h_from new < t)"

text \<open>What the column types, the foreign keys and the column constraints refuse, then what the rows already there refuse.\<close>

definition column_refused :: "sales_db \<Rightarrow> history_row \<Rightarrow> string option" where
  "column_refused db new =
    (if \<not> fits_numeric_12_2 (h_monetary new) then Some ''numeric field overflow''
     else if h_customer new \<notin> set (sdb_customers db) then Some ''customer_segment_history_customer_id_fkey''
     else if (case h_label new of None \<Rightarrow> False | Some l \<Rightarrow> l \<notin> fst ` set (sdb_labels db))
       then Some ''customer_segment_history_label_code_fkey''
     else if (case (h_segment new, h_label new) of
         (Some g, Some l) \<Rightarrow> \<not> (\<exists>s\<in>set (sdb_segments db). seg_id s = g \<and> seg_label s = l) | _ \<Rightarrow> False)
       then Some ''customer_segment_history_segment_id_label_code_fkey''
     else if \<not> (between_1_5 (h_r new) \<and> between_1_5 (h_f new) \<and> between_1_5 (h_m new)
         \<and> not_negative (h_frequency new) \<and> not_negative (h_monetary new)) then Some ''customer_segment_history_check''
     else None)"

definition row_refused :: "seg_db \<Rightarrow> history_row \<Rightarrow> string option" where
  "row_refused d new =
    (case column_refused (sales_of d) new of
       Some c \<Rightarrow> Some c
     | None \<Rightarrow>
         if \<exists>h\<in>set (seg_history d). h_run h = h_run new \<and> h_customer h = h_customer new
           then Some ''customer_segment_history_run_id_customer_id_key''
         else if \<exists>h\<in>set (seg_history d). overlaps h new then Some ''ex_customer_segment_history_no_overlap''
         else None)"

fun insert_assignments :: "history_row list \<Rightarrow> seg_db \<Rightarrow> (pipeline_error + unit) \<times> seg_db" where
  "insert_assignments [] d = (Inr (), d)"
| "insert_assignments (row # rows) d =
    (case row_refused d row of
       Some c \<Rightarrow> (Inl (Refused c), d)
     | None \<Rightarrow> insert_assignments rows (d\<lparr>seg_history := seg_history d @ [row]\<rparr>))"

definition announce_run :: "int \<Rightarrow> nat \<Rightarrow> seg_db \<Rightarrow> (pipeline_error + unit) \<times> seg_db" where
  "announce_run now run d =
    (case write_event now (RunSubject run) (inbox_of d) of
       (Inl e, i) \<Rightarrow> (Inl (NotAnnounced e), d\<lparr>inbox_of := i\<rparr>)
     | (Inr _, i) \<Rightarrow> (Inr (), d\<lparr>inbox_of := i\<rparr>))"

record run_result =
  res_window :: int
  res_counts :: run_counts
  res_run :: nat
  res_method :: string
  res_origin :: string

definition no_segment_changed :: "run_result \<Rightarrow> bool" where
  "no_segment_changed r \<longleftrightarrow> n_reassigned (res_counts r) = 0 \<and> n_cleared (res_counts r) = 0"


definition record_body :: "run_clock \<Rightarrow> string \<Rightarrow> int \<Rightarrow> adapter \<Rightarrow> seg_db \<Rightarrow> (pipeline_error + run_result) \<times> seg_db" where
  "record_body clock method window_days adapter d =
    (case ad_decide adapter clock (sales_of d) window_days of
       Inl e \<Rightarrow> (Inl e, d)
     | Inr out \<Rightarrow>
         (case validated out of
            Inl e \<Rightarrow> (Inl e, d)
          | Inr as \<Rightarrow>
              (let prior = read_open_assignments d
               in case create_run clock method window_days (out_parameters out) (length as) d of
                 (Inl e, d1) \<Rightarrow> (Inl e, d1)
               | (Inr (run, origin), d1) \<Rightarrow>
                   (case close_open_assignments (map a_customer as) (ck_at clock) d1 of
                      (Inl e, d2) \<Rightarrow> (Inl e, d2)
                    | (Inr _, d2) \<Rightarrow>
                        (case insert_assignments (map (as_row run (ck_at clock)) as) d2 of
                           (Inl e, d3) \<Rightarrow> (Inl e, d3)
                         | (Inr _, d3) \<Rightarrow>
                             (case announce_run (ck_now clock) run d3 of
                                (Inl e, d4) \<Rightarrow> (Inl e, d4)
                              | (Inr _, d4) \<Rightarrow>
                                  (Inr \<lparr>res_window = window_days, res_counts = summarise as prior, res_run = run,
                                       res_method = method, res_origin = origin\<rparr>, d4)))))))"

definition run_method :: "run_clock \<Rightarrow> string \<Rightarrow> int \<Rightarrow> adapter option \<Rightarrow> (seg_db, pipeline_error, run_result) operation" where
  "run_method clock method window_days adapter owned s =
    (if method \<notin> set METHODS then (Inl UnknownMethod, s)
     else case (case adapter of Some a \<Rightarrow> Some a | None \<Rightarrow> map_of ADAPTERS method) of
         None \<Rightarrow> (Inl MethodUnavailable, s)
       | Some chosen \<Rightarrow>
           if ad_method chosen \<noteq> method then (Inl AdapterMismatch, s)
           else atomic (statements (record_body clock method window_days chosen)) owned s)"


definition run_kmeans ::
  "(int \<Rightarrow> nat \<Rightarrow> real) \<Rightarrow> (int \<Rightarrow> nat \<Rightarrow> real) \<Rightarrow> (real \<Rightarrow> real) \<Rightarrow> run_clock \<Rightarrow> int \<Rightarrow> kmeans_params
    \<Rightarrow> (seg_db, pipeline_error, run_result) operation" where
  "run_kmeans rnd rnd' round6 clock window_days params =
    run_method clock ''KMEANS'' window_days (Some (run_kmeans_adapter rnd rnd' round6 params))"

section \<open>What a successful run wrote\<close>

lemma validated_loop_None:
  "validated_loop seen as = None \<longleftrightarrow>
    (\<forall>a\<in>set as. validate a = None) \<and> distinct (map a_customer as) \<and> seen \<inter> a_customer ` set as = {}"
  by (induction as arbitrary: seen) (auto split: option.splits)

lemma validated_Inr:
  "validated out = Inr as \<longleftrightarrow> as = out_assignments out \<and> (\<forall>a\<in>set as. validate a = None) \<and> distinct (map a_customer as)"
  using validated_loop_None [of "{}" "out_assignments out"]
  by (cases "validated_loop {} (out_assignments out)") (auto simp: validated_def)

lemma insert_assignments_Inr:
  "insert_assignments rows d = (Inr u, d') \<Longrightarrow> d' = d\<lparr>seg_history := seg_history d @ rows\<rparr>
    \<and> (\<forall>r\<in>set rows. h_customer r \<in> set (sdb_customers (sales_of d)))"
proof (induction rows arbitrary: d)
  case (Cons row rows)
  then have "row_refused d row = None" by (auto split: option.splits)
  moreover from this have "h_customer row \<in> set (sdb_customers (sales_of d))"
    by (auto simp: row_refused_def column_refused_def split: if_splits option.splits)
  ultimately show ?case using Cons.IH [of "d\<lparr>seg_history := seg_history d @ [row]\<rparr>"] Cons.prems by simp
qed simp

definition run_written :: "run_clock \<Rightarrow> string \<Rightarrow> int \<Rightarrow> method_output \<Rightarrow> seg_db \<Rightarrow> seg_db \<Rightarrow> bool" where
  "run_written clock method w out d d' \<longleftrightarrow>
     sales_of d' = sales_of d \<and> next_run d' = Suc (next_run d)
     \<and> runs d' = runs d @ [\<lparr>rr_id = next_run d, rr_method = method, rr_window = w, rr_parameters = out_parameters out,
          rr_customers = length (out_assignments out), rr_at = ck_at clock,
          rr_origin = window_origin (ck_now clock) w (sales_of d)\<rparr>]
     \<and> seg_history d' = map (close_row (ck_at clock) (map a_customer (out_assignments out))) (seg_history d)
          @ map (as_row (next_run d) (ck_at clock)) (out_assignments out)
     \<and> (\<exists>n. write_event (ck_now clock) (RunSubject (next_run d)) (inbox_of d) = (Inr n, inbox_of d'))"

lemma record_body_Inr:
  assumes "record_body clock method w ad d = (Inr res, d')"
  obtains out where "ad_decide ad clock (sales_of d) w = Inr out" and "method \<in> set METHODS" and "0 < w"
    and "\<forall>a\<in>set (out_assignments out). validate a = None" and "distinct (map a_customer (out_assignments out))"
    and "\<forall>a\<in>set (out_assignments out). a_customer a \<in> set (sdb_customers (sales_of d))"
    and "\<forall>h\<in>set (seg_history d). open_row h \<and> h_customer h \<in> set (map a_customer (out_assignments out)) \<longrightarrow> h_from h \<le> ck_at clock"
    and "run_written clock method w out d d'"
    and "res = \<lparr>res_window = w, res_counts = summarise (out_assignments out) (read_open_assignments d), res_run = next_run d,
      res_method = method, res_origin = window_origin (ck_now clock) w (sales_of d)\<rparr>"
proof -
  from assms obtain out as d1 d2 d3 run origin where
    out: "ad_decide ad clock (sales_of d) w = Inr out" and val: "validated out = Inr as"
    and d1: "create_run clock method w (out_parameters out) (length as) d = (Inr (run, origin), d1)"
    and d2: "close_open_assignments (map a_customer as) (ck_at clock) d1 = (Inr (), d2)"
    and d3: "insert_assignments (map (as_row run (ck_at clock)) as) d2 = (Inr (), d3)"
    and d4: "announce_run (ck_now clock) run d3 = (Inr (), d')"
    and res: "res = \<lparr>res_window = w, res_counts = summarise as (read_open_assignments d), res_run = run,
      res_method = method, res_origin = origin\<rparr>"
    by (auto simp: record_body_def Let_def split: sum.splits prod.splits)
  from val have as: "as = out_assignments out" "\<forall>a\<in>set as. validate a = None" "distinct (map a_customer as)"
    by (auto simp: validated_Inr)
  from d1 have run: "run = next_run d" "origin = window_origin (ck_now clock) w (sales_of d)" "method \<in> set METHODS" "0 < w"
    and d1': "d1 = d\<lparr>runs := runs d @ [\<lparr>rr_id = next_run d, rr_method = method, rr_window = w,
        rr_parameters = out_parameters out, rr_customers = length as, rr_at = ck_at clock, rr_origin = origin\<rparr>],
        next_run := Suc (next_run d)\<rparr>"
    by (auto simp: create_run_def Let_def split: if_splits)
  from d2 have d2': "d2 = d1\<lparr>seg_history := map (close_row (ck_at clock) (map a_customer as)) (seg_history d1)\<rparr>"
    and ok: "\<forall>h\<in>set (seg_history d). open_row h \<and> h_customer h \<in> set (map a_customer as) \<longrightarrow> h_from h \<le> ck_at clock"
    by (auto simp: close_open_assignments_def d1' list_ex_iff split: if_splits)
  note d3' = insert_assignments_Inr [OF d3]
  from d4 obtain n i where d4': "write_event (ck_now clock) (RunSubject run) (inbox_of d3) = (Inr n, i)" "d' = d3\<lparr>inbox_of := i\<rparr>"
    by (auto simp: announce_run_def split: prod.splits sum.splits)
  have "run_written clock method w out d d'"
    using d3' d4' unfolding run_written_def by (simp add: d2' d1' run as(1))
  moreover have "\<forall>a\<in>set as. a_customer a \<in> set (sdb_customers (sales_of d))"
    using d3' by (simp add: d2' d1' as_row_def)
  ultimately show thesis using that out run as ok res by blast
qed

section \<open>The history of a customer\<close>

text \<open>
  A customer's rows form a timeline: each ends exactly where the next begins, and only the last is open.
\<close>

definition rows_of :: "nat \<Rightarrow> history_row list \<Rightarrow> history_row list" where
  "rows_of c hs = filter (\<lambda>h. h_customer h = c) hs"

definition timeline :: "history_row list \<Rightarrow> bool" where
  "timeline hs \<longleftrightarrow> hs = [] \<or> successively (\<lambda>a b. h_to a = Some (h_from b)) hs \<and> h_to (last hs) = None"

definition history_wf :: "seg_db \<Rightarrow> bool" where
  "history_wf d \<longleftrightarrow> (\<forall>c. timeline (rows_of c (seg_history d)))
     \<and> (\<forall>h\<in>set (seg_history d). \<forall>t. h_to h = Some t \<longrightarrow> h_from h \<le> t)"

lemma timeline_closed_before: "timeline (xs @ [x]) \<Longrightarrow> y \<in> set xs \<Longrightarrow> h_to y \<noteq> None"
proof (induction xs)
  case (Cons z zs)
  then have "timeline (zs @ [x])" by (auto simp: timeline_def successively_Cons)
  with Cons show ?case by (cases zs) (auto simp: timeline_def)
qed simp

lemma close_row_simps [simp]: "h_customer (close_row tm cs h) = h_customer h" "h_from (close_row tm cs h) = h_from h"
  "h_run (close_row tm cs h) = h_run h" "h_label (close_row tm cs h) = h_label h" "h_segment (close_row tm cs h) = h_segment h"
  by (simp_all add: close_row_def)

lemma as_row_simps [simp]: "h_customer (as_row r tm a) = a_customer a" "h_from (as_row r tm a) = tm" "h_to (as_row r tm a) = None"
  "h_run (as_row r tm a) = r" "h_label (as_row r tm a) = a_label a" "h_segment (as_row r tm a) = a_segment a"
  by (simp_all add: as_row_def)

lemma rows_of_append: "rows_of c (xs @ ys) = rows_of c xs @ rows_of c ys"
  by (simp add: rows_of_def)

lemma rows_of_close: "rows_of c (map (close_row tm cs) hs) = map (close_row tm cs) (rows_of c hs)"
  by (simp add: rows_of_def filter_map comp_def)

lemma close_other: "c \<notin> set cs \<Longrightarrow> map (close_row tm cs) (rows_of c hs) = rows_of c hs"
  by (rule map_idI) (auto simp: rows_of_def close_row_def)

lemma rows_of_new:
  assumes "distinct (map a_customer as)" and "a \<in> set as"
  shows "rows_of (a_customer a) (map (as_row r tm) as) = [as_row r tm a]"
  using assms
proof (induction as)
  case (Cons b as)
  show ?case
  proof (cases "a = b")
    case True
    with Cons.prems have "a_customer a \<notin> a_customer ` set as" by simp
    then have "\<forall>x\<in>set as. a_customer x \<noteq> a_customer a" by (metis imageI)
    then show ?thesis by (simp add: True rows_of_def filter_map comp_def filter_empty_conv)
  next
    case False
    with Cons.prems have "a \<in> set as" "a_customer b \<notin> a_customer ` set as" by simp_all
    then have "a_customer b \<noteq> a_customer a" by (metis imageI)
    with False Cons show ?thesis by (simp add: rows_of_def)
  qed
qed simp

lemma rows_of_not_new: "c \<notin> a_customer ` set as \<Longrightarrow> rows_of c (map (as_row r tm) as) = []"
  by (auto simp: rows_of_def filter_empty_conv)

lemma timeline_extend:
  assumes "timeline hs" and "\<forall>h\<in>set hs. h_customer h \<in> set cs" and "h_from new = tm" and "h_to new = None"
  shows "timeline (map (close_row tm cs) hs @ [new])"
proof (cases hs rule: rev_cases)
  case Nil
  then show ?thesis using assms(4) by (simp add: timeline_def)
next
  case (snoc xs x)
  have closed: "map (close_row tm cs) xs = xs"
    using timeline_closed_before [of xs x] assms(1) snoc by (intro map_idI) (auto simp: close_row_def open_row_def)
  have x: "h_to x = None" "h_customer x \<in> set cs" using assms(1,2) snoc by (auto simp: timeline_def)
  then have cx: "close_row tm cs x = x\<lparr>h_to := Some tm\<rparr>" by (simp add: close_row_def open_row_def)
  have "successively (\<lambda>a b. h_to a = Some (h_from b)) (xs @ [x])" using assms(1) snoc by (simp add: timeline_def)
  then have "successively (\<lambda>a b. h_to a = Some (h_from b)) (xs @ [x\<lparr>h_to := Some tm\<rparr>, new])"
    using assms(3) by (simp add: successively_append_iff)
  then show ?thesis using assms(4) by (simp add: timeline_def snoc closed cx)
qed

lemma written_rows:
  assumes "run_written clock method w out d d'" and "distinct (map a_customer (out_assignments out))"
  shows "a \<in> set (out_assignments out) \<Longrightarrow> rows_of (a_customer a) (seg_history d')
      = map (close_row (ck_at clock) (map a_customer (out_assignments out))) (rows_of (a_customer a) (seg_history d))
        @ [as_row (next_run d) (ck_at clock) a]"
    and "c \<notin> a_customer ` set (out_assignments out) \<Longrightarrow> rows_of c (seg_history d') = rows_of c (seg_history d)"
  using assms by (simp_all add: run_written_def rows_of_append rows_of_close rows_of_new rows_of_not_new close_other)

lemma record_body_history:
  assumes "history_wf d" and "record_body clock method w ad d = (Inr res, d')"
  shows "history_wf d'"
proof -
  from assms(2) obtain out where out: "run_written clock method w out d d'" "distinct (map a_customer (out_assignments out))"
    "\<forall>h\<in>set (seg_history d). open_row h \<and> h_customer h \<in> set (map a_customer (out_assignments out)) \<longrightarrow> h_from h \<le> ck_at clock"
    by (rule record_body_Inr)
  have "timeline (rows_of c (seg_history d'))" for c
  proof (cases "c \<in> a_customer ` set (out_assignments out)")
    case True
    then obtain a where a: "a \<in> set (out_assignments out)" "c = a_customer a" by blast
    have "timeline (rows_of c (seg_history d))" using assms(1) by (simp add: history_wf_def)
    then show ?thesis
      using a written_rows(1) [OF out(1,2) a(1)] by (auto simp: rows_of_def intro!: timeline_extend)
  next
    case False
    with assms(1) show ?thesis by (simp add: written_rows(2) [OF out(1,2)] history_wf_def)
  qed
  moreover have "h_from h \<le> t" if "h \<in> set (seg_history d')" "h_to h = Some t" for h t
    using that out assms(1) by (auto simp: run_written_def close_row_def open_row_def history_wf_def split: if_splits)
  ultimately show ?thesis by (simp add: history_wf_def)
qed

interpretation run_work: unit_of_work "record_body clock mth w ad" history_wf for clock mth w ad
  by unfold_locales (rule record_body_history)

lemma run_method_cases:
  assumes "run_method clock method w ad False (at_rest d) = (r, s)"
  shows "(\<exists>e. r = Inl e \<and> s = at_rest d)
    \<or> (\<exists>res d' chosen. r = Inr res \<and> s = at_rest d' \<and> ad_method chosen = method
        \<and> (ad = Some chosen \<or> ad = None \<and> map_of ADAPTERS method = Some chosen)
        \<and> record_body clock method w chosen d = (Inr res, d'))"
  using assms by (auto simp: run_method_def atomic_statements split: if_splits option.splits prod.splits sum.splits)

type_synonym run_request = "run_clock \<times> string \<times> int \<times> adapter option"

fun seg_step :: "run_request \<Rightarrow> seg_db \<Rightarrow> seg_db" where
  "seg_step (clock, method, w, ad) d = committed (snd (run_method clock method w ad False (at_rest d)))"

interpretation history_run: stepwise seg_step history_wf
proof
  fix d :: seg_db and e :: run_request
  assume inv: "history_wf d"
  obtain clock mth w ad where e: "e = (clock, mth, w, ad)" by (cases e)
  obtain r s where run: "run_method clock mth w ad False (at_rest d) = (r, s)" by fastforce
  from run_method_cases [OF run] inv record_body_history show "history_wf (seg_step e d)"
    by (auto simp: e run)
qed

section \<open>What the pipeline promises\<close>

text \<open>
  C3. The history of every customer is a partition of time: whatever sequence of runs is requested, of
  either method or with any adapter, accepted or refused, a customer's rows follow each other without a
  gap or an overlap, each closed exactly when the next opens and never before it opened, and only the last one
  is open.
\<close>

theorem history_always_contiguous:
  assumes "history_wf d"
  shows "timeline (rows_of c (seg_history (fold seg_step requests d)))
    \<and> list_all (\<lambda>h. case h_to h of None \<Rightarrow> True | Some t \<Rightarrow> h_from h \<le> t) (rows_of c (seg_history (fold seg_step requests d)))
    \<and> length (filter open_row (rows_of c (seg_history (fold seg_step requests d)))) \<le> 1"
proof -
  let ?hs = "rows_of c (seg_history (fold seg_step requests d))"
  have wf: "history_wf (fold seg_step requests d)" by (rule history_run.run_inv [OF assms])
  then have t: "timeline ?hs" by (simp add: history_wf_def)
  have ordered: "list_all (\<lambda>h. case h_to h of None \<Rightarrow> True | Some t \<Rightarrow> h_from h \<le> t) ?hs"
    using wf by (auto simp: list_all_iff history_wf_def rows_of_def split: option.split)
  have "length (filter open_row ?hs) \<le> 1"
  proof (cases ?hs rule: rev_cases)
    case (snoc xs x)
    with t timeline_closed_before [of xs x] have "filter open_row xs = []"
      by (auto simp: filter_empty_conv open_row_def)
    then show ?thesis by (simp add: snoc)
  qed simp
  with t ordered show ?thesis by blast
qed

definition example_seg_db :: seg_db where
  "example_seg_db = \<lparr>sales_of = example_sales_db, inbox_of = example_app, runs = [], seg_history = [], next_run = 1\<rparr>"

lemma example_seg_wf: "history_wf example_seg_db"
  by (simp add: history_wf_def example_seg_db_def timeline_def rows_of_def)

definition example_clock :: run_clock where
  "example_clock = \<lparr>ck_now = 100, ck_today = 3, ck_at = 101\<rparr>"

theorem history_always_contiguous_witness:
  "timeline (rows_of 1 (seg_history (fold seg_step
     [(example_clock, ''RFM_RULES'', 30, None), (example_clock\<lparr>ck_at := 205\<rparr>, ''RFM_RULES'', 30, None)] example_seg_db)))"
  using history_always_contiguous [OF example_seg_wf] by blast




section \<open>Counts\<close>

lemma summarise_fold:
  "fold (summarise_step prior) as (x, y) =
    (x + length (filter (\<lambda>a. \<not> unchanged prior a \<and> a_label a \<noteq> None) as),
     y + length (filter (\<lambda>a. \<not> unchanged prior a \<and> a_label a = None) as))"
  by (induction as arbitrary: x y) (auto simp: summarise_step_def)

lemma length_filter_split: "length (filter P xs) + length (filter (\<lambda>x. \<not> P x) xs) = length xs"
  by (induction xs) auto

lemma length_filter_le_filter: "(\<And>x. P x \<Longrightarrow> Q x) \<Longrightarrow> length (filter P xs) \<le> length (filter Q xs)"
  by (induction xs) auto

text \<open>
  What a run reports adds up: every processed customer is counted as assigned or unmatched, the changed
  ones are split by whether they keep a label, and both counts are zero exactly when every open assignment
  is what it was.
\<close>

lemma summarise_adds_up:
  "let n = summarise as prior in
     n_processed n = length as \<and> n_assigned n + n_unmatched n = n_processed n
     \<and> n_reassigned n \<le> n_assigned n \<and> n_cleared n \<le> n_unmatched n \<and> n_fallback n \<le> n_processed n
     \<and> n_reassigned n + n_cleared n = length (filter (\<lambda>a. prior (a_customer a) \<noteq> Some (a_segment a, a_label a)) as)
     \<and> (n_reassigned n = 0 \<and> n_cleared n = 0) = list_all (\<lambda>a. prior (a_customer a) = Some (a_segment a, a_label a)) as"
proof -
  let ?ch = "\<lambda>a. \<not> unchanged prior a"
  have "length (filter (\<lambda>a. ?ch a \<and> a_label a \<noteq> None) as) \<le> length (filter (\<lambda>a. a_label a \<noteq> None) as)"
    "length (filter (\<lambda>a. ?ch a \<and> a_label a = None) as) \<le> length (filter (\<lambda>a. a_label a = None) as)"
    by (rule length_filter_le_filter; simp)+
  moreover have "length (filter (\<lambda>a. a_label a \<noteq> None) as) + length (filter (\<lambda>a. a_label a = None) as) = length as"
    using length_filter_split [of "\<lambda>a. a_label a \<noteq> None" as] by simp
  moreover have "length (filter (\<lambda>a. ?ch a \<and> a_label a \<noteq> None) as) + length (filter (\<lambda>a. ?ch a \<and> a_label a = None) as)
      = length (filter ?ch as)"
    using length_filter_split [of "\<lambda>a. a_label a \<noteq> None" "filter ?ch as"] by (simp add: conj_commute)
  moreover have "length (filter ?ch as) = 0 \<longleftrightarrow> (\<forall>a\<in>set as. unchanged prior a)"
    by (simp add: filter_empty_conv)
  moreover have "n_processed (summarise as prior) = length as"
    "n_assigned (summarise as prior) = length (filter (\<lambda>a. a_label a \<noteq> None) as)"
    "n_unmatched (summarise as prior) = length as - length (filter (\<lambda>a. a_label a \<noteq> None) as)"
    "n_reassigned (summarise as prior) = length (filter (\<lambda>a. ?ch a \<and> a_label a \<noteq> None) as)"
    "n_cleared (summarise as prior) = length (filter (\<lambda>a. ?ch a \<and> a_label a = None) as)"
    "n_fallback (summarise as prior) = length (filter a_via_fallback as)"
    by (simp_all add: summarise_def Let_def summarise_fold)
  moreover have "length (filter a_via_fallback as) \<le> length as" by simp
  ultimately show ?thesis unfolding Let_def unchanged_def list_all_iff by (intro conjI; linarith)
qed

section \<open>A run succeeds\<close>

text \<open>
  What the database guarantees between runs: the clock is past every recorded instant, the next run's id is
  new, and the next run is not announced yet. \<open>acceptable\<close> is what the constraints ask of one assignment.
\<close>

definition ready :: "run_clock \<Rightarrow> seg_db \<Rightarrow> bool" where
  "ready clock d \<longleftrightarrow> (\<forall>h\<in>set (seg_history d). h_from h \<le> ck_at clock \<and> (\<forall>t. h_to h = Some t \<longrightarrow> t \<le> ck_at clock)
      \<and> h_run h < next_run d)
    \<and> RunSubject (next_run d) \<notin> set (map note_subject (note_rows (inbox_of d)))"

definition acceptable :: "sales_db \<Rightarrow> assignment \<Rightarrow> bool" where
  "acceptable db a \<longleftrightarrow> validate a = None \<and> a_customer a \<in> set (sdb_customers db)
    \<and> (\<forall>l. a_label a = Some l \<longrightarrow> l \<in> fst ` set (sdb_labels db))
    \<and> (\<forall>g l. a_segment a = Some g \<longrightarrow> a_label a = Some l \<longrightarrow> (\<exists>s\<in>set (sdb_segments db). seg_id s = g \<and> seg_label s = l))
    \<and> between_1_5 (a_r a) \<and> between_1_5 (a_f a) \<and> between_1_5 (a_m a)
    \<and> not_negative (a_frequency a) \<and> not_negative (a_monetary a) \<and> fits_numeric_12_2 (a_monetary a)"

lemma row_refused_other:
  assumes "row_refused d r = None" and "h_customer row \<noteq> h_customer r"
  shows "row_refused (d\<lparr>seg_history := seg_history d @ [row]\<rparr>) r = None"
  using assms by (auto simp: row_refused_def overlaps_def split: if_splits option.splits)

lemma insert_assignments_ok:
  "\<forall>r\<in>set rows. row_refused d r = None \<Longrightarrow> distinct (map h_customer rows) \<Longrightarrow>
    insert_assignments rows d = (Inr (), d\<lparr>seg_history := seg_history d @ rows\<rparr>)"
proof (induction rows arbitrary: d)
  case (Cons row rows)
  have "\<forall>r\<in>set rows. row_refused (d\<lparr>seg_history := seg_history d @ [row]\<rparr>) r = None"
  proof
    fix r
    assume r: "r \<in> set rows"
    then have "h_customer r \<in> h_customer ` set rows" by (rule imageI)
    with Cons.prems(2) have "h_customer row \<noteq> h_customer r" by auto
    with Cons.prems(1) r show "row_refused (d\<lparr>seg_history := seg_history d @ [row]\<rparr>) r = None"
      by (intro row_refused_other) simp_all
  qed
  from Cons.IH [OF this] Cons.prems show ?case by simp
qed simp

lemma acceptable_row:
  assumes "acceptable (sales_of d) a" and "ready clock d" and "seg_history d' = map (close_row (ck_at clock) cs) (seg_history d)"
    and "a_customer a \<in> set cs" and "sales_of d' = sales_of d"
  shows "row_refused d' (as_row (next_run d) (ck_at clock) a) = None"
proof -
  have "\<not> overlaps h (as_row (next_run d) (ck_at clock) a)" if "h \<in> set (seg_history d')" for h
    using that assms(2,4) by (auto simp: assms(3) overlaps_def ready_def close_row_def open_row_def split: option.splits)
  moreover have "h_run h \<noteq> next_run d" if "h \<in> set (seg_history d')" for h
    using that assms(2) by (auto simp: assms(3) ready_def)
  moreover have "h_label (as_row (next_run d) (ck_at clock) a) = a_label a" by simp
  ultimately show ?thesis
    using assms(1,5) by (auto simp: row_refused_def column_refused_def acceptable_def as_row_def split: option.splits)
qed

lemma record_body_progress:
  assumes "ready clock d" and "method \<in> set METHODS" and "0 < w"
    and "ad_decide ad clock (sales_of d) w = Inr out"
    and "\<forall>a\<in>set (out_assignments out). acceptable (sales_of d) a" and "distinct (map a_customer (out_assignments out))"
  shows "\<exists>d'. record_body clock method w ad d =
    (Inr \<lparr>res_window = w, res_counts = summarise (out_assignments out) (read_open_assignments d), res_run = next_run d,
      res_method = method, res_origin = window_origin (ck_now clock) w (sales_of d)\<rparr>, d')"
proof -
  let ?as = "out_assignments out" and ?run = "next_run d"
  have val: "validated out = Inr ?as"
    using assms(5,6) by (auto simp: validated_Inr acceptable_def)
  obtain d1 where d1: "create_run clock method w (out_parameters out) (length ?as) d = (Inr (?run, window_origin (ck_now clock) w (sales_of d)), d1)"
    and d1': "seg_history d1 = seg_history d" "sales_of d1 = sales_of d" "inbox_of d1 = inbox_of d"
    using assms(2,3) by (simp add: create_run_def Let_def)
  define d2 where "d2 = d1\<lparr>seg_history := map (close_row (ck_at clock) (map a_customer ?as)) (seg_history d)\<rparr>"
  have "\<not> list_ex (\<lambda>h. open_row h \<and> h_customer h \<in> set (map a_customer ?as) \<and> ck_at clock < h_from h) (seg_history d)"
    using assms(1) by (auto simp: list_ex_iff ready_def)
  then have d2: "close_open_assignments (map a_customer ?as) (ck_at clock) d1 = (Inr (), d2)"
    by (simp add: close_open_assignments_def d1' d2_def)
  have "\<forall>r\<in>set (map (as_row ?run (ck_at clock)) ?as). row_refused d2 r = None"
    using assms(1,5) acceptable_row [of d _ clock d2 "map a_customer ?as"] by (auto simp: d2_def d1')
  moreover have "distinct (map h_customer (map (as_row ?run (ck_at clock)) ?as))"
    using assms(6) by (simp add: comp_def)
  ultimately obtain d3 where d3: "insert_assignments (map (as_row ?run (ck_at clock)) ?as) d2 = (Inr (), d3)"
    and "inbox_of d3 = inbox_of d"
    using insert_assignments_ok by (fastforce simp: d2_def d1')
  then obtain d4 where "announce_run (ck_now clock) ?run d3 = (Inr (), d4)"
    using assms(1) by (auto simp: announce_run_def write_event_def insert_notification_def insert_recipients_def ready_def
        announced_once_def Let_def split: prod.splits sum.splits)
  with assms(4) val d1 d2 d3 show ?thesis by (simp add: record_body_def)
qed

lemma sum_list_filter_nonneg:
  fixes f :: "'a \<Rightarrow> int"
  assumes "\<forall>x\<in>set xs. 0 \<le> f x"
  shows "sum_list (map f (filter P xs)) \<le> sum_list (map f xs)"
  using assms by (induction xs) auto

lemma measures_not_negative:
  assumes "measures now w db c = Some (la, fr, to)" and "\<forall>s\<in>set (sdb_sales db). 0 \<le> sale_total s"
  shows "0 \<le> fr \<and> 0 \<le> to \<and> to \<le> sum_list (map sale_total (sdb_sales db))"
proof -
  have "0 \<le> sum_list (map sale_total (window_sales now w db c))"
    using assms(2) by (intro sum_list_nonneg) (auto simp: window_sales_def)
  moreover have "sum_list (map sale_total (window_sales now w db c)) \<le> sum_list (map sale_total (sdb_sales db))"
    unfolding window_sales_def by (rule sum_list_filter_nonneg [OF assms(2)])
  ultimately show ?thesis using assms(1) by (auto simp: measures_def Let_def split: if_splits)
qed

definition sales_db_wf :: "sales_db \<Rightarrow> bool" where
  "sales_db_wf db \<longleftrightarrow> distinct (sdb_customers db) \<and> (\<forall>s\<in>set (sdb_sales db). 0 \<le> sale_total s)
    \<and> sum_list (map sale_total (sdb_sales db)) < 10 ^ 12
    \<and> (\<forall>s\<in>set (sdb_segments db). seg_label s \<in> fst ` set (sdb_labels db))"


lemma length_filter_sort: "length (filter P (sort xs)) = length (filter P xs)"
  by (metis mset_filter mset_sort size_mset)


lemma example_ready: "ready example_clock example_seg_db" "sales_db_wf (sales_of example_seg_db)"
  by (simp_all add: ready_def example_seg_db_def example_app_def sales_db_wf_def example_sales_db_def)



section \<open>A K-means run\<close>

lemma read_rfm_inputs_measured:
  "map cs_customer (filter (\<lambda>row. cs_frequency row \<noteq> None) (read_rfm_inputs now w db))
    = filter (\<lambda>c. measures now w db c \<noteq> None) (sort (sdb_customers db))"
proof -
  have "map cs_customer (filter (\<lambda>row. cs_frequency row \<noteq> None) (map (\<lambda>c. case measures now w db c of
       None \<Rightarrow> \<lparr>cs_customer = c, cs_last_purchase = None, cs_frequency = None, cs_monetary = None\<rparr>
     | Some (latest, freq, spent) \<Rightarrow>
         \<lparr>cs_customer = c, cs_last_purchase = Some latest, cs_frequency = Some freq, cs_monetary = Some spent\<rparr>) cs))
    = filter (\<lambda>c. measures now w db c \<noteq> None) cs" for cs
    by (induction cs) (auto split: option.splits)
  then show ?thesis by (simp add: read_rfm_inputs_def)
qed

lemma label_clusters_ok:
  assumes "2 \<le> int (length (centroids r))" and "vocabulary \<noteq> []"
  shows "\<exists>labels. label_clusters r vocabulary = Inr labels
    \<and> (\<forall>c < length (centroids r). \<exists>l. map_of labels c = Some l \<and> l \<in> set vocabulary)"
proof -
  let ?k = "int (length (centroids r))" and ?v = "int (length vocabulary)"
  let ?ls = "map (\<lambda>rank. vocabulary ! nat (label_index rank ?k ?v)) [0..?k - 1]"
  have lab: "label_clusters r vocabulary = Inr (zip (rank_clusters r) ?ls)"
    using assms by (simp add: label_clusters_def labels_by_rank_def check_vocabulary_size_def MIN_CLUSTERS_def)
  have "1 \<le> ?v" using assms(2) by (cases vocabulary) auto
  then have "\<forall>rank\<in>set [0..?k - 1]. nat (label_index rank ?k ?v) < length vocabulary"
    using label_index_range [OF assms(1)] by (auto simp: nat_less_iff)
  then have "set ?ls \<subseteq> set vocabulary" by (auto intro: nth_mem)
  moreover have "l \<in> set ?ls" if "map_of (zip (rank_clusters r) ?ls) c = Some l" for c l
    using that by (meson map_of_SomeD set_zip_rightD)
  ultimately show ?thesis using lab label_clusters_total [OF lab] by blast
qed

lemma vocabulary_of_set: "set (vocabulary_of db) = fst ` set (sdb_labels db)"
  by (simp add: vocabulary_of_def get_label_ordinals_def)

lemma kmeans_measured:
  assumes "row \<in> set (read_rfm_inputs now w db)"
  shows "(cs_frequency row \<noteq> None) = (measures now w db (cs_customer row) \<noteq> None)
    \<and> cs_customer row \<in> set (sdb_customers db)
    \<and> (cs_frequency row = None) = (cs_last_purchase row = None) \<and> (cs_frequency row = None) = (cs_monetary row = None)
    \<and> ((\<forall>s\<in>set (sdb_sales db). 0 \<le> sale_total s) \<longrightarrow> not_negative (cs_frequency row) \<and> not_negative (cs_monetary row))"
  using assms measures_not_negative [of now w db]
  by (auto simp: read_rfm_inputs_def not_negative_def split: option.splits)

lemma measured_fits:
  assumes "sales_db_wf db" and "row \<in> set (read_rfm_inputs now w db)"
  shows "fits_numeric_12_2 (cs_monetary row)"
proof -
  obtain c where c: "row = (case measures now w db c of
       None \<Rightarrow> \<lparr>cs_customer = c, cs_last_purchase = None, cs_frequency = None, cs_monetary = None\<rparr>
     | Some (latest, freq, spent) \<Rightarrow>
         \<lparr>cs_customer = c, cs_last_purchase = Some latest, cs_frequency = Some freq, cs_monetary = Some spent\<rparr>)"
    using assms(2) by (auto simp: read_rfm_inputs_def)
  show ?thesis
  proof (cases "measures now w db c")
    case (Some m)
    obtain la fr to where m: "m = (la, fr, to)" by (cases m)
    show ?thesis
      using measures_not_negative [of now w db c la fr to] Some assms(1) by (simp add: c m sales_db_wf_def fits_numeric_12_2_def)
  qed (simp add: c fits_numeric_12_2_def)
qed

lemma run_kmeans_decide_ok:
  assumes "sales_db_wf db" and "valid_params p" and "2 \<le> k_of p" and "sdb_labels db \<noteq> []"
    and "k_of p \<le> int (length (filter (\<lambda>c. measures (ck_now clock) w db c \<noteq> None) (sdb_customers db)))"
  shows "\<exists>out. run_kmeans_decide rnd rnd' round6 p clock db w = Inr out
    \<and> map a_customer (out_assignments out) = sort (sdb_customers db)
    \<and> (\<forall>a\<in>set (out_assignments out). acceptable db a
        \<and> (a_label a \<noteq> None) = (measures (ck_now clock) w db (a_customer a) \<noteq> None))"
proof -
  let ?inputs = "read_rfm_inputs (ck_now clock) w db"
  let ?measured = "filter (\<lambda>row. cs_frequency row \<noteq> None) ?inputs"
  let ?ids = "map cs_customer ?measured" and ?voc = "vocabulary_of db"
  let ?rows = "map raw_rfm_of ?measured"
  have ids: "map customer_id ?rows = ?ids" by (simp add: raw_rfm_of_def comp_def)
  have "distinct (sort (sdb_customers db))" using assms(1) by (simp add: sales_db_wf_def)
  then have dist: "distinct ?ids" unfolding read_rfm_inputs_measured by simp
  have enough: "k_of p \<le> int (length ?ids)"
    using assms(5) unfolding read_rfm_inputs_measured by (simp add: length_filter_sort)
  obtain points where points: "normalise ?rows = Some points" "length points = length ?rows"
    using normalise_in_unit_cube [of ?rows] by blast
  obtain r where r: "fit rnd rnd' ?ids points p = Inr r" "customer_ids r = sort ?ids"
    "length (centroids r) = nat (k_of p)" "set (assignments r) = {..<nat (k_of p)}" "length (assignments r) = length ?ids"
    by (rule fit_cases [OF _ dist enough assms(2) refl, of points rnd rnd']) (use points in simp_all)
  have fit: "fit_customers rnd rnd' ?rows p = Inr r"
    by (simp only: fit_customers_def points option.case ids r(1) sum.case)
  have voc: "?voc \<noteq> []" using assms(4) by (metis empty_iff image_eqI last_in_set set_empty vocabulary_of_set)
  have k: "int (length (centroids r)) = k_of p" using r(3) assms(3) by simp
  then obtain labels where labels: "label_clusters r ?voc = Inr labels"
    "\<forall>c < nat (k_of p). \<exists>l. map_of labels c = Some l \<and> l \<in> set ?voc"
    using label_clusters_ok [of r ?voc] assms(3) voc r(3) by auto
  let ?cl = "zip (customer_ids r) (assignments r)"
  have check: "check_vocabulary_size (k_of p) ?voc = None"
    using assms(3) voc by (simp add: check_vocabulary_size_def MIN_CLUSTERS_def)
  obtain mapping where mapping: "describe_mapping (k_of p) ?voc = Inr mapping"
    by (simp add: describe_mapping_def labels_by_rank_def check)
  have un: "filter (\<lambda>c. map_of labels c = None) [0..<nat (k_of p)] = []"
    using labels(2) by (force simp: filter_empty_conv)
  define out where "out = \<lparr>out_assignments = map (kmeans_assignment labels ?cl) ?inputs,
    out_parameters = LabelledKMeansParameters (recorded_parameters round6 r w (length ?inputs - length ?measured)) mapping\<rparr>"
  have run: "run_kmeans_decide rnd rnd' round6 p clock db w = Inr out"
  proof -
    have "kmeans_decide rnd rnd' round6 p (\<lambda>fitted. label_clusters fitted ?voc) clock db w
        = Inr \<lparr>out_assignments = map (kmeans_assignment labels ?cl) ?inputs,
            out_parameters = KMeansParameters (recorded_parameters round6 r w (length ?inputs - length ?measured))\<rparr>"
      unfolding kmeans_decide_def Let_def fit sum.case labels(1) un by simp
    then show ?thesis
      unfolding run_kmeans_decide_def kmeans_adapter_def Let_def adapter.select_convs check option.case
      by (simp add: mapping out_def)
  qed
  have label: "a_label (kmeans_assignment labels ?cl row) = (if cs_customer row \<in> set ?ids then a_label (kmeans_assignment labels ?cl row) else None)
     \<and> (cs_customer row \<in> set ?ids \<longrightarrow> (\<exists>l\<in>set ?voc. a_label (kmeans_assignment labels ?cl row) = Some l))" for row
  proof (cases "cs_customer row \<in> set ?ids")
    case True
    then obtain c where c: "map_of ?cl (cs_customer row) = Some c"
      using map_of_zip_is_Some [of "customer_ids r" "assignments r"] r(2,5) by auto
    then have "c \<in> set (assignments r)" by (meson map_of_SomeD set_zip_rightD)
    then have "c < nat (k_of p)" using r(4) by simp
    with labels(2) c True show ?thesis by (auto simp: kmeans_assignment_def)
  next
    case False
    have "fst ` set ?cl = set ?ids" using r(2,5) by (metis length_map length_sort list.set_map map_fst_zip set_sort)
    then have "cs_customer row \<notin> fst ` set ?cl" using False by (rule ssubst)
    then have "map_of ?cl (cs_customer row) = None" by (rule map_of_eq_None_iff [THEN iffD2])
    then have "a_label (kmeans_assignment labels ?cl row) = None" by (simp add: kmeans_assignment_def)
    with False show ?thesis by (simp only: if_False simp_thms)
  qed
  have ids_iff: "cs_customer row \<in> set ?ids \<longleftrightarrow> cs_frequency row \<noteq> None" if "row \<in> set ?inputs" for row
    using kmeans_measured [OF that] unfolding read_rfm_inputs_measured set_filter set_sort by blast
  have acc: "acceptable db a \<and> (a_label a \<noteq> None) = (measures (ck_now clock) w db (a_customer a) \<noteq> None)"
    if a: "a \<in> set (out_assignments out)" for a
  proof -
    from a obtain row where row: "row \<in> set ?inputs" "a = kmeans_assignment labels ?cl row" by (auto simp: out_def)
    have fields: "a_customer a = cs_customer row" "a_segment a = None" "a_last a = cs_last_purchase row"
      "a_frequency a = cs_frequency row" "a_monetary a = cs_monetary row" "a_r a = None" "a_f a = None" "a_m a = None"
      by (simp_all add: row(2) kmeans_assignment_def)
    have lab: "(a_label a \<noteq> None) = (cs_frequency row \<noteq> None)" "\<forall>l. a_label a = Some l \<longrightarrow> l \<in> fst ` set (sdb_labels db)"
      using label [of row] ids_iff [OF row(1)] unfolding row(2) [symmetric] vocabulary_of_set
      by (metis option.distinct(1) option.inject)+
    note km = kmeans_measured [OF row(1)]
    have "validate a = None"
      using lab(1) km by (cases "cs_frequency row") (simp_all add: validate_def raw_values_def fields)
    moreover have "not_negative (cs_frequency row)" "not_negative (cs_monetary row)"
      using km assms(1) by (simp_all add: sales_db_wf_def)
    moreover have "cs_customer row \<in> set (sdb_customers db)" using km by (elim conjE)
    ultimately have "acceptable db a"
      using lab(2) measured_fits [OF assms(1) row(1)] by (simp add: acceptable_def fields between_1_5_def)
    moreover have "(a_label a \<noteq> None) = (measures (ck_now clock) w db (a_customer a) \<noteq> None)"
      using lab(1) km unfolding fields(1) by (elim conjE) (simp only:)
    ultimately show ?thesis ..
  qed
  have "map a_customer (out_assignments out) = sort (sdb_customers db)"
    by (rule nth_equalityI) (auto simp: out_def kmeans_assignment_def read_rfm_inputs_def split: option.split)
  with run acc show ?thesis by blast
qed

text \<open>
  A K-means run succeeds too: with valid parameters, at least two clusters and no more than the customers
  with a sale, it is accepted; every customer gets a row, and exactly those with a sale in the window get a
  label, one of the vocabulary.
\<close>

lemma kmeans_run_succeeds:
  assumes "ready clock d" and "sales_db_wf (sales_of d)" and "0 < w" and "valid_params p" and "2 \<le> k_of p"
    and "sdb_labels (sales_of d) \<noteq> []"
    and "k_of p \<le> int (length (filter (\<lambda>c. measures (ck_now clock) w (sales_of d) c \<noteq> None) (sdb_customers (sales_of d))))"
  shows "\<exists>res s. run_kmeans rnd rnd' round6 clock w p False (at_rest d) = (Inr res, s)
    \<and> n_processed (res_counts res) = length (sdb_customers (sales_of d))
    \<and> (\<forall>c\<in>set (sdb_customers (sales_of d)). \<exists>h\<in>set (seg_history (committed s)).
        h_customer h = c \<and> h_run h = res_run res \<and> open_row h
        \<and> (h_label h \<noteq> None) = (measures (ck_now clock) w (sales_of d) c \<noteq> None)
        \<and> (\<forall>l. h_label h = Some l \<longrightarrow> l \<in> fst ` set (sdb_labels (sales_of d))))"
proof -
  let ?db = "sales_of d" and ?ad = "run_kmeans_adapter rnd rnd' round6 p"
  obtain out where out: "run_kmeans_decide rnd rnd' round6 p clock ?db w = Inr out"
    "map a_customer (out_assignments out) = sort (sdb_customers ?db)"
    "\<forall>a\<in>set (out_assignments out). acceptable ?db a
        \<and> (a_label a \<noteq> None) = (measures (ck_now clock) w ?db (a_customer a) \<noteq> None)"
    using run_kmeans_decide_ok [OF assms(2,4,5,6,7)] by blast
  have dist: "distinct (map a_customer (out_assignments out))"
    using assms(2) by (simp add: out(2) sales_db_wf_def)
  obtain d' where body: "record_body clock ''KMEANS'' w ?ad d =
    (Inr \<lparr>res_window = w, res_counts = summarise (out_assignments out) (read_open_assignments d), res_run = next_run d,
      res_method = ''KMEANS'', res_origin = window_origin (ck_now clock) w ?db\<rparr>, d')"
    using record_body_progress [OF assms(1) _ assms(3), of "''KMEANS''" ?ad out] out dist
    by (auto simp: METHODS_def run_kmeans_adapter_def)
  then have eq: "run_kmeans rnd rnd' round6 clock w p False (at_rest d) =
    (Inr \<lparr>res_window = w, res_counts = summarise (out_assignments out) (read_open_assignments d), res_run = next_run d,
      res_method = ''KMEANS'', res_origin = window_origin (ck_now clock) w ?db\<rparr>, at_rest d')"
    by (simp add: run_kmeans_def run_method_def METHODS_def atomic_statements) (simp add: run_kmeans_adapter_def)
  from body have written: "run_written clock ''KMEANS'' w out d d'"
    by (rule record_body_Inr) (use out(1) in \<open>simp add: run_kmeans_adapter_def\<close>)
  have "\<exists>h\<in>set (seg_history d'). h_customer h = c \<and> h_run h = next_run d \<and> open_row h
      \<and> (h_label h \<noteq> None) = (measures (ck_now clock) w ?db c \<noteq> None)
      \<and> (\<forall>l. h_label h = Some l \<longrightarrow> l \<in> fst ` set (sdb_labels ?db))" if "c \<in> set (sdb_customers ?db)" for c
  proof -
    have "c \<in> set (map a_customer (out_assignments out))" using that by (simp add: out(2))
    then obtain a where a: "a \<in> set (out_assignments out)" "c = a_customer a" by auto
    then have "as_row (next_run d) (ck_at clock) a \<in> set (seg_history d')" using written by (simp add: run_written_def)
    with a out(3) show ?thesis by (intro bexI) (auto simp: open_row_def acceptable_def)
  qed
  moreover have "length (out_assignments out) = length (sdb_customers ?db)" by (metis length_map length_sort out(2))
  ultimately show ?thesis
    unfolding eq by (simp add: summarise_def Let_def split: prod.split)
qed

definition two_buyers :: seg_db where
  "two_buyers = example_seg_db\<lparr>sales_of := example_sales_db\<lparr>sdb_sales :=
     [\<lparr>sale_customer = 1, sale_at = 50, sale_total = 1000, sale_origin = ''OBSERVED''\<rparr>,
      \<lparr>sale_customer = 2, sale_at = 60, sale_total = 500, sale_origin = ''SEEDED''\<rparr>]\<rparr>\<rparr>"

section \<open>A run that repeats the last one\<close>

lemma open_of_customer:
  "map_of (map (\<lambda>h. (h_customer h, v h)) (filter open_row hs)) c
    = (case filter open_row (rows_of c hs) of [] \<Rightarrow> None | h # _ \<Rightarrow> Some (v h))"
  by (induction hs) (auto simp: rows_of_def)

lemma open_after_run:
  assumes "run_written clock method w out d d'" and "distinct (map a_customer (out_assignments out))"
    and "a \<in> set (out_assignments out)"
  shows "read_open_assignments d' (a_customer a) = Some (a_segment a, a_label a)"
proof -
  let ?cs = "map a_customer (out_assignments out)"
  have "filter open_row (map (close_row (ck_at clock) ?cs) (rows_of (a_customer a) (seg_history d))) = []"
    using assms(3) by (auto simp: filter_empty_conv close_row_def open_row_def rows_of_def)
  then have "filter open_row (rows_of (a_customer a) (seg_history d')) = [as_row (next_run d) (ck_at clock) a]"
    by (simp add: written_rows(1) [OF assms] open_row_def)
  then show ?thesis by (simp add: read_open_assignments_def open_of_customer)
qed

text \<open>
  Repeatability as the operator sees it: a run whose adapter reaches the decisions of the run before
  it, for the same customers, reports that no segment changed, even though it closed and reopened every row.
\<close>

lemma repeated_run_changes_nothing:
  assumes "run_method clock method w (Some ad) False (at_rest d) = (Inr res, s)"
    and "run_method clock' method' w' (Some ad') False s = (Inr res', s')"
    and "ad_decide ad clock (sales_of d) w = Inr out" and "ad_decide ad' clock' (sales_of d) w' = Inr out'"
    and "map (\<lambda>a. (a_customer a, a_segment a, a_label a)) (out_assignments out')
       = map (\<lambda>a. (a_customer a, a_segment a, a_label a)) (out_assignments out)"
  shows "no_segment_changed res'"
proof -
  from run_method_cases [OF assms(1)] obtain d1 where s: "s = at_rest d1"
    and "record_body clock method w ad d = (Inr res, d1)" by auto
  from this(2) have w1: "run_written clock method w out d d1" "distinct (map a_customer (out_assignments out))"
    by (rule record_body_Inr; simp add: assms(3))+
  from run_method_cases [OF assms(2) [unfolded s]] obtain d2 where
    "record_body clock' method' w' ad' d1 = (Inr res', d2)" by auto
  then have res': "res_counts res' = summarise (out_assignments out') (read_open_assignments d1)"
    using assms(4) w1(1) by (elim record_body_Inr) (simp add: run_written_def)
  have "unchanged (read_open_assignments d1) a'" if a': "a' \<in> set (out_assignments out')" for a'
  proof -
    from a' have "(a_customer a', a_segment a', a_label a') \<in> set (map (\<lambda>a. (a_customer a, a_segment a, a_label a)) (out_assignments out))"
      unfolding assms(5) [symmetric] by force
    then obtain a where "a \<in> set (out_assignments out)" "a_customer a' = a_customer a" "a_segment a' = a_segment a" "a_label a' = a_label a"
      by auto
    with open_after_run [OF w1] show ?thesis by (simp add: unchanged_def)
  qed
  then have "filter (\<lambda>a. \<not> unchanged (read_open_assignments d1) a \<and> P a) (out_assignments out') = []" for P
    by (auto simp: filter_empty_conv)
  then show ?thesis
    by (simp add: no_segment_changed_def res' summarise_def Let_def summarise_fold)
qed

definition nobody :: "run_clock \<Rightarrow> sales_db \<Rightarrow> int \<Rightarrow> pipeline_error + method_output" where
  "nobody clock db w = Inr \<lparr>out_assignments = [\<lparr>a_customer = 1, a_label = None, a_segment = None, a_last = None,
     a_frequency = None, a_monetary = None, a_r = None, a_f = None, a_m = None, a_via_fallback = False\<rparr>],
     out_parameters = RulesParameters w 5\<rparr>"

end
