(* ===== verification/Migration.thy ===== *)
theory Migration
  imports Segmentation
begin

text \<open>
  Segment migration between two runs, \<open>web/services/segment_migration.py\<close>, over the rows that the
  pipeline of \<open>Segmentation\<close> writes, with the readers of \<open>web/db/segments.py\<close> it uses. A dictionary read
  from the database is an association list in the order of the rows; its keys are distinct because the
  table's key is (run, customer). A sentence shown to a reader is a constructor with the values the
  f-string interpolates. Instants are microseconds and money is in cents.
\<close>

section \<open>Readers\<close>

definition get_run_at :: "seg_db \<Rightarrow> nat \<Rightarrow> int option" where
  "get_run_at d run = map_option rr_at (find (\<lambda>r. rr_id r = run) (runs d))"

definition list_run_labels :: "seg_db \<Rightarrow> nat \<Rightarrow> (nat \<times> string option) list" where
  "list_run_labels d run = map (\<lambda>h. (h_customer h, h_label h)) (filter (\<lambda>h. h_run h = run) (seg_history d))"

record run_assignment =
  ra_customer :: nat
  ra_name :: string
  ra_segment :: "nat option"
  ra_label :: "string option"
  ra_r :: "int option"
  ra_f :: "int option"
  ra_m :: "int option"
  ra_last_purchase_at :: "int option"
  ra_frequency_count :: "int option"
  ra_monetary_total :: "int option"

text \<open>The names of the customers are a column that no run reads: \<open>name_of\<close> is that column.\<close>

definition run_assignment_of :: "(nat \<Rightarrow> string) \<Rightarrow> history_row \<Rightarrow> run_assignment" where
  "run_assignment_of name_of h =
    \<lparr>ra_customer = h_customer h, ra_name = name_of (h_customer h), ra_segment = h_segment h, ra_label = h_label h,
     ra_r = h_r h, ra_f = h_f h, ra_m = h_m h, ra_last_purchase_at = h_last h, ra_frequency_count = h_frequency h,
     ra_monetary_total = h_monetary h\<rparr>"

definition get_customer_assignment_for_run :: "(nat \<Rightarrow> string) \<Rightarrow> seg_db \<Rightarrow> nat \<Rightarrow> nat \<Rightarrow> run_assignment option" where
  "get_customer_assignment_for_run name_of d run c =
    map_option (run_assignment_of name_of)
      (find (\<lambda>h. h_run h = run \<and> h_customer h = c \<and> c \<in> set (sdb_customers (sales_of d))) (seg_history d))"

text \<open>\<open>collate\<close> is the database's order of names.\<close>

definition list_run_assignments ::
  "(string \<Rightarrow> 'k::linorder) \<Rightarrow> (nat \<Rightarrow> string) \<Rightarrow> seg_db \<Rightarrow> nat \<Rightarrow> nat \<Rightarrow> nat \<Rightarrow> run_assignment list \<times> nat" where
  "list_run_assignments collate name_of d run page per_page =
    (let rows = filter (\<lambda>h. h_run h = run) (seg_history d);
         joined = filter (\<lambda>h. h_customer h \<in> set (sdb_customers (sales_of d))) rows;
         ordered = sort_key (\<lambda>h. (collate (name_of (h_customer h)), h_customer h)) joined
     in (map (run_assignment_of name_of) (take per_page (drop ((page - 1) * per_page) ordered)), length rows))"

section \<open>Classification\<close>

datatype migration_category =
    UNCHANGED
  | MOVED
  | NEWLY_ASSIGNED
  | NEWLY_UNASSIGNED
  | ABSENT_FROM_EARLIER
  | ABSENT_FROM_LATER

datatype direction = IMPROVED | DECLINED

record customer_migration =
  cm_customer :: nat
  cm_before :: "string option"
  cm_after :: "string option"
  cm_category :: migration_category
  cm_direction :: "direction option"

datatype migration_error = UnknownRun nat | UnknownLabel string

definition classify ::
  "string option \<Rightarrow> string option \<Rightarrow> bool \<Rightarrow> bool \<Rightarrow> (string \<times> int) list
    \<Rightarrow> migration_error + migration_category \<times> direction option" where
  "classify label_before label_after in_run_a in_run_b ordinals =
    (if \<not> in_run_a then Inr (ABSENT_FROM_EARLIER, None)
     else if \<not> in_run_b then Inr (ABSENT_FROM_LATER, None)
     else case (label_before, label_after) of
         (None, None) \<Rightarrow> Inr (UNCHANGED, None)
       | (None, Some _) \<Rightarrow> Inr (NEWLY_ASSIGNED, None)
       | (Some _, None) \<Rightarrow> Inr (NEWLY_UNASSIGNED, None)
       | (Some before, Some after) \<Rightarrow>
           if before = after then Inr (UNCHANGED, None)
           else case map_of ordinals before of
               None \<Rightarrow> Inl (UnknownLabel before)
             | Some before_rank \<Rightarrow>
                 (case map_of ordinals after of
                    None \<Rightarrow> Inl (UnknownLabel after)
                  | Some after_rank \<Rightarrow> Inr (MOVED, Some (if after_rank < before_rank then IMPROVED else DECLINED))))"

text \<open>\<open>labels.get(customer)\<close>\<close>

definition label_of :: "(nat \<times> string option) list \<Rightarrow> nat \<Rightarrow> string option" where
  "label_of labels c = (case map_of labels c of None \<Rightarrow> None | Some l \<Rightarrow> l)"

fun classify_loop ::
  "(nat \<times> string option) list \<Rightarrow> (nat \<times> string option) list \<Rightarrow> (string \<times> int) list \<Rightarrow> nat list
    \<Rightarrow> migration_error + customer_migration list" where
  "classify_loop labels_a labels_b ordinals [] = Inr []"
| "classify_loop labels_a labels_b ordinals (c # cs) =
    (case classify (label_of labels_a c) (label_of labels_b c) (c \<in> fst ` set labels_a) (c \<in> fst ` set labels_b) ordinals of
       Inl e \<Rightarrow> Inl e
     | Inr (category, direction) \<Rightarrow>
         (case classify_loop labels_a labels_b ordinals cs of
            Inl e \<Rightarrow> Inl e
          | Inr rest \<Rightarrow>
              Inr (\<lparr>cm_customer = c, cm_before = label_of labels_a c, cm_after = label_of labels_b c,
                    cm_category = category, cm_direction = direction\<rparr> # rest)))"

text \<open>\<open>sorted(set(labels_a) | set(labels_b), key=str)\<close>: the order of the customers' ids.\<close>

definition classify_migration ::
  "(nat \<times> string option) list \<Rightarrow> (nat \<times> string option) list \<Rightarrow> (string \<times> int) list
    \<Rightarrow> migration_error + customer_migration list" where
  "classify_migration labels_a labels_b ordinals =
    classify_loop labels_a labels_b ordinals (sort (remdups (map fst labels_a @ map fst labels_b)))"

definition order_runs :: "seg_db \<Rightarrow> nat \<Rightarrow> nat \<Rightarrow> migration_error + nat \<times> nat" where
  "order_runs d run_a run_b =
    (case get_run_at d run_a of
       None \<Rightarrow> Inl (UnknownRun run_a)
     | Some at_a \<Rightarrow>
         (case get_run_at d run_b of
            None \<Rightarrow> Inl (UnknownRun run_b)
          | Some at_b \<Rightarrow> Inr (if at_a \<le> at_b then (run_a, run_b) else (run_b, run_a))))"

definition compute_migration :: "seg_db \<Rightarrow> nat \<Rightarrow> nat \<Rightarrow> migration_error + customer_migration list" where
  "compute_migration d run_a run_b =
    (case order_runs d run_a run_b of
       Inl e \<Rightarrow> Inl e
     | Inr (earlier, later) \<Rightarrow>
         classify_migration (list_run_labels d earlier) (list_run_labels d later) (get_label_ordinals (sales_of d)))"

section \<open>The matrix\<close>

definition UNASSIGNED :: string where "UNASSIGNED = ''Unassigned''"
definition NOT_IN_EARLIER :: string where "NOT_IN_EARLIER = ''Not in earlier run''"
definition NOT_IN_LATER :: string where "NOT_IN_LATER = ''Not in later run''"

type_synonym 'a grid = "string \<rightharpoonup> string \<rightharpoonup> 'a"

record migration_matrix =
  row_labels :: "string list"
  column_labels :: "string list"
  mm_cells :: "nat grid"
  row_totals :: "string \<rightharpoonup> nat"
  column_totals :: "string \<rightharpoonup> nat"
  cell_migrations :: "customer_migration list grid"

definition migration_cell_labels :: "customer_migration \<Rightarrow> string \<times> string" where
  "migration_cell_labels m =
    (if cm_category m = ABSENT_FROM_EARLIER then NOT_IN_EARLIER
     else case cm_before m of None \<Rightarrow> UNASSIGNED | Some l \<Rightarrow> l,
     if cm_category m = ABSENT_FROM_LATER then NOT_IN_LATER
     else case cm_after m of None \<Rightarrow> UNASSIGNED | Some l \<Rightarrow> l)"

text \<open>\<open>{row: {column: x for column in columns} for row in rows}\<close>, and \<open>grid[row][column] = f(grid[row][column])\<close>,
  a \<open>KeyError\<close> outside the grid.\<close>

definition new_grid :: "string list \<Rightarrow> string list \<Rightarrow> 'a \<Rightarrow> 'a grid" where
  "new_grid rs cs x = (\<lambda>r. if r \<in> set rs then Some (\<lambda>c. if c \<in> set cs then Some x else None) else None)"

definition update_cell :: "string \<Rightarrow> string \<Rightarrow> ('a \<Rightarrow> 'a) \<Rightarrow> 'a grid \<Rightarrow> migration_error + 'a grid" where
  "update_cell r c f grid =
    (case grid r of
       None \<Rightarrow> Inl (UnknownLabel r)
     | Some line \<Rightarrow> (case line c of None \<Rightarrow> Inl (UnknownLabel c) | Some x \<Rightarrow> Inr (grid(r \<mapsto> line(c \<mapsto> f x)))))"

fun fill_grid ::
  "customer_migration list \<Rightarrow> nat grid \<Rightarrow> customer_migration list grid
    \<Rightarrow> migration_error + nat grid \<times> customer_migration list grid" where
  "fill_grid [] cells members = Inr (cells, members)"
| "fill_grid (m # ms) cells members =
    (let (r, c) = migration_cell_labels m
     in case update_cell r c Suc cells of
         Inl e \<Rightarrow> Inl e
       | Inr cells' \<Rightarrow>
           (case update_cell r c (\<lambda>xs. xs @ [m]) members of
              Inl e \<Rightarrow> Inl e
            | Inr members' \<Rightarrow> fill_grid ms cells' members'))"

definition cell :: "'a grid \<Rightarrow> string \<Rightarrow> string \<Rightarrow> 'a option" where
  "cell grid r c = (case grid r of None \<Rightarrow> None | Some line \<Rightarrow> line c)"

text \<open>\<open>sum(cells[row].values())\<close> runs over the keys of the row, each once; the column total runs over \<open>row_labels\<close>.\<close>

definition build_migration_matrix ::
  "customer_migration list \<Rightarrow> (string \<times> int) list \<Rightarrow> migration_error + migration_matrix" where
  "build_migration_matrix migrations ordinals =
    (let ordered_labels = map fst (sort_key snd ordinals);
         rs = ordered_labels @ [UNASSIGNED, NOT_IN_EARLIER];
         cs = ordered_labels @ [UNASSIGNED, NOT_IN_LATER]
     in case fill_grid migrations (new_grid rs cs 0) (new_grid rs cs []) of
         Inl e \<Rightarrow> Inl e
       | Inr (cells, members) \<Rightarrow>
           Inr \<lparr>row_labels = rs, column_labels = cs, mm_cells = cells,
                row_totals = map_of (map (\<lambda>r. (r, sum_list (map (\<lambda>c. the (cell cells r c)) (remdups cs)))) rs),
                column_totals = map_of (map (\<lambda>c. (c, sum_list (map (\<lambda>r. the (cell cells r c)) rs))) cs),
                cell_migrations = members\<rparr>)"

section \<open>Every customer once\<close>

definition run_labels_wf :: "(nat \<times> string option) list \<Rightarrow> bool" where
  "run_labels_wf labels \<longleftrightarrow> distinct (map fst labels)"

definition in_vocabulary :: "(string \<times> int) list \<Rightarrow> (nat \<times> string option) list \<Rightarrow> bool" where
  "in_vocabulary ordinals labels \<longleftrightarrow> (\<forall>(c, l)\<in>set labels. \<forall>x. l = Some x \<longrightarrow> x \<in> fst ` set ordinals)"

lemma label_of_Some: "label_of labels c = Some l \<Longrightarrow> (c, Some l) \<in> set labels"
  by (auto simp: label_of_def split: option.splits dest: map_of_SomeD)

lemma map_of_labels: "run_labels_wf labels \<Longrightarrow> map_of labels c = Some l \<longleftrightarrow> (c, l) \<in> set labels"
  by (simp add: run_labels_wf_def)

lemma label_of_iff: "run_labels_wf labels \<Longrightarrow> label_of labels c = Some l \<longleftrightarrow> (c, Some l) \<in> set labels"
  using map_of_labels [of labels c "Some l"] by (auto simp: label_of_def split: option.splits)

lemma label_of_None_iff:
  "run_labels_wf labels \<Longrightarrow> label_of labels c = None \<and> c \<in> fst ` set labels \<longleftrightarrow> (c, None) \<in> set labels"
  using map_of_labels [of labels c None]
  by (cases "map_of labels c") (auto simp: label_of_def map_of_eq_None_iff dest: map_of_SomeD split: option.splits
    intro: rev_image_eqI)

lemma label_of_known: "in_vocabulary ordinals labels \<Longrightarrow> label_of labels c = Some l \<Longrightarrow> map_of ordinals l \<noteq> None"
  using label_of_Some [of labels c l] by (auto simp: in_vocabulary_def map_of_eq_None_iff)

text \<open>What the classification of one customer means, in the words of \<open>MigrationCategory\<close> and \<open>Direction\<close>.\<close>

definition classified_as_defined ::
  "(nat \<times> string option) list \<Rightarrow> (nat \<times> string option) list \<Rightarrow> (string \<times> int) list \<Rightarrow> customer_migration \<Rightarrow> bool" where
  "classified_as_defined a b ordinals m \<longleftrightarrow>
    (let c = cm_customer m; p = c \<in> fst ` set a; q = c \<in> fst ` set b; x = label_of a c; y = label_of b c; cat = cm_category m
     in cm_before m = x \<and> cm_after m = y
       \<and> (cat = ABSENT_FROM_EARLIER \<longleftrightarrow> \<not> p) \<and> (cat = ABSENT_FROM_LATER \<longleftrightarrow> p \<and> \<not> q)
       \<and> (cat = NEWLY_ASSIGNED \<longleftrightarrow> p \<and> q \<and> x = None \<and> y \<noteq> None)
       \<and> (cat = NEWLY_UNASSIGNED \<longleftrightarrow> p \<and> q \<and> x \<noteq> None \<and> y = None)
       \<and> (cat = UNCHANGED \<longleftrightarrow> p \<and> q \<and> x = y)
       \<and> (cm_direction m \<noteq> None \<longleftrightarrow> cat = MOVED)
       \<and> (cm_direction m = Some IMPROVED \<longleftrightarrow> cat = MOVED \<and> the (map_of ordinals (the y)) < the (map_of ordinals (the x))))"

definition migration_of ::
  "(nat \<times> string option) list \<Rightarrow> (nat \<times> string option) list \<Rightarrow> (string \<times> int) list \<Rightarrow> nat \<Rightarrow> customer_migration" where
  "migration_of a b ordinals c =
    (let r = projr (classify (label_of a c) (label_of b c) (c \<in> fst ` set a) (c \<in> fst ` set b) ordinals)
     in \<lparr>cm_customer = c, cm_before = label_of a c, cm_after = label_of b c, cm_category = fst r, cm_direction = snd r\<rparr>)"

lemma cm_customer_migration_of [simp]: "cm_customer (migration_of a b ordinals c) = c"
  by (simp add: migration_of_def Let_def)

lemma classify_loop_ok:
  assumes "\<forall>c\<in>set cs. \<exists>r. classify (label_of a c) (label_of b c) (c \<in> fst ` set a) (c \<in> fst ` set b) ordinals = Inr r"
  shows "classify_loop a b ordinals cs = Inr (map (migration_of a b ordinals) cs)"
  using assms by (induction cs) (auto simp: migration_of_def Let_def)

lemma classify_known:
  assumes "\<forall>l. x = Some l \<longrightarrow> map_of ordinals l \<noteq> None" and "\<forall>l. y = Some l \<longrightarrow> map_of ordinals l \<noteq> None"
  shows "\<exists>r. classify x y p q ordinals = Inr r"
  using assms by (auto simp: classify_def split: option.splits)

lemma classify_migration_ok:
  assumes "in_vocabulary ordinals a" and "in_vocabulary ordinals b"
  shows "classify_migration a b ordinals =
    Inr (map (migration_of a b ordinals) (sorted_list_of_set (fst ` set a \<union> fst ` set b)))"
  unfolding classify_migration_def using assms
  by (subst classify_loop_ok; (intro ballI classify_known allI impI)?)
    (auto simp: sorted_list_of_set_sort_remdups [symmetric] simp del: sorted_list_of_set_sort_remdups dest: label_of_known)

lemma classify_category:
  assumes "classify x y p q ordinals = Inr (cat, dir)"
  shows "cat = ABSENT_FROM_EARLIER \<longleftrightarrow> \<not> p"
    and "cat = ABSENT_FROM_LATER \<longleftrightarrow> p \<and> \<not> q"
    and "cat = NEWLY_ASSIGNED \<longleftrightarrow> p \<and> q \<and> x = None \<and> y \<noteq> None"
    and "cat = NEWLY_UNASSIGNED \<longleftrightarrow> p \<and> q \<and> x \<noteq> None \<and> y = None"
    and "cat = UNCHANGED \<longleftrightarrow> p \<and> q \<and> x = y"
    and "dir \<noteq> None \<longleftrightarrow> cat = MOVED"
    and "dir = Some IMPROVED \<longleftrightarrow> cat = MOVED \<and> the (map_of ordinals (the y)) < the (map_of ordinals (the x))"
  using assms by (auto simp: classify_def split: if_splits option.splits)

lemma migration_of_classified:
  assumes "in_vocabulary ordinals a" and "in_vocabulary ordinals b"
  shows "classified_as_defined a b ordinals (migration_of a b ordinals c)"
proof -
  obtain r where r: "classify (label_of a c) (label_of b c) (c \<in> fst ` set a) (c \<in> fst ` set b) ordinals = Inr r"
    using classify_known label_of_known assms by metis
  obtain cat dir where "r = (cat, dir)" by (cases r)
  with classify_category [OF r [unfolded this]] r show ?thesis
    by (simp add: classified_as_defined_def migration_of_def Let_def)
qed

text \<open>
  Every customer of either run is classified exactly once, in the order of the ids, by the stable label
  alone: with both runs in the vocabulary nothing is refused, the category is the one its definition names,
  and only a customer that moved has a direction, improved exactly when the later label ranks better.
\<close>

lemma migration_classifies_everyone:
  assumes "in_vocabulary ordinals a" and "in_vocabulary ordinals b"
  shows "\<exists>ms. classify_migration a b ordinals = Inr ms
    \<and> map cm_customer ms = sorted_list_of_set (fst ` set a \<union> fst ` set b)
    \<and> (\<forall>m\<in>set ms. classified_as_defined a b ordinals m)"
  by (intro exI conjI ballI) (auto simp: classify_migration_ok [OF assms] comp_def intro: migration_of_classified [OF assms])

definition example_ordinals :: "(string \<times> int) list" where
  "example_ordinals = [(''GOLD'', 1), (''SILVER'', 2)]"

section \<open>Swapping the runs\<close>

fun reversed_category :: "migration_category \<Rightarrow> migration_category" where
  "reversed_category NEWLY_ASSIGNED = NEWLY_UNASSIGNED"
| "reversed_category NEWLY_UNASSIGNED = NEWLY_ASSIGNED"
| "reversed_category ABSENT_FROM_EARLIER = ABSENT_FROM_LATER"
| "reversed_category ABSENT_FROM_LATER = ABSENT_FROM_EARLIER"
| "reversed_category cat = cat"

fun reversed_direction :: "direction \<Rightarrow> direction" where
  "reversed_direction IMPROVED = DECLINED"
| "reversed_direction DECLINED = IMPROVED"

definition reversed_migration :: "customer_migration \<Rightarrow> customer_migration" where
  "reversed_migration m = \<lparr>cm_customer = cm_customer m, cm_before = cm_after m, cm_after = cm_before m,
     cm_category = reversed_category (cm_category m), cm_direction = map_option reversed_direction (cm_direction m)\<rparr>"

lemma distinct_ranks:
  assumes "distinct (map fst ordinals)" and "distinct (map snd ordinals)"
    and "map_of ordinals x = Some r" and "map_of ordinals y = Some r"
  shows "x = y"
  using assms by (metis distinct_map inj_on_eq_iff map_of_SomeD prod.inject snd_conv)

lemma classify_reversed:
  assumes "distinct (map fst ordinals)" and "distinct (map snd ordinals)" and "p \<or> q"
    and "classify x y p q ordinals = Inr (cat, dir)" and "\<not> p \<Longrightarrow> x = None" and "\<not> q \<Longrightarrow> y = None"
  shows "classify y x q p ordinals = Inr (reversed_category cat, map_option reversed_direction dir)"
  using assms(3-6) distinct_ranks [OF assms(1,2)]
  by (auto simp: classify_def split: if_splits option.splits)

text \<open>
  Read backwards, a migration is its reverse: with the ranks of the vocabulary distinct, the comparison of
  the later run with the earlier one lists the same customers with the labels swapped, newly assigned
  against newly unassigned, absent from one run against absent from the other, improved against declined.
\<close>

lemma swapped_runs_reverse_the_migration:
  assumes "distinct (map fst ordinals)" and "distinct (map snd ordinals)"
    and "in_vocabulary ordinals a" and "in_vocabulary ordinals b" and "classify_migration a b ordinals = Inr ms"
  shows "classify_migration b a ordinals = Inr (map reversed_migration ms)"
proof -
  have "migration_of b a ordinals c = reversed_migration (migration_of a b ordinals c)" if "c \<in> fst ` set a \<union> fst ` set b" for c
  proof -
    obtain r where r: "classify (label_of a c) (label_of b c) (c \<in> fst ` set a) (c \<in> fst ` set b) ordinals = Inr r"
      using classify_known label_of_known assms(3,4) by metis
    obtain cat dir where cd: "r = (cat, dir)" by (cases r)
    have absent: "c \<notin> fst ` set labels \<Longrightarrow> label_of labels c = None" for labels :: "(nat \<times> string option) list"
      by (simp add: label_of_def map_of_eq_None_iff [THEN iffD2])
    have "classify (label_of b c) (label_of a c) (c \<in> fst ` set b) (c \<in> fst ` set a) ordinals
        = Inr (reversed_category cat, map_option reversed_direction dir)"
      by (rule classify_reversed [OF assms(1,2) _ r [unfolded cd]]) (use that in \<open>simp_all add: absent\<close>)
    with r show ?thesis by (simp add: migration_of_def reversed_migration_def cd Let_def)
  qed
  with assms show ?thesis
    by (auto simp: classify_migration_ok Un_commute [of "fst ` set b"] intro!: map_cong)
qed

section \<open>The runs the pipeline recorded\<close>

text \<open>What the constraints of the history keep: labels of the vocabulary, and one row per run and customer.\<close>

definition recorded_wf :: "seg_db \<Rightarrow> bool" where
  "recorded_wf d \<longleftrightarrow> (\<forall>h\<in>set (seg_history d). \<forall>l. h_label h = Some l \<longrightarrow> l \<in> fst ` set (sdb_labels (sales_of d)))
     \<and> distinct (map (\<lambda>h. (h_run h, h_customer h)) (seg_history d))"

lemma row_accepted:
  assumes "recorded_wf d" and "row_refused d row = None"
  shows "recorded_wf (d\<lparr>seg_history := seg_history d @ [row]\<rparr>)"
proof -
  have "\<forall>l. h_label row = Some l \<longrightarrow> l \<in> fst ` set (sdb_labels (sales_of d))"
    using assms(2) by (auto simp: row_refused_def column_refused_def split: if_splits option.splits)
  moreover have "(h_run row, h_customer row) \<notin> (\<lambda>h. (h_run h, h_customer h)) ` set (seg_history d)"
    using assms(2) by (auto simp: row_refused_def split: if_splits option.splits)
  ultimately show ?thesis using assms(1) by (auto simp: recorded_wf_def)
qed

lemma insert_assignments_recorded:
  "recorded_wf d \<Longrightarrow> insert_assignments rows d = (Inr u, d') \<Longrightarrow> recorded_wf d'"
  by (induction rows arbitrary: d) (auto split: option.splits dest: row_accepted)

lemma close_open_recorded: "recorded_wf d \<Longrightarrow> close_open_assignments cs tm d = (Inr u, d') \<Longrightarrow> recorded_wf d'"
  by (auto simp: close_open_assignments_def recorded_wf_def comp_def split: if_splits)

lemma create_run_recorded: "recorded_wf d \<Longrightarrow> create_run clock m w ps n d = (Inr r, d') \<Longrightarrow> recorded_wf d'"
  by (auto simp: create_run_def recorded_wf_def Let_def split: if_splits)

lemma announce_run_recorded: "recorded_wf d \<Longrightarrow> announce_run now run d = (Inr u, d') \<Longrightarrow> recorded_wf d'"
  by (auto simp: announce_run_def recorded_wf_def split: prod.splits sum.splits)

lemma record_body_recorded:
  assumes "recorded_wf d" and "record_body clock m w ad d = (Inr res, d')"
  shows "recorded_wf d'"
proof -
  from assms(2) obtain out :: method_output and as d1 d2 d3 run origin where
    "create_run clock m w (out_parameters out) (length as) d = (Inr (run, origin), d1)"
    and "close_open_assignments (map a_customer as) (ck_at clock) d1 = (Inr (), d2)"
    and "insert_assignments (map (as_row run (ck_at clock)) as) d2 = (Inr (), d3)"
    and "announce_run (ck_now clock) run d3 = (Inr (), d')"
    by (auto simp: record_body_def Let_def split: sum.splits prod.splits)
  with assms(1) show ?thesis
    using create_run_recorded close_open_recorded insert_assignments_recorded announce_run_recorded by metis
qed

interpretation recorded_run: stepwise seg_step recorded_wf
proof
  fix d :: seg_db and e :: run_request
  assume inv: "recorded_wf d"
  obtain clock mth w ad where e: "e = (clock, mth, w, ad)" by (cases e)
  obtain r s where run: "run_method clock mth w ad False (at_rest d) = (r, s)" by fastforce
  from run_method_cases [OF run] show "recorded_wf (seg_step e d)"
    using inv record_body_recorded by (auto simp: e run)
qed

lemma run_labels_recorded:
  assumes "recorded_wf d"
  shows "in_vocabulary (get_label_ordinals (sales_of d)) (list_run_labels d run)" and "run_labels_wf (list_run_labels d run)"
proof -
  show "in_vocabulary (get_label_ordinals (sales_of d)) (list_run_labels d run)"
    using assms by (auto simp: in_vocabulary_def get_label_ordinals_def list_run_labels_def recorded_wf_def)
  have "distinct (map (\<lambda>h. (h_run h, h_customer h)) (filter (\<lambda>h. h_run h = run) (seg_history d)))"
    using assms by (simp add: recorded_wf_def distinct_map_filter)
  then have "distinct (map h_customer (filter (\<lambda>h. h_run h = run) (seg_history d)))"
    by (auto simp: distinct_map inj_on_def)
  then show "run_labels_wf (list_run_labels d run)"
    by (simp add: run_labels_wf_def list_run_labels_def comp_def)
qed

lemma compute_migration_known:
  assumes "recorded_wf d" and "get_run_at d a = Some ta" and "get_run_at d b = Some tb"
  shows "\<exists>ms. compute_migration d a b = Inr ms
      \<and> classify_migration (list_run_labels d (if ta \<le> tb then a else b)) (list_run_labels d (if ta \<le> tb then b else a))
          (get_label_ordinals (sales_of d)) = Inr ms
      \<and> map cm_customer ms = sorted_list_of_set (fst ` set (list_run_labels d a) \<union> fst ` set (list_run_labels d b))"
  using assms run_labels_recorded(1) [OF assms(1)]
  by (auto simp: compute_migration_def order_runs_def classify_migration_ok comp_def Un_commute)

text \<open>
  C31. Any two runs the pipeline recorded can be compared: whatever runs were requested before, the comparison
  of two existing runs is never refused, covers every customer either of them scored, once each, and does
  not depend on the order the two are named in when they were recorded at different instants. A run that
  does not exist is refused by its id.
\<close>

theorem recorded_runs_compare:
  assumes "recorded_wf d" and "d' = fold seg_step requests d"
  shows "case (get_run_at d' a, get_run_at d' b) of
      (None, _) \<Rightarrow> compute_migration d' a b = Inl (UnknownRun a)
    | (Some _, None) \<Rightarrow> compute_migration d' a b = Inl (UnknownRun b)
    | (Some ta, Some tb) \<Rightarrow> (\<exists>ms. compute_migration d' a b = Inr ms
        \<and> map cm_customer ms = sorted_list_of_set (fst ` set (list_run_labels d' a) \<union> fst ` set (list_run_labels d' b))
        \<and> (ta \<noteq> tb \<longrightarrow> compute_migration d' b a = Inr ms))"
proof (cases "get_run_at d' a")
  case None
  then show ?thesis by (simp add: compute_migration_def order_runs_def)
next
  case ta: (Some ta)
  show ?thesis
  proof (cases "get_run_at d' b")
    case None
    with ta show ?thesis by (simp add: compute_migration_def order_runs_def)
  next
    case tb: (Some tb)
    have wf: "recorded_wf d'" unfolding assms(2) by (rule recorded_run.run_inv [OF assms(1)])
    have "ta \<noteq> tb \<Longrightarrow> compute_migration d' b a = compute_migration d' a b"
      by (auto simp: compute_migration_def order_runs_def ta tb)
    with compute_migration_known [OF wf ta tb] show ?thesis
      unfolding ta tb option.case prod.case by metis
  qed
qed

theorem recorded_runs_compare_witness:
  "\<exists>d'. d' = fold seg_step [(example_clock, ''RFM_RULES'', 30, None), (example_clock\<lparr>ck_at := 205\<rparr>, ''RFM_RULES'', 30, None)] example_seg_db
    \<and> (case (get_run_at d' 1, get_run_at d' 2) of
        (None, _) \<Rightarrow> compute_migration d' 1 2 = Inl (UnknownRun 1)
      | (Some _, None) \<Rightarrow> compute_migration d' 1 2 = Inl (UnknownRun 2)
      | (Some ta, Some tb) \<Rightarrow> (\<exists>ms. compute_migration d' 1 2 = Inr ms
          \<and> map cm_customer ms = sorted_list_of_set (fst ` set (list_run_labels d' 1) \<union> fst ` set (list_run_labels d' 2))
          \<and> (ta \<noteq> tb \<longrightarrow> compute_migration d' 2 1 = Inr ms)))"
proof -
  have "recorded_wf example_seg_db" by (simp add: recorded_wf_def example_seg_db_def)
  from recorded_runs_compare [OF this refl] show ?thesis by blast
qed

section \<open>The matrix reconciles\<close>

lemma update_cell_Inr:
  assumes "cell grid r c = Some x"
  shows "\<exists>grid'. update_cell r c f grid = Inr grid'
    \<and> (\<forall>r' c'. cell grid' r' c' = (if r' = r \<and> c' = c then Some (f x) else cell grid r' c'))"
  using assms by (auto simp: update_cell_def cell_def split: option.splits)

lemma cell_new_grid: "cell (new_grid rs cs x) r c = (if r \<in> set rs \<and> c \<in> set cs then Some x else None)"
  by (simp add: cell_def new_grid_def)

lemma fill_grid_Inr:
  assumes "\<forall>m\<in>set ms. cell cells (fst (migration_cell_labels m)) (snd (migration_cell_labels m)) \<noteq> None"
    and "\<forall>r c. cell cells r c = None \<longleftrightarrow> cell members r c = None"
  shows "\<exists>cells' members'. fill_grid ms cells members = Inr (cells', members')
    \<and> (\<forall>r c. cell cells' r c = map_option (\<lambda>n. n + length (filter (\<lambda>m. migration_cell_labels m = (r, c)) ms)) (cell cells r c))
    \<and> (\<forall>r c. cell members' r c = map_option (\<lambda>xs. xs @ filter (\<lambda>m. migration_cell_labels m = (r, c)) ms) (cell members r c))"
  using assms
proof (induction ms arbitrary: cells members)
  case Nil
  then show ?case by (simp add: option.map_ident)
next
  case (Cons m ms)
  obtain r c where rc: "migration_cell_labels m = (r, c)" by (cases "migration_cell_labels m")
  from Cons.prems rc obtain x xs where x: "cell cells r c = Some x" "cell members r c = Some xs"
    by (cases "cell cells r c"; cases "cell members r c") auto
  obtain cells' where c': "update_cell r c Suc cells = Inr cells'"
    "\<And>r' c'. cell cells' r' c' = (if r' = r \<and> c' = c then Some (Suc x) else cell cells r' c')"
    using update_cell_Inr [OF x(1), of Suc] by blast
  obtain members' where m': "update_cell r c (\<lambda>xs. xs @ [m]) members = Inr members'"
    "\<And>r' c'. cell members' r' c' = (if r' = r \<and> c' = c then Some (xs @ [m]) else cell members r' c')"
    using update_cell_Inr [OF x(2), of "\<lambda>xs. xs @ [m]"] by blast
  have inside: "\<forall>m\<in>set ms. cell cells' (fst (migration_cell_labels m)) (snd (migration_cell_labels m)) \<noteq> None"
    using Cons.prems(1) by (simp add: c'(2))
  have "\<forall>r c. cell cells' r c = None \<longleftrightarrow> cell members' r c = None"
    using Cons.prems(2) by (simp add: c'(2) m'(2))
  from Cons.IH [OF inside this] obtain cs2 ms2 where IH: "fill_grid ms cells' members' = Inr (cs2, ms2)"
    "\<forall>r c. cell cs2 r c = map_option (\<lambda>n. n + length (filter (\<lambda>m. migration_cell_labels m = (r, c)) ms)) (cell cells' r c)"
    "\<forall>r c. cell ms2 r c = map_option (\<lambda>xs. xs @ filter (\<lambda>m. migration_cell_labels m = (r, c)) ms) (cell members' r c)"
    by blast
  have "fill_grid (m # ms) cells members = Inr (cs2, ms2)" by (simp add: rc c'(1) m'(1) IH(1))
  then show ?case using IH(2,3) x by (auto simp: c'(2) m'(2) rc)
qed

lemma sum_list_partition:
  assumes "distinct cs" and "\<forall>x\<in>set xs. P x \<longrightarrow> f x \<in> set cs"
  shows "(\<Sum>c\<leftarrow>cs. length (filter (\<lambda>x. P x \<and> f x = c) xs)) = length (filter P xs)"
  using assms(2)
proof (induction xs)
  case Nil
  show ?case by (induction cs) simp_all
next
  case (Cons x xs)
  have "(\<Sum>c\<leftarrow>cs. if P x \<and> f x = c then 1 else 0) = (if P x then 1 else (0::nat))"
  proof (cases "P x")
    case True
    with Cons.prems have "f x \<in> set cs" by simp
    with assms(1) True show ?thesis by (induction cs) (auto simp: sum_list_0 cong: map_cong)
  qed (induction cs; simp)
  moreover have "length (filter (\<lambda>y. P y \<and> f y = c) (x # xs))
      = (if P x \<and> f x = c then 1 else 0) + length (filter (\<lambda>y. P y \<and> f y = c) xs)" for c by simp
  ultimately show ?case using Cons by (simp add: sum_list_addf)
qed

text \<open>The vocabulary of the labels, without the names the matrix adds to it.\<close>

definition vocabulary_ok :: "(string \<times> int) list \<Rightarrow> bool" where
  "vocabulary_ok ordinals \<longleftrightarrow> distinct (map fst ordinals)
     \<and> {UNASSIGNED, NOT_IN_EARLIER, NOT_IN_LATER} \<inter> fst ` set ordinals = {}"

lemma matrix_names [simp]: "UNASSIGNED \<noteq> NOT_IN_EARLIER" "UNASSIGNED \<noteq> NOT_IN_LATER" "NOT_IN_EARLIER \<noteq> NOT_IN_LATER"
  "NOT_IN_EARLIER \<noteq> UNASSIGNED" "NOT_IN_LATER \<noteq> UNASSIGNED" "NOT_IN_LATER \<noteq> NOT_IN_EARLIER"
  by (simp_all add: UNASSIGNED_def NOT_IN_EARLIER_def NOT_IN_LATER_def)

lemma build_migration_matrix_ok:
  assumes "vocabulary_ok ordinals"
    and "\<forall>m\<in>set ms. (\<forall>l. cm_before m = Some l \<longrightarrow> l \<in> fst ` set ordinals) \<and> (\<forall>l. cm_after m = Some l \<longrightarrow> l \<in> fst ` set ordinals)"
  shows "\<exists>mx. build_migration_matrix ms ordinals = Inr mx
    \<and> (\<forall>r\<in>set (row_labels mx). row_totals mx r = Some (length (filter (\<lambda>m. fst (migration_cell_labels m) = r) ms)))
    \<and> (\<forall>c\<in>set (column_labels mx). column_totals mx c = Some (length (filter (\<lambda>m. snd (migration_cell_labels m) = c) ms)))
    \<and> (\<forall>r\<in>set (row_labels mx). \<forall>c\<in>set (column_labels mx).
          cell (cell_migrations mx) r c = Some (filter (\<lambda>m. migration_cell_labels m = (r, c)) ms)
        \<and> cell (mm_cells mx) r c = Some (length (filter (\<lambda>m. migration_cell_labels m = (r, c)) ms)))
    \<and> row_labels mx = map fst (sort_key snd ordinals) @ [UNASSIGNED, NOT_IN_EARLIER]
    \<and> column_labels mx = map fst (sort_key snd ordinals) @ [UNASSIGNED, NOT_IN_LATER]"
proof -
  let ?rs = "map fst (sort_key snd ordinals) @ [UNASSIGNED, NOT_IN_EARLIER]"
  let ?cs = "map fst (sort_key snd ordinals) @ [UNASSIGNED, NOT_IN_LATER]"
  let ?R = "\<lambda>m. fst (migration_cell_labels m)" and ?C = "\<lambda>m. snd (migration_cell_labels m)"
  have d: "distinct ?rs" "distinct ?cs"
    using assms(1) by (auto simp: vocabulary_ok_def distinct_map_sort_key)
  have inside: "\<forall>m\<in>set ms. ?R m \<in> set ?rs \<and> ?C m \<in> set ?cs"
    using assms(2) by (auto simp: migration_cell_labels_def split: option.splits)
  have "\<forall>m\<in>set ms. cell (new_grid ?rs ?cs (0 :: nat)) (?R m) (?C m) \<noteq> None"
    using inside by (simp add: cell_new_grid del: set_append)
  moreover have "\<forall>r c. cell (new_grid ?rs ?cs (0 :: nat)) r c = None \<longleftrightarrow> cell (new_grid ?rs ?cs ([] :: customer_migration list)) r c = None"
    by (simp add: cell_new_grid del: set_append)
  ultimately obtain cells members where fg: "fill_grid ms (new_grid ?rs ?cs 0) (new_grid ?rs ?cs []) = Inr (cells, members)"
    "\<forall>r c. cell cells r c = map_option (\<lambda>n. n + length (filter (\<lambda>m. migration_cell_labels m = (r, c)) ms)) (cell (new_grid ?rs ?cs 0) r c)"
    "\<forall>r c. cell members r c = map_option (\<lambda>xs. xs @ filter (\<lambda>m. migration_cell_labels m = (r, c)) ms) (cell (new_grid ?rs ?cs []) r c)"
    using fill_grid_Inr [of ms "new_grid ?rs ?cs 0" "new_grid ?rs ?cs []"] by blast
  have cells: "r \<in> set ?rs \<Longrightarrow> c \<in> set ?cs \<Longrightarrow> cell cells r c = Some (length (filter (\<lambda>m. ?R m = r \<and> ?C m = c) ms))"
    and members: "r \<in> set ?rs \<Longrightarrow> c \<in> set ?cs \<Longrightarrow> cell members r c = Some (filter (\<lambda>m. ?R m = r \<and> ?C m = c) ms)" for r c
    using fg(2,3) by (simp_all add: cell_new_grid prod_eq_iff del: set_append)
  have rows: "sum_list (map (\<lambda>c. the (cell cells r c)) (remdups ?cs)) = length (filter (\<lambda>m. ?R m = r) ms)" if "r \<in> set ?rs" for r
  proof -
    have "sum_list (map (\<lambda>c. the (cell cells r c)) (remdups ?cs)) = (\<Sum>c\<leftarrow>?cs. length (filter (\<lambda>m. ?R m = r \<and> ?C m = c) ms))"
      unfolding distinct_remdups_id [OF d(2)] by (rule arg_cong [where f = sum_list]) (rule map_cong; simp add: cells that del: set_append map_append)
    with sum_list_partition [OF d(2), of ms "\<lambda>m. ?R m = r" ?C] inside show ?thesis by simp
  qed
  have columns: "sum_list (map (\<lambda>r. the (cell cells r c)) ?rs) = length (filter (\<lambda>m. ?C m = c) ms)" if "c \<in> set ?cs" for c
  proof -
    have "sum_list (map (\<lambda>r. the (cell cells r c)) ?rs) = (\<Sum>r\<leftarrow>?rs. length (filter (\<lambda>m. ?C m = c \<and> ?R m = r) ms))"
      by (rule arg_cong [where f = sum_list]) (rule map_cong; simp add: cells that conj_commute del: set_append map_append)
    with sum_list_partition [OF d(1), of ms "\<lambda>m. ?C m = c" ?R] inside show ?thesis by simp
  qed
  have mx: "build_migration_matrix ms ordinals = Inr \<lparr>row_labels = ?rs, column_labels = ?cs, mm_cells = cells,
      row_totals = map_of (map (\<lambda>r. (r, sum_list (map (\<lambda>c. the (cell cells r c)) (remdups ?cs)))) ?rs),
      column_totals = map_of (map (\<lambda>c. (c, sum_list (map (\<lambda>r. the (cell cells r c)) ?rs))) ?cs), cell_migrations = members\<rparr>"
    unfolding build_migration_matrix_def Let_def fg(1) by simp
  show ?thesis
    by (rule exI, rule conjI, rule mx)
      (simp add: map_of_map_restrict rows columns cells members prod_eq_iff del: map_append set_append)
qed

lemma count_labels:
  assumes "run_labels_wf labels"
  shows "length (filter (\<lambda>p. snd p = x) labels) = card {c. (c, x) \<in> set labels}"
proof -
  have "length (filter (\<lambda>p. snd p = x) labels) = card (set (map fst (filter (\<lambda>p. snd p = x) labels)))"
    using assms by (metis (no_types) distinct_card distinct_map_filter length_map run_labels_wf_def)
  also have "set (map fst (filter (\<lambda>p. snd p = x) labels)) = {c. (c, x) \<in> set labels}" by force
  finally show ?thesis .
qed

lemma count_classified:
  assumes "in_vocabulary ordinals a" and "in_vocabulary ordinals b" and "classify_migration a b ordinals = Inr ms"
  shows "length (filter P ms) = card {c \<in> fst ` set a \<union> fst ` set b. P (migration_of a b ordinals c)}"
proof -
  have ms: "ms = map (migration_of a b ordinals) (sorted_list_of_set (fst ` set a \<union> fst ` set b))"
    using assms(3) by (simp add: classify_migration_ok [OF assms(1,2)])
  have "length (filter P ms) = length (filter (\<lambda>c. P (migration_of a b ordinals c)) (sorted_list_of_set (fst ` set a \<union> fst ` set b)))"
    by (simp add: ms filter_map comp_def)
  also have "\<dots> = card ({c. P (migration_of a b ordinals c)} \<inter> set (sorted_list_of_set (fst ` set a \<union> fst ` set b)))"
    by (rule distinct_length_filter) simp
  finally show ?thesis by (simp add: Int_def conj_commute)
qed

lemma cell_of_migration:
  assumes "in_vocabulary ordinals a" and "in_vocabulary ordinals b"
  shows "fst (migration_cell_labels (migration_of a b ordinals c)) =
      (if c \<notin> fst ` set a then NOT_IN_EARLIER else case label_of a c of None \<Rightarrow> UNASSIGNED | Some l \<Rightarrow> l)"
    and "c \<in> fst ` set a \<union> fst ` set b \<Longrightarrow> snd (migration_cell_labels (migration_of a b ordinals c)) =
      (if c \<notin> fst ` set b then NOT_IN_LATER else case label_of b c of None \<Rightarrow> UNASSIGNED | Some l \<Rightarrow> l)"
  using migration_of_classified [OF assms, of c]
  by (auto simp: migration_cell_labels_def classified_as_defined_def Let_def simp del: cm_customer_migration_of
      simp: cm_customer_migration_of [of a b ordinals c])

lemma row_count:
  assumes "vocabulary_ok ordinals" and "in_vocabulary ordinals labels" and "run_labels_wf labels"
    and "nowhere \<in> {NOT_IN_EARLIER, NOT_IN_LATER}" and "fst ` set labels \<subseteq> U"
    and "\<And>c. c \<in> U \<Longrightarrow> row c = (if c \<notin> fst ` set labels then nowhere else case label_of labels c of None \<Rightarrow> UNASSIGNED | Some l \<Rightarrow> l)"
  shows "l \<in> fst ` set ordinals \<Longrightarrow> card {c \<in> U. row c = l} = length (filter (\<lambda>p. snd p = Some l) labels)"
    and "card {c \<in> U. row c = UNASSIGNED} = length (filter (\<lambda>p. snd p = None) labels)"
    and "card {c \<in> U. row c = nowhere} = card (U - fst ` set labels)"
proof -
  have known: "label_of labels c = Some l \<Longrightarrow> l \<in> fst ` set ordinals" for c l
    using label_of_known [OF assms(2)] by (metis map_of_eq_None_iff)
  have names: "l \<in> fst ` set ordinals \<Longrightarrow> l \<noteq> UNASSIGNED \<and> l \<noteq> nowhere" for l
    using assms(1,4) unfolding vocabulary_ok_def by blast
  have other: "nowhere \<noteq> UNASSIGNED" using assms(4) by auto
  have scored: "label_of labels c = Some l \<Longrightarrow> c \<in> U \<and> c \<in> fst ` set labels" for c l
    using label_of_Some [of labels c l] assms(5) by force
  have "c \<in> U \<and> row c = l \<longleftrightarrow> (c, Some l) \<in> set labels" if "l \<in> fst ` set ordinals" for c l
    unfolding label_of_iff [OF assms(3), symmetric]
    using assms(6) [of c] names [OF that] scored [of c] by (cases "label_of labels c") (auto split: if_splits)
  then show "l \<in> fst ` set ordinals \<Longrightarrow> card {c \<in> U. row c = l} = length (filter (\<lambda>p. snd p = Some l) labels)"
    by (simp add: count_labels [OF assms(3)])
  have "c \<in> U \<and> row c = UNASSIGNED \<longleftrightarrow> (c, None) \<in> set labels" for c
  proof (cases "c \<in> fst ` set labels")
    case True
    with assms(5) have "c \<in> U" by blast
    with True assms(6) [of c] names known [of c] show ?thesis
      unfolding label_of_None_iff [OF assms(3), symmetric] by (cases "label_of labels c") simp_all
  next
    case False
    with assms(6) [of c] other show ?thesis
      unfolding label_of_None_iff [OF assms(3), symmetric] by simp
  qed
  then show "card {c \<in> U. row c = UNASSIGNED} = length (filter (\<lambda>p. snd p = None) labels)"
    by (simp add: count_labels [OF assms(3)])
  have "c \<in> U \<Longrightarrow> row c = nowhere \<longleftrightarrow> c \<notin> fst ` set labels" for c
    using assms(6) names known other by (cases "label_of labels c") auto
  then have "{c \<in> U. row c = nowhere} = U - fst ` set labels" by blast
  then show "card {c \<in> U. row c = nowhere} = card (U - fst ` set labels)" by simp
qed

text \<open>
  C24. The matrix reconciles with both runs even when they scored different customers: the total of a label's row
  is the number of customers the earlier run gave that label, the Unassigned row those it left unassigned, the
  last row those it did not score; the columns say the same of the later run; every cell counts exactly the
  members it lists; and the rows together count every customer once.
\<close>

theorem matrix_reconciles:
  assumes "vocabulary_ok ordinals" and "in_vocabulary ordinals a" and "in_vocabulary ordinals b"
    and "run_labels_wf a" and "run_labels_wf b" and "classify_migration a b ordinals = Inr ms"
  shows "\<exists>mx. build_migration_matrix ms ordinals = Inr mx
    \<and> (\<forall>l\<in>fst ` set ordinals. row_totals mx l = Some (length (filter (\<lambda>p. snd p = Some l) a))
          \<and> column_totals mx l = Some (length (filter (\<lambda>p. snd p = Some l) b)))
    \<and> row_totals mx UNASSIGNED = Some (length (filter (\<lambda>p. snd p = None) a))
    \<and> column_totals mx UNASSIGNED = Some (length (filter (\<lambda>p. snd p = None) b))
    \<and> row_totals mx NOT_IN_EARLIER = Some (card (fst ` set b - fst ` set a))
    \<and> column_totals mx NOT_IN_LATER = Some (card (fst ` set a - fst ` set b))
    \<and> (\<forall>r\<in>set (row_labels mx). \<forall>c\<in>set (column_labels mx).
          cell (mm_cells mx) r c = map_option length (cell (cell_migrations mx) r c))
    \<and> sum_list (map (\<lambda>r. the (row_totals mx r)) (row_labels mx)) = length ms"
proof -
  let ?U = "fst ` set a \<union> fst ` set b" and ?m = "migration_of a b ordinals"
  let ?R = "\<lambda>m. fst (migration_cell_labels m)" and ?C = "\<lambda>m. snd (migration_cell_labels m)"
  have ms: "ms = map ?m (sorted_list_of_set ?U)"
    using assms(6) by (simp add: classify_migration_ok [OF assms(2,3)])
  have labels: "cm_before (?m c) = label_of a c \<and> cm_after (?m c) = label_of b c" for c
    by (simp add: migration_of_def Let_def)
  have known: "\<forall>m\<in>set ms. (\<forall>l. cm_before m = Some l \<longrightarrow> l \<in> fst ` set ordinals) \<and> (\<forall>l. cm_after m = Some l \<longrightarrow> l \<in> fst ` set ordinals)"
    using label_of_known [OF assms(2)] label_of_known [OF assms(3)] by (simp add: ms labels map_of_eq_None_iff)
  obtain mx where mx: "build_migration_matrix ms ordinals = Inr mx"
    "\<forall>r\<in>set (row_labels mx). row_totals mx r = Some (length (filter (\<lambda>m. ?R m = r) ms))"
    "\<forall>c\<in>set (column_labels mx). column_totals mx c = Some (length (filter (\<lambda>m. ?C m = c) ms))"
    "\<forall>r\<in>set (row_labels mx). \<forall>c\<in>set (column_labels mx).
       cell (cell_migrations mx) r c = Some (filter (\<lambda>m. migration_cell_labels m = (r, c)) ms)
       \<and> cell (mm_cells mx) r c = Some (length (filter (\<lambda>m. migration_cell_labels m = (r, c)) ms))"
    "row_labels mx = map fst (sort_key snd ordinals) @ [UNASSIGNED, NOT_IN_EARLIER]"
    "column_labels mx = map fst (sort_key snd ordinals) @ [UNASSIGNED, NOT_IN_LATER]"
    using build_migration_matrix_ok [OF assms(1) known] by blast
  note count = count_classified [OF assms(2,3,6)]
  note rows = row_count [OF assms(1,2,4), of NOT_IN_EARLIER ?U "\<lambda>c. ?R (?m c)"]
  note columns = row_count [OF assms(1,3,5), of NOT_IN_LATER ?U "\<lambda>c. ?C (?m c)"]
  note cells = cell_of_migration [OF assms(2,3)]
  have absent: "?U - fst ` set a = fst ` set b - fst ` set a" "?U - fst ` set b = fst ` set a - fst ` set b" by auto
  have r: "row_totals mx r = Some (card {c \<in> ?U. ?R (?m c) = r})" if "r \<in> fst ` set ordinals \<union> {UNASSIGNED, NOT_IN_EARLIER}" for r
    using that by (subst bspec [OF mx(2)]) (simp_all only: count, auto simp: mx(5))
  have c: "column_totals mx c = Some (card {x \<in> ?U. ?C (?m x) = c})" if "c \<in> fst ` set ordinals \<union> {UNASSIGNED, NOT_IN_LATER}" for c
    using that by (subst bspec [OF mx(3)]) (simp_all only: count, auto simp: mx(6))
  have "?R m \<in> set (row_labels mx)" if "m \<in> set ms" for m
    using that known by (auto simp: migration_cell_labels_def mx(5) split: option.splits)
  moreover have "distinct (row_labels mx)"
    using assms(1) by (auto simp: mx(5) vocabulary_ok_def distinct_map_sort_key)
  ultimately have "sum_list (map (\<lambda>r. length (filter (\<lambda>m. ?R m = r) ms)) (row_labels mx)) = length ms"
    using sum_list_partition [of "row_labels mx" ms "\<lambda>_. True" ?R] by simp
  moreover have "sum_list (map (\<lambda>r. the (row_totals mx r)) (row_labels mx))
      = sum_list (map (\<lambda>r. length (filter (\<lambda>m. ?R m = r) ms)) (row_labels mx))"
    by (rule arg_cong [where f = sum_list], rule map_cong) (simp_all add: mx(2))
  ultimately have total: "sum_list (map (\<lambda>r. the (row_totals mx r)) (row_labels mx)) = length ms" by simp
  show ?thesis
    using rows columns cells mx(4) total
    by (intro exI [of _ mx] conjI mx(1)) (simp_all add: r c absent)
qed

theorem matrix_reconciles_witness:
  "\<exists>ms mx. classify_migration [(1, Some ''SILVER''), (2, None)] [(1, Some ''GOLD''), (3, Some ''SILVER'')] example_ordinals = Inr ms
    \<and> build_migration_matrix ms example_ordinals = Inr mx
    \<and> row_totals mx UNASSIGNED = Some 1 \<and> column_totals mx UNASSIGNED = Some 0"
proof -
  have wf: "vocabulary_ok example_ordinals"
    "in_vocabulary example_ordinals [(1, Some ''SILVER''), (2, None)]" "run_labels_wf [(1, Some ''SILVER''), (2, None)]"
    "in_vocabulary example_ordinals [(1, Some ''GOLD''), (3, Some ''SILVER'')]" "run_labels_wf [(1, Some ''GOLD''), (3, Some ''SILVER'')]"
    by (simp_all add: in_vocabulary_def example_ordinals_def run_labels_wf_def vocabulary_ok_def UNASSIGNED_def NOT_IN_EARLIER_def NOT_IN_LATER_def)
  obtain ms where ms: "classify_migration [(1, Some ''SILVER''), (2, None)] [(1, Some ''GOLD''), (3, Some ''SILVER'')] example_ordinals = Inr ms"
    using classify_migration_ok [OF wf(2,4)] by blast
  from matrix_reconciles [OF wf(1,2,4,3,5) ms] obtain mx where "build_migration_matrix ms example_ordinals = Inr mx"
    "row_totals mx UNASSIGNED = Some (length (filter (\<lambda>p. snd p = None) [(1 :: nat, Some ''SILVER''), (2, None)]))"
    "column_totals mx UNASSIGNED = Some (length (filter (\<lambda>p. snd p = None) [(1 :: nat, Some ''GOLD''), (3, Some ''SILVER'')]))"
    by blast
  with ms show ?thesis by (intro exI conjI) simp_all
qed

section \<open>Why one customer moved\<close>

record component_delta =
  cd_name :: string
  raw_before :: "int option"
  raw_after :: "int option"
  score_before :: "int option"
  score_after :: "int option"

definition score_delta :: "component_delta \<Rightarrow> int option" where
  "score_delta d =
    (case (score_before d, score_after d) of (Some b, Some a) \<Rightarrow> Some (a - b) | _ \<Rightarrow> None)"

record migration_explanation =
  ex_recency :: component_delta
  ex_frequency :: component_delta
  ex_monetary :: component_delta
  label_before :: "string option"
  label_after :: "string option"
  label_changed :: bool
  in_earlier :: bool
  in_later :: bool

definition most_changed :: "migration_explanation \<Rightarrow> component_delta list option" where
  "most_changed e =
    (let deltas = [ex_recency e, ex_frequency e, ex_monetary e]
     in if list_ex (\<lambda>d. score_delta d = None) deltas then None
        else let largest = Max (set (map (\<lambda>d. \<bar>the (score_delta d)\<bar>) deltas))
             in if largest = 0 then None
                else Some (filter (\<lambda>d. \<bar>the (score_delta d)\<bar> = largest) deltas))"

text \<open>The sentences of \<open>most_changed_caption\<close>: one component by its name and delta, or the names and the deltas of a tie.\<close>

datatype caption = MovedTheMost string int | MovedEqually "string list" "int list"

definition most_changed_caption :: "migration_explanation \<Rightarrow> caption option" where
  "most_changed_caption e =
    (case most_changed e of
       None \<Rightarrow> None
     | Some changed \<Rightarrow>
         if length changed = 1 then Some (MovedTheMost (cd_name (hd changed)) (the (score_delta (hd changed))))
         else Some (MovedEqually (map cd_name changed) (map (\<lambda>c. the (score_delta c)) changed)))"

definition component_of ::
  "run_assignment option \<Rightarrow> run_assignment option \<Rightarrow> string \<Rightarrow> (run_assignment \<Rightarrow> int option)
    \<Rightarrow> (run_assignment \<Rightarrow> int option) \<Rightarrow> component_delta" where
  "component_of before after name raw score_of =
    \<lparr>cd_name = name,
     raw_before = (case before of None \<Rightarrow> None | Some a \<Rightarrow> raw a),
     raw_after = (case after of None \<Rightarrow> None | Some a \<Rightarrow> raw a),
     score_before = (case before of None \<Rightarrow> None | Some a \<Rightarrow> score_of a),
     score_after = (case after of None \<Rightarrow> None | Some a \<Rightarrow> score_of a)\<rparr>"

definition explain_migration :: "run_assignment option \<Rightarrow> run_assignment option \<Rightarrow> migration_explanation" where
  "explain_migration before after =
    (let lb = (case before of None \<Rightarrow> None | Some a \<Rightarrow> ra_label a);
         la = (case after of None \<Rightarrow> None | Some a \<Rightarrow> ra_label a)
     in \<lparr>ex_recency = component_of before after ''Recency'' ra_last_purchase_at ra_r,
         ex_frequency = component_of before after ''Frequency'' ra_frequency_count ra_f,
         ex_monetary = component_of before after ''Monetary'' ra_monetary_total ra_m,
         label_before = lb, label_after = la, label_changed = (lb \<noteq> la),
         in_earlier = (before \<noteq> None), in_later = (after \<noteq> None)\<rparr>)"

section \<open>The explanation in plain language\<close>

definition RECENCY_STABLE_DAYS :: int where "RECENCY_STABLE_DAYS = 7"
definition FREQUENCY_STABLE_PURCHASES :: int where "FREQUENCY_STABLE_PURCHASES = 0"
definition MONETARY_STABLE_RATIO :: rat where "MONETARY_STABLE_RATIO = 10 / 100"

datatype judgement = CHANGED | STABLE | NOT_MEASURED

datatype missing_reason = NotPartOfEarlier | NoPurchaseInEarlier | NotPartOfLater | NoPurchaseInLater

datatype recency_cause = LongerSinceLast | MoreRecentPurchase

datatype trend = Rose | Fell

datatype measure_text =
    CannotBeCompared string "missing_reason list"
  | RecencyStayed int | RecencyStable int int | RecencyChanged int int recency_cause
  | FrequencyStayed int | FrequencyStable int int | FrequencyChanged trend int int
  | MonetaryStayed int | MonetaryStable int int | MonetaryChanged trend int int

datatype score_note = NoScoreNote | ScoreWent "int option" "int option" | ScoreWentByRank "int option" "int option"

datatype measure_phrase =
    NotCompared string
  | StablePhrase string
  | RecencyWent int int
  | FrequencyWent trend int int
  | MonetaryWent trend int int

record measure_sentence =
  ms_name :: string
  ms_judgement :: judgement
  ms_text :: "measure_text \<times> score_note"
  ms_phrase :: measure_phrase
  ms_rank_only :: bool

record migration_narrative =
  sentences :: "measure_sentence list"
  nv_is_new :: bool
  nv_left :: bool
  moved_by_rank_only :: bool
  recency_days_before :: "int option"
  recency_days_after :: "int option"

text \<open>\<open>timedelta.days\<close> rounds towards minus infinity.\<close>

definition recency_days :: "int option \<Rightarrow> int \<Rightarrow> int option" where
  "recency_days last_purchase run_at = map_option (\<lambda>t. (run_at - t) div 86400000000) last_purchase"

definition missing :: "component_delta \<Rightarrow> migration_explanation \<Rightarrow> measure_sentence option" where
  "missing c e =
    (if raw_before c \<noteq> None \<and> raw_after c \<noteq> None then None
     else let reasons =
         (if raw_before c = None then [if \<not> in_earlier e then NotPartOfEarlier else NoPurchaseInEarlier] else [])
         @ (if raw_after c = None then [if \<not> in_later e then NotPartOfLater else NoPurchaseInLater] else [])
       in Some \<lparr>ms_name = cd_name c, ms_judgement = NOT_MEASURED, ms_text = (CannotBeCompared (cd_name c) reasons, NoScoreNote),
            ms_phrase = NotCompared (cd_name c), ms_rank_only = False\<rparr>)"

text \<open>\<open>bool(component.score_delta)\<close>\<close>

definition score_moved :: "component_delta \<Rightarrow> bool" where
  "score_moved c \<longleftrightarrow> (case score_delta c of None \<Rightarrow> False | Some x \<Rightarrow> x \<noteq> 0)"

definition score_note :: "component_delta \<Rightarrow> bool \<Rightarrow> score_note" where
  "score_note c rank_only =
    (if \<not> score_moved c then NoScoreNote
     else if rank_only then ScoreWentByRank (score_before c) (score_after c)
     else ScoreWent (score_before c) (score_after c))"

definition recency_sentence :: "component_delta \<Rightarrow> migration_explanation \<Rightarrow> int \<Rightarrow> int \<Rightarrow> measure_sentence" where
  "recency_sentence c e run_at_before run_at_after =
    (case missing c e of
       Some m \<Rightarrow> m
     | None \<Rightarrow>
         (let before = the (recency_days (raw_before c) run_at_before);
              after = the (recency_days (raw_after c) run_at_after);
              stable = (\<bar>after - before\<bar> \<le> RECENCY_STABLE_DAYS);
              same_purchase = (raw_before c = raw_after c);
              rank_only = (stable \<and> same_purchase \<and> score_moved c);
              txt = (if before = after then RecencyStayed after
                      else if stable then RecencyStable before after
                      else RecencyChanged before after (if after > before then LongerSinceLast else MoreRecentPurchase))
          in \<lparr>ms_name = cd_name c, ms_judgement = (if stable then STABLE else CHANGED),
              ms_text = (txt, if stable then score_note c rank_only else NoScoreNote),
              ms_phrase = (if stable then StablePhrase ''recency'' else RecencyWent before after),
              ms_rank_only = rank_only\<rparr>))"

definition frequency_sentence :: "component_delta \<Rightarrow> migration_explanation \<Rightarrow> measure_sentence" where
  "frequency_sentence c e =
    (case missing c e of
       Some m \<Rightarrow> m
     | None \<Rightarrow>
         (let before = the (raw_before c);
              after = the (raw_after c);
              stable = (\<bar>after - before\<bar> \<le> FREQUENCY_STABLE_PURCHASES);
              rank_only = (before = after \<and> score_moved c);
              verb = (if after > before then Rose else Fell);
              txt = (if before = after then FrequencyStayed after
                      else if stable then FrequencyStable before after
                      else FrequencyChanged verb before after)
          in \<lparr>ms_name = cd_name c, ms_judgement = (if stable then STABLE else CHANGED),
              ms_text = (txt, if stable then score_note c rank_only else NoScoreNote),
              ms_phrase = (if stable then StablePhrase ''frequency'' else FrequencyWent verb before after),
              ms_rank_only = rank_only\<rparr>))"

text \<open>The quotient of two amounts of cents is the quotient of the decimals.\<close>

definition monetary_sentence :: "component_delta \<Rightarrow> migration_explanation \<Rightarrow> measure_sentence" where
  "monetary_sentence c e =
    (case missing c e of
       Some m \<Rightarrow> m
     | None \<Rightarrow>
         (let before = the (raw_before c);
              after = the (raw_after c);
              stable = (if before = 0 then after = 0
                        else rat_of_int \<bar>after - before\<bar> / rat_of_int before \<le> MONETARY_STABLE_RATIO);
              rank_only = (before = after \<and> score_moved c);
              verb = (if after > before then Rose else Fell);
              txt = (if before = after then MonetaryStayed after
                      else if stable then MonetaryStable before after
                      else MonetaryChanged verb before after)
          in \<lparr>ms_name = cd_name c, ms_judgement = (if stable then STABLE else CHANGED),
              ms_text = (txt, if stable then score_note c rank_only else NoScoreNote),
              ms_phrase = (if stable then StablePhrase ''monetary'' else MonetaryWent verb before after),
              ms_rank_only = rank_only\<rparr>))"

definition describe_migration :: "migration_explanation \<Rightarrow> int \<Rightarrow> int \<Rightarrow> migration_narrative" where
  "describe_migration e run_at_before run_at_after =
    (let ss = [recency_sentence (ex_recency e) e run_at_before run_at_after,
               frequency_sentence (ex_frequency e) e, monetary_sentence (ex_monetary e) e]
     in \<lparr>sentences = ss,
         nv_is_new = (\<not> in_earlier e), nv_left = (\<not> in_later e),
         moved_by_rank_only = (label_changed e \<and> list_all (\<lambda>s. ms_judgement s = STABLE) ss \<and> list_ex ms_rank_only ss),
         recency_days_before = recency_days (raw_before (ex_recency e)) run_at_before,
         recency_days_after = recency_days (raw_after (ex_recency e)) run_at_after\<rparr>)"

section \<open>What is blamed on the rank\<close>

definition components_of :: "migration_explanation \<Rightarrow> component_delta list" where
  "components_of e = [ex_recency e, ex_frequency e, ex_monetary e]"

lemma most_changed_Some:
  assumes "most_changed e = Some ds"
  shows "ds \<noteq> []" and "d \<in> set ds \<Longrightarrow> score_moved d \<and> d \<in> set (components_of e)
    \<and> (\<forall>x\<in>set (components_of e). \<bar>the (score_delta x)\<bar> \<le> \<bar>the (score_delta d)\<bar>
        \<and> (\<bar>the (score_delta x)\<bar> = \<bar>the (score_delta d)\<bar> \<longrightarrow> x \<in> set ds))"
proof -
  let ?f = "\<lambda>d. \<bar>the (score_delta d)\<bar>" and ?xs = "components_of e"
  define M where "M = Max (set (map ?f ?xs))"
  from assms have none: "\<forall>d\<in>set ?xs. score_delta d \<noteq> None" and pos: "M \<noteq> 0" and ds: "ds = filter (\<lambda>d. ?f d = M) ?xs"
    by (simp_all add: most_changed_def M_def components_of_def [symmetric] Let_def list_ex_iff split: if_splits)
  have "?xs \<noteq> []" by (simp add: components_of_def)
  then have mem: "M \<in> ?f ` set ?xs" unfolding M_def set_map by (intro Max_in) simp_all
  have ge: "x \<in> set ?xs \<Longrightarrow> ?f x \<le> M" for x unfolding M_def set_map by (intro Max_ge) simp_all
  from mem show "ds \<noteq> []" unfolding ds filter_empty_conv by blast
  show "score_moved d \<and> d \<in> set ?xs \<and> (\<forall>x\<in>set ?xs. ?f x \<le> ?f d \<and> (?f x = ?f d \<longrightarrow> x \<in> set ds))" if "d \<in> set ds"
    using that none pos ge unfolding ds by (cases "score_delta d") (auto simp: score_moved_def)
qed

lemma stable_ratio:
  "0 \<le> m \<Longrightarrow> (if m = 0 then m' = 0 else rat_of_int \<bar>m' - m\<bar> / rat_of_int m \<le> MONETARY_STABLE_RATIO) \<longleftrightarrow> 10 * \<bar>m' - m\<bar> \<le> m"
proof (cases "m = 0")
  case False
  moreover assume "0 \<le> m"
  ultimately have "0 < rat_of_int m" by simp
  then have "rat_of_int \<bar>m' - m\<bar> / rat_of_int m \<le> 1 / 10 \<longleftrightarrow> rat_of_int (10 * \<bar>m' - m\<bar>) \<le> rat_of_int m"
    by (simp add: field_simps)
  with False show ?thesis by (simp add: MONETARY_STABLE_RATIO_def del: of_int_mult of_int_abs of_int_diff)
qed auto

lemma drift_days:
  assumes "t \<le> t'" and "t' - t \<le> 7 * (86400000000 :: int)"
  shows "\<bar>(t' - l) div 86400000000 - (t - l) div 86400000000\<bar> \<le> 7"
proof -
  have "(t - l) div 86400000000 \<le> (t' - l) div 86400000000" using assms by (intro zdiv_mono1) simp_all
  moreover have "(t' - l) div 86400000000 \<le> (t - l + 7 * 86400000000) div 86400000000" using assms by (intro zdiv_mono1) simp_all
  moreover have "(t - l + 7 * 86400000000) div 86400000000 = (t - l) div 86400000000 + 7" by simp
  ultimately show ?thesis by simp
qed

text \<open>
  A move is blamed on the other customers exactly when this customer's own behaviour stayed the same: for a
  customer measured in both runs, the label changed, recency drifted by at most seven days, the number of
  purchases is the same, spend moved by at most a tenth, and some score moved although its measure did not.
  A customer who did nothing between two runs at most a week apart is judged stable in all three measures.
\<close>

lemma rank_only_moves:
  assumes "raw_before (ex_recency e) = Some l" and "raw_after (ex_recency e) = Some l'"
    and "raw_before (ex_frequency e) = Some f" and "raw_after (ex_frequency e) = Some f'"
    and "raw_before (ex_monetary e) = Some m" and "raw_after (ex_monetary e) = Some m'" and "0 \<le> m"
  shows "(moved_by_rank_only (describe_migration e t t') \<longleftrightarrow>
      label_changed e \<and> \<bar>(t' - l') div 86400000000 - (t - l) div 86400000000\<bar> \<le> 7 \<and> f = f' \<and> 10 * \<bar>m' - m\<bar> \<le> m
      \<and> (l = l' \<and> score_moved (ex_recency e) \<or> score_moved (ex_frequency e) \<or> m = m' \<and> score_moved (ex_monetary e)))
    \<and> (l = l' \<and> f = f' \<and> m = m' \<and> t \<le> t' \<and> t' - t \<le> 7 * 86400000000 \<longrightarrow>
        map ms_judgement (sentences (describe_migration e t t')) = [STABLE, STABLE, STABLE])"
proof -
  have none: "missing (ex_recency e) e = None" "missing (ex_frequency e) e = None" "missing (ex_monetary e) e = None"
    using assms by (simp_all add: missing_def)
  have recency: "(ms_judgement (recency_sentence (ex_recency e) e t t') = STABLE) = (\<bar>(t' - l') div 86400000000 - (t - l) div 86400000000\<bar> \<le> 7)"
    "ms_judgement (recency_sentence (ex_recency e) e t t') \<in> {STABLE, CHANGED}"
    "ms_rank_only (recency_sentence (ex_recency e) e t t') = (\<bar>(t' - l') div 86400000000 - (t - l) div 86400000000\<bar> \<le> 7 \<and> l = l' \<and> score_moved (ex_recency e))"
    using assms none by (simp_all add: recency_sentence_def Let_def recency_days_def RECENCY_STABLE_DAYS_def)
  have frequency: "(ms_judgement (frequency_sentence (ex_frequency e) e) = STABLE) = (f = f')"
    "ms_judgement (frequency_sentence (ex_frequency e) e) \<in> {STABLE, CHANGED}"
    "ms_rank_only (frequency_sentence (ex_frequency e) e) = (f = f' \<and> score_moved (ex_frequency e))"
    using assms none by (auto simp: frequency_sentence_def Let_def FREQUENCY_STABLE_PURCHASES_def)
  have monetary: "(ms_judgement (monetary_sentence (ex_monetary e) e) = STABLE) = (10 * \<bar>m' - m\<bar> \<le> m)"
    "ms_judgement (monetary_sentence (ex_monetary e) e) \<in> {STABLE, CHANGED}"
    "ms_rank_only (monetary_sentence (ex_monetary e) e) = (m = m' \<and> score_moved (ex_monetary e))"
    using assms none stable_ratio [OF assms(7), of m'] by (simp_all add: monetary_sentence_def Let_def)
  show ?thesis
    using assms(7) drift_days [of t t' l]
    by (auto simp: describe_migration_def Let_def recency frequency monetary)
qed

definition example_customer :: run_assignment where
  "example_customer = \<lparr>ra_customer = 1, ra_name = ''Ana'', ra_segment = None, ra_label = Some ''GOLD'', ra_r = Some 5, ra_f = Some 4,
     ra_m = Some 5, ra_last_purchase_at = Some 0, ra_frequency_count = Some 3, ra_monetary_total = Some 1000\<rparr>"

end
