(* ===== verification/Parsing.thy ===== *)
theory Parsing
  imports Prelude
begin

text \<open>
  The numbers and dates of a form or a query string, \<open>web/parsing.py\<close>. A digit is an ASCII digit. Python
  refuses to convert a text of more than 4300 digits to an integer (\<open>sys.int_info\<close>), so
  \<open>whole_number\<close> has an error branch of its own. A date is its proleptic Gregorian ordinal, Python's
  \<open>date.toordinal()\<close>: dates compare, and days are counted, as the numbers do.
\<close>

section \<open>Digits\<close>

definition ascii_digit :: "char \<Rightarrow> bool" where
  "ascii_digit c \<longleftrightarrow> 48 \<le> (of_char c :: nat) \<and> (of_char c :: nat) \<le> 57"

definition digit_value :: "char \<Rightarrow> nat" where
  "digit_value c = of_char c - 48"

definition digit_char :: "nat \<Rightarrow> char" where
  "digit_char n = char_of (48 + n)"

text \<open>\<open>raw.isascii() and raw.isdigit()\<close>\<close>

definition ascii_digits :: "string \<Rightarrow> bool" where
  "ascii_digits s \<longleftrightarrow> s \<noteq> [] \<and> list_all ascii_digit s"

definition digits_value :: "string \<Rightarrow> nat" where
  "digits_value s = foldl (\<lambda>n c. 10 * n + digit_value c) 0 s"

fun show_nat :: "nat \<Rightarrow> string" where
  "show_nat n = (if n < 10 then [digit_char n] else show_nat (n div 10) @ [digit_char (n mod 10)])"

declare show_nat.simps [simp del]

section \<open>Whole numbers\<close>

definition INT_MAX :: nat where "INT_MAX = 2 ^ 31 - 1"
definition BIGINT_MAX :: nat where "BIGINT_MAX = 2 ^ 63 - 1"
definition INT_DIGITS_MAX :: nat where "INT_DIGITS_MAX = 4300"

datatype value_error = TooManyDigits

definition whole_number :: "string option \<Rightarrow> nat \<Rightarrow> value_error + nat option" where
  "whole_number raw maximum =
    (case raw of
       None \<Rightarrow> Inr None
     | Some s \<Rightarrow>
         if \<not> ascii_digits s then Inr None
         else if length s > INT_DIGITS_MAX then Inl TooManyDigits
         else let v = digits_value s in Inr (if v \<le> maximum then Some v else None))"

definition page_number :: "string option \<Rightarrow> value_error + nat" where
  "page_number raw =
    (case whole_number raw INT_MAX of
       Inl e \<Rightarrow> Inl e
     | Inr v \<Rightarrow> Inr (case v of None \<Rightarrow> 1 | Some n \<Rightarrow> if n = 0 then 1 else n))"

section \<open>Dates\<close>

definition is_leap :: "nat \<Rightarrow> bool" where
  "is_leap y \<longleftrightarrow> 4 dvd y \<and> (\<not> 100 dvd y \<or> 400 dvd y)"

definition days_in_month :: "nat \<Rightarrow> nat \<Rightarrow> nat" where
  "days_in_month y m = (if m = 2 then (if is_leap y then 29 else 28) else if m \<in> {4, 6, 9, 11} then 30 else 31)"

definition days_before_year :: "nat \<Rightarrow> nat" where
  "days_before_year y = (let p = y - 1 in p * 365 + p div 4 - p div 100 + p div 400)"

definition days_before_month :: "nat \<Rightarrow> nat \<Rightarrow> nat" where
  "days_before_month y m = sum_list (map (days_in_month y) [1..<m])"

definition ordinal :: "nat \<Rightarrow> nat \<Rightarrow> nat \<Rightarrow> int" where
  "ordinal y m d = int (days_before_year y + days_before_month y m + d)"

definition valid_date :: "nat \<Rightarrow> nat \<Rightarrow> nat \<Rightarrow> bool" where
  "valid_date y m d \<longleftrightarrow> 1 \<le> y \<and> y \<le> 9999 \<and> 1 \<le> m \<and> m \<le> 12 \<and> 1 \<le> d \<and> d \<le> days_in_month y m"

definition DATE_MIN :: int where "DATE_MIN = ordinal 1900 1 1"
definition DATE_MAX :: int where "DATE_MAX = ordinal 2100 12 31"

text \<open>\<open>\d{4}-\d{2}-\d{2}\<close>\<close>

definition iso_shape :: "string \<Rightarrow> bool" where
  "iso_shape s \<longleftrightarrow> length s = 10 \<and> s ! 4 = CHR ''-'' \<and> s ! 7 = CHR ''-''
     \<and> list_all ascii_digit (take 4 s) \<and> list_all ascii_digit (take 2 (drop 5 s)) \<and> list_all ascii_digit (drop 8 s)"

definition fromisoformat :: "string \<Rightarrow> int option" where
  "fromisoformat s =
    (let y = digits_value (take 4 s); m = digits_value (take 2 (drop 5 s)); d = digits_value (drop 8 s)
     in if valid_date y m d then Some (ordinal y m d) else None)"

definition iso_date :: "string option \<Rightarrow> int option" where
  "iso_date raw =
    (case raw of
       None \<Rightarrow> None
     | Some s \<Rightarrow>
         if \<not> iso_shape s then None
         else case fromisoformat s of
             None \<Rightarrow> None
           | Some v \<Rightarrow> if DATE_MIN \<le> v \<and> v \<le> DATE_MAX then Some v else None)"

section \<open>Numbers survive being written\<close>

lemma digit_char_simps [simp]: "n < 10 \<Longrightarrow> ascii_digit (digit_char n)" "n < 10 \<Longrightarrow> digit_value (digit_char n) = n"
  by (simp_all add: ascii_digit_def digit_value_def digit_char_def of_char_of)

lemma digit_char_value [simp]: "ascii_digit c \<Longrightarrow> digit_char (digit_value c) = c"
  by (simp add: ascii_digit_def digit_value_def digit_char_def)

lemma digit_value_less: "ascii_digit c \<Longrightarrow> digit_value c < 10"
  by (auto simp: ascii_digit_def digit_value_def)

lemma digits_value_append: "digits_value (s @ [c]) = 10 * digits_value s + digit_value c"
  by (simp add: digits_value_def)

lemma show_nat_digits: "ascii_digits (show_nat n)"
  by (induction n rule: show_nat.induct) (subst show_nat.simps, auto simp: ascii_digits_def)

lemma digits_value_show_nat: "digits_value (show_nat n) = n"
proof (induction n rule: show_nat.induct)
  case (1 n)
  show ?case
  proof (cases "n < 10")
    case True
    then show ?thesis by (subst show_nat.simps) (simp add: digits_value_def)
  next
    case False
    with 1 have "digits_value (show_nat (n div 10)) = n div 10" by simp
    with False show ?thesis by (subst show_nat.simps) (simp add: digits_value_append)
  qed
qed

lemma length_show_nat: "length (show_nat n) \<le> k \<longleftrightarrow> k \<noteq> 0 \<and> n < 10 ^ k"
proof (induction n arbitrary: k rule: show_nat.induct)
  case (1 n)
  show ?case
  proof (cases "n < 10")
    case True
    then have "k \<noteq> 0 \<Longrightarrow> n < 10 ^ k" by (cases k) (auto intro: less_le_trans)
    with True show ?thesis by (subst show_nat.simps) (cases k; auto)
  next
    case False
    show ?thesis
    proof (cases k)
      case (Suc j)
      have "n div 10 < 10 ^ j \<longleftrightarrow> n < 10 ^ k" by (simp add: Suc div_less_iff_less_mult mult.commute)
      moreover have "j = 0 \<Longrightarrow> \<not> n < 10 ^ k" using False by (simp add: Suc)
      ultimately show ?thesis using 1 [OF False, of j] False by (subst show_nat.simps) (auto simp: Suc)
    qed (subst show_nat.simps, simp add: False)
  qed
qed

text \<open>
  C33. A number written in decimal is read back as itself when it is in range and has at most 4300 digits, and as no
  number when it is past the range; only a text of more than 4300 digits is neither, and raises.
\<close>

theorem whole_number_roundtrip:
  "whole_number (Some (show_nat n)) maximum =
    (if n < 10 ^ INT_DIGITS_MAX then Inr (if n \<le> maximum then Some n else None) else Inl TooManyDigits)"
proof -
  have "length (show_nat n) \<le> INT_DIGITS_MAX \<longleftrightarrow> n < 10 ^ INT_DIGITS_MAX"
    by (subst length_show_nat) (simp add: INT_DIGITS_MAX_def del: power_numeral)
  then show ?thesis
    by (auto simp: whole_number_def show_nat_digits digits_value_show_nat Let_def simp del: power_numeral)
qed

section \<open>Dates survive being written\<close>

lemma days_in_year: "days_before_month y 13 = (if is_leap y then 366 else 365)"
  by (simp add: days_before_month_def days_in_month_def upt_conv_Cons)

lemma days_before_month_Suc: "1 \<le> m \<Longrightarrow> days_before_month y (Suc m) = days_before_month y m + days_in_month y m"
  by (simp add: days_before_month_def)

lemma days_before_month_mono: "m \<le> n \<Longrightarrow> 1 \<le> m \<Longrightarrow> days_before_month y m \<le> days_before_month y n"
  by (induction n rule: dec_induct) (auto simp: days_before_month_Suc)

lemma div_pred: "1 \<le> y \<Longrightarrow> 0 < k \<Longrightarrow> y div k = (y - 1) div k + (if k dvd y then 1 else 0)" for y k :: nat
  by (cases y) (auto simp: div_Suc dvd_eq_mod_eq_0)

lemma leap_arithmetic:
  fixes a b c p :: nat
  assumes "b \<le> a" and "p100 \<Longrightarrow> p4" and "p400 \<Longrightarrow> p100"
  shows "p + 365 + (a + (if p4 then 1 else 0)) - (b + (if p100 then 1 else 0)) + (c + (if p400 then 1 else 0))
    = p + a - b + c + (if p4 \<and> (\<not> p100 \<or> p400) then 366 else 365)"
  using assms by (cases p4; cases p100; cases p400) simp_all

lemma days_before_year_Suc:
  assumes "1 \<le> y"
  shows "days_before_year (Suc y) = days_before_year y + days_before_month y 13"
proof -
  have "100 dvd y \<Longrightarrow> 4 dvd y" "400 dvd y \<Longrightarrow> 100 dvd y" by (auto elim: dvd_trans [rotated])
  moreover have "(y - 1) div 100 \<le> (y - 1) div 4" by (rule div_le_mono2) simp_all
  moreover have "days_before_year (Suc y) = (y - 1) * 365 + 365 + y div 4 - y div 100 + y div 400"
    using assms by (cases y) (simp_all add: days_before_year_def Let_def)
  moreover have "days_before_year y = (y - 1) * 365 + (y - 1) div 4 - (y - 1) div 100 + (y - 1) div 400"
    by (simp add: days_before_year_def Let_def)
  moreover have "y div 4 = (y - 1) div 4 + (if 4 dvd y then 1 else 0)" "y div 100 = (y - 1) div 100 + (if 100 dvd y then 1 else 0)"
    "y div 400 = (y - 1) div 400 + (if 400 dvd y then 1 else 0)"
    using div_pred [OF assms] by simp_all
  ultimately show ?thesis
    unfolding days_in_year is_leap_def by (simp only: leap_arithmetic)
qed

lemma days_before_year_mono: "x \<le> y \<Longrightarrow> 1 \<le> x \<Longrightarrow> days_before_year x \<le> days_before_year y"
  by (induction y rule: dec_induct) (auto simp: days_before_year_Suc)

lemma ordinal_in_month:
  assumes "valid_date y m d"
  shows "days_before_year y + days_before_month y m < nat (ordinal y m d)"
    and "nat (ordinal y m d) \<le> days_before_year y + days_before_month y (Suc m)"
  using assms by (auto simp: ordinal_def valid_date_def days_before_month_Suc)

lemma ordinal_in_year:
  assumes "valid_date y m d"
  shows "days_before_year y < nat (ordinal y m d)" and "nat (ordinal y m d) \<le> days_before_year (Suc y)"
proof -
  have "days_before_month y (Suc m) \<le> days_before_month y 13"
    using assms by (intro days_before_month_mono) (auto simp: valid_date_def)
  then show "days_before_year y < nat (ordinal y m d)" "nat (ordinal y m d) \<le> days_before_year (Suc y)"
    using ordinal_in_month [OF assms] assms by (auto simp: days_before_year_Suc valid_date_def)
qed

lemma ordinal_less:
  assumes "valid_date y m d" and "valid_date y' m' d'" and "(y, m, d) < (y', m', d')"
  shows "ordinal y m d < ordinal y' m' d'"
proof -
  consider "y < y'" | "y = y'" "m < m'" | "y = y'" "m = m'" "d < d'" using assms(3) by (auto simp: order_le_less)
  then show ?thesis
  proof cases
    case 1
    then have "days_before_year (Suc y) \<le> days_before_year y'" by (intro days_before_year_mono) auto
    with ordinal_in_year [OF assms(1)] ordinal_in_year [OF assms(2)] show ?thesis by linarith
  next
    case 2
    then have "days_before_month y (Suc m) \<le> days_before_month y m'" by (intro days_before_month_mono) auto
    with ordinal_in_month [OF assms(1)] ordinal_in_month [OF assms(2)] 2 show ?thesis by simp
  next
    case 3
    then show ?thesis by (simp add: ordinal_def)
  qed
qed

lemma ordinal_less_iff:
  assumes "valid_date y m d" and "valid_date y' m' d'"
  shows "ordinal y m d < ordinal y' m' d' \<longleftrightarrow> (y, m, d) < (y', m', d')"
  using ordinal_less [OF assms] ordinal_less [OF assms(2,1)] by (metis less_asym linorder_neqE order_less_irrefl prod.inject)

definition two_digits :: "nat \<Rightarrow> string" where
  "two_digits n = [digit_char (n div 10), digit_char (n mod 10)]"

definition iso_text :: "nat \<Rightarrow> nat \<Rightarrow> nat \<Rightarrow> string" where
  "iso_text y m d = two_digits (y div 100) @ two_digits (y mod 100) @ CHR ''-'' # two_digits m @ CHR ''-'' # two_digits d"

lemma two_digits_digits: "n < 100 \<Longrightarrow> list_all ascii_digit (two_digits n)"
  by (simp add: two_digits_def)

lemma digits_value_two: "n < 100 \<Longrightarrow> digits_value (two_digits n) = n"
  by (simp add: two_digits_def digits_value_def)

lemma length_two_digits [simp]: "length (two_digits n) = 2"
  by (simp add: two_digits_def)

lemma digits_value_four: "n < 100 \<Longrightarrow> k < 100 \<Longrightarrow> digits_value (two_digits n @ two_digits k) = 100 * n + k"
  by (simp add: two_digits_def digits_value_def)

lemma two_digits_of: "ascii_digit a \<Longrightarrow> ascii_digit b \<Longrightarrow> [a, b] = two_digits (digits_value [a, b])"
  using digit_value_less [of a] digit_value_less [of b] by (simp add: two_digits_def digits_value_def)

lemma digits_value_two_less: "ascii_digit a \<Longrightarrow> ascii_digit b \<Longrightarrow> digits_value [a, b] < 100"
  using digit_value_less [of a] digit_value_less [of b] by (simp add: digits_value_def)

lemma iso_text_parts:
  assumes "y < 10000" and "m < 100" and "d < 100"
  shows "iso_shape (iso_text y m d)" and "fromisoformat (iso_text y m d) = (if valid_date y m d then Some (ordinal y m d) else None)"
proof -
  have y: "y div 100 < 100" using assms(1) by simp
  obtain a b c e where ab: "two_digits (y div 100) = [a, b]" "two_digits (y mod 100) = [c, e]" by (simp add: two_digits_def)
  obtain f g h i where fg: "two_digits m = [f, g]" "two_digits d = [h, i]" by (simp add: two_digits_def)
  have "list_all ascii_digit [a, b, c, e, f, g, h, i]"
    using two_digits_digits [OF y] two_digits_digits [of "y mod 100"] two_digits_digits [OF assms(2)] two_digits_digits [OF assms(3)]
    by (simp add: ab fg)
  then show "iso_shape (iso_text y m d)" by (simp add: iso_shape_def iso_text_def ab fg)
  have "digits_value [a, b, c, e] = y" "digits_value [f, g] = m" "digits_value [h, i] = d"
    using digits_value_four [OF y, of "y mod 100"] digits_value_two [OF assms(2)] digits_value_two [OF assms(3)]
    by (simp_all add: ab fg)
  then show "fromisoformat (iso_text y m d) = (if valid_date y m d then Some (ordinal y m d) else None)"
    by (simp add: fromisoformat_def iso_text_def ab fg Let_def)
qed

lemma iso_shape_text:
  assumes "iso_shape s"
  shows "\<exists>y m d. y < 10000 \<and> m < 100 \<and> d < 100 \<and> s = iso_text y m d"
proof -
  have "length s = 10" using assms by (simp add: iso_shape_def)
  then obtain a b c e u f g v h i where s: "s = [a, b, c, e, u, f, g, v, h, i]"
    by (auto simp: numeral_eq_Suc length_Suc_conv)
  with assms have digits: "ascii_digit a" "ascii_digit b" "ascii_digit c" "ascii_digit e" "ascii_digit f" "ascii_digit g"
    "ascii_digit h" "ascii_digit i" and uv: "u = CHR ''-''" "v = CHR ''-''"
    by (simp_all add: iso_shape_def)
  let ?y = "100 * digits_value [a, b] + digits_value [c, e]"
  have less: "digits_value [a, b] < 100" "digits_value [c, e] < 100" "digits_value [f, g] < 100" "digits_value [h, i] < 100"
    using digits digits_value_two_less by blast+
  have "s = iso_text ?y (digits_value [f, g]) (digits_value [h, i])"
    using less digits two_digits_of by (simp add: iso_text_def s uv two_digits_of [symmetric])
  moreover have "?y < 10000" using less by simp
  ultimately show ?thesis using less by blast
qed

lemma in_calendar:
  assumes "valid_date y m d"
  shows "DATE_MIN \<le> ordinal y m d \<and> ordinal y m d \<le> DATE_MAX \<longleftrightarrow> 1900 \<le> y \<and> y \<le> 2100"
proof -
  have ends: "valid_date 1900 1 1" "valid_date 2100 12 31" by (simp_all add: valid_date_def days_in_month_def)
  have "ordinal y m d < DATE_MIN \<longleftrightarrow> y < 1900"
    unfolding DATE_MIN_def ordinal_less_iff [OF assms ends(1)] using assms by (auto simp: valid_date_def)
  moreover have "DATE_MAX < ordinal y m d \<longleftrightarrow> 2100 < y"
    unfolding DATE_MAX_def ordinal_less_iff [OF ends(2) assms]
    using assms by (auto simp: valid_date_def days_in_month_def split: if_splits)
  ultimately show ?thesis by linarith
qed

text \<open>
  A date is read exactly when it is written as YYYY-MM-DD and exists in the calendar between 1900 and 2100, as
  its own ordinal. (Ordinals compare as the dates do: \<open>ordinal_less_iff\<close>.)
\<close>

lemma iso_date_roundtrip:
  "iso_date (Some s) = Some v \<longleftrightarrow>
    (\<exists>y m d. valid_date y m d \<and> 1900 \<le> y \<and> y \<le> 2100 \<and> s = iso_text y m d \<and> v = ordinal y m d)"
proof
  assume read: "iso_date (Some s) = Some v"
  then have "iso_shape s" by (simp add: iso_date_def split: if_splits)
  then obtain y m d where s: "y < 10000" "m < 100" "d < 100" "s = iso_text y m d" using iso_shape_text by blast
  with read have "valid_date y m d \<and> v = ordinal y m d \<and> DATE_MIN \<le> v \<and> v \<le> DATE_MAX"
    by (auto simp: iso_date_def iso_text_parts split: if_splits)
  then show "\<exists>y m d. valid_date y m d \<and> 1900 \<le> y \<and> y \<le> 2100 \<and> s = iso_text y m d \<and> v = ordinal y m d"
    using in_calendar [of y m d] s(4) by auto
next
  assume "\<exists>y m d. valid_date y m d \<and> 1900 \<le> y \<and> y \<le> 2100 \<and> s = iso_text y m d \<and> v = ordinal y m d"
  then obtain y m d where d: "valid_date y m d" "1900 \<le> y" "y \<le> 2100" "s = iso_text y m d" "v = ordinal y m d" by blast
  then have "y < 10000" "m < 100" "d < 100" by (auto simp: valid_date_def days_in_month_def split: if_splits)
  from iso_text_parts [OF this] d in_calendar [OF d(1)] show "iso_date (Some s) = Some v"
    by (simp add: iso_date_def)
qed

end
