(* ===== verification/Experiments.thy ===== *)
theory Experiments
  imports Segmentation Parsing
begin

text \<open>
  Experiments, \<open>web/services/experiments.py\<close> and \<open>web/db/experiments.py\<close>: the setup form, creation and
  edits with the rules an assignment freezes, the assignment of a campaign's population into the arms,
  and exposures. \<open>exp_db\<close> holds the tables these services and the campaign services read and write; what
  the segmentation wrote is the history of \<open>Segmentation\<close>. A day is its ordinal, an instant a number of
  microseconds; \<open>now\<close> and \<open>today\<close> are the transaction's clock. A message is a constructor with the values
  it interpolates. The shuffle of a seeded generator is a parameter.
\<close>

section \<open>Tables\<close>

record campaign_row =
  cp_id :: nat
  cp_name :: string
  cp_label :: string
  cp_starts :: int
  cp_ends :: int
  cp_status :: string

record experiment_row =
  xr_id :: nat
  xr_name :: string
  xr_campaign :: "nat option"
  xr_metric :: string
  xr_starts :: int
  xr_ends :: "int option"
  xr_window :: nat
  xr_origin :: string

record group_row =
  gr_id :: nat
  gr_experiment :: nat
  gr_kind :: string
  gr_name :: string
  gr_description :: string

record assignment_row =
  as_id :: nat
  as_experiment :: nat
  as_group :: nat
  as_customer :: nat
  as_at :: int

record exposure_row =
  eo_assignment :: nat
  eo_at :: int

record conversion_row =
  cv_assignment :: nat
  cv_sale :: nat

record sale_row =
  sl_id :: nat
  sl_customer :: nat
  sl_at :: int
  sl_origin :: string

record exp_db =
  xd_campaigns :: "campaign_row list"
  xd_experiments :: "experiment_row list"
  xd_groups :: "group_row list"
  xd_assignments :: "assignment_row list"
  xd_exposures :: "exposure_row list"
  xd_conversions :: "conversion_row list"
  xd_sales :: "sale_row list"
  xd_history :: "history_row list"
  xd_labels :: "string list"
  xd_customers :: "nat list"
  xd_next_assignment :: nat

datatype violation =
    ForeignKeyViolation string
  | UniqueViolation string
  | CheckViolation string

datatype bad_arms = NoControlNeedsTwoTreatments | NoTreatment | OneDefinitionPerArm | BlankDefinition

datatype refusal =
    CampaignIsOver nat string
  | AlreadyExists
  | CampaignDoesNotExist
  | RefusedByConstraint
  | FixedAfterAssignment nat nat string

datatype assignment_refusal =
    AlreadyAssigned nat nat
  | NoCampaign nat
  | CampaignIs nat "string option"
  | NoControlAndNotTwoTreatments nat
  | NoTreatmentGroup nat
  | NobodyHoldsLabel string
  | TooFewCustomers nat nat
  | CustomerAlreadyAssigned nat

datatype exposure_refusal =
    NotAssigned nat nat
  | ControlNeverExposed nat
  | BeforeStart nat int
  | AfterEnd nat int
  | CampaignOver nat string
  | ArmNotOfExperiment nat nat
  | ArmIsControl string
  | NotInThisArm
  | NobodySelected
  | NotAUuid

datatype experiment_error =
    ExperimentNotFound nat
  | ExperimentRefused string refusal
  | AssignmentRefused assignment_refusal
  | ExposureRefused exposure_refusal
  | ConversionRefused nat
  | MissingArguments
  | BadArms bad_arms
  | Integrity violation
  | ValueTooLong string
  | ZeroDivision

section \<open>The setup form\<close>

definition TARGET_METRICS :: "string list" where "TARGET_METRICS = [''CONVERSION'']"
definition DATA_ORIGINS :: "string list" where "DATA_ORIGINS = [''OBSERVED'', ''SEEDED'', ''INJECTED'']"
definition WINDOW_MAX_DAYS :: nat where "WINDOW_MAX_DAYS = 32767"
definition TREATMENT_GROUPS_MAX :: nat where "TREATMENT_GROUPS_MAX = 10"
definition NAME_MAX :: nat where "NAME_MAX = 120"
definition NO_CONTROL_VALUES :: "string list" where
  "NO_CONTROL_VALUES = [''NONE'', ''NO'', ''NO_CONTROL'', ''NO-CONTROL'', ''FALSE'', ''0'']"

record experiment_input =
  in_name :: string
  in_campaign :: "nat option"
  in_metric :: string
  in_starts :: int
  in_ends :: "int option"
  in_window :: nat
  in_origin :: "string option"
  in_treatments :: "nat option"
  in_has_control :: bool
  in_definitions :: "(string \<times> string) list"

datatype form_message =
    Required
  | TooLong
  | NotInList
  | NotADate
  | EndsBeforeStart
  | WindowOutOfRange
  | ChooseControl
  | ChooseOrigin
  | NeedsExactlyTwo
  | NeedsATreatment

definition parse_date :: "string \<Rightarrow> int option" where
  "parse_date raw = iso_date (Some raw)"

definition parse_whole :: "string \<Rightarrow> nat \<Rightarrow> nat \<Rightarrow> value_error + nat option" where
  "parse_whole raw low high =
    (case whole_number (Some raw) high of
       Inl e \<Rightarrow> Inl e
     | Inr None \<Rightarrow> Inr None
     | Inr (Some v) \<Rightarrow> Inr (if low \<le> v then Some v else None))"

text \<open>\<open>str.upper()\<close>, which the check compares with ASCII words only.\<close>

definition upper :: "string \<Rightarrow> string" where
  "upper s = map (\<lambda>c. if 97 \<le> (of_char c :: nat) \<and> (of_char c :: nat) \<le> 122 then char_of ((of_char c :: nat) - 32) else c) s"

definition get_or_empty :: "(string \<times> string) list \<Rightarrow> string \<Rightarrow> string" where
  "get_or_empty kv k = (case map_of kv k of None \<Rightarrow> [] | Some v \<Rightarrow> v)"

definition arm_keys :: "bool \<Rightarrow> nat \<Rightarrow> string list" where
  "arm_keys has_control treatments =
    (if has_control then [''control''] else []) @ map (\<lambda>i. ''treatment_'' @ show_nat i) [1..<Suc treatments]"

text \<open>The loop over the arms: the errors of the names and descriptions, and the definitions.\<close>

fun arm_definitions ::
  "(string \<Rightarrow> string) \<Rightarrow> (string \<Rightarrow> string) \<Rightarrow> string list
    \<Rightarrow> (string \<times> form_message) list \<times> (string \<times> string) list" where
  "arm_definitions names descriptions [] = ([], [])"
| "arm_definitions names descriptions (key # keys) =
    (let arm_name = py_strip (names key);
         description = py_strip (descriptions key);
         (errors, definitions) = arm_definitions names descriptions keys
     in ((if arm_name = [] then [(key @ ''_name'', Required)]
          else if length arm_name > NAME_MAX then [(key @ ''_name'', TooLong)] else [])
         @ (if description = [] then [(key @ ''_description'', Required)] else [])
         @ (if length description > 500 then [(key @ ''_description'', TooLong)] else [])
         @ errors,
         (arm_name, description) # definitions))"

definition setup_errors :: "string \<Rightarrow> string \<Rightarrow> string \<Rightarrow> string \<Rightarrow> string \<Rightarrow> nat option \<Rightarrow> nat option \<Rightarrow> (string \<times> form_message) list" where
  "setup_errors name campaign_id target_metric starts_on ends_on campaign window =
    (if py_strip name = [] then [(''name'', Required)]
     else if length (py_strip name) > NAME_MAX then [(''name'', TooLong)] else [])
    @ (if campaign_id \<noteq> [] \<and> campaign = None then [(''campaign_id'', NotInList)] else [])
    @ (if target_metric \<notin> set TARGET_METRICS then [(''target_metric'', NotInList)] else [])
    @ (if starts_on = [] then [(''starts_on'', Required)]
       else if parse_date starts_on = None then [(''starts_on'', NotADate)] else [])
    @ (if ends_on = [] then []
       else case parse_date ends_on of
           None \<Rightarrow> [(''ends_on'', NotADate)]
         | Some e \<Rightarrow>
             (case (if starts_on = [] then None else parse_date starts_on) of
                Some s \<Rightarrow> if e < s then [(''ends_on'', EndsBeforeStart)] else []
              | None \<Rightarrow> []))
    @ (if window = None then [(''conversion_window_days'', WindowOutOfRange)] else [])"

record creation_fields =
  cf_origin :: "string option"
  cf_treatments :: "string option"
  cf_control_group :: "string option"
  cf_control_mode :: "string option"
  cf_group_names :: "(string \<times> string) list"
  cf_group_descriptions :: "(string \<times> string) list"
  cf_arm_fields :: "(string \<times> string) list"

definition selected_control :: "creation_fields \<Rightarrow> string" where
  "selected_control f =
    (let raw = (case cf_control_group f of Some c \<Rightarrow> Some c | None \<Rightarrow> cf_control_mode f)
     in upper (py_strip (case raw of None \<Rightarrow> ''CONTROL'' | Some r \<Rightarrow> if r = [] then ''CONTROL'' else r)))"

definition creation_errors ::
  "creation_fields \<Rightarrow> value_error + (string \<times> form_message) list \<times> nat option \<times> bool \<times> (string \<times> string) list" where
  "creation_errors f =
    (let selected = selected_control f;
         no_control = (selected \<in> set NO_CONTROL_VALUES);
         errors = (if selected \<noteq> ''CONTROL'' \<and> \<not> no_control then [(''control_group'', ChooseControl)] else [])
           @ (if (case cf_origin f of None \<Rightarrow> True | Some og \<Rightarrow> og \<notin> set DATA_ORIGINS) then [(''data_origin'', ChooseOrigin)] else []);
         minimum = (if no_control then 2 else 1)
     in case parse_whole (case cf_treatments f of None \<Rightarrow> [] | Some r \<Rightarrow> r) minimum TREATMENT_GROUPS_MAX of
         Inl e \<Rightarrow> Inl e
       | Inr parsed \<Rightarrow>
           (let treatments = (if no_control \<and> parsed \<noteq> None \<and> parsed \<noteq> Some 2 then None else parsed)
            in case treatments of
                None \<Rightarrow> Inr (errors @ [(''treatment_groups'', if no_control then NeedsExactlyTwo else NeedsATreatment)], None, \<not> no_control, [])
              | Some n \<Rightarrow>
                  (let keys = arm_keys (\<not> no_control) n;
                       names = (if cf_group_names f \<noteq> [] then get_or_empty (cf_group_names f)
                                else (\<lambda>key. get_or_empty (cf_arm_fields f) (key @ ''_name'')));
                       descriptions = (if cf_group_descriptions f \<noteq> [] then get_or_empty (cf_group_descriptions f)
                                       else (\<lambda>key. get_or_empty (cf_arm_fields f) (key @ ''_description'')));
                       (arm_errors, definitions) = arm_definitions names descriptions keys
                   in Inr (errors @ arm_errors, Some n, \<not> no_control, definitions))))"

text \<open>\<open>creating\<close> when a data origin or a number of treatment groups was given.\<close>

definition validate_experiment ::
  "string \<Rightarrow> string \<Rightarrow> string \<Rightarrow> string \<Rightarrow> string \<Rightarrow> string \<Rightarrow> creation_fields
    \<Rightarrow> value_error + experiment_input option \<times> (string \<times> form_message) list" where
  "validate_experiment name campaign_id target_metric starts_on ends_on window_raw f =
    (case (if campaign_id = [] then Inr None else parse_whole campaign_id 1 (2 ^ 31 - 1)) of
       Inl e \<Rightarrow> Inl e
     | Inr campaign \<Rightarrow>
         (case parse_whole window_raw 1 WINDOW_MAX_DAYS of
            Inl e \<Rightarrow> Inl e
          | Inr window \<Rightarrow>
              (let creating = (cf_origin f \<noteq> None \<or> cf_treatments f \<noteq> None)
               in case (if creating then creation_errors f else Inr ([], None, True, [])) of
                   Inl e \<Rightarrow> Inl e
                 | Inr (added, treatments, has_control, definitions) \<Rightarrow>
                     (let errors = setup_errors name campaign_id target_metric starts_on ends_on campaign window @ added
                      in if errors \<noteq> [] then Inr (None, errors)
                         else Inr (Some \<lparr>in_name = py_strip name, in_campaign = campaign, in_metric = target_metric,
                                in_starts = the (parse_date starts_on),
                                in_ends = (if ends_on = [] then None else parse_date ends_on),
                                in_window = the window, in_origin = (if creating then cf_origin f else None),
                                in_treatments = treatments, in_has_control = has_control,
                                in_definitions = definitions\<rparr>, [])))))"

section \<open>Reading and creating\<close>

definition CONTROL :: string where "CONTROL = ''CONTROL''"
definition TREATMENT :: string where "TREATMENT = ''TREATMENT''"

text \<open>A row of the table with the counts and the campaign's name every read joins to it.\<close>

record experiment_view =
  x_row :: experiment_row
  x_campaign_name :: "string option"
  x_control_groups :: nat
  x_treatment_groups :: nat
  x_assignments :: nat
  x_seeded_conversion :: bool

definition groups_of_kind :: "exp_db \<Rightarrow> nat \<Rightarrow> string \<Rightarrow> group_row list" where
  "groups_of_kind d i kind = filter (\<lambda>g. gr_experiment g = i \<and> gr_kind g = kind) (xd_groups d)"

definition assignments_of :: "exp_db \<Rightarrow> nat \<Rightarrow> assignment_row list" where
  "assignments_of d i = filter (\<lambda>a. as_experiment a = i) (xd_assignments d)"

definition sale_of :: "exp_db \<Rightarrow> nat \<Rightarrow> sale_row option" where
  "sale_of d i = find (\<lambda>t. sl_id t = i) (xd_sales d)"

definition seeded_conversion :: "exp_db \<Rightarrow> nat \<Rightarrow> bool" where
  "seeded_conversion d i \<longleftrightarrow> list_ex (\<lambda>a. list_ex (\<lambda>c. cv_assignment c = as_id a
     \<and> (case sale_of d (cv_sale c) of None \<Rightarrow> False | Some t \<Rightarrow> sl_origin t = ''SEEDED'')) (xd_conversions d)) (assignments_of d i)"

definition get_campaign :: "exp_db \<Rightarrow> nat \<Rightarrow> campaign_row option" where
  "get_campaign d i = find (\<lambda>c. cp_id c = i) (xd_campaigns d)"

definition get_campaign_status :: "exp_db \<Rightarrow> nat \<Rightarrow> string option" where
  "get_campaign_status d i = map_option cp_status (get_campaign d i)"

definition experiment_row_of :: "exp_db \<Rightarrow> nat \<Rightarrow> experiment_row option" where
  "experiment_row_of d i = find (\<lambda>e. xr_id e = i) (xd_experiments d)"

definition get_experiment :: "exp_db \<Rightarrow> nat \<Rightarrow> experiment_view option" where
  "get_experiment d i = map_option (\<lambda>e.
     \<lparr>x_row = e,
      x_campaign_name = (case xr_campaign e of None \<Rightarrow> None | Some c \<Rightarrow> map_option cp_name (get_campaign d c)),
      x_control_groups = length (groups_of_kind d i CONTROL),
      x_treatment_groups = length (groups_of_kind d i TREATMENT),
      x_assignments = length (assignments_of d i),
      x_seeded_conversion = seeded_conversion d i\<rparr>) (experiment_row_of d i)"

text \<open>\<open>SELECT ... FOR UPDATE\<close>: within one unit of work the lock is whether the row exists.\<close>

definition lock_experiment :: "exp_db \<Rightarrow> nat \<Rightarrow> bool" where
  "lock_experiment d i \<longleftrightarrow> experiment_row_of d i \<noteq> None"

text \<open>What the columns, the constraints and the foreign key of \<open>experiment\<close> refuse, in that order.\<close>

definition experiment_refused :: "exp_db \<Rightarrow> experiment_row \<Rightarrow> experiment_error option" where
  "experiment_refused d e =
    (if length (xr_name e) > 120 \<or> length (xr_metric e) > 60 \<or> xr_window e > 32767 then Some (ValueTooLong ''experiment'')
     else if xr_window e = 0 then Some (Integrity (CheckViolation ''experiment_conversion_window_days_check''))
     else if xr_origin e \<notin> set DATA_ORIGINS then Some (Integrity (CheckViolation ''experiment_data_origin_check''))
     else if (case xr_ends e of None \<Rightarrow> False | Some x \<Rightarrow> x < xr_starts e) then Some (Integrity (CheckViolation ''experiment_check''))
     else if (case xr_campaign e of None \<Rightarrow> False | Some c \<Rightarrow> get_campaign d c = None)
       then Some (Integrity (ForeignKeyViolation ''experiment_campaign_id_fkey''))
     else None)"

definition group_refused :: "group_row \<Rightarrow> experiment_error option" where
  "group_refused g =
    (if length (gr_name g) > 120 \<or> length (gr_description g) > 500 then Some (ValueTooLong ''experiment_group'')
     else if gr_kind g \<notin> {CONTROL, TREATMENT} then Some (Integrity (CheckViolation ''experiment_group_kind_check''))
     else if (\<forall>c\<in>set (gr_name g). c = CHR '' '') \<or> (\<forall>c\<in>set (gr_description g). c = CHR '' '')
       then Some (Integrity (CheckViolation ''experiment_group_check''))
     else None)"

fun first_refusal :: "('a \<Rightarrow> 'e option) \<Rightarrow> 'a list \<Rightarrow> 'e option" where
  "first_refusal f [] = None"
| "first_refusal f (x # xs) = (case f x of Some e \<Rightarrow> Some e | None \<Rightarrow> first_refusal f xs)"

definition next_id :: "nat list \<Rightarrow> nat" where
  "next_id ids = Suc (fold max ids 0)"

definition arm_kinds :: "bool \<Rightarrow> nat \<Rightarrow> string list" where
  "arm_kinds control_group treatment_groups = (if control_group then [CONTROL] else []) @ replicate treatment_groups TREATMENT"

definition new_groups :: "exp_db \<Rightarrow> nat \<Rightarrow> string list \<Rightarrow> (string \<times> string) list \<Rightarrow> group_row list" where
  "new_groups d i kinds definitions =
    map (\<lambda>(offset, kind, arm_name, description).
        \<lparr>gr_id = fold max (map gr_id (xd_groups d)) 0 + offset, gr_experiment = i, gr_kind = kind, gr_name = arm_name,
         gr_description = description\<rparr>)
      (enumerate 1 (zip kinds definitions))"

definition db_create_experiment ::
  "experiment_input \<Rightarrow> string \<Rightarrow> nat \<Rightarrow> exp_db \<Rightarrow> (experiment_error + nat option) \<times> exp_db" where
  "db_create_experiment x data_origin treatment_groups d =
    (let control_group = in_has_control x;
         definitions = in_definitions x;
         kinds = arm_kinds control_group treatment_groups
     in if \<not> control_group \<and> treatment_groups \<noteq> 2 then (Inl (BadArms NoControlNeedsTwoTreatments), d)
        else if treatment_groups < 1 then (Inl (BadArms NoTreatment), d)
        else if definitions = [] then (Inl (BadArms OneDefinitionPerArm), d)
        else if length definitions \<noteq> length kinds then (Inl (BadArms OneDefinitionPerArm), d)
        else if list_ex (\<lambda>(arm_name, description). py_strip arm_name = [] \<or> py_strip description = []) definitions
          then (Inl (BadArms BlankDefinition), d)
        else if list_ex (\<lambda>e. xr_name e = in_name x \<and> xr_campaign e = in_campaign x \<and> xr_starts e = in_starts x) (xd_experiments d)
          then (Inr None, d)
        else (let i = next_id (map xr_id (xd_experiments d));
                  e = \<lparr>xr_id = i, xr_name = in_name x, xr_campaign = in_campaign x, xr_metric = in_metric x,
                       xr_starts = in_starts x, xr_ends = in_ends x, xr_window = in_window x, xr_origin = data_origin\<rparr>;
                  gs = new_groups d i kinds definitions
              in case experiment_refused d e of
                  Some r \<Rightarrow> (Inl r, d)
                | None \<Rightarrow>
                    (let d' = d\<lparr>xd_experiments := xd_experiments d @ [e]\<rparr>
                     in case first_refusal group_refused gs of
                         Some r \<Rightarrow> (Inl r, d')
                       | None \<Rightarrow> (Inr (Some i), d'\<lparr>xd_groups := xd_groups d' @ gs\<rparr>))))"

definition db_update_experiment :: "nat \<Rightarrow> experiment_input \<Rightarrow> exp_db \<Rightarrow> (experiment_error + bool) \<times> exp_db" where
  "db_update_experiment i x d =
    (let edit = (\<lambda>e. e\<lparr>xr_name := in_name x, xr_campaign := in_campaign x, xr_metric := in_metric x, xr_starts := in_starts x,
                      xr_ends := in_ends x, xr_window := in_window x\<rparr>)
     in case experiment_row_of d i of
         None \<Rightarrow> (Inr False, d)
       | Some e \<Rightarrow>
           (case experiment_refused d (edit e) of
              Some r \<Rightarrow> (Inl r, d)
            | None \<Rightarrow> (Inr True, d\<lparr>xd_experiments := map (\<lambda>e. if xr_id e = i then edit e else e) (xd_experiments d)\<rparr>)))"

section \<open>The service: creating and editing\<close>

definition CAMPAIGN_OVER :: "string list" where "CAMPAIGN_OVER = [''FINISHED'', ''CANCELLED'']"
definition EXPOSURE_REPEAT_SECONDS :: int where "EXPOSURE_REPEAT_SECONDS = 60"

definition refusal_of :: "violation \<Rightarrow> experiment_error" where
  "refusal_of v = (case v of ForeignKeyViolation _ \<Rightarrow> ExperimentRefused ''campaign_id'' CampaignDoesNotExist
     | _ \<Rightarrow> ExperimentRefused [] RefusedByConstraint)"

definition over_campaign :: "exp_db \<Rightarrow> nat \<Rightarrow> string option" where
  "over_campaign d c = (case get_campaign_status d c of None \<Rightarrow> None | Some st \<Rightarrow> if st \<in> set CAMPAIGN_OVER then Some st else None)"

definition create_experiment_body :: "experiment_input \<Rightarrow> string \<Rightarrow> nat \<Rightarrow> exp_db \<Rightarrow> (experiment_error + nat) \<times> exp_db" where
  "create_experiment_body x data_origin treatment_groups d =
    (case (case in_campaign x of None \<Rightarrow> None | Some c \<Rightarrow> map_option (\<lambda>st. (c, st)) (over_campaign d c)) of
       Some (c, st) \<Rightarrow> (Inl (ExperimentRefused ''campaign_id'' (CampaignIsOver c st)), d)
     | None \<Rightarrow>
         (case db_create_experiment x data_origin treatment_groups d of
            (Inl e, d') \<Rightarrow> (Inl e, d')
          | (Inr None, d') \<Rightarrow> (Inl (ExperimentRefused [] AlreadyExists), d')
          | (Inr (Some i), d') \<Rightarrow> (Inr i, d')))"

text \<open>\<open>except IntegrityError as error: raise _refusal(error)\<close>, around the unit of work.\<close>

definition translating :: "(exp_db, experiment_error, 'a) operation \<Rightarrow> (exp_db, experiment_error, 'a) operation" where
  "translating f owned s = (case f owned s of (Inl (Integrity v), s') \<Rightarrow> (Inl (refusal_of v), s') | r \<Rightarrow> r)"

definition create_experiment :: "experiment_input \<Rightarrow> (exp_db, experiment_error, nat) operation" where
  "create_experiment x owned s =
    (case (in_origin x, in_treatments x) of
       (Some data_origin, Some treatment_groups) \<Rightarrow>
         if in_definitions x = [] then (Inl MissingArguments, s)
         else translating (atomic (statements (create_experiment_body x data_origin treatment_groups))) owned s
     | _ \<Rightarrow> (Inl MissingArguments, s))"

text \<open>The loop over the frame: the first field that changed.\<close>

definition frame_changes :: "experiment_input \<Rightarrow> experiment_row \<Rightarrow> (string \<times> string) list" where
  "frame_changes x e =
    (if in_campaign x \<noteq> xr_campaign e then [(''campaign_id'', ''campaign'')] else [])
    @ (if in_starts x \<noteq> xr_starts e then [(''starts_on'', ''start date'')] else [])
    @ (if in_ends x \<noteq> xr_ends e then [(''ends_on'', ''end date'')] else [])"

definition update_experiment_body :: "nat \<Rightarrow> experiment_input \<Rightarrow> exp_db \<Rightarrow> (experiment_error + unit) \<times> exp_db" where
  "update_experiment_body i x d =
    (if \<not> lock_experiment d i then (Inl (ExperimentNotFound i), d)
     else case get_experiment d i of
       None \<Rightarrow> (Inl (ExperimentNotFound i), d)
     | Some cur \<Rightarrow>
         (let n = x_assignments cur;
              e = x_row cur;
              write = (case db_update_experiment i x d of (Inl r, d') \<Rightarrow> (Inl r, d') | (Inr _, d') \<Rightarrow> (Inr (), d'))
          in if n \<noteq> 0
             then (if in_window x \<noteq> xr_window e
                   then (Inl (ExperimentRefused ''conversion_window_days'' (FixedAfterAssignment i n ''conversion window'')), d)
                   else if in_metric x \<noteq> xr_metric e
                   then (Inl (ExperimentRefused ''target_metric'' (FixedAfterAssignment i n ''target metric'')), d)
                   else case frame_changes x e of
                       (field, what) # _ \<Rightarrow> (Inl (ExperimentRefused field (FixedAfterAssignment i n what)), d)
                     | [] \<Rightarrow> write)
             else case (if in_campaign x \<noteq> xr_campaign e then in_campaign x else None) of
                 None \<Rightarrow> write
               | Some c \<Rightarrow>
                   (case over_campaign d c of
                      Some st \<Rightarrow> (Inl (ExperimentRefused ''campaign_id'' (CampaignIsOver c st)), d)
                    | None \<Rightarrow> write)))"

definition update_experiment :: "nat \<Rightarrow> experiment_input \<Rightarrow> (exp_db, experiment_error, unit) operation" where
  "update_experiment i x = translating (atomic (statements (update_experiment_body i x)))"

text \<open>The counts of \<open>list_group_counts_for_campaign\<close>, and the check a campaign's activation makes.\<close>

definition list_group_counts_for_campaign :: "exp_db \<Rightarrow> nat \<Rightarrow> (nat \<times> string \<times> nat \<times> nat) list" where
  "list_group_counts_for_campaign d c =
    map (\<lambda>e. (xr_id e, xr_name e, length (groups_of_kind d (xr_id e) CONTROL), length (groups_of_kind d (xr_id e) TREATMENT)))
      (sort_key xr_id (filter (\<lambda>e. xr_campaign e = Some c) (xd_experiments d)))"

datatype activation_problem = NoControlNeedsTwo nat nat string | NoTreatmentIn nat nat string

fun first_problem :: "nat \<Rightarrow> (nat \<times> string \<times> nat \<times> nat) list \<Rightarrow> activation_problem option" where
  "first_problem c [] = None"
| "first_problem c ((i, name, controls, treatments) # rest) =
    (if controls = 0 \<and> treatments \<noteq> 2 then Some (NoControlNeedsTwo c i name)
     else if treatments < 1 then Some (NoTreatmentIn c i name)
     else first_problem c rest)"

definition activation_refusal :: "exp_db \<Rightarrow> nat \<Rightarrow> activation_problem option" where
  "activation_refusal d c = first_problem c (list_group_counts_for_campaign d c)"

section \<open>Assignment\<close>

definition CAMPAIGN_ACTIVE :: string where "CAMPAIGN_ACTIVE = ''ACTIVE''"

record arm =
  arm_group :: nat
  arm_kind :: string
  arm_customers :: "nat list"
  arm_name :: string
  arm_description :: string

record assignment_plan =
  pl_experiment :: experiment_view
  pl_label :: string
  pl_arms :: "arm list"

definition plan_population :: "assignment_plan \<Rightarrow> nat" where
  "plan_population p = sum_list (map (\<lambda>a. length (arm_customers a)) (pl_arms p))"

text \<open>\<open>ORDER BY kind <> 'CONTROL', group_id\<close>\<close>

definition ordered_groups :: "exp_db \<Rightarrow> nat \<Rightarrow> group_row list" where
  "ordered_groups d i =
    sort_key (\<lambda>g. (gr_kind g \<noteq> CONTROL, gr_id g)) (filter (\<lambda>g. gr_experiment g = i) (xd_groups d))"

definition list_groups :: "exp_db \<Rightarrow> nat \<Rightarrow> (nat \<times> string) list" where
  "list_groups d i = map (\<lambda>g. (gr_id g, gr_kind g)) (ordered_groups d i)"

definition list_group_definitions :: "exp_db \<Rightarrow> nat \<Rightarrow> (group_row \<times> nat) list" where
  "list_group_definitions d i =
    map (\<lambda>g. (g, length (filter (\<lambda>a. as_group a = gr_id g) (xd_assignments d)))) (ordered_groups d i)"

definition read_target_population :: "exp_db \<Rightarrow> string \<Rightarrow> nat list" where
  "read_target_population d label_code =
    sort (map h_customer (filter (\<lambda>h. h_to h = None \<and> h_label h = Some label_code) (xd_history d)))"

text \<open>\<open>shuffle seed xs\<close> is \<open>random.Random(seed).shuffle(xs)\<close>; \<open>dealt\<close> is the dictionary the loop fills.\<close>

type_synonym shuffler = "string \<Rightarrow> nat list \<Rightarrow> nat list"

definition deal_step :: "(nat \<times> string) list \<Rightarrow> nat \<times> nat \<Rightarrow> (nat \<Rightarrow> nat list) \<Rightarrow> nat \<Rightarrow> nat list" where
  "deal_step groups = (\<lambda>(position, customer) dealt.
    (let g = fst (groups ! (position mod length groups)) in dealt(g := dealt g @ [customer])))"

definition split :: "shuffler \<Rightarrow> nat \<Rightarrow> nat list \<Rightarrow> (nat \<times> string) list \<Rightarrow> experiment_error + arm list" where
  "split shuffle i customers groups =
    (let order = shuffle (''experiment-'' @ show_nat i) (sort customers)
     in if order \<noteq> [] \<and> groups = [] then Inl ZeroDivision
        else let dealt = fold (deal_step groups) (enumerate 0 order) (\<lambda>_. [])
             in Inr (map (\<lambda>(g, kind). \<lparr>arm_group = g, arm_kind = kind, arm_customers = dealt g, arm_name = [], arm_description = []\<rparr>) groups))"

text \<open>\<open>str.title()\<close> on the two kinds, for an arm without a definition.\<close>

definition title_kind :: "string \<Rightarrow> string" where
  "title_kind kind = (if kind = CONTROL then ''Control'' else ''Treatment'')"

definition described :: "(group_row \<times> nat) list \<Rightarrow> arm \<Rightarrow> arm" where
  "described definitions a =
    (case find (\<lambda>(g, n). gr_id g = arm_group a) definitions of
       None \<Rightarrow> a\<lparr>arm_name := title_kind (arm_kind a), arm_description := []\<rparr>
     | Some (g, n) \<Rightarrow> a\<lparr>arm_name := gr_name g, arm_description := gr_description g\<rparr>)"

definition plan_assignment :: "shuffler \<Rightarrow> exp_db \<Rightarrow> nat \<Rightarrow> experiment_error + assignment_plan" where
  "plan_assignment shuffle d i =
    (case get_experiment d i of
       None \<Rightarrow> Inl (ExperimentNotFound i)
     | Some x \<Rightarrow>
         if x_assignments x \<noteq> 0 then Inl (AssignmentRefused (AlreadyAssigned i (x_assignments x)))
         else case xr_campaign (x_row x) of
             None \<Rightarrow> Inl (AssignmentRefused (NoCampaign i))
           | Some c \<Rightarrow>
               (case get_campaign d c of
                  None \<Rightarrow> Inl (AssignmentRefused (CampaignIs c None))
                | Some campaign \<Rightarrow>
                    if cp_status campaign \<noteq> CAMPAIGN_ACTIVE then Inl (AssignmentRefused (CampaignIs c (Some (cp_status campaign))))
                    else if x_control_groups x = 0 \<and> x_treatment_groups x \<noteq> 2
                      then Inl (AssignmentRefused (NoControlAndNotTwoTreatments i))
                    else if x_treatment_groups x < 1 then Inl (AssignmentRefused (NoTreatmentGroup i))
                    else let customers = read_target_population d (cp_label campaign);
                             groups = list_groups d i
                         in if customers = [] then Inl (AssignmentRefused (NobodyHoldsLabel (cp_label campaign)))
                            else if length customers < length groups
                              then Inl (AssignmentRefused (TooFewCustomers i (length groups)))
                            else case split shuffle i customers groups of
                                Inl e \<Rightarrow> Inl e
                              | Inr arms \<Rightarrow> Inr \<lparr>pl_experiment = x, pl_label = cp_label campaign,
                                    pl_arms = map (described (list_group_definitions d i)) arms\<rparr>))"

text \<open>The rows of one assignment carry one instant; \<open>UNIQUE (experiment_id, customer_id)\<close> and the two foreign keys.\<close>

definition assignment_refused :: "exp_db \<Rightarrow> assignment_row \<Rightarrow> violation option" where
  "assignment_refused d a =
    (if list_ex (\<lambda>b. as_experiment b = as_experiment a \<and> as_customer b = as_customer a) (xd_assignments d)
       then Some (UniqueViolation ''experiment_assignment_experiment_id_customer_id_key'')
     else if as_customer a \<notin> set (xd_customers d) then Some (ForeignKeyViolation ''experiment_assignment_customer_id_fkey'')
     else if \<not> list_ex (\<lambda>g. gr_id g = as_group a \<and> gr_experiment g = as_experiment a) (xd_groups d)
       then Some (ForeignKeyViolation ''experiment_assignment_group_id_experiment_id_fkey'')
     else None)"

fun insert_assignments :: "int \<Rightarrow> nat \<Rightarrow> (nat \<times> nat) list \<Rightarrow> exp_db \<Rightarrow> (experiment_error + unit) \<times> exp_db" where
  "insert_assignments now i [] d = (Inr (), d)"
| "insert_assignments now i ((g, c) # rows) d =
    (let a = \<lparr>as_id = xd_next_assignment d, as_experiment = i, as_group = g, as_customer = c, as_at = now\<rparr>
     in case assignment_refused d a of
         Some v \<Rightarrow> (Inl (Integrity v), d)
       | None \<Rightarrow> insert_assignments now i rows
           (d\<lparr>xd_assignments := xd_assignments d @ [a], xd_next_assignment := Suc (xd_next_assignment d)\<rparr>))"

definition assign_body :: "shuffler \<Rightarrow> int \<Rightarrow> nat \<Rightarrow> exp_db \<Rightarrow> (experiment_error + assignment_plan) \<times> exp_db" where
  "assign_body shuffle now i d =
    (if \<not> lock_experiment d i then (Inl (ExperimentNotFound i), d)
     else case plan_assignment shuffle d i of
         Inl e \<Rightarrow> (Inl e, d)
       | Inr plan \<Rightarrow>
           (case insert_assignments now i (concat (map (\<lambda>a. map (\<lambda>c. (arm_group a, c)) (arm_customers a)) (pl_arms plan))) d of
              (Inl e, d') \<Rightarrow> (Inl e, d')
            | (Inr _, d') \<Rightarrow> (Inr plan, d')))"

text \<open>\<open>except UniqueViolation\<close>, around the unit of work.\<close>

definition assign :: "shuffler \<Rightarrow> int \<Rightarrow> nat \<Rightarrow> (exp_db, experiment_error, assignment_plan) operation" where
  "assign shuffle now i owned s =
    (case atomic (statements (assign_body shuffle now i)) owned s of
       (Inl (Integrity (UniqueViolation c)), s') \<Rightarrow> (Inl (AssignmentRefused (CustomerAlreadyAssigned i)), s')
     | r \<Rightarrow> r)"

section \<open>Exposure\<close>

definition group_of :: "exp_db \<Rightarrow> nat \<Rightarrow> group_row option" where
  "group_of d g = find (\<lambda>x. gr_id x = g) (xd_groups d)"

definition find_assignment :: "exp_db \<Rightarrow> nat \<Rightarrow> nat \<Rightarrow> (nat \<times> string) option" where
  "find_assignment d i c =
    (case find (\<lambda>a. as_experiment a = i \<and> as_customer a = c \<and> group_of d (as_group a) \<noteq> None) (xd_assignments d) of
       None \<Rightarrow> None
     | Some a \<Rightarrow> Some (as_id a, gr_kind (the (group_of d (as_group a)))))"

definition assignment_row_of :: "exp_db \<Rightarrow> nat \<Rightarrow> assignment_row option" where
  "assignment_row_of d i = find (\<lambda>a. as_id a = i) (xd_assignments d)"

text \<open>\<open>trg_experiment_exposure_treatment_only\<close>: the schema refuses an exposure of the control group too.\<close>

definition control_assignment :: "exp_db \<Rightarrow> nat \<Rightarrow> bool" where
  "control_assignment d aid \<longleftrightarrow> list_ex (\<lambda>a. as_id a = aid
     \<and> list_ex (\<lambda>g. gr_id g = as_group a \<and> gr_experiment g = as_experiment a \<and> gr_kind g = CONTROL) (xd_groups d)) (xd_assignments d)"

definition insert_exposure :: "int \<Rightarrow> nat \<Rightarrow> exp_db \<Rightarrow> (experiment_error + bool) \<times> exp_db" where
  "insert_exposure now aid d =
    (if list_ex (\<lambda>x. eo_assignment x = aid \<and> now - EXPOSURE_REPEAT_SECONDS * 1000000 < eo_at x) (xd_exposures d) then (Inr False, d)
     else if control_assignment d aid then (Inl (Integrity (CheckViolation ''experiment_exposure_treatment_only'')), d)
     else if assignment_row_of d aid = None then (Inl (Integrity (ForeignKeyViolation ''experiment_exposure_assignment_id_fkey'')), d)
     else (Inr True, d\<lparr>xd_exposures := xd_exposures d @ [\<lparr>eo_assignment = aid, eo_at = now\<rparr>]\<rparr>))"

definition exposure_frame :: "exp_db \<Rightarrow> experiment_row \<Rightarrow> int \<Rightarrow> exposure_refusal option" where
  "exposure_frame d e today =
    (if today < xr_starts e then Some (BeforeStart (xr_id e) (xr_starts e))
     else case (case xr_ends e of None \<Rightarrow> None | Some x \<Rightarrow> if x < today then Some x else None) of
         Some x \<Rightarrow> Some (AfterEnd (xr_id e) x)
       | None \<Rightarrow>
           (case xr_campaign e of
              None \<Rightarrow> None
            | Some c \<Rightarrow> map_option (CampaignOver c) (over_campaign d c)))"

definition record_exposure_body :: "int \<Rightarrow> int \<Rightarrow> nat \<Rightarrow> nat \<Rightarrow> exp_db \<Rightarrow> (experiment_error + bool) \<times> exp_db" where
  "record_exposure_body now today i c d =
    (if \<not> lock_experiment d i then (Inl (ExperimentNotFound i), d)
     else case find_assignment d i c of
         None \<Rightarrow> (Inl (ExposureRefused (NotAssigned i c)), d)
       | Some (aid, kind) \<Rightarrow>
           if kind = CONTROL then (Inl (ExposureRefused (ControlNeverExposed c)), d)
           else case get_experiment d i of
               None \<Rightarrow> (Inl (ExperimentNotFound i), d)
             | Some x \<Rightarrow>
                 (case exposure_frame d (x_row x) today of
                    Some r \<Rightarrow> (Inl (ExposureRefused r), d)
                  | None \<Rightarrow> insert_exposure now aid d))"

definition record_exposure :: "int \<Rightarrow> int \<Rightarrow> nat \<Rightarrow> nat \<Rightarrow> (exp_db, experiment_error, bool) operation" where
  "record_exposure now today i c = atomic (statements (record_exposure_body now today i c))"

definition list_assignment_ids :: "exp_db \<Rightarrow> nat \<Rightarrow> nat \<Rightarrow> nat list \<Rightarrow> nat list" where
  "list_assignment_ids d i g customers =
    sort (map as_id (filter (\<lambda>a. as_experiment a = i \<and> as_group a = g
        \<and> (case group_of d (as_group a) of None \<Rightarrow> False | Some x \<Rightarrow> gr_kind x = TREATMENT)
        \<and> (customers = [] \<or> as_customer a \<in> set customers)) (xd_assignments d)))"

fun insert_exposures :: "int \<Rightarrow> nat list \<Rightarrow> exp_db \<Rightarrow> (experiment_error + nat) \<times> exp_db" where
  "insert_exposures now [] d = (Inr 0, d)"
| "insert_exposures now (aid # aids) d =
    (case insert_exposure now aid d of
       (Inl e, d') \<Rightarrow> (Inl e, d')
     | (Inr b, d') \<Rightarrow>
         (case insert_exposures now aids d' of
            (Inl e, d'') \<Rightarrow> (Inl e, d'')
          | (Inr n, d'') \<Rightarrow> (Inr ((if b then 1 else 0) + n), d'')))"

definition record_group_exposures_body ::
  "int \<Rightarrow> int \<Rightarrow> nat \<Rightarrow> nat \<Rightarrow> nat list \<Rightarrow> exp_db \<Rightarrow> (experiment_error + nat) \<times> exp_db" where
  "record_group_exposures_body now today i g customers d =
    (if \<not> lock_experiment d i then (Inl (ExperimentNotFound i), d)
     else case find (\<lambda>x. gr_id x = g) (map fst (list_group_definitions d i)) of
         None \<Rightarrow> (Inl (ExposureRefused (ArmNotOfExperiment g i)), d)
       | Some grp \<Rightarrow>
           if gr_kind grp = CONTROL then (Inl (ExposureRefused (ArmIsControl (gr_name grp))), d)
           else case get_experiment d i of
               None \<Rightarrow> (Inl (ExperimentNotFound i), d)
             | Some x \<Rightarrow>
                 (case exposure_frame d (x_row x) today of
                    Some r \<Rightarrow> (Inl (ExposureRefused r), d)
                  | None \<Rightarrow>
                      (let ids = list_assignment_ids d i g customers
                       in if customers \<noteq> [] \<and> length ids \<noteq> length customers then (Inl (ExposureRefused NotInThisArm), d)
                          else insert_exposures now ids d)))"

text \<open>\<open>parse_uuid\<close> is \<open>uuid.UUID\<close> on the stripped text, None where it raises \<open>ValueError\<close>.\<close>

definition parse_customer_id :: "(string \<Rightarrow> nat option) \<Rightarrow> string \<Rightarrow> nat option" where
  "parse_customer_id parse_uuid raw = parse_uuid (py_strip raw)"

definition record_group_exposures ::
  "(string \<Rightarrow> nat option) \<Rightarrow> int \<Rightarrow> int \<Rightarrow> nat \<Rightarrow> nat \<Rightarrow> string list option \<Rightarrow> (exp_db, experiment_error, nat) operation" where
  "record_group_exposures parse_uuid now today i g selected owned s =
    (if selected = Some [] then (Inl (ExposureRefused NobodySelected), s)
     else let parsed = map (parse_customer_id parse_uuid) (case selected of None \<Rightarrow> [] | Some cs \<Rightarrow> cs)
          in if list_ex (\<lambda>v. v = None) parsed then (Inl (ExposureRefused NotAUuid), s)
             else atomic (statements (record_group_exposures_body now today i g (map the parsed))) owned s)"

record group_exposure =
  ge_group :: nat
  ge_kind :: string
  ge_assigned :: nat
  ge_exposed :: nat
  ge_name :: string
  ge_description :: string

definition exposed :: "exp_db \<Rightarrow> nat \<Rightarrow> bool" where
  "exposed d aid \<longleftrightarrow> list_ex (\<lambda>x. eo_assignment x = aid) (xd_exposures d)"

definition list_group_exposure :: "exp_db \<Rightarrow> nat \<Rightarrow> group_exposure list" where
  "list_group_exposure d i = map (\<lambda>g.
     (let mine = filter (\<lambda>a. as_group a = gr_id g) (xd_assignments d)
      in \<lparr>ge_group = gr_id g, ge_kind = gr_kind g, ge_assigned = length mine,
          ge_exposed = length (filter (\<lambda>a. exposed d (as_id a)) mine), ge_name = gr_name g, ge_description = gr_description g\<rparr>)) (ordered_groups d i)"

definition treatment_assigned :: "group_exposure list \<Rightarrow> nat" where
  "treatment_assigned gs = sum_list (map ge_assigned (filter (\<lambda>g. ge_kind g = TREATMENT) gs))"

definition treatment_exposed :: "group_exposure list \<Rightarrow> nat" where
  "treatment_exposed gs = sum_list (map ge_exposed (filter (\<lambda>g. ge_kind g = TREATMENT) gs))"

definition not_exposed :: "group_exposure list \<Rightarrow> int" where
  "not_exposed gs = int (treatment_assigned gs) - int (treatment_exposed gs)"

definition exposure_rate :: "group_exposure list \<Rightarrow> real option" where
  "exposure_rate gs = (if treatment_assigned gs = 0 then None else Some (real (treatment_exposed gs) / real (treatment_assigned gs)))"

definition exposure_summary :: "exp_db \<Rightarrow> nat \<Rightarrow> experiment_error + experiment_view \<times> group_exposure list" where
  "exposure_summary d i =
    (case get_experiment d i of None \<Rightarrow> Inl (ExperimentNotFound i) | Some x \<Rightarrow> Inr (x, list_group_exposure d i))"

section \<open>Dealing the population\<close>

text \<open>Dealing round-robin: group \<open>k\<close> of \<open>n\<close> gets the customers at the positions congruent to \<open>k\<close>.\<close>

lemma deal_fold:
  "fold (deal_step groups) ps dealt g
    = dealt g @ map snd (filter (\<lambda>(p, c). fst (groups ! (p mod length groups)) = g) ps)"
  by (induction ps arbitrary: dealt) (auto simp: deal_step_def Let_def)

lemma count_residue:
  assumes "k < n"
  shows "length (filter (\<lambda>p. p mod n = k) [0..<N]) = N div n + (if k < N mod n then 1 else 0)"
proof (induction N)
  case (Suc N)
  have "Suc N div n = (if Suc (N mod n) = n then Suc (N div n) else N div n)"
    "Suc N mod n = (if Suc (N mod n) = n then 0 else Suc (N mod n))"
    by (simp_all add: div_Suc mod_Suc)
  with Suc assms show ?case by auto
qed (use assms in simp)

lemma length_filter_enumerate:
  "length (filter (\<lambda>(p, c). P p) (enumerate k xs)) = length (filter P [k..<k + length xs])"
proof (induction xs arbitrary: k)
  case (Cons x xs)
  then show ?case by (simp add: upt_conv_Cons del: upt_Suc)
qed simp

lemma nth_distinct_iff:
  assumes "distinct (map fst groups)" and "k < length groups" and "j < length groups"
  shows "fst (groups ! j) = fst (groups ! k) \<longleftrightarrow> j = k"
  using assms nth_eq_iff_index_eq [OF assms(1), of j k] by simp

lemma split_Inr:
  assumes "split shuffle i customers groups = Inr arms" and "distinct (map fst groups)" and "k < length groups"
  shows "arms ! k = \<lparr>arm_group = fst (groups ! k), arm_kind = snd (groups ! k),
      arm_customers = map snd (filter (\<lambda>(p, c). p mod length groups = k)
        (enumerate 0 (shuffle (''experiment-'' @ show_nat i) (sort customers)))), arm_name = [], arm_description = []\<rparr>"
proof -
  have "fst (groups ! (p mod length groups)) = fst (groups ! k) \<longleftrightarrow> p mod length groups = k" for p
  proof (rule nth_distinct_iff [OF assms(2,3)])
    show "p mod length groups < length groups" using assms(3) by (intro mod_less_divisor) linarith
  qed
  with assms(1,3) show ?thesis
    by (auto simp: split_def deal_fold Let_def split: if_splits prod.splits)
qed

lemma length_split: "split shuffle i customers groups = Inr arms \<Longrightarrow> length arms = length groups"
  by (auto simp: split_def Let_def split: if_splits)

lemma split_sizes:
  assumes "split shuffle i customers groups = Inr arms" and "distinct (map fst groups)" and "k < length groups"
    and "\<And>seed xs. mset (shuffle seed xs) = mset xs"
  shows "length (arm_customers (arms ! k))
    = length customers div length groups + (if k < length customers mod length groups then 1 else 0)"
proof -
  let ?order = "shuffle (''experiment-'' @ show_nat i) (sort customers)"
  have "length ?order = length customers" using assms(4) by (metis mset_sort size_mset)
  then show ?thesis
    using count_residue [OF assms(3), of "length customers"]
    by (simp add: split_Inr [OF assms(1-3)] length_filter_enumerate)
qed

lemma deal_all:
  assumes "0 < n"
  shows "mset (concat (map (\<lambda>k. map snd (filter (\<lambda>(p, c). p mod n = k) ps)) [0..<n])) = mset (map snd (ps :: (nat \<times> 'a) list))"
proof (induction ps)
  case Nil
  show ?case by (induction n) simp_all
next
  case (Cons q ps)
  obtain p c where q: "q = (p, c)" by (cases q)
  let ?f = "\<lambda>qs k. map snd (filter (\<lambda>(p, c). p mod n = k) qs)"
  have eq: "mset (?f ((p, c) # ps) k) = (if k = p mod n then {#c#} else {#}) + mset (?f ps k)" for k by simp
  have "mset (concat (map (?f ((p, c) # ps)) ks)) = (if p mod n \<in> set ks then {#c#} else {#}) + mset (concat (map (?f ps) ks))"
    if "distinct ks" for ks
    using that by (induction ks) (auto simp: eq simp del: filter.simps)
  from this [of "[0..<n]"] Cons assms show ?case by (simp add: q del: filter.simps)
qed

lemma split_partition:
  assumes "split shuffle i customers groups = Inr arms" and "distinct (map fst groups)" and "groups \<noteq> []"
    and "\<And>seed xs. mset (shuffle seed xs) = mset xs"
  shows "mset (concat (map arm_customers arms)) = mset customers"
proof -
  let ?order = "shuffle (''experiment-'' @ show_nat i) (sort customers)"
  have "map arm_customers arms = map (\<lambda>k. map snd (filter (\<lambda>(p, c). p mod length groups = k) (enumerate 0 ?order))) [0..<length groups]"
    using split_Inr [OF assms(1,2)] length_split [OF assms(1)] by (intro nth_equalityI) simp_all
  then have "mset (concat (map arm_customers arms)) = mset (map snd (enumerate 0 ?order))"
    using deal_all [of "length groups" "enumerate 0 ?order"] assms(3) by simp
  also have "\<dots> = mset customers" using assms(4) by simp
  finally show ?thesis .
qed

lemma split_groups:
  "split shuffle i customers groups = Inr arms \<Longrightarrow> map (\<lambda>a. (arm_group a, arm_kind a)) arms = groups"
  by (auto simp: split_def Let_def comp_def case_prod_beta split: if_splits)

section \<open>Assigning is exactly the preview\<close>

lemma described_simps [simp]: "arm_group (described ds a) = arm_group a" "arm_kind (described ds a) = arm_kind a"
  "arm_customers (described ds a) = arm_customers a"
  by (simp_all add: described_def split: option.split)

lemma plan_assignment_Inr:
  assumes "plan_assignment shuffle d i = Inr plan"
  obtains x c campaign arms where "get_experiment d i = Some x" and "x_assignments x = 0" and "xr_campaign (x_row x) = Some c"
    and "get_campaign d c = Some campaign" and "cp_status campaign = CAMPAIGN_ACTIVE"
    and "x_control_groups x = 0 \<longrightarrow> x_treatment_groups x = 2" and "1 \<le> x_treatment_groups x"
    and "read_target_population d (cp_label campaign) \<noteq> []"
    and "length (list_groups d i) \<le> length (read_target_population d (cp_label campaign))"
    and "split shuffle i (read_target_population d (cp_label campaign)) (list_groups d i) = Inr arms"
    and "plan = \<lparr>pl_experiment = x, pl_label = cp_label campaign, pl_arms = map (described (list_group_definitions d i)) arms\<rparr>"
  using assms by (auto simp: plan_assignment_def Let_def not_less split: option.splits if_splits sum.splits)

lemma set_ordered_groups: "set (ordered_groups d i) = {g \<in> set (xd_groups d). gr_experiment g = i}"
  by (auto simp: ordered_groups_def)

lemma distinct_list_groups: "distinct (map gr_id (xd_groups d)) \<Longrightarrow> distinct (map fst (list_groups d i))"
  by (simp add: list_groups_def ordered_groups_def comp_def distinct_map_sort_key distinct_map_filter)

lemma list_groups_not_Nil:
  assumes "get_experiment d i = Some x" and "1 \<le> x_treatment_groups x"
  shows "list_groups d i \<noteq> []"
proof -
  have "groups_of_kind d i TREATMENT \<noteq> []" using assms by (auto simp: get_experiment_def)
  then have "set (ordered_groups d i) \<noteq> {}" by (auto simp: set_ordered_groups groups_of_kind_def filter_empty_conv)
  then show ?thesis by (simp add: list_groups_def)
qed

definition new_assignments :: "int \<Rightarrow> nat \<Rightarrow> nat \<Rightarrow> (nat \<times> nat) list \<Rightarrow> assignment_row list" where
  "new_assignments now i k rows =
    map (\<lambda>(j, g, c). \<lparr>as_id = j, as_experiment = i, as_group = g, as_customer = c, as_at = now\<rparr>) (enumerate k rows)"

lemma new_assignments_simps [simp]: "new_assignments now i k [] = []"
  "new_assignments now i k ((g, c) # rows) = \<lparr>as_id = k, as_experiment = i, as_group = g, as_customer = c, as_at = now\<rparr> # new_assignments now i (Suc k) rows"
  by (simp_all add: new_assignments_def)

lemma new_assignments_maps: "map (\<lambda>a. (as_group a, as_customer a)) (new_assignments now i k rows) = rows"
  "map as_id (new_assignments now i k rows) = [k..<k + length rows]"
  "a \<in> set (new_assignments now i k rows) \<Longrightarrow> as_experiment a = i \<and> as_at a = now"
  by (induction rows arbitrary: k) (auto simp: upt_conv_Cons simp del: upt_Suc)

lemma arm_assignments_ok:
  assumes "distinct (map snd rows)" and "\<forall>(g, c)\<in>set rows. c \<in> set (xd_customers d) \<and> (\<exists>x\<in>set (xd_groups d). gr_id x = g \<and> gr_experiment x = i)"
    and "\<forall>a\<in>set (xd_assignments d). as_experiment a = i \<longrightarrow> as_customer a \<notin> snd ` set rows"
  shows "insert_assignments now i rows d = (Inr (), d\<lparr>xd_assignments := xd_assignments d @ new_assignments now i (xd_next_assignment d) rows,
     xd_next_assignment := xd_next_assignment d + length rows\<rparr>)"
  using assms
proof (induction rows arbitrary: d)
  case (Cons r rows)
  obtain g c where r: "r = (g, c)" by (cases r)
  let ?a = "\<lparr>as_id = xd_next_assignment d, as_experiment = i, as_group = g, as_customer = c, as_at = now\<rparr>"
  let ?d = "d\<lparr>xd_assignments := xd_assignments d @ [?a], xd_next_assignment := Suc (xd_next_assignment d)\<rparr>"
  have "assignment_refused d ?a = None"
    using Cons.prems by (auto simp: assignment_refused_def r list_ex_iff)
  moreover have "insert_assignments now i rows ?d = (Inr (), ?d\<lparr>xd_assignments := xd_assignments ?d @ new_assignments now i (xd_next_assignment ?d) rows,
     xd_next_assignment := xd_next_assignment ?d + length rows\<rparr>)"
    using Cons.prems by (intro Cons.IH) (auto simp: r)
  ultimately show ?case by (simp add: r)
qed simp

definition assignment_rows :: "arm list \<Rightarrow> (nat \<times> nat) list" where
  "assignment_rows arms = concat (map (\<lambda>a. map (\<lambda>c. (arm_group a, c)) (arm_customers a)) arms)"

lemma snd_assignment_rows: "map snd (assignment_rows arms) = concat (map arm_customers arms)"
  by (simp add: assignment_rows_def map_concat comp_def)

lemma set_assignment_rows: "(g, c) \<in> set (assignment_rows arms) \<longleftrightarrow> (\<exists>a\<in>set arms. g = arm_group a \<and> c \<in> set (arm_customers a))"
  by (auto simp: assignment_rows_def)

lemma assignment_rows_described [simp]: "assignment_rows (map (described ds) arms) = assignment_rows arms"
  by (simp add: assignment_rows_def comp_def)

lemma rows_of_arm:
  "distinct (map arm_group arms) \<Longrightarrow> a \<in> set arms \<Longrightarrow>
    map snd (filter (\<lambda>r. fst r = arm_group a) (assignment_rows arms)) = arm_customers a"
proof (induction arms)
  case (Cons b arms)
  have none: "filter (\<lambda>r. fst r = g) (assignment_rows arms) = []" if "g \<notin> arm_group ` set arms" for g
    using that by (auto simp: filter_empty_conv assignment_rows_def)
  have rows: "assignment_rows (b # arms) = map (\<lambda>c. (arm_group b, c)) (arm_customers b) @ assignment_rows arms"
    by (simp add: assignment_rows_def)
  show ?case
  proof (cases "a = b")
    case True
    with Cons.prems none [of "arm_group b"] show ?thesis by (simp add: rows filter_map comp_def)
  next
    case False
    with Cons.prems have a: "a \<in> set arms" "arm_group b \<notin> arm_group ` set arms" by simp_all
    then have "arm_group b \<noteq> arm_group a" by (metis imageI)
    with Cons a show ?thesis by (simp add: rows filter_map comp_def)
  qed
qed simp

text \<open>One open row per customer, of a known customer: what the pipeline keeps (\<open>history_always_contiguous\<close>).\<close>

definition population_wf :: "exp_db \<Rightarrow> bool" where
  "population_wf d \<longleftrightarrow> distinct (map h_customer (filter (\<lambda>h. h_to h = None) (xd_history d)))
     \<and> (\<forall>h\<in>set (xd_history d). h_customer h \<in> set (xd_customers d))"

lemma population_distinct:
  assumes "population_wf d"
  shows "distinct (read_target_population d label)" and "set (read_target_population d label) \<subseteq> set (xd_customers d)"
proof -
  have "distinct (map h_customer (filter (\<lambda>h. h_label h = Some label) (filter (\<lambda>h. h_to h = None) (xd_history d))))"
    by (rule distinct_map_filter) (use assms in \<open>simp add: population_wf_def\<close>)
  then show "distinct (read_target_population d label)"
    by (simp add: read_target_population_def conj_commute)
  show "set (read_target_population d label) \<subseteq> set (xd_customers d)"
    using assms by (auto simp: read_target_population_def population_wf_def)
qed

lemma plan_arms:
  assumes "plan_assignment shuffle d i = Inr plan" and "distinct (map gr_id (xd_groups d))"
    and "\<And>seed xs. mset (shuffle seed xs) = mset xs"
  shows "mset (map snd (assignment_rows (pl_arms plan))) = mset (read_target_population d (pl_label plan))"
    and "map (\<lambda>a. (arm_group a, arm_kind a)) (pl_arms plan) = list_groups d i"
    and "\<forall>a\<in>set (pl_arms plan). \<forall>b\<in>set (pl_arms plan). length (arm_customers a) \<le> Suc (length (arm_customers b))"
    and "\<forall>a\<in>set (pl_arms plan). arm_customers a \<noteq> []"
proof -
  obtain x arms and campaign :: campaign_row where p: "get_experiment d i = Some x" "1 \<le> x_treatment_groups x"
    "length (list_groups d i) \<le> length (read_target_population d (cp_label campaign))"
    and sp: "split shuffle i (read_target_population d (cp_label campaign)) (list_groups d i) = Inr arms"
    and plan: "plan = \<lparr>pl_experiment = x, pl_label = cp_label campaign, pl_arms = map (described (list_group_definitions d i)) arms\<rparr>"
    by (rule plan_assignment_Inr [OF assms(1)])
  have g: "distinct (map fst (list_groups d i))" "list_groups d i \<noteq> []"
    using distinct_list_groups [OF assms(2)] list_groups_not_Nil [OF p(1,2)] by blast+
  show "mset (map snd (assignment_rows (pl_arms plan))) = mset (read_target_population d (pl_label plan))"
    using split_partition [OF sp g assms(3)] by (simp add: plan snd_assignment_rows)
  show "map (\<lambda>a. (arm_group a, arm_kind a)) (pl_arms plan) = list_groups d i"
    using split_groups [OF sp] by (simp add: plan comp_def)
  let ?n = "length (read_target_population d (cp_label campaign))" and ?g = "length (list_groups d i)"
  have size: "length (arm_customers a) \<in> {?n div ?g, Suc (?n div ?g)}" if "a \<in> set arms" for a
  proof -
    from that obtain k where "k < length (list_groups d i)" "a = arms ! k"
      using length_split [OF sp] by (auto simp: in_set_conv_nth)
    with split_sizes [OF sp g(1) _ assms(3)] show ?thesis by auto
  qed
  then have sizes: "?n div ?g \<le> length (arm_customers a) \<and> length (arm_customers a) \<le> Suc (?n div ?g)" if "a \<in> set (pl_arms plan)" for a
    using that by (force simp: plan)
  then show "\<forall>a\<in>set (pl_arms plan). \<forall>b\<in>set (pl_arms plan). length (arm_customers a) \<le> Suc (length (arm_customers b))"
    by (meson Suc_le_mono le_trans)
  have "0 < ?n div ?g" using p(3) g(2) by (simp add: div_greater_zero_iff)
  with sizes show "\<forall>a\<in>set (pl_arms plan). arm_customers a \<noteq> []" by fastforce
qed

lemma assign_body_ok:
  assumes "\<And>seed xs. mset (shuffle seed xs) = mset xs" and "distinct (map gr_id (xd_groups d))" and "population_wf d"
    and "plan_assignment shuffle d i = Inr plan"
  shows "assign_body shuffle now i d = (Inr plan,
      d\<lparr>xd_assignments := xd_assignments d @ new_assignments now i (xd_next_assignment d) (assignment_rows (pl_arms plan)),
        xd_next_assignment := xd_next_assignment d + length (assignment_rows (pl_arms plan))\<rparr>)"
    and "distinct (map snd (assignment_rows (pl_arms plan)))" and "assignments_of d i = []"
    and "\<forall>(g, c)\<in>set (assignment_rows (pl_arms plan)). \<exists>x\<in>set (xd_groups d). gr_id x = g \<and> gr_experiment x = i"
proof -
  let ?rows = "assignment_rows (pl_arms plan)"
  let ?new = "new_assignments now i (xd_next_assignment d) ?rows"
  note arms = plan_arms [OF assms(4,2,1)]
  have free: "get_experiment d i \<noteq> None" "assignments_of d i = []"
    by (rule plan_assignment_Inr [OF assms(4)]; auto simp: get_experiment_def)+
  have dist: "distinct (map snd ?rows)" and known: "snd ` set ?rows \<subseteq> set (xd_customers d)"
    using arms(1) population_distinct [OF assms(3), of "pl_label plan"]
    by (metis mset_eq_imp_distinct_iff, metis mset_eq_setD set_map)
  have known_rows: "\<forall>(g, c)\<in>set ?rows. c \<in> set (xd_customers d) \<and> (\<exists>x\<in>set (xd_groups d). gr_id x = g \<and> gr_experiment x = i)"
  proof (clarify, intro conjI)
    fix g c
    assume r: "(g, c) \<in> set ?rows"
    then show "c \<in> set (xd_customers d)" using known by force
    from r have "g \<in> fst ` set (list_groups d i)"
      by (auto simp: arms(2) [symmetric] set_assignment_rows image_iff)
    then show "\<exists>x\<in>set (xd_groups d). gr_id x = g \<and> gr_experiment x = i"
      by (auto simp: list_groups_def set_ordered_groups)
  qed
  have "\<forall>a\<in>set (xd_assignments d). as_experiment a = i \<longrightarrow> as_customer a \<notin> snd ` set ?rows"
    using free(2) by (auto simp: assignments_of_def filter_empty_conv)
  with known_rows have ins: "insert_assignments now i ?rows d = (Inr (), d\<lparr>xd_assignments := xd_assignments d @ ?new,
      xd_next_assignment := xd_next_assignment d + length ?rows\<rparr>)"
    using dist by (intro arm_assignments_ok)
  show "distinct (map snd ?rows)" "assignments_of d i = []" by (fact dist, fact free(2))
  show "\<forall>(g, c)\<in>set ?rows. \<exists>x\<in>set (xd_groups d). gr_id x = g \<and> gr_experiment x = i" using known_rows by fast
  show "assign_body shuffle now i d = (Inr plan, d\<lparr>xd_assignments := xd_assignments d @ ?new,
      xd_next_assignment := xd_next_assignment d + length ?rows\<rparr>)"
    using assms(4) free(1) ins by (auto simp: assign_body_def lock_experiment_def get_experiment_def assignment_rows_def [symmetric])
qed

text \<open>
  C22. Assigning writes exactly what the preview showed: when the preview is refused, so is the assignment, with the same
  reason and nothing written; when it is not, the assignment succeeds and every customer who holds the label is
  written into exactly one arm, all at one instant, control first, each arm getting the customers the plan gives
  it; no arm is left empty and no two arms differ by more than one customer.
\<close>

theorem assign_exactly_the_preview:
  assumes "\<And>seed xs. mset (shuffle seed xs) = mset xs" and "distinct (map gr_id (xd_groups d))" and "population_wf d"
  shows "case plan_assignment shuffle d i of
      Inl e \<Rightarrow> assign shuffle now i False (at_rest d) = (Inl e, at_rest d)
    | Inr plan \<Rightarrow> (\<exists>new. assign shuffle now i False (at_rest d) = (Inr plan,
          at_rest (d\<lparr>xd_assignments := xd_assignments d @ new, xd_next_assignment := xd_next_assignment d + length new\<rparr>))
        \<and> map (\<lambda>a. (arm_group a, arm_kind a)) (pl_arms plan) = list_groups d i
        \<and> (\<forall>a\<in>set new. as_experiment a = i \<and> as_at a = now)
        \<and> distinct (map as_customer new) \<and> mset (map as_customer new) = mset (read_target_population d (pl_label plan))
        \<and> (\<forall>a\<in>set (pl_arms plan). map as_customer (filter (\<lambda>r. as_group r = arm_group a) new) = arm_customers a
            \<and> arm_customers a \<noteq> [] \<and> (\<forall>b\<in>set (pl_arms plan). length (arm_customers a) \<le> Suc (length (arm_customers b)))))"
proof (cases "plan_assignment shuffle d i")
  case (Inl e)
  have "e \<noteq> Integrity v" for v
    using Inl by (auto simp: plan_assignment_def split_def Let_def split: option.splits if_splits sum.splits)
  with Inl show ?thesis
    by (auto simp: assign_def assign_body_def lock_experiment_def plan_assignment_def get_experiment_def atomic_statements
        split: experiment_error.splits violation.splits option.splits)
next
  case (Inr plan)
  let ?rows = "assignment_rows (pl_arms plan)"
  let ?new = "new_assignments now i (xd_next_assignment d) ?rows"
  note arms = plan_arms [OF Inr assms(2,1)] and body = assign_body_ok [OF assms Inr]
  have len: "length ?new = length ?rows" by (metis length_map new_assignments_maps(1))
  have written: "assign shuffle now i False (at_rest d) = (Inr plan,
      at_rest (d\<lparr>xd_assignments := xd_assignments d @ ?new, xd_next_assignment := xd_next_assignment d + length ?new\<rparr>))"
    by (simp add: assign_def atomic_statements body(1) len)
  have cust: "map as_customer ?new = map snd ?rows"
    using arg_cong [OF new_assignments_maps(1) [of now i "xd_next_assignment d" ?rows], of "map snd"] by (simp add: comp_def)
  have dealt: "map as_customer (filter (\<lambda>r. as_group r = arm_group a) ?new) = arm_customers a" if "a \<in> set (pl_arms plan)" for a
  proof -
    have "map (\<lambda>a. (as_group a, as_customer a)) (filter (\<lambda>r. as_group r = g) ?new) = filter (\<lambda>r. fst r = g) ?rows" for g
      using arg_cong [OF new_assignments_maps(1) [of now i "xd_next_assignment d" ?rows], of "filter (\<lambda>r. fst r = g)"]
      by (simp add: filter_map comp_def)
    from arg_cong [OF this, of "map snd"]
    have "map as_customer (filter (\<lambda>r. as_group r = g) ?new) = map snd (filter (\<lambda>r. fst r = g) ?rows)" for g
      by (simp add: comp_def)
    moreover have "distinct (map arm_group (pl_arms plan))"
      using arg_cong [OF arms(2), of "map fst"] distinct_list_groups [OF assms(2), of i] by (simp add: comp_def)
    ultimately show ?thesis using rows_of_arm that by simp
  qed
  have "distinct (map as_customer ?new)" "mset (map as_customer ?new) = mset (read_target_population d (pl_label plan))"
    unfolding cust using body(2) arms(1) by blast+
  with written arms(2-4) dealt new_assignments_maps(3) [of _ now i "xd_next_assignment d" ?rows] show ?thesis
    unfolding Inr sum.case by blast
qed

definition example_history_row :: "nat \<Rightarrow> history_row" where
  "example_history_row c = \<lparr>h_customer = c, h_run = 1, h_segment = None, h_label = Some ''GOLD'', h_last = Some 0, h_frequency = Some 1,
     h_monetary = Some 100, h_r = None, h_f = None, h_m = None, h_from = 0, h_to = None\<rparr>"

definition example_exp_db :: exp_db where
  "example_exp_db =
    \<lparr>xd_campaigns = [\<lparr>cp_id = 1, cp_name = ''Spring'', cp_label = ''GOLD'', cp_starts = 10, cp_ends = 50, cp_status = ''ACTIVE''\<rparr>],
     xd_experiments = [\<lparr>xr_id = 1, xr_name = ''Coupon'', xr_campaign = Some 1, xr_metric = ''CONVERSION'', xr_starts = 10, xr_ends = Some 50,
        xr_window = 14, xr_origin = ''OBSERVED''\<rparr>],
     xd_groups = [\<lparr>gr_id = 1, gr_experiment = 1, gr_kind = ''CONTROL'', gr_name = ''Nothing'', gr_description = ''No coupon''\<rparr>,
        \<lparr>gr_id = 2, gr_experiment = 1, gr_kind = ''TREATMENT'', gr_name = ''Coupon'', gr_description = ''Ten percent''\<rparr>],
     xd_assignments = [], xd_exposures = [], xd_conversions = [],
     xd_sales = [\<lparr>sl_id = 1, sl_customer = 2, sl_at = 200, sl_origin = ''OBSERVED''\<rparr>],
     xd_history = map example_history_row [1, 2, 3], xd_labels = [''GOLD''], xd_customers = [1, 2, 3], xd_next_assignment = 1\<rparr>"

lemma example_plan:
  "(case plan_assignment (\<lambda>_ xs. rev xs) example_exp_db 1 of Inl _ \<Rightarrow> [] | Inr plan \<Rightarrow> map arm_customers (pl_arms plan)) = [[3, 1], [2]]"
  by code_simp

theorem assign_exactly_the_preview_witness:
  "\<exists>plan new. assign (\<lambda>_ xs. rev xs) 100 1 False (at_rest example_exp_db) = (Inr plan,
      at_rest (example_exp_db\<lparr>xd_assignments := xd_assignments example_exp_db @ new, xd_next_assignment := xd_next_assignment example_exp_db + length new\<rparr>))
    \<and> mset (map as_customer new) = mset (read_target_population example_exp_db (pl_label plan))"
proof -
  have wf: "distinct (map gr_id (xd_groups example_exp_db))" "population_wf example_exp_db"
    by (simp_all add: example_exp_db_def population_wf_def example_history_row_def)
  obtain plan where plan: "plan_assignment (\<lambda>_ xs. rev xs) example_exp_db 1 = Inr plan"
    using example_plan by (cases "plan_assignment (\<lambda>_ xs. rev xs) example_exp_db 1") simp_all
  show ?thesis
    using assign_exactly_the_preview [where shuffle = "\<lambda>_ xs. rev xs" and now = 100 and i = 1, OF _ wf]
    unfolding plan sum.case by (simp, blast)
qed

end
