(* ===== verification/Uplift.thy ===== *)
theory Uplift
  imports Experiments Complex_Main
begin

text \<open>
  Conversions and uplift: \<open>web/services/experiment_conversions.py\<close>, \<open>web/db/experiment_conversions.py\<close>,
  \<open>web/services/experiment_uplift.py\<close> and \<open>web/services/provenance.py\<close>. A float of the measurement is a
  real; \<open>math.erfc\<close> is a parameter. A day of a conversion window is \<open>days\<close> of \<open>RFM_Rules\<close>.
\<close>

section \<open>Provenance\<close>

definition OBSERVED :: string where "OBSERVED = ''OBSERVED''"
definition SYNTHETIC_LABEL :: string where "SYNTHETIC_LABEL = ''Synthetic''"

definition is_seeded :: "string option \<Rightarrow> bool" where
  "is_seeded data_origin \<longleftrightarrow> data_origin \<noteq> None \<and> data_origin \<noteq> Some OBSERVED"

definition runs_synthetic :: "run_row option list \<Rightarrow> bool" where
  "runs_synthetic rs \<longleftrightarrow> list_ex (\<lambda>r. r \<noteq> None \<and> is_seeded (Some (rr_origin (the r)))) rs"

definition experiment_synthetic :: "experiment_view \<Rightarrow> bool" where
  "experiment_synthetic x \<longleftrightarrow> is_seeded (Some (xr_origin (x_row x))) \<or> x_seeded_conversion x"

section \<open>Conversions\<close>

record group_conversion =
  gc_group :: nat
  gc_kind :: string
  gc_assigned :: nat
  gc_converted :: nat
  gc_pending :: nat
  gc_not_converted :: nat
  gc_unrecorded :: nat
  gc_name :: string
  gc_description :: string

record exposed_conversion =
  ec_group :: nat
  ec_kind :: string
  ec_exposed :: nat
  ec_converted :: nat

definition exposed_conversion_rate :: "exposed_conversion \<Rightarrow> real option" where
  "exposed_conversion_rate c = (if ec_exposed c = 0 then None else Some (real (ec_converted c) / real (ec_exposed c)))"

text \<open>The window of an assignment, \<open>[assigned_at, assigned_at + conversion_window_days)\<close>, and the sales in it.\<close>

definition window_of :: "exp_db \<Rightarrow> assignment_row \<Rightarrow> int option" where
  "window_of d a = map_option (\<lambda>e. days (int (xr_window e))) (experiment_row_of d (as_experiment a))"

definition qualifies :: "exp_db \<Rightarrow> assignment_row \<Rightarrow> sale_row \<Rightarrow> bool" where
  "qualifies d a t \<longleftrightarrow> sl_customer t = as_customer a \<and> as_at a \<le> sl_at t
     \<and> (case window_of d a of None \<Rightarrow> False | Some w \<Rightarrow> sl_at t < as_at a + w)"

definition recorded :: "exp_db \<Rightarrow> conversion_row \<Rightarrow> bool" where
  "recorded d c \<longleftrightarrow> c \<in> set (xd_conversions d)"

definition qualifying_pairs :: "exp_db \<Rightarrow> nat \<Rightarrow> conversion_row list" where
  "qualifying_pairs d i =
    concat (map (\<lambda>a. map (\<lambda>t. \<lparr>cv_assignment = as_id a, cv_sale = sl_id t\<rparr>) (filter (qualifies d a) (xd_sales d)))
      (assignments_of d i))"

text \<open>\<open>INSERT ... SELECT ... ON CONFLICT DO NOTHING\<close>, and its row count.\<close>

definition evaluate_conversions :: "nat \<Rightarrow> exp_db \<Rightarrow> nat \<times> exp_db" where
  "evaluate_conversions i d =
    (let new = filter (\<lambda>c. \<not> recorded d c) (qualifying_pairs d i)
     in (length new, d\<lparr>xd_conversions := xd_conversions d @ new\<rparr>))"

definition evaluate_body :: "nat \<Rightarrow> exp_db \<Rightarrow> (experiment_error + nat) \<times> exp_db" where
  "evaluate_body i d =
    (if \<not> lock_experiment d i then (Inl (ExperimentNotFound i), d)
     else case get_experiment d i of
         None \<Rightarrow> (Inl (ExperimentNotFound i), d)
       | Some x \<Rightarrow>
           if x_assignments x = 0 then (Inl (ConversionRefused i), d)
           else (case evaluate_conversions i d of (n, d') \<Rightarrow> (Inr n, d')))"

definition evaluate :: "nat \<Rightarrow> (exp_db, experiment_error, nat) operation" where
  "evaluate i = atomic (statements (evaluate_body i))"

definition converted :: "exp_db \<Rightarrow> assignment_row \<Rightarrow> bool" where
  "converted d a \<longleftrightarrow> list_ex (\<lambda>c. cv_assignment c = as_id a) (xd_conversions d)"

definition window_open :: "exp_db \<Rightarrow> int \<Rightarrow> assignment_row \<Rightarrow> bool" where
  "window_open d now a \<longleftrightarrow> (case window_of d a of None \<Rightarrow> False | Some w \<Rightarrow> now < as_at a + w)"

definition has_qualifying_sale :: "exp_db \<Rightarrow> assignment_row \<Rightarrow> bool" where
  "has_qualifying_sale d a \<longleftrightarrow> list_ex (qualifies d a) (xd_sales d)"

definition list_group_conversion :: "exp_db \<Rightarrow> nat \<Rightarrow> int \<Rightarrow> group_conversion list" where
  "list_group_conversion d i now = map (\<lambda>g.
     (let mine = filter (\<lambda>a. as_group a = gr_id g) (assignments_of d i)
      in \<lparr>gc_group = gr_id g, gc_kind = gr_kind g, gc_assigned = length mine,
          gc_converted = length (filter (converted d) mine),
          gc_pending = length (filter (\<lambda>a. \<not> converted d a \<and> window_open d now a) mine),
          gc_not_converted = length (filter (\<lambda>a. \<not> converted d a \<and> \<not> window_open d now a) mine),
          gc_unrecorded = length (filter (\<lambda>a. \<not> converted d a \<and> has_qualifying_sale d a) mine),
          gc_name = gr_name g, gc_description = gr_description g\<rparr>)) (ordered_groups d i)"

text \<open>\<open>first_at\<close> of an assignment, and the sales of the window counted from it.\<close>

definition first_exposure :: "exp_db \<Rightarrow> nat \<Rightarrow> int option" where
  "first_exposure d aid =
    (case map eo_at (filter (\<lambda>x. eo_assignment x = aid) (xd_exposures d)) of
       [] \<Rightarrow> None
     | t # ts \<Rightarrow> Some (fold min ts t))"

definition exposed_converted :: "exp_db \<Rightarrow> assignment_row \<Rightarrow> bool" where
  "exposed_converted d a \<longleftrightarrow>
    (case (first_exposure d (as_id a), window_of d a) of
       (Some t, Some w) \<Rightarrow> list_ex (\<lambda>s. sl_customer s = as_customer a \<and> t \<le> sl_at s \<and> sl_at s < t + w) (xd_sales d)
     | _ \<Rightarrow> False)"

definition list_exposed_conversion :: "exp_db \<Rightarrow> nat \<Rightarrow> exposed_conversion list" where
  "list_exposed_conversion d i = map (\<lambda>g.
     (let mine = filter (\<lambda>a. as_group a = gr_id g) (assignments_of d i)
      in \<lparr>ec_group = gr_id g, ec_kind = gr_kind g, ec_exposed = length (filter (\<lambda>a. exposed d (as_id a)) mine),
          ec_converted = length (filter (exposed_converted d) mine)\<rparr>)) (ordered_groups d i)"

record conversion_summary =
  su_experiment :: experiment_view
  su_groups :: "group_conversion list"
  su_evaluated_at :: int

definition summary_pending :: "conversion_summary \<Rightarrow> nat" where
  "summary_pending u = sum_list (map gc_pending (su_groups u))"

definition summary_unrecorded :: "conversion_summary \<Rightarrow> nat" where
  "summary_unrecorded u = sum_list (map gc_unrecorded (su_groups u))"

definition conversion_summary_of :: "exp_db \<Rightarrow> nat \<Rightarrow> int \<Rightarrow> experiment_error + conversion_summary" where
  "conversion_summary_of d i now =
    (case get_experiment d i of
       None \<Rightarrow> Inl (ExperimentNotFound i)
     | Some x \<Rightarrow> Inr \<lparr>su_experiment = x, su_groups = list_group_conversion d i now, su_evaluated_at = now\<rparr>)"

section \<open>Comparing two proportions\<close>

definition ALPHA :: real where "ALPHA = 5 / 100"
definition Z_CRITICAL :: real where "Z_CRITICAL = 1.959963984540054"
definition CONVERSION_METRIC :: string where "CONVERSION_METRIC = ''CONVERSION''"

record comparison =
  control_n :: int
  control_converted :: int
  treatment_n :: int
  treatment_converted :: int
  control_rate :: real
  treatment_rate :: real
  uplift :: real
  ci_low :: real
  ci_high :: real
  z_score :: real
  p_value :: real

definition significant :: "comparison \<Rightarrow> bool" where
  "significant c \<longleftrightarrow> p_value c < ALPHA"

definition excludes_zero :: "comparison \<Rightarrow> bool" where
  "excludes_zero c \<longleftrightarrow> ci_low c > 0 \<or> ci_high c < 0"

datatype bad_counts = EmptyArm | ControlExceeds | TreatmentExceeds

definition compare_proportions :: "(real \<Rightarrow> real) \<Rightarrow> int \<Rightarrow> int \<Rightarrow> int \<Rightarrow> int \<Rightarrow> bad_counts + comparison" where
  "compare_proportions erfc cn cc tn tc =
    (if cn \<le> 0 \<or> tn \<le> 0 then Inl EmptyArm
     else if \<not> (0 \<le> cc \<and> cc \<le> cn) then Inl ControlExceeds
     else if \<not> (0 \<le> tc \<and> tc \<le> tn) then Inl TreatmentExceeds
     else let p_control = real_of_int cc / real_of_int cn;
              p_treatment = real_of_int tc / real_of_int tn;
              up = p_treatment - p_control;
              se = sqrt (p_control * (1 - p_control) / real_of_int cn + p_treatment * (1 - p_treatment) / real_of_int tn);
              pooled = real_of_int (cc + tc) / real_of_int (cn + tn);
              pooled_se = sqrt (pooled * (1 - pooled) * (1 / real_of_int cn + 1 / real_of_int tn));
              z = (if pooled_se > 0 then up / pooled_se else 0)
          in Inr \<lparr>control_n = cn, control_converted = cc, treatment_n = tn, treatment_converted = tc,
                  control_rate = p_control, treatment_rate = p_treatment, uplift = up,
                  ci_low = up - Z_CRITICAL * se, ci_high = up + Z_CRITICAL * se,
                  z_score = z, p_value = erfc (\<bar>z\<bar> / sqrt 2)\<rparr>)"

section \<open>Measuring uplift\<close>

datatype uplift_refusal =
    NoControlGroup nat
  | NotMeasuredOn nat string
  | NoAssignments nat
  | ConversionNotEvaluated nat nat
  | EmptyControl nat
  | EmptyTreatments nat "nat list"
  | NoTreatments nat
  | UpliftNotFound nat
  | ComparisonFailed bad_counts
  | TooFewKnownCustomers

record arm_result =
  ar_group :: nat
  ar_comparison :: comparison
  ar_name :: string
  ar_description :: string

record measured_uplift =
  mu_experiment :: experiment_view
  mu_control :: group_conversion
  mu_treatments :: "group_conversion list"
  mu_arms :: "arm_result list"
  mu_measured_at :: int
  mu_exposed :: "exposed_conversion list"

definition uplift_label :: "measured_uplift \<Rightarrow> string option" where
  "uplift_label m = (if experiment_synthetic (mu_experiment m) then Some SYNTHETIC_LABEL else None)"

definition uplift_pending :: "measured_uplift \<Rightarrow> nat" where
  "uplift_pending m = gc_pending (mu_control m) + sum_list (map gc_pending (mu_treatments m))"

definition refusal_before_counts :: "nat \<Rightarrow> nat \<Rightarrow> string \<Rightarrow> nat \<Rightarrow> uplift_refusal option" where
  "refusal_before_counts i control_groups target_metric n =
    (if control_groups < 1 then Some (NoControlGroup i)
     else if target_metric \<noteq> CONVERSION_METRIC then Some (NotMeasuredOn i target_metric)
     else if n = 0 then Some (NoAssignments i)
     else None)"

fun arm_results :: "(real \<Rightarrow> real) \<Rightarrow> group_conversion \<Rightarrow> group_conversion list \<Rightarrow> uplift_refusal + arm_result list" where
  "arm_results erfc control [] = Inr []"
| "arm_results erfc control (g # gs) =
    (case compare_proportions erfc (int (gc_assigned control)) (int (gc_converted control)) (int (gc_assigned g)) (int (gc_converted g)) of
       Inl e \<Rightarrow> Inl (ComparisonFailed e)
     | Inr c \<Rightarrow>
         (case arm_results erfc control gs of
            Inl e \<Rightarrow> Inl e
          | Inr rest \<Rightarrow> Inr (\<lparr>ar_group = gc_group g, ar_comparison = c, ar_name = gc_name g, ar_description = gc_description g\<rparr> # rest)))"

definition compare_arms ::
  "(real \<Rightarrow> real) \<Rightarrow> nat \<Rightarrow> group_conversion list \<Rightarrow> uplift_refusal + group_conversion \<times> arm_result list" where
  "compare_arms erfc i groups =
    (let unrecorded = sum_list (map gc_unrecorded groups);
         control = find (\<lambda>g. gc_kind g = CONTROL) groups;
         treatments = filter (\<lambda>g. gc_kind g = TREATMENT) groups;
         empties = map gc_group (filter (\<lambda>g. gc_assigned g = 0) treatments)
     in if unrecorded \<noteq> 0 then Inl (ConversionNotEvaluated i unrecorded)
        else case control of
            None \<Rightarrow> Inl (EmptyControl i)
          | Some c \<Rightarrow>
              if gc_assigned c = 0 then Inl (EmptyControl i)
              else if empties \<noteq> [] then Inl (EmptyTreatments i empties)
              else case arm_results erfc c treatments of
                  Inl e \<Rightarrow> Inl e
                | Inr arms \<Rightarrow> if arms = [] then Inl (NoTreatments i) else Inr (c, arms))"

definition measure_uplift :: "(real \<Rightarrow> real) \<Rightarrow> exp_db \<Rightarrow> nat \<Rightarrow> int \<Rightarrow> uplift_refusal + measured_uplift" where
  "measure_uplift erfc d i moment =
    (case get_experiment d i of
       None \<Rightarrow> Inl (UpliftNotFound i)
     | Some x \<Rightarrow>
         (case refusal_before_counts i (x_control_groups x) (xr_metric (x_row x)) (x_assignments x) of
            Some r \<Rightarrow> Inl r
          | None \<Rightarrow>
              (let groups = list_group_conversion d i moment
               in case compare_arms erfc i groups of
                   Inl r \<Rightarrow> Inl r
                 | Inr (control, arms) \<Rightarrow>
                     Inr \<lparr>mu_experiment = x, mu_control = control,
                          mu_treatments = filter (\<lambda>g. gc_kind g = TREATMENT) groups, mu_arms = arms,
                          mu_measured_at = moment,
                          mu_exposed = filter (\<lambda>e. ec_kind e = TREATMENT) (list_exposed_conversion d i)\<rparr>)))"

section \<open>The two validations\<close>

text \<open>\<open>order[0::2], order[1::2]\<close>\<close>

fun alternate :: "'a list \<Rightarrow> 'a list \<times> 'a list" where
  "alternate [] = ([], [])"
| "alternate (x # xs) = (case alternate xs of (a, b) \<Rightarrow> (x # b, a))"

definition split_in_two :: "shuffler \<Rightarrow> nat list \<Rightarrow> string \<Rightarrow> nat list \<times> nat list" where
  "split_in_two shuffle customers seed = alternate (shuffle seed (sort customers))"

definition count_true :: "(nat \<Rightarrow> bool) \<Rightarrow> nat list \<Rightarrow> int" where
  "count_true f xs = int (length (filter f xs))"

text \<open>\<open>dict(population)\<close>: the keys in the order they first appear, the last value of each.\<close>

definition outcome_of :: "(nat \<times> bool) list \<Rightarrow> nat \<Rightarrow> bool" where
  "outcome_of population c = (map_of (rev population) c = Some True)"

definition aa_validation :: "(real \<Rightarrow> real) \<Rightarrow> shuffler \<Rightarrow> (nat \<times> bool) list \<Rightarrow> string \<Rightarrow> bad_counts + comparison" where
  "aa_validation erfc shuffle population seed =
    (case split_in_two shuffle (rev (remdups (rev (map fst population)))) seed of
       (first, second) \<Rightarrow>
         compare_proportions erfc (int (length first)) (count_true (outcome_of population) first)
           (int (length second)) (count_true (outcome_of population) second))"

definition read_aa_population :: "exp_db \<Rightarrow> int \<Rightarrow> int \<Rightarrow> (nat \<times> bool) list" where
  "read_aa_population d cutoff window_days =
    map (\<lambda>c. (c, list_ex (\<lambda>t. sl_customer t = c \<and> cutoff \<le> sl_at t \<and> sl_at t < cutoff + days window_days) (xd_sales d)))
      (sort (remdups (map sl_customer (filter (\<lambda>t. sl_at t < cutoff) (xd_sales d)))))"

definition run_aa_validation :: "(real \<Rightarrow> real) \<Rightarrow> shuffler \<Rightarrow> exp_db \<Rightarrow> int \<Rightarrow> int \<Rightarrow> string \<Rightarrow> uplift_refusal + comparison" where
  "run_aa_validation erfc shuffle d cutoff window_days seed =
    (let population = read_aa_population d cutoff window_days
     in if length population < 2 then Inl TooFewKnownCustomers
        else case aa_validation erfc shuffle population seed of
            Inl e \<Rightarrow> Inl (ComparisonFailed e)
          | Inr c \<Rightarrow> Inr c)"

text \<open>Python's \<open>round\<close> to an integer, and the fixture of the injected uplift; the shuffle decides who converts, not how many.\<close>

definition py_round :: "real \<Rightarrow> int" where
  "py_round x = (let f = \<lfloor>x\<rfloor>; r = x - real_of_int f
     in if r < 1 / 2 then f else if r > 1 / 2 then f + 1 else if even f then f else f + 1)"

definition INJECTED_PER_ARM :: int where "INJECTED_PER_ARM = 10000"
definition INJECTED_CONTROL_RATE :: real where "INJECTED_CONTROL_RATE = 10 / 100"
definition INJECTED_TREATMENT_RATE :: real where "INJECTED_TREATMENT_RATE = 15 / 100"

definition fixture_arm :: "(bool list \<Rightarrow> bool list) \<Rightarrow> int \<Rightarrow> real \<Rightarrow> bool list" where
  "fixture_arm shuffle per_arm rate =
    shuffle (replicate (nat (py_round (real_of_int per_arm * rate))) True
             @ replicate (nat (per_arm - py_round (real_of_int per_arm * rate))) False)"

definition injected_uplift_fixture ::
  "(real \<Rightarrow> real) \<Rightarrow> (bool list \<Rightarrow> bool list) \<Rightarrow> (bool list \<Rightarrow> bool list) \<Rightarrow> int \<Rightarrow> real \<Rightarrow> real \<Rightarrow> bad_counts + comparison" where
  "injected_uplift_fixture erfc shuffle shuffle' per_arm control_share treatment_share =
    (let control = fixture_arm shuffle per_arm control_share;
         treatment = fixture_arm shuffle' per_arm treatment_share
     in compare_proportions erfc (int (length control)) (int (length (filter id control)))
          (int (length treatment)) (int (length (filter id treatment))))"

section \<open>What a comparison says\<close>

lemma compare_proportions_Inr:
  assumes "compare_proportions erfc cn cc tn tc = Inr c"
  shows "0 < cn" "0 < tn" "0 \<le> cc" "cc \<le> cn" "0 \<le> tc" "tc \<le> tn"
    "control_rate c = real_of_int cc / real_of_int cn" "treatment_rate c = real_of_int tc / real_of_int tn"
    "uplift c = treatment_rate c - control_rate c" "p_value c = erfc (\<bar>z_score c\<bar> / sqrt 2)"
  using assms by (auto simp: compare_proportions_def Let_def split: if_splits)

lemma share_bounds:
  assumes "0 < n" and "0 \<le> k" and "k \<le> n"
  shows "0 \<le> real_of_int k / real_of_int n \<and> real_of_int k / real_of_int n \<le> 1"
  using assms by simp

lemma compare_proportions_swap:
  assumes "compare_proportions erfc cn cc tn tc = Inr c"
  shows "\<exists>c'. compare_proportions erfc tn tc cn cc = Inr c' \<and> uplift c' = - uplift c \<and> z_score c' = - z_score c
    \<and> ci_low c' = - ci_high c \<and> ci_high c' = - ci_low c \<and> p_value c' = p_value c"
proof -
  note f = compare_proportions_Inr [OF assms]
  have inv: "1 / real_of_int tn + 1 / real_of_int cn = 1 / real_of_int cn + 1 / real_of_int tn" by (rule add.commute)
  let ?a = "real_of_int cc / real_of_int cn" and ?b = "real_of_int tc / real_of_int tn"
  have se: "?b * (1 - ?b) / real_of_int tn + ?a * (1 - ?a) / real_of_int cn = ?a * (1 - ?a) / real_of_int cn + ?b * (1 - ?b) / real_of_int tn"
    by (rule add.commute)
  have diff: "(?a - ?b) / x = - ((?b - ?a) / x)" for x by (simp add: diff_divide_distrib)
  from assms f(1-6) show ?thesis
    unfolding compare_proportions_def Let_def add.commute [of tc cc] add.commute [of tn cn] inv se
    by (auto simp: diff split: if_splits)
qed

text \<open>
  C32. What a comparison of two arms may claim: it is refused exactly when an arm is empty or its conversions are
  not between none and all of its customers; otherwise both rates and the p-value are between 0 and 1, the
  95% interval contains the uplift, arms with equal rates show no uplift, no significance and an interval
  around zero, and exchanging the arms negates the uplift and mirrors the interval with the same p-value.
\<close>

theorem comparison_is_sound:
  assumes "erfc 0 = 1" and "\<And>x. 0 \<le> x \<Longrightarrow> 0 \<le> erfc x \<and> erfc x \<le> 1"
  shows "case compare_proportions erfc cn cc tn tc of
      Inl e \<Rightarrow> cn \<le> 0 \<or> tn \<le> 0 \<or> cc < 0 \<or> cn < cc \<or> tc < 0 \<or> tn < tc
    | Inr c \<Rightarrow> 0 < cn \<and> 0 < tn \<and> 0 \<le> cc \<and> cc \<le> cn \<and> 0 \<le> tc \<and> tc \<le> tn
        \<and> 0 \<le> control_rate c \<and> control_rate c \<le> 1 \<and> 0 \<le> treatment_rate c \<and> treatment_rate c \<le> 1
        \<and> uplift c = treatment_rate c - control_rate c \<and> ci_low c \<le> uplift c \<and> uplift c \<le> ci_high c
        \<and> 0 \<le> p_value c \<and> p_value c \<le> 1
        \<and> (control_rate c = treatment_rate c \<longrightarrow> uplift c = 0 \<and> z_score c = 0 \<and> \<not> significant c \<and> \<not> excludes_zero c)
        \<and> (\<exists>c'. compare_proportions erfc tn tc cn cc = Inr c' \<and> uplift c' = - uplift c \<and> z_score c' = - z_score c
            \<and> ci_low c' = - ci_high c \<and> ci_high c' = - ci_low c \<and> p_value c' = p_value c)"
proof (cases "compare_proportions erfc cn cc tn tc")
  case (Inl e)
  then show ?thesis by (auto simp: compare_proportions_def Let_def split: if_splits)
next
  case (Inr c)
  note f = compare_proportions_Inr [OF Inr]
  have rates: "0 \<le> control_rate c \<and> control_rate c \<le> 1" "0 \<le> treatment_rate c \<and> treatment_rate c \<le> 1"
    unfolding f(7,8) using f(1-6) by (intro share_bounds; simp)+
  have p: "0 \<le> p_value c" "p_value c \<le> 1" using assms(2) [of "\<bar>z_score c\<bar> / sqrt 2"] by (simp_all add: f(10))
  let ?se = "sqrt (control_rate c * (1 - control_rate c) / real_of_int cn + treatment_rate c * (1 - treatment_rate c) / real_of_int tn)"
  have "0 \<le> ?se" using rates f(1,2) by simp
  then have ci: "ci_low c = uplift c - Z_CRITICAL * ?se" "ci_high c = uplift c + Z_CRITICAL * ?se" "0 \<le> Z_CRITICAL * ?se"
    using Inr f(1-6) by (auto simp: compare_proportions_def Let_def Z_CRITICAL_def)
  have "z_score c = 0" if "control_rate c = treatment_rate c"
    using Inr f(1-6) that by (auto simp: compare_proportions_def Let_def)
  then have "control_rate c = treatment_rate c \<Longrightarrow> uplift c = 0 \<and> z_score c = 0 \<and> \<not> significant c \<and> \<not> excludes_zero c"
    using ci f(9,10) assms(1) by (auto simp: significant_def excludes_zero_def ALPHA_def)
  with f(1-6,9) rates p ci compare_proportions_swap [OF Inr] show ?thesis by (simp add: Inr)
qed

text \<open>Any function that stays between 0 and 1 and starts at 1 has the properties of \<open>erfc\<close> the measurement relies on.\<close>

definition example_erfc :: "real \<Rightarrow> real" where
  "example_erfc x = 1 / (1 + \<bar>x\<bar>)"

theorem comparison_is_sound_witness:
  "\<exists>c. compare_proportions example_erfc 10 1 20 6 = Inr c \<and> 0 \<le> p_value c \<and> p_value c \<le> 1 \<and> ci_low c \<le> uplift c"
proof -
  have erfc: "example_erfc 0 = 1" "\<And>x. 0 \<le> x \<Longrightarrow> 0 \<le> example_erfc x \<and> example_erfc x \<le> 1"
    by (simp_all add: example_erfc_def divide_le_eq_1)
  obtain c where c: "compare_proportions example_erfc 10 1 20 6 = Inr c" by (simp add: compare_proportions_def Let_def)
  with comparison_is_sound [of example_erfc 10 20 1 6, OF erfc] show ?thesis by auto
qed

lemma filter_id_perm: "mset ys = mset xs \<Longrightarrow> length (filter id ys) = length (filter id xs) \<and> length ys = length xs"
  by (metis mset_filter size_mset)

lemma fixture_counts:
  assumes "\<And>xs. mset (shuffle xs) = mset xs" and "py_round (real_of_int n * r) = k" and "0 \<le> k" and "k \<le> n"
  shows "int (length (fixture_arm shuffle n r)) = n" and "int (length (filter id (fixture_arm shuffle n r))) = k"
proof -
  let ?xs = "replicate (nat k) True @ replicate (nat (n - k)) False"
  have "length (filter id (fixture_arm shuffle n r)) = length (filter id ?xs) \<and> length (fixture_arm shuffle n r) = length ?xs"
    unfolding fixture_arm_def assms(2) by (intro filter_id_perm assms(1))
  then show "int (length (fixture_arm shuffle n r)) = n"
    "int (length (filter id (fixture_arm shuffle n r))) = k"
    using assms(3,4) by (simp_all add: filter_replicate)
qed

text \<open>
  The second validation holds whatever the generator shuffles: the fixture of 10,000 customers per arm with
  10% and 15% converting is measured as an uplift of exactly five points, and its 95% interval excludes zero.
\<close>

lemma injected_uplift_recovered:
  assumes "\<And>xs. mset (shuffle xs) = mset xs" and "\<And>xs. mset (shuffle' xs) = mset xs"
  shows "\<exists>c. injected_uplift_fixture erfc shuffle shuffle' INJECTED_PER_ARM INJECTED_CONTROL_RATE INJECTED_TREATMENT_RATE = Inr c
    \<and> uplift c = 5 / 100 \<and> excludes_zero c \<and> 4 / 100 < ci_low c \<and> ci_high c < 6 / 100"
proof -
  have r: "py_round (real_of_int INJECTED_PER_ARM * INJECTED_CONTROL_RATE) = 1000"
    "py_round (real_of_int INJECTED_PER_ARM * INJECTED_TREATMENT_RATE) = 1500" and n: "INJECTED_PER_ARM = 10000"
    by (simp_all add: INJECTED_PER_ARM_def INJECTED_CONTROL_RATE_def INJECTED_TREATMENT_RATE_def py_round_def)
  have control: "int (length (fixture_arm shuffle INJECTED_PER_ARM INJECTED_CONTROL_RATE)) = 10000"
    "int (length (filter id (fixture_arm shuffle INJECTED_PER_ARM INJECTED_CONTROL_RATE))) = 1000"
    using fixture_counts [OF assms(1) r(1)] by (simp_all add: n)
  have treatment: "int (length (fixture_arm shuffle' INJECTED_PER_ARM INJECTED_TREATMENT_RATE)) = 10000"
    "int (length (filter id (fixture_arm shuffle' INJECTED_PER_ARM INJECTED_TREATMENT_RATE))) = 1500"
    using fixture_counts [OF assms(2) r(2)] by (simp_all add: n)
  have counts: "injected_uplift_fixture erfc shuffle shuffle' INJECTED_PER_ARM INJECTED_CONTROL_RATE INJECTED_TREATMENT_RATE
      = compare_proportions erfc 10000 1000 10000 1500"
    unfolding injected_uplift_fixture_def Let_def control treatment ..
  let ?se = "sqrt (1 / 10 * (9 / 10) / 10000 + 15 / 100 * (85 / 100) / 10000)"
  have se: "?se < 5 / 1000" by (rule real_less_lsqrt) (simp_all add: power2_eq_square)
  moreover have "0 \<le> ?se" by simp
  ultimately have "Z_CRITICAL * ?se < 1 / 100" by (simp add: Z_CRITICAL_def)
  moreover obtain c where c: "compare_proportions erfc 10000 1000 10000 1500 = Inr c"
    "uplift c = 5 / 100" "ci_low c = 5 / 100 - Z_CRITICAL * ?se" "ci_high c = 5 / 100 + Z_CRITICAL * ?se"
    by (simp add: compare_proportions_def Let_def)
  ultimately show ?thesis unfolding counts by (intro exI [of _ c]) (simp add: excludes_zero_def)
qed

end
