(* ===== verification/Campaigns.thy ===== *)
theory Campaigns
  imports Experiments
begin

text \<open>
  The campaign lifecycle, \<open>web/services/campaigns.py\<close> and \<open>web/db/campaigns.py\<close>, over the tables of
  \<open>Experiments\<close>: the draft form, creation and edits of a draft, and the transitions, with the check of the
  attached experiments that an activation makes.
\<close>

definition DRAFT :: string where "DRAFT = ''DRAFT''"
definition ACTIVE :: string where "ACTIVE = ''ACTIVE''"
definition FINISHED :: string where "FINISHED = ''FINISHED''"
definition CANCELLED :: string where "CANCELLED = ''CANCELLED''"

lemmas status_defs = DRAFT_def ACTIVE_def FINISHED_def CANCELLED_def

definition TRANSITIONS :: "(string \<times> string list) list" where
  "TRANSITIONS = [(DRAFT, [ACTIVE, CANCELLED]), (ACTIVE, [FINISHED, CANCELLED]), (FINISHED, []), (CANCELLED, [])]"

definition ACTIONS :: "(string \<times> string) list" where
  "ACTIONS = [(''activate'', ACTIVE), (''complete'', FINISHED), (''cancel'', CANCELLED)]"

definition LABEL_MAX :: nat where "LABEL_MAX = 40"

datatype transition_refusal =
    NotADraft nat string
  | LeftDraft nat
  | NoFurtherTransition nat string
  | CannotBecome nat string string "string list"
  | AlreadyEnded nat int
  | NotReady activation_problem
  | ChangedMeanwhile nat

datatype campaign_refusal = DraftExists | LabelNotInVocabulary | EndBeforeStart | RefusedByConstraint

datatype campaign_error =
    CampaignNotFound nat
  | InvalidTransition transition_refusal
  | CampaignRefused string campaign_refusal
  | CampaignIntegrity violation
  | CampaignValueTooLong
  | NoSuchAction string

record campaign_input =
  ci_name :: string
  ci_label :: string
  ci_starts :: int
  ci_ends :: int

section \<open>The form\<close>

definition parse_form_date :: "string \<Rightarrow> form_message option \<times> int option" where
  "parse_form_date raw =
    (if raw = [] then (Some Required, None)
     else case iso_date (Some raw) of None \<Rightarrow> (Some NotADate, None) | Some v \<Rightarrow> (None, Some v))"

definition validate_campaign ::
  "string \<Rightarrow> string \<Rightarrow> string \<Rightarrow> string \<Rightarrow> campaign_input option \<times> (string \<times> form_message) list" where
  "validate_campaign name label_code starts_on ends_on =
    (let (start_error, start) = parse_form_date starts_on;
         (end_error, finish) = parse_form_date ends_on;
         errors =
           (if py_strip name = [] then [(''name'', Required)]
            else if length name > NAME_MAX then [(''name'', TooLong)] else [])
           @ (if label_code = [] then [(''label_code'', Required)]
              else if length label_code > LABEL_MAX then [(''label_code'', NotInList)] else [])
           @ (case start_error of None \<Rightarrow> [] | Some e \<Rightarrow> [(''starts_on'', e)])
           @ (case end_error of None \<Rightarrow> [] | Some e \<Rightarrow> [(''ends_on'', e)])
           @ (case (start, finish) of (Some s, Some e) \<Rightarrow> if e < s then [(''ends_on'', EndsBeforeStart)] else [] | _ \<Rightarrow> [])
     in if errors \<noteq> [] then (None, errors)
        else (Some \<lparr>ci_name = py_strip name, ci_label = label_code, ci_starts = the start, ci_ends = the finish\<rparr>, []))"

section \<open>Statements\<close>

definition campaign_row_refused :: "exp_db \<Rightarrow> campaign_row \<Rightarrow> campaign_error option" where
  "campaign_row_refused d c =
    (if length (cp_name c) > 120 \<or> length (cp_label c) > 40 then Some CampaignValueTooLong
     else if cp_status c \<notin> {DRAFT, ACTIVE, FINISHED, CANCELLED} then Some (CampaignIntegrity (CheckViolation ''campaign_status_check''))
     else if cp_ends c < cp_starts c then Some (CampaignIntegrity (CheckViolation ''campaign_check''))
     else if cp_label c \<notin> set (xd_labels d) then Some (CampaignIntegrity (ForeignKeyViolation ''campaign_label_code_fkey''))
     else None)"

definition db_create_campaign :: "campaign_input \<Rightarrow> exp_db \<Rightarrow> (campaign_error + nat option) \<times> exp_db" where
  "db_create_campaign x d =
    (if list_ex (\<lambda>c. cp_name c = ci_name x \<and> cp_label c = ci_label x \<and> cp_starts c = ci_starts x \<and> cp_ends c = ci_ends x
          \<and> cp_status c = DRAFT) (xd_campaigns d) then (Inr None, d)
     else let i = next_id (map cp_id (xd_campaigns d));
              c = \<lparr>cp_id = i, cp_name = ci_name x, cp_label = ci_label x, cp_starts = ci_starts x, cp_ends = ci_ends x, cp_status = DRAFT\<rparr>
          in case campaign_row_refused d c of
              Some e \<Rightarrow> (Inl e, d)
            | None \<Rightarrow> (Inr (Some i), d\<lparr>xd_campaigns := xd_campaigns d @ [c]\<rparr>))"

definition update_campaigns :: "(campaign_row \<Rightarrow> bool) \<Rightarrow> (campaign_row \<Rightarrow> campaign_row) \<Rightarrow> exp_db \<Rightarrow> exp_db" where
  "update_campaigns P f d = d\<lparr>xd_campaigns := map (\<lambda>c. if P c then f c else c) (xd_campaigns d)\<rparr>"

definition db_update_draft :: "nat \<Rightarrow> campaign_input \<Rightarrow> exp_db \<Rightarrow> (campaign_error + bool) \<times> exp_db" where
  "db_update_draft i x d =
    (let edit = (\<lambda>c. c\<lparr>cp_name := ci_name x, cp_label := ci_label x, cp_starts := ci_starts x, cp_ends := ci_ends x\<rparr>)
     in case find (\<lambda>c. cp_id c = i \<and> cp_status c = DRAFT) (xd_campaigns d) of
         None \<Rightarrow> (Inr False, d)
       | Some c \<Rightarrow>
           (case campaign_row_refused d (edit c) of
              Some e \<Rightarrow> (Inl e, d)
            | None \<Rightarrow> (Inr True, update_campaigns (\<lambda>c. cp_id c = i \<and> cp_status c = DRAFT) edit d)))"

definition change_status :: "nat \<Rightarrow> string \<Rightarrow> string \<Rightarrow> exp_db \<Rightarrow> bool \<times> exp_db" where
  "change_status i current new d =
    (list_ex (\<lambda>c. cp_id c = i \<and> cp_status c = current) (xd_campaigns d),
     update_campaigns (\<lambda>c. cp_id c = i \<and> cp_status c = current) (\<lambda>c. c\<lparr>cp_status := new\<rparr>) d)"

section \<open>The service\<close>

definition campaign_refusal_of :: "violation \<Rightarrow> campaign_error" where
  "campaign_refusal_of v =
    (case v of
       ForeignKeyViolation _ \<Rightarrow> CampaignRefused ''label_code'' LabelNotInVocabulary
     | CheckViolation _ \<Rightarrow> CampaignRefused ''ends_on'' EndBeforeStart
     | UniqueViolation _ \<Rightarrow> CampaignRefused [] campaign_refusal.RefusedByConstraint)"

definition translating_campaign :: "(exp_db, campaign_error, 'a) operation \<Rightarrow> (exp_db, campaign_error, 'a) operation" where
  "translating_campaign f owned s =
    (case f owned s of (Inl (CampaignIntegrity v), s') \<Rightarrow> (Inl (campaign_refusal_of v), s') | r \<Rightarrow> r)"

definition create_campaign_body :: "campaign_input \<Rightarrow> exp_db \<Rightarrow> (campaign_error + nat) \<times> exp_db" where
  "create_campaign_body x d =
    (case db_create_campaign x d of
       (Inl e, d') \<Rightarrow> (Inl e, d')
     | (Inr None, d') \<Rightarrow> (Inl (CampaignRefused [] DraftExists), d')
     | (Inr (Some i), d') \<Rightarrow> (Inr i, d'))"

definition create_campaign :: "campaign_input \<Rightarrow> (exp_db, campaign_error, nat) operation" where
  "create_campaign x = translating_campaign (atomic (statements (create_campaign_body x)))"

definition update_draft_body :: "nat \<Rightarrow> campaign_input \<Rightarrow> exp_db \<Rightarrow> (campaign_error + unit) \<times> exp_db" where
  "update_draft_body i x d =
    (case get_campaign d i of
       None \<Rightarrow> (Inl (CampaignNotFound i), d)
     | Some current \<Rightarrow>
         if cp_status current \<noteq> DRAFT then (Inl (InvalidTransition (NotADraft i (cp_status current))), d)
         else case db_update_draft i x d of
             (Inl e, d') \<Rightarrow> (Inl e, d')
           | (Inr edited, d') \<Rightarrow> if \<not> edited then (Inl (InvalidTransition (LeftDraft i)), d') else (Inr (), d'))"

definition update_draft :: "nat \<Rightarrow> campaign_input \<Rightarrow> (exp_db, campaign_error, unit) operation" where
  "update_draft i x = translating_campaign (atomic (statements (update_draft_body i x)))"

definition allowed_from :: "string \<Rightarrow> string list" where
  "allowed_from status = (case map_of TRANSITIONS status of None \<Rightarrow> [] | Some ts \<Rightarrow> ts)"

definition refuse_move :: "nat \<Rightarrow> string \<Rightarrow> string \<Rightarrow> campaign_error" where
  "refuse_move i status target =
    (if allowed_from status = [] then InvalidTransition (NoFurtherTransition i status)
     else InvalidTransition (CannotBecome i status target (allowed_from status)))"

definition transition_body :: "int \<Rightarrow> nat \<Rightarrow> string \<Rightarrow> exp_db \<Rightarrow> (campaign_error + string) \<times> exp_db" where
  "transition_body today i action d =
    (case map_of ACTIONS action of
       None \<Rightarrow> (Inl (NoSuchAction action), d)
     | Some target \<Rightarrow>
         (case get_campaign d i of
            None \<Rightarrow> (Inl (CampaignNotFound i), d)
          | Some current \<Rightarrow>
              if target \<notin> set (allowed_from (cp_status current)) then (Inl (refuse_move i (cp_status current) target), d)
              else if target = ACTIVE \<and> cp_ends current < today then (Inl (InvalidTransition (AlreadyEnded i (cp_ends current))), d)
              else case (if target = ACTIVE then activation_refusal d i else None) of
                  Some problem \<Rightarrow> (Inl (InvalidTransition (NotReady problem)), d)
                | None \<Rightarrow>
                    (case change_status i (cp_status current) target d of
                       (moved, d') \<Rightarrow> if \<not> moved then (Inl (InvalidTransition (ChangedMeanwhile i)), d') else (Inr target, d'))))"

definition transition :: "int \<Rightarrow> nat \<Rightarrow> string \<Rightarrow> (exp_db, campaign_error, string) operation" where
  "transition today i action = atomic (statements (transition_body today i action))"

end
