(* ===== verification/Experiment_Life.thy ===== *)
theory Experiment_Life
  imports Uplift Campaigns
begin

text \<open>
  The life of an experiment across its services: the step relation of everything that changes the tables,
  the invariants every step keeps, and what follows for an experiment from its first assignment on. A step
  is one committed unit of work of \<open>Experiments\<close>, \<open>Uplift\<close> or \<open>Campaigns\<close>, or an arrival from outside: a
  sale, a customer, a segmentation run.
\<close>

section \<open>The invariants\<close>

definition keys_wf :: "exp_db \<Rightarrow> bool" where
  "keys_wf d \<longleftrightarrow> distinct (map xr_id (xd_experiments d)) \<and> distinct (map gr_id (xd_groups d))
     \<and> distinct (map as_id (xd_assignments d)) \<and> distinct (map sl_id (xd_sales d))
     \<and> (\<forall>a\<in>set (xd_assignments d). as_id a < xd_next_assignment d)"

text \<open>Every experiment has arms it can be measured with: one control and a treatment, or two treatments.\<close>

definition arms_wf :: "exp_db \<Rightarrow> bool" where
  "arms_wf d \<longleftrightarrow> (\<forall>g\<in>set (xd_groups d). gr_experiment g \<in> xr_id ` set (xd_experiments d) \<and> gr_kind g \<in> {CONTROL, TREATMENT})
     \<and> (\<forall>e\<in>set (xd_experiments d). length (groups_of_kind d (xr_id e) CONTROL) \<le> 1
          \<and> 1 \<le> length (groups_of_kind d (xr_id e) TREATMENT)
          \<and> (groups_of_kind d (xr_id e) CONTROL = [] \<longrightarrow> length (groups_of_kind d (xr_id e) TREATMENT) = 2))"

text \<open>A customer is in at most one arm of an experiment, and an assigned experiment has no empty arm.\<close>

definition assignments_wf :: "exp_db \<Rightarrow> bool" where
  "assignments_wf d \<longleftrightarrow> distinct (map (\<lambda>a. (as_experiment a, as_customer a)) (xd_assignments d))
     \<and> (\<forall>a\<in>set (xd_assignments d). \<exists>g\<in>set (xd_groups d). gr_id g = as_group a \<and> gr_experiment g = as_experiment a)
     \<and> (\<forall>a\<in>set (xd_assignments d). \<forall>g\<in>set (xd_groups d). gr_experiment g = as_experiment a \<longrightarrow>
          (\<exists>b\<in>set (xd_assignments d). as_group b = gr_id g \<and> as_experiment b = as_experiment a))"

definition exposures_wf :: "exp_db \<Rightarrow> bool" where
  "exposures_wf d \<longleftrightarrow> (\<forall>x\<in>set (xd_exposures d). \<exists>a\<in>set (xd_assignments d). \<exists>g\<in>set (xd_groups d).
     as_id a = eo_assignment x \<and> gr_id g = as_group a \<and> gr_kind g = TREATMENT)"

text \<open>A recorded conversion is a sale of the assigned customer inside the window counted from the assignment.\<close>

definition conversions_wf :: "exp_db \<Rightarrow> bool" where
  "conversions_wf d \<longleftrightarrow> distinct (xd_conversions d)
     \<and> (\<forall>v\<in>set (xd_conversions d). \<exists>a\<in>set (xd_assignments d). \<exists>t\<in>set (xd_sales d).
          v = \<lparr>cv_assignment = as_id a, cv_sale = sl_id t\<rparr> \<and> qualifies d a t)"

definition exp_wf :: "exp_db \<Rightarrow> bool" where
  "exp_wf d \<longleftrightarrow> keys_wf d \<and> arms_wf d \<and> assignments_wf d \<and> exposures_wf d \<and> conversions_wf d \<and> population_wf d"

text \<open>The frame the measurement of an experiment is judged against.\<close>

definition frame_of :: "exp_db \<Rightarrow> nat \<Rightarrow> (nat option \<times> string \<times> int \<times> int option \<times> nat \<times> string) option" where
  "frame_of d i = map_option (\<lambda>e. (xr_campaign e, xr_metric e, xr_starts e, xr_ends e, xr_window e, xr_origin e)) (experiment_row_of d i)"

text \<open>What a step does to an experiment that has assignments: nothing to its frame, its arms and its
  assignments, and it only adds exposures and conversions.\<close>

definition keeps_measurement :: "nat \<Rightarrow> exp_db \<Rightarrow> exp_db \<Rightarrow> bool" where
  "keeps_measurement i d d' \<longleftrightarrow> (assignments_of d i \<noteq> [] \<longrightarrow>
     frame_of d' i = frame_of d i \<and> assignments_of d' i = assignments_of d i
     \<and> filter (\<lambda>g. gr_experiment g = i) (xd_groups d') = filter (\<lambda>g. gr_experiment g = i) (xd_groups d)
     \<and> (\<exists>xs. xd_exposures d' = xd_exposures d @ xs) \<and> (\<exists>cs. xd_conversions d' = xd_conversions d @ cs))"

lemma keeps_measurement_refl [simp]: "keeps_measurement i d d"
  by (simp add: keeps_measurement_def)

lemma keeps_measurement_trans:
  "keeps_measurement i d d' \<Longrightarrow> keeps_measurement i d' d'' \<Longrightarrow> keeps_measurement i d d''"
  by (auto simp: keeps_measurement_def)

section \<open>Looking rows up\<close>

lemma find_id_append: "f x \<noteq> k \<Longrightarrow> find (\<lambda>y. f y = k) (xs @ [x]) = find (\<lambda>y. f y = k) xs"
  by (induction xs) auto

lemma find_id_Some: "distinct (map f xs) \<Longrightarrow> find (\<lambda>y. f y = k) xs = Some x \<longleftrightarrow> x \<in> set xs \<and> f x = k"
proof (induction xs)
  case (Cons y ys)
  have "f y = k \<Longrightarrow> x \<in> set ys \<Longrightarrow> f x \<noteq> k" using Cons.prems by (auto intro: rev_image_eqI)
  with Cons show ?case by auto
qed simp

lemma find_id_map: "(\<And>y. f (g y) = f y) \<Longrightarrow> find (\<lambda>y. f y = k) (map g xs) = map_option g (find (\<lambda>y. f y = k) xs)"
  by (induction xs) auto

lemma find_id_None: "find (\<lambda>y. f y = k) xs = None \<longleftrightarrow> k \<notin> f ` set xs"
  by (induction xs) auto

lemma fold_max_ge: "x \<in> set xs \<Longrightarrow> x \<le> fold max xs (m :: nat)"
  unfolding Max.set_eq_fold [symmetric] by (intro Max_ge) simp_all

lemma next_id_fresh: "next_id ids \<notin> set ids"
  unfolding next_id_def by (metis fold_max_ge Suc_n_not_le_n)

lemma experiment_row_of_Some: "experiment_row_of d i = Some e \<Longrightarrow> e \<in> set (xd_experiments d) \<and> xr_id e = i"
  unfolding experiment_row_of_def by (auto simp: find_Some_iff dest: nth_mem)

lemma lock_experiment_iff: "lock_experiment d i \<longleftrightarrow> i \<in> xr_id ` set (xd_experiments d)"
  by (simp add: lock_experiment_def experiment_row_of_def find_id_None)

section \<open>What each operation writes\<close>

lemma first_refusal_None: "first_refusal f xs = None \<longleftrightarrow> (\<forall>x\<in>set xs. f x = None)"
  by (induction xs) (auto split: option.splits)

lemma new_groups_simps:
  assumes "length kinds = length definitions"
  shows "map gr_kind (new_groups d i kinds definitions) = kinds"
    and "map gr_id (new_groups d i kinds definitions) = map ((+) (fold max (map gr_id (xd_groups d)) 0)) [1..<Suc (length kinds)]"
    and "g \<in> set (new_groups d i kinds definitions) \<Longrightarrow> gr_experiment g = i"
proof -
  have "map gr_kind (new_groups d i kinds definitions) = map fst (map snd (enumerate 1 (zip kinds definitions)))"
    unfolding new_groups_def map_map by (rule map_cong) auto
  then show "map gr_kind (new_groups d i kinds definitions) = kinds" using assms by (simp only: map_snd_enumerate map_fst_zip)
  have "map gr_id (new_groups d i kinds definitions) = map ((+) (fold max (map gr_id (xd_groups d)) 0)) (map fst (enumerate 1 (zip kinds definitions)))"
    unfolding new_groups_def map_map by (rule map_cong) auto
  then show "map gr_id (new_groups d i kinds definitions) = map ((+) (fold max (map gr_id (xd_groups d)) 0)) [1..<Suc (length kinds)]"
    using assms by (simp del: upt_Suc)
  show "g \<in> set (new_groups d i kinds definitions) \<Longrightarrow> gr_experiment g = i"
    by (auto simp: new_groups_def)
qed

lemma create_experiment_body_Inr:
  assumes "create_experiment_body x origin n d = (Inr i, d')"
  obtains e gs where "d' = d\<lparr>xd_experiments := xd_experiments d @ [e], xd_groups := xd_groups d @ gs\<rparr>"
    and "xr_id e = i" and "i = next_id (map xr_id (xd_experiments d))" and "map gr_kind gs = arm_kinds (in_has_control x) n"
    and "map gr_id gs = map ((+) (fold max (map gr_id (xd_groups d)) 0)) [1..<Suc (length gs)]"
    and "\<forall>g\<in>set gs. gr_experiment g = i" and "1 \<le> n" and "\<not> in_has_control x \<longrightarrow> n = 2"
proof -
  let ?kinds = "arm_kinds (in_has_control x) n"
  have db: "db_create_experiment x origin n d = (Inr (Some i), d')"
    using assms by (simp add: create_experiment_body_def split: option.splits sum.splits prod.splits)
  then have checks: "in_has_control x \<or> n = 2" "1 \<le> n" "length (in_definitions x) = length ?kinds"
    by (simp_all add: db_create_experiment_def Let_def not_less split: if_splits option.splits)
  from db have i: "i = next_id (map xr_id (xd_experiments d))"
    and d': "d' = d\<lparr>xd_experiments := xd_experiments d @ [\<lparr>xr_id = i, xr_name = in_name x, xr_campaign = in_campaign x,
          xr_metric = in_metric x, xr_starts = in_starts x, xr_ends = in_ends x, xr_window = experiment_input.in_window x, xr_origin = origin\<rparr>],
        xd_groups := xd_groups d @ new_groups d i ?kinds (in_definitions x)\<rparr>"
    unfolding db_create_experiment_def Let_def by (auto split: if_splits option.splits)
  note new = new_groups_simps [OF checks(3) [symmetric]]
  have "length (new_groups d i ?kinds (in_definitions x)) = length ?kinds" using new(1) by (metis length_map)
  with d' i checks new show thesis by (intro that [OF d']) auto
qed

definition edited :: "experiment_input \<Rightarrow> experiment_row \<Rightarrow> experiment_row" where
  "edited x e = e\<lparr>xr_name := in_name x, xr_campaign := in_campaign x, xr_metric := in_metric x, xr_starts := in_starts x,
     xr_ends := in_ends x, xr_window := experiment_input.in_window x\<rparr>"

lemma frame_changes_Nil:
  "frame_changes x e = [] \<longleftrightarrow> in_campaign x = xr_campaign e \<and> in_starts x = xr_starts e \<and> in_ends x = xr_ends e"
  by (simp add: frame_changes_def)

lemma update_experiment_body_Inr:
  assumes "update_experiment_body i x d = (Inr u, d')"
  obtains e where "experiment_row_of d i = Some e"
    and "d' = d\<lparr>xd_experiments := map (\<lambda>e. if xr_id e = i then edited x e else e) (xd_experiments d)\<rparr>"
    and "assignments_of d i \<noteq> [] \<Longrightarrow> in_campaign x = xr_campaign e \<and> in_metric x = xr_metric e \<and> in_starts x = xr_starts e
      \<and> in_ends x = xr_ends e \<and> experiment_input.in_window x = xr_window e"
proof -
  from assms obtain cur where cur: "get_experiment d i = Some cur"
    by (auto simp: update_experiment_body_def split: if_splits option.splits)
  then obtain e where e: "experiment_row_of d i = Some e" "x_row cur = e" "x_assignments cur = length (assignments_of d i)"
    by (auto simp: get_experiment_def)
  have "db_update_experiment i x d = (Inr b, d2) \<Longrightarrow>
      d2 = d\<lparr>xd_experiments := map (\<lambda>e. if xr_id e = i then edited x e else e) (xd_experiments d)\<rparr>" for b d2
    by (auto simp: db_update_experiment_def Let_def e(1) edited_def split: option.splits)
  with assms cur e have "d' = d\<lparr>xd_experiments := map (\<lambda>e. if xr_id e = i then edited x e else e) (xd_experiments d)\<rparr>"
    by (auto simp: update_experiment_body_def Let_def split: if_splits option.splits list.splits prod.splits sum.splits)
  moreover have "assignments_of d i \<noteq> [] \<Longrightarrow> in_campaign x = xr_campaign e \<and> in_metric x = xr_metric e \<and> in_starts x = xr_starts e
      \<and> in_ends x = xr_ends e \<and> experiment_input.in_window x = xr_window e"
    using assms cur e frame_changes_Nil [of x e]
    by (auto simp: update_experiment_body_def Let_def split: if_splits list.splits prod.splits)
  ultimately show thesis using e(1) that by blast
qed

text \<open>An exposure that is written belongs to an assignment outside the control group.\<close>

lemma insert_exposure_Inr:
  assumes "insert_exposure now aid d = (Inr b, d')"
  shows "d' = d \<or> d' = d\<lparr>xd_exposures := xd_exposures d @ [\<lparr>eo_assignment = aid, eo_at = now\<rparr>]\<rparr>
    \<and> aid \<in> as_id ` set (xd_assignments d) \<and> \<not> control_assignment d aid"
  using assms by (auto simp: insert_exposure_def assignment_row_of_def find_id_None image_iff split: if_splits)

definition only_exposures :: "exp_db \<Rightarrow> exp_db \<Rightarrow> bool" where
  "only_exposures d d' \<longleftrightarrow> (\<exists>xs. d' = d\<lparr>xd_exposures := xd_exposures d @ xs\<rparr>
     \<and> (\<forall>x\<in>set xs. eo_assignment x \<in> as_id ` set (xd_assignments d) \<and> \<not> control_assignment d (eo_assignment x)))"

lemma only_exposures_refl [simp]: "only_exposures d d"
  unfolding only_exposures_def by (rule exI [of _ "[]"]) simp

lemma insert_exposure_only: "insert_exposure now aid d = (Inr b, d') \<Longrightarrow> only_exposures d d'"
  by (drule insert_exposure_Inr, elim disjE) (simp, force simp: only_exposures_def)

lemma control_assignment_exposures [simp]: "control_assignment (d\<lparr>xd_exposures := xs\<rparr>) = control_assignment d"
  by (simp add: control_assignment_def fun_eq_iff)

lemma only_exposures_trans: "only_exposures d d' \<Longrightarrow> only_exposures d' d'' \<Longrightarrow> only_exposures d d''"
  unfolding only_exposures_def by (elim exE conjE) (rule exI, rule conjI, simp, auto)

lemma insert_exposures_only: "insert_exposures now aids d = (Inr n, d') \<Longrightarrow> only_exposures d d'"
proof (induction aids arbitrary: d n)
  case (Cons aid aids)
  then obtain b d1 m where "insert_exposure now aid d = (Inr b, d1)" "insert_exposures now aids d1 = (Inr m, d')"
    by (auto split: prod.splits sum.splits)
  with Cons.IH show ?case by (blast intro: only_exposures_trans insert_exposure_only)
qed simp

lemma record_exposure_body_Inr: "record_exposure_body now today i c d = (Inr b, d') \<Longrightarrow> only_exposures d d'"
  by (auto simp: record_exposure_body_def split: if_splits option.splits intro: insert_exposure_only)

lemma record_group_exposures_body_Inr: "record_group_exposures_body now today i g cs d = (Inr n, d') \<Longrightarrow> only_exposures d d'"
  by (auto simp: record_group_exposures_body_def Let_def split: if_splits option.splits intro: insert_exposures_only)

text \<open>
  What a campaign may become: its status moves along \<open>TRANSITIONS\<close>, and nothing else of it changes once it has
  left the draft.
\<close>

definition campaign_after :: "campaign_row \<Rightarrow> campaign_row \<Rightarrow> bool" where
  "campaign_after c c' \<longleftrightarrow> cp_id c' = cp_id c \<and> rtranclp (\<lambda>s t. t \<in> set (allowed_from s)) (cp_status c) (cp_status c')
     \<and> (cp_status c \<noteq> DRAFT \<longrightarrow> c' = c\<lparr>cp_status := cp_status c'\<rparr>)"

lemma campaign_after_refl [simp]: "campaign_after c c"
  by (simp add: campaign_after_def)

inductive campaigns_move :: "campaign_row list \<Rightarrow> campaign_row list \<Rightarrow> bool" where
  added: "campaigns_move cs (cs @ [c])"
| rewritten: "\<forall>c\<in>set cs. campaign_after c (f c) \<Longrightarrow> campaigns_move cs (map f cs)"

definition only_campaigns :: "exp_db \<Rightarrow> exp_db \<Rightarrow> bool" where
  "only_campaigns d d' \<longleftrightarrow> (\<exists>cs. d' = d\<lparr>xd_campaigns := cs\<rparr> \<and> campaigns_move (xd_campaigns d) cs)"

lemma update_campaigns_only:
  "(\<And>c. P c \<Longrightarrow> campaign_after c (f c)) \<Longrightarrow> only_campaigns d (update_campaigns P f d)"
  unfolding only_campaigns_def update_campaigns_def 
  by (rule exI, rule conjI, rule refl, rule campaigns_move.rewritten) simp

lemma campaign_bodies_Inr:
  "create_campaign_body ci d = (Inr i, d') \<Longrightarrow> only_campaigns d d'"
  "update_draft_body i ci d = (Inr u, d') \<Longrightarrow> only_campaigns d d'"
  "transition_body today i action d = (Inr st, d') \<Longrightarrow> only_campaigns d d'"
proof -
  show "create_campaign_body ci d = (Inr i, d') \<Longrightarrow> only_campaigns d d'"
    by (auto simp: create_campaign_body_def db_create_campaign_def only_campaigns_def Let_def campaigns_move.added
        split: if_splits option.splits sum.splits prod.splits)
  show "update_draft_body i ci d = (Inr u, d') \<Longrightarrow> only_campaigns d d'"
    by (auto simp: update_draft_body_def db_update_draft_def Let_def campaign_after_def
        split: if_splits option.splits sum.splits prod.splits intro!: update_campaigns_only)
  show "transition_body today i action d = (Inr st, d') \<Longrightarrow> only_campaigns d d'"
    by (auto simp: transition_body_def change_status_def Let_def campaign_after_def
        split: if_splits option.splits sum.splits prod.splits intro!: update_campaigns_only)
qed

section \<open>Steps\<close>

definition permuting :: "shuffler \<Rightarrow> bool" where
  "permuting shuffle \<longleftrightarrow> (\<forall>seed xs. mset (shuffle seed xs) = mset xs)"

text \<open>What happens to the tables: the calls of the services, each committed, and what arrives from outside.\<close>

inductive platform_step :: "exp_db \<Rightarrow> exp_db \<Rightarrow> bool" where
  experiment_created: "create_experiment x False (at_rest d) = (Inr i, s) \<Longrightarrow> platform_step d (committed s)"
| experiment_edited: "update_experiment i x False (at_rest d) = (Inr u, s) \<Longrightarrow> platform_step d (committed s)"
| population_assigned: "permuting shuffle \<Longrightarrow> assign shuffle now i False (at_rest d) = (Inr plan, s) \<Longrightarrow> platform_step d (committed s)"
| customer_exposed: "record_exposure now today i c False (at_rest d) = (Inr b, s) \<Longrightarrow> platform_step d (committed s)"
| arm_exposed: "record_group_exposures parse_uuid now today i g selected False (at_rest d) = (Inr n, s) \<Longrightarrow> platform_step d (committed s)"
| conversions_evaluated: "evaluate i False (at_rest d) = (Inr n, s) \<Longrightarrow> platform_step d (committed s)"
| campaign_created: "create_campaign ci False (at_rest d) = (Inr i, s) \<Longrightarrow> platform_step d (committed s)"
| draft_edited: "update_draft i ci False (at_rest d) = (Inr u', s) \<Longrightarrow> platform_step d (committed s)"
| campaign_moved: "transition today i action False (at_rest d) = (Inr st, s) \<Longrightarrow> platform_step d (committed s)"
| sale_arrived: "sl_id t \<notin> sl_id ` set (xd_sales d) \<Longrightarrow> platform_step d (d\<lparr>xd_sales := xd_sales d @ [t]\<rparr>)"
| customer_arrived: "platform_step d (d\<lparr>xd_customers := c # xd_customers d\<rparr>)"
| segmented: "population_wf (d\<lparr>xd_history := hs\<rparr>) \<Longrightarrow> platform_step d (d\<lparr>xd_history := hs\<rparr>)"

inductive platform_run :: "exp_db \<Rightarrow> exp_db \<Rightarrow> bool" where
  run_start: "platform_run d d"
| run_step: "platform_run d d' \<Longrightarrow> platform_step d' d'' \<Longrightarrow> platform_run d d''"

text \<open>The same steps by what they write.\<close>

inductive effect :: "exp_db \<Rightarrow> exp_db \<Rightarrow> bool" where
  created: "xr_id e = next_id (map xr_id (xd_experiments d)) \<Longrightarrow> map gr_kind gs = arm_kinds control n \<Longrightarrow>
    map gr_id gs = map ((+) (fold max (map gr_id (xd_groups d)) 0)) [1..<Suc (length gs)] \<Longrightarrow> \<forall>g\<in>set gs. gr_experiment g = xr_id e \<Longrightarrow>
    1 \<le> n \<Longrightarrow> \<not> control \<longrightarrow> n = 2 \<Longrightarrow>
    effect d (d\<lparr>xd_experiments := xd_experiments d @ [e], xd_groups := xd_groups d @ gs\<rparr>)"
| edit: "experiment_row_of d i = Some e \<Longrightarrow>
    (assignments_of d i \<noteq> [] \<longrightarrow> in_campaign x = xr_campaign e \<and> in_metric x = xr_metric e \<and> in_starts x = xr_starts e
      \<and> in_ends x = xr_ends e \<and> experiment_input.in_window x = xr_window e) \<Longrightarrow>
    effect d (d\<lparr>xd_experiments := map (\<lambda>e. if xr_id e = i then edited x e else e) (xd_experiments d)\<rparr>)"
| assigned: "permuting shuffle \<Longrightarrow> plan_assignment shuffle d i = Inr plan \<Longrightarrow>
    assign_body shuffle now i d = (Inr plan, d') \<Longrightarrow> effect d d'"
| exposures_added: "only_exposures d d' \<Longrightarrow> effect d d'"
| evaluated: "assignments_of d i \<noteq> [] \<Longrightarrow> effect d (snd (evaluate_conversions i d))"
| campaigns_changed: "only_campaigns d d' \<Longrightarrow> effect d d'"
| sold: "sl_id t \<notin> sl_id ` set (xd_sales d) \<Longrightarrow> effect d (d\<lparr>xd_sales := xd_sales d @ [t]\<rparr>)"
| registered: "effect d (d\<lparr>xd_customers := c # xd_customers d\<rparr>)"
| resegmented: "population_wf (d\<lparr>xd_history := hs\<rparr>) \<Longrightarrow> effect d (d\<lparr>xd_history := hs\<rparr>)"

lemma atomic_Inr:
  assumes "atomic (statements f) False (at_rest d) = (Inr a, s)"
  shows "f d = (Inr a, committed s)"
  using assms by (auto simp: atomic_statements split: prod.splits sum.splits)

lemma translating_Inr: "translating f owned s = (Inr a, s') \<Longrightarrow> f owned s = (Inr a, s')"
  by (auto simp: translating_def refusal_of_def split: prod.splits sum.splits experiment_error.splits violation.splits)

lemma translating_campaign_Inr: "translating_campaign f owned s = (Inr a, s') \<Longrightarrow> f owned s = (Inr a, s')"
  by (auto simp: translating_campaign_def campaign_refusal_of_def split: prod.splits sum.splits campaign_error.splits violation.splits)

lemma step_effect: "platform_step d d' \<Longrightarrow> effect d d'"
proof (induction rule: platform_step.induct)
  case (experiment_created x d i s)
  then obtain origin n where "create_experiment_body x origin n d = (Inr i, committed s)"
    by (auto simp: create_experiment_def split: option.splits if_splits dest!: translating_Inr atomic_Inr)
  then show ?case by (rule create_experiment_body_Inr) (auto intro: effect.created)
next
  case (experiment_edited i x d u s)
  then have "update_experiment_body i x d = (Inr u, committed s)"
    by (auto simp: update_experiment_def dest!: translating_Inr atomic_Inr)
  then show ?case by (rule update_experiment_body_Inr) (auto intro: effect.edit)
next
  case (population_assigned shuffle now i d plan s)
  then have body: "assign_body shuffle now i d = (Inr plan, committed s)"
    by (auto simp: assign_def split: prod.splits sum.splits experiment_error.splits violation.splits dest!: atomic_Inr)
  then have "plan_assignment shuffle d i = Inr plan"
    by (auto simp: assign_body_def split: if_splits sum.splits prod.splits)
  with population_assigned(1) body show ?case by (intro effect.assigned)
next
  case (customer_exposed now today i c d b s)
  then show ?case by (auto simp: record_exposure_def dest!: atomic_Inr intro: effect.exposures_added record_exposure_body_Inr)
next
  case (arm_exposed parse_uuid now today i g selected d n s)
  then show ?case
    by (auto simp: record_group_exposures_def Let_def split: if_splits dest!: atomic_Inr
        intro: effect.exposures_added record_group_exposures_body_Inr)
next
  case (conversions_evaluated i d n s)
  then have "evaluate_body i d = (Inr n, committed s)" unfolding evaluate_def by (rule atomic_Inr)
  then have "assignments_of d i \<noteq> []" "committed s = snd (evaluate_conversions i d)"
    by (auto simp: evaluate_body_def get_experiment_def split: if_splits option.splits prod.splits)
  then show ?case by (metis effect.evaluated)
next
  case (campaign_created ci d i s)
  then show ?case
    by (auto simp: create_campaign_def dest!: translating_campaign_Inr atomic_Inr intro: effect.campaigns_changed campaign_bodies_Inr)
next
  case (draft_edited i ci d u' s)
  then show ?case
    by (auto simp: update_draft_def dest!: translating_campaign_Inr atomic_Inr intro: effect.campaigns_changed campaign_bodies_Inr)
next
  case (campaign_moved today i action d st s)
  then show ?case
    by (auto simp: transition_def dest!: atomic_Inr intro: effect.campaigns_changed campaign_bodies_Inr)
qed (auto intro: effect.intros)

section \<open>Every step keeps the invariants\<close>

lemma assigned_experiment:
  assumes "exp_wf d" and "a \<in> set (xd_assignments d)"
  shows "as_experiment a \<in> xr_id ` set (xd_experiments d)"
  using assms unfolding exp_wf_def assignments_wf_def arms_wf_def by metis

lemma qualifies_window: "window_of d' a = window_of d a \<Longrightarrow> qualifies d' a t = qualifies d a t"
  by (simp add: qualifies_def)

lemma exposures_wf_more:
  "exposures_wf d \<Longrightarrow> set (xd_assignments d) \<subseteq> set (xd_assignments d') \<Longrightarrow> set (xd_groups d) \<subseteq> set (xd_groups d') \<Longrightarrow>
    xd_exposures d' = xd_exposures d \<Longrightarrow> exposures_wf d'"
  by (fastforce simp: exposures_wf_def)

lemma conversions_wf_more:
  "conversions_wf d \<Longrightarrow> set (xd_assignments d) \<subseteq> set (xd_assignments d') \<Longrightarrow> set (xd_sales d) \<subseteq> set (xd_sales d') \<Longrightarrow>
    xd_conversions d' = xd_conversions d \<Longrightarrow> (\<And>a. a \<in> set (xd_assignments d) \<Longrightarrow> window_of d' a = window_of d a) \<Longrightarrow> conversions_wf d'"
  unfolding conversions_wf_def
proof (elim conjE, intro conjI ballI)
  fix v
  assume same: "xd_conversions d' = xd_conversions d" "\<And>a. a \<in> set (xd_assignments d) \<Longrightarrow> window_of d' a = window_of d a"
    and more: "set (xd_assignments d) \<subseteq> set (xd_assignments d')" "set (xd_sales d) \<subseteq> set (xd_sales d')"
    and old: "\<forall>v\<in>set (xd_conversions d). \<exists>a\<in>set (xd_assignments d). \<exists>t\<in>set (xd_sales d).
      v = \<lparr>cv_assignment = as_id a, cv_sale = sl_id t\<rparr> \<and> qualifies d a t" and v: "v \<in> set (xd_conversions d')"
  from v have "v \<in> set (xd_conversions d)" by (simp only: same(1))
  with old obtain a t where at: "a \<in> set (xd_assignments d)" "t \<in> set (xd_sales d)"
    "v = \<lparr>cv_assignment = as_id a, cv_sale = sl_id t\<rparr>" "qualifies d a t" by blast
  then have "qualifies d' a t" by (simp only: qualifies_window [OF same(2) [OF at(1)]])
  with at(1-3) more show "\<exists>a\<in>set (xd_assignments d'). \<exists>t\<in>set (xd_sales d').
      v = \<lparr>cv_assignment = as_id a, cv_sale = sl_id t\<rparr> \<and> qualifies d' a t"
    by blast
qed simp

lemma population_wf_cong: "xd_history d' = xd_history d \<Longrightarrow> set (xd_customers d) \<subseteq> set (xd_customers d') \<Longrightarrow> population_wf d \<Longrightarrow> population_wf d'"
  by (auto simp: population_wf_def)

lemma experiment_row_of_append:
  "xr_id e \<notin> xr_id ` set (xd_experiments d) \<Longrightarrow> i \<in> xr_id ` set (xd_experiments d) \<Longrightarrow>
    find (\<lambda>x. xr_id x = i) (xd_experiments d @ [e]) = experiment_row_of d i"
  unfolding experiment_row_of_def by (rule find_id_append) auto

lemma length_filter_map: "length (filter (\<lambda>x. f x = k) xs) = length (filter (\<lambda>y. y = k) (map f xs))"
  by (induction xs) auto

lemma arm_kinds_counts:
  "length (filter (\<lambda>y. y = CONTROL) (arm_kinds control n)) = (if control then 1 else 0)"
  "length (filter (\<lambda>y. y = TREATMENT) (arm_kinds control n)) = n" "set (arm_kinds control n) \<subseteq> {CONTROL, TREATMENT}"
  by (auto simp: arm_kinds_def CONTROL_def TREATMENT_def filter_replicate)

lemma created_keeps:
  assumes wf: "exp_wf d" and e: "xr_id e = next_id (map xr_id (xd_experiments d))" and kinds: "map gr_kind gs = arm_kinds control n"
    and ids: "map gr_id gs = map ((+) (fold max (map gr_id (xd_groups d)) 0)) [1..<Suc (length gs)]"
    and gs: "\<forall>g\<in>set gs. gr_experiment g = xr_id e" and n: "1 \<le> n" "\<not> control \<longrightarrow> n = 2"
  defines "d' \<equiv> d\<lparr>xd_experiments := xd_experiments d @ [e], xd_groups := xd_groups d @ gs\<rparr>"
  shows "exp_wf d' \<and> keeps_measurement j d d'"
proof -
  have fresh: "xr_id e \<notin> xr_id ` set (xd_experiments d)" using next_id_fresh [of "map xr_id (xd_experiments d)"] by (simp add: e)
  have old: "g \<in> set (xd_groups d) \<Longrightarrow> gr_experiment g \<noteq> xr_id e" for g
    using wf fresh unfolding exp_wf_def arms_wf_def by metis
  have old_a: "a \<in> set (xd_assignments d) \<Longrightarrow> g \<in> set gs \<Longrightarrow> gr_experiment g \<noteq> as_experiment a" for a g
    using assigned_experiment [OF wf] fresh gs by metis
  have dist: "distinct (map gr_id gs)" unfolding ids by (simp add: distinct_map inj_on_def del: upt_Suc)
  have new: "gr_id g \<notin> gr_id ` set (xd_groups d)" if "g \<in> set gs" for g
  proof -
    from that have "gr_id g \<in> set (map gr_id gs)" by simp
    then have "fold max (map gr_id (xd_groups d)) 0 < gr_id g" unfolding ids by (auto simp del: upt_Suc)
    then show "gr_id g \<notin> gr_id ` set (xd_groups d)" using fold_max_ge [of _ "map gr_id (xd_groups d)" 0] by fastforce
  qed
  have "gr_id ` set (xd_groups d) \<inter> gr_id ` set gs = {}" unfolding disjoint_iff using new by (metis imageE)
  then have keys: "keys_wf d'" using wf fresh dist by (simp add: keys_wf_def d'_def exp_wf_def)
  have counts: "length (filter (\<lambda>g. gr_kind g = k) gs) = length (filter (\<lambda>y. y = k) (arm_kinds control n))" for k
    by (metis kinds length_filter_map)
  have "gr_kind g \<in> {CONTROL, TREATMENT}" if "g \<in> set gs" for g
    using that arm_kinds_counts(3) [of control n] kinds by (metis image_eqI list.set_map subsetD)
  moreover have "groups_of_kind d' (xr_id x) k = groups_of_kind d (xr_id x) k" if "x \<in> set (xd_experiments d)" for x k
    using that fresh gs by (auto simp: groups_of_kind_def d'_def filter_empty_conv)
  moreover have "groups_of_kind d' (xr_id e) k = filter (\<lambda>g. gr_kind g = k) gs" for k
    using old gs by (auto simp: groups_of_kind_def d'_def filter_empty_conv intro: filter_cong)
  ultimately have arms: "arms_wf d'"
    using wf gs counts [of CONTROL] counts [of TREATMENT] n
    by (auto simp: arms_wf_def d'_def exp_wf_def arm_kinds_counts)
  have assigned: "assignments_wf d'"
    using wf old_a by (auto simp: assignments_wf_def d'_def exp_wf_def)
  have row: "i \<in> xr_id ` set (xd_experiments d) \<Longrightarrow> experiment_row_of d' i = experiment_row_of d i" for i
    using experiment_row_of_append [OF fresh] by (simp add: experiment_row_of_def d'_def)
  have "conversions_wf d'"
    by (rule conversions_wf_more [of d]) (use wf assigned_experiment [OF wf] in \<open>auto simp: exp_wf_def d'_def [symmetric] window_of_def row, auto simp: d'_def\<close>)
  moreover have "exposures_wf d'" by (rule exposures_wf_more [of d]) (use wf in \<open>auto simp: exp_wf_def d'_def\<close>)
  moreover have "population_wf d'" using wf by (intro population_wf_cong [of d' d]) (auto simp: exp_wf_def d'_def)
  ultimately have "exp_wf d'" using keys arms assigned by (simp add: exp_wf_def)
  moreover have "keeps_measurement j d d'"
  proof (unfold keeps_measurement_def, intro impI conjI)
    assume "assignments_of d j \<noteq> []"
    then obtain a where "a \<in> set (xd_assignments d)" "as_experiment a = j" by (auto simp: assignments_of_def filter_empty_conv)
    then have j: "j \<in> xr_id ` set (xd_experiments d)" using assigned_experiment [OF wf] by blast
    then have "j \<noteq> xr_id e" using fresh by metis
    then show "filter (\<lambda>g. gr_experiment g = j) (xd_groups d') = filter (\<lambda>g. gr_experiment g = j) (xd_groups d)"
      using gs by (auto simp: d'_def filter_empty_conv)
    show "frame_of d' j = frame_of d j" by (simp add: frame_of_def row [OF j])
  qed (auto simp: d'_def assignments_of_def)
  ultimately show ?thesis ..
qed

text \<open>The steps that write neither an experiment, a group nor an assignment.\<close>

lemma measured_keeps:
  assumes "exp_wf d" and "xd_experiments d' = xd_experiments d" and "xd_groups d' = xd_groups d" and "xd_assignments d' = xd_assignments d"
    and "xd_next_assignment d' = xd_next_assignment d" and "distinct (map sl_id (xd_sales d'))" and "population_wf d'"
    and "exposures_wf d'" and "conversions_wf d'" and "\<exists>xs. xd_exposures d' = xd_exposures d @ xs" and "\<exists>cs. xd_conversions d' = xd_conversions d @ cs"
  shows "exp_wf d' \<and> keeps_measurement j d d'"
  using assms
  by (simp add: exp_wf_def keys_wf_def arms_wf_def assignments_wf_def groups_of_kind_def keeps_measurement_def frame_of_def
      experiment_row_of_def assignments_of_def)

lemma window_of_cong: "xd_experiments d' = xd_experiments d \<Longrightarrow> window_of d' = window_of d"
  by (simp add: window_of_def experiment_row_of_def fun_eq_iff)

lemma sold_keeps:
  assumes wf: "exp_wf d" and "sl_id t \<notin> sl_id ` set (xd_sales d)"
  shows "exp_wf (d\<lparr>xd_sales := xd_sales d @ [t]\<rparr>) \<and> keeps_measurement j d (d\<lparr>xd_sales := xd_sales d @ [t]\<rparr>)"
proof (rule measured_keeps [OF wf])
  show "conversions_wf (d\<lparr>xd_sales := xd_sales d @ [t]\<rparr>)"
    by (rule conversions_wf_more [of d]) (use wf in \<open>auto simp: exp_wf_def window_of_def experiment_row_of_def\<close>)
  show "exposures_wf (d\<lparr>xd_sales := xd_sales d @ [t]\<rparr>)"
    by (rule exposures_wf_more [of d]) (use wf in \<open>auto simp: exp_wf_def\<close>)
qed (use assms in \<open>simp_all add: exp_wf_def keys_wf_def population_wf_def\<close>)

lemma outside_keeps:
  assumes wf: "exp_wf d" and "xd_sales d' = xd_sales d" and "xd_experiments d' = xd_experiments d" and "xd_groups d' = xd_groups d"
    and "xd_assignments d' = xd_assignments d" and "xd_next_assignment d' = xd_next_assignment d"
    and "xd_exposures d' = xd_exposures d" and "xd_conversions d' = xd_conversions d" and "population_wf d'"
  shows "exp_wf d' \<and> keeps_measurement j d d'"
proof (rule measured_keeps [OF wf])
  show "conversions_wf d'"
    by (rule conversions_wf_more [of d]) (use assms in \<open>simp_all add: exp_wf_def window_of_cong [OF assms(3)]\<close>)
  show "exposures_wf d'" by (rule exposures_wf_more [of d]) (use assms in \<open>simp_all add: exp_wf_def\<close>)
qed (use assms in \<open>simp_all add: exp_wf_def keys_wf_def\<close>)

lemma find_distinct_id: "distinct (map f xs) \<Longrightarrow> x \<in> set xs \<Longrightarrow> y \<in> set xs \<Longrightarrow> f x = f y \<Longrightarrow> x = y"
  by (metis inj_onD distinct_map)

text \<open>An exposure that the trigger lets through is of a treatment arm.\<close>

lemma not_control_is_treated:
  assumes wf: "exp_wf d" and "aid \<in> as_id ` set (xd_assignments d)" and "\<not> control_assignment d aid"
  shows "\<exists>a\<in>set (xd_assignments d). \<exists>g\<in>set (xd_groups d). as_id a = aid \<and> gr_id g = as_group a \<and> gr_kind g = TREATMENT"
proof -
  from assms(2) obtain a where a: "a \<in> set (xd_assignments d)" "as_id a = aid" by blast
  then obtain g where g: "g \<in> set (xd_groups d)" "gr_id g = as_group a" "gr_experiment g = as_experiment a"
    using wf unfolding exp_wf_def assignments_wf_def by blast
  moreover have "gr_kind g \<noteq> CONTROL" using assms(3) a g by (auto simp: control_assignment_def list_ex_iff)
  moreover have "gr_kind g \<in> {CONTROL, TREATMENT}" using wf g(1) unfolding exp_wf_def arms_wf_def by blast
  ultimately show ?thesis using a by blast
qed

lemma exposed_keeps:
  assumes wf: "exp_wf d" and "only_exposures d d'"
  shows "exp_wf d' \<and> keeps_measurement j d d'"
proof -
  obtain xs where d': "d' = d\<lparr>xd_exposures := xd_exposures d @ xs\<rparr>"
    and xs: "\<forall>x\<in>set xs. eo_assignment x \<in> as_id ` set (xd_assignments d) \<and> \<not> control_assignment d (eo_assignment x)"
    using assms(2) unfolding only_exposures_def by blast
  show ?thesis
  proof (rule measured_keeps [OF wf])
    have "exposures_wf d" using wf by (simp add: exp_wf_def)
    moreover have "\<forall>x\<in>set xs. \<exists>a\<in>set (xd_assignments d). \<exists>g\<in>set (xd_groups d). as_id a = eo_assignment x \<and> gr_id g = as_group a \<and> gr_kind g = TREATMENT"
      using xs not_control_is_treated [OF wf] by blast
    ultimately show "exposures_wf d'" unfolding exposures_wf_def d' by simp blast
    show "conversions_wf d'"
      by (rule conversions_wf_more [of d]) (use wf in \<open>simp_all add: exp_wf_def d' window_of_def experiment_row_of_def\<close>)
    show "population_wf d'" using wf by (simp add: exp_wf_def d' population_wf_def)
  qed (use wf in \<open>simp_all add: d' exp_wf_def keys_wf_def\<close>)
qed

lemma set_qualifying_pairs:
  "v \<in> set (qualifying_pairs d i) \<longleftrightarrow> (\<exists>a\<in>set (assignments_of d i). \<exists>t\<in>set (xd_sales d).
     v = \<lparr>cv_assignment = as_id a, cv_sale = sl_id t\<rparr> \<and> qualifies d a t)"
  by (auto simp: qualifying_pairs_def)

lemma distinct_qualifying_pairs:
  assumes "keys_wf d"
  shows "distinct (qualifying_pairs d i)"
proof -
  have row: "distinct (map (\<lambda>t. \<lparr>cv_assignment = as_id a, cv_sale = sl_id t\<rparr>) (filter P (xd_sales d)))" for a P
    using assms by (auto simp: keys_wf_def distinct_map inj_on_def)
  have ids: "distinct (map as_id (assignments_of d i))"
    using assms by (simp add: keys_wf_def assignments_of_def distinct_map_filter)
  have "distinct (concat (map (\<lambda>a. map (\<lambda>t. \<lparr>cv_assignment = as_id a, cv_sale = sl_id t\<rparr>) (filter (qualifies d a) (xd_sales d))) as))"
    if "distinct (map as_id as)" for as
    using that by (induction as) (simp, auto simp: row)
  with ids show ?thesis by (simp add: qualifying_pairs_def)
qed

lemma evaluated_keeps:
  assumes wf: "exp_wf d"
  shows "exp_wf (snd (evaluate_conversions i d)) \<and> keeps_measurement j d (snd (evaluate_conversions i d))"
proof -
  let ?new = "filter (\<lambda>c. \<not> recorded d c) (qualifying_pairs d i)"
  let ?d = "d\<lparr>xd_conversions := xd_conversions d @ ?new\<rparr>"
  have "exp_wf ?d \<and> keeps_measurement j d ?d"
  proof (rule measured_keeps [OF wf])
    have old: "distinct (xd_conversions d)" "\<And>v. v \<in> set (xd_conversions d) \<Longrightarrow> \<exists>a\<in>set (xd_assignments d). \<exists>t\<in>set (xd_sales d).
        v = \<lparr>cv_assignment = as_id a, cv_sale = sl_id t\<rparr> \<and> qualifies d a t"
      using wf unfolding exp_wf_def conversions_wf_def by blast+
    have new: "v \<in> set (qualifying_pairs d i) \<Longrightarrow> \<exists>a\<in>set (xd_assignments d). \<exists>t\<in>set (xd_sales d).
        v = \<lparr>cv_assignment = as_id a, cv_sale = sl_id t\<rparr> \<and> qualifies d a t" for v
      by (auto simp: set_qualifying_pairs assignments_of_def)
    have "distinct (xd_conversions d @ ?new)"
      using old(1) distinct_qualifying_pairs [of d i] wf by (auto simp: exp_wf_def recorded_def)
    moreover have "\<forall>v\<in>set (xd_conversions d @ ?new). \<exists>a\<in>set (xd_assignments d). \<exists>t\<in>set (xd_sales d).
        v = \<lparr>cv_assignment = as_id a, cv_sale = sl_id t\<rparr> \<and> qualifies d a t"
      unfolding set_append set_filter using old(2) new by blast
    moreover have "window_of ?d = window_of d" by (rule window_of_cong) simp
    ultimately show "conversions_wf ?d" unfolding conversions_wf_def using qualifies_window [of ?d] by simp
    show "exposures_wf ?d" by (rule exposures_wf_more [of d]) (use wf in \<open>simp_all add: exp_wf_def\<close>)
    show "population_wf ?d" using wf by (simp add: exp_wf_def population_wf_def)
  qed (use wf in \<open>simp_all add: exp_wf_def keys_wf_def\<close>)
  then show ?thesis by (simp add: evaluate_conversions_def Let_def)
qed

lemma edited_id [simp]: "xr_id (edited x e) = xr_id e" "xr_id (if b then edited x e else e) = xr_id e"
  by (simp_all add: edited_def)

lemma arms_wf_ids:
  assumes ids: "xr_id ` set (xd_experiments d') = xr_id ` set (xd_experiments d)" and groups: "xd_groups d' = xd_groups d"
    and wf: "arms_wf d"
  shows "arms_wf d'"
  unfolding arms_wf_def
proof (intro conjI ballI)
  fix e
  assume "e \<in> set (xd_experiments d')"
  then have "xr_id e \<in> xr_id ` set (xd_experiments d)" by (subst ids [symmetric]) (rule imageI)
  then obtain e0 where e0: "e0 \<in> set (xd_experiments d)" "xr_id e = xr_id e0" by (rule imageE)
  have kind: "groups_of_kind d' (xr_id e) k = groups_of_kind d (xr_id e0) k" for k by (simp add: groups_of_kind_def groups e0(2))
  show "length (groups_of_kind d' (xr_id e) CONTROL) \<le> 1" "1 \<le> length (groups_of_kind d' (xr_id e) TREATMENT)"
    "groups_of_kind d' (xr_id e) CONTROL = [] \<longrightarrow> length (groups_of_kind d' (xr_id e) TREATMENT) = 2"
    using wf e0(1) unfolding arms_wf_def kind by blast+
qed (use wf in \<open>simp_all add: arms_wf_def groups ids\<close>)

lemma edited_keeps:
  assumes wf: "exp_wf d" and e: "experiment_row_of d i = Some e"
    and frozen: "assignments_of d i \<noteq> [] \<Longrightarrow> in_campaign x = xr_campaign e \<and> in_metric x = xr_metric e \<and> in_starts x = xr_starts e
      \<and> in_ends x = xr_ends e \<and> experiment_input.in_window x = xr_window e"
  defines "d' \<equiv> d\<lparr>xd_experiments := map (\<lambda>e. if xr_id e = i then edited x e else e) (xd_experiments d)\<rparr>"
  shows "exp_wf d' \<and> keeps_measurement j d d'"
proof -
  have ids: "map xr_id (xd_experiments d') = map xr_id (xd_experiments d)" by (simp add: d'_def comp_def)
  then have set_ids: "xr_id ` set (xd_experiments d') = xr_id ` set (xd_experiments d)" by (metis list.set_map)
  have row: "experiment_row_of d' k = map_option (\<lambda>e. if xr_id e = i then edited x e else e) (experiment_row_of d k)" for k
    unfolding experiment_row_of_def d'_def by (simp add: find_id_map)
  have same: "k \<noteq> i \<Longrightarrow> experiment_row_of d' k = experiment_row_of d k" for k
    by (cases "experiment_row_of d k") (auto simp: row dest: experiment_row_of_Some)
  have edit: "experiment_row_of d' i = Some (edited x e)" using experiment_row_of_Some [OF e] by (simp add: row e)
  have window: "window_of d' a = window_of d a" if "a \<in> set (xd_assignments d)" for a
  proof (cases "as_experiment a = i")
    case True
    with that have "assignments_of d i \<noteq> []" by (auto simp: assignments_of_def filter_empty_conv)
    from frozen [OF this] show ?thesis by (simp add: window_of_def True edit e edited_def)
  qed (simp add: window_of_def same)
  have "keys_wf d'" unfolding keys_wf_def ids using wf by (simp add: exp_wf_def keys_wf_def d'_def)
  moreover have "groups_of_kind d' = groups_of_kind d" "xd_groups d' = xd_groups d" by (simp_all add: d'_def groups_of_kind_def fun_eq_iff)
  then have "arms_wf d'" using wf set_ids by (intro arms_wf_ids [of d' d]) (simp_all add: exp_wf_def)
  moreover have "assignments_wf d'" using wf by (simp add: exp_wf_def assignments_wf_def d'_def)
  moreover have "exposures_wf d'" by (rule exposures_wf_more [of d]) (use wf in \<open>simp_all add: exp_wf_def d'_def\<close>)
  moreover have "conversions_wf d'"
    by (rule conversions_wf_more [of d]) (use wf in \<open>simp_all add: exp_wf_def window, simp_all add: d'_def\<close>)
  moreover have "population_wf d'" using wf by (simp add: exp_wf_def population_wf_def d'_def)
  moreover have "frame_of d' j = frame_of d j" if "assignments_of d j \<noteq> []"
  proof (cases "j = i")
    case True
    with frozen that show ?thesis by (simp add: frame_of_def edit e) (simp add: edited_def)
  qed (simp add: frame_of_def same)
  then have "keeps_measurement j d d'" by (simp add: keeps_measurement_def assignments_of_def d'_def)
  ultimately show ?thesis by (simp add: exp_wf_def)
qed

lemma assigned_keeps:
  assumes wf: "exp_wf d" and shuffle: "permuting shuffle" and plan: "plan_assignment shuffle d i = Inr plan"
    and body: "assign_body shuffle now i d = (Inr plan, d')"
  shows "exp_wf d' \<and> keeps_measurement j d d'"
proof -
  let ?rows = "assignment_rows (pl_arms plan)"
  let ?new = "new_assignments now i (xd_next_assignment d) ?rows"
  have perm: "\<And>seed xs. mset (shuffle seed xs) = mset xs" and dist: "distinct (map gr_id (xd_groups d))" and pop: "population_wf d"
    using shuffle wf by (simp_all add: permuting_def exp_wf_def keys_wf_def)
  note ok = assign_body_ok(1) [OF perm dist pop plan, of now] assign_body_ok(2-4) [OF perm dist pop plan] and arms = plan_arms [OF plan dist perm]
  have d': "d' = d\<lparr>xd_assignments := xd_assignments d @ ?new, xd_next_assignment := xd_next_assignment d + length ?rows\<rparr>"
    using body ok(1) by simp
  have new: "as_experiment a = i" "as_at a = now" "(as_group a, as_customer a) \<in> set ?rows" "as_id a \<in> {xd_next_assignment d..<xd_next_assignment d + length ?rows}"
    if "a \<in> set ?new" for a
  proof -
    have "as_id a \<in> as_id ` set ?new" "(as_group a, as_customer a) \<in> (\<lambda>a. (as_group a, as_customer a)) ` set ?new"
      using that by (rule imageI)+
    then show "(as_group a, as_customer a) \<in> set ?rows" "as_id a \<in> {xd_next_assignment d..<xd_next_assignment d + length ?rows}"
      using arg_cong [OF new_assignments_maps(1) [of now i "xd_next_assignment d" ?rows], of set]
        arg_cong [OF new_assignments_maps(2) [of now i "xd_next_assignment d" ?rows], of set]
      unfolding list.set_map set_upt by argo+
  qed (use new_assignments_maps(3) [OF that] in simp_all)
  have old: "a \<in> set (xd_assignments d) \<Longrightarrow> as_experiment a \<noteq> i" for a
    using ok(3) by (auto simp: assignments_of_def filter_empty_conv)
  have low: "a \<in> set (xd_assignments d) \<Longrightarrow> as_id a < xd_next_assignment d" for a using wf by (simp add: exp_wf_def keys_wf_def)
  then have low': "a \<in> set (xd_assignments d) \<Longrightarrow> as_id a < xd_next_assignment d + k" for a k by (meson trans_less_add1)
  have "distinct (map as_id ?new)" by (simp add: new_assignments_maps(2))
  moreover have "as_id ` set (xd_assignments d) \<inter> as_id ` set ?new = {}" unfolding disjoint_iff using low new(4) by fastforce
  ultimately have "keys_wf d'" using wf low' new(4) by (auto simp: d' exp_wf_def keys_wf_def)
  moreover have "assignments_wf d'"
  proof -
    have "distinct (map (\<lambda>a. (as_experiment a, as_customer a)) ?new)"
    proof -
      have "map as_customer ?new = map snd ?rows"
        using arg_cong [OF new_assignments_maps(1) [of now i "xd_next_assignment d" ?rows], of "map snd"] by (simp add: comp_def)
      then have "distinct (map as_customer ?new)" using ok(2) by simp
      then show ?thesis by (auto simp: distinct_map inj_on_def)
    qed
    moreover have apart: "(\<lambda>a. (as_experiment a, as_customer a)) ` set (xd_assignments d) \<inter> (\<lambda>a. (as_experiment a, as_customer a)) ` set ?new = {}"
      unfolding disjoint_iff using old new(1) by fastforce
    moreover have "distinct (map (\<lambda>a. (as_experiment a, as_customer a)) (xd_assignments d))"
      using wf by (simp add: exp_wf_def assignments_wf_def)
    ultimately have keys: "distinct (map (\<lambda>a. (as_experiment a, as_customer a)) (xd_assignments d @ ?new))" by simp
    have new_group: "\<exists>g\<in>set (xd_groups d). gr_id g = as_group a \<and> gr_experiment g = as_experiment a" if "a \<in> set ?new" for a
      using ok(4) new(1,3) [OF that] by auto
    have filled: "\<exists>b\<in>set ?new. as_group b = gr_id g \<and> as_experiment b = i" if "g \<in> set (xd_groups d)" "gr_experiment g = i" for g
    proof -
      have "(gr_id g, gr_kind g) \<in> set (list_groups d i)" using that by (simp add: list_groups_def set_ordered_groups)
      then obtain a where a: "a \<in> set (pl_arms plan)" "arm_group a = gr_id g" by (auto simp: arms(2) [symmetric])
      then obtain c where "c \<in> set (arm_customers a)" using arms(4) by fastforce
      with a have "(gr_id g, c) \<in> set ?rows" unfolding set_assignment_rows by metis
      then have "(gr_id g, c) \<in> (\<lambda>a. (as_group a, as_customer a)) ` set ?new"
        using arg_cong [OF new_assignments_maps(1), of set now i "xd_next_assignment d" ?rows] by (simp only: list.set_map)
      then obtain b where "b \<in> set ?new" "as_group b = gr_id g" by force
      then show ?thesis using new(1) by blast
    qed
    show ?thesis unfolding assignments_wf_def
    proof (intro conjI ballI impI)
      show "distinct (map (\<lambda>a. (as_experiment a, as_customer a)) (xd_assignments d'))" using keys by (simp add: d')
    next
      fix a
      assume "a \<in> set (xd_assignments d')"
      then consider "a \<in> set (xd_assignments d)" | "a \<in> set ?new" by (auto simp: d')
      then have "\<exists>g\<in>set (xd_groups d). gr_id g = as_group a \<and> gr_experiment g = as_experiment a"
        using wf new_group unfolding exp_wf_def assignments_wf_def by cases blast+
      then show "\<exists>g\<in>set (xd_groups d'). gr_id g = as_group a \<and> gr_experiment g = as_experiment a" by (simp add: d')
    next
      fix a g
      assume "a \<in> set (xd_assignments d')" and g: "g \<in> set (xd_groups d')" "gr_experiment g = as_experiment a"
      then consider "a \<in> set (xd_assignments d)" | "a \<in> set ?new" by (auto simp: d')
      then have "\<exists>b\<in>set (xd_assignments d) \<union> set ?new. as_group b = gr_id g \<and> as_experiment b = as_experiment a"
      proof cases
        case 1
        with g show ?thesis using wf unfolding exp_wf_def assignments_wf_def d' by simp blast
      next
        case 2
        with g filled [of g] new(1) [of a] show ?thesis by (simp add: d') blast
      qed
      then show "\<exists>b\<in>set (xd_assignments d'). as_group b = gr_id g \<and> as_experiment b = as_experiment a" by (simp add: d')
    qed
  qed
  moreover have "arms_wf d'" using wf by (simp add: exp_wf_def d' arms_wf_def groups_of_kind_def)
  moreover have "exposures_wf d'" by (rule exposures_wf_more [of d]) (use wf in \<open>simp_all add: exp_wf_def d'\<close>)
  moreover have "conversions_wf d'"
    by (rule conversions_wf_more [of d]) (use wf in \<open>simp_all add: exp_wf_def d' window_of_def experiment_row_of_def\<close>)
  moreover have "population_wf d'" using wf by (simp add: exp_wf_def population_wf_def d')
  moreover have "keeps_measurement j d d'"
    using new(1) ok(3) by (auto simp: keeps_measurement_def d' frame_of_def experiment_row_of_def assignments_of_def filter_empty_conv)
  ultimately show ?thesis by (simp add: exp_wf_def)
qed

lemma effect_keeps: "effect d d' \<Longrightarrow> exp_wf d \<Longrightarrow> exp_wf d' \<and> keeps_measurement j d d'"
proof (induction rule: effect.induct)
  case (created e d gs control n)
  then show ?case by (intro created_keeps [where control = control and n = n])
next
  case (edit d i e x)
  then show ?case by (intro edited_keeps) auto
next
  case (assigned shuffle d i plan now d')
  then show ?case by (intro assigned_keeps)
next
  case (exposures_added d d')
  then show ?case by (intro exposed_keeps)
next
  case (evaluated d i)
  then show ?case by (intro evaluated_keeps)
next
  case (campaigns_changed d d')
  then show ?case
    by (intro outside_keeps) (auto simp: only_campaigns_def exp_wf_def population_wf_def)
next
  case (sold t d)
  then show ?case by (intro sold_keeps)
next
  case (registered d c)
  then show ?case by (intro outside_keeps) (auto simp: exp_wf_def population_wf_def)
next
  case (resegmented d hs)
  then show ?case by (intro outside_keeps) auto
qed

section \<open>Runs\<close>

text \<open>What every step keeps, and what it leaves related, holds from the start of a run to its end.\<close>

locale kept_steps =
  fixes step :: "'s \<Rightarrow> 's \<Rightarrow> bool" and inv :: "'s \<Rightarrow> bool" and keeps :: "'s \<Rightarrow> 's \<Rightarrow> bool"
  assumes step_inv: "step s s' \<Longrightarrow> inv s \<Longrightarrow> inv s'"
    and step_keeps: "step s s' \<Longrightarrow> inv s \<Longrightarrow> keeps s s'"
    and keeps_start: "keeps s s"
    and keeps_on: "keeps s s' \<Longrightarrow> keeps s' s'' \<Longrightarrow> keeps s s''"
begin

lemma run_kept: "rtranclp step s s' \<Longrightarrow> inv s \<Longrightarrow> inv s' \<and> keeps s s'"
proof (induction rule: rtranclp_induct)
  case base
  then show ?case by (simp add: keeps_start)
next
  case (step s' s'')
  then show ?case by (blast intro: step_inv step_keeps keeps_on)
qed

end

interpretation platform: kept_steps platform_step exp_wf "keeps_measurement j" for j
proof
  fix s s'
  assume "platform_step s s'" and wf: "exp_wf s"
  then show "exp_wf s'" "keeps_measurement j s s'" using effect_keeps [OF step_effect] by blast+
next
  fix s s' s''
  assume "keeps_measurement j s s'" and "keeps_measurement j s' s''"
  then show "keeps_measurement j s s''" by (rule keeps_measurement_trans)
qed simp

lemma platform_run_rtranclp: "platform_run d d' \<Longrightarrow> rtranclp platform_step d d'"
  by (induction rule: platform_run.induct) (auto intro: rtranclp.rtrancl_into_rtrancl)

lemmas platform_run_kept = platform.run_kept [OF platform_run_rtranclp]

section \<open>The life of an experiment\<close>

lemma no_control_exposed:
  assumes "exp_wf d" and "x \<in> set (xd_exposures d)"
  shows "\<not> control_assignment d (eo_assignment x)"
proof
  have keys: "distinct (map as_id (xd_assignments d))" "distinct (map gr_id (xd_groups d))"
    using assms(1) by (simp_all add: exp_wf_def keys_wf_def)
  obtain a g where a: "a \<in> set (xd_assignments d)" "as_id a = eo_assignment x"
    and g: "g \<in> set (xd_groups d)" "gr_id g = as_group a" "gr_kind g = TREATMENT"
    using assms unfolding exp_wf_def exposures_wf_def by blast
  assume "control_assignment d (eo_assignment x)"
  then obtain b h where b: "b \<in> set (xd_assignments d)" "as_id b = eo_assignment x"
    and h: "h \<in> set (xd_groups d)" "gr_id h = as_group b" "gr_kind h = CONTROL"
    by (auto simp: control_assignment_def list_ex_iff)
  have "b = a" using find_distinct_id [OF keys(1) b(1) a(1)] a(2) b(2) by simp
  then have "h = g" using find_distinct_id [OF keys(2) h(1) g(1)] g(2) h(2) by simp
  then show False using g(3) h(3) by (simp add: CONTROL_def TREATMENT_def)
qed

text \<open>
  C4. Whatever happens on the platform - experiments created and edited, populations assigned, customers exposed,
  conversions evaluated, campaigns moved, sales, customers and segmentation runs arriving, in any order - the
  tables stay consistent, no customer of a control group is ever recorded as exposed, no customer is in two arms
  of one experiment, and every recorded conversion is a sale of that customer inside the window of the assignment.
\<close>

theorem platform_stays_consistent:
  assumes "exp_wf d" and "platform_run d d'"
  shows "exp_wf d' \<and> list_all (\<lambda>x. \<not> control_assignment d' (eo_assignment x)) (xd_exposures d')
    \<and> list_all (\<lambda>v. list_ex (\<lambda>a. list_ex (\<lambda>t. v = \<lparr>cv_assignment = as_id a, cv_sale = sl_id t\<rparr> \<and> qualifies d' a t) (xd_sales d'))
        (xd_assignments d')) (xd_conversions d')
    \<and> distinct (map (\<lambda>a. (as_experiment a, as_customer a)) (xd_assignments d'))"
proof -
  have wf: "exp_wf d'" using platform_run_kept [OF assms(2,1)] by blast
  then have "assignments_wf d'" "conversions_wf d'" by (simp_all add: exp_wf_def)
  with wf show ?thesis
    unfolding assignments_wf_def conversions_wf_def list_all_iff list_ex_iff using no_control_exposed [OF wf] by blast
qed

text \<open>
  C6. From its first assignment on, what an experiment is measured against does not move: no step of the platform
  changes its campaign, metric, dates, window or origin, its arms or the customers assigned to them, and
  exposures and conversions are only ever added.
\<close>

theorem measurement_never_moves:
  assumes "exp_wf d" and "platform_run d d'" and "assignments_of d i \<noteq> []"
  shows "frame_of d' i = frame_of d i \<and> assignments_of d' i = assignments_of d i
    \<and> filter (\<lambda>g. gr_experiment g = i) (xd_groups d') = filter (\<lambda>g. gr_experiment g = i) (xd_groups d)
    \<and> (\<exists>xs. xd_exposures d' = xd_exposures d @ xs) \<and> (\<exists>cs. xd_conversions d' = xd_conversions d @ cs)"
  using platform_run_kept [OF assms(2,1), of i] assms(3) by (simp add: keeps_measurement_def)

lemma evaluate_Inr:
  assumes "evaluate i False (at_rest d) = (Inr n, s)"
  shows "assignments_of d i \<noteq> []" and "lock_experiment d i" and "(n, committed s) = evaluate_conversions i d" and "s = at_rest (committed s)"
proof -
  have "evaluate_body i d = (Inr n, committed s)" using assms unfolding evaluate_def by (rule atomic_Inr)
  then show "assignments_of d i \<noteq> []" "lock_experiment d i" "(n, committed s) = evaluate_conversions i d"
    by (auto simp: evaluate_body_def get_experiment_def split: if_splits option.splits prod.splits)
  show "s = at_rest (committed s)"
    using assms by (auto simp: evaluate_def atomic_statements split: prod.splits sum.splits)
qed

lemma evaluated_d:
  assumes "(n, d') = evaluate_conversions i d"
  shows "d' = d\<lparr>xd_conversions := xd_conversions d @ filter (\<lambda>c. \<not> recorded d c) (qualifying_pairs d i)\<rparr>"
    and "n = length (filter (\<lambda>c. \<not> recorded d c) (qualifying_pairs d i))" and "qualifying_pairs d' i = qualifying_pairs d i"
    and "list_ex (\<lambda>c. \<not> recorded d' c) (qualifying_pairs d' i) = False"
proof -
  show d': "d' = d\<lparr>xd_conversions := xd_conversions d @ filter (\<lambda>c. \<not> recorded d c) (qualifying_pairs d i)\<rparr>"
    and "n = length (filter (\<lambda>c. \<not> recorded d c) (qualifying_pairs d i))"
    using assms by (simp_all add: evaluate_conversions_def Let_def)
  show "qualifying_pairs d' i = qualifying_pairs d i"
    by (simp add: d' qualifying_pairs_def assignments_of_def qualifies_def [abs_def] window_of_def experiment_row_of_def)
  then show "list_ex (\<lambda>c. \<not> recorded d' c) (qualifying_pairs d' i) = False"
    by (auto simp: d' recorded_def list_ex_iff)
qed

text \<open>
  C12. The outcome of an evaluation is a function of the sales, not of when or how often it is asked for: after it,
  the conversions recorded for the experiment are exactly the sales of its assigned customers inside their windows,
  the count it answers with is how many were new, and evaluating again adds none and changes nothing.
\<close>

theorem evaluation_is_reproducible:
  assumes wf: "exp_wf d" and eval: "evaluate i False (at_rest d) = (Inr n, s)"
  shows "set (filter (\<lambda>v. list_ex (\<lambda>a. as_id a = cv_assignment v) (assignments_of (committed s) i)) (xd_conversions (committed s)))
      = set (qualifying_pairs (committed s) i)
    \<and> length (xd_conversions (committed s)) = length (xd_conversions d) + n \<and> evaluate i False s = (Inr 0, s)"
proof (intro conjI)
  let ?d = "committed s"
  note e = evaluate_Inr [OF eval] and new = evaluated_d [OF evaluate_Inr(3) [OF eval]]
  have wf': "exp_wf ?d" using evaluated_keeps [OF wf, of i] e(3) by (metis snd_conv)
  show "length (xd_conversions ?d) = length (xd_conversions d) + n" using new(1,2) by simp
  have "evaluate_body i ?d = (Inr 0, ?d)"
  proof -
    have "assignments_of ?d i \<noteq> []" "experiment_row_of ?d i = experiment_row_of d i"
      using e(1) by (simp_all add: new(1) assignments_of_def experiment_row_of_def)
    moreover have "evaluate_conversions i ?d = (0, ?d)"
      using new(4) by (simp add: evaluate_conversions_def Let_def list_ex_iff)
    moreover obtain r where "experiment_row_of d i = Some r" using e(2) by (auto simp: lock_experiment_def)
    ultimately show ?thesis by (simp add: evaluate_body_def lock_experiment_def get_experiment_def)
  qed
  then have "evaluate i False (at_rest ?d) = (Inr 0, at_rest ?d)" by (simp add: evaluate_def atomic_statements)
  then show "evaluate i False s = (Inr 0, s)" unfolding e(4) [symmetric] .
  show "set (filter (\<lambda>v. list_ex (\<lambda>a. as_id a = cv_assignment v) (assignments_of ?d i)) (xd_conversions ?d)) = set (qualifying_pairs ?d i)"
  proof (intro equalityI subsetI)
    fix v
    assume "v \<in> set (filter (\<lambda>v. list_ex (\<lambda>a. as_id a = cv_assignment v) (assignments_of ?d i)) (xd_conversions ?d))"
    then obtain b where v: "v \<in> set (xd_conversions ?d)" and b: "b \<in> set (assignments_of ?d i)" "as_id b = cv_assignment v"
      by (auto simp: list_ex_iff)
    from v wf' obtain a t where a: "a \<in> set (xd_assignments ?d)" and t: "t \<in> set (xd_sales ?d)"
      "v = \<lparr>cv_assignment = as_id a, cv_sale = sl_id t\<rparr>" "qualifies ?d a t"
      unfolding exp_wf_def conversions_wf_def by blast
    have "b \<in> set (xd_assignments ?d)" using b(1) by (simp add: assignments_of_def)
    moreover have "distinct (map as_id (xd_assignments ?d))" using wf' by (simp add: exp_wf_def keys_wf_def)
    ultimately have "a = b" using a b(2) t(2) by (metis conversion_row.select_convs(1) find_distinct_id)
    with b(1) t show "v \<in> set (qualifying_pairs ?d i)" unfolding set_qualifying_pairs by blast
  next
    fix v
    assume v: "v \<in> set (qualifying_pairs ?d i)"
    then obtain a where "a \<in> set (assignments_of ?d i)" "as_id a = cv_assignment v" by (auto simp: set_qualifying_pairs)
    moreover have "v \<in> set (xd_conversions ?d)" using v new(4) by (auto simp: list_ex_iff recorded_def)
    ultimately show "v \<in> set (filter (\<lambda>v. list_ex (\<lambda>a. as_id a = cv_assignment v) (assignments_of ?d i)) (xd_conversions ?d))"
      by (auto simp: list_ex_iff)
  qed
qed

lemma arm_results_ok:
  assumes "0 < gc_assigned c" and "gc_converted c \<le> gc_assigned c"
    and "\<forall>g\<in>set gs. 0 < gc_assigned g \<and> gc_converted g \<le> gc_assigned g"
  shows "\<exists>rs. arm_results erfc c gs = Inr rs \<and> map ar_group rs = map gc_group gs"
  using assms(3)
proof (induction gs)
  case (Cons g gs)
  then obtain rs where "arm_results erfc c gs = Inr rs" "map ar_group rs = map gc_group gs" by auto
  moreover obtain x where "compare_proportions erfc (int (gc_assigned c)) (int (gc_converted c)) (int (gc_assigned g)) (int (gc_converted g)) = Inr x"
    using assms(1,2) Cons.prems by (simp add: compare_proportions_def Let_def)
  ultimately show ?case by simp
qed simp

lemma group_conversion_facts:
  assumes "exp_wf d" and "assignments_of d i \<noteq> []" and "list_ex (\<lambda>c. \<not> recorded d c) (qualifying_pairs d i) = False"
    and "x \<in> set (list_group_conversion d i now)"
  shows "0 < gc_assigned x \<and> gc_converted x \<le> gc_assigned x \<and> gc_unrecorded x = 0"
proof -
  obtain g where g: "g \<in> set (xd_groups d)" "gr_experiment g = i"
    and x: "gc_assigned x = length (filter (\<lambda>a. as_group a = gr_id g) (assignments_of d i))"
      "gc_converted x = length (filter (converted d) (filter (\<lambda>a. as_group a = gr_id g) (assignments_of d i)))"
      "gc_unrecorded x = length (filter (\<lambda>a. \<not> converted d a \<and> has_qualifying_sale d a) (filter (\<lambda>a. as_group a = gr_id g) (assignments_of d i)))"
    using assms(4) by (auto simp: list_group_conversion_def set_ordered_groups Let_def)
  obtain a where a: "a \<in> set (xd_assignments d)" "as_experiment a = i"
    using assms(2) by (auto simp: assignments_of_def filter_empty_conv)
  then obtain b where "b \<in> set (xd_assignments d)" "as_group b = gr_id g" "as_experiment b = i"
    using assms(1) g unfolding exp_wf_def assignments_wf_def by blast
  then have "filter (\<lambda>a. as_group a = gr_id g) (assignments_of d i) \<noteq> []" by (auto simp: assignments_of_def filter_empty_conv)
  moreover have "\<not> (\<not> converted d a \<and> has_qualifying_sale d a)" if mine: "a \<in> set (assignments_of d i)" for a
  proof
    assume "\<not> converted d a \<and> has_qualifying_sale d a"
    then obtain t where t: "t \<in> set (xd_sales d)" "qualifies d a t" and not: "\<not> converted d a"
      by (auto simp: has_qualifying_sale_def list_ex_iff)
    with mine have "\<lparr>cv_assignment = as_id a, cv_sale = sl_id t\<rparr> \<in> set (qualifying_pairs d i)" unfolding set_qualifying_pairs by blast
    then have "\<lparr>cv_assignment = as_id a, cv_sale = sl_id t\<rparr> \<in> set (xd_conversions d)" using assms(3) by (auto simp: list_ex_iff recorded_def)
    with not show False by (force simp: converted_def list_ex_iff)
  qed
  ultimately show ?thesis unfolding x by (auto simp: filter_empty_conv simp del: filter_filter)
qed

text \<open>
  An experiment that was assigned and has a control group is measurable as soon as its conversions are evaluated:
  nothing of what was recorded before can make the measurement refuse, and it compares every treatment of the
  experiment with the control, in the order of the arms.
\<close>

lemma evaluated_experiment_is_measured:
  assumes wf: "exp_wf d" and eval: "evaluate i False (at_rest d) = (Inr n, s)" and "groups_of_kind d i CONTROL \<noteq> []"
    and "experiment_row_of d i = Some e" and "xr_metric e = CONVERSION_METRIC"
  shows "\<exists>m. measure_uplift erfc (committed s) i now = Inr m
    \<and> map ar_group (mu_arms m) = map gr_id (filter (\<lambda>g. gr_kind g = TREATMENT) (ordered_groups d i))"
proof -
  let ?d = "committed s" and ?gs = "list_group_conversion (committed s) i now"
  let ?ts = "filter (\<lambda>g. gc_kind g = TREATMENT) ?gs"
  note new = evaluated_d [OF evaluate_Inr(3) [OF eval]] and assigned = evaluate_Inr(1) [OF eval]
  have wf': "exp_wf ?d" using evaluated_keeps [OF wf, of i] evaluate_Inr(3) [OF eval] by (metis snd_conv)
  have same: "assignments_of ?d i = assignments_of d i" "ordered_groups ?d i = ordered_groups d i" "groups_of_kind ?d i = groups_of_kind d i"
    "experiment_row_of ?d i = Some e"
    using assms(4) by (simp_all add: new(1) assignments_of_def ordered_groups_def groups_of_kind_def fun_eq_iff experiment_row_of_def)
  have facts: "0 < gc_assigned g \<and> gc_converted g \<le> gc_assigned g \<and> gc_unrecorded g = 0" if "g \<in> set ?gs" for g
    using group_conversion_facts [OF wf' _ new(4) that] assigned same(1) by simp
  have unrecorded: "sum_list (map gc_unrecorded ?gs) = 0" using facts by (simp add: sum_list_eq_0_iff)
  have kinds: "map (\<lambda>g. (gc_group g, gc_kind g)) ?gs = map (\<lambda>g. (gr_id g, gr_kind g)) (ordered_groups d i)"
    unfolding same(2) [symmetric] by (simp add: list_group_conversion_def comp_def Let_def)
  have ts: "map gc_group ?ts = map gr_id (filter (\<lambda>g. gr_kind g = TREATMENT) (ordered_groups d i))"
    using arg_cong [OF kinds, of "\<lambda>xs. map fst (filter (\<lambda>x. snd x = TREATMENT) xs)"] by (simp add: filter_map comp_def)
  have mem: "k \<in> gc_kind ` set ?gs \<longleftrightarrow> groups_of_kind d i k \<noteq> []" for k
  proof -
    have "gc_kind ` set ?gs = gr_kind ` set (ordered_groups d i)"
      using arg_cong [OF kinds, of "\<lambda>xs. snd ` set xs"] by (simp add: image_image)
    then show ?thesis by (auto simp: set_ordered_groups groups_of_kind_def filter_empty_conv)
  qed
  obtain c where c: "find (\<lambda>g. gc_kind g = CONTROL) ?gs = Some c" "c \<in> set ?gs"
  proof -
    have "find (\<lambda>g. gc_kind g = CONTROL) ?gs \<noteq> None" using mem [of CONTROL] assms(3) by (simp add: find_id_None)
    then obtain c where "find (\<lambda>g. gc_kind g = CONTROL) ?gs = Some c" by blast
    moreover from this have "c \<in> set ?gs" by (auto simp: find_Some_iff)
    ultimately show thesis by (rule that)
  qed
  obtain rs where rs: "arm_results erfc c ?ts = Inr rs" "map ar_group rs = map gc_group ?ts"
    using arm_results_ok [of c ?ts erfc] facts c(2) by auto
  have "arms_wf d" using wf by (simp add: exp_wf_def)
  moreover have "e \<in> set (xd_experiments d)" "xr_id e = i" using experiment_row_of_Some [OF assms(4)] by simp_all
  ultimately have "groups_of_kind d i TREATMENT \<noteq> []" unfolding arms_wf_def by fastforce
  then obtain g where "g \<in> set ?gs" "gc_kind g = TREATMENT" using mem [of TREATMENT] by (metis imageE)
  then have "?ts \<noteq> []" by (auto simp: filter_empty_conv)
  then have "rs \<noteq> []" using rs(2) by auto
  moreover have "filter (\<lambda>g. gc_assigned g = 0) ?ts = []" using facts by (fastforce simp: filter_empty_conv)
  moreover have "gc_assigned c \<noteq> 0" using facts [OF c(2)] by simp
  ultimately have "compare_arms erfc i ?gs = Inr (c, rs)"
    using unrecorded c(1) rs(1) by (simp add: compare_arms_def Let_def)
  then show ?thesis using rs(2) ts
    by (auto simp: measure_uplift_def refusal_before_counts_def get_experiment_def same Let_def assms(3,5) assigned)
qed

section \<open>The life of a campaign\<close>

definition keeps_campaign :: "nat \<Rightarrow> exp_db \<Rightarrow> exp_db \<Rightarrow> bool" where
  "keeps_campaign i d d' \<longleftrightarrow> (\<forall>c. get_campaign d i = Some c \<longrightarrow> (\<exists>c'. get_campaign d' i = Some c' \<and> campaign_after c c'))"

lemma campaign_after_trans: "campaign_after c c' \<Longrightarrow> campaign_after c' c'' \<Longrightarrow> campaign_after c c''"
proof -
  assume a: "campaign_after c c'" and b: "campaign_after c' c''"
  have "rtranclp (\<lambda>s t. t \<in> set (allowed_from s)) (cp_status c) (cp_status c'')"
    using a b unfolding campaign_after_def by (meson rtranclp_trans)
  moreover have "cp_status c' \<noteq> DRAFT" if "cp_status c \<noteq> DRAFT"
  proof -
    have "t \<noteq> DRAFT" if "rtranclp (\<lambda>s t. t \<in> set (allowed_from s)) s t" "s \<noteq> DRAFT" for s t
      using that by (induction rule: rtranclp_induct) (auto simp: allowed_from_def TRANSITIONS_def status_defs split: if_splits)
    with a that show ?thesis unfolding campaign_after_def by blast
  qed
  ultimately show ?thesis using a b unfolding campaign_after_def
    by (metis campaign_row.surjective campaign_row.update_convs(6))
qed

lemma campaigns_move_keeps:
  "campaigns_move cs cs' \<Longrightarrow> find (\<lambda>c. cp_id c = i) cs = Some c \<Longrightarrow> \<exists>c'. find (\<lambda>c. cp_id c = i) cs' = Some c' \<and> campaign_after c c'"
proof (induction rule: campaigns_move.induct)
  case (added cs x)
  then show ?case by (induction cs) (auto split: if_splits)
next
  case (rewritten cs f)
  then show ?case by (induction cs) (auto simp: campaign_after_def split: if_splits)
qed

lemma effect_campaigns: "effect d d' \<Longrightarrow> exp_wf d \<Longrightarrow> xd_campaigns d' = xd_campaigns d \<or> campaigns_move (xd_campaigns d) (xd_campaigns d')"
proof (induction rule: effect.induct)
  case (assigned shuffle d i plan now d')
  then show ?case
    using assign_body_ok(1) [of shuffle d i plan now] by (auto simp: permuting_def exp_wf_def keys_wf_def)
qed (auto simp: only_exposures_def only_campaigns_def evaluate_conversions_def Let_def)

interpretation lifecycle: kept_steps platform_step exp_wf "keeps_campaign j" for j
proof
  fix s s'
  assume step: "platform_step s s'" and wf: "exp_wf s"
  then show "exp_wf s'" by (rule platform.step_inv)
  show "keeps_campaign j s s'"
    using effect_campaigns [OF step_effect [OF step] wf] campaigns_move_keeps
    unfolding keeps_campaign_def get_campaign_def by (metis campaign_after_refl)
next
  fix s s' s''
  assume "keeps_campaign j s s'" "keeps_campaign j s' s''"
  then show "keeps_campaign j s s''" unfolding keeps_campaign_def by (meson campaign_after_trans)
qed (simp add: keeps_campaign_def)

text \<open>
  C23. A campaign never disappears and only moves along the lifecycle, draft to active or cancelled, active to
  finished or cancelled; once it has left the draft its name, segment and dates never change again, and once it is
  finished or cancelled nothing of it does.
\<close>

theorem campaign_follows_its_lifecycle:
  assumes "exp_wf d" and "platform_run d d'" and "get_campaign d i = Some c"
  shows "\<exists>c'. get_campaign d' i = Some c' \<and> rtranclp (\<lambda>s t. t \<in> set (allowed_from s)) (cp_status c) (cp_status c')
    \<and> (cp_status c = DRAFT \<or> (cp_name c', cp_label c', cp_starts c', cp_ends c') = (cp_name c, cp_label c, cp_starts c, cp_ends c))
    \<and> (cp_status c \<notin> {FINISHED, CANCELLED} \<or> c' = c)"
proof -
  obtain c' where c': "get_campaign d' i = Some c'" "campaign_after c c'"
    using lifecycle.run_kept [OF platform_run_rtranclp [OF assms(2)] assms(1), of i] assms(3) unfolding keeps_campaign_def by blast
  have last: "t = s" if "rtranclp (\<lambda>s t. t \<in> set (allowed_from s)) s t" "s \<in> {FINISHED, CANCELLED}" for s t
    using that by (induction rule: rtranclp_induct) (auto simp: allowed_from_def TRANSITIONS_def status_defs)
  have "c' = c" if "cp_status c \<in> {FINISHED, CANCELLED}"
  proof -
    have "cp_status c' = cp_status c" using last that c'(2) unfolding campaign_after_def by blast
    moreover have "cp_status c \<noteq> DRAFT" using that by (auto simp: status_defs)
    ultimately show ?thesis using c'(2) by (simp add: campaign_after_def)
  qed
  moreover have "cp_status c \<noteq> DRAFT \<Longrightarrow> (cp_name c', cp_label c', cp_starts c', cp_ends c') = (cp_name c, cp_label c, cp_starts c, cp_ends c)"
    using c'(2) by (cases c', cases c) (simp add: campaign_after_def)
  ultimately show ?thesis using c' unfolding campaign_after_def by blast
qed

section \<open>Witnesses\<close>

text \<open>\<open>example_exp_db\<close> once its experiment is assigned and the coupon arm's customer exposed.\<close>

definition running_exp_db :: exp_db where
  "running_exp_db = example_exp_db\<lparr>xd_assignments := new_assignments 100 1 1 [(1, 3), (1, 1), (2, 2)], xd_next_assignment := 4,
     xd_exposures := [\<lparr>eo_assignment = 3, eo_at = 150\<rparr>]\<rparr>"

lemma example_exp_wf: "exp_wf example_exp_db" "exp_wf running_exp_db"
proof -
  have "keys_wf example_exp_db \<and> arms_wf example_exp_db \<and> population_wf example_exp_db
      \<and> keys_wf running_exp_db \<and> arms_wf running_exp_db \<and> population_wf running_exp_db
      \<and> assignments_wf running_exp_db \<and> exposures_wf running_exp_db \<and> conversions_wf running_exp_db"
    by code_simp
  moreover have "assignments_wf example_exp_db" "exposures_wf example_exp_db" "conversions_wf example_exp_db" by code_simp+
  ultimately show "exp_wf example_exp_db" "exp_wf running_exp_db" by (simp_all add: exp_wf_def)
qed

lemma example_assigned: "platform_run example_exp_db (running_exp_db\<lparr>xd_exposures := []\<rparr>)"
proof -
  have "case assign (\<lambda>_ xs. rev xs) 100 1 False (at_rest example_exp_db) of
      (r, s) \<Rightarrow> is_ok r \<and> committed s = running_exp_db\<lparr>xd_exposures := []\<rparr>"
    by code_simp
  then obtain plan s where "assign (\<lambda>_ xs. rev xs) 100 1 False (at_rest example_exp_db) = (Inr plan, s)"
    "committed s = running_exp_db\<lparr>xd_exposures := []\<rparr>" by (auto simp: is_ok_iff split: prod.splits)
  moreover have "permuting (\<lambda>_ xs. rev xs)" by (simp add: permuting_def)
  ultimately show ?thesis
    by (metis platform_run.intros platform_step.population_assigned)
qed

theorem platform_stays_consistent_witness:
  "distinct (map (\<lambda>a. (as_experiment a, as_customer a)) (xd_assignments (running_exp_db\<lparr>xd_exposures := []\<rparr>)))"
  using platform_stays_consistent [OF example_exp_wf(1) example_assigned] by blast

lemma example_sale: "platform_run running_exp_db (running_exp_db\<lparr>xd_sales := xd_sales running_exp_db @ [\<lparr>sl_id = 9, sl_customer = 3, sl_at = 300, sl_origin = ''OBSERVED''\<rparr>]\<rparr>)"
  by (rule platform_run.run_step [OF platform_run.run_start platform_step.sale_arrived]) code_simp

theorem measurement_never_moves_witness:
  "frame_of (running_exp_db\<lparr>xd_sales := xd_sales running_exp_db @ [\<lparr>sl_id = 9, sl_customer = 3, sl_at = 300, sl_origin = ''OBSERVED''\<rparr>]\<rparr>) 1
    = frame_of running_exp_db 1"
proof -
  have "assignments_of running_exp_db 1 \<noteq> []" by code_simp
  then show ?thesis using measurement_never_moves [OF example_exp_wf(2) example_sale] by blast
qed

lemma example_evaluated:
  "evaluate 1 False (at_rest running_exp_db) = (Inr 1, at_rest (running_exp_db\<lparr>xd_conversions := [\<lparr>cv_assignment = 3, cv_sale = 1\<rparr>]\<rparr>))"
  by code_simp

theorem evaluation_is_reproducible_witness:
  "evaluate 1 False (at_rest (running_exp_db\<lparr>xd_conversions := [\<lparr>cv_assignment = 3, cv_sale = 1\<rparr>]\<rparr>))
    = (Inr 0, at_rest (running_exp_db\<lparr>xd_conversions := [\<lparr>cv_assignment = 3, cv_sale = 1\<rparr>]\<rparr>))"
  using evaluation_is_reproducible [OF example_exp_wf(2) example_evaluated] by blast

lemma example_completed:
  "platform_run example_exp_db (update_campaigns (\<lambda>c. cp_id c = 1) (\<lambda>c. c\<lparr>cp_status := FINISHED\<rparr>) example_exp_db)"
proof -
  have "transition 20 1 ''complete'' False (at_rest example_exp_db)
    = (Inr FINISHED, at_rest (update_campaigns (\<lambda>c. cp_id c = 1) (\<lambda>c. c\<lparr>cp_status := FINISHED\<rparr>) example_exp_db))"
    by code_simp
  from platform_step.campaign_moved [OF this] show ?thesis
    unfolding at_rest_simps by (rule platform_run.run_step [OF platform_run.run_start])
qed

theorem campaign_follows_its_lifecycle_witness:
  "\<exists>c'. get_campaign (update_campaigns (\<lambda>c. cp_id c = 1) (\<lambda>c. c\<lparr>cp_status := FINISHED\<rparr>) example_exp_db) 1 = Some c' \<and> cp_name c' = ''Spring''"
proof -
  have "get_campaign example_exp_db 1
      = Some \<lparr>cp_id = 1, cp_name = ''Spring'', cp_label = ''GOLD'', cp_starts = 10, cp_ends = 50, cp_status = ''ACTIVE''\<rparr>"
    by code_simp
  from campaign_follows_its_lifecycle [OF example_exp_wf(1) example_completed this] show ?thesis by (auto simp: DRAFT_def)
qed

end
