(* ===== verification/Accounts.thy ===== *)
theory Accounts
  imports Notifications
begin

text \<open>
  User administration and the rule that there is exactly one administrator: the statements of
  \<open>web/db/users.py\<close> and the service \<open>web/services/users.py\<close>. The service functions are units of work
  (\<open>@atomic\<close>); where one calls another, the inner one joins the outer, so the body of the outer uses the
  body of the inner. A unique index refuses a write with the name of its constraint; the column
  constraints of \<open>app_user\<close> are the parameter \<open>ap_row_ok\<close>. \<open>ap_lower\<close> is PostgreSQL's \<open>lower\<close>, the other
  parameters are Python's \<open>str\<close> methods and the password hasher. The id of a new row is an argument.
\<close>

record account_platform =
  ap_lower :: "string \<Rightarrow> string"
  ap_str_lower :: "string \<Rightarrow> string"
  ap_strip :: "string \<Rightarrow> string"
  ap_hash :: "string \<Rightarrow> string"
  ap_row_ok :: "app_user \<Rightarrow> bool"

datatype account_error =
    SecondAdministrator
  | LastAdministrator
  | NoAdministrator
  | NotTheAdministrator
  | DuplicateEmail
  | UnknownRole
  | UnknownUser
  | ConstraintRefused
  | NotificationRefused note_error

datatype refusal = Violates string | ColumnCheck

definition ADMINISTRATOR_ROLE_CODE :: string where "ADMINISTRATOR_ROLE_CODE = ''ADMIN''"
definition PLACEHOLDER_ROLE_CODE :: string where "PLACEHOLDER_ROLE_CODE = ''ANALYST''"
definition DEMONSTRATION_EMAIL_DOMAIN :: string where "DEMONSTRATION_EMAIL_DOMAIN = ''@mosaiq-demo.com''"

section \<open>Statements\<close>

definition get_user_by_id :: "auth_db \<Rightarrow> nat \<Rightarrow> (app_user \<times> string) option" where
  "get_user_by_id a uid =
    (case find_user a uid of
       None \<Rightarrow> None
     | Some u \<Rightarrow> (case role_codes a (user_role_id u) of None \<Rightarrow> None | Some code \<Rightarrow> Some (u, code)))"

definition get_role_id_by_code :: "auth_db \<Rightarrow> string \<Rightarrow> nat option" where
  "get_role_id_by_code a code = map_option fst (find (\<lambda>(i, c). c = code) (role_rows a))"

definition is_administrator :: "auth_db \<Rightarrow> app_user \<Rightarrow> bool" where
  "is_administrator a u \<longleftrightarrow> role_codes a (user_role_id u) = Some ADMINISTRATOR_ROLE_CODE"

definition count_administrators :: "auth_db \<Rightarrow> nat" where
  "count_administrators a = length (filter (is_administrator a) (app_users a))"

definition get_sole_administrator :: "auth_db \<Rightarrow> (app_user \<times> string) option" where
  "get_sole_administrator a =
    (case find (is_administrator a) (app_users a) of
       None \<Rightarrow> None
     | Some u \<Rightarrow> get_user_by_id a (user_id u))"

text \<open>
  A write is refused by a column constraint, by the partial index on the reserved role id or by the index on
  the lower-cased address. \<open>others\<close> are the rows the new one is compared with.
\<close>

definition refused :: "account_platform \<Rightarrow> app_user list \<Rightarrow> app_user \<Rightarrow> refusal option" where
  "refused pf others u =
    (if \<not> ap_row_ok pf u then Some ColumnCheck
     else if user_role_id u = 1 \<and> (\<exists>v\<in>set others. user_role_id v = 1) then Some (Violates ''ux_app_user_single_administrator'')
     else if \<exists>v\<in>set others. ap_lower pf (user_email v) = ap_lower pf (user_email u) then Some (Violates ''ux_app_user_email_lower'')
     else None)"

definition insert_user :: "account_platform \<Rightarrow> nat \<Rightarrow> nat \<Rightarrow> string \<Rightarrow> string \<Rightarrow> string \<Rightarrow> auth_db \<Rightarrow> (refusal + nat) \<times> auth_db" where
  "insert_user pf new_id role_id name email password_hash a =
    (let u = \<lparr>user_id = new_id, user_email = email, user_password_hash = password_hash,
              user_role_id = role_id, user_name = name, user_is_active = True\<rparr>
     in if find_user a new_id \<noteq> None then (Inl (Violates ''app_user_pkey''), a)
        else case refused pf (app_users a) u of
               Some r \<Rightarrow> (Inl r, a)
             | None \<Rightarrow> (Inr new_id, a\<lparr>app_users := app_users a @ [u]\<rparr>))"

definition update_users :: "(app_user \<Rightarrow> bool) \<Rightarrow> (app_user \<Rightarrow> app_user) \<Rightarrow> auth_db \<Rightarrow> auth_db" where
  "update_users P f a = a\<lparr>app_users := map (\<lambda>u. if P u then f u else u) (app_users a)\<rparr>"

definition update_user_row :: "account_platform \<Rightarrow> nat \<Rightarrow> (app_user \<Rightarrow> app_user) \<Rightarrow> auth_db \<Rightarrow> (refusal + unit) \<times> auth_db" where
  "update_user_row pf uid f a =
    (case find_user a uid of
       None \<Rightarrow> (Inr (), a)
     | Some u \<Rightarrow>
         (case refused pf (filter (\<lambda>v. user_id v \<noteq> uid) (app_users a)) (f u) of
            Some r \<Rightarrow> (Inl r, a)
          | None \<Rightarrow> (Inr (), update_users (\<lambda>v. user_id v = uid) f a)))"

definition update_role :: "account_platform \<Rightarrow> nat \<Rightarrow> nat \<Rightarrow> auth_db \<Rightarrow> (refusal + unit) \<times> auth_db" where
  "update_role pf uid role = update_user_row pf uid (\<lambda>u. u\<lparr>user_role_id := role\<rparr>)"

definition update_name_and_email :: "account_platform \<Rightarrow> nat \<Rightarrow> string \<Rightarrow> string \<Rightarrow> auth_db \<Rightarrow> (refusal + unit) \<times> auth_db" where
  "update_name_and_email pf uid name email = update_user_row pf uid (\<lambda>u. u\<lparr>user_name := name, user_email := email\<rparr>)"

definition update_active :: "nat \<Rightarrow> bool \<Rightarrow> auth_db \<Rightarrow> auth_db" where
  "update_active uid b = update_users (\<lambda>u. user_id u = uid) (\<lambda>u. u\<lparr>user_is_active := b\<rparr>)"

definition update_password_hash :: "account_platform \<Rightarrow> string \<Rightarrow> string \<Rightarrow> auth_db \<Rightarrow> auth_db" where
  "update_password_hash pf email h =
    update_users (\<lambda>u. ap_lower pf (user_email u) = ap_lower pf email) (\<lambda>u. u\<lparr>user_password_hash := h\<rparr>)"

definition ends_with :: "string \<Rightarrow> string \<Rightarrow> bool" where
  "ends_with suffix s \<longleftrightarrow> length suffix \<le> length s \<and> drop (length s - length suffix) s = suffix"

definition demonstration_account :: "auth_db \<Rightarrow> app_user \<Rightarrow> bool" where
  "demonstration_account a u \<longleftrightarrow> user_is_active u \<and> role_codes a (user_role_id u) \<noteq> None
     \<and> \<not> is_administrator a u \<and> ends_with DEMONSTRATION_EMAIL_DOMAIN (user_email u)"

definition deactivate_demonstration_accounts :: "auth_db \<Rightarrow> string list \<times> auth_db" where
  "deactivate_demonstration_accounts a =
    (sort (map user_email (filter (demonstration_account a) (app_users a))),
     update_users (demonstration_account a) (\<lambda>u. u\<lparr>user_is_active := False\<rparr>) a)"

section \<open>The service\<close>

definition normalize_email :: "account_platform \<Rightarrow> string \<Rightarrow> string" where
  "normalize_email pf email = ap_str_lower pf (ap_strip pf email)"

definition translate_unique_violation :: "refusal \<Rightarrow> account_error" where
  "translate_unique_violation r =
    (case r of
       ColumnCheck \<Rightarrow> ConstraintRefused
     | Violates c \<Rightarrow> if c = ''ux_app_user_single_administrator'' then SecondAdministrator else DuplicateEmail)"

text \<open>A statement on the accounts, and how its refusal surfaces: untranslated where no \<open>except\<close> catches it.\<close>

definition untranslated :: "refusal \<Rightarrow> account_error" where
  "untranslated r = ConstraintRefused"

definition on_accounts :: "(refusal \<Rightarrow> account_error) \<Rightarrow> (auth_db \<Rightarrow> (refusal + 'a) \<times> auth_db) \<Rightarrow> app_db \<Rightarrow> (account_error + 'a) \<times> app_db" where
  "on_accounts translate f d =
    (case f (accounts d) of
       (Inl r, a) \<Rightarrow> (Inl (translate r), d\<lparr>accounts := a\<rparr>)
     | (Inr x, a) \<Rightarrow> (Inr x, d\<lparr>accounts := a\<rparr>))"

definition create_user_body :: "account_platform \<Rightarrow> nat \<Rightarrow> string \<Rightarrow> string \<Rightarrow> string \<Rightarrow> string \<Rightarrow> app_db
    \<Rightarrow> (account_error + nat) \<times> app_db" where
  "create_user_body pf new_id name email password role_code d =
    (case get_role_id_by_code (accounts d) role_code of
       None \<Rightarrow> (Inl UnknownRole, d)
     | Some role_id \<Rightarrow>
         if role_code = ADMINISTRATOR_ROLE_CODE \<and> count_administrators (accounts d) > 0 then (Inl SecondAdministrator, d)
         else on_accounts translate_unique_violation (insert_user pf new_id role_id name (normalize_email pf email) (ap_hash pf password)) d)"

definition change_role_body :: "account_platform \<Rightarrow> nat \<Rightarrow> string \<Rightarrow> app_db \<Rightarrow> (account_error + unit) \<times> app_db" where
  "change_role_body pf uid role_code d =
    (case get_user_by_id (accounts d) uid of
       None \<Rightarrow> (Inl UnknownUser, d)
     | Some (user, current_code) \<Rightarrow>
         (case get_role_id_by_code (accounts d) role_code of
            None \<Rightarrow> (Inl UnknownRole, d)
          | Some role_id \<Rightarrow>
              if role_code = current_code then (Inr (), d)
              else if role_code = ADMINISTRATOR_ROLE_CODE \<and> count_administrators (accounts d) > 0
                then (Inl SecondAdministrator, d)
              else if role_code \<noteq> ADMINISTRATOR_ROLE_CODE \<and> current_code = ADMINISTRATOR_ROLE_CODE
                  \<and> count_administrators (accounts d) \<le> 1 then (Inl LastAdministrator, d)
              else on_accounts translate_unique_violation (update_role pf (user_id user) role_id) d))"

definition update_user_body :: "account_platform \<Rightarrow> nat \<Rightarrow> string \<Rightarrow> string \<Rightarrow> string \<Rightarrow> app_db \<Rightarrow> (account_error + unit) \<times> app_db" where
  "update_user_body pf uid name email role_code d =
    (case on_accounts translate_unique_violation (update_name_and_email pf uid (ap_strip pf name) (normalize_email pf email)) d of
       (Inl e, d') \<Rightarrow> (Inl e, d')
     | (Inr _, d') \<Rightarrow> change_role_body pf uid role_code d')"

definition set_active_body :: "int \<Rightarrow> nat \<Rightarrow> bool \<Rightarrow> app_db \<Rightarrow> (account_error + unit) \<times> app_db" where
  "set_active_body now uid active d =
    (case get_user_by_id (accounts d) uid of
       None \<Rightarrow> (Inl UnknownUser, d)
     | Some (user, current_code) \<Rightarrow>
         if \<not> active \<and> current_code = ADMINISTRATOR_ROLE_CODE \<and> count_administrators (accounts d) \<le> 1
           then (Inl LastAdministrator, d)
         else
           (let d1 = d\<lparr>accounts := update_active (user_id user) active (accounts d)\<rparr>
            in if active then (Inr (), d1)
               else
                 (let d2 = d1\<lparr>accounts := revoke_user_sessions now (user_id user) (accounts d1)\<rparr>
                  in if user_is_active user
                     then (case write_event now (UserSubject (user_id user)) d2 of
                             (Inl e, d3) \<Rightarrow> (Inl (NotificationRefused e), d3)
                           | (Inr _, d3) \<Rightarrow> (Inr (), d3))
                     else (Inr (), d2))))"

definition transfer_administrator_body :: "account_platform \<Rightarrow> nat \<Rightarrow> nat \<Rightarrow> app_db \<Rightarrow> (account_error + unit) \<times> app_db" where
  "transfer_administrator_body pf from_id to_id d =
    (case get_user_by_id (accounts d) from_id of
       None \<Rightarrow> (Inl UnknownUser, d)
     | Some (incumbent, incumbent_code) \<Rightarrow>
         (case get_user_by_id (accounts d) to_id of
            None \<Rightarrow> (Inl UnknownUser, d)
          | Some (successor, _) \<Rightarrow>
              if incumbent_code \<noteq> ADMINISTRATOR_ROLE_CODE then (Inl NotTheAdministrator, d)
              else if user_id incumbent = user_id successor then (Inr (), d)
              else (case get_role_id_by_code (accounts d) ADMINISTRATOR_ROLE_CODE of
                      None \<Rightarrow> (Inl UnknownRole, d)
                    | Some administrator \<Rightarrow>
                        (case on_accounts untranslated (update_role pf (user_id incumbent) (user_role_id successor)) d of
                           (Inl e, d') \<Rightarrow> (Inl e, d')
                         | (Inr _, d') \<Rightarrow> on_accounts translate_unique_violation (update_role pf (user_id successor) administrator) d'))))"

definition install_administrator_body :: "account_platform \<Rightarrow> nat \<Rightarrow> string \<Rightarrow> string \<Rightarrow> string \<Rightarrow> app_db
    \<Rightarrow> (account_error + nat) \<times> app_db" where
  "install_administrator_body pf new_id name email password d =
    (if count_administrators (accounts d) = 0
     then create_user_body pf new_id name email password ADMINISTRATOR_ROLE_CODE d
     else case get_sole_administrator (accounts d) of
       None \<Rightarrow> (Inl NoAdministrator, d)
     | Some (incumbent, _) \<Rightarrow>
         (case create_user_body pf new_id name email password PLACEHOLDER_ROLE_CODE d of
            (Inl e, d') \<Rightarrow> (Inl e, d')
          | (Inr successor, d') \<Rightarrow>
              (case transfer_administrator_body pf (user_id incumbent) successor d' of
                 (Inl e, d'') \<Rightarrow> (Inl e, d'')
               | (Inr _, d'') \<Rightarrow> (Inr successor, d''))))"

definition provision_administrator_body :: "account_platform \<Rightarrow> nat \<Rightarrow> string \<Rightarrow> string \<Rightarrow> string \<Rightarrow> bool \<Rightarrow> app_db
    \<Rightarrow> (account_error + string list) \<times> app_db" where
  "provision_administrator_body pf new_id name email password deactivate_demo d =
    (case install_administrator_body pf new_id name email password d of
       (Inl e, d') \<Rightarrow> (Inl e, d')
     | (Inr _, d') \<Rightarrow>
         if deactivate_demo
         then (case deactivate_demonstration_accounts (accounts d') of (emails, a) \<Rightarrow> (Inr emails, d'\<lparr>accounts := a\<rparr>))
         else (Inr [], d'))"

definition rotate_password_body :: "account_platform \<Rightarrow> string \<Rightarrow> string \<Rightarrow> app_db \<Rightarrow> (account_error + unit) \<times> app_db" where
  "rotate_password_body pf email password d =
    (Inr (), d\<lparr>accounts := update_password_hash pf email (ap_hash pf password) (accounts d)\<rparr>)"

text \<open>The calls of the service, each a unit of work of its own.\<close>

datatype account_call =
    CreateUser nat string string string string
  | ChangeRole nat string
  | UpdateUser nat string string string
  | ActivateUser int nat bool
  | TransferAdministrator nat nat
  | InstallAdministrator nat string string string
  | ProvisionAdministrator nat string string string bool
  | RotatePassword string string

definition discard :: "('e + 'a) \<times> 'd \<Rightarrow> ('e + unit) \<times> 'd" where
  "discard r = (case r of (Inl e, d) \<Rightarrow> (Inl e, d) | (Inr _, d) \<Rightarrow> (Inr (), d))"

fun account_body :: "account_platform \<Rightarrow> account_call \<Rightarrow> app_db \<Rightarrow> (account_error + unit) \<times> app_db" where
  "account_body pf (CreateUser i name email password role) d = discard (create_user_body pf i name email password role d)"
| "account_body pf (ChangeRole uid role) d = change_role_body pf uid role d"
| "account_body pf (UpdateUser uid name email role) d = update_user_body pf uid name email role d"
| "account_body pf (ActivateUser now uid b) d = set_active_body now uid b d"
| "account_body pf (TransferAdministrator i j) d = transfer_administrator_body pf i j d"
| "account_body pf (InstallAdministrator i name email password) d = discard (install_administrator_body pf i name email password d)"
| "account_body pf (ProvisionAdministrator i name email password b) d = discard (provision_administrator_body pf i name email password b d)"
| "account_body pf (RotatePassword email password) d = rotate_password_body pf email password d"

definition account_service :: "account_platform \<Rightarrow> account_call \<Rightarrow> (app_db, account_error, unit) operation" where
  "account_service pf c = atomic (statements (account_body pf c))"

section \<open>The seat\<close>

definition accounts_wf :: "auth_db \<Rightarrow> bool" where
  "accounts_wf a \<longleftrightarrow> distinct (map user_id (app_users a)) \<and> distinct (map fst (role_rows a))
     \<and> (\<forall>(i, code)\<in>set (role_rows a). code = ADMINISTRATOR_ROLE_CODE \<longrightarrow> i = 1)"

definition seat_ok :: "nat \<Rightarrow> auth_db \<Rightarrow> bool" where
  "seat_ok k a \<longleftrightarrow> accounts_wf a \<and> k \<le> count_administrators a \<and> count_administrators a \<le> 1"

lemma update_users_simps [simp]:
  "role_rows (update_users P f a) = role_rows a" "role_codes (update_users P f a) = role_codes a"
  "app_sessions (update_users P f a) = app_sessions a"
  "app_users (update_users P f a) = map (\<lambda>u. if P u then f u else u) (app_users a)"
  by (simp_all add: update_users_def)

lemma is_administrator_cong: "role_codes a = role_codes b \<Longrightarrow> is_administrator a = is_administrator b"
  by (simp add: is_administrator_def fun_eq_iff)

lemma is_administrator_update [simp]: "is_administrator (update_users P f a) = is_administrator a"
  by (rule is_administrator_cong) simp

lemma role_id_by_code: "accounts_wf a \<Longrightarrow> get_role_id_by_code a code = Some i \<Longrightarrow> role_codes a i = Some code"
  by (auto simp: get_role_id_by_code_def role_codes_def accounts_wf_def find_Some_iff in_set_conv_nth map_of_eq_Some_iff)

lemma get_user_by_id_Some:
  "get_user_by_id a uid = Some (u, code) \<longleftrightarrow> find_user a uid = Some u \<and> role_codes a (user_role_id u) = Some code"
  by (auto simp: get_user_by_id_def split: option.splits)

lemma find_user_in: "find_user a uid = Some u \<Longrightarrow> u \<in> set (app_users a) \<and> user_id u = uid"
  by (auto simp: find_user_def find_Some_iff)

lemma update_users_wf: "accounts_wf a \<Longrightarrow> (\<And>u. user_id (f u) = user_id u) \<Longrightarrow> accounts_wf (update_users P f a)"
  by (simp add: accounts_wf_def comp_def if_distrib cong: if_cong)

lemma filter_count_update:
  assumes "distinct (map user_id us)" and "u \<in> set us"
  shows "length (filter P (map (\<lambda>v. if user_id v = user_id u then f v else v) us)) + of_bool (P u)
    = length (filter P us) + of_bool (P (f u))"
  using assms
proof (induction us)
  case (Cons v us)
  show ?case
  proof (cases "v = u")
    case True
    then have "user_id u \<notin> user_id ` set us" using Cons.prems by simp
    then have "\<forall>x\<in>set us. user_id x \<noteq> user_id u" by (metis imageI)
    then have "map (\<lambda>v. if user_id v = user_id u then f v else v) us = us" by (simp add: map_idI)
    then show ?thesis by (simp add: True)
  next
    case False
    then have "u \<in> set us" "user_id v \<noteq> user_id u" using Cons.prems by auto
    then show ?thesis using Cons by simp
  qed
qed simp

lemma count_update:
  assumes "accounts_wf a" and "find_user a uid = Some u"
  shows "count_administrators (update_users (\<lambda>v. user_id v = uid) f a) + of_bool (is_administrator a u)
    = count_administrators a + of_bool (is_administrator a (f u))"
  using filter_count_update [of "app_users a" u "is_administrator a" f] assms find_user_in [OF assms(2)]
  by (simp add: count_administrators_def accounts_wf_def)

lemma count_update_same_roles:
  assumes "\<And>u. user_role_id (f u) = user_role_id u"
  shows "count_administrators (update_users P f a) = count_administrators a"
proof -
  have "length (filter (is_administrator a) (map (\<lambda>u. if P u then f u else u) us)) = length (filter (is_administrator a) us)" for us
    by (induction us) (auto simp: is_administrator_def assms)
  then show ?thesis by (simp add: count_administrators_def)
qed

lemma seat_same_roles:
  assumes "seat_ok k a" and "\<And>u. user_role_id (f u) = user_role_id u" and "\<And>u. user_id (f u) = user_id u"
  shows "seat_ok k (update_users P f a)"
  using assms by (simp add: seat_ok_def count_update_same_roles update_users_wf)

lemma update_user_row_Inr:
  assumes "update_user_row pf uid f a = (Inr x, a')"
  shows "a' = update_users (\<lambda>v. user_id v = uid) f a \<or> find_user a uid = None \<and> a' = a"
  using assms by (auto simp: update_user_row_def split: option.splits)

lemma on_accounts_Inr:
  "on_accounts tr f d = (Inr x, d') \<longleftrightarrow> (\<exists>a. f (accounts d) = (Inr x, a) \<and> d' = d\<lparr>accounts := a\<rparr>)"
  by (auto simp: on_accounts_def split: prod.splits sum.splits)

lemma update_role_existing:
  assumes "update_role pf uid role a = (Inr x, a')" and "find_user a uid = Some u"
  shows "a' = update_users (\<lambda>v. user_id v = uid) (\<lambda>u. u\<lparr>user_role_id := role\<rparr>) a"
  using update_user_row_Inr assms unfolding update_role_def by fastforce

lemma insert_user_Inr:
  assumes "insert_user pf i role name email h a = (Inr j, a')"
  shows "j = i \<and> find_user a i = None \<and> a' = a\<lparr>app_users := app_users a @ [\<lparr>user_id = i, user_email = email,
      user_password_hash = h, user_role_id = role, user_name = name, user_is_active = True\<rparr>]\<rparr>"
  using assms by (auto simp only: insert_user_def Let_def prod.inject sum.inject sum.distinct split: option.splits if_splits)

lemma create_user_seat:
  assumes "seat_ok k (accounts d)" and "create_user_body pf i name email password code d = (Inr j, d')"
  shows "seat_ok k (accounts d') \<and> j = i \<and> find_user (accounts d) i = None
    \<and> (\<exists>role_id u. get_role_id_by_code (accounts d) code = Some role_id
        \<and> accounts d' = (accounts d)\<lparr>app_users := app_users (accounts d) @ [u]\<rparr> \<and> user_id u = i \<and> user_role_id u = role_id
        \<and> user_email u = normalize_email pf email \<and> user_password_hash u = ap_hash pf password \<and> user_is_active u
        \<and> (code = ADMINISTRATOR_ROLE_CODE \<longrightarrow> count_administrators (accounts d) = 0))"
proof -
  from assms(2) obtain role_id where role: "get_role_id_by_code (accounts d) code = Some role_id"
    and seat: "code = ADMINISTRATOR_ROLE_CODE \<longrightarrow> count_administrators (accounts d) = 0"
    and ins: "on_accounts translate_unique_violation
      (insert_user pf i role_id name (normalize_email pf email) (ap_hash pf password)) d = (Inr j, d')"
    by (auto simp: create_user_body_def split: option.splits if_splits)
  define u where "u = \<lparr>user_id = i, user_email = normalize_email pf email, user_password_hash = ap_hash pf password,
    user_role_id = role_id, user_name = name, user_is_active = True\<rparr>"
  from ins obtain a' where "insert_user pf i role_id name (normalize_email pf email) (ap_hash pf password) (accounts d) = (Inr j, a')"
    "d' = d\<lparr>accounts := a'\<rparr>" by (auto simp: on_accounts_Inr)
  with insert_user_Inr [OF this(1)] have u: "accounts d' = (accounts d)\<lparr>app_users := app_users (accounts d) @ [u]\<rparr>"
    "user_id u = i" "user_role_id u = role_id" "user_email u = normalize_email pf email"
    "user_password_hash u = ap_hash pf password" "user_is_active u" "j = i" "find_user (accounts d) i = None"
    by (simp_all add: u_def)
  have wf: "accounts_wf (accounts d)" using assms(1) by (simp add: seat_ok_def)
  have code: "role_codes (accounts d) role_id = Some code" using role_id_by_code [OF wf role] .
  have adm: "is_administrator (accounts d') = is_administrator (accounts d)"
    by (rule is_administrator_cong) (simp add: u)
  then have "count_administrators (accounts d') = count_administrators (accounts d) + of_bool (code = ADMINISTRATOR_ROLE_CODE)"
    using code by (simp add: count_administrators_def u is_administrator_def)
  moreover have "accounts_wf (accounts d')"
    using wf u(2,8) by (auto simp: accounts_wf_def u(1) find_user_def find_None_iff)
  ultimately have "seat_ok k (accounts d')"
    using assms(1) seat by (auto simp: seat_ok_def)
  with u role seat show ?thesis by auto
qed

lemma change_role_seat:
  assumes "seat_ok k (accounts d)" and "change_role_body pf uid code d = (Inr x, d')"
  shows "seat_ok k (accounts d')"
proof -
  let ?a = "accounts d"
  have wf: "accounts_wf ?a" using assms(1) by (simp add: seat_ok_def)
  from assms(2) obtain u cur role_id where u: "find_user ?a uid = Some u" "role_codes ?a (user_role_id u) = Some cur"
    and role: "get_role_id_by_code ?a code = Some role_id"
    by (auto simp: change_role_body_def get_user_by_id_Some split: option.splits)
  have id: "user_id u = uid" using find_user_in [OF u(1)] by simp
  have code: "role_codes ?a role_id = Some code" using role_id_by_code [OF wf role] .
  show ?thesis
  proof (cases "code = cur")
    case True
    with assms u role show ?thesis by (simp add: change_role_body_def get_user_by_id_Some [THEN iffD2, OF conjI])
  next
    case False
    have by_id: "get_user_by_id ?a uid = Some (u, cur)" using u by (simp add: get_user_by_id_Some)
    from assms(2) False have guards: "code = ADMINISTRATOR_ROLE_CODE \<longrightarrow> count_administrators ?a = 0"
      "code \<noteq> ADMINISTRATOR_ROLE_CODE \<longrightarrow> cur = ADMINISTRATOR_ROLE_CODE \<longrightarrow> 1 < count_administrators ?a"
      and run: "on_accounts translate_unique_violation (update_role pf uid role_id) d = (Inr x, d')"
      by (auto simp: change_role_body_def by_id role id split: if_splits)
    from run have a': "accounts d' = update_users (\<lambda>v. user_id v = uid) (\<lambda>u. u\<lparr>user_role_id := role_id\<rparr>) ?a"
      using update_role_existing u(1) by (auto simp: on_accounts_Inr)
    have "count_administrators (accounts d') + of_bool (cur = ADMINISTRATOR_ROLE_CODE)
        = count_administrators ?a + of_bool (code = ADMINISTRATOR_ROLE_CODE)"
      using count_update [OF wf u(1), of "\<lambda>u. u\<lparr>user_role_id := role_id\<rparr>"] code u(2)
      by (simp add: a' is_administrator_def)
    moreover have "accounts_wf (accounts d')" using wf by (simp add: a' update_users_wf)
    ultimately show ?thesis using assms(1) guards False by (auto simp: seat_ok_def split: if_splits)
  qed
qed

lemma update_user_seat:
  assumes "seat_ok k (accounts d)" and "update_user_body pf uid name email code d = (Inr x, d')"
  shows "seat_ok k (accounts d')"
proof -
  from assms(2) obtain d1 where d1:
    "on_accounts translate_unique_violation (update_name_and_email pf uid (ap_strip pf name) (normalize_email pf email)) d = (Inr (), d1)"
    "change_role_body pf uid code d1 = (Inr x, d')"
    by (auto simp: update_user_body_def split: prod.splits sum.splits)
  then have "accounts d1 = update_users (\<lambda>v. user_id v = uid) (\<lambda>u. u\<lparr>user_name := ap_strip pf name, user_email := normalize_email pf email\<rparr>) (accounts d)
      \<or> accounts d1 = accounts d"
    using update_user_row_Inr by (fastforce simp: on_accounts_Inr update_name_and_email_def)
  then have "seat_ok k (accounts d1)" using assms(1) by (auto intro!: seat_same_roles)
  with d1(2) show ?thesis by (rule change_role_seat [rotated])
qed

lemma write_event_accounts: "write_event now s d = (Inr n, d') \<Longrightarrow> accounts d' = accounts d"
  by (drule write_event_Inr) simp

lemma seat_sessions: "seat_ok k (a\<lparr>app_sessions := ss\<rparr>) = seat_ok k a"
proof -
  have "is_administrator (a\<lparr>app_sessions := ss\<rparr>) = is_administrator a"
    by (rule is_administrator_cong) simp
  then show ?thesis by (simp add: seat_ok_def accounts_wf_def count_administrators_def)
qed

lemma set_active_Inr:
  assumes "set_active_body now uid b d = (Inr x, d')"
  obtains u code where "find_user (accounts d) uid = Some u" and "role_codes (accounts d) (user_role_id u) = Some code"
    and "accounts d' = (if b then update_active uid b (accounts d) else revoke_user_sessions now uid (update_active uid b (accounts d)))"
    and "\<not> b \<Longrightarrow> user_is_active u \<Longrightarrow> \<exists>n. write_event now (UserSubject uid) (d\<lparr>accounts := accounts d'\<rparr>) = (Inr n, d')"
    and "\<not> b \<Longrightarrow> code = ADMINISTRATOR_ROLE_CODE \<Longrightarrow> 1 < count_administrators (accounts d)"
proof -
  from assms obtain u code where u: "find_user (accounts d) uid = Some u" "role_codes (accounts d) (user_role_id u) = Some code"
    by (auto simp: set_active_body_def get_user_by_id_Some split: option.splits)
  have id: "user_id u = uid" using find_user_in [OF u(1)] by simp
  have "get_user_by_id (accounts d) uid = Some (u, code)" using u by (simp add: get_user_by_id_Some)
  with assms id have r: "\<not> (\<not> b \<and> code = ADMINISTRATOR_ROLE_CODE \<and> count_administrators (accounts d) \<le> 1)"
    "if b then d' = d\<lparr>accounts := update_active uid b (accounts d)\<rparr>
     else if user_is_active u then \<exists>n. write_event now (UserSubject uid)
         (d\<lparr>accounts := revoke_user_sessions now uid (update_active uid b (accounts d))\<rparr>) = (Inr n, d')
     else d' = d\<lparr>accounts := revoke_user_sessions now uid (update_active uid b (accounts d))\<rparr>"
    by (auto simp: set_active_body_def Let_def split: if_splits prod.splits sum.splits)
  then have "accounts d' = (if b then update_active uid b (accounts d) else revoke_user_sessions now uid (update_active uid b (accounts d)))"
    using write_event_accounts by (fastforce split: if_splits)
  with r show thesis by (intro that [OF u]) (auto split: if_splits)
qed

lemma set_active_seat:
  assumes "seat_ok k (accounts d)" and "set_active_body now uid b d = (Inr x, d')"
  shows "seat_ok k (accounts d')"
proof -
  have "seat_ok k (update_active uid b (accounts d))"
    unfolding update_active_def by (rule seat_same_roles [OF assms(1)]) simp_all
  with set_active_Inr [OF assms(2)] show ?thesis
    by (metis revoke_user_sessions_def seat_sessions update_sessions_def)
qed

lemma transfer_Inr:
  assumes "accounts_wf (accounts d)" and "transfer_administrator_body pf i j d = (Inr x, d')"
  shows "(\<exists>u v. find_user (accounts d) i = Some u \<and> is_administrator (accounts d) u \<and> find_user (accounts d) j = Some v)
    \<and> (if i = j then d' = d
       else \<exists>u v adm. find_user (accounts d) i = Some u \<and> find_user (accounts d) j = Some v
         \<and> role_codes (accounts d) adm = Some ADMINISTRATOR_ROLE_CODE
         \<and> accounts d' = update_users (\<lambda>w. user_id w = j) (\<lambda>w. w\<lparr>user_role_id := adm\<rparr>)
             (update_users (\<lambda>w. user_id w = i) (\<lambda>w. w\<lparr>user_role_id := user_role_id v\<rparr>) (accounts d)))"
proof -
  from assms(2) obtain u v code where u: "find_user (accounts d) i = Some u" "find_user (accounts d) j = Some v"
    "role_codes (accounts d) (user_role_id u) = Some ADMINISTRATOR_ROLE_CODE" "role_codes (accounts d) (user_role_id v) = Some code"
    by (auto simp: transfer_administrator_body_def get_user_by_id_Some split: option.splits if_splits)
  have id: "user_id u = i" "user_id v = j" using find_user_in u by blast+
  have gets: "get_user_by_id (accounts d) i = Some (u, ADMINISTRATOR_ROLE_CODE)" "get_user_by_id (accounts d) j = Some (v, code)"
    using u by (simp_all add: get_user_by_id_Some)
  show ?thesis
  proof (cases "i = j")
    case True
    with assms(2) gets id u show ?thesis by (simp add: transfer_administrator_body_def is_administrator_def)
  next
    case False
    with assms(2) gets id obtain adm d1 where adm: "get_role_id_by_code (accounts d) ADMINISTRATOR_ROLE_CODE = Some adm"
      "on_accounts untranslated (update_role pf i (user_role_id v)) d = (Inr (), d1)"
      "on_accounts translate_unique_violation (update_role pf j adm) d1 = (Inr x, d')"
      by (auto simp: transfer_administrator_body_def split: option.splits prod.splits sum.splits)
    have a1: "accounts d1 = update_users (\<lambda>w. user_id w = i) (\<lambda>w. w\<lparr>user_role_id := user_role_id v\<rparr>) (accounts d)"
      using adm(2) update_role_existing u(1) by (auto simp: on_accounts_Inr)
    have "find (\<lambda>w. user_id w = j) (map (\<lambda>w. if user_id w = i then w\<lparr>user_role_id := r\<rparr> else w) us)
        = find (\<lambda>w. user_id w = j) us" for r and us :: "app_user list"
      using False by (induction us) auto
    then have "find_user (accounts d1) j = Some v"
      using u(2) unfolding find_user_def a1 update_users_simps by (simp only:)
    with adm(3) have "accounts d' = update_users (\<lambda>w. user_id w = j) (\<lambda>w. w\<lparr>user_role_id := adm\<rparr>) (accounts d1)"
      using update_role_existing by (auto simp: on_accounts_Inr)
    with u role_id_by_code [OF assms(1) adm(1)] a1 False show ?thesis
      by (auto simp: is_administrator_def)
  qed
qed

lemma find_user_update_other:
  assumes "i \<noteq> j" and "\<And>u. user_id (f u) = user_id u"
  shows "find_user (update_users (\<lambda>w. user_id w = i) f a) j = find_user a j"
proof -
  have "find (\<lambda>w. user_id w = j) (map (\<lambda>w. if user_id w = i then f w else w) us) = find (\<lambda>w. user_id w = j) us" for us
    using assms by (induction us) auto
  then show ?thesis unfolding find_user_def update_users_simps by (simp only:)
qed

lemma find_user_update_same:
  assumes "\<And>u. user_id (f u) = user_id u"
  shows "find_user (update_users (\<lambda>w. user_id w = i) f a) i = map_option f (find_user a i)"
proof -
  have "find (\<lambda>w. user_id w = i) (map (\<lambda>w. if user_id w = i then f w else w) us) = map_option f (find (\<lambda>w. user_id w = i) us)" for us
    using assms by (induction us) auto
  then show ?thesis unfolding find_user_def update_users_simps by (simp only:)
qed

text \<open>The demotion and the promotion together keep the number of administrators.\<close>

lemma transfer_count:
  assumes "accounts_wf a" and "find_user a i = Some u" and "find_user a j = Some v" and "i \<noteq> j"
    and "is_administrator a u" and "role_codes a adm = Some ADMINISTRATOR_ROLE_CODE"
  shows "count_administrators (update_users (\<lambda>w. user_id w = j) (\<lambda>w. w\<lparr>user_role_id := adm\<rparr>)
      (update_users (\<lambda>w. user_id w = i) (\<lambda>w. w\<lparr>user_role_id := user_role_id v\<rparr>) a)) = count_administrators a"
proof -
  let ?a1 = "update_users (\<lambda>w. user_id w = i) (\<lambda>w. w\<lparr>user_role_id := user_role_id v\<rparr>) a"
  have "count_administrators ?a1 + 1 = count_administrators a + of_bool (is_administrator a v)"
    using count_update [OF assms(1,2), of "\<lambda>w. w\<lparr>user_role_id := user_role_id v\<rparr>"] assms(5)
    by (simp add: is_administrator_def)
  moreover have "accounts_wf ?a1" using assms(1) by (rule update_users_wf) simp
  moreover have "find_user ?a1 j = Some v" using assms(3,4) by (simp add: find_user_update_other)
  ultimately show ?thesis
    using count_update [of ?a1 j v "\<lambda>w. w\<lparr>user_role_id := adm\<rparr>"] assms(6)
    by (simp add: is_administrator_def)
qed

lemma transfer_seat:
  assumes "seat_ok k (accounts d)" and "transfer_administrator_body pf i j d = (Inr x, d')"
  shows "seat_ok k (accounts d')"
proof (cases "i = j")
  case True
  with assms transfer_Inr [OF _ assms(2)] show ?thesis by (auto simp: seat_ok_def)
next
  case False
  have wf: "accounts_wf (accounts d)" using assms(1) by (simp add: seat_ok_def)
  from transfer_Inr [OF wf assms(2)] False obtain u v adm where
    t: "find_user (accounts d) i = Some u" "find_user (accounts d) j = Some v" "is_administrator (accounts d) u"
      "role_codes (accounts d) adm = Some ADMINISTRATOR_ROLE_CODE"
      "accounts d' = update_users (\<lambda>w. user_id w = j) (\<lambda>w. w\<lparr>user_role_id := adm\<rparr>)
        (update_users (\<lambda>w. user_id w = i) (\<lambda>w. w\<lparr>user_role_id := user_role_id v\<rparr>) (accounts d))"
    by auto
  have "count_administrators (accounts d') = count_administrators (accounts d)"
    using transfer_count [OF wf t(1,2) False t(3,4)] t(5) by simp
  moreover have "accounts_wf (accounts d')"
    unfolding t(5) by (intro update_users_wf wf) simp_all
  ultimately show ?thesis using assms(1) by (simp add: seat_ok_def)
qed

lemma install_Inr:
  assumes "seat_ok k (accounts d)" and "install_administrator_body pf i name email password d = (Inr j, d')"
  shows "j = i \<and> seat_ok k (accounts d')
    \<and> (count_administrators (accounts d) = 0 \<and> create_user_body pf i name email password ADMINISTRATOR_ROLE_CODE d = (Inr i, d')
      \<or> (\<exists>u d1. is_administrator (accounts d) u \<and> find_user (accounts d) (user_id u) = Some u
          \<and> create_user_body pf i name email password PLACEHOLDER_ROLE_CODE d = (Inr i, d1)
          \<and> transfer_administrator_body pf (user_id u) i d1 = (Inr (), d')))"
proof (cases "count_administrators (accounts d) = 0")
  case True
  with assms(2) have "create_user_body pf i name email password ADMINISTRATOR_ROLE_CODE d = (Inr j, d')"
    by (simp add: install_administrator_body_def)
  with create_user_seat [OF assms(1) this] True show ?thesis by auto
next
  case False
  with assms(2) obtain u c d1 s where u: "get_sole_administrator (accounts d) = Some (u, c)"
    and c: "create_user_body pf i name email password PLACEHOLDER_ROLE_CODE d = (Inr s, d1)"
    and t: "transfer_administrator_body pf (user_id u) s d1 = (Inr (), d')" "j = s"
    by (auto simp: install_administrator_body_def split: option.splits prod.splits sum.splits)
  note cu = create_user_seat [OF assms(1) c]
  from u obtain w where w: "w \<in> set (app_users (accounts d))" "is_administrator (accounts d) w"
    "find_user (accounts d) (user_id w) = Some u"
    by (auto simp: get_sole_administrator_def get_user_by_id_Some find_Some_iff dest: nth_mem split: option.splits)
  have "u = w"
    using w(1) find_user_in [OF w(3)] assms(1)
    by (intro inj_onD [of user_id "set (app_users (accounts d))"]) (auto simp: seat_ok_def accounts_wf_def distinct_map)
  with w c t cu transfer_seat [of k d1 pf "user_id u" s "()" d'] show ?thesis by auto
qed

lemma demonstration_seat:
  assumes "seat_ok k a"
  shows "seat_ok k (snd (deactivate_demonstration_accounts a))"
  unfolding deactivate_demonstration_accounts_def snd_conv by (rule seat_same_roles [OF assms]) simp_all

lemma rotate_seat:
  assumes "seat_ok k a"
  shows "seat_ok k (update_password_hash pf email h a)"
  unfolding update_password_hash_def by (rule seat_same_roles [OF assms]) simp_all

lemma discard_Inr: "discard r = (Inr x, d) \<longleftrightarrow> (\<exists>y. r = (Inr y, d))"
  by (cases r; cases "fst r") (auto simp: discard_def)

lemma account_body_seat:
  assumes "seat_ok k (accounts d)" and "account_body pf c d = (Inr x, d')"
  shows "seat_ok k (accounts d')"
proof (cases c)
  case (CreateUser i name email password code)
  with assms create_user_seat show ?thesis by (auto simp: discard_Inr)
next
  case (ChangeRole uid code)
  with assms show ?thesis by (auto intro: change_role_seat)
next
  case (UpdateUser uid name email code)
  with assms show ?thesis by (auto intro: update_user_seat)
next
  case (ActivateUser now uid b)
  with assms show ?thesis by (auto intro: set_active_seat)
next
  case (TransferAdministrator i j)
  with assms show ?thesis by (auto intro: transfer_seat)
next
  case (InstallAdministrator i name email password)
  with assms install_Inr show ?thesis by (auto simp: discard_Inr)
next
  case (ProvisionAdministrator i name email password b)
  with assms(2) obtain y d1 where "install_administrator_body pf i name email password d = (Inr y, d1)"
    "accounts d' = (if b then snd (deactivate_demonstration_accounts (accounts d1)) else accounts d1)"
    by (auto simp: discard_Inr provision_administrator_body_def split: prod.splits sum.splits if_splits)
  with install_Inr [OF assms(1)] demonstration_seat show ?thesis by auto
next
  case (RotatePassword email password)
  with assms show ?thesis by (auto simp: rotate_password_body_def rotate_seat)
qed

interpretation account_work: unit_of_work "account_body pf c" "\<lambda>d. seat_ok k (accounts d)" for pf c k
  by unfold_locales (rule account_body_seat)

definition account_step :: "account_platform \<Rightarrow> account_call \<Rightarrow> app_db \<Rightarrow> app_db" where
  "account_step pf c d = committed (snd (account_service pf c False (at_rest d)))"

interpretation account_run: stepwise "account_step pf" "\<lambda>d. seat_ok k (accounts d)" for pf k
proof
  fix d :: app_db and c :: account_call
  assume "seat_ok k (accounts d)"
  then show "seat_ok k (accounts (account_step pf c d))"
    using account_work.committed_inv [of k d pf c] by (metis account_service_def account_step_def prod.collapse)
qed

section \<open>What the account service promises\<close>

text \<open>
  C7. Exactly one administrator: no sequence of calls of the service, successful or refused, ever leaves
  the committed accounts with two administrators, and once there is one there is always one.
\<close>

theorem exactly_one_administrator:
  assumes "accounts_wf (accounts d)" and "count_administrators (accounts d) \<le> 1"
  shows "count_administrators (accounts (fold (account_step pf) cs d)) \<le> 1
    \<and> (count_administrators (accounts d) = 1 \<longrightarrow> count_administrators (accounts (fold (account_step pf) cs d)) = 1)"
  using account_run.run_inv [of "count_administrators (accounts d)" d pf cs] assms
  by (auto simp: seat_ok_def)

definition example_accounts :: app_db where
  "example_accounts = example_app\<lparr>accounts := example_db\<lparr>app_users := app_users example_db @
     [\<lparr>user_id = 2, user_email = ''root@x.mx'', user_password_hash = ''r'', user_role_id = 1, user_name = ''Root'', user_is_active = True\<rparr>]\<rparr>\<rparr>"

definition example_account_platform :: account_platform where
  "example_account_platform = \<lparr>ap_lower = id, ap_str_lower = id, ap_strip = id, ap_hash = id, ap_row_ok = (\<lambda>_. True)\<rparr>"

lemma example_accounts_ok: "accounts_wf (accounts example_accounts) \<and> count_administrators (accounts example_accounts) = 1"
  by (simp add: example_accounts_def accounts_wf_def count_administrators_def is_administrator_def example_app_def
      example_db_def role_codes_def ADMINISTRATOR_ROLE_CODE_def)

theorem exactly_one_administrator_witness:
  "count_administrators (accounts (fold (account_step example_account_platform)
     [ChangeRole 2 ''ANALYST'', TransferAdministrator 2 1, ActivateUser 5 2 False] example_accounts)) = 1"
  using exactly_one_administrator [of example_accounts example_account_platform
      "[ChangeRole 2 ''ANALYST'', TransferAdministrator 2 1, ActivateUser 5 2 False]"] example_accounts_ok
  by simp

lemma find_session_revoke_user:
  "find_session (revoke_user_sessions now uid a) sid =
    map_option (\<lambda>s. if session_user s = uid \<and> revoked_at s = None then s\<lparr>revoked_at := Some now\<rparr> else s) (find_session a sid)"
  by (simp add: revoke_user_sessions_def find_session_update)

text \<open>
  Deactivation ends access at once and for good: after a deactivation that succeeded, no session of
  that user resolves, whatever happens later to the sessions and the accounts, a reactivation included;
  and if the account was active, its deactivation is an event of the inbox, written in the same unit of work.
\<close>

lemma deactivation_ends_access:
  assumes "account_service pf (ActivateUser now uid False) False (at_rest d) = (Inr x, s)"
    and "find_session (accounts d) sid = Some ses" and "session_user ses = uid"
  shows "fst (load_principal later idle absolute sid (fold session_step es (accounts (committed s)))) = None
    \<and> (\<exists>u. find_user (accounts d) uid = Some u
        \<and> (user_is_active u \<longrightarrow> UserSubject uid \<in> set (map note_subject (note_rows (committed s)))))"
proof -
  from assms(1) obtain d' where run: "set_active_body now uid False d = (Inr x, d')" and s: "s = at_rest d'"
    by (auto simp: account_service_def atomic_statements split: prod.splits sum.splits)
  from run obtain u where u: "find_user (accounts d) uid = Some u"
    and a': "accounts d' = revoke_user_sessions now uid (update_active uid False (accounts d))"
    and ev: "user_is_active u \<Longrightarrow> \<exists>n. write_event now (UserSubject uid) (d\<lparr>accounts := accounts d'\<rparr>) = (Inr n, d')"
    by (rule set_active_Inr) auto
  have "find_session (update_active uid False (accounts d)) sid = Some ses"
    using assms(2) by (simp add: find_session_def update_active_def)
  then have "\<exists>s. find_session (accounts d') sid = Some s \<and> revoked_at s \<noteq> None"
    using assms(3) by (auto simp: a' find_session_revoke_user)
  from revoked_run.run_inv [OF this, of es]
  have "fst (load_principal later idle absolute sid (fold session_step es (accounts d'))) = None"
    by (auto simp: load_principal_def live_session_def)
  moreover have "UserSubject uid \<in> set (map note_subject (note_rows d'))" if "user_is_active u"
  proof -
    from ev [OF that] obtain n where "write_event now (UserSubject uid) (d\<lparr>accounts := accounts d'\<rparr>) = (Inr n, d')" ..
    from write_event_note_rows [OF this] have "map note_subject (note_rows d') = map note_subject (note_rows d) @ [UserSubject uid]"
      by simp
    then show ?thesis by auto
  qed
  ultimately show ?thesis using u s by auto
qed

lemma example_deactivation:
  "account_service example_account_platform (ActivateUser 5 1 False) False (at_rest example_accounts)
    = (Inr (), snd (account_service example_account_platform (ActivateUser 5 1 False) False (at_rest example_accounts)))"
proof -
  have "find_user (accounts example_accounts) 1 = Some (hd (app_users example_db))"
    by (simp add: example_accounts_def find_user_def example_db_def)
  moreover have "role_codes (accounts example_accounts) 4 = Some ''ANALYST''"
    by (simp add: example_accounts_def role_codes_def example_db_def)
  ultimately obtain d' where "set_active_body 5 1 False example_accounts = (Inr (), d')"
    by (simp add: set_active_body_def get_user_by_id_def ADMINISTRATOR_ROLE_CODE_def example_db_def Let_def
        write_event_def insert_notification_def insert_recipients_def announced_once_def
        update_active_def revoke_user_sessions_def update_sessions_def find_user_def example_accounts_def)
  then show ?thesis by (simp add: account_service_def atomic_statements)
qed

text \<open>
  The seat changes hands whole: installing an administrator either leaves the committed rows exactly
  as they were, or the new account is the one administrator, active, with the password given, and whoever
  held the seat before holds the placeholder role.
\<close>

lemma install_administrator_moves_the_seat:
  assumes "accounts_wf (accounts d)" and "count_administrators (accounts d) \<le> 1"
    and "account_service pf (InstallAdministrator i name email password) False (at_rest d) = (r, s)"
  shows "case r of Inl e \<Rightarrow> s = at_rest d
    | Inr _ \<Rightarrow> count_administrators (accounts (committed s)) = 1
        \<and> (\<exists>u. find_user (accounts (committed s)) i = Some u \<and> is_administrator (accounts (committed s)) u
            \<and> user_is_active u \<and> user_password_hash u = ap_hash pf password \<and> user_email u = normalize_email pf email)
        \<and> (\<forall>v\<in>set (app_users (accounts d)). is_administrator (accounts d) v \<longrightarrow>
            (\<exists>w. find_user (accounts (committed s)) (user_id v) = Some w
               \<and> role_codes (accounts (committed s)) (user_role_id w) = Some PLACEHOLDER_ROLE_CODE))"
proof (cases r)
  case (Inl e)
  have "account_service pf c False (at_rest d) = (Inl e, s) \<Longrightarrow> s = at_rest d" for c
    unfolding account_service_def by (rule account_work.failure_leaves_no_trace)
  with assms(3) Inl show ?thesis by simp
next
  case (Inr y)
  with assms(3) obtain d' where run: "install_administrator_body pf i name email password d = (Inr i, d')" and s: "s = at_rest d'"
    using install_Inr [of "count_administrators (accounts d)" d] assms(1,2)
    by (auto simp: account_service_def atomic_statements seat_ok_def discard_Inr split: prod.splits sum.splits)
  let ?a = "accounts d" and ?a' = "accounts d'"
  have seat: "seat_ok (count_administrators ?a) ?a" using assms(1,2) by (simp add: seat_ok_def)
  note cases = install_Inr [OF seat run]
  show ?thesis
  proof (cases "count_administrators ?a = 0")
    case True
    with cases have c: "create_user_body pf i name email password ADMINISTRATOR_ROLE_CODE d = (Inr i, d')"
      by (auto simp: count_administrators_def find_user_def filter_empty_conv find_Some_iff)
    from create_user_seat [OF seat c] obtain role_id u where u:
      "get_role_id_by_code ?a ADMINISTRATOR_ROLE_CODE = Some role_id" "?a' = ?a\<lparr>app_users := app_users ?a @ [u]\<rparr>"
      "user_id u = i" "user_role_id u = role_id" "user_email u = normalize_email pf email"
      "user_password_hash u = ap_hash pf password" "user_is_active u" "find_user ?a i = None" by blast
    have role: "role_codes ?a role_id = Some ADMINISTRATOR_ROLE_CODE" using role_id_by_code [OF assms(1) u(1)] .
    then have "is_administrator ?a' u" by (simp add: is_administrator_def u)
    moreover have "find_user ?a' i = Some u" using u by (simp add: find_user_def find_append_None)
    moreover have "count_administrators ?a' = 1"
      using True \<open>is_administrator ?a' u\<close> is_administrator_cong [of ?a' ?a] by (simp add: count_administrators_def u)
    moreover have "\<forall>v\<in>set (app_users ?a). \<not> is_administrator ?a v"
      using True by (simp add: count_administrators_def filter_empty_conv)
    ultimately show ?thesis using u Inr by (simp add: s)
  next
    case False
    with cases create_user_seat [OF seat] obtain u d1 where u: "is_administrator ?a u" "find_user ?a (user_id u) = Some u"
      and c: "create_user_body pf i name email password PLACEHOLDER_ROLE_CODE d = (Inr i, d1)"
      and t: "transfer_administrator_body pf (user_id u) i d1 = (Inr (), d')" by metis
    from create_user_seat [OF seat c] obtain role_id v where seat1: "seat_ok (count_administrators ?a) (accounts d1)" and v:
      "get_role_id_by_code ?a PLACEHOLDER_ROLE_CODE = Some role_id" "accounts d1 = ?a\<lparr>app_users := app_users ?a @ [v]\<rparr>"
      "user_id v = i" "user_role_id v = role_id" "user_email v = normalize_email pf email"
      "user_password_hash v = ap_hash pf password" "user_is_active v" "find_user ?a i = None" by blast
    have ne: "user_id u \<noteq> i" using u(2) v(8) by auto
    have fu: "find_user (accounts d1) (user_id u) = Some u" using u(2) by (simp add: find_user_def v find_append_Some)
    have fv: "find_user (accounts d1) i = Some v" using v by (simp add: find_user_def find_append_None)
    from transfer_Inr [OF _ t] seat1 ne fu fv obtain adm where adm: "role_codes (accounts d1) adm = Some ADMINISTRATOR_ROLE_CODE"
      "?a' = update_users (\<lambda>w. user_id w = i) (\<lambda>w. w\<lparr>user_role_id := adm\<rparr>)
         (update_users (\<lambda>w. user_id w = user_id u) (\<lambda>w. w\<lparr>user_role_id := user_role_id v\<rparr>) (accounts d1))"
      by (auto simp: seat_ok_def)
    have new: "find_user ?a' i = Some (v\<lparr>user_role_id := adm\<rparr>)"
      using fv ne by (simp add: adm(2) find_user_update_same find_user_update_other)
    have old: "find_user ?a' (user_id u) = Some (u\<lparr>user_role_id := role_id\<rparr>)"
      using fu ne by (simp add: adm(2) find_user_update_same find_user_update_other v(4))
    have codes: "role_codes ?a' = role_codes ?a" using adm(2) v(2) by simp
    have "count_administrators ?a' = 1" using cases False assms(2) by (auto simp: seat_ok_def)
    moreover have "w = u" if "w \<in> set (app_users ?a)" "is_administrator ?a w" for w
    proof -
      have "length (filter (is_administrator ?a) (app_users ?a)) \<le> 1" using assms(2) by (simp add: count_administrators_def)
      moreover have "w \<in> set (filter (is_administrator ?a) (app_users ?a))" "u \<in> set (filter (is_administrator ?a) (app_users ?a))"
        using that u find_user_in by auto
      ultimately show ?thesis
        by (cases "filter (is_administrator ?a) (app_users ?a)") auto
    qed
    moreover have "role_codes ?a role_id = Some PLACEHOLDER_ROLE_CODE" using role_id_by_code [OF assms(1) v(1)] .
    ultimately show ?thesis
      using new old codes adm(1) v Inr by (auto simp: s is_administrator_def)
  qed
qed

section \<open>The form\<close>

definition MINIMUM_PASSWORD_LENGTH :: nat where "MINIMUM_PASSWORD_LENGTH = 12"

definition valid_email :: "string \<Rightarrow> bool" where
  "valid_email email =
    (if length email > 160 \<or> count_list email CHR ''@'' \<noteq> 1 then False
     else if list_ex py_isspace email then False
     else case split_on CHR ''@'' email of
       [local_part, domain] \<Rightarrow>
         (let labels = split_on CHR ''.'' domain
          in local_part \<noteq> [] \<and> length labels \<ge> 2 \<and> list_all (\<lambda>l. l \<noteq> []) labels)
     | _ \<Rightarrow> False)"

datatype form_field = NameField | EmailField | PasswordField | RoleField
datatype form_problem = Missing | TooLong | ControlCharacters | NotAnEmail | TooShort

definition validate_user :: "(string \<Rightarrow> string) \<Rightarrow> (char \<Rightarrow> bool) \<Rightarrow> string \<Rightarrow> string \<Rightarrow> string \<Rightarrow> string
    \<Rightarrow> (form_field \<times> form_problem) list" where
  "validate_user strip bidi name email password role_code =
    (if strip name = [] then [(NameField, Missing)]
     else if length name > 120 then [(NameField, TooLong)]
     else if list_ex bidi name then [(NameField, ControlCharacters)] else [])
    @ (if \<not> valid_email email then [(EmailField, NotAnEmail)] else [])
    @ (if length password < MINIMUM_PASSWORD_LENGTH then [(PasswordField, TooShort)] else [])
    @ (if role_code = [] then [(RoleField, Missing)] else [])"

text \<open>The check for any separators and white space, and the grammar it stands for.\<close>

definition two_parts :: "'a \<Rightarrow> 'a \<Rightarrow> 'a list \<Rightarrow> bool" where
  "two_parts at dot xs \<longleftrightarrow> (case split_on at xs of
     [l, d] \<Rightarrow> l \<noteq> [] \<and> length (split_on dot d) \<ge> 2 \<and> (\<forall>p\<in>set (split_on dot d). p \<noteq> []) | _ \<Rightarrow> False)"

definition address_grammar :: "('a \<Rightarrow> bool) \<Rightarrow> 'a \<Rightarrow> 'a \<Rightarrow> 'a list \<Rightarrow> 'a list \<Rightarrow> 'a list list \<Rightarrow> bool" where
  "address_grammar sp at dot xs l labels \<longleftrightarrow> xs = l @ at # join_with dot labels \<and> l \<noteq> [] \<and> length labels \<ge> 2
     \<and> (\<forall>x\<in>set l. x \<noteq> at \<and> \<not> sp x) \<and> (\<forall>p\<in>set labels. p \<noteq> [] \<and> (\<forall>x\<in>set p. x \<noteq> at \<and> x \<noteq> dot \<and> \<not> sp x))"

lemma two_parts_grammar:
  assumes "two_parts at dot xs" and "\<forall>x\<in>set xs. \<not> sp x"
  shows "\<exists>l labels. address_grammar sp at dot xs l labels"
proof -
  from assms(1) obtain l d where split: "split_on at xs = [l, d]"
    and ok: "l \<noteq> []" "length (split_on dot d) \<ge> 2" "\<forall>p\<in>set (split_on dot d). p \<noteq> []"
    by (auto simp: two_parts_def split: list.splits)
  have xs: "xs = l @ at # d" using join_split [of at xs] by (simp add: split)
  have at: "at \<notin> set l" "at \<notin> set d" using split_on_parts [of at xs] by (simp_all add: split)
  have "x \<noteq> at \<and> x \<noteq> dot \<and> \<not> sp x" if p: "p \<in> set (split_on dot d)" and x: "x \<in> set p" for p x
  proof -
    have "x \<in> set d" using set_split_on [of dot d] p x by auto
    then have "x \<noteq> at" "\<not> sp x" using at(2) assms(2) by (auto simp: xs)
    moreover have "x \<noteq> dot" using split_on_parts [of dot d] p x by metis
    ultimately show ?thesis by blast
  qed
  moreover have "\<forall>x\<in>set l. x \<noteq> at \<and> \<not> sp x" using at(1) assms(2) by (auto simp: xs)
  moreover have "xs = l @ at # join_with dot (split_on dot d)" by (simp add: join_split xs)
  ultimately have "address_grammar sp at dot xs l (split_on dot d)"
    using ok unfolding address_grammar_def by blast
  then show ?thesis by blast
qed

lemma grammar_two_parts:
  assumes "address_grammar sp at dot xs l labels" and "at \<noteq> dot" and "\<not> sp at" and "\<not> sp dot"
  shows "two_parts at dot xs \<and> (\<forall>x\<in>set xs. \<not> sp x) \<and> count_list xs at = 1"
proof -
  from assms(1) have g: "xs = l @ at # join_with dot labels" "l \<noteq> []" "length labels \<ge> 2"
    "\<forall>x\<in>set l. x \<noteq> at \<and> \<not> sp x" "\<forall>p\<in>set labels. p \<noteq> [] \<and> (\<forall>x\<in>set p. x \<noteq> at \<and> x \<noteq> dot \<and> \<not> sp x)"
    by (simp_all add: address_grammar_def)
  let ?d = "join_with dot labels"
  have sub: "set ?d \<subseteq> insert dot (\<Union>(set ` set labels))" by (rule set_join_with)
  then have at: "at \<notin> set ?d" using g(5) assms(2) by auto
  have "labels \<noteq> []" using g(3) by auto
  then have labels: "split_on dot ?d = labels" using g(5) by (intro split_join) auto
  have "at \<notin> set l" using g(4) by auto
  then have split: "split_on at xs = [l, ?d]"
    by (simp add: g(1) split_on_append split_on_single [OF at])
  then have "count_list xs at = 1" using length_split_on [of at xs] by simp
  moreover have "two_parts at dot xs" using g(2,3,5) by (simp add: two_parts_def split labels)
  moreover have "\<forall>x\<in>set xs. \<not> sp x"
    using sub g(4,5) assms(3,4) by (auto simp: g(1))
  ultimately show ?thesis by blast
qed

lemma valid_email_two_parts:
  "valid_email email \<longleftrightarrow> length email \<le> 160 \<and> count_list email CHR ''@'' = 1 \<and> two_parts CHR ''@'' CHR ''.'' email
     \<and> (\<forall>x\<in>set email. \<not> py_isspace x)"
  by (auto simp: valid_email_def two_parts_def Let_def list_ex_iff list_all_iff split: list.splits)

text \<open>
  The form's linear check of an address accepts exactly the grammar of the column's constraint, one
  \<open>@\<close>, a local part, and at least two labels, none of them empty and no white space, within the column's length.
\<close>

lemma valid_email_is_the_column_grammar:
  "valid_email email \<longleftrightarrow> length email \<le> 160 \<and> (\<exists>l labels. address_grammar py_isspace CHR ''@'' CHR ''.'' email l labels)"
proof -
  have "CHR ''@'' \<noteq> CHR ''.''" "\<not> py_isspace CHR ''@''" "\<not> py_isspace CHR ''.''"
    by (simp_all add: py_isspace_def)
  then show ?thesis
    using two_parts_grammar grammar_two_parts unfolding valid_email_two_parts by metis
qed

end
