(* ===== verification/Login_Throttle.thy ===== *)
theory Login_Throttle
  imports Prelude Complex_Main
begin

text \<open>
  The failed sign-in counter, \<open>web/services/login_throttle.py\<close>. The \<open>OrderedDict\<close> of deques is an
  association list in the dictionary's order, oldest first; a deque is a list of instants. The clock is
  an argument of each operation. Instants and the window are reals where the code has floats. The lock
  makes each operation one step, so a history is a list of steps with their times.
\<close>

section \<open>The ordered dictionary\<close>

type_synonym ('k, 'v) ordered_dict = "('k \<times> 'v) list"

definition has_key :: "'k \<Rightarrow> ('k, 'v) ordered_dict \<Rightarrow> bool" where
  "has_key k od \<longleftrightarrow> k \<in> fst ` set od"

definition pop_key :: "'k \<Rightarrow> ('k, 'v) ordered_dict \<Rightarrow> ('k, 'v) ordered_dict" where
  "pop_key k od = filter (\<lambda>(k', v). k' \<noteq> k) od"

definition setdefault :: "'k \<Rightarrow> 'v \<Rightarrow> ('k, 'v) ordered_dict \<Rightarrow> ('k, 'v) ordered_dict" where
  "setdefault k v od = (if has_key k od then od else od @ [(k, v)])"

definition put :: "'k \<Rightarrow> 'v \<Rightarrow> ('k, 'v) ordered_dict \<Rightarrow> ('k, 'v) ordered_dict" where
  "put k v od = (if has_key k od then map (\<lambda>(k', v'). if k' = k then (k', v) else (k', v')) od else od @ [(k, v)])"

definition move_to_end :: "'k \<Rightarrow> ('k, 'v) ordered_dict \<Rightarrow> ('k, 'v) ordered_dict" where
  "move_to_end k od = filter (\<lambda>(k', v). k' \<noteq> k) od @ filter (\<lambda>(k', v). k' = k) od"

section \<open>The throttle\<close>

type_synonym buckets = "(string, real list) ordered_dict"

record throttle =
  max_attempts :: int
  window_seconds :: int
  max_keys :: int
  attempts_of :: buckets

record throttle_decision =
  decision_blocked :: bool
  decision_retry_after :: int

definition account_key :: "(string \<Rightarrow> string) \<Rightarrow> (string \<Rightarrow> string) \<Rightarrow> (string \<Rightarrow> string) \<Rightarrow> string \<Rightarrow> string option" where
  "account_key strip casefold sha256 email =
    (let normalized = casefold (strip email)
     in if normalized = [] then None else Some (''account:'' @ sha256 normalized))"

definition client_key :: "string option \<Rightarrow> string" where
  "client_key remote_addr =
    ''client:'' @ (case remote_addr of None \<Rightarrow> ''unknown'' | Some a \<Rightarrow> if a = [] then ''unknown'' else a)"

definition new_throttle :: "int \<Rightarrow> int \<Rightarrow> int \<Rightarrow> throttle" where
  "new_throttle attempts window keys =
    \<lparr>max_attempts = max 1 attempts, window_seconds = max 1 window, max_keys = max 1 keys, attempts_of = []\<rparr>"

text \<open>\<open>_prune\<close> returns the bucket, which the dictionary still holds.\<close>

definition bucket :: "buckets \<Rightarrow> string \<Rightarrow> real list" where
  "bucket od k = (case map_of od k of None \<Rightarrow> [] | Some q \<Rightarrow> q)"

definition prune :: "string \<Rightarrow> real \<Rightarrow> throttle \<Rightarrow> real list \<times> throttle" where
  "prune key now t =
    (let od = setdefault key [] (attempts_of t);
         cutoff = now - of_int (window_seconds t);
         attempts = dropWhile (\<lambda>a. a \<le> cutoff) (bucket od key);
         od = move_to_end key (put key attempts od);
         od = (if attempts = [] then setdefault key [] (pop_key key od) else od)
     in (attempts, t\<lparr>attempts_of := od\<rparr>))"

definition trim :: "throttle \<Rightarrow> throttle" where
  "trim t = t\<lparr>attempts_of := drop (length (attempts_of t) - nat (max_keys t)) (attempts_of t)\<rparr>"

text \<open>\<open>int(x)\<close> drops the fraction.\<close>

definition py_int :: "real \<Rightarrow> int" where
  "py_int x = (if x < 0 then \<lceil>x\<rceil> else \<lfloor>x\<rfloor>)"

fun check_loop :: "real \<Rightarrow> string list \<Rightarrow> int \<Rightarrow> throttle \<Rightarrow> int \<times> throttle" where
  "check_loop now [] retry_after t = (retry_after, t)"
| "check_loop now (key # keys) retry_after t =
    (case prune key now t of (attempts, t') \<Rightarrow>
       check_loop now keys
         (if int (length attempts) \<ge> max_attempts t'
          then max retry_after (max 1 (py_int (hd attempts + of_int (window_seconds t') - now)))
          else retry_after) t')"

definition check :: "real \<Rightarrow> string list \<Rightarrow> throttle \<Rightarrow> throttle_decision \<times> throttle" where
  "check now keys t =
    (case check_loop now keys 0 t of (retry_after, t') \<Rightarrow>
       (\<lparr>decision_blocked = (retry_after \<noteq> 0), decision_retry_after = retry_after\<rparr>, trim t'))"

text \<open>The deque the loop appends to is the dictionary's own.\<close>

fun record_loop :: "real \<Rightarrow> string list \<Rightarrow> throttle \<Rightarrow> throttle" where
  "record_loop now [] t = t"
| "record_loop now (key # keys) t =
    (case prune key now t of (attempts, t') \<Rightarrow>
       record_loop now keys
         (t'\<lparr>attempts_of := move_to_end key (put key (attempts @ [now]) (attempts_of t'))\<rparr>))"

definition record_failure :: "real \<Rightarrow> string list \<Rightarrow> throttle \<Rightarrow> throttle" where
  "record_failure now keys t = trim (record_loop now keys t)"

definition clear :: "string list \<Rightarrow> throttle \<Rightarrow> throttle" where
  "clear keys t = t\<lparr>attempts_of := fold pop_key keys (attempts_of t)\<rparr>"

section \<open>The dictionary operations\<close>

definition well_keyed :: "buckets \<Rightarrow> bool" where
  "well_keyed od \<longleftrightarrow> distinct (map fst od)"

lemma map_of_filter_key: "map_of (filter (\<lambda>(k', v). k' \<noteq> k) od) x = (if x = k then None else map_of od x)"
  by (induction od) auto

lemma bucket_pop [simp]: "bucket (pop_key k od) x = (if x = k then [] else bucket od x)"
  by (simp add: bucket_def pop_key_def map_of_filter_key)

lemma has_key_map_of: "has_key k od \<longleftrightarrow> map_of od k \<noteq> None"
  by (simp add: has_key_def map_of_eq_None_iff)

lemma bucket_setdefault [simp]: "bucket (setdefault k [] od) x = bucket od x"
  by (auto simp: bucket_def setdefault_def has_key_map_of map_add_def split: option.split)

lemma map_of_put: "map_of (put k v od) x = (if x = k then Some v else map_of od x)"
proof -
  have "map_of (map (\<lambda>(k', v'). if k' = k then (k', v) else (k', v')) od) x =
      (if x = k \<and> map_of od k \<noteq> None then Some v else map_of od x)"
  proof (induction od)
    case (Cons y od)
    then show ?case by (cases y) auto
  qed simp
  then show ?thesis
    by (cases "map_of od k") (auto simp: put_def has_key_map_of map_add_def split: option.split)
qed

lemma bucket_put [simp]: "bucket (put k v od) x = (if x = k then v else bucket od x)"
  by (simp add: bucket_def map_of_put)

lemma bucket_move [simp]: "bucket (move_to_end k od) x = bucket od x"
proof -
  have "map_of (filter (\<lambda>(k', v). k' = k) od) x = (if x = k then map_of od x else None)"
    by (induction od) auto
  then show ?thesis
    by (auto simp: bucket_def move_to_end_def map_of_filter_key map_add_def split: option.split)
qed

lemma keys_setdefault: "fst ` set (setdefault k v od) = insert k (fst ` set od)"
  by (auto simp: setdefault_def has_key_def)

lemma keys_put: "fst ` set (put k v od) = insert k (fst ` set od)"
proof -
  have "map fst (map (\<lambda>(k', v'). if k' = k then (k', v) else (k', v')) od) = map fst od"
    by (induction od) auto
  then have "fst ` set (map (\<lambda>(k', v'). if k' = k then (k', v) else (k', v')) od) = fst ` set od"
    by (metis list.set_map)
  then show ?thesis by (auto simp: put_def has_key_def)
qed

lemma keys_move: "fst ` set (move_to_end k od) = fst ` set od"
  by (force simp: move_to_end_def)

lemma keys_pop: "fst ` set (pop_key k od) = fst ` set od - {k}"
  by (force simp: pop_key_def)

lemmas keys_simps = keys_setdefault keys_put keys_move keys_pop

lemma keyed_setdefault: "well_keyed od \<Longrightarrow> well_keyed (setdefault k v od)"
  by (auto simp: well_keyed_def setdefault_def has_key_def)

lemma keyed_put: "well_keyed od \<Longrightarrow> well_keyed (put k v od)"
proof (cases "has_key k od")
  case True
  have "map fst (map (\<lambda>(k', v'). if k' = k then (k', v) else (k', v')) od) = map fst od"
    by (induction od) auto
  moreover assume "well_keyed od"
  ultimately show ?thesis unfolding well_keyed_def put_def by (simp only: True if_True)
next
  case False
  assume "well_keyed od"
  with False show ?thesis by (auto simp: well_keyed_def put_def has_key_def)
qed

lemma keyed_filter: "well_keyed od \<Longrightarrow> well_keyed (filter P od)"
  by (simp add: well_keyed_def distinct_map_filter)

lemma keyed_move: "well_keyed od \<Longrightarrow> well_keyed (move_to_end k od)"
proof -
  assume w: "well_keyed od"
  have "mset (filter (\<lambda>(k', v). k' \<noteq> k) od @ filter (\<lambda>(k', v). k' = k) od) = mset od"
  proof (induction od)
    case (Cons y od)
    then show ?case by (cases y) simp
  qed simp
  then have "mset (map fst (move_to_end k od)) = mset (map fst od)"
    unfolding move_to_end_def mset_map by simp
  with w show ?thesis unfolding well_keyed_def by (metis mset_eq_imp_distinct_iff)
qed

lemma keyed_pop: "well_keyed od \<Longrightarrow> well_keyed (pop_key k od)"
  unfolding pop_key_def by (rule keyed_filter)

lemmas keyed_intros = keyed_setdefault keyed_put keyed_move keyed_pop

lemma length_keys: "well_keyed od \<Longrightarrow> length od = card (fst ` set od)"
  unfolding well_keyed_def using distinct_card [of "map fst od"] by simp

section \<open>The history the buckets stand for\<close>

text \<open>
  What the throttle promises is said about the full history of each key: the failures recorded since it
  was last cleared. \<open>bucket_ok\<close> relates one deque to its history \<open>h\<close>: a count over a recent window is the
  same in both, or not larger in the deque when keys may have been evicted (\<open>exact\<close> is false).
\<close>

datatype throttle_event = Check "string list" | Fail "string list" | Forget "string list"

fun throttle_step :: "real \<times> throttle_event \<Rightarrow> throttle \<Rightarrow> throttle" where
  "throttle_step (now, Check keys) t = snd (check now keys t)"
| "throttle_step (now, Fail keys) t = record_failure now keys t"
| "throttle_step (now, Forget keys) t = clear keys t"

fun history_step :: "real \<times> throttle_event \<Rightarrow> (string \<Rightarrow> real list) \<Rightarrow> (string \<Rightarrow> real list)" where
  "history_step (now, Check keys) h = h"
| "history_step (now, Fail keys) h = fold (\<lambda>k h. h(k := h k @ [now])) keys h"
| "history_step (now, Forget keys) h = fold (\<lambda>k h. h(k := [])) keys h"

fun event_keys :: "throttle_event \<Rightarrow> string list" where
  "event_keys (Check keys) = keys"
| "event_keys (Fail keys) = keys"
| "event_keys (Forget keys) = keys"

definition since :: "real \<Rightarrow> real list \<Rightarrow> nat" where
  "since c h = length (filter ((<) c) h)"

definition bucket_ok :: "bool \<Rightarrow> real \<Rightarrow> real \<Rightarrow> real list \<Rightarrow> real list \<Rightarrow> bool" where
  "bucket_ok exact w now q h \<longleftrightarrow> sorted q \<and> (\<forall>a\<in>set q. a \<le> now) \<and> (\<forall>c. since c q \<le> since c h)
     \<and> (exact \<longrightarrow> (\<forall>c\<ge>now - w. since c q = since c h))"

lemma since_simps [simp]: "since c [] = 0" "since c (xs @ ys) = since c xs + since c ys"
  "since c (x # xs) = (if c < x then Suc (since c xs) else since c xs)"
  by (simp_all add: since_def)

lemma bucket_ok_later: "bucket_ok e w now q h \<Longrightarrow> now \<le> now' \<Longrightarrow> bucket_ok e w now' q h"
  by (fastforce simp: bucket_ok_def)

lemma sorted_dropWhile: "sorted q \<Longrightarrow> dropWhile (\<lambda>a. a \<le> c) q = filter ((<) c) q"
proof (induction q)
  case (Cons a q)
  then have "c < a \<Longrightarrow> filter ((<) c) q = q" by (intro filter_True) auto
  with Cons show ?case by (cases "a \<le> c") auto
qed simp

lemma since_filter: "since c (filter ((<) c') q) = since (max c c') q"
  by (auto simp: since_def max_def intro!: arg_cong [where f = length] filter_cong)

lemma since_mono: "c \<le> c' \<Longrightarrow> since c' q \<le> since c q"
  by (induction q) auto

lemma bucket_ok_prune:
  assumes "bucket_ok e w now q h"
  shows "bucket_ok e w now (dropWhile (\<lambda>a. a \<le> now - w) q) h"
proof -
  have "since (max c (now - w)) q \<le> since c h" for c
    using assms since_mono [of c "max c (now - w)" h] unfolding bucket_ok_def
    by (meson dual_order.trans max.cobounded1)
  with assms show ?thesis
    by (auto simp: bucket_ok_def sorted_dropWhile since_filter sorted_filter [where f = id, simplified] max_absorb1)
qed

lemma bucket_ok_fail: "bucket_ok e w now q h \<Longrightarrow> bucket_ok e w now (q @ [now]) (h @ [now])"
  by (auto simp: bucket_ok_def sorted_append)

lemma bucket_ok_empty: "bucket_ok e w now [] []" and bucket_ok_evicted: "bucket_ok False w now [] h"
  by (simp_all add: bucket_ok_def)

text \<open>
  With \<open>K = Some ks\<close> only keys of \<open>ks\<close> occur and they all fit, so nothing is ever evicted.
\<close>

definition fits :: "string set option \<Rightarrow> throttle \<Rightarrow> bool" where
  "fits K t \<longleftrightarrow> (case K of None \<Rightarrow> True
     | Some ks \<Rightarrow> fst ` set (attempts_of t) \<subseteq> ks \<and> finite ks \<and> int (card ks) \<le> max_keys t)"

definition allowed :: "string set option \<Rightarrow> string list \<Rightarrow> bool" where
  "allowed K keys \<longleftrightarrow> (case K of None \<Rightarrow> True | Some ks \<Rightarrow> set keys \<subseteq> ks)"

definition tracks :: "string set option \<Rightarrow> real \<Rightarrow> throttle \<Rightarrow> (string \<Rightarrow> real list) \<Rightarrow> bool" where
  "tracks K now t h \<longleftrightarrow> well_keyed (attempts_of t) \<and> fits K t
     \<and> (\<forall>k. bucket_ok (K \<noteq> None) (of_int (window_seconds t)) now (bucket (attempts_of t) k) (h k))"

definition same_limits :: "throttle \<Rightarrow> throttle \<Rightarrow> bool" where
  "same_limits t t' \<longleftrightarrow> max_attempts t' = max_attempts t \<and> window_seconds t' = window_seconds t \<and> max_keys t' = max_keys t"

lemma tracks_prune:
  assumes "tracks K now t h" and "prune key now t = (q, t')" and "allowed K [key]"
  shows "tracks K now t' h \<and> same_limits t t' \<and> bucket (attempts_of t') key = q
    \<and> (\<forall>a\<in>set q. now - of_int (window_seconds t) < a \<and> a \<le> now)
    \<and> length q \<le> since (now - of_int (window_seconds t)) (h key)
    \<and> (K \<noteq> None \<longrightarrow> length q = since (now - of_int (window_seconds t)) (h key))"
proof -
  let ?w = "of_int (window_seconds t) :: real"
  let ?q = "bucket (attempts_of t) key"
  have ok: "bucket_ok (K \<noteq> None) ?w now ?q (h key)" using assms(1) by (simp add: tracks_def)
  have q: "q = dropWhile (\<lambda>a. a \<le> now - ?w) ?q"
    using assms(2) by (auto simp: prune_def Let_def)
  have q_filter: "q = filter ((<) (now - ?w)) ?q"
    using ok by (simp add: q sorted_dropWhile bucket_ok_def)
  have len: "length q = since (now - ?w) ?q" by (simp add: q_filter since_def)
  have t': "t' = t\<lparr>attempts_of := attempts_of t'\<rparr>"
    using assms(2) by (auto simp: prune_def Let_def)
  have b: "bucket (attempts_of t') k = (if k = key then q else bucket (attempts_of t) k)" for k
    using assms(2) by (auto simp: prune_def Let_def eq_commute [of "[]"] split: if_splits)
  have keys: "fst ` set (attempts_of t') = insert key (fst ` set (attempts_of t))"
  proof -
    have "fst ` set (attempts_of (snd (prune key now t))) = insert key (fst ` set (attempts_of t))"
      by (simp add: prune_def Let_def keys_simps)
    with assms(2) show ?thesis by simp
  qed
  have keyed: "well_keyed (attempts_of t')"
    using assms(1,2) by (auto simp: prune_def Let_def tracks_def intro!: keyed_intros split: if_splits)
  have limits: "same_limits t t'" by (subst t') (simp add: same_limits_def)
  have "fits K t'"
    using assms(1,3) keys limits by (auto simp: tracks_def fits_def allowed_def same_limits_def split: option.splits)
  moreover have "bucket_ok (K \<noteq> None) ?w now (bucket (attempts_of t') k) (h k)" for k
    using assms(1) bucket_ok_prune [OF ok] by (simp add: b q tracks_def)
  ultimately have "tracks K now t' h"
    using keyed limits by (simp add: tracks_def same_limits_def)
  moreover have "\<forall>a\<in>set q. now - ?w < a \<and> a \<le> now"
    using ok by (auto simp: q_filter bucket_ok_def)
  ultimately show ?thesis
    using limits b len ok by (simp add: bucket_ok_def)
qed


lemma same_limits_trans: "same_limits t t' \<Longrightarrow> same_limits t' t'' \<Longrightarrow> same_limits t t''"
  and same_limits_refl: "same_limits t t"
  by (simp_all add: same_limits_def)

lemma bucket_drop:
  assumes "well_keyed od"
  shows "bucket (drop n od) k = bucket od k \<or> bucket (drop n od) k = []"
proof (cases "has_key k (drop n od)")
  case True
  have "distinct (map fst (take n od) @ map fst (drop n od))"
    using assms unfolding well_keyed_def map_append [symmetric] append_take_drop_id .
  with True have "map_of (take n od) k = None"
    by (auto simp: has_key_def map_of_eq_None_iff)
  moreover have "map_of od k = (map_of (drop n od) ++ map_of (take n od)) k"
    by (metis append_take_drop_id map_of_append)
  ultimately show ?thesis by (simp add: bucket_def map_add_def)
next
  case False
  then show ?thesis by (simp add: bucket_def has_key_map_of)
qed

lemma tracks_trim:
  assumes "tracks K now t h"
  shows "tracks K now (trim t) h \<and> same_limits t (trim t)"
proof (cases K)
  case None
  have "bucket_ok False w now (bucket (drop n (attempts_of t)) k) (h k)"
    if "bucket_ok False w now (bucket (attempts_of t) k) (h k)" "well_keyed (attempts_of t)" for w n k
    using bucket_drop [OF that(2), of n k] that(1) by (auto simp: bucket_ok_evicted)
  moreover have "well_keyed (drop n od)" if "well_keyed od" for n od
    using that by (simp add: well_keyed_def distinct_drop flip: drop_map)
  ultimately show ?thesis
    using assms None by (auto simp: tracks_def trim_def fits_def same_limits_def)
next
  case (Some ks)
  have "length (attempts_of t) = card (fst ` set (attempts_of t))"
    using assms by (simp add: tracks_def length_keys)
  also have "\<dots> \<le> card ks"
    using assms Some by (auto simp: tracks_def fits_def intro: card_mono)
  finally have "length (attempts_of t) - nat (max_keys t) = 0"
    using assms Some by (auto simp: tracks_def fits_def)
  then have "trim t = t" by (simp add: trim_def)
  with assms show ?thesis by (simp add: same_limits_refl)
qed

lemma allowed_Cons: "allowed K (k # ks) \<longleftrightarrow> allowed K [k] \<and> allowed K ks"
  by (auto simp: allowed_def split: option.splits)

text \<open>A check blocks for a key when its history holds enough failures in the window.\<close>

definition over_limit :: "real \<Rightarrow> string list \<Rightarrow> throttle \<Rightarrow> (string \<Rightarrow> real list) \<Rightarrow> bool" where
  "over_limit now keys t h \<longleftrightarrow>
    (\<exists>k\<in>set keys. max_attempts t \<le> int (since (now - of_int (window_seconds t)) (h k)))"

lemma retry_bounds:
  fixes a now :: real
  assumes "now - of_int w < a" and "a \<le> now" and "1 \<le> w"
  shows "1 \<le> max 1 (py_int (a + of_int w - now)) \<and> max 1 (py_int (a + of_int w - now)) \<le> w"
proof -
  have "\<lfloor>a + of_int w - now\<rfloor> \<le> w" using assms(2) by linarith
  with assms show ?thesis by (auto simp: py_int_def)
qed

lemma check_loop_tracks:
  assumes "check_loop now keys r t = (r', t')" and "tracks K now t h" and "allowed K keys"
    and "1 \<le> window_seconds t" and "1 \<le> max_attempts t"
  shows "tracks K now t' h \<and> same_limits t t' \<and> r \<le> r' \<and> (r < r' \<longrightarrow> 1 \<le> r' \<and> r' \<le> window_seconds t)
    \<and> (r \<noteq> r' \<longrightarrow> over_limit now keys t h) \<and> (K \<noteq> None \<longrightarrow> over_limit now keys t h \<longrightarrow> 1 \<le> r')"
  using assms
proof (induction keys arbitrary: r t)
  case Nil
  then show ?case by (auto simp: same_limits_def over_limit_def)
next
  case (Cons key keys)
  obtain q t1 where p: "prune key now t = (q, t1)" by fastforce
  have key: "allowed K [key]" "allowed K keys" using Cons.prems(3) allowed_Cons by blast+
  note pr = tracks_prune [OF Cons.prems(2) p key(1)]
  let ?r = "if int (length q) \<ge> max_attempts t1
     then max r (max 1 (py_int (hd q + of_int (window_seconds t1) - now))) else r"
  have l: "same_limits t t1" using pr by blast
  have run: "check_loop now keys ?r t1 = (r', t')" using Cons.prems(1) p by simp
  have "tracks K now t1 h" "1 \<le> window_seconds t1" "1 \<le> max_attempts t1"
    using pr Cons.prems(4,5) by (auto simp: same_limits_def)
  note IH = Cons.IH [OF run this(1) key(2) this(2,3)]
  have bounds: "1 \<le> max 1 (py_int (hd q + of_int (window_seconds t1) - now))
      \<and> max 1 (py_int (hd q + of_int (window_seconds t1) - now)) \<le> window_seconds t"
    if "int (length q) \<ge> max_attempts t1"
  proof -
    have "q \<noteq> []" using that Cons.prems(5) l by (auto simp: same_limits_def)
    then have "hd q \<in> set q" by simp
    then have "now - of_int (window_seconds t) < hd q" "hd q \<le> now" using pr by auto
    from retry_bounds [OF this Cons.prems(4)] show ?thesis using l by (simp add: same_limits_def)
  qed
  have over: "over_limit now (key # keys) t h \<longleftrightarrow>
      max_attempts t \<le> int (since (now - of_int (window_seconds t)) (h key)) \<or> over_limit now keys t1 h"
    using l by (auto simp: over_limit_def same_limits_def)
  have hit: "int (length q) \<ge> max_attempts t1 \<Longrightarrow> over_limit now (key # keys) t h"
    using pr l by (auto simp: over same_limits_def)
  have hit': "K \<noteq> None \<Longrightarrow> int (length q) < max_attempts t1 \<Longrightarrow>
      over_limit now (key # keys) t h \<Longrightarrow> over_limit now keys t1 h"
    using pr l by (auto simp: over same_limits_def)
  show ?case
  proof (cases "int (length q) \<ge> max_attempts t1")
    case True
    with IH bounds [OF True] hit [OF True] l Cons.prems(4)
    show ?thesis by (auto simp: same_limits_def max_def split: if_splits)
  next
    case False
    with IH hit' l show ?thesis by (auto simp: over same_limits_def)
  qed
qed

lemma record_loop_tracks:
  assumes "tracks K now t h" and "allowed K keys"
  shows "tracks K now (record_loop now keys t) (fold (\<lambda>k h. h(k := h k @ [now])) keys h)
    \<and> same_limits t (record_loop now keys t)"
  using assms
proof (induction keys arbitrary: t h)
  case Nil
  then show ?case by (simp add: same_limits_refl)
next
  case (Cons key keys)
  obtain q t1 where p: "prune key now t = (q, t1)" by fastforce
  have key: "allowed K [key]" "allowed K keys" using Cons.prems(2) allowed_Cons by blast+
  note pr = tracks_prune [OF Cons.prems(1) p key(1)]
  let ?t = "t1\<lparr>attempts_of := move_to_end key (put key (q @ [now]) (attempts_of t1))\<rparr>"
  have "fits K ?t"
    using pr key(1) by (auto simp: tracks_def fits_def allowed_def keys_simps split: option.splits)
  moreover have "well_keyed (attempts_of ?t)"
    using pr by (auto simp: tracks_def intro!: keyed_intros)
  moreover have "bucket_ok (K \<noteq> None) (of_int (window_seconds ?t)) now (bucket (attempts_of ?t) k)
      ((h(key := h key @ [now])) k)" for k
    using pr by (auto simp: tracks_def intro!: bucket_ok_fail)
  ultimately have tr: "tracks K now ?t (h(key := h key @ [now]))"
    by (simp add: tracks_def)
  have l: "same_limits t ?t" using pr by (simp add: same_limits_def)
  from Cons.IH [OF tr key(2)] show ?case
    using same_limits_trans [OF l] by (simp add: p)
qed

lemma clear_tracks:
  assumes "tracks K now t h"
  shows "tracks K now (clear keys t) (fold (\<lambda>k h. h(k := [])) keys h) \<and> same_limits t (clear keys t)"
  using assms
proof (induction keys arbitrary: t h)
  case Nil
  then show ?case by (simp add: clear_def same_limits_def)
next
  case (Cons key keys)
  let ?t = "t\<lparr>attempts_of := pop_key key (attempts_of t)\<rparr>"
  have "fits K ?t"
    using Cons.prems by (auto simp: tracks_def fits_def keys_simps split: option.splits)
  moreover have "well_keyed (attempts_of ?t)"
    using Cons.prems by (auto simp: tracks_def intro!: keyed_intros)
  moreover have "bucket_ok (K \<noteq> None) (of_int (window_seconds ?t)) now (bucket (attempts_of ?t) k)
      ((h(key := [])) k)" for k
    using Cons.prems by (auto simp: tracks_def bucket_ok_empty)
  ultimately have "tracks K now ?t (h(key := []))"
    by (simp add: tracks_def)
  from Cons.IH [OF this] show ?case by (simp add: clear_def same_limits_def)
qed


lemma check_tracks:
  assumes "tracks K now t h" and "allowed K keys" and "1 \<le> window_seconds t" and "1 \<le> max_attempts t"
  shows "tracks K now (snd (check now keys t)) h \<and> same_limits t (snd (check now keys t))
    \<and> (decision_blocked (fst (check now keys t)) \<longrightarrow> over_limit now keys t h
        \<and> 1 \<le> decision_retry_after (fst (check now keys t))
        \<and> decision_retry_after (fst (check now keys t)) \<le> window_seconds t)
    \<and> (K \<noteq> None \<longrightarrow> over_limit now keys t h \<longrightarrow> decision_blocked (fst (check now keys t)))"
proof -
  obtain r t1 where r: "check_loop now keys 0 t = (r, t1)" by fastforce
  note L = check_loop_tracks [OF r assms]
  then have "tracks K now (trim t1) h" "same_limits t (trim t1)"
    using tracks_trim [of K now t1 h] same_limits_trans by blast+
  with L show ?thesis by (auto simp: check_def r)
qed

lemma step_tracks:
  assumes "tracks K now t h" and "now \<le> fst e" and "allowed K (event_keys (snd e))"
    and "1 \<le> window_seconds t" and "1 \<le> max_attempts t"
  shows "tracks K (fst e) (throttle_step e t) (history_step e h) \<and> same_limits t (throttle_step e t)"
proof -
  obtain tm ev where e: "e = (tm, ev)" by (cases e)
  have later: "tracks K tm t h"
    using assms(1,2) bucket_ok_later by (fastforce simp: tracks_def e)
  show ?thesis
  proof (cases ev)
    case (Check keys)
    with check_tracks [OF later, of keys] assms(3-5) show ?thesis by (simp add: e)
  next
    case (Fail keys)
    with record_loop_tracks [OF later, of keys] assms(3) tracks_trim same_limits_trans show ?thesis
      unfolding e by (simp add: record_failure_def) blast
  next
    case (Forget keys)
    with clear_tracks [OF later, of keys] show ?thesis by (simp add: e)
  qed
qed

lemma run_tracks:
  assumes "tracks K now t h" and "sorted (now # map fst es)"
    and "\<forall>e\<in>set es. allowed K (event_keys (snd e))" and "1 \<le> window_seconds t" and "1 \<le> max_attempts t"
  shows "tracks K (last (now # map fst es)) (fold throttle_step es t) (fold history_step es h)
    \<and> same_limits t (fold throttle_step es t)"
  using assms
proof (induction es arbitrary: now t h)
  case Nil
  then show ?case by (simp add: same_limits_refl)
next
  case (Cons e es)
  have st: "tracks K (fst e) (throttle_step e t) (history_step e h)" "same_limits t (throttle_step e t)"
    using step_tracks [of K now t h e] Cons.prems by auto
  have "sorted (fst e # map fst es)" using Cons.prems(2) by simp
  note IH = Cons.IH [OF st(1) this]
  have "1 \<le> window_seconds (throttle_step e t)" "1 \<le> max_attempts (throttle_step e t)"
    using Cons.prems(4,5) st(2) by (simp_all add: same_limits_def)
  from IH [OF _ this] Cons.prems(3) st(2) show ?case
    by (auto intro: same_limits_trans)
qed

lemma new_throttle_tracks:
  assumes "case K of None \<Rightarrow> True | Some ks \<Rightarrow> finite ks \<and> int (card ks) \<le> max 1 keys"
  shows "tracks K now (new_throttle m w keys) (\<lambda>_. [])"
  using assms by (auto simp: tracks_def new_throttle_def well_keyed_def fits_def bucket_def bucket_ok_empty split: option.splits)

section \<open>What the throttle promises\<close>

text \<open>
  C15. The counter implements the sliding window: after any history of checks, failures and clears at
  times that do not go back, a check blocks only when some key really has at least the configured number
  of failures in the window since it was last cleared, and then asks the caller to wait between one second
  and the window; and as long as the keys in use fit the configured bound, it blocks whenever one has.
\<close>

theorem throttle_implements_sliding_window:
  assumes "sorted (map fst es)" and "\<forall>e\<in>set es. fst e \<le> now"
  shows "let t = fold throttle_step es (new_throttle m w k);
             h = fold history_step es (\<lambda>_. []);
             d = fst (check now keys t);
             over = (\<exists>key\<in>set keys. max 1 m \<le> int (since (now - of_int (max 1 w)) (h key)))
    in (decision_blocked d \<longrightarrow> over \<and> 1 \<le> decision_retry_after d \<and> decision_retry_after d \<le> max 1 w)
     \<and> (int (card (set keys \<union> (\<Union>e\<in>set es. set (event_keys (snd e))))) \<le> max 1 k \<longrightarrow> over \<longrightarrow> decision_blocked d)"
proof -
  let ?fresh = "new_throttle m w k"
  let ?t = "fold throttle_step es ?fresh" and ?h = "fold history_step es (\<lambda>_. [])"
  let ?ks = "set keys \<union> (\<Union>e\<in>set es. set (event_keys (snd e)))"
  define start where "start = (if es = [] then now else fst (hd es))"
  have sorted: "sorted (start # map fst es)"
    using assms(1) by (cases es) (auto simp: start_def)
  have last: "last (start # map fst es) \<le> now"
    using assms(2) by (auto simp: start_def last_map)
  have limits0: "1 \<le> window_seconds ?fresh" "1 \<le> max_attempts ?fresh" by (simp_all add: new_throttle_def)
  have main: "tracks K now ?t ?h \<and> same_limits ?fresh ?t"
    if "tracks K start ?fresh (\<lambda>_. [])" "\<forall>e\<in>set es. allowed K (event_keys (snd e))" for K
  proof -
    from run_tracks [OF that(1) sorted that(2) limits0]
    have "tracks K (last (start # map fst es)) ?t ?h" "same_limits ?fresh ?t" by auto
    with last bucket_ok_later show ?thesis unfolding tracks_def by blast
  qed
  have none: "tracks None now ?t ?h \<and> same_limits ?fresh ?t"
    by (rule main) (simp_all add: new_throttle_tracks allowed_def)
  then have "same_limits ?fresh ?t" by (rule conjunct2)
  with limits0 have limits: "1 \<le> window_seconds ?t" "1 \<le> max_attempts ?t"
    unfolding same_limits_def by (simp_all only:)
  have over: "over_limit now keys ?t ?h \<longleftrightarrow>
      (\<exists>key\<in>set keys. max 1 m \<le> int (since (now - of_int (max 1 w)) (?h key)))"
    using none by (simp add: over_limit_def same_limits_def new_throttle_def)
  have A: "decision_blocked (fst (check now keys ?t)) \<longrightarrow> over_limit now keys ?t ?h
      \<and> 1 \<le> decision_retry_after (fst (check now keys ?t)) \<and> decision_retry_after (fst (check now keys ?t)) \<le> max 1 w"
    using check_tracks [of None now ?t ?h keys] none limits
    by (auto simp: allowed_def same_limits_def new_throttle_def)
  have B: "decision_blocked (fst (check now keys ?t))"
    if "int (card ?ks) \<le> max 1 k" "over_limit now keys ?t ?h"
  proof -
    have "tracks (Some ?ks) now ?t ?h"
      using main [of "Some ?ks"] that(1) by (auto simp: new_throttle_tracks allowed_def)
    from check_tracks [OF this _ limits, of keys] that(2) show ?thesis by (simp add: allowed_def)
  qed
  from A B show ?thesis unfolding Let_def over by blast
qed

theorem throttle_implements_sliding_window_witness:
  "let t = fold throttle_step [(1, Fail [''a'']), (2, Check [''a'']), (3, Fail [''a''])] (new_throttle 2 60 10)
   in decision_blocked (fst (check 10 [''a''] t)) \<and> decision_retry_after (fst (check 10 [''a''] t)) \<le> 60"
  using throttle_implements_sliding_window
    [of "[(1, Fail [''a'']), (2, Check [''a'']), (3, Fail [''a''])]" 10 2 60 10 "[''a'']"]
  by (simp add: Let_def)

text \<open>The store never holds more keys than the bound, whatever is submitted.\<close>

lemma trim_bounded: "int (length (attempts_of (trim t))) \<le> max 1 (max_keys t)"
  by (simp add: trim_def)

lemma pop_bounded: "length (fold pop_key keys od) \<le> length od"
proof (induction keys arbitrary: od)
  case (Cons k keys)
  have "length (pop_key k od) \<le> length od" by (simp add: pop_key_def)
  with Cons [of "pop_key k od"] show ?case by simp
qed simp

interpretation bounded_store: stepwise throttle_step
  "\<lambda>t. max_keys t = max 1 k \<and> int (length (attempts_of t)) \<le> max 1 k" for k
proof
  fix t :: throttle and e :: "real \<times> throttle_event"
  assume inv: "max_keys t = max 1 k \<and> int (length (attempts_of t)) \<le> max 1 k"
  have P: "max_keys (snd (prune key now t)) = max_keys t" for key now t
    by (simp add: prune_def Let_def)
  have C: "max_keys (snd (check_loop now keys r t)) = max_keys t" for now keys r t
    by (induction keys arbitrary: r t) (simp_all add: case_prod_unfold P)
  have R: "max_keys (record_loop now keys t) = max_keys t" for now keys t
    by (induction keys arbitrary: t) (simp_all add: case_prod_unfold P)
  obtain now ev where e: "e = (now, ev)" by (cases e)
  show "max_keys (throttle_step e t) = max 1 k \<and> int (length (attempts_of (throttle_step e t))) \<le> max 1 k"
  proof (cases ev)
    case (Check keys)
    with inv trim_bounded [of "snd (check_loop now keys 0 t)"] show ?thesis
      by (simp add: e check_def case_prod_unfold trim_def C)
  next
    case (Fail keys)
    with inv trim_bounded [of "record_loop now keys t"] show ?thesis
      by (simp add: e record_failure_def trim_def R)
  next
    case (Forget keys)
    with inv pop_bounded [of keys "attempts_of t"] show ?thesis
      by (simp add: e clear_def)
  qed
qed

text \<open>
  Memory is bounded: whatever addresses are submitted, in whatever order and at whatever times, the
  store never holds more than the configured number of keys after an operation.
\<close>

lemma throttle_store_bounded:
  "int (length (attempts_of (fold throttle_step es (new_throttle m w k)))) \<le> max 1 k"
  using bounded_store.run_inv [of "new_throttle m w k" k es] by (simp add: new_throttle_def)

end
