(* ===== verification/Login.thy ===== *)
theory Login
  imports Authz Login_Throttle
begin

text \<open>
  The sign-in and sign-out pages, \<open>web/routes/auth.py\<close>: the throttle, the authentication service, the
  server-side session and the cookie, in the order the routes use them. The application state a request
  can change is \<open>site\<close>: the throttle of the process, the database connection and the visitor's cookie.
  What the request brings and what is not under the model (the clocks, the id PostgreSQL generates, the
  password hasher, SHA-256, \<open>str.strip\<close> and \<open>casefold\<close>) is in the two records below it.
\<close>

record site =
  site_throttle :: throttle
  site_db :: "auth_db session"
  site_cookie :: cookie

record sign_in_form =
  form_email :: string
  form_password :: string
  form_next :: "string option"
  form_remote_addr :: "string option"

record platform =
  pf_strip :: "string \<Rightarrow> string"
  pf_casefold :: "string \<Rightarrow> string"
  pf_lower :: "string \<Rightarrow> string"
  pf_sha256 :: "string \<Rightarrow> string"
  pf_verify :: "string \<Rightarrow> string \<Rightarrow> verdict"
  pf_dummy_hash :: string
  pf_urlsplit :: "string \<Rightarrow> string \<times> string \<times> string"
  pf_show_uuid :: "nat \<Rightarrow> string"
  pf_parse_uuid :: "string \<Rightarrow> nat option"

datatype response =
    LoginForm "string option"
  | TooManyAttempts int
  | InvalidCredentials
  | RedirectTo string
  | ServerError

definition throttle_keys :: "platform \<Rightarrow> string \<Rightarrow> string option \<Rightarrow> string list" where
  "throttle_keys pf email remote_addr =
    (case account_key (pf_strip pf) (pf_casefold pf) (pf_sha256 pf) email of
       None \<Rightarrow> [client_key remote_addr]
     | Some account \<Rightarrow> [account, client_key remote_addr])"

text \<open>
  The two readings of the monotonic clock (\<open>check\<close> and \<open>record_failure\<close>), the time and id of the new
  session. \<open>url_for\<close> of the home page is \<open>''/''\<close>.
\<close>

definition login_get :: "platform \<Rightarrow> string option \<Rightarrow> response" where
  "login_get pf nxt = LoginForm (safe_next (pf_urlsplit pf) nxt)"

definition login :: "platform \<Rightarrow> real \<Rightarrow> real \<Rightarrow> int \<Rightarrow> nat \<Rightarrow> sign_in_form \<Rightarrow> site \<Rightarrow> response \<times> site" where
  "login pf clock1 clock2 now new_sid form s =
    (let destination = safe_next (pf_urlsplit pf) (form_next form);
         email = pf_strip pf (form_email form);
         keys = throttle_keys pf email (form_remote_addr form)
     in case check clock1 keys (site_throttle s) of (decision, t) \<Rightarrow>
       if decision_blocked decision
       then (TooManyAttempts (decision_retry_after decision), s\<lparr>site_throttle := t\<rparr>)
       else case authenticate (pf_lower pf) (pf_verify pf) (pf_dummy_hash pf) (working (site_db s)) email (form_password form) of
         None \<Rightarrow> (InvalidCredentials, s\<lparr>site_throttle := record_failure clock2 keys t\<rparr>)
       | Some (user, role_code) \<Rightarrow>
           (let t = (case account_key (pf_strip pf) (pf_casefold pf) (pf_sha256 pf) email of
                       None \<Rightarrow> t
                     | Some account \<Rightarrow> clear [account] t)
            in case start_session now new_sid (user_id user) False (site_db s) of
                 (Inl e, db) \<Rightarrow> (ServerError, \<lparr>site_throttle = t, site_db = db, site_cookie = cleared\<rparr>)
               | (Inr sid, db) \<Rightarrow>
                   (RedirectTo (case destination of None \<Rightarrow> ''/'' | Some d \<Rightarrow> d),
                    \<lparr>site_throttle = t, site_db = db,
                     site_cookie = \<lparr>cookie_sid = Some (pf_show_uuid pf sid), cookie_user_id = Some (user_id user),
                        cookie_role_id = Some (user_role_id user), cookie_role_code = Some role_code,
                        cookie_name = Some (user_name user)\<rparr>\<rparr>)))"

definition logout :: "platform \<Rightarrow> int \<Rightarrow> site \<Rightarrow> response \<times> site" where
  "logout pf now s =
    (case end_session (pf_parse_uuid pf) now (cookie_sid (site_cookie s)) False (site_db s) of
       (Inl e, db) \<Rightarrow> (ServerError, s\<lparr>site_db := db\<rparr>)
     | (Inr _, db) \<Rightarrow> (RedirectTo ''/'', s\<lparr>site_db := db, site_cookie := cleared\<rparr>))"

section \<open>Signing in\<close>

lemma open_session_Inr:
  "open_session now sid uid d = (Inr i, d') \<longleftrightarrow> i = sid \<and> find_user d uid \<noteq> None \<and> find_session d sid = None
    \<and> d' = d\<lparr>app_sessions := app_sessions d @
       [\<lparr>session_id = sid, session_user = uid, created_at = now, last_seen_at = now, revoked_at = None\<rparr>]\<rparr>"
  by (auto simp: open_session_def)

lemma find_session_new:
  assumes "open_session now sid uid d = (Inr i, d')"
  shows "find_session d' sid = Some \<lparr>session_id = sid, session_user = uid, created_at = now, last_seen_at = now, revoked_at = None\<rparr>"
    and "find_user d' = find_user d" and "role_codes d' = role_codes d"
proof -
  have "find P xs = None \<Longrightarrow> find P (xs @ ys) = find P ys" for P and xs ys :: "app_session list"
    by (induction xs) (auto split: if_splits)
  with assms show "find_session d' sid = Some \<lparr>session_id = sid, session_user = uid, created_at = now, last_seen_at = now, revoked_at = None\<rparr>"
    by (auto simp: open_session_Inr find_session_def)
  show "find_user d' = find_user d" "role_codes d' = role_codes d"
    using assms by (auto simp: open_session_Inr find_user_def)
qed

lemma authenticate_Some:
  assumes "authenticate lower verify dummy d email plain = Some (u, code)"
  shows "get_user_by_email lower d email = Some (u, code) \<and> user_is_active u
      \<and> verify (user_password_hash u) plain = Verified"
  using assms by (auto simp: authenticate_def Let_def split: option.splits verdict.splits if_splits)

lemma login_redirect_cases:
  assumes "login pf clock1 clock2 now sid form s = (RedirectTo t, s')"
  obtains u code d' where
    "authenticate (pf_lower pf) (pf_verify pf) (pf_dummy_hash pf) (working (site_db s))
        (pf_strip pf (form_email form)) (form_password form) = Some (u, code)"
    "\<not> decision_blocked (fst (check clock1
        (throttle_keys pf (pf_strip pf (form_email form)) (form_remote_addr form)) (site_throttle s)))"
    "start_session now sid (user_id u) False (site_db s) = (Inr sid, site_db s')"
    "site_cookie s' = \<lparr>cookie_sid = Some (pf_show_uuid pf sid), cookie_user_id = Some (user_id u),
        cookie_role_id = Some (user_role_id u), cookie_role_code = Some code, cookie_name = Some (user_name u)\<rparr>"
proof -
  from assms have "\<exists>u code j. authenticate (pf_lower pf) (pf_verify pf) (pf_dummy_hash pf) (working (site_db s))
        (pf_strip pf (form_email form)) (form_password form) = Some (u, code)
      \<and> \<not> decision_blocked (fst (check clock1
        (throttle_keys pf (pf_strip pf (form_email form)) (form_remote_addr form)) (site_throttle s)))
      \<and> start_session now sid (user_id u) False (site_db s) = (Inr j, site_db s')
      \<and> site_cookie s' = \<lparr>cookie_sid = Some (pf_show_uuid pf j), cookie_user_id = Some (user_id u),
        cookie_role_id = Some (user_role_id u), cookie_role_code = Some code, cookie_name = Some (user_name u)\<rparr>"
    by (auto simp: login_def Let_def split: prod.splits if_splits option.splits sum.splits)
  moreover have "start_session now sid i False (site_db s) = (Inr j, db) \<Longrightarrow> j = sid" for i j db
    by (auto simp: start_session_def atomic_def statements_def open_session_def split: prod.splits sum.splits if_splits)
  ultimately show thesis using that by metis
qed

text \<open>
  Sign-in and the gate agree: after a sign-in that was answered with a redirect, the throttle had let
  it through, the account exists, is active and the password is its own; and the next request that
  carries the cookie, within both limits, resolves to that user with the role the database holds.
\<close>

lemma login_opens_a_session_that_resolves:
  assumes "login pf clock1 clock2 now sid form s = (RedirectTo t, s')"
    and "site_db s = at_rest d"
    and "\<forall>u\<in>set (app_users d). find_user d (user_id u) = Some u"
    and "pf_parse_uuid pf (pf_show_uuid pf sid) = Some sid" and "pf_show_uuid pf sid \<noteq> []"
    and "now \<le> later" and "later < now + seconds idle" and "later < now + seconds absolute"
  shows "\<exists>u code. get_user_by_email (pf_lower pf) d (pf_strip pf (form_email form)) = Some (u, code)
    \<and> user_is_active u \<and> pf_verify pf (user_password_hash u) (form_password form) = Verified
    \<and> fst (current_principal (pf_parse_uuid pf) later idle absolute (cookie_sid (site_cookie s')) False (site_db s'))
      = Inr (Some \<lparr>principal_user = user_id u, principal_role_id = user_role_id u,
                   principal_role_code = code, principal_name = user_name u\<rparr>)"
proof -
  from assms(1) obtain u code where
    auth: "authenticate (pf_lower pf) (pf_verify pf) (pf_dummy_hash pf) d
        (pf_strip pf (form_email form)) (form_password form) = Some (u, code)"
    and start: "start_session now sid (user_id u) False (at_rest d) = (Inr sid, site_db s')"
    and cookie: "cookie_sid (site_cookie s') = Some (pf_show_uuid pf sid)"
    by (rule login_redirect_cases) (simp add: assms(2))
  note user = authenticate_Some [OF auth]
  then have u: "u \<in> set (app_users d)" "role_codes d (user_role_id u) = Some code"
    by (auto simp: get_user_by_email_def find_Some_iff split: option.splits)
  then have fu: "find_user d (user_id u) = Some u" using assms(3) by blast
  from start obtain d' where d': "open_session now sid (user_id u) d = (Inr sid, d')" "site_db s' = at_rest d'"
    by (auto simp: start_session_def atomic_statements split: prod.splits sum.splits)
  note new = find_session_new [OF d'(1)]
  have "fst (load_principal later idle absolute sid d') = Some \<lparr>principal_user = user_id u,
      principal_role_id = user_role_id u, principal_role_code = code, principal_name = user_name u\<rparr>"
    using new fu u(2) user assms(7,8)
    by (simp add: load_principal_def live_session_def principal_of_def)
  then have "fst (current_principal (pf_parse_uuid pf) later idle absolute (cookie_sid (site_cookie s')) False (site_db s'))
      = Inr (Some \<lparr>principal_user = user_id u, principal_role_id = user_role_id u,
                   principal_role_code = code, principal_name = user_name u\<rparr>)"
    using assms(4,5) by (auto simp: current_principal_def session_uuid_def cookie d'(2) atomic_statements split: prod.splits)
  with user show ?thesis by blast
qed

definition example_platform :: platform where
  "example_platform = \<lparr>pf_strip = id, pf_casefold = id, pf_lower = id, pf_sha256 = id,
     pf_verify = (\<lambda>h p. if h = p then Verified else Mismatch), pf_dummy_hash = ''-'',
     pf_urlsplit = (\<lambda>t. ([], [], t)), pf_show_uuid = (\<lambda>n. replicate (Suc n) CHR ''0''),
     pf_parse_uuid = (\<lambda>t. Some (length t - 1))\<rparr>"

definition example_site :: site where
  "example_site = \<lparr>site_throttle = new_throttle 2 60 10, site_db = at_rest example_db, site_cookie = cleared\<rparr>"

definition example_form :: sign_in_form where
  "example_form = \<lparr>form_email = ''ana@x.mx'', form_password = ''h'', form_next = Some ''/reports/'', form_remote_addr = None\<rparr>"

lemma example_check:
  "\<not> decision_blocked (fst (check 0 keys (new_throttle 2 60 10)))"
proof -
  have "tracks None 0 (new_throttle 2 60 10) (\<lambda>_. [])"
    by (simp add: new_throttle_tracks)
  moreover obtain r t1 where r: "check_loop 0 keys 0 (new_throttle 2 60 10) = (r, t1)" by fastforce
  ultimately have "0 \<le> r" "r \<noteq> 0 \<longrightarrow> over_limit 0 keys (new_throttle 2 60 10) (\<lambda>_. [])"
    using check_loop_tracks [OF r, of None "\<lambda>_. []"] by (auto simp: allowed_def new_throttle_def)
  then have "r = 0" by (auto simp: over_limit_def new_throttle_def)
  with r show ?thesis by (simp add: check_def)
qed

lemma example_login:
  "\<exists>s'. login example_platform 0 0 100 5 example_form example_site = (RedirectTo ''/reports/'', s')"
proof -
  have "fst (start_session 100 5 1 False (at_rest example_db)) = Inr 5"
    by (simp add: start_session_def atomic_statements open_session_def find_user_def find_session_def example_db_def)
  moreover have "authenticate id (\<lambda>h p. if h = p then Verified else Mismatch) ''-'' example_db ''ana@x.mx'' ''h''
      = Some (hd (app_users example_db), ''ANALYST'')"
    by (simp add: authenticate_def get_user_by_email_def example_db_def role_codes_def)
  moreover have "user_id (hd (app_users example_db)) = 1" by (simp add: example_db_def)
  ultimately show ?thesis
    by (simp add: login_def Let_def example_platform_def example_site_def example_form_def case_prod_unfold
        example_check safe_next_def split: option.split sum.split)
qed

section \<open>Guessing a password\<close>

record attempt =
  at_check :: real
  at_record :: real
  at_now :: int
  at_sid :: nat
  at_form :: sign_in_form

definition account_of :: "platform \<Rightarrow> attempt \<Rightarrow> string option" where
  "account_of pf a = account_key (pf_strip pf) (pf_casefold pf) (pf_sha256 pf) (pf_strip pf (form_email (at_form a)))"

definition keys_of :: "platform \<Rightarrow> attempt \<Rightarrow> string list" where
  "keys_of pf a = throttle_keys pf (pf_strip pf (form_email (at_form a))) (form_remote_addr (at_form a))"

fun login_run :: "platform \<Rightarrow> attempt list \<Rightarrow> site \<Rightarrow> (attempt \<times> response) list" where
  "login_run pf [] s = []"
| "login_run pf (a # attempts) s =
    (case login pf (at_check a) (at_record a) (at_now a) (at_sid a) (at_form a) s of
       (r, s') \<Rightarrow> (a, r) # login_run pf attempts s')"

definition guesses :: "platform \<Rightarrow> string \<Rightarrow> (attempt \<times> response) list \<Rightarrow> nat" where
  "guesses pf k run = length (filter (\<lambda>(a, r). account_of pf a = Some k \<and> r = InvalidCredentials) run)"

definition entered :: "platform \<Rightarrow> string \<Rightarrow> attempt \<times> response \<Rightarrow> bool" where
  "entered pf k = (\<lambda>(a, r). account_of pf a = Some k \<and> (case r of RedirectTo _ \<Rightarrow> True | ServerError \<Rightarrow> True | _ \<Rightarrow> False))"

text \<open>What one sign-in does to the throttle.\<close>

lemma login_throttle_cases:
  assumes "login pf (at_check a) (at_record a) (at_now a) (at_sid a) (at_form a) s = (r, s')"
  obtains (blocked) n where "decision_blocked (fst (check (at_check a) (keys_of pf a) (site_throttle s)))"
      "r = TooManyAttempts n" "site_throttle s' = snd (check (at_check a) (keys_of pf a) (site_throttle s))"
  | (refused) "\<not> decision_blocked (fst (check (at_check a) (keys_of pf a) (site_throttle s)))"
      "r = InvalidCredentials"
      "site_throttle s' = record_failure (at_record a) (keys_of pf a) (snd (check (at_check a) (keys_of pf a) (site_throttle s)))"
  | (let_in) "r = ServerError \<or> (\<exists>d. r = RedirectTo d)"
      "site_throttle s' = (case account_of pf a of
         None \<Rightarrow> snd (check (at_check a) (keys_of pf a) (site_throttle s))
       | Some k \<Rightarrow> clear [k] (snd (check (at_check a) (keys_of pf a) (site_throttle s))))"
  using assms
  by (auto simp: login_def Let_def account_of_def keys_of_def split: prod.splits if_splits option.splits sum.splits)

lemma keys_of_account: "set (keys_of pf a) = set_option (account_of pf a) \<union> {client_key (form_remote_addr (at_form a))}"
  by (auto simp: keys_of_def throttle_keys_def account_of_def split: option.splits)

lemma account_not_client: "account_of pf a = Some k \<Longrightarrow> k \<noteq> client_key r"
  by (auto simp: account_of_def account_key_def client_key_def Let_def split: if_splits)

lemma failure_history:
  assumes "account_of pf b = Some k"
  shows "fold (\<lambda>k h. h(k := h k @ [tm])) (keys_of pf a) h k = (if account_of pf a = Some k then h k @ [tm] else h k)"
proof (cases "account_of pf a")
  case None
  then have "keys_of pf a = [client_key (form_remote_addr (at_form a))]"
    by (simp add: keys_of_def throttle_keys_def account_of_def)
  with None account_not_client [OF assms] show ?thesis by simp
next
  case (Some k')
  then have "keys_of pf a = [k', client_key (form_remote_addr (at_form a))]"
    by (simp add: keys_of_def throttle_keys_def account_of_def)
  with Some account_not_client [OF assms] account_not_client [OF Some] show ?thesis by simp
qed

lemma recent_count:
  fixes c :: real
  assumes "\<forall>a\<in>set xs. c < a"
  shows "since c xs = length xs"
  using assms by (induction xs) auto

lemma guesses_bounded:
  assumes "tracks (Some ks) now (site_throttle s) h"
    and "sorted (now # concat (map (\<lambda>a. [at_check a, at_record a]) attempts))"
    and "\<forall>a\<in>set attempts. at_check a < start + of_int (window_seconds (site_throttle s)) \<and> set (keys_of pf a) \<subseteq> ks"
    and "\<forall>x\<in>set (h k). start \<le> x" and "start \<le> now" and "int (length (h k)) \<le> max_attempts (site_throttle s)"
    and "\<forall>x\<in>set (login_run pf attempts s). \<not> entered pf k x"
    and "account_of pf b = Some k"
    and "1 \<le> window_seconds (site_throttle s)" and "1 \<le> max_attempts (site_throttle s)"
  shows "int (length (h k)) + int (guesses pf k (login_run pf attempts s)) \<le> max_attempts (site_throttle s)"
  using assms(1-7,9-)
proof (induction attempts arbitrary: now s h)
  case Nil
  then show ?case by (simp add: guesses_def)
next
  case (Cons a attempts)
  obtain r s' where login: "login pf (at_check a) (at_record a) (at_now a) (at_sid a) (at_form a) s = (r, s')"
    by fastforce
  let ?t = "site_throttle s" and ?keys = "keys_of pf a"
  have times: "now \<le> at_check a" "at_check a \<le> at_record a"
    "sorted (at_record a # concat (map (\<lambda>a. [at_check a, at_record a]) attempts))"
    "sorted (at_check a # concat (map (\<lambda>a. [at_check a, at_record a]) attempts))"
    using Cons.prems(2) by auto
  have al: "allowed (Some ks) ?keys" using Cons.prems(3) by (simp add: allowed_def)
  have tr: "tracks (Some ks) (at_check a) ?t h"
    using Cons.prems(1) times(1) bucket_ok_later by (fastforce simp: tracks_def)
  note c = check_tracks [OF tr al Cons.prems(8,9)]
  let ?t1 = "snd (check (at_check a) ?keys ?t)"
  have tr1: "tracks (Some ks) (at_check a) ?t1 h" and l1: "same_limits ?t ?t1"
    using c by auto
  have IH: "int (length (h' k)) + int (guesses pf k (login_run pf attempts s')) \<le> max_attempts ?t"
    if "tracks (Some ks) tm (site_throttle s') h'" "same_limits ?t (site_throttle s')"
      "tm = at_check a \<or> tm = at_record a" "\<forall>x\<in>set (h' k). start \<le> x" "int (length (h' k)) \<le> max_attempts ?t" for tm h'
  proof -
    have "sorted (tm # concat (map (\<lambda>a. [at_check a, at_record a]) attempts))" "start \<le> tm"
      using times that(3) Cons.prems(5) by auto
    moreover have "\<forall>x\<in>set (login_run pf attempts s'). \<not> entered pf k x"
      using Cons.prems(7) by (simp add: login)
    ultimately show ?thesis
      using Cons.IH [of tm s' h'] that Cons.prems(3,8,9) by (simp add: same_limits_def)
  qed
  from login show ?case
  proof (cases rule: login_throttle_cases)
    case blocked
    have "int (length (h k)) + int (guesses pf k (login_run pf attempts s')) \<le> max_attempts ?t"
      by (rule IH [of "at_check a"]) (use blocked tr1 l1 Cons.prems in auto)
    then show ?thesis by (simp add: login blocked guesses_def)
  next
    case refused
    define H where "H = fold (\<lambda>k h. h(k := h k @ [at_record a])) ?keys h"
    have Hk: "H k = (if account_of pf a = Some k then h k @ [at_record a] else h k)"
      unfolding H_def by (rule failure_history [OF assms(8)])
    have "tracks (Some ks) (at_record a) ?t1 h"
      using tr1 times(2) bucket_ok_later by (fastforce simp: tracks_def)
    from record_loop_tracks [OF this al]
    have "tracks (Some ks) (at_record a) (record_loop (at_record a) ?keys ?t1) H"
      "same_limits ?t1 (record_loop (at_record a) ?keys ?t1)" unfolding H_def by auto
    then have "tracks (Some ks) (at_record a) (site_throttle s') H" "same_limits ?t (site_throttle s')"
      using tracks_trim same_limits_trans l1 unfolding refused record_failure_def by blast+
    moreover have "int (length (h k)) < max_attempts ?t" if "account_of pf a = Some k"
    proof -
      have "\<forall>x\<in>set (h k). at_check a - of_int (window_seconds ?t) < x"
        using Cons.prems(3,4) by force
      then have "since (at_check a - of_int (window_seconds ?t)) (h k) = length (h k)" by (rule recent_count)
      moreover have "\<not> over_limit (at_check a) ?keys ?t h" using c refused(1) by blast
      ultimately show ?thesis using that by (auto simp: over_limit_def keys_of_account not_le)
    qed
    ultimately have "int (length (H k)) + int (guesses pf k (login_run pf attempts s')) \<le> max_attempts ?t"
      using Cons.prems(4,5,6) times by (intro IH [of "at_record a"]) (auto simp: Hk)
    then show ?thesis by (auto simp: login refused guesses_def Hk)
  next
    case let_in
    have other: "account_of pf a \<noteq> Some k"
      using Cons.prems(7) let_in(1) by (auto simp: login entered_def)
    let ?h = "case account_of pf a of None \<Rightarrow> h | Some k' \<Rightarrow> h(k' := [])"
    have "tracks (Some ks) (at_check a) (site_throttle s') ?h \<and> same_limits ?t (site_throttle s')"
      using tr1 l1 clear_tracks [OF tr1, of "[k']" for k'] same_limits_trans [OF l1]
      by (auto simp: let_in split: option.splits)
    moreover have "?h k = h k" using other by (auto split: option.splits)
    ultimately have "int (length (?h k)) + int (guesses pf k (login_run pf attempts s')) \<le> max_attempts ?t"
      using Cons.prems(4,6) by (intro IH [of "at_check a"]) auto
    with \<open>?h k = h k\<close> other show ?thesis by (simp add: login guesses_def)
  qed
qed

text \<open>
  C19. Brute force is bounded, in one process that handles its sign-ins one after another: starting from an empty throttle,
  within one window, the passwords tried against one account that are answered as wrong are at most the configured number of
  attempts, from however many addresses they come and whatever happens to other accounts in between, provided that the
  account itself does not sign in meanwhile, which clears its counter, and that the attempts have no more keys than the
  table keeps. Every further try is refused without looking at the password. A deployment of several processes, as the two
  workers of gunicorn, has one throttle in each, so the bound is per process.
\<close>

theorem brute_force_bounded:
  assumes "site_throttle s = new_throttle m w n"
    and "sorted (concat (map (\<lambda>a. [at_check a, at_record a]) attempts))"
    and "\<forall>a\<in>set attempts. start \<le> at_check a \<and> at_check a < start + of_int (max 1 w)"
    and "int (card (\<Union>a\<in>set attempts. set (keys_of pf a))) \<le> max 1 n"
    and "\<forall>x\<in>set (login_run pf attempts s). \<not> entered pf k x"
  shows "int (guesses pf k (login_run pf attempts s)) \<le> max 1 m"
proof (cases "\<exists>a\<in>set attempts. account_of pf a = Some k")
  case True
  then obtain b where b: "account_of pf b = Some k" "b \<in> set attempts" by blast
  have "sorted (start # concat (map (\<lambda>a. [at_check a, at_record a]) attempts))"
    using assms(2,3) by (cases attempts) auto
  moreover have "tracks (Some (\<Union>a\<in>set attempts. set (keys_of pf a))) start (site_throttle s) (\<lambda>_. [])"
    using assms(1,4) by (simp add: new_throttle_tracks)
  ultimately have "int (length ((\<lambda>_. [] :: real list) k)) + int (guesses pf k (login_run pf attempts s)) \<le> max_attempts (site_throttle s)"
    by (intro guesses_bounded [OF _ _ _ _ _ _ _ b(1), where start = start]) (use assms in \<open>auto simp: new_throttle_def\<close>)
  then show ?thesis by (simp add: assms(1) new_throttle_def)
next
  case False
  have "guesses pf k (login_run pf attempts s) = 0" if "\<forall>a\<in>set attempts. account_of pf a \<noteq> Some k"
    using that by (induction attempts arbitrary: s) (auto simp: guesses_def split: prod.split)
  with False show ?thesis by simp
qed

definition example_attempt :: "real \<Rightarrow> attempt" where
  "example_attempt tm = \<lparr>at_check = tm, at_record = tm, at_now = 0, at_sid = 7,
     at_form = example_form\<lparr>form_password := ''guess''\<rparr>\<rparr>"

theorem brute_force_bounded_witness:
  "int (guesses example_platform ''account:ana@x.mx''
      (login_run example_platform [example_attempt 1, example_attempt 2, example_attempt 3] example_site)) \<le> 2"
proof -
  let ?run = "[example_attempt 1, example_attempt 2, example_attempt 3]"
  have "authenticate id (\<lambda>h p. if h = p then Verified else Mismatch) ''-'' example_db ''ana@x.mx'' ''guess'' = None"
    by (simp add: authenticate_def get_user_by_email_def example_db_def role_codes_def)
  then have step: "fst (login example_platform t t 0 7 (at_form (example_attempt t)) s) \<in> {InvalidCredentials} \<union> range TooManyAttempts
      \<and> site_db (snd (login example_platform t t 0 7 (at_form (example_attempt t)) s)) = at_rest example_db"
    if "site_db s = at_rest example_db" for s t
    using that by (simp add: login_def Let_def example_attempt_def example_form_def example_platform_def split: prod.split)
  have "\<forall>x\<in>set (login_run example_platform (map example_attempt ts) s). \<not> entered example_platform k x"
    if "site_db s = at_rest example_db" for ts s k
    using that
  proof (induction ts arbitrary: s)
    case (Cons t ts)
    obtain r s' where run: "login example_platform t t 0 7 (at_form (example_attempt t)) s = (r, s')" by fastforce
    with step [OF Cons.prems, of t] Cons.IH [of s'] show ?case
      by (auto simp: entered_def example_attempt_def [of t])
  qed simp
  from this [of example_site "[1, 2, 3]"]
  have quiet: "\<forall>x\<in>set (login_run example_platform ?run example_site). \<not> entered example_platform ''account:ana@x.mx'' x"
    by (simp add: example_site_def)
  have keys: "(\<Union>a\<in>set ?run. set (keys_of example_platform a)) = {''account:ana@x.mx'', ''client:unknown''}"
    by (auto simp: keys_of_def throttle_keys_def account_key_def client_key_def example_attempt_def
        example_platform_def example_form_def)
  show ?thesis
    using brute_force_bounded [of example_site 2 60 10 ?run 0, OF _ _ _ _ quiet] keys
    by (simp add: example_site_def example_attempt_def)
qed

end
