(* ===== verification/Decimals.thy ===== *)
theory Decimals
  imports Parsing Complex_Main
begin

text \<open>
  Python's \<open>decimal.Decimal\<close> as the services use it: the text it accepts, the exact value it has, and
  \<open>quantize\<close> with \<open>ROUND_HALF_UP\<close>. A finite decimal is its rational value. Every quotient that is rounded
  here has numerator and denominator of at most 14 digits, so it is never so close to a tie that the 28
  digits of the context round it to the other side. Exponents of more than 18 digits, which the C library
  refuses, are outside the model.
\<close>

datatype decimal =
    Finite rat
  | Infinite
  | NotANumber

text \<open>The sign, and what follows it.\<close>

definition sign_of :: "string \<Rightarrow> bool \<times> string" where
  "sign_of s = (case s of [] \<Rightarrow> (False, []) | c # cs \<Rightarrow>
     if c = CHR ''-'' then (True, cs) else if c = CHR ''+'' then (False, cs) else (False, s))"

definition lower_char :: "char \<Rightarrow> char" where
  "lower_char c = (if 65 \<le> (of_char c :: nat) \<and> (of_char c :: nat) \<le> 90 then char_of ((of_char c :: nat) + 32) else c)"

definition power_of_ten :: "int \<Rightarrow> rat" where
  "power_of_ten e = (if 0 \<le> e then 10 ^ nat e else 1 / 10 ^ nat (- e))"

text \<open>\<open>\d*(\.\d*)?\<close> with a digit on one side at least, and the optional exponent.\<close>

definition mantissa :: "string \<Rightarrow> (nat \<times> nat) option" where
  "mantissa s =
    (let whole = takeWhile ascii_digit s;
         rest = dropWhile ascii_digit s
     in case rest of
         [] \<Rightarrow> if whole = [] then None else Some (digits_value whole, 0)
       | c # fraction \<Rightarrow>
           if c = CHR ''.'' \<and> list_all ascii_digit fraction \<and> whole @ fraction \<noteq> []
           then Some (digits_value (whole @ fraction), length fraction) else None)"

definition exponent_value :: "string \<Rightarrow> int option" where
  "exponent_value s = (case sign_of s of (negative, digits) \<Rightarrow>
     if ascii_digits digits then Some (if negative then - int (digits_value digits) else int (digits_value digits)) else None)"

definition finite_decimal :: "string \<Rightarrow> rat option" where
  "finite_decimal s =
    (case split_on (CHR ''e'') s of
       [m] \<Rightarrow> map_option (\<lambda>(n, k). of_nat n * power_of_ten (- int k)) (mantissa m)
     | [m, e] \<Rightarrow>
         (case (mantissa m, exponent_value e) of
            (Some (n, k), Some x) \<Rightarrow> Some (of_nat n * power_of_ten (x - int k))
          | _ \<Rightarrow> None)
     | _ \<Rightarrow> None)"

text \<open>\<open>Decimal(s)\<close>; \<open>None\<close> is \<open>InvalidOperation\<close>.\<close>

definition py_decimal :: "string \<Rightarrow> decimal option" where
  "py_decimal raw =
    (case sign_of (map lower_char (filter (\<lambda>c. c \<noteq> CHR ''_'') (py_strip raw))) of (negative, s) \<Rightarrow>
       if s = ''inf'' \<or> s = ''infinity'' then Some Infinite
       else if take 3 s = ''nan'' \<and> list_all ascii_digit (drop 3 s) then Some NotANumber
       else if take 4 s = ''snan'' \<and> list_all ascii_digit (drop 4 s) then Some NotANumber
       else map_option (\<lambda>v. Finite (if negative then - v else v)) (finite_decimal s))"

text \<open>\<open>quantize(Decimal(1), ROUND_HALF_UP)\<close>: the nearest whole number, a tie away from zero.\<close>

definition half_up :: "rat \<Rightarrow> int" where
  "half_up x = (if 0 \<le> x then \<lfloor>x + 1 / 2\<rfloor> else - \<lfloor>- x + 1 / 2\<rfloor>)"

lemma half_up_nearest: "\<bar>of_int (half_up x) - x\<bar> \<le> 1 / 2"
proof -
  have "\<bar>of_int \<lfloor>y + 1 / 2\<rfloor> - y\<bar> \<le> 1 / 2" for y :: rat
    using of_int_floor_le [of "y + 1 / 2"] floor_correct [of "y + 1 / 2"] by linarith
  from this [of x] this [of "- x"] show ?thesis by (cases "0 \<le> x") (simp_all add: half_up_def abs_if split: if_splits)
qed

lemma half_up_of_int [simp]: "half_up (of_int n) = n"
proof -
  have half: "\<lfloor>of_int m + 1 / 2 :: rat\<rfloor> = m" for m by (rule floor_unique) simp_all
  from half [of n] half [of "- n"] show ?thesis by (simp add: half_up_def)
qed

lemma half_up_mono: "x \<le> y \<Longrightarrow> half_up x \<le> half_up y"
proof -
  assume le: "x \<le> y"
  have up: "0 \<le> \<lfloor>z + 1 / 2\<rfloor>" if "0 \<le> z" for z :: rat using that by simp
  show ?thesis
    using le up [of y] up [of "- x"] order_trans [OF neg_le_0_iff_le [THEN iffD2, OF up [of "- x"]] up [of y]] floor_mono [of "x + 1 / 2" "y + 1 / 2"] floor_mono [of "- y + 1 / 2" "- x + 1 / 2"]
    by (auto simp: half_up_def)
qed

end
