(* ===== verification/Catalog.thy ===== *)
theory Catalog
  imports Decimals Transactions
begin

text \<open>
  The catalogue, \<open>web/services/catalog.py\<close> over \<open>web/db/{roles,products,channels,categories,stores}.py\<close>: the
  tables of the shop, every write with what the constraints and triggers of \<open>sql/01_schema.sql\<close> refuse, the
  translation of a refusal to a message of the form, and the validators. The hierarchy of categories is shown to
  stay a tree. Money is in cents, as every money column is.
\<close>

section \<open>The tables of the shop\<close>

record role_row =
  ro_id :: nat
  ro_code :: string
  ro_description :: "string option"

record channel_row =
  ch_id :: nat
  ch_name :: string

record category_row =
  ct_id :: nat
  ct_name :: string
  ct_parent :: "nat option"

record store_row =
  st_id :: nat
  st_name :: string
  st_city :: string
  st_state :: string
  st_active :: bool

record product_row =
  pd_id :: nat
  pd_sku :: string
  pd_name :: string
  pd_category :: nat
  pd_price :: int
  pd_image :: "string option"
  pd_active :: bool

record customer_row =
  cu_id :: nat
  cu_name :: string
  cu_channel :: nat
  cu_registered :: int

record sale_line =
  li_product :: nat
  li_quantity :: int
  li_price :: int

record shop_sale =
  sa_id :: nat
  sa_source :: string
  sa_customer :: nat
  sa_store :: nat
  sa_channel :: nat
  sa_at :: int
  sa_total :: int
  sa_origin :: string
  sa_lines :: "sale_line list"

record stock_row =
  sk_store :: nat
  sk_product :: nat
  sk_quantity :: int

record shop_db =
  sh_roles :: "role_row list"
  sh_user_roles :: "nat list"
  sh_channels :: "channel_row list"
  sh_categories :: "category_row list"
  sh_stores :: "store_row list"
  sh_products :: "product_row list"
  sh_customers :: "customer_row list"
  sh_preferred :: "(nat \<times> nat) list"
  sh_interests :: "(nat \<times> nat) list"
  sh_sales :: "shop_sale list"
  sh_stock :: "stock_row list"

section \<open>Refusals\<close>

datatype db_violation =
    FkViolation
  | RestrictedRow
  | UniqueKey string
  | CheckFailed string

datatype conflict_message =
    StillReferenced string
  | NoSuchCategory
  | AlreadyExists string string
  | CategoryCycle
  | RoleCodeImmutable
  | RoleAdminReserved
  | RoleAdminLookalike
  | RefusedByDatabase string

text \<open>\<open>CatalogConflict(field, message)\<close>; a value the column cannot hold is not an integrity error.\<close>

datatype catalog_error =
    CatalogConflict string conflict_message
  | Violation db_violation
  | DataError

definition has_suffix :: "string \<Rightarrow> string \<Rightarrow> bool" where
  "has_suffix s t \<longleftrightarrow> length t \<le> length s \<and> drop (length s - length t) s = t"

definition catalog_refusal :: "string \<Rightarrow> string \<Rightarrow> db_violation \<Rightarrow> catalog_error" where
  "catalog_refusal entity op v =
    (if v = FkViolation \<or> v = RestrictedRow
     then (if op = ''delete'' then CatalogConflict [] (StillReferenced entity)
           else CatalogConflict (if entity = ''category'' then ''parent_category_id'' else ''category_id'') NoSuchCategory)
     else case v of
         UniqueKey c \<Rightarrow>
           (let field = (if entity = ''role'' then ''code'' else if entity = ''product'' then ''sku'' else ''name'');
                description = (if entity = ''role'' then ''code'' else if entity = ''product'' then ''SKU'' else ''name'')
            in CatalogConflict (if has_suffix c ''_pkey'' then entity @ ''_id'' else field)
                 (AlreadyExists entity (if op = ''create'' then ''ID or '' @ description else description)))
       | CheckFailed c \<Rightarrow>
           (if c = ''category_not_own_parent'' \<or> c = ''category_no_cycle'' then CatalogConflict ''parent_category_id'' CategoryCycle
            else if c = ''role_code_immutable'' then CatalogConflict ''code'' RoleCodeImmutable
            else if c = ''role_admin_code_bound_to_reserved_id'' then CatalogConflict ''code'' RoleAdminReserved
            else if c = ''role_admin_lookalike'' then CatalogConflict ''code'' RoleAdminLookalike
            else CatalogConflict [] (RefusedByDatabase entity))
       | _ \<Rightarrow> CatalogConflict [] (RefusedByDatabase entity))"

type_synonym catalog_body = "shop_db \<Rightarrow> (catalog_error + unit) \<times> shop_db"

definition catalog_write :: "string \<Rightarrow> string \<Rightarrow> catalog_body \<Rightarrow> (shop_db, catalog_error, unit) operation" where
  "catalog_write entity op body owned s =
    (case atomic (statements body) owned s of
       (Inl (Violation v), s') \<Rightarrow> (Inl (catalog_refusal entity op v), s')
     | r \<Rightarrow> r)"

text \<open>What a statement does: the first of its checks that fails refuses it, else it writes.\<close>

fun statement :: "(bool \<times> catalog_error) list \<Rightarrow> (shop_db \<Rightarrow> shop_db) \<Rightarrow> catalog_body" where
  "statement [] write d = (Inr (), write d)"
| "statement ((bad, e) # checks) write d = (if bad then (Inl e, d) else statement checks write d)"

definition SMALLINT_MAX :: nat where "SMALLINT_MAX = 32767"
definition PRICE_LIMIT :: int where "PRICE_LIMIT = 10 ^ 10"

section \<open>The hierarchy of categories\<close>

text \<open>\<open>WITH RECURSIVE ... UNION\<close>: what a list of pairs reaches, grown until nothing is added; as many rounds as there
  are pairs are always enough.\<close>

fun reaches :: "nat \<Rightarrow> ('k \<times> 'k) list \<Rightarrow> 'k list \<Rightarrow> 'k list" where
  "reaches 0 pairs seen = seen"
| "reaches (Suc n) pairs seen = reaches n pairs (remdups (seen @ map snd (filter (\<lambda>(a, b). a \<in> set seen) pairs)))"

definition parent_pairs :: "category_row list \<Rightarrow> (nat \<times> nat) list" where
  "parent_pairs cs = concat (map (\<lambda>c. case ct_parent c of None \<Rightarrow> [] | Some p \<Rightarrow> [(ct_id c, p)]) cs)"

definition ancestors :: "category_row list \<Rightarrow> nat \<Rightarrow> nat list" where
  "ancestors cs p = reaches (length (parent_pairs cs)) (parent_pairs cs) [p]"

definition is_in_subtree :: "shop_db \<Rightarrow> nat \<Rightarrow> nat \<Rightarrow> bool" where
  "is_in_subtree d r candidate \<longleftrightarrow>
    candidate \<in> set (reaches (length (parent_pairs (sh_categories d))) (map (\<lambda>(c, p). (p, c)) (parent_pairs (sh_categories d))) [r])"

text \<open>\<open>fn_category_no_cycle\<close>\<close>

definition no_cycle_trigger :: "category_row list \<Rightarrow> category_row \<Rightarrow> bool" where
  "no_cycle_trigger cs new = (case ct_parent new of None \<Rightarrow> False | Some p \<Rightarrow> ct_id new \<in> set (ancestors cs p))"

definition category_checks :: "category_row list \<Rightarrow> category_row list \<Rightarrow> category_row \<Rightarrow> (bool \<times> catalog_error) list" where
  "category_checks before others new =
    [(length (ct_name new) > 80 \<or> ct_id new > SMALLINT_MAX \<or> (case ct_parent new of None \<Rightarrow> False | Some p \<Rightarrow> p > SMALLINT_MAX), DataError),
     (no_cycle_trigger before new, Violation (CheckFailed ''category_no_cycle'')),
     (ct_parent new = Some (ct_id new), Violation (CheckFailed ''category_not_own_parent'')),
     (ct_id new \<in> set (map ct_id others), Violation (UniqueKey ''category_pkey'')),
     (ct_name new \<in> set (map ct_name others), Violation (UniqueKey ''category_name_key'')),
     (case ct_parent new of None \<Rightarrow> False | Some p \<Rightarrow> p \<noteq> ct_id new \<and> p \<notin> set (map ct_id others), Violation FkViolation)]"

definition db_create_category :: "category_row \<Rightarrow> catalog_body" where
  "db_create_category c d =
    statement (category_checks (sh_categories d) (sh_categories d) c) (\<lambda>d. d\<lparr>sh_categories := sh_categories d @ [c]\<rparr>) d"

definition db_update_category :: "category_row \<Rightarrow> catalog_body" where
  "db_update_category c d =
    (if ct_id c \<notin> set (map ct_id (sh_categories d)) then (Inr (), d)
     else statement (category_checks (sh_categories d) (filter (\<lambda>x. ct_id x \<noteq> ct_id c) (sh_categories d)) c)
            (\<lambda>d. d\<lparr>sh_categories := map (\<lambda>x. if ct_id x = ct_id c then c else x) (sh_categories d)\<rparr>) d)"

definition db_delete_category :: "nat \<Rightarrow> catalog_body" where
  "db_delete_category i d =
    statement
      [(list_ex (\<lambda>c. ct_parent c = Some i \<and> ct_id c \<noteq> i) (sh_categories d) \<or> list_ex (\<lambda>p. pd_category p = i) (sh_products d), Violation RestrictedRow)]
      (\<lambda>d. d\<lparr>sh_categories := filter (\<lambda>c. ct_id c \<noteq> i) (sh_categories d), sh_interests := filter (\<lambda>(_, c). c \<noteq> i) (sh_interests d)\<rparr>) d"

definition create_category :: "nat \<Rightarrow> string \<Rightarrow> nat option \<Rightarrow> (shop_db, catalog_error, unit) operation" where
  "create_category i name parent =
    catalog_write ''category'' ''create'' (db_create_category \<lparr>ct_id = i, ct_name = name, ct_parent = parent\<rparr>)"

definition update_category_body :: "nat \<Rightarrow> string \<Rightarrow> nat option \<Rightarrow> catalog_body" where
  "update_category_body i name parent d =
    (if (case parent of None \<Rightarrow> False | Some p \<Rightarrow> is_in_subtree d i p)
     then (Inl (CatalogConflict ''parent_category_id'' CategoryCycle), d)
     else db_update_category \<lparr>ct_id = i, ct_name = name, ct_parent = parent\<rparr> d)"

definition update_category :: "nat \<Rightarrow> string \<Rightarrow> nat option \<Rightarrow> (shop_db, catalog_error, unit) operation" where
  "update_category i name parent = catalog_write ''category'' ''update'' (update_category_body i name parent)"

definition delete_category :: "nat \<Rightarrow> (shop_db, catalog_error, unit) operation" where
  "delete_category i = catalog_write ''category'' ''delete'' (db_delete_category i)"

section \<open>Roles, channels, stores and products\<close>

definition upper_char :: "char \<Rightarrow> bool" where
  "upper_char c \<longleftrightarrow> 65 \<le> (of_char c :: nat) \<and> (of_char c :: nat) \<le> 90"

text \<open>\<open>[A-Z][A-Z0-9_]*\<close> and \<open>ADM([1IL]N|N)\<close>\<close>

definition role_code_format :: "string \<Rightarrow> bool" where
  "role_code_format s \<longleftrightarrow> (case s of [] \<Rightarrow> False
     | c # cs \<Rightarrow> upper_char c \<and> list_all (\<lambda>x. upper_char x \<or> ascii_digit x \<or> x = CHR ''_'') cs)"

definition admin_lookalike :: "string \<Rightarrow> bool" where
  "admin_lookalike s \<longleftrightarrow> s \<in> {''ADM1N'', ''ADMIN'', ''ADMLN'', ''ADMN''}"

definition db_create_role :: "role_row \<Rightarrow> catalog_body" where
  "db_create_role r d = statement
     [(length (ro_code r) > 40 \<or> (case ro_description r of None \<Rightarrow> False | Some x \<Rightarrow> length x > 160) \<or> ro_id r > SMALLINT_MAX, DataError),
      (ro_code r = ''ADMIN'' \<and> ro_id r \<noteq> 1, Violation (CheckFailed ''role_admin_code_bound_to_reserved_id'')),
      (ro_code r \<noteq> ''ADMIN'' \<and> admin_lookalike (ro_code r), Violation (CheckFailed ''role_admin_lookalike'')),
      (\<not> role_code_format (ro_code r), Violation (CheckFailed ''role_code_format'')),
      (ro_id r \<in> set (map ro_id (sh_roles d)), Violation (UniqueKey ''role_pkey'')),
      (ro_code r \<in> set (map ro_code (sh_roles d)), Violation (UniqueKey ''role_code_key''))]
     (\<lambda>d. d\<lparr>sh_roles := sh_roles d @ [r]\<rparr>) d"

definition db_update_role :: "nat \<Rightarrow> string option \<Rightarrow> catalog_body" where
  "db_update_role i description d =
    (if i \<notin> set (map ro_id (sh_roles d)) then (Inr (), d)
     else statement [(case description of None \<Rightarrow> False | Some x \<Rightarrow> length x > 160, DataError)]
       (\<lambda>d. d\<lparr>sh_roles := map (\<lambda>r. if ro_id r = i then r\<lparr>ro_description := description\<rparr> else r) (sh_roles d)\<rparr>) d)"

definition db_delete_role :: "nat \<Rightarrow> catalog_body" where
  "db_delete_role i d = statement [(i \<in> set (map ro_id (sh_roles d)) \<and> i \<in> set (sh_user_roles d), Violation RestrictedRow)]
     (\<lambda>d. d\<lparr>sh_roles := filter (\<lambda>r. ro_id r \<noteq> i) (sh_roles d)\<rparr>) d"

definition create_role :: "nat \<Rightarrow> string \<Rightarrow> string option \<Rightarrow> (shop_db, catalog_error, unit) operation" where
  "create_role i code description =
    catalog_write ''role'' ''create'' (db_create_role \<lparr>ro_id = i, ro_code = code, ro_description = description\<rparr>)"

definition update_role_entry :: "nat \<Rightarrow> string option \<Rightarrow> (shop_db, catalog_error, unit) operation" where
  "update_role_entry i description = catalog_write ''role'' ''update'' (db_update_role i description)"

definition delete_role :: "nat \<Rightarrow> (shop_db, catalog_error, unit) operation" where
  "delete_role i = catalog_write ''role'' ''delete'' (db_delete_role i)"

definition channel_checks :: "channel_row list \<Rightarrow> channel_row \<Rightarrow> (bool \<times> catalog_error) list" where
  "channel_checks others c =
    [(length (ch_name c) > 60 \<or> ch_id c > SMALLINT_MAX, DataError),
     (ch_id c \<in> set (map ch_id others), Violation (UniqueKey ''channel_pkey'')),
     (ch_name c \<in> set (map ch_name others), Violation (UniqueKey ''channel_name_key''))]"

definition db_create_channel :: "channel_row \<Rightarrow> catalog_body" where
  "db_create_channel c d = statement (channel_checks (sh_channels d) c) (\<lambda>d. d\<lparr>sh_channels := sh_channels d @ [c]\<rparr>) d"

definition db_update_channel :: "channel_row \<Rightarrow> catalog_body" where
  "db_update_channel c d =
    (if ch_id c \<notin> set (map ch_id (sh_channels d)) then (Inr (), d)
     else statement (channel_checks (filter (\<lambda>x. ch_id x \<noteq> ch_id c) (sh_channels d)) c)
       (\<lambda>d. d\<lparr>sh_channels := map (\<lambda>x. if ch_id x = ch_id c then c else x) (sh_channels d)\<rparr>) d)"

definition db_delete_channel :: "nat \<Rightarrow> catalog_body" where
  "db_delete_channel i d = statement
     [(list_ex (\<lambda>c. cu_channel c = i) (sh_customers d) \<or> list_ex (\<lambda>s. sa_channel s = i) (sh_sales d), Violation RestrictedRow)]
     (\<lambda>d. d\<lparr>sh_channels := filter (\<lambda>c. ch_id c \<noteq> i) (sh_channels d), sh_preferred := filter (\<lambda>(_, c). c \<noteq> i) (sh_preferred d)\<rparr>) d"

definition create_channel :: "nat \<Rightarrow> string \<Rightarrow> (shop_db, catalog_error, unit) operation" where
  "create_channel i name = catalog_write ''channel'' ''create'' (db_create_channel \<lparr>ch_id = i, ch_name = name\<rparr>)"

definition update_channel :: "nat \<Rightarrow> string \<Rightarrow> (shop_db, catalog_error, unit) operation" where
  "update_channel i name = catalog_write ''channel'' ''update'' (db_update_channel \<lparr>ch_id = i, ch_name = name\<rparr>)"

definition delete_channel :: "nat \<Rightarrow> (shop_db, catalog_error, unit) operation" where
  "delete_channel i = catalog_write ''channel'' ''delete'' (db_delete_channel i)"

definition store_too_long :: "store_row \<Rightarrow> bool" where
  "store_too_long s \<longleftrightarrow> length (st_name s) > 100 \<or> length (st_city s) > 80 \<or> length (st_state s) > 80 \<or> st_id s > SMALLINT_MAX"

definition db_create_store :: "store_row \<Rightarrow> catalog_body" where
  "db_create_store s d = statement
     [(store_too_long s, DataError), (st_id s \<in> set (map st_id (sh_stores d)), Violation (UniqueKey ''store_pkey''))]
     (\<lambda>d. d\<lparr>sh_stores := sh_stores d @ [s]\<rparr>) d"

definition db_update_store :: "store_row \<Rightarrow> catalog_body" where
  "db_update_store s d =
    (if st_id s \<notin> set (map st_id (sh_stores d)) then (Inr (), d)
     else statement [(store_too_long s, DataError)]
       (\<lambda>d. d\<lparr>sh_stores := map (\<lambda>x. if st_id x = st_id s then s else x) (sh_stores d)\<rparr>) d)"

definition db_delete_store :: "nat \<Rightarrow> catalog_body" where
  "db_delete_store i d = statement [(list_ex (\<lambda>s. sa_store s = i) (sh_sales d), Violation RestrictedRow)]
     (\<lambda>d. d\<lparr>sh_stores := filter (\<lambda>s. st_id s \<noteq> i) (sh_stores d), sh_stock := filter (\<lambda>k. sk_store k \<noteq> i) (sh_stock d)\<rparr>) d"

definition create_store :: "nat \<Rightarrow> string \<Rightarrow> string \<Rightarrow> string \<Rightarrow> (shop_db, catalog_error, unit) operation" where
  "create_store i name city state = catalog_write ''store'' ''create''
     (db_create_store \<lparr>st_id = i, st_name = name, st_city = city, st_state = state, st_active = True\<rparr>)"

definition update_store :: "nat \<Rightarrow> string \<Rightarrow> string \<Rightarrow> string \<Rightarrow> bool \<Rightarrow> (shop_db, catalog_error, unit) operation" where
  "update_store i name city state active = catalog_write ''store'' ''update''
     (db_update_store \<lparr>st_id = i, st_name = name, st_city = city, st_state = state, st_active = active\<rparr>)"

definition delete_store :: "nat \<Rightarrow> (shop_db, catalog_error, unit) operation" where
  "delete_store i = catalog_write ''store'' ''delete'' (db_delete_store i)"

definition product_checks :: "shop_db \<Rightarrow> product_row list \<Rightarrow> product_row \<Rightarrow> (bool \<times> catalog_error) list" where
  "product_checks d others p =
    [(length (pd_sku p) > 40 \<or> length (pd_name p) > 150 \<or> (case pd_image p of None \<Rightarrow> False | Some x \<Rightarrow> length x > 255)
        \<or> pd_category p > SMALLINT_MAX \<or> pd_id p > INT_MAX \<or> PRICE_LIMIT \<le> \<bar>pd_price p\<bar>, DataError),
     (pd_price p < 0, Violation (CheckFailed ''product_list_price_check'')),
     (pd_id p \<in> set (map pd_id others), Violation (UniqueKey ''product_pkey'')),
     (pd_sku p \<in> set (map pd_sku others), Violation (UniqueKey ''product_sku_key'')),
     (pd_category p \<notin> set (map ct_id (sh_categories d)), Violation FkViolation)]"

definition db_create_product :: "product_row \<Rightarrow> catalog_body" where
  "db_create_product p d = statement (product_checks d (sh_products d) p) (\<lambda>d. d\<lparr>sh_products := sh_products d @ [p]\<rparr>) d"

text \<open>\<open>image_path = COALESCE(%s, image_path)\<close>\<close>

definition db_update_product :: "product_row \<Rightarrow> catalog_body" where
  "db_update_product p d =
    (case find (\<lambda>x. pd_id x = pd_id p) (sh_products d) of
       None \<Rightarrow> (Inr (), d)
     | Some old \<Rightarrow>
         (let new = (if pd_image p = None then p\<lparr>pd_image := pd_image old\<rparr> else p)
          in statement (product_checks d (filter (\<lambda>x. pd_id x \<noteq> pd_id p) (sh_products d)) new)
               (\<lambda>d. d\<lparr>sh_products := map (\<lambda>x. if pd_id x = pd_id p then new else x) (sh_products d)\<rparr>) d))"

definition db_delete_product :: "nat \<Rightarrow> catalog_body" where
  "db_delete_product i d = statement
     [(list_ex (\<lambda>s. list_ex (\<lambda>l. li_product l = i) (sa_lines s)) (sh_sales d), Violation RestrictedRow)]
     (\<lambda>d. d\<lparr>sh_products := filter (\<lambda>p. pd_id p \<noteq> i) (sh_products d), sh_stock := filter (\<lambda>k. sk_product k \<noteq> i) (sh_stock d)\<rparr>) d"

definition create_product ::
  "nat \<Rightarrow> string \<Rightarrow> string \<Rightarrow> nat \<Rightarrow> int \<Rightarrow> string option \<Rightarrow> (shop_db, catalog_error, unit) operation" where
  "create_product i sku name category price picture = catalog_write ''product'' ''create''
     (db_create_product \<lparr>pd_id = i, pd_sku = sku, pd_name = name, pd_category = category, pd_price = price, pd_image = picture, pd_active = True\<rparr>)"

definition update_product ::
  "nat \<Rightarrow> string \<Rightarrow> string \<Rightarrow> nat \<Rightarrow> int \<Rightarrow> bool \<Rightarrow> string option \<Rightarrow> (shop_db, catalog_error, unit) operation" where
  "update_product i sku name category price active picture = catalog_write ''product'' ''update''
     (db_update_product \<lparr>pd_id = i, pd_sku = sku, pd_name = name, pd_category = category, pd_price = price, pd_image = picture, pd_active = active\<rparr>)"

definition delete_product :: "nat \<Rightarrow> (shop_db, catalog_error, unit) operation" where
  "delete_product i = catalog_write ''product'' ''delete'' (db_delete_product i)"

section \<open>The forms\<close>

datatype form_error =
    IsRequired
  | AtMost nat
  | WholeNumberUpTo nat
  | BadRoleCode
  | ReservedRoleCode
  | PriceNotFinite
  | PriceNegative
  | PriceTooLarge
  | PriceNotANumber

type_synonym form_errors = "(string \<times> form_error) list"

definition parse_identifier :: "string \<Rightarrow> string \<Rightarrow> nat \<Rightarrow> value_error + nat option \<times> form_errors" where
  "parse_identifier raw field maximum =
    (case whole_number (Some raw) maximum of
       Inl e \<Rightarrow> Inl e
     | Inr None \<Rightarrow> Inr (None, [(field, WholeNumberUpTo maximum)])
     | Inr (Some v) \<Rightarrow> Inr (Some v, []))"

definition parse_category_parent :: "string \<Rightarrow> value_error + nat option \<times> form_errors" where
  "parse_category_parent raw = (if raw = [] then Inr (None, []) else parse_identifier raw ''parent_category_id'' SMALLINT_MAX)"

text \<open>\<open>if not x or not x.strip(): ... elif len(x) > n: ...\<close>, of one text field.\<close>

definition text_errors :: "string \<Rightarrow> string \<Rightarrow> nat \<Rightarrow> form_errors" where
  "text_errors field value n =
    (if py_strip value = [] then [(field, IsRequired)] else if length value > n then [(field, AtMost n)] else [])"

definition validate_store :: "string \<Rightarrow> string \<Rightarrow> string \<Rightarrow> form_errors" where
  "validate_store name city state = text_errors ''name'' name 100 @ text_errors ''city'' city 80 @ text_errors ''state'' state 80"

definition validate_category :: "string \<Rightarrow> form_errors" where
  "validate_category name = text_errors ''name'' name 80"

definition validate_channel :: "string \<Rightarrow> form_errors" where
  "validate_channel name = text_errors ''name'' name 60"

definition list_price_of :: "string \<Rightarrow> form_error + int" where
  "list_price_of raw =
    (if raw = [] then Inl IsRequired
     else case py_decimal raw of
         None \<Rightarrow> Inl PriceNotANumber
       | Some (Finite v) \<Rightarrow>
           if v < 0 then Inl PriceNegative
           else if 99999999995 / 1000 \<le> v then Inl PriceTooLarge
           else Inr (half_up (100 * v))
       | Some _ \<Rightarrow> Inl PriceNotFinite)"

definition validate_product :: "string \<Rightarrow> string \<Rightarrow> string \<Rightarrow> string \<Rightarrow> value_error + form_errors \<times> int option" where
  "validate_product sku name category list_price =
    (let head = text_errors ''sku'' sku 40 @ text_errors ''name'' name 150;
         price = list_price_of list_price;
         last_error = (case price of Inl e \<Rightarrow> [(''list_price'', e)] | Inr _ \<Rightarrow> []);
         amount = (case price of Inl _ \<Rightarrow> None | Inr v \<Rightarrow> Some v)
     in if \<not> ascii_digits category then Inr (head @ [(''category_id'', IsRequired)] @ last_error, amount)
        else case whole_number (Some category) SMALLINT_MAX of
            Inl e \<Rightarrow> Inl e
          | Inr None \<Rightarrow> Inr (head @ [(''category_id'', WholeNumberUpTo SMALLINT_MAX)] @ last_error, amount)
          | Inr (Some _) \<Rightarrow> Inr (head @ last_error, amount))"

definition validate_role :: "string \<Rightarrow> string \<Rightarrow> form_errors" where
  "validate_role code description =
    (if py_strip code = [] then [(''code'', IsRequired)]
     else if length code > 40 then [(''code'', AtMost 40)]
     else if \<not> role_code_format code then [(''code'', BadRoleCode)]
     else if code \<noteq> ''ADMIN'' \<and> admin_lookalike code then [(''code'', ReservedRoleCode)] else [])
    @ (if length description > 160 then [(''description'', AtMost 160)] else [])"

section \<open>The hierarchy stays a tree\<close>

lemma set_reaches: "set (reaches n pairs seen) = (\<Union>k\<le>n. (set pairs) ^^ k) `` set seen"
proof (induction n arbitrary: seen)
  case (Suc n)
  have "set (reaches (Suc n) pairs seen) = (\<Union>k\<le>n. (set pairs) ^^ k) `` (set seen \<union> set pairs `` set seen)"
    unfolding reaches.simps Suc.IH by (rule arg_cong [where f = "\<lambda>s. _ `` s"]) (auto simp: image_iff Bex_def)
  also have "\<dots> = (\<Union>k\<le>n. (set pairs) ^^ k) `` set seen \<union> (\<Union>k\<le>n. (set pairs) ^^ Suc k) `` set seen"
    by (auto simp: relpow_commute [symmetric] Image_Un)
  also have "\<dots> = (\<Union>k\<le>Suc n. (set pairs) ^^ k) `` set seen"
  proof -
    have rounds: "{..Suc n} = {..n} \<union> Suc ` {..n}" using atMost_Suc_eq_insert_0 [of n] by auto
    have "(\<Union>k\<le>Suc n. (set pairs) ^^ k) = (\<Union>k\<le>n. (set pairs) ^^ k) \<union> (\<Union>k\<le>n. (set pairs) ^^ Suc k)"
      unfolding rounds UN_Un by blast
    then show ?thesis by (simp only: Un_Image)
  qed
  finally show ?case .
qed simp

text \<open>As many rounds as there are pairs reach everything there is to reach.\<close>

lemma reaches_all: "length pairs \<le> n \<Longrightarrow> set (reaches n pairs seen) = (set pairs)\<^sup>* `` set seen"
proof -
  assume n: "length pairs \<le> n"
  have "(set pairs)\<^sup>* = (\<Union>k\<in>{k. k \<le> card (set pairs)}. (set pairs) ^^ k)" by (rule rtrancl_finite_eq_relpow) simp
  also have "\<dots> \<subseteq> (\<Union>k\<le>n. (set pairs) ^^ k)" using n card_length [of pairs] by force
  finally have "(set pairs)\<^sup>* = (\<Union>k\<le>n. (set pairs) ^^ k)" by (auto dest: relpow_imp_rtrancl)
  then show ?thesis by (simp only: set_reaches)
qed

definition below :: "category_row list \<Rightarrow> (nat \<times> nat) set" where
  "below cs = set (parent_pairs cs)"

lemma below_iff: "(x, p) \<in> below cs \<longleftrightarrow> (\<exists>c\<in>set cs. ct_id c = x \<and> ct_parent c = Some p)"
  by (auto simp: below_def parent_pairs_def split: option.splits) force

lemma set_ancestors: "set (ancestors cs p) = (below cs)\<^sup>* `` {p}"
  unfolding ancestors_def below_def by (subst reaches_all) simp_all

lemma is_in_subtree_iff: "is_in_subtree d r x \<longleftrightarrow> (x, r) \<in> (below (sh_categories d))\<^sup>*"
proof -
  have "set (map (\<lambda>(c, p). (p, c)) (parent_pairs (sh_categories d))) = (below (sh_categories d))\<inverse>" by (auto simp: below_def)
  then show ?thesis
    unfolding is_in_subtree_def by (subst reaches_all) (simp_all add: rtrancl_converse)
qed

definition category_tree :: "category_row list \<Rightarrow> bool" where
  "category_tree cs \<longleftrightarrow> distinct (map ct_id cs) \<and> distinct (map ct_name cs) \<and> acyclic (below cs)
     \<and> (\<forall>c\<in>set cs. case ct_parent c of None \<Rightarrow> True | Some p \<Rightarrow> p \<in> ct_id ` set cs)"

text \<open>
  The two guards of the hierarchy agree: the downward walk of the service from the category that moves, and the
  upward walk of the trigger from its new parent, refuse the same moves.
\<close>

lemma hierarchy_guards_agree:
  "no_cycle_trigger (sh_categories d) \<lparr>ct_id = i, ct_name = n, ct_parent = parent\<rparr>
    = (case parent of None \<Rightarrow> False | Some p \<Rightarrow> is_in_subtree d i p)"
  by (simp add: no_cycle_trigger_def set_ancestors is_in_subtree_iff split: option.split)

section \<open>Referential integrity\<close>

definition keys_ok :: "shop_db \<Rightarrow> bool" where
  "keys_ok d \<longleftrightarrow> distinct (map ro_id (sh_roles d)) \<and> distinct (map ro_code (sh_roles d))
     \<and> distinct (map ch_id (sh_channels d)) \<and> distinct (map ch_name (sh_channels d)) \<and> distinct (map st_id (sh_stores d))
     \<and> distinct (map pd_id (sh_products d)) \<and> distinct (map pd_sku (sh_products d))
     \<and> distinct (map (\<lambda>k. (sk_store k, sk_product k)) (sh_stock d))"

text \<open>Only role 1 holds \<open>ADMIN\<close>, and no code is mistaken for it.\<close>

definition role_ok :: "role_row \<Rightarrow> bool" where
  "role_ok r \<longleftrightarrow> role_code_format (ro_code r) \<and> (if ro_code r = ''ADMIN'' then ro_id r = 1 else \<not> admin_lookalike (ro_code r))"

definition references_ok :: "shop_db \<Rightarrow> bool" where
  "references_ok d \<longleftrightarrow> set (sh_user_roles d) \<subseteq> ro_id ` set (sh_roles d)
     \<and> cu_channel ` set (sh_customers d) \<subseteq> ch_id ` set (sh_channels d) \<and> snd ` set (sh_preferred d) \<subseteq> ch_id ` set (sh_channels d)
     \<and> sa_channel ` set (sh_sales d) \<subseteq> ch_id ` set (sh_channels d) \<and> sa_store ` set (sh_sales d) \<subseteq> st_id ` set (sh_stores d)
     \<and> (\<Union>s\<in>set (sh_sales d). li_product ` set (sa_lines s)) \<subseteq> pd_id ` set (sh_products d)
     \<and> sk_store ` set (sh_stock d) \<subseteq> st_id ` set (sh_stores d) \<and> sk_product ` set (sh_stock d) \<subseteq> pd_id ` set (sh_products d)
     \<and> snd ` set (sh_interests d) \<subseteq> ct_id ` set (sh_categories d) \<and> pd_category ` set (sh_products d) \<subseteq> ct_id ` set (sh_categories d)"

definition catalog_wf :: "shop_db \<Rightarrow> bool" where
  "catalog_wf d \<longleftrightarrow> keys_ok d \<and> category_tree (sh_categories d) \<and> references_ok d
     \<and> (\<forall>r\<in>set (sh_roles d). role_ok r) \<and> (\<forall>p\<in>set (sh_products d). 0 \<le> pd_price p)"

lemma statement_Inr: "statement checks write d = (Inr u, d') \<longleftrightarrow> list_all (\<lambda>(bad, e). \<not> bad) checks \<and> d' = write d"
  by (induction checks) (auto split: if_splits)

declare statement.simps [simp del]

lemma catalog_write_at_rest:
  "committed (snd (catalog_write entity op body False (at_rest d))) = (case body d of (Inr _, d') \<Rightarrow> d' | (Inl _, _) \<Rightarrow> d)"
  by (auto simp: catalog_write_def atomic_statements split: prod.splits sum.splits catalog_error.splits)

definition replace_row :: "('r \<Rightarrow> nat) \<Rightarrow> 'r \<Rightarrow> 'r list \<Rightarrow> 'r list" where
  "replace_row key c rows = map (\<lambda>x. if key x = key c then c else x) rows"

lemma map_replace_row [simp]: "map key (replace_row key c rows) = map key rows"
  by (simp add: replace_row_def)

lemma image_replace_row [simp]: "key ` set (replace_row key c rows) = key ` set rows"
  by (metis list.set_map map_replace_row)

lemma set_replace_row: "set (replace_row key c rows) \<subseteq> insert c (set (filter (\<lambda>x. key x \<noteq> key c) rows))"
  by (auto simp: replace_row_def)

lemma replace_row_other: "key c \<notin> key ` set rows \<Longrightarrow> replace_row key c rows = rows"
  unfolding replace_row_def by (rule map_idI) (metis image_eqI)

lemma distinct_replace_row:
  assumes "distinct (map key rows)" and "distinct (map f rows)" and "f c \<notin> f ` set (filter (\<lambda>x. key x \<noteq> key c) rows)"
  shows "distinct (map f (replace_row key c rows))"
  using assms
proof (induction rows)
  case (Cons x rows)
  show ?case
  proof (cases "key x = key c")
    case True
    then have fresh: "key c \<notin> key ` set rows" using Cons.prems(1) by auto
    have "replace_row key c (x # rows) = c # replace_row key c rows" using True by (simp add: replace_row_def)
    then have "replace_row key c (x # rows) = c # rows" using fresh by (simp add: replace_row_other)
    moreover have "filter (\<lambda>x. key x \<noteq> key c) rows = rows"
      using fresh by (intro filter_True) (metis image_eqI)
    ultimately show ?thesis using Cons.prems True by simp
  next
    case False
    have "f x \<notin> f ` set (replace_row key c rows)"
      using Cons.prems(2,3) False set_replace_row [of key c rows] by (auto simp: False)
    moreover have "replace_row key c (x # rows) = x # replace_row key c rows" using False by (simp add: replace_row_def)
    moreover have "distinct (map f (replace_row key c rows))" using Cons False by simp
    ultimately show ?thesis by simp
  qed
qed (simp add: replace_row_def)

text \<open>The replacing writes of the model are \<open>replace_row\<close>.\<close>

lemmas replaces = replace_row_def [symmetric]

lemma keys_grow: "distinct (map f (xs @ [x])) \<longleftrightarrow> distinct (map f xs) \<and> f x \<notin> f ` set xs"
  by auto

lemma image_filter_id: "i \<notin> A \<Longrightarrow> A \<subseteq> key ` set rows \<Longrightarrow> A \<subseteq> key ` set (filter (\<lambda>x. key x \<noteq> i) rows)"
  by auto

text \<open>A row more breaks no reference.\<close>

lemma references_grow:
  assumes "references_ok d" and "sh_user_roles d' = sh_user_roles d" and "sh_customers d' = sh_customers d" and "sh_preferred d' = sh_preferred d"
    and "sh_sales d' = sh_sales d" and "sh_stock d' = sh_stock d" and "sh_interests d' = sh_interests d"
    and "ro_id ` set (sh_roles d) \<subseteq> ro_id ` set (sh_roles d')" and "ch_id ` set (sh_channels d) \<subseteq> ch_id ` set (sh_channels d')"
    and "st_id ` set (sh_stores d) \<subseteq> st_id ` set (sh_stores d')" and "pd_id ` set (sh_products d) \<subseteq> pd_id ` set (sh_products d')"
    and "ct_id ` set (sh_categories d) \<subseteq> ct_id ` set (sh_categories d')"
    and "pd_category ` set (sh_products d') \<subseteq> ct_id ` set (sh_categories d')"
  shows "references_ok d'"
  using assms(1,8-13) unfolding references_ok_def assms(2-7) by (elim conjE, intro conjI) (erule (1) order_trans | assumption)+

lemma catalog_parts:
  assumes "catalog_wf d"
  shows "keys_ok d" "category_tree (sh_categories d)" "references_ok d" "\<forall>r\<in>set (sh_roles d). role_ok r" "\<forall>p\<in>set (sh_products d). 0 \<le> pd_price p"
    "pd_category ` set (sh_products d) \<subseteq> ct_id ` set (sh_categories d)"
  using assms by (simp_all add: catalog_wf_def references_ok_def)

lemma role_writes:
  assumes wf: "catalog_wf d"
  shows "db_create_role r d = (Inr u, d') \<Longrightarrow> catalog_wf d'" and "db_update_role i description d = (Inr u, d') \<Longrightarrow> catalog_wf d'"
    and "db_delete_role i d = (Inr u, d') \<Longrightarrow> catalog_wf d'"
proof -
  note parts = catalog_parts [OF wf]
  {
    assume "db_create_role r d = (Inr u, d')"
    then have d': "d' = d\<lparr>sh_roles := sh_roles d @ [r]\<rparr>" and checks: "role_ok r" "ro_id r \<notin> ro_id ` set (sh_roles d)" "ro_code r \<notin> ro_code ` set (sh_roles d)"
      by (auto simp: db_create_role_def statement_Inr role_ok_def)
    have "references_ok d'" by (rule references_grow [OF parts(3)]) (use parts(6) in \<open>auto simp: d'\<close>)
    then show "catalog_wf d'" using parts checks by (simp add: catalog_wf_def keys_ok_def d')
  next
    assume update: "db_update_role i description d = (Inr u, d')"
    let ?f = "\<lambda>r. if ro_id r = i then r\<lparr>ro_description := description\<rparr> else r"
    have same: "map ro_id (map ?f rs) = map ro_id rs" "map ro_code (map ?f rs) = map ro_code rs" for rs by (induction rs) auto
    have ids: "ro_id ` set (map ?f rs) = ro_id ` set rs" for rs by (metis list.set_map same(1))
    from update consider "d' = d" | "d' = d\<lparr>sh_roles := map ?f (sh_roles d)\<rparr>" by (auto simp: db_update_role_def statement_Inr split: if_splits)
    then show "catalog_wf d'"
    proof cases
      case 2
      have roles: "sh_roles d' = map ?f (sh_roles d)" by (simp add: 2)
      have "references_ok d'"
      proof (rule references_grow [OF parts(3)])
        show "ro_id ` set (sh_roles d) \<subseteq> ro_id ` set (sh_roles d')" unfolding roles ids by (rule order_refl)
      qed (use parts(6) in \<open>simp_all add: 2\<close>)
      moreover have "distinct (map ro_id (sh_roles d')) \<and> distinct (map ro_code (sh_roles d'))"
        unfolding roles same using parts(1) by (simp add: keys_ok_def)
      then have "keys_ok d'" using parts(1) by (simp add: keys_ok_def 2)
      ultimately show ?thesis using parts(2,4,5) by (auto simp: catalog_wf_def 2 role_ok_def)
    qed (use wf in simp)
  next
    assume "db_delete_role i d = (Inr u, d')"
    then have d': "d' = d\<lparr>sh_roles := filter (\<lambda>r. ro_id r \<noteq> i) (sh_roles d)\<rparr>"
      and free: "i \<in> ro_id ` set (sh_roles d) \<longrightarrow> i \<notin> set (sh_user_roles d)" by (auto simp: db_delete_role_def statement_Inr)
    have "set (sh_user_roles d) \<subseteq> ro_id ` set (sh_roles d)" using parts(3) by (simp add: references_ok_def)
    then have "set (sh_user_roles d) \<subseteq> ro_id ` set (filter (\<lambda>r. ro_id r \<noteq> i) (sh_roles d))" by (intro image_filter_id) (use free in blast)+
    then show "catalog_wf d'"
      using parts by (simp add: catalog_wf_def d' keys_ok_def references_ok_def distinct_map_filter)
  }
qed

lemma channel_writes:
  assumes wf: "catalog_wf d"
  shows "db_create_channel c d = (Inr u, d') \<Longrightarrow> catalog_wf d'" and "db_update_channel c d = (Inr u, d') \<Longrightarrow> catalog_wf d'"
    and "db_delete_channel i d = (Inr u, d') \<Longrightarrow> catalog_wf d'"
proof -
  note parts = catalog_parts [OF wf]
  {
    assume "db_create_channel c d = (Inr u, d')"
    then have d': "d' = d\<lparr>sh_channels := sh_channels d @ [c]\<rparr>" and checks: "ch_id c \<notin> ch_id ` set (sh_channels d)" "ch_name c \<notin> ch_name ` set (sh_channels d)"
      by (auto simp: db_create_channel_def channel_checks_def statement_Inr)
    have "references_ok d'" by (rule references_grow [OF parts(3)]) (use parts(6) in \<open>auto simp: d'\<close>)
    then show "catalog_wf d'" using parts checks by (simp add: catalog_wf_def keys_ok_def d')
  next
    assume "db_update_channel c d = (Inr u, d')"
    then consider "d' = d" | "d' = d\<lparr>sh_channels := replace_row ch_id c (sh_channels d)\<rparr>"
        "ch_name c \<notin> ch_name ` set (filter (\<lambda>x. ch_id x \<noteq> ch_id c) (sh_channels d))"
      by (auto simp: db_update_channel_def channel_checks_def statement_Inr replaces split: if_splits)
    then show "catalog_wf d'"
    proof cases
      case 2
      have "references_ok d'" by (rule references_grow [OF parts(3)]) (use parts(6) in \<open>simp_all add: 2(1)\<close>)
      moreover have "distinct (map ch_name (replace_row ch_id c (sh_channels d)))"
        using parts(1) 2(2) unfolding keys_ok_def by (intro distinct_replace_row) blast+
      ultimately show ?thesis using parts by (simp add: catalog_wf_def keys_ok_def 2(1))
    qed (use wf in simp)
  next
    assume "db_delete_channel i d = (Inr u, d')"
    then have d': "d' = d\<lparr>sh_channels := filter (\<lambda>c. ch_id c \<noteq> i) (sh_channels d), sh_preferred := filter (\<lambda>(_, c). c \<noteq> i) (sh_preferred d)\<rparr>"
      and free: "i \<notin> cu_channel ` set (sh_customers d)" "i \<notin> sa_channel ` set (sh_sales d)"
      by (auto simp: db_delete_channel_def statement_Inr list_ex_iff)
    let ?channels = "filter (\<lambda>c. ch_id c \<noteq> i) (sh_channels d)" and ?preferred = "filter (\<lambda>(_, c). c \<noteq> i) (sh_preferred d)"
    have "i \<notin> snd ` set ?preferred" "snd ` set ?preferred \<subseteq> ch_id ` set (sh_channels d)"
      using parts(3) by (auto simp: references_ok_def)
    then have "snd ` set ?preferred \<subseteq> ch_id ` set ?channels" by (rule image_filter_id)
    moreover have "cu_channel ` set (sh_customers d) \<subseteq> ch_id ` set ?channels" "sa_channel ` set (sh_sales d) \<subseteq> ch_id ` set ?channels"
      using free parts(3) by (intro image_filter_id; simp add: references_ok_def)+
    ultimately show "catalog_wf d'"
      using parts by (simp add: catalog_wf_def d' keys_ok_def references_ok_def distinct_map_filter)
  }
qed

lemma store_writes:
  assumes wf: "catalog_wf d"
  shows "db_create_store s d = (Inr u, d') \<Longrightarrow> catalog_wf d'" and "db_update_store s d = (Inr u, d') \<Longrightarrow> catalog_wf d'"
    and "db_delete_store i d = (Inr u, d') \<Longrightarrow> catalog_wf d'"
proof -
  note parts = catalog_parts [OF wf]
  {
    assume "db_create_store s d = (Inr u, d')"
    then have d': "d' = d\<lparr>sh_stores := sh_stores d @ [s]\<rparr>" and checks: "st_id s \<notin> st_id ` set (sh_stores d)"
      by (auto simp: db_create_store_def statement_Inr)
    have "references_ok d'" by (rule references_grow [OF parts(3)]) (use parts(6) in \<open>auto simp: d'\<close>)
    then show "catalog_wf d'" using parts checks by (simp add: catalog_wf_def keys_ok_def d')
  next
    assume "db_update_store s d = (Inr u, d')"
    then consider "d' = d" | "d' = d\<lparr>sh_stores := replace_row st_id s (sh_stores d)\<rparr>"
      by (auto simp: db_update_store_def statement_Inr replaces split: if_splits)
    then show "catalog_wf d'"
    proof cases
      case 2
      have "references_ok d'" by (rule references_grow [OF parts(3)]) (use parts(6) in \<open>simp_all add: 2(1)\<close>)
      then show ?thesis using parts by (simp add: catalog_wf_def keys_ok_def 2(1))
    qed (use wf in simp)
  next
    assume "db_delete_store i d = (Inr u, d')"
    then have d': "d' = d\<lparr>sh_stores := filter (\<lambda>s. st_id s \<noteq> i) (sh_stores d), sh_stock := filter (\<lambda>k. sk_store k \<noteq> i) (sh_stock d)\<rparr>"
      and free: "i \<notin> sa_store ` set (sh_sales d)"
      by (auto simp: db_delete_store_def statement_Inr list_ex_iff)
    let ?stores = "filter (\<lambda>s. st_id s \<noteq> i) (sh_stores d)" and ?stock = "filter (\<lambda>k. sk_store k \<noteq> i) (sh_stock d)"
    have "i \<notin> sk_store ` set ?stock" "sk_store ` set ?stock \<subseteq> st_id ` set (sh_stores d)"
      and products: "sk_product ` set ?stock \<subseteq> pd_id ` set (sh_products d)"
      using parts(3) by (auto simp: references_ok_def)
    then have "sk_store ` set ?stock \<subseteq> st_id ` set ?stores" by (intro image_filter_id)
    moreover have "sa_store ` set (sh_sales d) \<subseteq> st_id ` set ?stores"
      using free parts(3) by (intro image_filter_id) (simp_all add: references_ok_def)
    moreover note products
    ultimately show "catalog_wf d'"
      using parts by (simp add: catalog_wf_def d' keys_ok_def references_ok_def distinct_map_filter)
  }
qed

lemma product_writes:
  assumes wf: "catalog_wf d"
  shows "db_create_product p d = (Inr u, d') \<Longrightarrow> catalog_wf d'" and "db_update_product p d = (Inr u, d') \<Longrightarrow> catalog_wf d'"
    and "db_delete_product i d = (Inr u, d') \<Longrightarrow> catalog_wf d'"
proof -
  note parts = catalog_parts [OF wf]
  {
    assume "db_create_product p d = (Inr u, d')"
    then have d': "d' = d\<lparr>sh_products := sh_products d @ [p]\<rparr>" and checks: "pd_id p \<notin> pd_id ` set (sh_products d)"
      "pd_sku p \<notin> pd_sku ` set (sh_products d)" "pd_category p \<in> ct_id ` set (sh_categories d)" "0 \<le> pd_price p"
      by (auto simp: db_create_product_def product_checks_def statement_Inr)
    have "references_ok d'" by (rule references_grow [OF parts(3)]) (use parts(6) checks in \<open>auto simp: d'\<close>)
    then show "catalog_wf d'" using parts checks by (simp add: catalog_wf_def keys_ok_def d')
  next
    assume "db_update_product p d = (Inr u, d')"
    then consider "d' = d" | q where "pd_id q = pd_id p" "d' = d\<lparr>sh_products := replace_row pd_id q (sh_products d)\<rparr>"
        "pd_sku q \<notin> pd_sku ` set (filter (\<lambda>x. pd_id x \<noteq> pd_id q) (sh_products d))" "pd_category q \<in> ct_id ` set (sh_categories d)" "0 \<le> pd_price q"
    proof -
      assume a: "db_update_product p d = (Inr u, d')" and stay: "d' = d \<Longrightarrow> thesis"
        and move: "\<And>q. pd_id q = pd_id p \<Longrightarrow> d' = d\<lparr>sh_products := replace_row pd_id q (sh_products d)\<rparr> \<Longrightarrow>
          pd_sku q \<notin> pd_sku ` set (filter (\<lambda>x. pd_id x \<noteq> pd_id q) (sh_products d)) \<Longrightarrow> pd_category q \<in> ct_id ` set (sh_categories d) \<Longrightarrow>
          0 \<le> pd_price q \<Longrightarrow> thesis"
      show thesis
      proof (cases "find (\<lambda>x. pd_id x = pd_id p) (sh_products d)")
        case None
        with a stay show ?thesis by (simp add: db_update_product_def)
      next
        case (Some old)
        let ?q = "if pd_image p = None then p\<lparr>pd_image := pd_image old\<rparr> else p"
        from a Some show ?thesis
          by (intro move [of ?q]) (auto simp: db_update_product_def product_checks_def statement_Inr Let_def replace_row_def split: if_splits)
      qed
    qed
    then show "catalog_wf d'"
    proof cases
      case 2
      have rows: "set (sh_products d') \<subseteq> insert q (set (sh_products d))" using set_replace_row [of pd_id q "sh_products d"] by (auto simp: 2(2))
      have "references_ok d'"
        by (rule references_grow [OF parts(3)]) (use parts(6) 2(4) rows in \<open>auto simp: 2(2) subset_iff\<close>)
      moreover have "distinct (map pd_sku (replace_row pd_id q (sh_products d)))"
        using parts(1) 2(3) unfolding keys_ok_def by (intro distinct_replace_row) blast+
      ultimately show ?thesis using parts rows 2(5) by (auto simp: catalog_wf_def keys_ok_def 2(2))
    qed (use wf in simp)
  next
    assume "db_delete_product i d = (Inr u, d')"
    then have d': "d' = d\<lparr>sh_products := filter (\<lambda>p. pd_id p \<noteq> i) (sh_products d), sh_stock := filter (\<lambda>k. sk_product k \<noteq> i) (sh_stock d)\<rparr>"
      and free: "i \<notin> (\<Union>s\<in>set (sh_sales d). li_product ` set (sa_lines s))"
      by (auto simp: db_delete_product_def statement_Inr list_ex_iff)
    let ?products = "filter (\<lambda>p. pd_id p \<noteq> i) (sh_products d)" and ?stock = "filter (\<lambda>k. sk_product k \<noteq> i) (sh_stock d)"
    have "i \<notin> sk_product ` set ?stock" "sk_product ` set ?stock \<subseteq> pd_id ` set (sh_products d)"
      and others: "sk_store ` set ?stock \<subseteq> st_id ` set (sh_stores d)" "pd_category ` set ?products \<subseteq> ct_id ` set (sh_categories d)"
      using parts(3) by (auto simp: references_ok_def)
    then have "sk_product ` set ?stock \<subseteq> pd_id ` set ?products" by (intro image_filter_id)
    moreover have "(\<Union>s\<in>set (sh_sales d). li_product ` set (sa_lines s)) \<subseteq> pd_id ` set ?products"
      using free parts(3) by (intro image_filter_id) (simp_all add: references_ok_def)
    moreover note others
    ultimately show "catalog_wf d'"
      using parts by (simp add: catalog_wf_def d' keys_ok_def references_ok_def distinct_map_filter)
  }
qed

lemma below_grows:
  assumes "acyclic (below cs)" and "\<not> no_cycle_trigger cs c"
    and "\<And>x p. (x, p) \<in> below cs' \<Longrightarrow> (x, p) \<in> below cs \<or> x = ct_id c \<and> ct_parent c = Some p"
  shows "acyclic (below cs')"
proof (cases "ct_parent c")
  case None
  with assms(1,3) show ?thesis by (auto intro: acyclic_subset)
next
  case (Some p)
  then have "(p, ct_id c) \<notin> (below cs)\<^sup>*" using assms(2) by (simp add: no_cycle_trigger_def set_ancestors)
  then have "acyclic (insert (ct_id c, p) (below cs))" using assms(1) by simp
  moreover have "below cs' \<subseteq> insert (ct_id c, p) (below cs)" using assms(3) Some by auto
  ultimately show ?thesis by (rule acyclic_subset)
qed

lemma category_writes:
  assumes wf: "catalog_wf d"
  shows "db_create_category c d = (Inr u, d') \<Longrightarrow> catalog_wf d'" and "db_update_category c d = (Inr u, d') \<Longrightarrow> catalog_wf d'"
    and "db_delete_category i d = (Inr u, d') \<Longrightarrow> catalog_wf d'"
proof -
  note parts = catalog_parts [OF wf]
  let ?cs = "sh_categories d"
  have tree: "distinct (map ct_id ?cs)" "distinct (map ct_name ?cs)" "acyclic (below ?cs)"
    and closed: "c \<in> set ?cs \<Longrightarrow> ct_parent c = Some p \<Longrightarrow> p \<in> ct_id ` set ?cs" for c p
    using parts(2) unfolding category_tree_def by (blast, blast, blast, fastforce)
  {
    assume "db_create_category c d = (Inr u, d')"
    then have d': "d' = d\<lparr>sh_categories := ?cs @ [c]\<rparr>" and checks: "\<not> no_cycle_trigger ?cs c" "ct_id c \<notin> ct_id ` set ?cs"
      "ct_name c \<notin> ct_name ` set ?cs" "\<And>p. ct_parent c = Some p \<Longrightarrow> p \<in> ct_id ` set ?cs"
      by (auto simp: db_create_category_def category_checks_def statement_Inr)
    have "acyclic (below (?cs @ [c]))" by (rule below_grows [OF tree(3) checks(1)]) (auto simp: below_iff)
    then have "category_tree (?cs @ [c])"
      using tree checks(2-4) closed by (auto simp: category_tree_def split: option.splits)
    moreover have "references_ok d'" by (rule references_grow [OF parts(3)]) (use parts(6) in \<open>auto simp: d'\<close>)
    ultimately show "catalog_wf d'" using parts by (simp add: catalog_wf_def keys_ok_def d')
  next
    assume "db_update_category c d = (Inr u, d')"
    then consider "d' = d" | "d' = d\<lparr>sh_categories := replace_row ct_id c ?cs\<rparr>" "\<not> no_cycle_trigger ?cs c"
        "ct_name c \<notin> ct_name ` set (filter (\<lambda>x. ct_id x \<noteq> ct_id c) ?cs)" "\<And>p. ct_parent c = Some p \<Longrightarrow> p \<in> ct_id ` set ?cs"
      by (fastforce simp: db_update_category_def category_checks_def statement_Inr replaces split: if_splits option.splits)
    then show "catalog_wf d'"
    proof cases
      case 2
      let ?new = "replace_row ct_id c ?cs"
      have rows: "x \<in> set ?new \<Longrightarrow> x = c \<or> x \<in> set ?cs" for x using set_replace_row [of ct_id c ?cs] by auto
      have "acyclic (below ?new)"
        by (rule below_grows [OF tree(3) 2(2)]) (auto simp: below_iff dest!: rows)
      moreover have "distinct (map ct_name ?new)" using tree(1,2) 2(3) by (rule distinct_replace_row)
      moreover have "\<forall>x\<in>set ?new. case ct_parent x of None \<Rightarrow> True | Some p \<Rightarrow> p \<in> ct_id ` set ?new"
        unfolding image_replace_row using 2(4) closed by (auto dest!: rows split: option.splits)
      ultimately have "category_tree ?new" using tree(1) by (simp add: category_tree_def)
      moreover have "references_ok d'" by (rule references_grow [OF parts(3)]) (use parts(6) in \<open>simp_all add: 2(1)\<close>)
      ultimately show ?thesis using parts by (simp add: catalog_wf_def keys_ok_def 2(1))
    qed (use wf in simp)
  next
    assume "db_delete_category i d = (Inr u, d')"
    then have d': "d' = d\<lparr>sh_categories := filter (\<lambda>c. ct_id c \<noteq> i) ?cs, sh_interests := filter (\<lambda>(_, c). c \<noteq> i) (sh_interests d)\<rparr>"
      and free: "\<forall>c\<in>set ?cs. ct_parent c = Some i \<longrightarrow> ct_id c = i" "i \<notin> pd_category ` set (sh_products d)"
      by (auto simp: db_delete_category_def statement_Inr list_ex_iff)
    let ?new = "filter (\<lambda>c. ct_id c \<noteq> i) ?cs" and ?interests = "filter (\<lambda>(_, c). c \<noteq> i) (sh_interests d)"
    have "acyclic (below ?new)" by (rule acyclic_subset [OF tree(3)]) (auto simp: below_iff)
    moreover have "\<forall>x\<in>set ?new. case ct_parent x of None \<Rightarrow> True | Some p \<Rightarrow> p \<in> ct_id ` set ?new"
      using closed free(1) by (fastforce split: option.splits)
    ultimately have "category_tree ?new" using tree by (simp add: category_tree_def distinct_map_filter)
    moreover have "i \<notin> snd ` set ?interests" "snd ` set ?interests \<subseteq> ct_id ` set ?cs"
      using parts(3) by (auto simp: references_ok_def)
    then have "snd ` set ?interests \<subseteq> ct_id ` set ?new" by (rule image_filter_id)
    moreover have "pd_category ` set (sh_products d) \<subseteq> ct_id ` set ?new" using free(2) parts(6) by (rule image_filter_id)
    ultimately show "catalog_wf d'" using parts by (simp add: catalog_wf_def d' keys_ok_def references_ok_def)
  }
qed

section \<open>Every sequence of writes\<close>

datatype catalog_call =
    CreateRole nat string "string option"
  | UpdateRole nat "string option"
  | DeleteRole nat
  | CreateChannel nat string
  | UpdateChannel nat string
  | DeleteChannel nat
  | CreateCategory nat string "nat option"
  | UpdateCategory nat string "nat option"
  | DeleteCategory nat
  | CreateStore nat string string string
  | UpdateStore nat string string string bool
  | DeleteStore nat
  | CreateProduct nat string string nat int "string option"
  | UpdateProduct nat string string nat int bool "string option"
  | DeleteProduct nat

fun perform :: "catalog_call \<Rightarrow> (shop_db, catalog_error, unit) operation" where
  "perform (CreateRole i c x) = create_role i c x"
| "perform (UpdateRole i x) = update_role_entry i x"
| "perform (DeleteRole i) = delete_role i"
| "perform (CreateChannel i n) = create_channel i n"
| "perform (UpdateChannel i n) = update_channel i n"
| "perform (DeleteChannel i) = delete_channel i"
| "perform (CreateCategory i n p) = create_category i n p"
| "perform (UpdateCategory i n p) = update_category i n p"
| "perform (DeleteCategory i) = delete_category i"
| "perform (CreateStore i n c s) = create_store i n c s"
| "perform (UpdateStore i n c s a) = update_store i n c s a"
| "perform (DeleteStore i) = delete_store i"
| "perform (CreateProduct i s n c p x) = create_product i s n c p x"
| "perform (UpdateProduct i s n c p a x) = update_product i s n c p a x"
| "perform (DeleteProduct i) = delete_product i"

definition catalog_step :: "catalog_call \<Rightarrow> shop_db \<Rightarrow> shop_db" where
  "catalog_step call d = committed (snd (perform call False (at_rest d)))"

lemma catalog_write_keeps:
  assumes "catalog_wf d" and "\<And>d'. body d = (Inr (), d') \<Longrightarrow> catalog_wf d'"
  shows "catalog_wf (committed (snd (catalog_write entity op body False (at_rest d))))"
  using assms by (auto simp: catalog_write_at_rest split: prod.splits sum.splits)

lemma update_category_body_writes: "catalog_wf d \<Longrightarrow> update_category_body i n p d = (Inr u, d') \<Longrightarrow> catalog_wf d'"
  by (auto simp: update_category_body_def split: if_splits intro: category_writes)

interpretation catalog: stepwise catalog_step catalog_wf
proof
  fix d call
  assume "catalog_wf d"
  then show "catalog_wf (catalog_step call d)"
    by (cases call)
      (auto simp: catalog_step_def create_role_def update_role_entry_def delete_role_def create_channel_def update_channel_def delete_channel_def
        create_category_def update_category_def delete_category_def create_store_def update_store_def delete_store_def
        create_product_def update_product_def delete_product_def intro!: catalog_write_keeps
        intro: role_writes channel_writes category_writes store_writes product_writes update_category_body_writes)
qed

text \<open>
  C25. Whatever is written to the catalogue, in any order and with any values, the shop stays well formed: the
  categories are a tree with unique names, every row a sale, a customer, a user, a stock count or another row of
  the catalogue refers to exists, keys are unique, no price is negative, and \<open>ADMIN\<close> is role 1's code alone, with
  no role code that could be mistaken for it.
\<close>

theorem shop_stays_well_formed:
  assumes "catalog_wf d"
  shows "catalog_wf (fold catalog_step calls d)"
  using assms by (rule catalog.run_inv)

definition example_shop :: shop_db where
  "example_shop =
    \<lparr>sh_roles = [\<lparr>ro_id = 1, ro_code = ''ADMIN'', ro_description = None\<rparr>], sh_user_roles = [1],
     sh_channels = [\<lparr>ch_id = 1, ch_name = ''Store''\<rparr>, \<lparr>ch_id = 2, ch_name = ''Web''\<rparr>],
     sh_categories = [\<lparr>ct_id = 1, ct_name = ''Dairy'', ct_parent = None\<rparr>, \<lparr>ct_id = 2, ct_name = ''Milk'', ct_parent = Some 1\<rparr>],
     sh_stores = [\<lparr>st_id = 1, st_name = ''Centre'', st_city = ''Puebla'', st_state = ''Puebla'', st_active = True\<rparr>],
     sh_products = [\<lparr>pd_id = 1, pd_sku = ''M1'', pd_name = ''Whole milk'', pd_category = 2, pd_price = 2500, pd_image = None, pd_active = True\<rparr>,
       \<lparr>pd_id = 2, pd_sku = ''C1'', pd_name = ''Cheese'', pd_category = 1, pd_price = 9000, pd_image = None, pd_active = True\<rparr>],
     sh_customers = [\<lparr>cu_id = 1, cu_name = ''Ana'', cu_channel = 1, cu_registered = 0\<rparr>, \<lparr>cu_id = 2, cu_name = ''Luis'', cu_channel = 1, cu_registered = 0\<rparr>],
     sh_preferred = [], sh_interests = [(1, 1)],
     sh_sales = [\<lparr>sa_id = 1, sa_source = ''a'', sa_customer = 1, sa_store = 1, sa_channel = 1, sa_at = 1000, sa_total = 5000, sa_origin = ''OBSERVED'',
         sa_lines = [\<lparr>li_product = 1, li_quantity = 2, li_price = 2500\<rparr>]\<rparr>,
       \<lparr>sa_id = 2, sa_source = ''b'', sa_customer = 2, sa_store = 1, sa_channel = 2, sa_at = 2000, sa_total = 9000, sa_origin = ''OBSERVED'',
         sa_lines = [\<lparr>li_product = 2, li_quantity = 1, li_price = 9000\<rparr>]\<rparr>],
     sh_stock = [\<lparr>sk_store = 1, sk_product = 1, sk_quantity = 5\<rparr>, \<lparr>sk_store = 1, sk_product = 2, sk_quantity = 3\<rparr>]\<rparr>"

lemma example_shop_wf: "catalog_wf example_shop"
proof -
  have "keys_ok example_shop \<and> references_ok example_shop" by code_simp
  moreover have "\<forall>r\<in>set (sh_roles example_shop). role_ok r" "\<forall>p\<in>set (sh_products example_shop). 0 \<le> pd_price p" by code_simp+
  moreover have "below (sh_categories example_shop) = {(2, 1)}" by (simp add: below_def parent_pairs_def example_shop_def)
  then have "category_tree (sh_categories example_shop)" by (simp add: category_tree_def) (simp add: example_shop_def acyclic_def)
  ultimately show ?thesis by (simp add: catalog_wf_def)
qed

theorem shop_stays_well_formed_witness:
  "category_tree (sh_categories (fold catalog_step [CreateCategory 3 ''Skimmed'' (Some 2), UpdateCategory 1 ''Dairy'' (Some 3)] example_shop))"
  using shop_stays_well_formed [OF example_shop_wf] unfolding catalog_wf_def by blast

end
