(* ===== verification/Consumption.thy ===== *)
theory Consumption
  imports Catalog Segmentation
begin

text \<open>
  The customer consumption profile, \<open>web/services/consumption_profile.py\<close> over \<open>web/db/consumption.py\<close>: the totals
  of one customer's sales over a window, how the dominant channel and store, the favourite categories and the
  frequent products are ranked, the arithmetic, and the current and previous segment of the history. The shop's
  tables are those of \<open>Catalog\<close>, the history and the runs those of \<open>Segmentation\<close>; the order of the rows of a
  \<open>GROUP BY\<close>, which SQL leaves open, is the order of the keys here, and nothing depends on it.
\<close>

section \<open>Reads\<close>

record group_total =
  gt_id :: nat
  gt_name :: string
  gt_purchases :: nat
  gt_spend :: int

record category_total =
  ca_id :: nat
  ca_name :: string
  ca_purchases :: nat
  ca_units :: int
  ca_spend :: int

record product_total =
  pt_id :: nat
  pt_name :: string
  pt_purchases :: nat
  pt_units :: int

record sales_totals =
  to_purchases :: nat
  to_spend :: "int option"
  to_last :: "int option"
  to_seeded :: bool
  to_window_seeded :: bool

definition channel_name :: "shop_db \<Rightarrow> nat \<Rightarrow> string option" where
  "channel_name d i = map_option ch_name (find (\<lambda>c. ch_id c = i) (sh_channels d))"

definition store_name :: "shop_db \<Rightarrow> nat \<Rightarrow> string option" where
  "store_name d i = map_option st_name (find (\<lambda>s. st_id s = i) (sh_stores d))"

definition category_name :: "shop_db \<Rightarrow> nat \<Rightarrow> string option" where
  "category_name d i = map_option ct_name (find (\<lambda>c. ct_id c = i) (sh_categories d))"

definition product_of :: "shop_db \<Rightarrow> nat \<Rightarrow> product_row option" where
  "product_of d i = find (\<lambda>p. pd_id p = i) (sh_products d)"

text \<open>The sales of a customer between two instants, both included.\<close>

definition sales_between :: "shop_db \<Rightarrow> nat \<Rightarrow> int \<Rightarrow> int \<Rightarrow> shop_sale list" where
  "sales_between d c since until = filter (\<lambda>s. sa_customer s = c \<and> since \<le> sa_at s \<and> sa_at s \<le> until) (sh_sales d)"

definition keys_of :: "('a \<Rightarrow> nat) \<Rightarrow> 'a list \<Rightarrow> nat list" where
  "keys_of f xs = sort (remdups (map f xs))"

text \<open>\<open>JOIN ... GROUP BY\<close> over the headers: one row per key that names a row of the joined table.\<close>

definition header_totals :: "(nat \<Rightarrow> string option) \<Rightarrow> (shop_sale \<Rightarrow> nat) \<Rightarrow> shop_sale list \<Rightarrow> group_total list" where
  "header_totals name key ss = concat (map (\<lambda>k.
     (case name k of
        None \<Rightarrow> []
      | Some n \<Rightarrow>
          (let mine = filter (\<lambda>s. key s = k) ss
           in [\<lparr>gt_id = k, gt_name = n, gt_purchases = length mine, gt_spend = sum_list (map sa_total mine)\<rparr>]))) (keys_of key ss))"

text \<open>The lines of some sales, each with its sale, joined with the product it is of.\<close>

definition lines_of :: "shop_db \<Rightarrow> shop_sale list \<Rightarrow> (nat \<times> sale_line \<times> product_row) list" where
  "lines_of d ss = concat (map (\<lambda>s. concat (map (\<lambda>l.
     (case product_of d (li_product l) of None \<Rightarrow> [] | Some p \<Rightarrow> [(sa_id s, l, p)])) (sa_lines s))) ss)"

definition category_totals :: "shop_db \<Rightarrow> shop_sale list \<Rightarrow> category_total list" where
  "category_totals d ss =
    (let ls = lines_of d ss
     in concat (map (\<lambda>k.
       (case category_name d k of
          None \<Rightarrow> []
        | Some n \<Rightarrow>
            (let mine = filter (\<lambda>(_, _, p). pd_category p = k) ls
             in [\<lparr>ca_id = k, ca_name = n, ca_purchases = length (remdups (map fst mine)),
                  ca_units = sum_list (map (\<lambda>(_, l, _). li_quantity l) mine),
                  ca_spend = sum_list (map (\<lambda>(_, l, _). li_quantity l * li_price l) mine)\<rparr>]))) (keys_of (\<lambda>(_, _, p). pd_category p) ls)))"

definition product_totals :: "shop_db \<Rightarrow> shop_sale list \<Rightarrow> product_total list" where
  "product_totals d ss =
    (let ls = lines_of d ss
     in map (\<lambda>k. (let mine = filter (\<lambda>(_, _, p). pd_id p = k) ls
          in \<lparr>pt_id = k, pt_name = (case mine of (_, _, p) # _ \<Rightarrow> pd_name p | [] \<Rightarrow> []), pt_purchases = length mine,
              pt_units = sum_list (map (\<lambda>(_, l, _). li_quantity l) mine)\<rparr>)) (keys_of (\<lambda>(_, _, p). pd_id p) ls))"

definition latest :: "shop_sale list \<Rightarrow> int option" where
  "latest ss = (case ss of [] \<Rightarrow> None | s # rest \<Rightarrow> Some (fold max (map sa_at rest) (sa_at s)))"

definition get_sales_totals :: "shop_db \<Rightarrow> nat \<Rightarrow> int \<Rightarrow> int \<Rightarrow> sales_totals" where
  "get_sales_totals d c since until =
    (let ss = sales_between d c since until
     in \<lparr>to_purchases = length ss, to_spend = (if ss = [] then None else Some (sum_list (map sa_total ss))),
         to_last = latest ss, to_seeded = list_ex (\<lambda>s. sa_origin s = ''SEEDED'') ss,
         to_window_seeded = list_ex (\<lambda>s. sa_origin s = ''SEEDED'' \<and> since \<le> sa_at s \<and> sa_at s \<le> until) (sh_sales d)\<rparr>)"

definition list_channel_totals :: "shop_db \<Rightarrow> nat \<Rightarrow> int \<Rightarrow> int \<Rightarrow> group_total list" where
  "list_channel_totals d c since until = header_totals (channel_name d) sa_channel (sales_between d c since until)"

definition list_store_totals :: "shop_db \<Rightarrow> nat \<Rightarrow> int \<Rightarrow> int \<Rightarrow> group_total list" where
  "list_store_totals d c since until = header_totals (store_name d) sa_store (sales_between d c since until)"

definition list_category_totals :: "shop_db \<Rightarrow> nat \<Rightarrow> int \<Rightarrow> int \<Rightarrow> category_total list" where
  "list_category_totals d c since until = category_totals d (sales_between d c since until)"

definition list_product_totals :: "shop_db \<Rightarrow> nat \<Rightarrow> int \<Rightarrow> int \<Rightarrow> product_total list" where
  "list_product_totals d c since until = product_totals d (sales_between d c since until)"

text \<open>What was paid and what the same units list for today, in cents; nothing when no line has a positive list price.\<close>

definition get_discount_totals :: "shop_db \<Rightarrow> nat \<Rightarrow> int \<Rightarrow> int \<Rightarrow> (int \<times> int) option" where
  "get_discount_totals d c since until =
    (let ls = filter (\<lambda>(_, _, p). 0 < pd_price p) (lines_of d (sales_between d c since until))
     in if ls = [] then None
        else Some (sum_list (map (\<lambda>(_, l, _). li_quantity l * li_price l) ls), sum_list (map (\<lambda>(_, l, p). li_quantity l * pd_price p) ls)))"

section \<open>The current and the previous segment\<close>

record history_view =
  hv_row :: history_row
  hv_run :: run_row

text \<open>The open row first, then by start and by id, newest first; the position in the table is the row's id.\<close>

definition newest_first :: "seg_db \<Rightarrow> nat \<Rightarrow> history_row list" where
  "newest_first g c = map snd (sort_key (\<lambda>(n, h). (h_to h \<noteq> None, - h_from h, - int n))
     (filter (\<lambda>(n, h). h_customer h = c) (enumerate 0 (seg_history g))))"

text \<open>The rows that continue a row's label back in time without a gap, and what comes before them.\<close>

fun streak :: "history_row \<Rightarrow> history_row list \<Rightarrow> history_row list \<times> history_row list" where
  "streak h [] = ([], [])"
| "streak h (x # xs) =
    (if h_label x = h_label h \<and> h_to x = Some (h_from h) then (case streak x xs of (same, older) \<Rightarrow> (x # same, older)) else ([], x # xs))"

definition view_of :: "seg_db \<Rightarrow> history_row \<Rightarrow> history_view option" where
  "view_of g h = map_option (\<lambda>r. \<lparr>hv_row = h, hv_run = r\<rparr>) (find (\<lambda>r. rr_id r = h_run h) (runs g))"

definition current_and_previous :: "seg_db \<Rightarrow> nat \<Rightarrow> history_view option \<times> history_view option" where
  "current_and_previous g c =
    (case newest_first g c of
       [] \<Rightarrow> (None, None)
     | h # older \<Rightarrow>
         if h_to h \<noteq> None then (None, view_of g h)
         else case streak h older of (same, before) \<Rightarrow>
             (view_of g (h\<lparr>h_from := fold min (map h_from same) (h_from h)\<rparr>),
              (case before of [] \<Rightarrow> None | x # _ \<Rightarrow> view_of g x)))"

section \<open>Ranking\<close>

definition dominant_key :: "group_total \<Rightarrow> int \<times> int \<times> nat" where
  "dominant_key g = (- int (gt_purchases g), - gt_spend g, gt_id g)"

definition rank_dominant :: "group_total list \<Rightarrow> group_total option" where
  "rank_dominant gs = (case sort_key dominant_key gs of [] \<Rightarrow> None | g # _ \<Rightarrow> Some g)"

definition TOP_CATEGORIES :: nat where "TOP_CATEGORIES = 3"
definition TOP_PRODUCTS :: nat where "TOP_PRODUCTS = 5"

definition category_key :: "category_total \<Rightarrow> int \<times> int \<times> int \<times> nat" where
  "category_key g = (- int (ca_purchases g), - ca_units g, - ca_spend g, ca_id g)"

definition rank_categories :: "category_total list \<Rightarrow> nat \<Rightarrow> category_total list" where
  "rank_categories gs limit = take limit (sort_key category_key gs)"

definition product_key :: "product_total \<Rightarrow> int \<times> int \<times> nat" where
  "product_key g = (- int (pt_purchases g), - pt_units g, pt_id g)"

definition rank_products :: "product_total list \<Rightarrow> nat \<Rightarrow> product_total list" where
  "rank_products gs limit = take limit (sort_key product_key gs)"

section \<open>Arithmetic\<close>

text \<open>Cents per purchase, and hundredths of a percent.\<close>

definition average_ticket :: "int \<Rightarrow> nat \<Rightarrow> int" where
  "average_ticket total_spend purchases = half_up (of_int total_spend / of_nat purchases)"

definition average_discount_pct :: "(int \<times> int) option \<Rightarrow> int option" where
  "average_discount_pct totals =
    (case totals of
       None \<Rightarrow> None
     | Some (paid, at_list) \<Rightarrow> if at_list \<le> 0 then None else Some (half_up ((1 - of_int paid / of_int at_list) * 10000)))"

section \<open>The profile\<close>

record segment_state =
  ss_run :: nat
  ss_label :: "string option"
  ss_from :: int
  ss_to :: "int option"
  ss_origin :: string

record rfm_snapshot =
  rs_run :: nat
  rs_at :: int
  rs_window :: int
  rs_last :: "int option"
  rs_frequency :: "int option"
  rs_monetary :: "int option"
  rs_r :: "int option"
  rs_f :: "int option"
  rs_m :: "int option"
  rs_origin :: string

record consumption_profile =
  cp_customer :: nat
  cp_customer_name :: string
  cp_window_days :: int
  cp_start :: int
  cp_end :: int
  cp_has_sales :: bool
  cp_spend :: "int option"
  cp_ticket :: "int option"
  cp_purchases :: "nat option"
  cp_last :: "int option"
  cp_channel :: "group_total option"
  cp_store :: "group_total option"
  cp_categories :: "category_total list"
  cp_products :: "product_total list"
  cp_discount :: "int option"
  cp_rfm :: "rfm_snapshot option"
  cp_current :: "segment_state option"
  cp_previous :: "segment_state option"
  cp_seeded :: bool
  cp_window_seeded :: bool

datatype profile_error = InvalidProfileWindow | UnknownCustomer

text \<open>\<open>is_seeded\<close> of an origin that is known.\<close>

definition seeded_origin :: "string \<Rightarrow> bool" where
  "seeded_origin x \<longleftrightarrow> x \<noteq> ''OBSERVED''"

definition segment_synthetic :: "consumption_profile \<Rightarrow> bool" where
  "segment_synthetic p \<longleftrightarrow>
    (case cp_rfm p of None \<Rightarrow> False | Some r \<Rightarrow> seeded_origin (rs_origin r))
    \<or> (case cp_current p of None \<Rightarrow> False | Some s \<Rightarrow> seeded_origin (ss_origin s))
    \<or> (case cp_previous p of None \<Rightarrow> False | Some s \<Rightarrow> seeded_origin (ss_origin s))"

definition segment_state_of :: "history_view \<Rightarrow> segment_state" where
  "segment_state_of v = \<lparr>ss_run = h_run (hv_row v), ss_label = h_label (hv_row v), ss_from = h_from (hv_row v), ss_to = h_to (hv_row v),
     ss_origin = rr_origin (hv_run v)\<rparr>"

definition rfm_snapshot_of :: "history_view option \<Rightarrow> rfm_snapshot option" where
  "rfm_snapshot_of view =
    (case view of
       None \<Rightarrow> None
     | Some v \<Rightarrow>
         (let h = hv_row v
          in if h_last h = None \<and> h_frequency h = None \<and> h_monetary h = None \<and> h_r h = None \<and> h_f h = None \<and> h_m h = None then None
             else Some \<lparr>rs_run = h_run h, rs_at = rr_at (hv_run v), rs_window = rr_window (hv_run v), rs_last = h_last h,
                        rs_frequency = h_frequency h, rs_monetary = h_monetary h, rs_r = h_r h, rs_f = h_f h, rs_m = h_m h,
                        rs_origin = rr_origin (hv_run v)\<rparr>))"

text \<open>The part of a profile that does not come from its sales.\<close>

definition profile_frame :: "shop_db \<Rightarrow> seg_db \<Rightarrow> customer_row \<Rightarrow> int \<Rightarrow> int \<Rightarrow> sales_totals \<Rightarrow> consumption_profile" where
  "profile_frame d g customer window_days until totals =
    (case current_and_previous g (cu_id customer) of (open_view, previous) \<Rightarrow>
      \<lparr>cp_customer = cu_id customer, cp_customer_name = cu_name customer, cp_window_days = window_days,
       cp_start = until - days window_days, cp_end = until, cp_has_sales = False, cp_spend = None, cp_ticket = None, cp_purchases = None,
       cp_last = None, cp_channel = None, cp_store = None, cp_categories = [], cp_products = [], cp_discount = None,
       cp_rfm = rfm_snapshot_of open_view, cp_current = map_option segment_state_of open_view,
       cp_previous = map_option segment_state_of previous, cp_seeded = False, cp_window_seeded = to_window_seeded totals\<rparr>)"

definition build_profile ::
  "(string \<Rightarrow> nat option) \<Rightarrow> shop_db \<Rightarrow> seg_db \<Rightarrow> string \<Rightarrow> int \<Rightarrow> int \<Rightarrow> profile_error + consumption_profile" where
  "build_profile parse_uuid d g raw window_days until =
    (if \<not> (MIN_WINDOW_DAYS \<le> window_days \<and> window_days \<le> MAX_WINDOW_DAYS) then Inl InvalidProfileWindow
     else case parse_uuid raw of
         None \<Rightarrow> Inl UnknownCustomer
       | Some c \<Rightarrow>
           (case find (\<lambda>x. cu_id x = c) (sh_customers d) of
              None \<Rightarrow> Inl UnknownCustomer
            | Some customer \<Rightarrow>
                (let since = until - days window_days;
                     totals = get_sales_totals d c since until;
                     frame = profile_frame d g customer window_days until totals
                 in if to_purchases totals = 0 then Inr frame
                    else Inr (frame\<lparr>cp_has_sales := True, cp_spend := to_spend totals,
                           cp_ticket := Some (average_ticket (the (to_spend totals)) (to_purchases totals)),
                           cp_purchases := Some (to_purchases totals), cp_last := to_last totals,
                           cp_channel := rank_dominant (list_channel_totals d c since until),
                           cp_store := rank_dominant (list_store_totals d c since until),
                           cp_categories := rank_categories (list_category_totals d c since until) TOP_CATEGORIES,
                           cp_products := rank_products (list_product_totals d c since until) TOP_PRODUCTS,
                           cp_discount := average_discount_pct (get_discount_totals d c since until),
                           cp_seeded := to_seeded totals\<rparr>))))"

section \<open>Rankings do not depend on the order of the rows\<close>

interpretation dominant: total_ranking dominant_key gt_id
  by unfold_locales (auto simp: dominant_key_def)

interpretation favourite: total_ranking category_key ca_id
  by unfold_locales (auto simp: category_key_def)

interpretation frequent: total_ranking product_key pt_id
  by unfold_locales (auto simp: product_key_def)

lemma rank_dominant_Some:
  assumes "rank_dominant gs = Some g"
  shows "g \<in> set gs" and "x \<in> set gs \<Longrightarrow> dominant_key g \<le> dominant_key x"
proof -
  from assms obtain rest where s: "sort_key dominant_key gs = g # rest" by (auto simp: rank_dominant_def split: list.splits)
  then have "set (sort_key dominant_key gs) = insert g (set rest)" by simp
  then show "g \<in> set gs" by auto
  have "sorted (map dominant_key (g # rest))" using s by (metis sorted_sort_key)
  moreover assume "x \<in> set gs"
  then have "x \<in> set (g # rest)" using s by (metis set_sort)
  ultimately show "dominant_key g \<le> dominant_key x" by auto
qed

lemma rank_dominant_None: "rank_dominant gs = None \<longleftrightarrow> gs = []"
proof
  assume "rank_dominant gs = None"
  then have "sort_key dominant_key gs = []" by (simp add: rank_dominant_def split: list.splits)
  then have "length (sort_key dominant_key gs) = 0" by (simp only: list.size)
  then show "gs = []" by simp
qed (simp add: rank_dominant_def)

lemma sort_keys_distinct [simp]: "distinct (keys_of f xs)" "set (keys_of f xs) = f ` set xs"
  by (simp_all add: keys_of_def)

section \<open>The totals of the groups add up to those of the window\<close>

lemma sum_by_key:
  fixes w :: "'a \<Rightarrow> 'b::comm_monoid_add"
  assumes "distinct ks" and "\<forall>x\<in>set xs. f x \<in> set ks"
  shows "(\<Sum>k\<leftarrow>ks. sum_list (map w (filter (\<lambda>x. f x = k) xs))) = sum_list (map w xs)"
  using assms(2)
proof (induction xs)
  case (Cons x xs)
  have one: "(\<Sum>k\<leftarrow>ks. if f x = k then w x else 0) = w x"
  proof -
    have "(\<Sum>k\<leftarrow>ks. if f x = k then w x else 0) = (\<Sum>k\<in>set ks. if f x = k then w x else 0)"
      using assms(1) by (simp add: sum_list_distinct_conv_sum_set)
    then show ?thesis using Cons.prems by simp
  qed
  have "(\<Sum>k\<leftarrow>ks. sum_list (map w (filter (\<lambda>y. f y = k) (x # xs))))
      = (\<Sum>k\<leftarrow>ks. (if f x = k then w x else 0) + sum_list (map w (filter (\<lambda>y. f y = k) xs)))"
    by (rule arg_cong [where f = sum_list], rule map_cong) auto
  then show ?case using Cons by (simp add: sum_list_addf one)
qed (induction ks; simp)

lemma header_totals_known:
  assumes "\<forall>s\<in>set ss. name (key s) \<noteq> None"
  shows "header_totals name key ss = map (\<lambda>k. let mine = filter (\<lambda>s. key s = k) ss
      in \<lparr>gt_id = k, gt_name = the (name k), gt_purchases = length mine, gt_spend = sum_list (map sa_total mine)\<rparr>) (keys_of key ss)"
proof -
  have "concat (map (\<lambda>k. case name k of None \<Rightarrow> [] | Some n \<Rightarrow> [h k n]) ks) = map (\<lambda>k. h k (the (name k))) ks"
    if "\<forall>k\<in>set ks. name k \<noteq> None" for ks and h :: "nat \<Rightarrow> string \<Rightarrow> group_total"
    using that by (induction ks) auto
  moreover have "\<forall>k\<in>set (keys_of key ss). name k \<noteq> None" using assms by simp
  ultimately show ?thesis unfolding header_totals_def Let_def by simp
qed

lemma header_totals_reconcile:
  assumes "\<forall>s\<in>set ss. name (key s) \<noteq> None"
  shows "sum_list (map gt_purchases (header_totals name key ss)) = length ss"
    and "sum_list (map gt_spend (header_totals name key ss)) = sum_list (map sa_total ss)"
    and "header_totals name key ss = [] \<longleftrightarrow> ss = []"
    and "distinct (map gt_id (header_totals name key ss))"
proof -
  note known = header_totals_known [OF assms]
  have "(\<Sum>k\<leftarrow>keys_of key ss. sum_list (map (\<lambda>_. 1 :: nat) (filter (\<lambda>s. key s = k) ss))) = sum_list (map (\<lambda>_. 1) ss)"
    by (rule sum_by_key) simp_all
  then show "sum_list (map gt_purchases (header_totals name key ss)) = length ss"
    by (simp add: known comp_def Let_def sum_list_triv)
  have "(\<Sum>k\<leftarrow>keys_of key ss. sum_list (map sa_total (filter (\<lambda>s. key s = k) ss))) = sum_list (map sa_total ss)"
    by (rule sum_by_key) simp_all
  then show "sum_list (map gt_spend (header_totals name key ss)) = sum_list (map sa_total ss)"
    by (simp add: known comp_def Let_def)
  have "keys_of key ss = [] \<longleftrightarrow> set (keys_of key ss) = {}" by (simp only: set_empty)
  then show "header_totals name key ss = [] \<longleftrightarrow> ss = []" unfolding known by simp
  show "distinct (map gt_id (header_totals name key ss))" by (simp add: known comp_def Let_def)
qed

lemma names_known:
  assumes "catalog_wf d" and "s \<in> set (sh_sales d)"
  shows "channel_name d (sa_channel s) \<noteq> None" and "store_name d (sa_store s) \<noteq> None"
proof -
  have "sa_channel s \<in> ch_id ` set (sh_channels d)" "sa_store s \<in> st_id ` set (sh_stores d)"
    using assms by (auto simp: catalog_wf_def references_ok_def)
  then show "channel_name d (sa_channel s) \<noteq> None" "store_name d (sa_store s) \<noteq> None"
    by (auto simp: channel_name_def store_name_def find_None_iff)
qed

text \<open>
  A profile adds up: it has sales exactly when the customer bought in the window, and then the purchases and the
  spend of the channels, and of the stores, each sum to those of the profile; the dominant channel and store are
  ones the customer bought through, with no other ahead of them; and the average ticket is within half a cent of
  the spend per purchase. Without sales every measure is absent.
\<close>

lemma profile_adds_up:
  assumes "catalog_wf d" and "build_profile parse_uuid d g raw window_days until = Inr p"
  defines "ss \<equiv> sales_between d (cp_customer p) (cp_start p) (cp_end p)"
    and "channels \<equiv> list_channel_totals d (cp_customer p) (cp_start p) (cp_end p)"
    and "stores \<equiv> list_store_totals d (cp_customer p) (cp_start p) (cp_end p)"
  shows "if ss = [] then \<not> cp_has_sales p \<and> cp_spend p = None \<and> cp_purchases p = None \<and> cp_store p = None \<and> cp_channel p = None
    else cp_has_sales p \<and> cp_purchases p = Some (length ss) \<and> cp_spend p = Some (sum_list (map sa_total ss))
      \<and> sum_list (map gt_purchases channels) = length ss \<and> sum_list (map gt_purchases stores) = length ss
      \<and> sum_list (map gt_spend channels) = sum_list (map sa_total ss) \<and> sum_list (map gt_spend stores) = sum_list (map sa_total ss)
      \<and> (\<exists>c s t. cp_channel p = Some c \<and> c \<in> set channels \<and> list_all (\<lambda>x. gt_purchases x \<le> gt_purchases c) channels
           \<and> cp_store p = Some s \<and> s \<in> set stores \<and> list_all (\<lambda>x. gt_purchases x \<le> gt_purchases s) stores
           \<and> cp_ticket p = Some t \<and> \<bar>of_int t - of_int (sum_list (map sa_total ss)) / rat_of_nat (length ss)\<bar> \<le> 1 / 2)"
proof -
  from assms(2) obtain c customer where c: "parse_uuid raw = Some c" "find (\<lambda>x. cu_id x = c) (sh_customers d) = Some customer"
    by (auto simp: build_profile_def split: if_splits option.splits)
  then have id: "cu_id customer = c" by (auto simp: find_Some_iff)
  have window: "cp_customer p = c" "cp_start p = until - days window_days" "cp_end p = until"
    using assms(2) c id by (auto simp: build_profile_def Let_def profile_frame_def split: if_splits prod.splits)
  have ss: "ss = sales_between d c (until - days window_days) until" by (simp add: ss_def window)
  have totals: "to_purchases (get_sales_totals d c (until - days window_days) until) = length ss"
    "to_spend (get_sales_totals d c (until - days window_days) until) = (if ss = [] then None else Some (sum_list (map sa_total ss)))"
    by (simp_all add: get_sales_totals_def Let_def ss)
  have known: "\<forall>s\<in>set ss. channel_name d (sa_channel s) \<noteq> None" "\<forall>s\<in>set ss. store_name d (sa_store s) \<noteq> None"
    using names_known [OF assms(1)] by (auto simp: ss sales_between_def)
  have groups: "channels = header_totals (channel_name d) sa_channel ss" "stores = header_totals (store_name d) sa_store ss"
    by (simp_all add: channels_def stores_def list_channel_totals_def list_store_totals_def window ss)
  note channel = header_totals_reconcile [OF known(1), folded groups(1)] and store = header_totals_reconcile [OF known(2), folded groups(2)]
  show ?thesis
  proof (cases "ss = []")
    case True
    then show ?thesis
      using assms(2) c totals by (auto simp: build_profile_def Let_def profile_frame_def split: if_splits prod.splits)
  next
    case False
    have p: "cp_has_sales p" "cp_purchases p = Some (length ss)" "cp_spend p = Some (sum_list (map sa_total ss))"
      "cp_channel p = rank_dominant channels" "cp_store p = rank_dominant stores"
      "cp_ticket p = Some (average_ticket (sum_list (map sa_total ss)) (length ss))"
      using assms(2) c totals False by (auto simp: build_profile_def Let_def channels_def stores_def window split: if_splits)
    obtain x y where xy: "rank_dominant channels = Some x" "rank_dominant stores = Some y"
      using channel(3) store(3) False by (metis not_None_eq rank_dominant_None)
    have "list_all (\<lambda>z. gt_purchases z \<le> gt_purchases x) channels" "list_all (\<lambda>z. gt_purchases z \<le> gt_purchases y) stores"
      using rank_dominant_Some(2) [OF xy(1)] rank_dominant_Some(2) [OF xy(2)]
      by (fastforce simp: list_all_iff dominant_key_def)+
    moreover have "\<bar>of_int (average_ticket (sum_list (map sa_total ss)) (length ss)) - of_int (sum_list (map sa_total ss)) / rat_of_nat (length ss)\<bar> \<le> 1 / 2"
      unfolding average_ticket_def by (rule half_up_nearest)
    ultimately show ?thesis using False p xy rank_dominant_Some(1) channel store by auto
  qed
qed

lemma example_profile: "is_ok (build_profile (\<lambda>_. Some 1) example_shop example_seg_db ''1'' 30 1000)"
  by code_simp

end
