(* ===== verification/Recommendations.thy ===== *)
theory Recommendations
  imports Consumption
begin

text \<open>
  Product recommendations, \<open>web/services/recommendations.py\<close> over \<open>web/db/recommendations.py\<close>: what is eligible, the
  three signals that make it relevant, the order, and the reasons each recommendation states. The walk up the
  hierarchy of categories is a loop that ends only because the hierarchy is a tree (\<open>Catalog\<close>), so it is a partial
  function, and \<open>None\<close> is the loop that does not end. A reason is a constructor with the values its sentence names.
\<close>

section \<open>Reads\<close>

record stocked_product =
  sp_id :: nat
  sp_name :: string
  sp_category :: nat
  sp_category_name :: string
  sp_quantity :: int

definition list_stocked_products :: "shop_db \<Rightarrow> nat \<Rightarrow> stocked_product list" where
  "list_stocked_products d store =
    sort_key sp_id (concat (map (\<lambda>k.
      (case product_of d (sk_product k) of
         None \<Rightarrow> []
       | Some p \<Rightarrow>
           (case category_name d (pd_category p) of
              None \<Rightarrow> []
            | Some n \<Rightarrow>
                if sk_store k = store \<and> 0 < sk_quantity k \<and> pd_active p
                then [\<lparr>sp_id = pd_id p, sp_name = pd_name p, sp_category = pd_category p, sp_category_name = n, sp_quantity = sk_quantity k\<rparr>]
                else []))) (sh_stock d)))"

text \<open>The other customers whose open row carries the label, and bought a product in the window.\<close>

definition segment_members :: "seg_db \<Rightarrow> string \<Rightarrow> nat \<Rightarrow> nat list" where
  "segment_members g label c =
    map h_customer (filter (\<lambda>h. h_to h = None \<and> h_label h = Some label \<and> h_customer h \<noteq> c) (seg_history g))"

definition buyers_of :: "shop_db \<Rightarrow> nat list \<Rightarrow> int \<Rightarrow> int \<Rightarrow> nat \<Rightarrow> nat list" where
  "buyers_of d members since until product =
    remdups (map sa_customer (filter (\<lambda>s. sa_customer s \<in> set members \<and> since \<le> sa_at s \<and> sa_at s \<le> until
      \<and> product \<in> li_product ` set (sa_lines s)) (sh_sales d)))"

definition list_segment_buyers :: "shop_db \<Rightarrow> seg_db \<Rightarrow> string \<Rightarrow> nat \<Rightarrow> int \<Rightarrow> int \<Rightarrow> nat \<Rightarrow> nat" where
  "list_segment_buyers d g label c since until product = length (buyers_of d (segment_members g label c) since until product)"

definition list_interest_categories :: "shop_db \<Rightarrow> nat \<Rightarrow> nat list" where
  "list_interest_categories d c =
    map ct_id (filter (\<lambda>k. (c, ct_id k) \<in> set (sh_interests d)) (sh_categories d))"

section \<open>Ranking\<close>

datatype placed = Own string | PartOf string string

datatype reason =
    BoughtBySegment nat string int
  | InPreferredCategory placed
  | InBoughtCategory placed string nat nat int

record recommendation =
  re_product :: nat
  re_name :: string
  re_category :: nat
  re_category_name :: string
  re_in_stock :: int
  re_reasons :: "reason list"

datatype recommend_error = InvalidLimit | NoProfile profile_error | MissingCategory nat

text \<open>\<open>while (category := categories.get(chain[-1])) is not None and category.parent_category_id is not None\<close>\<close>

definition parent_of :: "category_row list \<Rightarrow> nat \<Rightarrow> nat option" where
  "parent_of cs i = (case find (\<lambda>c. ct_id c = i) cs of None \<Rightarrow> None | Some c \<Rightarrow> ct_parent c)"

partial_function (option) lineage :: "category_row list \<Rightarrow> nat \<Rightarrow> nat list option" where
  "lineage cs i =
    (case parent_of cs i of
       None \<Rightarrow> Some [i]
     | Some p \<Rightarrow> Option.bind (lineage cs p) (\<lambda>chain. Some (i # chain)))"

declare lineage.simps [code]

definition nearest_match :: "nat list \<Rightarrow> nat list \<Rightarrow> nat option" where
  "nearest_match chain wanted = find (\<lambda>c. c \<in> set wanted) chain"

definition placed_at :: "category_row list \<Rightarrow> stocked_product \<Rightarrow> nat \<Rightarrow> recommend_error + placed" where
  "placed_at cs p matched =
    (if matched = sp_category p then Inr (Own (sp_category_name p))
     else case find (\<lambda>c. ct_id c = matched) cs of
         None \<Rightarrow> Inl (MissingCategory matched)
       | Some c \<Rightarrow> Inr (PartOf (sp_category_name p) (ct_name c)))"

text \<open>What the ranking is given, beside the stocked products.\<close>

record signals =
  sg_preferred :: "nat list"
  sg_bought :: "(nat \<times> nat) list"
  sg_categories :: "category_row list"
  sg_total :: nat
  sg_purchased :: "nat list"
  sg_buyers :: "nat \<Rightarrow> nat"
  sg_label :: string
  sg_window :: int

definition bought_categories :: "signals \<Rightarrow> nat list" where
  "bought_categories z = map fst (filter (\<lambda>(_, n). 1 \<le> n) (sg_bought z))"

definition bought_from :: "signals \<Rightarrow> nat option \<Rightarrow> nat" where
  "bought_from z c = (case c of None \<Rightarrow> 0 | Some k \<Rightarrow> the (map_of (sg_bought z) k))"

definition signal_reason :: "recommend_error + placed \<Rightarrow> (placed \<Rightarrow> reason) \<Rightarrow> recommend_error + reason list" where
  "signal_reason r f = (case r of Inl e \<Rightarrow> Inl e | Inr x \<Rightarrow> Inr [f x])"

definition reasons_along :: "signals \<Rightarrow> stocked_product \<Rightarrow> nat list \<Rightarrow> recommend_error + reason list" where
  "reasons_along z p chain =
    (let buyers = sg_buyers z (sp_id p);
         segment = (if 1 \<le> buyers then [BoughtBySegment buyers (sg_label z) (sg_window z)] else [])
     in case (case nearest_match chain (sg_preferred z) of
                None \<Rightarrow> Inr [] | Some m \<Rightarrow> signal_reason (placed_at (sg_categories z) p m) InPreferredCategory) of
         Inl e \<Rightarrow> Inl e
       | Inr preferred \<Rightarrow>
           (case (case nearest_match chain (bought_categories z) of
                    None \<Rightarrow> Inr []
                  | Some m \<Rightarrow>
                      signal_reason (placed_at (sg_categories z) p m) (\<lambda>x.
                        InBoughtCategory x (case x of Own n \<Rightarrow> n | PartOf _ n \<Rightarrow> n) (bought_from z (Some m)) (sg_total z) (sg_window z))) of
              Inl e \<Rightarrow> Inl e
            | Inr history \<Rightarrow> Inr (segment @ preferred @ history)))"

definition candidate_key :: "signals \<Rightarrow> stocked_product \<Rightarrow> nat list \<Rightarrow> reason list \<Rightarrow> int \<times> int \<times> int \<times> nat" where
  "candidate_key z p chain reasons =
    (- int (length reasons), - int (sg_buyers z (sp_id p)), - int (bought_from z (nearest_match chain (bought_categories z))), sp_id p)"

definition recommended :: "stocked_product \<Rightarrow> reason list \<Rightarrow> recommendation" where
  "recommended p reasons = \<lparr>re_product = sp_id p, re_name = sp_name p, re_category = sp_category p,
     re_category_name = sp_category_name p, re_in_stock = sp_quantity p, re_reasons = reasons\<rparr>"

text \<open>The body of the loop: nothing for a product that is skipped.\<close>

definition candidate :: "signals \<Rightarrow> stocked_product \<Rightarrow> (recommend_error + ((int \<times> int \<times> int \<times> nat) \<times> recommendation) list) option" where
  "candidate z p =
    (if sp_quantity p \<le> 0 then Some (Inr [])
     else if sp_id p \<in> set (sg_purchased z) then Some (Inr [])
     else case lineage (sg_categories z) (sp_category p) of
         None \<Rightarrow> None
       | Some chain \<Rightarrow>
           (case reasons_along z p chain of
              Inl e \<Rightarrow> Some (Inl e)
            | Inr reasons \<Rightarrow> Some (Inr (if reasons = [] then [] else [(candidate_key z p chain reasons, recommended p reasons)]))))"

fun candidates :: "signals \<Rightarrow> stocked_product list \<Rightarrow> (recommend_error + ((int \<times> int \<times> int \<times> nat) \<times> recommendation) list) option" where
  "candidates z [] = Some (Inr [])"
| "candidates z (p # ps) =
    (case candidate z p of
       None \<Rightarrow> None
     | Some (Inl e) \<Rightarrow> Some (Inl e)
     | Some (Inr found) \<Rightarrow>
         (case candidates z ps of
            None \<Rightarrow> None
          | Some (Inl e) \<Rightarrow> Some (Inl e)
          | Some (Inr others) \<Rightarrow> Some (Inr (found @ others))))"

definition rank_candidates :: "signals \<Rightarrow> stocked_product list \<Rightarrow> nat \<Rightarrow> (recommend_error + recommendation list) option" where
  "rank_candidates z stocked limit =
    (case candidates z stocked of
       None \<Rightarrow> None
     | Some (Inl e) \<Rightarrow> Some (Inl e)
     | Some (Inr found) \<Rightarrow> Some (Inr (map snd (take limit (sort_key fst found)))))"

section \<open>The whole computation\<close>

definition DEFAULT_LIMIT :: int where "DEFAULT_LIMIT = 10"
definition MAX_LIMIT :: int where "MAX_LIMIT = 50"

datatype recommend_status = Recommended | NoSegment | NoUsualStore | NoneMatch

datatype recommend_message =
    NeverAssigned
  | LeftUnassigned nat
  | NoSaleInWindow int
  | NothingMatches string
  | FromStock nat string

record recommendation_result =
  rx_profile :: consumption_profile
  rx_status :: recommend_status
  rx_message :: recommend_message
  rx_label :: "(string \<times> string) option"
  rx_store :: "(nat \<times> string) option"
  rx_channel :: "(nat \<times> string) option"
  rx_items :: "recommendation list"
  rx_synthetic :: bool

definition result_frame :: "consumption_profile \<Rightarrow> recommendation_result" where
  "result_frame p = \<lparr>rx_profile = p, rx_status = NoSegment, rx_message = NeverAssigned, rx_label = None, rx_store = None, rx_channel = None,
     rx_items = [], rx_synthetic = (cp_window_seeded p \<or> (case cp_current p of None \<Rightarrow> False | Some s \<Rightarrow> seeded_origin (ss_origin s)))\<rparr>"

text \<open>\<open>segment.label_name or segment.label_code\<close>; \<open>names\<close> is the column \<open>segment_label.name\<close>.\<close>

definition label_shown :: "(string \<Rightarrow> string option) \<Rightarrow> string \<Rightarrow> string" where
  "label_shown names label = (case names label of None \<Rightarrow> label | Some n \<Rightarrow> if n = [] then label else n)"

definition signals_of :: "(string \<Rightarrow> string option) \<Rightarrow> shop_db \<Rightarrow> seg_db \<Rightarrow> consumption_profile \<Rightarrow> string \<Rightarrow> signals" where
  "signals_of names d g p label =
    \<lparr>sg_preferred = list_interest_categories d (cp_customer p),
     sg_bought = map (\<lambda>c. (ca_id c, ca_purchases c)) (cp_categories p),
     sg_categories = sh_categories d,
     sg_total = (case cp_purchases p of None \<Rightarrow> 0 | Some n \<Rightarrow> n),
     sg_purchased = map pt_id (list_product_totals d (cp_customer p) (cp_start p) (cp_end p)),
     sg_buyers = list_segment_buyers d g label (cp_customer p) (cp_start p) (cp_end p),
     sg_label = label_shown names label, sg_window = cp_window_days p\<rparr>"

definition recommend ::
  "(string \<Rightarrow> nat option) \<Rightarrow> (string \<Rightarrow> string option) \<Rightarrow> shop_db \<Rightarrow> seg_db \<Rightarrow> string \<Rightarrow> int \<Rightarrow> int \<Rightarrow> int \<Rightarrow> (recommend_error + recommendation_result) option" where
  "recommend parse_uuid names d g raw window_days limit until =
    (if \<not> (1 \<le> limit \<and> limit \<le> MAX_LIMIT) then Some (Inl InvalidLimit)
     else case build_profile parse_uuid d g raw window_days until of
         Inl e \<Rightarrow> Some (Inl (NoProfile e))
       | Inr p \<Rightarrow>
           (case cp_current p of
              None \<Rightarrow> Some (Inr (result_frame p))
            | Some segment \<Rightarrow>
                (case ss_label segment of
                   None \<Rightarrow> Some (Inr ((result_frame p)\<lparr>rx_message := LeftUnassigned (ss_run segment)\<rparr>))
                 | Some label \<Rightarrow>
                     (case cp_store p of
                        None \<Rightarrow> Some (Inr ((result_frame p)\<lparr>rx_status := NoUsualStore, rx_label := Some (label, label_shown names label), rx_message := NoSaleInWindow window_days\<rparr>))
                      | Some store \<Rightarrow>
                          (case rank_candidates (signals_of names d g p label) (list_stocked_products d (gt_id store)) (nat limit) of
                             None \<Rightarrow> None
                           | Some (Inl e) \<Rightarrow> Some (Inl e)
                           | Some (Inr items) \<Rightarrow>
                               Some (Inr ((result_frame p)\<lparr>
                                 rx_status := (if items = [] then NoneMatch else Recommended),
                                 rx_message := (if items = [] then NothingMatches (gt_name store) else FromStock (length items) (gt_name store)),
                                 rx_label := Some (label, label_shown names label), rx_store := Some (gt_id store, gt_name store),
                                 rx_channel := map_option (\<lambda>c. (gt_id c, gt_name c)) (cp_channel p), rx_items := items\<rparr>)))))))"

section \<open>The walk up ends\<close>

lemma parent_of_below: "distinct (map ct_id cs) \<Longrightarrow> parent_of cs i = Some p \<longleftrightarrow> (i, p) \<in> below cs"
proof -
  assume d: "distinct (map ct_id cs)"
  show ?thesis
  proof
    assume "parent_of cs i = Some p"
    then show "(i, p) \<in> below cs" by (auto simp: parent_of_def below_iff find_Some_iff split: option.splits)
  next
    assume "(i, p) \<in> below cs"
    then obtain c where c: "c \<in> set cs" "ct_id c = i" "ct_parent c = Some p" by (auto simp: below_iff)
    have "find (\<lambda>c. ct_id c = i) cs = Some c" using d c(1,2) by (induction cs) (auto dest: image_eqI [where f = ct_id])
    then show "parent_of cs i = Some p" by (simp add: parent_of_def c(3))
  qed
qed

text \<open>In a tree the walk ends at a top-level category, having met no category twice, and it meets exactly the categories above.\<close>

lemma lineage_ends:
  assumes "category_tree cs"
  shows "\<exists>chain. lineage cs i = Some chain \<and> chain \<noteq> [] \<and> hd chain = i \<and> set chain = (below cs)\<^sup>* `` {i} \<and> distinct chain"
proof -
  have tree: "distinct (map ct_id cs)" "acyclic (below cs)" using assms by (auto simp: category_tree_def)
  have "wf ((below cs)\<inverse>)" using tree(2) by (intro finite_acyclic_wf_converse) (simp_all add: below_def)
  then show ?thesis
  proof (induction i rule: wf_induct_rule)
    case (less i)
    show ?case
    proof (cases "parent_of cs i")
      case None
      then have "(below cs)\<^sup>* `` {i} = {i}"
        using parent_of_below [OF tree(1), of i] by (auto elim: converse_rtranclE)
      then show ?thesis by (subst lineage.simps) (simp add: None)
    next
      case (Some p)
      then have up: "(i, p) \<in> below cs" by (simp only: parent_of_below [OF tree(1)])
      have only: "q = p" if "(i, q) \<in> below cs" for q
      proof -
        from that have "parent_of cs i = Some q" by (simp only: parent_of_below [OF tree(1)])
        with Some show ?thesis by simp
      qed
      from up have "(p, i) \<in> (below cs)\<inverse>" by simp
      from less [OF this] obtain chain where chain: "lineage cs p = Some chain" "set chain = (below cs)\<^sup>* `` {p}" "distinct chain"
        by blast
      have "i \<notin> set chain"
      proof
        assume "i \<in> set chain"
        then have "(i, i) \<in> (below cs)\<^sup>+" using up chain(2) by (auto intro: rtrancl_into_trancl2)
        then show False using tree(2) by (auto simp: acyclic_def)
      qed
      moreover have "(below cs)\<^sup>* `` {i} = insert i ((below cs)\<^sup>* `` {p})"
      proof (rule set_eqI)
        fix x
        have "(i, x) \<in> (below cs)\<^sup>* \<longleftrightarrow> x = i \<or> (p, x) \<in> (below cs)\<^sup>*"
        proof
          assume "(i, x) \<in> (below cs)\<^sup>*"
          then show "x = i \<or> (p, x) \<in> (below cs)\<^sup>*" by (cases rule: converse_rtranclE) (use only in blast)+
        next
          assume "x = i \<or> (p, x) \<in> (below cs)\<^sup>*"
          then show "(i, x) \<in> (below cs)\<^sup>*" using up by (blast intro: converse_rtrancl_into_rtrancl)
        qed
        then show "x \<in> (below cs)\<^sup>* `` {i} \<longleftrightarrow> x \<in> insert i ((below cs)\<^sup>* `` {p})" by simp
      qed
      ultimately show ?thesis using chain by (subst lineage.simps) (simp add: Some)
    qed
  qed
qed

section \<open>What is recommended, and why\<close>

definition chain_of :: "signals \<Rightarrow> stocked_product \<Rightarrow> nat list" where
  "chain_of z p = the (lineage (sg_categories z) (sp_category p))"

definition because :: "signals \<Rightarrow> stocked_product \<Rightarrow> reason list" where
  "because z p = (case reasons_along z p (chain_of z p) of Inl _ \<Rightarrow> [] | Inr rs \<Rightarrow> rs)"

definition relevant :: "signals \<Rightarrow> stocked_product \<Rightarrow> bool" where
  "relevant z p \<longleftrightarrow> 0 < sp_quantity p \<and> sp_id p \<notin> set (sg_purchased z) \<and> because z p \<noteq> []"

definition rank_of :: "signals \<Rightarrow> stocked_product \<Rightarrow> int \<times> int \<times> int \<times> nat" where
  "rank_of z p = candidate_key z p (chain_of z p) (because z p)"

lemma nearest_match_Some: "nearest_match chain ms = Some m \<Longrightarrow> m \<in> set chain \<and> m \<in> set ms"
  by (auto simp: nearest_match_def find_Some_iff)

lemma placed_at_ok:
  assumes "category_tree (sg_categories z)" and "lineage (sg_categories z) (sp_category p) = Some chain" and "m \<in> set chain"
  shows "\<exists>x. placed_at (sg_categories z) p m = Inr x"
proof (cases "m = sp_category p")
  case False
  have "(sp_category p, m) \<in> (below (sg_categories z))\<^sup>*"
    using lineage_ends [OF assms(1), of "sp_category p"] assms(2,3) by auto
  then obtain x where "(x, m) \<in> below (sg_categories z)" using False by (metis rtranclE)
  then have "m \<in> ct_id ` set (sg_categories z)"
    using assms(1) by (fastforce simp: below_iff category_tree_def split: option.splits)
  then have "find (\<lambda>c. ct_id c = m) (sg_categories z) \<noteq> None" by (auto simp: find_None_iff)
  then show ?thesis using False by (auto simp: placed_at_def)
qed (simp add: placed_at_def)

lemma reasons_ok:
  assumes tree: "category_tree (sg_categories z)"
  shows "lineage (sg_categories z) (sp_category p) = Some (chain_of z p)" and "reasons_along z p (chain_of z p) = Inr (because z p)"
proof -
  show chain: "lineage (sg_categories z) (sp_category p) = Some (chain_of z p)"
    using lineage_ends [OF tree, of "sp_category p"] by (auto simp: chain_of_def)
  have ok: "\<exists>rs. (case nearest_match (chain_of z p) ms of None \<Rightarrow> Inr [] | Some m \<Rightarrow> signal_reason (placed_at (sg_categories z) p m) (f m)) = Inr rs"
    for ms and f :: "nat \<Rightarrow> placed \<Rightarrow> reason"
    using placed_at_ok [OF tree chain] nearest_match_Some [of "chain_of z p" ms] by (fastforce simp: signal_reason_def split: option.split)
  obtain a where a: "(case nearest_match (chain_of z p) (sg_preferred z) of
      None \<Rightarrow> Inr [] | Some m \<Rightarrow> signal_reason (placed_at (sg_categories z) p m) InPreferredCategory) = Inr a"
    using ok [where ms = "sg_preferred z" and f = "\<lambda>_. InPreferredCategory"] by blast
  obtain b where b: "(case nearest_match (chain_of z p) (bought_categories z) of
      None \<Rightarrow> Inr []
    | Some m \<Rightarrow> signal_reason (placed_at (sg_categories z) p m) (\<lambda>x.
        InBoughtCategory x (case x of Own n \<Rightarrow> n | PartOf _ n \<Rightarrow> n) (bought_from z (Some m)) (sg_total z) (sg_window z))) = Inr b"
    using ok [where ms = "bought_categories z" and f = "\<lambda>m x. InBoughtCategory x (case x of Own n \<Rightarrow> n | PartOf _ n \<Rightarrow> n) (bought_from z (Some m)) (sg_total z) (sg_window z)"]
    by blast
  have "is_ok (reasons_along z p (chain_of z p))" unfolding reasons_along_def Let_def a b by simp
  then show "reasons_along z p (chain_of z p) = Inr (because z p)" by (auto simp: because_def is_ok_iff)
qed

lemma candidates_exact:
  assumes "category_tree (sg_categories z)"
  shows "candidates z ps = Some (Inr (map (\<lambda>p. (rank_of z p, recommended p (because z p))) (filter (relevant z) ps)))"
proof (induction ps)
  case (Cons p ps)
  have "candidate z p = Some (Inr (if relevant z p then [(rank_of z p, recommended p (because z p))] else []))"
    using reasons_ok [OF assms, of p] by (simp add: candidate_def relevant_def rank_of_def)
  with Cons show ?case by simp
qed simp

lemma sort_key_map_pairs: "sort_key fst (map (\<lambda>x. (k x, r x)) xs) = map (\<lambda>x. (k x, r x)) (sort_key k xs)"
proof (induction xs)
  case (Cons x xs)
  have "insort_key fst (k x, r x) (map (\<lambda>x. (k x, r x)) ys) = map (\<lambda>x. (k x, r x)) (insort_key k x ys)" for ys
    by (induction ys) simp_all
  with Cons show ?case by simp
qed simp

text \<open>
  The ranking is exactly the first of the products that are in stock, not yet bought and have a reason, by the
  number of reasons, then by how many of the segment bought it, then by the purchases of its category, then by
  id - for any hierarchy that is a tree, however deep, and with no weights.
\<close>

lemma rank_candidates_exact:
  assumes "category_tree (sg_categories z)"
  shows "rank_candidates z stocked limit
    = Some (Inr (map (\<lambda>p. recommended p (because z p)) (take limit (sort_key (rank_of z) (filter (relevant z) stocked)))))"
  using candidates_exact [OF assms, of stocked] by (simp add: rank_candidates_def sort_key_map_pairs take_map comp_def)

section \<open>What holds of every recommendation\<close>

text \<open>The two ways the walk or the names could fail - a loop in the hierarchy, a category that is missing - are absent in a catalogue that is well formed.\<close>

lemma signals_fields [simp]:
  "sg_categories (signals_of names d g p label) = sh_categories d" "sg_preferred (signals_of names d g p label) = list_interest_categories d (cp_customer p)"
  "sg_bought (signals_of names d g p label) = map (\<lambda>c. (ca_id c, ca_purchases c)) (cp_categories p)"
  "sg_purchased (signals_of names d g p label) = map pt_id (list_product_totals d (cp_customer p) (cp_start p) (cp_end p))"
  "sg_buyers (signals_of names d g p label) = list_segment_buyers d g label (cp_customer p) (cp_start p) (cp_end p)"
  "sg_total (signals_of names d g p label) = (case cp_purchases p of None \<Rightarrow> 0 | Some n \<Rightarrow> n)"
  "sg_window (signals_of names d g p label) = cp_window_days p" "sg_label (signals_of names d g p label) = label_shown names label"
  by (simp_all add: signals_of_def)

text \<open>
  C34. The recommendations are always computed: in a well-formed catalogue every walk up the hierarchy ends and finds
  each category it names, so the request returns, and the only refusals are a limit out of range, a window out of
  range and an unknown customer.
\<close>

theorem recommend_terminates:
  assumes "catalog_wf d"
  shows "\<exists>r. recommend parse_uuid names d g raw window_days limit until = Some r
    \<and> (case r of Inr _ \<Rightarrow> True
       | Inl e \<Rightarrow> (e = InvalidLimit \<and> \<not> (1 \<le> limit \<and> limit \<le> 50))
           \<or> (e = NoProfile InvalidProfileWindow \<and> \<not> (MIN_WINDOW_DAYS \<le> window_days \<and> window_days \<le> MAX_WINDOW_DAYS))
           \<or> (e = NoProfile UnknownCustomer \<and> (\<forall>c. parse_uuid raw = Some c \<longrightarrow> c \<notin> cu_id ` set (sh_customers d))))"
proof -
  have tree: "category_tree (sh_categories d)" using assms by (simp add: catalog_wf_def)
  have "\<exists>items. rank_candidates (signals_of names d g p label) stocked n = Some (Inr items)" for p label stocked n
    using candidates_exact [of "signals_of names d g p label" stocked] tree by (simp add: rank_candidates_def)
  then obtain items where ranked: "\<And>p label stocked n. rank_candidates (signals_of names d g p label) stocked n = Some (Inr (items p label stocked n))"
    by metis
  show ?thesis
  proof (cases "build_profile parse_uuid d g raw window_days until")
    case (Inl e)
    then have "(e = InvalidProfileWindow \<and> \<not> (MIN_WINDOW_DAYS \<le> window_days \<and> window_days \<le> MAX_WINDOW_DAYS))
        \<or> (e = UnknownCustomer \<and> (\<forall>c. parse_uuid raw = Some c \<longrightarrow> c \<notin> cu_id ` set (sh_customers d)))"
      by (auto simp: build_profile_def Let_def find_None_iff split: if_splits option.splits)
    then show ?thesis by (auto simp: recommend_def MAX_LIMIT_def Inl)
  next
    case (Inr p)
    then show ?thesis by (auto simp: recommend_def MAX_LIMIT_def ranked split: option.split)
  qed
qed

text \<open>
  What the sentence of a reason claims, read off the rows: where the product is placed - its own category by name, and the
  name of the category that matched when that is one above - then the counts, the label and the days it shows.
\<close>

definition placement_holds :: "shop_db \<Rightarrow> nat \<Rightarrow> nat \<Rightarrow> placed \<Rightarrow> bool" where
  "placement_holds d category matched x \<longleftrightarrow> (category, matched) \<in> (below (sh_categories d))\<^sup>*
    \<and> (case x of
         Own n \<Rightarrow> matched = category \<and> category_name d category = Some n
       | PartOf n m \<Rightarrow> matched \<noteq> category \<and> category_name d category = Some n \<and> category_name d matched = Some m)"

definition window_holds :: "consumption_profile \<Rightarrow> int \<Rightarrow> bool" where
  "window_holds p w \<longleftrightarrow> cp_start p = cp_end p - days w"

fun reason_holds :: "(string \<Rightarrow> string option) \<Rightarrow> shop_db \<Rightarrow> seg_db \<Rightarrow> string \<Rightarrow> consumption_profile \<Rightarrow> nat \<Rightarrow> nat \<Rightarrow> reason \<Rightarrow> bool" where
  "reason_holds names d g label p product category (BoughtBySegment n shown w) \<longleftrightarrow>
    0 < n \<and> shown = label_shown names label \<and> window_holds p w
    \<and> n = card {c. c \<noteq> cp_customer p \<and> (\<exists>h\<in>set (seg_history g). h_customer h = c \<and> h_to h = None \<and> h_label h = Some label)
      \<and> (\<exists>s\<in>set (sales_between d c (cp_start p) (cp_end p)). product \<in> li_product ` set (sa_lines s))}"
| "reason_holds names d g label p product category (InPreferredCategory x) \<longleftrightarrow>
    (\<exists>k. (cp_customer p, k) \<in> set (sh_interests d) \<and> placement_holds d category k x)"
| "reason_holds names d g label p product category (InBoughtCategory x shown n m w) \<longleftrightarrow>
    0 < n \<and> window_holds p w \<and> m = length (sales_between d (cp_customer p) (cp_start p) (cp_end p))
    \<and> (\<exists>k. placement_holds d category k x \<and> category_name d k = Some shown
        \<and> n = card (fst ` {e \<in> set (lines_of d (sales_between d (cp_customer p) (cp_start p) (cp_end p))). pd_category (snd (snd e)) = k}))"

lemma placed_at_holds:
  assumes "(sp_category x, m) \<in> (below (sh_categories d))\<^sup>*" and "category_name d (sp_category x) = Some (sp_category_name x)"
    and "placed_at (sh_categories d) x m = Inr y"
  shows "placement_holds d (sp_category x) m y" and "category_name d m = Some (case y of Own n \<Rightarrow> n | PartOf _ n \<Rightarrow> n)"
  using assms by (auto simp: placement_holds_def placed_at_def category_name_def split: if_splits option.splits)

lemma buyers_exact:
  "list_segment_buyers d g label c since until product = card {k. k \<noteq> c \<and> (\<exists>h\<in>set (seg_history g). h_customer h = k \<and> h_to h = None \<and> h_label h = Some label)
     \<and> (\<exists>s\<in>set (sales_between d k since until). product \<in> li_product ` set (sa_lines s))}"
proof -
  have "set (buyers_of d (segment_members g label c) since until product) = {k. k \<noteq> c \<and> (\<exists>h\<in>set (seg_history g). h_customer h = k \<and> h_to h = None \<and> h_label h = Some label)
     \<and> (\<exists>s\<in>set (sales_between d k since until). product \<in> li_product ` set (sa_lines s))}"
    unfolding buyers_of_def segment_members_def sales_between_def
  proof (rule set_eqI, rule iffI, goal_cases)
    case (1 k)
    then show ?case by auto
  next
    case (2 k)
    then obtain h s where "h \<in> set (seg_history g)" "h_customer h = k" "k \<noteq> c" "h_to h = None" "h_label h = Some label"
      and s: "s \<in> set (sh_sales d)" "sa_customer s = k" "since \<le> sa_at s" "sa_at s \<le> until" "product \<in> li_product ` set (sa_lines s)" by auto
    then have "k \<in> h_customer ` {h \<in> set (seg_history g). h_to h = None \<and> h_label h = Some label \<and> h_customer h \<noteq> c}" by auto
    with s show ?case by (auto intro!: image_eqI [where x = s])
  qed
  moreover have "distinct (buyers_of d (segment_members g label c) since until product)" by (simp add: buyers_of_def)
  ultimately show ?thesis unfolding list_segment_buyers_def by (metis distinct_card)
qed

lemma category_totals_count:
  assumes "t \<in> set (category_totals d ss)"
  shows "0 < ca_purchases t" and "ca_purchases t = card (fst ` {e \<in> set (lines_of d ss). pd_category (snd (snd e)) = ca_id t})"
proof -
  from assms obtain k n where k: "k \<in> pd_category ` (\<lambda>(_, _, p). p) ` set (lines_of d ss)"
    and t: "ca_id t = k" "ca_purchases t = length (remdups (map fst (filter (\<lambda>(_, _, p). pd_category p = k) (lines_of d ss))))"
    by (force simp: category_totals_def Let_def split: option.splits)
  have rows: "set (map fst (filter (\<lambda>(_, _, p). pd_category p = k) (lines_of d ss))) = fst ` {e \<in> set (lines_of d ss). pd_category (snd (snd e)) = k}"
    by (force simp: image_iff)
  show count: "ca_purchases t = card (fst ` {e \<in> set (lines_of d ss). pd_category (snd (snd e)) = ca_id t})"
    unfolding t rows [symmetric] by (simp add: length_remdups_card_conv)
  have "fst ` {e \<in> set (lines_of d ss). pd_category (snd (snd e)) = k} \<noteq> {}" using k by force
  then show "0 < ca_purchases t" unfolding count t(1) by (subst card_gt_0_iff) simp
qed

lemma stocked_row:
  assumes "x \<in> set (list_stocked_products d store)"
  shows "\<exists>k\<in>set (sh_stock d). \<exists>q\<in>set (sh_products d). sk_store k = store \<and> 0 < sk_quantity k \<and> sk_product k = pd_id q \<and> pd_active q
    \<and> sp_id x = pd_id q \<and> sp_name x = pd_name q \<and> sp_category x = pd_category q \<and> sp_quantity x = sk_quantity k
    \<and> category_name d (sp_category x) = Some (sp_category_name x)"
proof -
  from assms obtain k where k: "k \<in> set (sh_stock d)" and x: "x \<in> set (case product_of d (sk_product k) of
         None \<Rightarrow> []
       | Some p \<Rightarrow>
           (case category_name d (pd_category p) of
              None \<Rightarrow> []
            | Some n \<Rightarrow>
                if sk_store k = store \<and> 0 < sk_quantity k \<and> pd_active p
                then [\<lparr>sp_id = pd_id p, sp_name = pd_name p, sp_category = pd_category p, sp_category_name = n, sp_quantity = sk_quantity k\<rparr>]
                else []))"
    by (auto simp: list_stocked_products_def)
  from x obtain q where q: "product_of d (sk_product k) = Some q" by (cases "product_of d (sk_product k)") auto
  with x have "sk_store k = store" "0 < sk_quantity k" "pd_active q"
    "sp_id x = pd_id q" "sp_name x = pd_name q" "sp_category x = pd_category q" "sp_quantity x = sk_quantity k"
    "category_name d (sp_category x) = Some (sp_category_name x)"
    by (auto split: option.splits if_splits)
  moreover from q have "q \<in> set (sh_products d)" "pd_id q = sk_product k" by (auto simp: product_of_def find_Some_iff)
  ultimately show ?thesis using k by metis
qed

lemma stocked_once:
  assumes "keys_ok d"
  shows "distinct (map sp_id (list_stocked_products d store))"
proof -
  define row :: "stock_row \<Rightarrow> stocked_product list" where "row k = (case product_of d (sk_product k) of
         None \<Rightarrow> []
       | Some p \<Rightarrow>
           (case category_name d (pd_category p) of
              None \<Rightarrow> []
            | Some n \<Rightarrow>
                if sk_store k = store \<and> 0 < sk_quantity k \<and> pd_active p
                then [\<lparr>sp_id = pd_id p, sp_name = pd_name p, sp_category = pd_category p, sp_category_name = n, sp_quantity = sk_quantity k\<rparr>]
                else []))" for k
  have row: "map sp_id (row k) \<in> {[], [sk_product k]} \<and> (row k \<noteq> [] \<longrightarrow> sk_store k = store)" for k
    by (auto simp: row_def product_of_def find_Some_iff split: option.split)
  have "distinct (map sp_id (concat (map row ks)))" if "distinct (map (\<lambda>k. (sk_store k, sk_product k)) ks)" for ks
    using that
  proof (induction ks)
    case (Cons k ks)
    have "sk_product k \<notin> sp_id ` set (concat (map row ks))" if "sk_store k = store"
    proof
      assume "sk_product k \<in> sp_id ` set (concat (map row ks))"
      then obtain j where j: "j \<in> set ks" "sk_product k \<in> set (map sp_id (row j))" by auto
      then have "sk_product j = sk_product k" "sk_store j = store" using row [of j] by auto
      then have "(sk_store k, sk_product k) = (sk_store j, sk_product j)" using that by simp
      then have "(sk_store k, sk_product k) \<in> set (map (\<lambda>k. (sk_store k, sk_product k)) ks)" using j(1) by (simp only: set_map image_eqI)
      with Cons.prems show False by simp
    qed
    with Cons row [of k] show ?case by (cases "row k") auto
  qed simp
  moreover have "distinct (map (\<lambda>k. (sk_store k, sk_product k)) (sh_stock d))" using assms by (simp add: keys_ok_def)
  ultimately have "distinct (map sp_id (concat (map row (sh_stock d))))" by blast
  moreover have "list_stocked_products d store = sort_key sp_id (concat (map row (sh_stock d)))"
    by (simp add: list_stocked_products_def row_def [abs_def])
  moreover have "mset (map sp_id (sort_key sp_id xs)) = mset (map sp_id xs)" for xs by simp
  ultimately show ?thesis by (metis mset_eq_imp_distinct_iff)
qed

lemma bought_products:
  assumes "product_of d (li_product l) \<noteq> None" and "s \<in> set ss" and "l \<in> set (sa_lines s)"
  shows "li_product l \<in> set (map pt_id (product_totals d ss))"
proof -
  from assms(1) obtain q where q: "product_of d (li_product l) = Some q" "pd_id q = li_product l" by (auto simp: product_of_def find_Some_iff)
  have "(sa_id s, l, q) \<in> set (concat (map (\<lambda>l. case product_of d (li_product l) of None \<Rightarrow> [] | Some p \<Rightarrow> [(sa_id s, l, p)]) (sa_lines s)))"
    using assms(3) q(1) by (auto intro!: bexI [of _ l])
  then have "(sa_id s, l, q) \<in> set (lines_of d ss)" using assms(2) by (auto simp: lines_of_def intro!: bexI [of _ s])
  moreover have "li_product l = (\<lambda>(_, _, p). pd_id p) (sa_id s, l, q)" using q(2) by simp
  ultimately have "li_product l \<in> set (keys_of (\<lambda>(_, _, p). pd_id p) (lines_of d ss))" unfolding sort_keys_distinct by (rule rev_image_eqI)
  then show ?thesis by (simp add: product_totals_def Let_def comp_def)
qed

lemma signal_reason_Inr: "signal_reason q f = Inr l \<longleftrightarrow> (\<exists>x. q = Inr x \<and> l = [f x])"
  by (auto simp: signal_reason_def split: sum.splits)

lemma reasons_along_cases:
  assumes "reasons_along z x chain = Inr rs" and "r \<in> set rs"
  obtains (segment) "1 \<le> sg_buyers z (sp_id x)" "r = BoughtBySegment (sg_buyers z (sp_id x)) (sg_label z) (sg_window z)"
    | (preferred) m y where "nearest_match chain (sg_preferred z) = Some m" "placed_at (sg_categories z) x m = Inr y" "r = InPreferredCategory y"
    | (bought) m y where "nearest_match chain (bought_categories z) = Some m" "placed_at (sg_categories z) x m = Inr y"
        "r = InBoughtCategory y (case y of Own n \<Rightarrow> n | PartOf _ n \<Rightarrow> n) (bought_from z (Some m)) (sg_total z) (sg_window z)"
proof -
  let ?pref = "case nearest_match chain (sg_preferred z) of
                None \<Rightarrow> Inr [] | Some m \<Rightarrow> signal_reason (placed_at (sg_categories z) x m) InPreferredCategory"
  let ?hist = "case nearest_match chain (bought_categories z) of
                    None \<Rightarrow> Inr []
                  | Some m \<Rightarrow>
                      signal_reason (placed_at (sg_categories z) x m) (\<lambda>x.
                        InBoughtCategory x (case x of Own n \<Rightarrow> n | PartOf _ n \<Rightarrow> n) (bought_from z (Some m)) (sg_total z) (sg_window z))"
  note along = assms(1) [unfolded reasons_along_def Let_def]
  obtain pref where pref: "?pref = Inr pref"
  proof (cases ?pref)
    case (Inl e)
    from along show thesis unfolding Inl by simp
  qed
  obtain hist where hist: "?hist = Inr hist"
  proof (cases ?hist)
    case (Inl e)
    from along show thesis unfolding pref Inl by simp
  qed
  from along have rs: "rs = (if 1 \<le> sg_buyers z (sp_id x) then [BoughtBySegment (sg_buyers z (sp_id x)) (sg_label z) (sg_window z)] else []) @ pref @ hist"
    unfolding pref hist by simp
  from assms(2) rs consider "1 \<le> sg_buyers z (sp_id x)" "r = BoughtBySegment (sg_buyers z (sp_id x)) (sg_label z) (sg_window z)"
    | "r \<in> set pref" | "r \<in> set hist" by (auto split: if_splits)
  then show thesis
  proof cases
    case 1
    then show thesis by (rule segment)
  next
    case 2
    with pref show thesis by (auto simp: signal_reason_Inr split: option.splits intro: preferred)
  next
    case 3
    with hist show thesis by (auto simp: signal_reason_Inr split: option.splits intro: bought)
  qed
qed

text \<open>What a profile with anything in it was computed from.\<close>

lemma profile_facts:
  assumes "build_profile parse_uuid d g raw window_days until = Inr p"
  shows "window_holds p (cp_window_days p)"
    and "cp_categories p \<noteq> [] \<Longrightarrow> cp_purchases p = Some (length (sales_between d (cp_customer p) (cp_start p) (cp_end p)))
      \<and> cp_categories p = rank_categories (category_totals d (sales_between d (cp_customer p) (cp_start p) (cp_end p))) TOP_CATEGORIES"
proof -
  from assms obtain c customer where c: "parse_uuid raw = Some c" "find (\<lambda>x. cu_id x = c) (sh_customers d) = Some customer"
    by (auto simp: build_profile_def split: if_splits option.splits)
  then have "cu_id customer = c" by (auto simp: find_Some_iff)
  note c = c this
  show "window_holds p (cp_window_days p)"
    using assms c by (auto simp: build_profile_def Let_def profile_frame_def window_holds_def split: if_splits prod.splits)
  show "cp_categories p \<noteq> [] \<Longrightarrow> cp_purchases p = Some (length (sales_between d (cp_customer p) (cp_start p) (cp_end p)))
      \<and> cp_categories p = rank_categories (category_totals d (sales_between d (cp_customer p) (cp_start p) (cp_end p))) TOP_CATEGORIES"
    using assms c by (auto simp: build_profile_def Let_def profile_frame_def get_sales_totals_def list_category_totals_def split: if_splits prod.splits)
qed

lemma reasons_hold:
  assumes wf: "catalog_wf d" and p: "build_profile parse_uuid d g raw window_days until = Inr p"
    and named: "category_name d (sp_category x) = Some (sp_category_name x)"
    and r: "r \<in> set (because (signals_of names d g p label) x)"
  shows "reason_holds names d g label p (sp_id x) (sp_category x) r"
proof -
  let ?z = "signals_of names d g p label"
  have tree: "category_tree (sg_categories ?z)" using wf by (simp add: catalog_wf_def)
  have chain: "set (chain_of ?z x) = (below (sh_categories d))\<^sup>* `` {sp_category x}"
    using lineage_ends [OF tree, of "sp_category x"] reasons_ok(1) [OF tree, of x] by auto
  from reasons_ok(2) [OF tree, of x] r show ?thesis
  proof (cases rule: reasons_along_cases)
    case segment
    then show ?thesis
      using buyers_exact [of d g label "cp_customer p" "cp_start p" "cp_end p" "sp_id x"] profile_facts(1) [OF p] by simp
  next
    case (preferred m y)
    have m: "m \<in> set (chain_of ?z x)" "m \<in> set (list_interest_categories d (cp_customer p))"
      using nearest_match_Some [OF preferred(1)] by simp_all
    then have "(sp_category x, m) \<in> (below (sh_categories d))\<^sup>*" using chain by auto
    from placed_at_holds(1) [OF this named] preferred(2) have "placement_holds d (sp_category x) m y" by simp
    with m(2) show ?thesis unfolding preferred(3) by (auto simp: list_interest_categories_def)
  next
    case (bought m y)
    let ?ss = "sales_between d (cp_customer p) (cp_start p) (cp_end p)"
    have m: "m \<in> set (chain_of ?z x)" "m \<in> fst ` set (sg_bought ?z)" using nearest_match_Some [OF bought(1)] by (auto simp: bought_categories_def)
    then obtain t where t: "t \<in> set (cp_categories p)" "ca_id t = m" "bought_from ?z (Some m) = ca_purchases t"
    proof -
      from m(2) obtain n where n: "map_of (sg_bought ?z) m = Some n" by (metis map_of_eq_None_iff not_None_eq)
      then have "(m, n) \<in> set (sg_bought ?z)" by (rule map_of_SomeD)
      then show thesis using that n by (auto simp: bought_from_def)
    qed
    then have some: "cp_categories p \<noteq> []" by auto
    note profile = profile_facts(2) [OF p some]
    have "t \<in> set (rank_categories (category_totals d ?ss) TOP_CATEGORIES)" using t(1) profile by metis
    then have "t \<in> set (category_totals d ?ss)" by (auto simp: rank_categories_def dest: in_set_takeD)
    then have count: "0 < ca_purchases t" "ca_purchases t = card (fst ` {e \<in> set (lines_of d ?ss). pd_category (snd (snd e)) = m})"
      using category_totals_count [of t d ?ss] t(2) by auto
    have up: "(sp_category x, m) \<in> (below (sh_categories d))\<^sup>*" using m(1) chain by auto
    have "placed_at (sh_categories d) x m = Inr y" using bought(2) by simp
    note placed = placed_at_holds [OF up named this]
    have "sg_total ?z = length ?ss" using profile by simp
    then show ?thesis
      unfolding bought(3) reason_holds.simps t(3) using count placed profile_facts(1) [OF p] by (intro conjI exI [of _ m]) simp_all
  qed
qed

text \<open>
  C35. Every recommendation can be defended: it is an active product with stock at the customer's usual store that the
  customer has not bought in the window, under its own name and that of its category, it appears once, there are at most
  as many as asked for, it gives at least one reason, and every reason it gives is true of the rows: the counts, the
  segment's label, the days, and the name of every category, the one that matched included.
\<close>

theorem recommendations_are_defensible:
  assumes "catalog_wf d" and "build_profile parse_uuid d g raw window_days until = Inr p"
    and "recommend parse_uuid names d g raw window_days limit until = Some (Inr r)"
  shows "int (length (rx_items r)) \<le> limit \<and> distinct (map re_product (rx_items r))
    \<and> list_all (\<lambda>e. (\<exists>s k q. cp_store p = Some s \<and> k \<in> set (sh_stock d) \<and> q \<in> set (sh_products d) \<and> sk_store k = gt_id s \<and> 0 < sk_quantity k
          \<and> sk_product k = re_product e \<and> re_in_stock e = sk_quantity k \<and> pd_id q = re_product e \<and> pd_active q \<and> re_category e = pd_category q
          \<and> re_name e = pd_name q \<and> category_name d (pd_category q) = Some (re_category_name e))
        \<and> (\<forall>s\<in>set (sales_between d (cp_customer p) (cp_start p) (cp_end p)). re_product e \<notin> li_product ` set (sa_lines s))
        \<and> re_reasons e \<noteq> []
        \<and> (\<exists>label. rx_label r = Some (label, label_shown names label) \<and> list_all (reason_holds names d g label p (re_product e) (re_category e)) (re_reasons e))) (rx_items r)"
proof -
  have tree: "category_tree (sh_categories d)" and keys: "keys_ok d" using assms(1) by (simp_all add: catalog_wf_def)
  from assms(2,3) consider "rx_items r = [] \<and> 1 \<le> limit"
    | label store where "cp_store p = Some store" "1 \<le> limit" "rx_label r = Some (label, label_shown names label)"
        "rank_candidates (signals_of names d g p label) (list_stocked_products d (gt_id store)) (nat limit) = Some (Inr (rx_items r))"
    by (auto simp: recommend_def result_frame_def split: if_splits option.splits sum.splits)
  then show ?thesis
  proof cases
    case 2
    let ?z = "signals_of names d g p label"
    define xs where "xs = take (nat limit) (sort_key (rank_of ?z) (filter (relevant ?z) (list_stocked_products d (gt_id store))))"
    have items: "rx_items r = map (\<lambda>x. recommended x (because ?z x)) xs"
      using rank_candidates_exact [of ?z "list_stocked_products d (gt_id store)" "nat limit"] tree 2(4) by (simp add: xs_def)
    have members: "x \<in> set (list_stocked_products d (gt_id store)) \<and> relevant ?z x" if "x \<in> set xs" for x
      using that by (auto simp: xs_def dest: in_set_takeD)
    have "distinct (map sp_id (filter (relevant ?z) (list_stocked_products d (gt_id store))))" by (intro distinct_map_filter stocked_once keys)
    then have "distinct (map sp_id (sort_key (rank_of ?z) (filter (relevant ?z) (list_stocked_products d (gt_id store)))))"
      by (metis mset_map mset_eq_imp_distinct_iff mset_sort)
    then have "distinct (map sp_id xs)" unfolding xs_def take_map [symmetric] by (rule distinct_take)
    moreover have "map re_product (rx_items r) = map sp_id xs" by (simp add: items recommended_def)
    moreover have "int (length (rx_items r)) \<le> limit" using 2(2) by (simp add: items xs_def)
    moreover have shown: "list_all P (rx_items r) \<longleftrightarrow> (\<forall>x\<in>set xs. P (recommended x (because ?z x)))" for P
      by (simp add: items list_all_iff)
    moreover have "(\<exists>s k q. cp_store p = Some s \<and> k \<in> set (sh_stock d) \<and> q \<in> set (sh_products d) \<and> sk_store k = gt_id s \<and> 0 < sk_quantity k
          \<and> sk_product k = sp_id x \<and> sp_quantity x = sk_quantity k \<and> pd_id q = sp_id x \<and> pd_active q \<and> sp_category x = pd_category q
          \<and> sp_name x = pd_name q \<and> category_name d (pd_category q) = Some (sp_category_name x))"
      "\<forall>s\<in>set (sales_between d (cp_customer p) (cp_start p) (cp_end p)). sp_id x \<notin> li_product ` set (sa_lines s)"
      "because ?z x \<noteq> []" "list_all (reason_holds names d g label p (sp_id x) (sp_category x)) (because ?z x)" if "x \<in> set xs" for x
    proof -
      note x = members [OF that]
      from stocked_row [of x d "gt_id store"] x 2(1) show stocked: "\<exists>s k q. cp_store p = Some s \<and> k \<in> set (sh_stock d) \<and> q \<in> set (sh_products d) \<and> sk_store k = gt_id s \<and> 0 < sk_quantity k
          \<and> sk_product k = sp_id x \<and> sp_quantity x = sk_quantity k \<and> pd_id q = sp_id x \<and> pd_active q \<and> sp_category x = pd_category q
          \<and> sp_name x = pd_name q \<and> category_name d (pd_category q) = Some (sp_category_name x)"
        by (metis (no_types, lifting))
      then have "product_of d (sp_id x) \<noteq> None" by (auto simp: product_of_def find_None_iff)
      then show "\<forall>s\<in>set (sales_between d (cp_customer p) (cp_start p) (cp_end p)). sp_id x \<notin> li_product ` set (sa_lines s)"
        using x bought_products [of d] by (fastforce simp: relevant_def list_product_totals_def)
      show "because ?z x \<noteq> []" using x by (simp add: relevant_def)
      show "list_all (reason_holds names d g label p (sp_id x) (sp_category x)) (because ?z x)"
        using reasons_hold [OF assms(1,2), of x] stocked_row [of x d "gt_id store"] x by (auto simp: list_all_iff)
    qed
    ultimately show ?thesis using 2(3) unfolding shown by (simp add: recommended_def list_all_iff)
  qed simp
qed

section \<open>On the example\<close>

text \<open>Customer 1 is loyal and is offered the cheese that customer 2, who is loyal too, bought.\<close>

definition example_segments :: seg_db where
  "example_segments = example_seg_db\<lparr>
     runs := [\<lparr>rr_id = 1, rr_method = ''RFM_RULES'', rr_window = 30, rr_parameters = RulesParameters 30 2, rr_customers = 2, rr_at = 50, rr_origin = ''OBSERVED''\<rparr>],
     seg_history := map (\<lambda>c. \<lparr>h_customer = c, h_run = 1, h_segment = Some 1, h_label = Some ''LOYAL'', h_last = None,
       h_frequency = None, h_monetary = None, h_r = None, h_f = None, h_m = None, h_from = 50, h_to = None\<rparr>) [1, 2]\<rparr>"

theorem recommend_terminates_witness:
  "\<exists>r. recommend (\<lambda>_. Some 1) (\<lambda>_. None) example_shop example_segments ''1'' 30 10 3000 = Some r"
  using recommend_terminates [OF example_shop_wf, of "\<lambda>_. Some 1" "\<lambda>_. None" example_segments "''1''" 30 10 3000] by blast

text \<open>Customer 2, who bought cheese and likes dairy, is offered milk, a part of dairy, which customer 1 bought.\<close>

definition example_liking_shop :: shop_db where
  "example_liking_shop = example_shop\<lparr>sh_interests := [(1, 1), (2, 1)]\<rparr>"

lemma example_liking_shop_wf: "catalog_wf example_liking_shop"
proof -
  have "keys_ok example_liking_shop = keys_ok example_shop" by (simp add: keys_ok_def example_liking_shop_def)
  moreover have "references_ok example_liking_shop" by code_simp
  ultimately show ?thesis using example_shop_wf by (simp add: catalog_wf_def) (simp add: example_liking_shop_def)
qed

lemma example_recommended:
  "case (build_profile (\<lambda>_. Some 2) example_liking_shop example_segments ''2'' 30 3000,
      recommend (\<lambda>_. Some 2) (\<lambda>_. None) example_liking_shop example_segments ''2'' 30 10 3000) of
     (Inr p, Some (Inr r)) \<Rightarrow> rx_label r = Some (''LOYAL'', ''LOYAL'') \<and> map (\<lambda>e. (re_product e, re_category e)) (rx_items r) = [(1, 2)]
       \<and> map re_reasons (rx_items r) =
         [[BoughtBySegment 1 ''LOYAL'' 30, InPreferredCategory (PartOf ''Milk'' ''Dairy''),
           InBoughtCategory (PartOf ''Milk'' ''Dairy'') ''Dairy'' 1 1 30]]
   | _ \<Rightarrow> False"
  by code_simp

theorem recommendations_are_defensible_witness:
  "\<exists>p r. build_profile (\<lambda>_. Some 2) example_liking_shop example_segments ''2'' 30 3000 = Inr p
    \<and> recommend (\<lambda>_. Some 2) (\<lambda>_. None) example_liking_shop example_segments ''2'' 30 10 3000 = Some (Inr r)
    \<and> map re_product (rx_items r) = [1]
    \<and> reason_holds (\<lambda>_. None) example_liking_shop example_segments ''LOYAL'' p 1 2 (BoughtBySegment 1 ''LOYAL'' 30)
    \<and> reason_holds (\<lambda>_. None) example_liking_shop example_segments ''LOYAL'' p 1 2 (InPreferredCategory (PartOf ''Milk'' ''Dairy''))
    \<and> reason_holds (\<lambda>_. None) example_liking_shop example_segments ''LOYAL'' p 1 2 (InBoughtCategory (PartOf ''Milk'' ''Dairy'') ''Dairy'' 1 1 30)"
proof -
  from example_recommended obtain p r where p: "build_profile (\<lambda>_. Some 2) example_liking_shop example_segments ''2'' 30 3000 = Inr p"
    and r: "recommend (\<lambda>_. Some 2) (\<lambda>_. None) example_liking_shop example_segments ''2'' 30 10 3000 = Some (Inr r)"
    by (auto split: sum.splits option.splits)
  note shown = example_recommended [unfolded p r prod.case sum.case option.case]
  then obtain e where e: "rx_items r = [e]" "re_product e = 1" "re_category e = 2" by auto
  from recommendations_are_defensible [OF example_liking_shop_wf p r] shown e
  have "list_all (reason_holds (\<lambda>_. None) example_liking_shop example_segments ''LOYAL'' p 1 2)
      [BoughtBySegment 1 ''LOYAL'' 30, InPreferredCategory (PartOf ''Milk'' ''Dairy''), InBoughtCategory (PartOf ''Milk'' ''Dairy'') ''Dairy'' 1 1 30]"
    by (simp del: reason_holds.simps)
  with p r e show ?thesis by (simp del: reason_holds.simps)
qed

end
