(* ===== verification/Consumption_Shift.thy ===== *)
theory Consumption_Shift
  imports Consumption
begin

text \<open>
  Consumption shifts between two periods, \<open>web/services/consumption_shift.py\<close> over the one read of
  \<open>web/db/consumption_shift.py\<close>: what led a customer's buying in a period, when a change of leader is claimed, the
  report over every customer and the comparison on one customer's profile. A dict keyed by customer is an association
  list whose keys are distinct; the text of a UUID sorts as its value. Instants and spans are in the unit of
  \<open>days\<close>.
\<close>

section \<open>Periods\<close>

record period =
  pe_start :: int
  pe_end :: int
  pe_zoned :: bool

datatype period_error = NoTimezone | EmptyPeriod | PeriodsOverlap | ShorterThanADay

datatype side = Earlier | Later

definition check_period :: "period \<Rightarrow> period_error option" where
  "check_period p = (if \<not> pe_zoned p then Some NoTimezone else if \<not> pe_start p < pe_end p then Some EmptyPeriod else None)"

definition order_periods :: "period \<Rightarrow> period \<Rightarrow> period_error + period \<times> period" where
  "order_periods first second =
    (case check_period first of
       Some e \<Rightarrow> Inl e
     | None \<Rightarrow>
         (case check_period second of
            Some e \<Rightarrow> Inl e
          | None \<Rightarrow>
              (case (if pe_start second < pe_start first then (second, first) else (first, second)) of (earlier, later) \<Rightarrow>
                 if pe_end earlier > pe_start later then Inl PeriodsOverlap else Inr (earlier, later))))"

definition consecutive_periods :: "int \<Rightarrow> int \<Rightarrow> period_error + period \<times> period" where
  "consecutive_periods as_of n =
    (if n < 1 then Inl ShorterThanADay
     else let span = days n
          in order_periods \<lparr>pe_start = as_of - 2 * span, pe_end = as_of - span, pe_zoned = True\<rparr>
               \<lparr>pe_start = as_of - span, pe_end = as_of, pe_zoned = True\<rparr>)"

section \<open>The one read\<close>

record dimension_totals =
  dt_channels :: "(nat \<times> group_total list) list"
  dt_stores :: "(nat \<times> group_total list) list"
  dt_categories :: "(nat \<times> category_total list) list"
  dt_lined :: "(nat \<times> nat) list"

definition period_sales :: "shop_db \<Rightarrow> period \<Rightarrow> nat option \<Rightarrow> shop_sale list" where
  "period_sales d p only =
    filter (\<lambda>s. pe_start p \<le> sa_at s \<and> sa_at s < pe_end p \<and> (case only of None \<Rightarrow> True | Some c \<Rightarrow> sa_customer s = c)) (sh_sales d)"

text \<open>The groups of each customer who has any.\<close>

definition by_customer :: "(shop_sale list \<Rightarrow> 'a list) \<Rightarrow> shop_sale list \<Rightarrow> (nat \<times> 'a list) list" where
  "by_customer groups ss = concat (map (\<lambda>c.
     (case groups (filter (\<lambda>s. sa_customer s = c) ss) of [] \<Rightarrow> [] | gs \<Rightarrow> [(c, gs)])) (keys_of sa_customer ss))"

definition totals_of :: "shop_db \<Rightarrow> period \<Rightarrow> nat option \<Rightarrow> dimension_totals" where
  "totals_of d p only =
    (let ss = period_sales d p only
     in \<lparr>dt_channels = by_customer (header_totals (channel_name d) sa_channel) ss,
         dt_stores = by_customer (header_totals (store_name d) sa_store) ss,
         dt_categories = by_customer (category_totals d) ss,
         dt_lined = map (\<lambda>c. (c, length (filter (\<lambda>s. sa_customer s = c \<and> sa_lines s \<noteq> []) ss)))
           (keys_of sa_customer (filter (\<lambda>s. sa_lines s \<noteq> []) ss))\<rparr>)"

definition seeded_read :: "shop_db \<Rightarrow> shop_sale list \<Rightarrow> bool" where
  "seeded_read d ss \<longleftrightarrow> list_ex (\<lambda>s. sa_origin s = ''SEEDED''
     \<and> (channel_name d (sa_channel s) \<noteq> None \<or> store_name d (sa_store s) \<noteq> None \<or> sa_lines s \<noteq> [])) ss"

definition list_totals_for_periods :: "shop_db \<Rightarrow> period \<Rightarrow> period \<Rightarrow> nat option \<Rightarrow> dimension_totals \<times> dimension_totals \<times> bool" where
  "list_totals_for_periods d earlier later only =
    (totals_of d earlier only, totals_of d later only,
     seeded_read d (period_sales d earlier only) \<or> seeded_read d (period_sales d later only))"

section \<open>Who led, in one period\<close>

definition MIN_PURCHASES_PER_PERIOD :: nat where "MIN_PURCHASES_PER_PERIOD = 3"

record leader =
  le_id :: nat
  le_name :: string
  le_purchases :: nat
  le_base :: nat
  le_runner_up :: "nat option"

definition leader_share :: "leader \<Rightarrow> int option" where
  "leader_share l = (if le_base l = 0 then None else Some (half_up (of_nat (le_purchases l) * 100 / of_nat (le_base l))))"

definition too_few :: "leader \<Rightarrow> bool" where
  "too_few l \<longleftrightarrow> le_base l < MIN_PURCHASES_PER_PERIOD"

definition tied :: "leader \<Rightarrow> bool" where
  "tied l \<longleftrightarrow> le_runner_up l = Some (le_purchases l)"

definition decisive :: "leader \<Rightarrow> bool" where
  "decisive l \<longleftrightarrow> \<not> too_few l \<and> \<not> tied l"

record customer_leaders =
  lc_channel :: leader
  lc_store :: leader
  lc_category :: "leader option"
  lc_categories :: "leader list"
  lc_purchases :: nat

definition largest :: "nat list \<Rightarrow> nat option" where
  "largest xs = (case xs of [] \<Rightarrow> None | x # rest \<Rightarrow> Some (fold max rest x))"

definition group_leader :: "group_total list \<Rightarrow> nat \<Rightarrow> leader option" where
  "group_leader groups base =
    (case rank_dominant groups of
       None \<Rightarrow> None
     | Some best \<Rightarrow> Some \<lparr>le_id = gt_id best, le_name = gt_name best, le_purchases = gt_purchases best, le_base = base,
         le_runner_up = largest (map gt_purchases (filter (\<lambda>g. gt_id g \<noteq> gt_id best) groups))\<rparr>)"

definition category_leaders :: "category_total list \<Rightarrow> nat \<Rightarrow> leader list" where
  "category_leaders groups lined =
    (let ranked = rank_categories groups (length groups)
     in map (\<lambda>(i, c). \<lparr>le_id = ca_id c, le_name = ca_name c, le_purchases = ca_purchases c, le_base = lined,
          le_runner_up = (if i = 0 \<and> length ranked > 1 then Some (ca_purchases (ranked ! 1)) else None)\<rparr>) (enumerate 0 ranked))"

text \<open>\<open>get\<close> with a default.\<close>

definition get_or :: "'b \<Rightarrow> ('a \<times> 'b) list \<Rightarrow> 'a \<Rightarrow> 'b" where
  "get_or z m k = (case map_of m k of None \<Rightarrow> z | Some v \<Rightarrow> v)"

definition leaders_of :: "dimension_totals \<Rightarrow> nat \<Rightarrow> group_total list \<Rightarrow> group_total list \<Rightarrow> customer_leaders option" where
  "leaders_of t c channels stores =
    (let purchases = sum_list (map gt_purchases channels)
     in case (group_leader channels purchases, group_leader stores purchases) of
         (Some channel, Some store) \<Rightarrow>
           (let categories = category_leaders (get_or [] (dt_categories t) c) (get_or 0 (dt_lined t) c)
            in Some \<lparr>lc_channel = channel, lc_store = store, lc_category = (case categories of [] \<Rightarrow> None | x # _ \<Rightarrow> Some x),
                 lc_categories = take TOP_CATEGORIES categories, lc_purchases = purchases\<rparr>)
       | _ \<Rightarrow> None)"

datatype shift_error = BadPeriods period_error | NoStoresFor nat

fun leaders_loop :: "dimension_totals \<Rightarrow> (nat \<times> group_total list) list \<Rightarrow> shift_error + (nat \<times> customer_leaders) list" where
  "leaders_loop t [] = Inr []"
| "leaders_loop t ((c, channels) # rest) =
    (case map_of (dt_stores t) c of
       None \<Rightarrow> Inl (NoStoresFor c)
     | Some stores \<Rightarrow>
         (case leaders_loop t rest of
            Inl e \<Rightarrow> Inl e
          | Inr others \<Rightarrow> Inr (case leaders_of t c channels stores of None \<Rightarrow> others | Some l \<Rightarrow> (c, l) # others)))"

definition build_leaders :: "dimension_totals \<Rightarrow> shift_error + (nat \<times> customer_leaders) list" where
  "build_leaders t = leaders_loop t (dt_channels t)"

section \<open>Comparing two periods\<close>

type_synonym dimension_shift = "leader \<times> leader"

definition differs :: "leader option \<Rightarrow> leader option \<Rightarrow> bool" where
  "differs before after \<longleftrightarrow> (case (before, after) of (Some b, Some a) \<Rightarrow> le_id b \<noteq> le_id a | _ \<Rightarrow> False)"

definition changed :: "leader option \<Rightarrow> leader option \<Rightarrow> dimension_shift option" where
  "changed before after =
    (case (before, after) of
       (Some b, Some a) \<Rightarrow> if le_id b \<noteq> le_id a \<and> decisive b \<and> decisive a then Some (b, a) else None
     | _ \<Rightarrow> None)"

definition undecided :: "leader option \<Rightarrow> leader option \<Rightarrow> bool" where
  "undecided before after \<longleftrightarrow> differs before after \<and> changed before after = None"

record customer_shift =
  cs_customer :: nat
  cs_channel :: "dimension_shift option"
  cs_store :: "dimension_shift option"
  cs_category :: "dimension_shift option"

record shift_report =
  sr_earlier :: period
  sr_later :: period
  sr_shifts :: "customer_shift list"
  sr_absences :: "(nat \<times> side) list"
  sr_compared :: nat
  sr_unchanged :: nat
  sr_undecided :: nat
  sr_seeded :: bool

record shift_counts =
  sc_shifts :: "customer_shift list"
  sc_absences :: "(nat \<times> side) list"
  sc_compared :: nat
  sc_undecided :: nat

definition shift_of :: "nat \<Rightarrow> customer_leaders \<Rightarrow> customer_leaders \<Rightarrow> customer_shift" where
  "shift_of c was now = \<lparr>cs_customer = c, cs_channel = changed (Some (lc_channel was)) (Some (lc_channel now)),
     cs_store = changed (Some (lc_store was)) (Some (lc_store now)), cs_category = changed (lc_category was) (lc_category now)\<rparr>"

definition any_shift :: "customer_shift \<Rightarrow> bool" where
  "any_shift s \<longleftrightarrow> cs_channel s \<noteq> None \<or> cs_store s \<noteq> None \<or> cs_category s \<noteq> None"

definition any_undecided :: "customer_leaders \<Rightarrow> customer_leaders \<Rightarrow> bool" where
  "any_undecided was now \<longleftrightarrow> undecided (Some (lc_channel was)) (Some (lc_channel now))
     \<or> undecided (Some (lc_store was)) (Some (lc_store now)) \<or> undecided (lc_category was) (lc_category now)"

definition compare_step :: "(nat \<times> customer_leaders) list \<Rightarrow> (nat \<times> customer_leaders) list \<Rightarrow> nat \<Rightarrow> shift_counts \<Rightarrow> shift_counts" where
  "compare_step before after c n =
    (case (map_of before c, map_of after c) of
       (None, _) \<Rightarrow> n\<lparr>sc_absences := sc_absences n @ [(c, Earlier)]\<rparr>
     | (Some _, None) \<Rightarrow> n\<lparr>sc_absences := sc_absences n @ [(c, Later)]\<rparr>
     | (Some was, Some now) \<Rightarrow>
         (let s = shift_of c was now; n' = n\<lparr>sc_compared := sc_compared n + 1\<rparr>
          in if any_shift s then n'\<lparr>sc_shifts := sc_shifts n @ [s]\<rparr>
             else if any_undecided was now then n'\<lparr>sc_undecided := sc_undecided n + 1\<rparr>
             else n'))"

definition compare_periods ::
  "period \<Rightarrow> period \<Rightarrow> (nat \<times> customer_leaders) list \<Rightarrow> (nat \<times> customer_leaders) list \<Rightarrow> bool \<Rightarrow> shift_report" where
  "compare_periods earlier later before after seeded =
    (let n = fold (compare_step before after) (sort (remdups (map fst before @ map fst after)))
           \<lparr>sc_shifts = [], sc_absences = [], sc_compared = 0, sc_undecided = 0\<rparr>
     in \<lparr>sr_earlier = earlier, sr_later = later, sr_shifts = sc_shifts n, sr_absences = sc_absences n, sr_compared = sc_compared n,
         sr_unchanged = sc_compared n - length (sc_shifts n), sr_undecided = sc_undecided n, sr_seeded = seeded\<rparr>)"

definition detect_shifts :: "shop_db \<Rightarrow> period \<Rightarrow> period \<Rightarrow> shift_error + shift_report" where
  "detect_shifts d first second =
    (case order_periods first second of
       Inl e \<Rightarrow> Inl (BadPeriods e)
     | Inr (earlier, later) \<Rightarrow>
         (case list_totals_for_periods d earlier later None of (earlier_totals, later_totals, seeded) \<Rightarrow>
            (case build_leaders earlier_totals of
               Inl e \<Rightarrow> Inl e
             | Inr before \<Rightarrow>
                 (case build_leaders later_totals of
                    Inl e \<Rightarrow> Inl e
                  | Inr after \<Rightarrow> Inr (compare_periods earlier later before after seeded)))))"

section \<open>One customer, on their profile\<close>

datatype shift_status = Shifted | Unchanged | Undecided | NotCompared

definition comparison_status :: "leader option \<Rightarrow> leader option \<Rightarrow> shift_status" where
  "comparison_status before after =
    (if before = None \<or> after = None then NotCompared
     else if changed before after \<noteq> None then Shifted
     else if differs before after then Undecided
     else Unchanged)"

datatype comparison_reason = NothingIn side | TooFewIn side nat | TiedIn side nat

definition comparison_reason :: "leader option \<Rightarrow> leader option \<Rightarrow> comparison_reason option" where
  "comparison_reason before after =
    (case (before, after) of
       (None, _) \<Rightarrow> Some (NothingIn Earlier)
     | (Some _, None) \<Rightarrow> Some (NothingIn Later)
     | (Some b, Some a) \<Rightarrow>
         if comparison_status before after \<noteq> Undecided then None
         else if too_few b then Some (TooFewIn Earlier (le_base b))
         else if too_few a then Some (TooFewIn Later (le_base a))
         else if tied b then Some (TiedIn Earlier (le_purchases b))
         else if tied a then Some (TiedIn Later (le_purchases a))
         else None)"

record profile_shifts =
  ps_earlier :: period
  ps_later :: period
  ps_half_days :: int
  ps_earlier_purchases :: nat
  ps_later_purchases :: nat
  ps_channel :: "leader option \<times> leader option"
  ps_store :: "leader option \<times> leader option"
  ps_category :: "leader option \<times> leader option"
  ps_categories_before :: "leader list"
  ps_categories_after :: "leader list"
  ps_seeded :: bool

definition build_profile_shifts :: "shop_db \<Rightarrow> nat \<Rightarrow> int \<Rightarrow> int \<Rightarrow> shift_error + profile_shifts option" where
  "build_profile_shifts d c until window_days =
    (let half_days = window_days div 2
     in if half_days < 1 then Inr None
        else case consecutive_periods until half_days of
            Inl e \<Rightarrow> Inl (BadPeriods e)
          | Inr (earlier, later) \<Rightarrow>
              (case list_totals_for_periods d earlier later (Some c) of (earlier_totals, later_totals, seeded) \<Rightarrow>
                 (case build_leaders earlier_totals of
                    Inl e \<Rightarrow> Inl e
                  | Inr before \<Rightarrow>
                      (case build_leaders later_totals of
                         Inl e \<Rightarrow> Inl e
                       | Inr after \<Rightarrow>
                           (let was = map_of before c; now = map_of after c
                            in Inr (Some
                              \<lparr>ps_earlier = earlier, ps_later = later, ps_half_days = half_days,
                               ps_earlier_purchases = (case was of None \<Rightarrow> 0 | Some l \<Rightarrow> lc_purchases l),
                               ps_later_purchases = (case now of None \<Rightarrow> 0 | Some l \<Rightarrow> lc_purchases l),
                               ps_channel = (map_option lc_channel was, map_option lc_channel now),
                               ps_store = (map_option lc_store was, map_option lc_store now),
                               ps_category = (Option.bind was lc_category, Option.bind now lc_category),
                               ps_categories_before = (case was of None \<Rightarrow> [] | Some l \<Rightarrow> lc_categories l),
                               ps_categories_after = (case now of None \<Rightarrow> [] | Some l \<Rightarrow> lc_categories l),
                               ps_seeded = seeded\<rparr>))))))"

section \<open>The totals of one customer are in the totals of all\<close>

definition sales_of_customer :: "shop_db \<Rightarrow> period \<Rightarrow> nat \<Rightarrow> shop_sale list" where
  "sales_of_customer d p c = period_sales d p (Some c)"

lemma sales_of_customer_filter: "sales_of_customer d p c = filter (\<lambda>s. sa_customer s = c) (period_sales d p None)"
  by (auto simp: sales_of_customer_def period_sales_def intro: filter_cong)

lemma sales_narrowed: "filter (\<lambda>s. sa_customer s = c) (period_sales d p (Some c)) = sales_of_customer d p c"
  by (auto simp: sales_of_customer_def period_sales_def intro!: filter_cong)

lemma map_of_by_customer:
  assumes "groups [] = []"
  shows "map_of (by_customer groups ss) c = (case groups (filter (\<lambda>s. sa_customer s = c) ss) of [] \<Rightarrow> None | gs \<Rightarrow> Some gs)"
proof -
  define g where "g = (\<lambda>c. groups (filter (\<lambda>s. sa_customer s = c) ss))"
  have "map_of (concat (map (\<lambda>c. case g c of [] \<Rightarrow> [] | gs \<Rightarrow> [(c, gs)]) ks)) c = (if c \<in> set ks then case g c of [] \<Rightarrow> None | gs \<Rightarrow> Some gs else None)" for ks
    by (induction ks) (auto simp: map_add_def split: list.split)
  moreover have "g c = []" if "c \<notin> sa_customer ` set ss"
  proof -
    have "filter (\<lambda>s. sa_customer s = c) ss = []" using that by (auto simp: filter_empty_conv)
    then show ?thesis using assms by (simp only: g_def)
  qed
  moreover have "by_customer groups ss = concat (map (\<lambda>c. case g c of [] \<Rightarrow> [] | gs \<Rightarrow> [(c, gs)]) (keys_of sa_customer ss))"
    by (simp only: by_customer_def g_def)
  ultimately have "map_of (by_customer groups ss) c = (case g c of [] \<Rightarrow> None | gs \<Rightarrow> Some gs)" by simp
  then show ?thesis by (simp only: g_def)
qed

lemma distinct_by_customer: "distinct (map fst (by_customer groups ss))"
proof -
  have "distinct (map fst (concat (map (\<lambda>c. case g c of [] \<Rightarrow> [] | gs \<Rightarrow> [(c, gs)]) ks)))
      \<and> fst ` set (concat (map (\<lambda>c. case g c of [] \<Rightarrow> [] | gs \<Rightarrow> [(c, gs)]) ks)) \<subseteq> set ks" if "distinct ks" for ks and g :: "nat \<Rightarrow> 'a list"
    using that by (induction ks) (auto split: list.splits)
  from this [of "keys_of sa_customer ss" "\<lambda>c. groups (filter (\<lambda>s. sa_customer s = c) ss)"] show ?thesis by (simp add: by_customer_def)
qed

lemma get_or_single [simp]: "get_or z [(k, v)] k = v"
  by (simp add: get_or_def)

lemma map_of_keyed: "map_of (map (\<lambda>c. (c, f c)) ks) c = (if c \<in> set ks then Some (f c) else None)"
  by (induction ks) auto

lemma leaders_of_cong:
  assumes "get_or [] (dt_categories t) c = get_or [] (dt_categories t') c'" and "get_or 0 (dt_lined t) c = get_or 0 (dt_lined t') c'"
  shows "leaders_of t c x y = leaders_of t' c' x y"
  by (simp only: leaders_of_def assms)

text \<open>What led the purchases of some sales: the dicts are gone.\<close>

definition leaders_in :: "shop_db \<Rightarrow> shop_sale list \<Rightarrow> customer_leaders option" where
  "leaders_in d ss =
    leaders_of \<lparr>dt_channels = [], dt_stores = [], dt_categories = [(0, category_totals d ss)], dt_lined = [(0, length (filter (\<lambda>s. sa_lines s \<noteq> []) ss))]\<rparr> 0
      (header_totals (channel_name d) sa_channel ss) (header_totals (store_name d) sa_store ss)"

lemma leaders_loop_lookup:
  assumes "distinct (map fst chs)" and "\<forall>c\<in>fst ` set chs. map_of (dt_stores t) c \<noteq> None"
  shows "\<exists>ls. leaders_loop t chs = Inr ls \<and> distinct (map fst ls) \<and> fst ` set ls \<subseteq> fst ` set chs
    \<and> (\<forall>c. map_of ls c = (case map_of chs c of None \<Rightarrow> None | Some ch \<Rightarrow> leaders_of t c ch (the (map_of (dt_stores t) c))))"
  using assms
proof (induction t chs rule: leaders_loop.induct)
  case (2 t c channels rest)
  from 2(3) obtain stores where stores: "map_of (dt_stores t) c = Some stores" by auto
  with 2 obtain ls where ls: "leaders_loop t rest = Inr ls" "distinct (map fst ls)" "fst ` set ls \<subseteq> fst ` set rest"
    "\<forall>c. map_of ls c = (case map_of rest c of None \<Rightarrow> None | Some ch \<Rightarrow> leaders_of t c ch (the (map_of (dt_stores t) c)))" by auto
  have new: "c \<notin> fst ` set rest" using 2(2) by simp
  then have "map_of rest c = None" by (simp add: map_of_eq_None_iff)
  with ls new show ?case by (auto simp: stores split: option.split)
qed simp

text \<open>\<open>build_leaders\<close> succeeds, and holds for each customer what led their own sales.\<close>

lemma build_leaders_exact:
  assumes "catalog_wf d"
  shows "\<exists>ls. build_leaders (totals_of d p only) = Inr ls \<and> distinct (map fst ls)
    \<and> (\<forall>c. map_of ls c = leaders_in d (filter (\<lambda>s. sa_customer s = c) (period_sales d p only)))"
proof -
  define t where "t = totals_of d p only"
  define ss where "ss = period_sales d p only"
  define mine where "mine c = filter (\<lambda>s. sa_customer s = c) ss" for c
  have known: "\<forall>s\<in>set (mine c). channel_name d (sa_channel s) \<noteq> None" "\<forall>s\<in>set (mine c). store_name d (sa_store s) \<noteq> None" for c
    using names_known [OF assms] by (auto simp: mine_def ss_def period_sales_def)
  have none: "header_totals (channel_name d) sa_channel (mine c) = [] \<longleftrightarrow> mine c = []" "header_totals (store_name d) sa_store (mine c) = [] \<longleftrightarrow> mine c = []" for c
    by (rule header_totals_reconcile(3) [OF known(1)], rule header_totals_reconcile(3) [OF known(2)])
  have empty_groups: "header_totals n key [] = []" "category_totals d [] = []" for n key
    by (simp_all add: header_totals_def category_totals_def keys_of_def lines_of_def)
  have channels: "map_of (dt_channels t) c = (if mine c = [] then None else Some (header_totals (channel_name d) sa_channel (mine c)))" for c
    using none(1) [of c]
    by (simp add: t_def totals_of_def Let_def map_of_by_customer empty_groups ss_def [symmetric] mine_def [symmetric] split: list.split)
  have stores: "map_of (dt_stores t) c = (if mine c = [] then None else Some (header_totals (store_name d) sa_store (mine c)))" for c
    using none(2) [of c]
    by (simp add: t_def totals_of_def Let_def map_of_by_customer empty_groups ss_def [symmetric] mine_def [symmetric] split: list.split)
  have categories: "get_or [] (dt_categories t) c = category_totals d (mine c)" for c
    by (simp add: get_or_def t_def totals_of_def Let_def map_of_by_customer empty_groups ss_def [symmetric] mine_def [symmetric] split: list.split)
  have lined: "get_or 0 (dt_lined t) c = length (filter (\<lambda>s. sa_lines s \<noteq> []) (mine c))" for c
  proof -
    have same: "filter (\<lambda>s. sa_customer s = c \<and> sa_lines s \<noteq> []) ss = filter (\<lambda>s. sa_lines s \<noteq> []) (mine c)"
      by (auto simp: mine_def intro: filter_cong)
    have "filter (\<lambda>s. sa_lines s \<noteq> []) (mine c) = []" if "c \<notin> sa_customer ` set (filter (\<lambda>s. sa_lines s \<noteq> []) ss)"
      using that by (auto simp: mine_def filter_empty_conv)
    then show ?thesis
      by (auto simp: get_or_def t_def totals_of_def Let_def map_of_keyed ss_def [symmetric] same)
  qed
  have leaders: "leaders_of t c (header_totals (channel_name d) sa_channel (mine c)) (header_totals (store_name d) sa_store (mine c)) = leaders_in d (mine c)" for c
    unfolding leaders_in_def by (rule leaders_of_cong) (simp_all add: categories lined)
  have "leaders_in d [] = None"
    by (simp add: leaders_in_def leaders_of_def empty_groups group_leader_def rank_dominant_def)
  then have whole: "(case map_of (dt_channels t) c of None \<Rightarrow> None | Some ch \<Rightarrow> leaders_of t c ch (the (map_of (dt_stores t) c))) = leaders_in d (mine c)" for c
    by (simp add: channels stores leaders)
  have "map_of (dt_stores t) c \<noteq> None" if "c \<in> fst ` set (dt_channels t)" for c
  proof -
    from that have "map_of (dt_channels t) c \<noteq> None" by (simp add: map_of_eq_None_iff)
    then show ?thesis by (simp add: channels stores split: if_splits)
  qed
  moreover have "distinct (map fst (dt_channels t))" by (simp add: t_def totals_of_def Let_def distinct_by_customer)
  ultimately obtain ls where "leaders_loop t (dt_channels t) = Inr ls" "distinct (map fst ls)"
    "\<forall>c. map_of ls c = (case map_of (dt_channels t) c of None \<Rightarrow> None | Some ch \<Rightarrow> leaders_of t c ch (the (map_of (dt_stores t) c)))"
    using leaders_loop_lookup [of "dt_channels t" t] by blast
  then show ?thesis unfolding build_leaders_def t_def [symmetric] ss_def [symmetric] mine_def [symmetric] whole by blast
qed

section \<open>Clear leaders\<close>

text \<open>Of at least three sales, a key with more of them than any other has.\<close>

definition clear_leader :: "(shop_sale \<Rightarrow> nat) \<Rightarrow> shop_sale list \<Rightarrow> nat \<Rightarrow> bool" where
  "clear_leader key ss k \<longleftrightarrow> 3 \<le> length ss \<and> (\<forall>j. j \<noteq> k \<longrightarrow> length (filter (\<lambda>s. key s = j) ss) < length (filter (\<lambda>s. key s = k) ss))"

lemma largest_None [simp]: "largest xs = None \<longleftrightarrow> xs = []"
  by (cases xs) (simp_all add: largest_def)

lemma largest_Some: "largest xs = Some m \<Longrightarrow> m \<in> set xs \<and> (\<forall>x\<in>set xs. x \<le> m)"
proof -
  have "fold max ys x \<in> insert x (set ys) \<and> (\<forall>z\<in>insert x (set ys). z \<le> fold max ys x)" for ys and x :: nat
  proof (induction ys arbitrary: x)
    case (Cons y ys)
    from Cons [of "max y x"] show ?case by (auto simp: max_def split: if_splits)
  qed simp
  then show "largest xs = Some m \<Longrightarrow> m \<in> set xs \<and> (\<forall>x\<in>set xs. x \<le> m)" by (cases xs) (auto simp: largest_def)
qed

lemma group_leader_clear:
  assumes known: "\<forall>s\<in>set ss. name (key s) \<noteq> None" and "ss \<noteq> []"
  shows "\<exists>l. group_leader (header_totals name key ss) (length ss) = Some l \<and> (\<forall>k. (decisive l \<and> le_id l = k) = clear_leader key ss k)"
proof -
  define gs where "gs = header_totals name key ss"
  define n where "n k = length (filter (\<lambda>s. key s = k) ss)" for k
  have gs: "gs = map (\<lambda>k. \<lparr>gt_id = k, gt_name = the (name k), gt_purchases = n k, gt_spend = sum_list (map sa_total (filter (\<lambda>s. key s = k) ss))\<rparr>) (keys_of key ss)"
    unfolding gs_def header_totals_known [OF known] Let_def n_def ..
  have some: "0 < n k \<longleftrightarrow> k \<in> key ` set ss" for k by (auto simp: n_def filter_empty_conv)
  have "gs \<noteq> []" unfolding gs_def using header_totals_reconcile(3) [OF known] assms(2) by simp
  then obtain g where g: "rank_dominant gs = Some g" by (metis not_None_eq rank_dominant_None)
  have id: "gt_purchases x = n (gt_id x)" "gt_id x \<in> key ` set ss" if "x \<in> set gs" for x using that by (auto simp: gs)
  have row_for: "\<exists>x\<in>set gs. gt_id x = k" if "k \<in> key ` set ss" for k using that by (auto simp: gs)
  have most: "n k \<le> n (gt_id g)" for k
  proof (cases "k \<in> key ` set ss")
    case True
    then obtain x where x: "x \<in> set gs" "gt_id x = k" using row_for by blast
    from rank_dominant_Some(2) [OF g x(1)] have "gt_purchases x \<le> gt_purchases g" by (auto simp: dominant_key_def)
    then show ?thesis using id(1) [OF x(1)] id(1) [OF rank_dominant_Some(1) [OF g]] x(2) by simp
  qed (use some [of k] in simp)
  define others where "others = map gt_purchases (filter (\<lambda>x. gt_id x \<noteq> gt_id g) gs)"
  define l where "l = \<lparr>le_id = gt_id g, le_name = gt_name g, le_purchases = gt_purchases g, le_base = length ss, le_runner_up = largest others\<rparr>"
  have own: "gt_purchases g = n (gt_id g)" "0 < n (gt_id g)"
    using id [OF rank_dominant_Some(1) [OF g]] some by auto
  have tied: "tied l \<longleftrightarrow> (\<exists>j. j \<noteq> gt_id g \<and> n j = n (gt_id g))"
  proof
    assume "tied l"
    then have "largest others = Some (gt_purchases g)" by (simp add: tied_def l_def)
    then have "gt_purchases g \<in> set others" using largest_Some by blast
    then obtain x where "x \<in> set gs" "gt_id x \<noteq> gt_id g" "gt_purchases x = gt_purchases g" by (auto simp: others_def)
    then show "\<exists>j. j \<noteq> gt_id g \<and> n j = n (gt_id g)" using id(1) own(1) by metis
  next
    assume "\<exists>j. j \<noteq> gt_id g \<and> n j = n (gt_id g)"
    then obtain j where j: "j \<noteq> gt_id g" "n j = n (gt_id g)" by blast
    then obtain x where x: "x \<in> set gs" "gt_id x = j" using row_for [of j] some [of j] own(2) by auto
    have member: "n (gt_id g) \<in> set others" using x j id(1) [OF x(1)] by (auto simp: others_def intro!: image_eqI [where x = x])
    then obtain m where m: "largest others = Some m" by (metis empty_iff largest_None list.set(1) not_None_eq)
    moreover have "m \<le> n (gt_id g)" using largest_Some [OF m] most id(1) by (auto simp: others_def)
    ultimately show "tied l" using member largest_Some [OF m] own(1) by (auto simp: tied_def l_def)
  qed
  have "(decisive l \<and> le_id l = k) = clear_leader key ss k" for k
  proof
    assume "decisive l \<and> le_id l = k"
    then have "3 \<le> length ss" "k = gt_id g" "\<not> tied l" by (auto simp: decisive_def too_few_def MIN_PURCHASES_PER_PERIOD_def l_def)
    then show "clear_leader key ss k" using most unfolding clear_leader_def n_def [symmetric] tied by (metis le_neq_implies_less)
  next
    assume clear: "clear_leader key ss k"
    then have "gt_id g = k" using most [of k] unfolding clear_leader_def n_def [symmetric] by (metis leD)
    with clear show "decisive l \<and> le_id l = k"
      unfolding decisive_def tied clear_leader_def n_def [symmetric] by (auto simp: too_few_def MIN_PURCHASES_PER_PERIOD_def l_def)
  qed
  moreover have "group_leader gs (length ss) = Some l" by (simp add: group_leader_def g l_def others_def)
  ultimately show ?thesis unfolding gs_def by blast
qed








text \<open>The channel and the store of a customer's leaders, when the customer has sales, and only then.\<close>

lemma leaders_in_clear:
  assumes "catalog_wf d" and "set ss \<subseteq> set (sh_sales d)"
  shows "leaders_in d ss = None \<longleftrightarrow> ss = []"
    and "leaders_in d ss = Some l \<Longrightarrow> (decisive (lc_channel l) \<and> le_id (lc_channel l) = k) = clear_leader sa_channel ss k"
    and "leaders_in d ss = Some l \<Longrightarrow> (decisive (lc_store l) \<and> le_id (lc_store l) = k) = clear_leader sa_store ss k"
    and "leaders_in d ss = Some l \<Longrightarrow> lc_purchases l = length ss"
proof -
  have known: "\<forall>s\<in>set ss. channel_name d (sa_channel s) \<noteq> None" "\<forall>s\<in>set ss. store_name d (sa_store s) \<noteq> None"
    using names_known [OF assms(1)] assms(2) by auto
  have base: "sum_list (map gt_purchases (header_totals (channel_name d) sa_channel ss)) = length ss"
    by (rule header_totals_reconcile(1) [OF known(1)])
  have empty_groups: "header_totals n key [] = []" for n key by (simp add: header_totals_def keys_of_def)
  show "leaders_in d ss = None \<longleftrightarrow> ss = []"
    using group_leader_clear [OF known(1)] group_leader_clear [OF known(2)]
    by (cases "ss = []") (auto simp: leaders_in_def leaders_of_def Let_def base empty_groups group_leader_def rank_dominant_def)
  assume l: "leaders_in d ss = Some l"
  then have "ss \<noteq> []" using \<open>leaders_in d ss = None \<longleftrightarrow> ss = []\<close> by auto
  from group_leader_clear [OF known(1) this] group_leader_clear [OF known(2) this] obtain a b
    where a: "group_leader (header_totals (channel_name d) sa_channel ss) (length ss) = Some a" "(decisive a \<and> le_id a = k) = clear_leader sa_channel ss k"
      and b: "group_leader (header_totals (store_name d) sa_store ss) (length ss) = Some b" "(decisive b \<and> le_id b = k) = clear_leader sa_store ss k" by blast
  from l a(1) b(1) have "lc_channel l = a" "lc_store l = b" "lc_purchases l = length ss" by (auto simp: leaders_in_def leaders_of_def Let_def base)
  with a(2) b(2) show "(decisive (lc_channel l) \<and> le_id (lc_channel l) = k) = clear_leader sa_channel ss k"
    "(decisive (lc_store l) \<and> le_id (lc_store l) = k) = clear_leader sa_store ss k" "lc_purchases l = length ss" by simp_all
qed


section \<open>The report, customer by customer\<close>

definition shift_for :: "(nat \<times> customer_leaders) list \<Rightarrow> (nat \<times> customer_leaders) list \<Rightarrow> nat \<Rightarrow> customer_shift list" where
  "shift_for before after c =
    (case (map_of before c, map_of after c) of
       (Some was, Some now) \<Rightarrow> if any_shift (shift_of c was now) then [shift_of c was now] else []
     | _ \<Rightarrow> [])"

definition absence_for :: "(nat \<times> customer_leaders) list \<Rightarrow> (nat \<times> customer_leaders) list \<Rightarrow> nat \<Rightarrow> (nat \<times> side) list" where
  "absence_for before after c =
    (if map_of before c = None then [(c, Earlier)] else if map_of after c = None then [(c, Later)] else [])"

definition in_both :: "(nat \<times> customer_leaders) list \<Rightarrow> (nat \<times> customer_leaders) list \<Rightarrow> nat \<Rightarrow> bool" where
  "in_both before after c \<longleftrightarrow> map_of before c \<noteq> None \<and> map_of after c \<noteq> None"

definition undecided_for :: "(nat \<times> customer_leaders) list \<Rightarrow> (nat \<times> customer_leaders) list \<Rightarrow> nat \<Rightarrow> bool" where
  "undecided_for before after c \<longleftrightarrow> shift_for before after c = []
     \<and> (case (map_of before c, map_of after c) of (Some was, Some now) \<Rightarrow> any_undecided was now | _ \<Rightarrow> False)"

lemma compare_fold:
  "fold (compare_step before after) cs n =
    \<lparr>sc_shifts = sc_shifts n @ concat (map (shift_for before after) cs), sc_absences = sc_absences n @ concat (map (absence_for before after) cs),
     sc_compared = sc_compared n + length (filter (in_both before after) cs), sc_undecided = sc_undecided n + length (filter (undecided_for before after) cs)\<rparr>"
  by (induction cs arbitrary: n)
    (auto simp: compare_step_def shift_for_def absence_for_def in_both_def undecided_for_def Let_def split: option.split)

lemma order_periods_facts:
  assumes "order_periods a b = Inr (e, l)"
  shows "order_periods b a = Inr (e, l)" and "order_periods e l = Inr (e, l)" and "pe_start e < pe_end e" and "pe_end e \<le> pe_start l" and "pe_start l < pe_end l"
  using assms by (auto simp: order_periods_def check_period_def split: if_splits)

text \<open>The report, with the two maps of leaders characterised by the sales of each customer.\<close>

lemma detect_exact:
  assumes wf: "catalog_wf d" and order: "order_periods a b = Inr (e, l)"
  obtains before after seeded where "detect_shifts d a b = Inr (compare_periods e l before after seeded)"
    and "\<And>c. map_of before c = leaders_in d (sales_of_customer d e c)" and "\<And>c. map_of after c = leaders_in d (sales_of_customer d l c)"
proof -
  obtain before after where leaders: "build_leaders (totals_of d e None) = Inr before" "build_leaders (totals_of d l None) = Inr after"
    "\<forall>c. map_of before c = leaders_in d (filter (\<lambda>s. sa_customer s = c) (period_sales d e None))"
    "\<forall>c. map_of after c = leaders_in d (filter (\<lambda>s. sa_customer s = c) (period_sales d l None))"
    using build_leaders_exact [OF wf, of e None] build_leaders_exact [OF wf, of l None] by blast
  show thesis
    by (rule that [of before after "seeded_read d (period_sales d e None) \<or> seeded_read d (period_sales d l None)"])
      (simp_all add: detect_shifts_def order list_totals_for_periods_def leaders sales_of_customer_filter)
qed

lemma period_customers: "sales_of_customer d p c = [] \<longleftrightarrow> c \<notin> sa_customer ` set (period_sales d p None)"
  by (auto simp: sales_of_customer_filter filter_empty_conv)

lemma sales_of_customer_shop: "set (sales_of_customer d p c) \<subseteq> set (sh_sales d)"
  by (auto simp: sales_of_customer_def period_sales_def)

lemmas leaders_of_customer = leaders_in_clear [OF _ sales_of_customer_shop]

definition report_customers :: "(nat \<times> customer_leaders) list \<Rightarrow> (nat \<times> customer_leaders) list \<Rightarrow> nat list" where
  "report_customers before after = sort (remdups (map fst before @ map fst after))"

lemma report_customers_set [simp]: "distinct (report_customers before after)" "sorted (report_customers before after)"
  "set (report_customers before after) = {c. map_of before c \<noteq> None \<or> map_of after c \<noteq> None}"
  by (auto simp: report_customers_def map_of_eq_None_iff)

lemma compare_periods_exact:
  fixes before after :: "(nat \<times> customer_leaders) list" and e l :: period and seeded :: bool
  defines "cs \<equiv> report_customers before after" and "r \<equiv> compare_periods e l before after seeded"
  shows "sr_shifts r = concat (map (shift_for before after) cs)" "sr_absences r = concat (map (absence_for before after) cs)"
    "sr_compared r = length (filter (in_both before after) cs)" "sr_undecided r = length (filter (undecided_for before after) cs)"
    "sr_unchanged r = sr_compared r - length (sr_shifts r)" "sr_earlier r = e" "sr_later r = l"
  by (simp_all add: r_def cs_def compare_periods_def compare_fold report_customers_def Let_def)

lemma shift_for_customer: "s \<in> set (shift_for before after c) \<Longrightarrow> cs_customer s = c \<and> in_both before after c"
  by (cases "map_of before c"; cases "map_of after c") (auto simp: shift_for_def shift_of_def in_both_def split: if_splits)

lemma shifts_and_unchanged:
  "length (concat (map (shift_for before after) cs)) + length (filter (undecided_for before after) cs) \<le> length (filter (in_both before after) cs)"
  by (induction cs) (auto simp: shift_for_def in_both_def undecided_for_def split: option.splits)

lemma distinct_shifts: "distinct cs \<Longrightarrow> sorted cs \<Longrightarrow>
    sorted_wrt (<) (map cs_customer (concat (map (shift_for before after) cs))) \<and> cs_customer ` set (concat (map (shift_for before after) cs)) \<subseteq> set cs"
proof (induction cs)
  case (Cons c cs)
  then have "\<forall>x\<in>set cs. c < x" by (auto simp: le_less)
  then have "\<forall>x\<in>cs_customer ` set (concat (map (shift_for before after) cs)). c < x" using Cons by auto
  with Cons show ?case by (auto simp: shift_for_def shift_of_def split: option.splits)
qed simp

lemma distinct_absences: "distinct cs \<Longrightarrow> distinct (map fst (concat (map (absence_for before after) cs)))"
proof -
  have "fst ` set (concat (map (absence_for before after) cs)) \<subseteq> set cs" for cs by (auto simp: absence_for_def split: if_splits)
  then show "distinct cs \<Longrightarrow> ?thesis"
  proof (induction cs)
    case (Cons c cs)
    then have "c \<notin> fst ` set (concat (map (absence_for before after) cs))" by auto
    with Cons show ?case by (auto simp: absence_for_def)
  qed simp
qed

text \<open>
  The report reconciles: over any two comparable periods, given in either order, it is computed, everyone with
  sales in only one of them is absent from the other, once, everyone with sales in both is compared, and the compared
  are the shifts, one per customer in the order of the ids, and the unchanged, of whom the undecided are a part.
\<close>

lemma shift_report_reconciles:
  assumes "catalog_wf d" and "order_periods a b = Inr (e, l)"
  defines "E \<equiv> sa_customer ` set (period_sales d e None)" and "L \<equiv> sa_customer ` set (period_sales d l None)"
  shows "\<exists>r. detect_shifts d a b = Inr r \<and> detect_shifts d b a = Inr r
    \<and> set (sr_absences r) = (L - E) \<times> {Earlier} \<union> (E - L) \<times> {Later} \<and> distinct (map fst (sr_absences r))
    \<and> sr_compared r = card (E \<inter> L) \<and> sr_compared r = length (sr_shifts r) + sr_unchanged r \<and> sr_undecided r \<le> sr_unchanged r
    \<and> sorted_wrt (<) (map cs_customer (sr_shifts r)) \<and> cs_customer ` set (sr_shifts r) \<subseteq> E \<inter> L"
proof -
  obtain before after seeded where r: "detect_shifts d a b = Inr (compare_periods e l before after seeded)"
    and before: "\<And>c. map_of before c = leaders_in d (sales_of_customer d e c)" and after: "\<And>c. map_of after c = leaders_in d (sales_of_customer d l c)"
    by (rule detect_exact [OF assms(1,2)]) blast
  have swapped: "detect_shifts d b a = detect_shifts d a b"
    by (simp add: detect_shifts_def assms(2) order_periods_facts(1) [OF assms(2)])
  have member: "map_of before c = None \<longleftrightarrow> c \<notin> E" "map_of after c = None \<longleftrightarrow> c \<notin> L" for c
    using leaders_of_customer(1) [OF assms(1)] by (simp_all add: before after E_def L_def period_customers)
  define cs where "cs = report_customers before after"
  have cs: "distinct cs" "sorted cs" "set cs = E \<union> L" using member by (auto simp: cs_def)
  note exact = compare_periods_exact [where before = before and after = after, folded cs_def]
  have "set (concat (map (absence_for before after) cs)) = (L - E) \<times> {Earlier} \<union> (E - L) \<times> {Later}"
    using cs(3) by (auto simp: absence_for_def member split: if_splits)
  moreover have "length (filter (in_both before after) cs) = card (E \<inter> L)"
  proof -
    have "set (filter (in_both before after) cs) = E \<inter> L" using cs(3) member by (auto simp: in_both_def)
    then show ?thesis using cs(1) by (metis distinct_card distinct_filter)
  qed
  moreover have "cs_customer ` set (concat (map (shift_for before after) cs)) \<subseteq> E \<inter> L"
    using member by (auto simp: in_both_def dest!: shift_for_customer)
  ultimately show ?thesis
    using r swapped distinct_absences [OF cs(1)] distinct_shifts [OF cs(1,2)] shifts_and_unchanged [of before after cs]
    by (simp add: exact)
qed


lemma shift_listed:
  "s \<in> set (sr_shifts (compare_periods e l before after seeded)) \<longleftrightarrow>
    (\<exists>was now. map_of before (cs_customer s) = Some was \<and> map_of after (cs_customer s) = Some now
      \<and> s = shift_of (cs_customer s) was now \<and> any_shift s)"
proof
  assume "s \<in> set (sr_shifts (compare_periods e l before after seeded))"
  then obtain c where s: "s \<in> set (shift_for before after c)" by (auto simp: compare_periods_exact)
  with shift_for_customer [OF s] show "\<exists>was now. map_of before (cs_customer s) = Some was \<and> map_of after (cs_customer s) = Some now
      \<and> s = shift_of (cs_customer s) was now \<and> any_shift s"
    by (auto simp: shift_for_def in_both_def split: if_splits)
next
  assume "\<exists>was now. map_of before (cs_customer s) = Some was \<and> map_of after (cs_customer s) = Some now
      \<and> s = shift_of (cs_customer s) was now \<and> any_shift s"
  then have "s \<in> set (shift_for before after (cs_customer s)) \<and> map_of before (cs_customer s) \<noteq> None" by (auto simp: shift_for_def)
  then show "s \<in> set (sr_shifts (compare_periods e l before after seeded))"
    by (auto simp: compare_periods_exact intro: exI [of _ "cs_customer s"])
qed


text \<open>A dimension of the report is a function of the two leaders.\<close>

lemma dimension_listed:
  assumes "map_of before c = Some was" and "map_of after c = Some now"
  shows "(\<exists>s\<in>set (sr_shifts (compare_periods e l before after seeded)). cs_customer s = c \<and> cs_channel s \<noteq> None)
      \<longleftrightarrow> changed (Some (lc_channel was)) (Some (lc_channel now)) \<noteq> None"
    and "(\<exists>s\<in>set (sr_shifts (compare_periods e l before after seeded)). cs_customer s = c \<and> cs_store s \<noteq> None)
      \<longleftrightarrow> changed (Some (lc_store was)) (Some (lc_store now)) \<noteq> None"
    and "(\<exists>s\<in>set (sr_shifts (compare_periods e l before after seeded)). cs_customer s = c \<and> cs_category s \<noteq> None)
      \<longleftrightarrow> changed (lc_category was) (lc_category now) \<noteq> None"
proof -
  have only: "(\<exists>s\<in>set (sr_shifts (compare_periods e l before after seeded)). cs_customer s = c \<and> P s) \<longleftrightarrow> P (shift_of c was now)"
    if "\<And>s. P s \<Longrightarrow> any_shift s" for P
  proof
    assume "\<exists>s\<in>set (sr_shifts (compare_periods e l before after seeded)). cs_customer s = c \<and> P s"
    then obtain s where "s \<in> set (sr_shifts (compare_periods e l before after seeded))" "cs_customer s = c" "P s" by blast
    then show "P (shift_of c was now)" using assms unfolding shift_listed by auto
  next
    assume "P (shift_of c was now)"
    moreover have "cs_customer (shift_of c was now) = c" by (simp add: shift_of_def)
    ultimately have "shift_of c was now \<in> set (sr_shifts (compare_periods e l before after seeded))"
      using assms that unfolding shift_listed by simp
    then show "\<exists>s\<in>set (sr_shifts (compare_periods e l before after seeded)). cs_customer s = c \<and> P s"
      using \<open>P (shift_of c was now)\<close> \<open>cs_customer (shift_of c was now) = c\<close> by blast
  qed
  from only [of "\<lambda>s. cs_channel s \<noteq> None"] only [of "\<lambda>s. cs_store s \<noteq> None"] only [of "\<lambda>s. cs_category s \<noteq> None"]
  show "(\<exists>s\<in>set (sr_shifts (compare_periods e l before after seeded)). cs_customer s = c \<and> cs_channel s \<noteq> None)
      \<longleftrightarrow> changed (Some (lc_channel was)) (Some (lc_channel now)) \<noteq> None"
    "(\<exists>s\<in>set (sr_shifts (compare_periods e l before after seeded)). cs_customer s = c \<and> cs_store s \<noteq> None)
      \<longleftrightarrow> changed (Some (lc_store was)) (Some (lc_store now)) \<noteq> None"
    "(\<exists>s\<in>set (sr_shifts (compare_periods e l before after seeded)). cs_customer s = c \<and> cs_category s \<noteq> None)
      \<longleftrightarrow> changed (lc_category was) (lc_category now) \<noteq> None"
    by (simp_all add: any_shift_def shift_of_def)
qed

lemma dimension_absent:
  assumes "map_of before c = None \<or> map_of after c = None"
  shows "\<not> (\<exists>s\<in>set (sr_shifts (compare_periods e l before after seeded)). cs_customer s = c \<and> P s)"
  using assms by (auto simp: shift_listed)



text \<open>
  The profile and the report agree about the same customer: the two halves of a profile window are periods the
  report accepts, and over them a dimension of the profile says it shifted exactly when the report lists that customer
  with that dimension.
\<close>

lemma profile_agrees_with_report:
  assumes wf: "catalog_wf d" and p: "build_profile_shifts d c until window_days = Inr (Some p)"
  shows "\<exists>r. detect_shifts d (ps_earlier p) (ps_later p) = Inr r
    \<and> (case_prod comparison_status (ps_channel p) = Shifted \<longleftrightarrow> (\<exists>s\<in>set (sr_shifts r). cs_customer s = c \<and> cs_channel s \<noteq> None))
    \<and> (case_prod comparison_status (ps_store p) = Shifted \<longleftrightarrow> (\<exists>s\<in>set (sr_shifts r). cs_customer s = c \<and> cs_store s \<noteq> None))
    \<and> (case_prod comparison_status (ps_category p) = Shifted \<longleftrightarrow> (\<exists>s\<in>set (sr_shifts r). cs_customer s = c \<and> cs_category s \<noteq> None))
    \<and> (case_prod comparison_status (ps_channel p) = NotCompared \<longleftrightarrow> ps_earlier_purchases p = 0 \<or> ps_later_purchases p = 0)"
proof -
  from p obtain e l where consecutive: "consecutive_periods until (window_days div 2) = Inr (e, l)"
    by (cases "consecutive_periods until (window_days div 2)") (auto simp: build_profile_shifts_def Let_def split: if_splits)
  then have order: "order_periods e l = Inr (e, l)"
    by (auto simp: consecutive_periods_def Let_def split: if_splits dest: order_periods_facts(2))
  obtain mine_before mine_after where mine: "build_leaders (totals_of d e (Some c)) = Inr mine_before" "build_leaders (totals_of d l (Some c)) = Inr mine_after"
    "map_of mine_before c = leaders_in d (sales_of_customer d e c)" "map_of mine_after c = leaders_in d (sales_of_customer d l c)"
    using build_leaders_exact [OF wf, of e "Some c"] build_leaders_exact [OF wf, of l "Some c"] by (auto simp: sales_narrowed)
  define was now where "was = leaders_in d (sales_of_customer d e c)" and "now = leaders_in d (sales_of_customer d l c)"
  have shown: "ps_earlier p = e" "ps_later p = l" "ps_channel p = (map_option lc_channel was, map_option lc_channel now)"
    "ps_store p = (map_option lc_store was, map_option lc_store now)" "ps_category p = (Option.bind was lc_category, Option.bind now lc_category)"
    "ps_earlier_purchases p = (case was of None \<Rightarrow> 0 | Some l \<Rightarrow> lc_purchases l)" "ps_later_purchases p = (case now of None \<Rightarrow> 0 | Some l \<Rightarrow> lc_purchases l)"
    using p by (auto simp: build_profile_shifts_def Let_def consecutive list_totals_for_periods_def mine was_def now_def split: if_splits)
  obtain before after seeded where r: "detect_shifts d e l = Inr (compare_periods e l before after seeded)"
    and maps: "map_of before c = was" "map_of after c = now"
    by (rule detect_exact [OF wf order]) (auto simp: was_def now_def)
  have bought: "lc_purchases x \<noteq> 0" if "leaders_in d (sales_of_customer d q c) = Some x" for x q
  proof -
    have "sales_of_customer d q c \<noteq> []" using leaders_of_customer(1) [OF wf, of q c] that by simp
    then show ?thesis using leaders_of_customer(4) [OF wf that] by simp
  qed
  have shifted: "comparison_status x y = Shifted \<longleftrightarrow> changed x y \<noteq> None" for x y
    by (cases x; cases y) (simp_all add: comparison_status_def changed_def)
  show ?thesis
  proof (cases "was = None \<or> now = None")
    case True
    then have "\<not> (\<exists>s\<in>set (sr_shifts (compare_periods e l before after seeded)). cs_customer s = c \<and> P s)" for P
      by (intro dimension_absent) (simp add: maps)
    moreover have "\<not> changed (map_option f was) (map_option f now) \<noteq> None" "\<not> changed (Option.bind was g) (Option.bind now g) \<noteq> None" for f g
      using True by (auto simp: changed_def split: option.split)
    ultimately show ?thesis using True r by (auto simp: shown shifted comparison_status_def)
  next
    case False
    then obtain x y where xy: "was = Some x" "now = Some y" by auto
    note listed = dimension_listed [OF maps(1) [unfolded xy] maps(2) [unfolded xy], of e l seeded]
    have "lc_purchases x \<noteq> 0" "lc_purchases y \<noteq> 0" using xy bought by (auto simp: was_def now_def)
    moreover have "comparison_status (Some u) (Some v) \<noteq> NotCompared" for u v by (simp add: comparison_status_def)
    ultimately show ?thesis using r by (simp add: shown xy shifted listed del: not_None_eq)
  qed
qed

section \<open>On an example\<close>

text \<open>
  Ana buys three times by the channel 1 in the first day, milk, and three times by the channel 2 in the second, cheese.
\<close>

definition example_busy_shop :: shop_db where
  "example_busy_shop = example_shop\<lparr>sh_sales := map (\<lambda>i.
     \<lparr>sa_id = i, sa_source = [], sa_customer = 1, sa_store = 1, sa_channel = (if i < 3 then 1 else 2), sa_at = (if i < 3 then 10 else days 1 + 10), sa_total = 5000,
      sa_origin = ''OBSERVED'', sa_lines = [\<lparr>li_product = (if i < 3 then 1 else 2), li_quantity = 2, li_price = 2500\<rparr>]\<rparr>) [0, 1, 2, 3, 4, 5]\<rparr>"


definition day :: "int \<Rightarrow> period" where
  "day n = \<lparr>pe_start = days n, pe_end = days (n + 1), pe_zoned = True\<rparr>"

lemma example_days: "order_periods (day 1) (day 0) = Inr (day 0, day 1)"
  by code_simp




lemma example_profile_shifts:
  "case build_profile_shifts example_busy_shop 1 (days 2) 2 of Inr (Some p) \<Rightarrow> case_prod comparison_status (ps_channel p) = Shifted | _ \<Rightarrow> False"
  by code_simp

end
