(* ===== verification/Catalog_Search.thy ===== *)
theory Catalog_Search
  imports Catalog Notifications "HOL-Library.Sublist"
begin

text \<open>
  The listings of the catalogues and of the stock: \<open>web/db/search.py\<close>, the reads of \<open>web/db/categories.py\<close>,
  \<open>roles.py\<close>, \<open>channels.py\<close>, \<open>stores.py\<close>, \<open>products.py\<close> and \<open>inventory.py\<close>, and the page they cut. The pattern
  language of \<open>ILIKE\<close> is PostgreSQL's, with its default escape; letters fold as ASCII does.
\<close>

section \<open>Searching for a text\<close>

text \<open>\<open>str.replace\<close> of one character by itself behind a backslash.\<close>

definition escape_char :: "char \<Rightarrow> string \<Rightarrow> string" where
  "escape_char c s = concat (map (\<lambda>x. if x = c then [CHR 0x5C, x] else [x]) s)"

definition ilike_pattern :: "string \<Rightarrow> string" where
  "ilike_pattern search = ''%'' @ escape_char (CHR ''_'') (escape_char (CHR ''%'') (escape_char (CHR 0x5C) search)) @ ''%''"

function like :: "string \<Rightarrow> string \<Rightarrow> bool" where
  "like [] t \<longleftrightarrow> t = []"
| "like (p # ps) t \<longleftrightarrow>
    (if p = CHR ''%'' then like ps t \<or> (case t of [] \<Rightarrow> False | c # cs \<Rightarrow> like (p # ps) cs)
     else if p = CHR 0x5C then
       (case ps of [] \<Rightarrow> False | q # qs \<Rightarrow> (case t of [] \<Rightarrow> False | c # cs \<Rightarrow> q = c \<and> like qs cs))
     else (case t of [] \<Rightarrow> False | c # cs \<Rightarrow> (p = CHR ''_'' \<or> p = c) \<and> like ps cs))"
  by pat_completeness auto
termination by (relation "measure (\<lambda>(p, t). length p + length t)") auto

definition ilike :: "string \<Rightarrow> string \<Rightarrow> bool" where
  "ilike s pattern = like (map lower_char pattern) (map lower_char s)"

section \<open>Pages\<close>

text \<open>\<open>WHERE ... ORDER BY id LIMIT per_page OFFSET (page - 1) * per_page\<close>, and the count of what matches.\<close>

definition page_of :: "('a \<Rightarrow> 'k::linorder) \<Rightarrow> ('a \<Rightarrow> bool) \<Rightarrow> nat \<Rightarrow> nat \<Rightarrow> 'a list \<Rightarrow> 'a list" where
  "page_of key hit page per_page rows = take per_page (drop ((page - 1) * per_page) (sort_key key (filter hit rows)))"

text \<open>\<open>if search:\<close>\<close>

definition searched :: "string option \<Rightarrow> string list \<Rightarrow> bool" where
  "searched search columns =
    (case search of None \<Rightarrow> True | Some q \<Rightarrow> q = [] \<or> list_ex (\<lambda>s. ilike s (ilike_pattern q)) columns)"

definition list_categories :: "shop_db \<Rightarrow> string option \<Rightarrow> nat \<Rightarrow> nat \<Rightarrow> category_row list \<times> nat" where
  "list_categories d search page per_page =
    (page_of ct_id (\<lambda>c. searched search [ct_name c]) page per_page (sh_categories d),
     length (filter (\<lambda>c. searched search [ct_name c]) (sh_categories d)))"

definition list_roles :: "shop_db \<Rightarrow> string option \<Rightarrow> nat \<Rightarrow> nat \<Rightarrow> role_row list \<times> nat" where
  "list_roles d search page per_page =
    (page_of ro_id (\<lambda>r. searched search [ro_code r]) page per_page (sh_roles d),
     length (filter (\<lambda>r. searched search [ro_code r]) (sh_roles d)))"

definition list_channels :: "shop_db \<Rightarrow> string option \<Rightarrow> nat \<Rightarrow> nat \<Rightarrow> channel_row list \<times> nat" where
  "list_channels d search page per_page =
    (page_of ch_id (\<lambda>c. searched search [ch_name c]) page per_page (sh_channels d),
     length (filter (\<lambda>c. searched search [ch_name c]) (sh_channels d)))"

definition list_stores :: "shop_db \<Rightarrow> string option \<Rightarrow> nat \<Rightarrow> nat \<Rightarrow> store_row list \<times> nat" where
  "list_stores d search page per_page =
    (page_of st_id (\<lambda>s. searched search [st_name s, st_city s, st_state s]) page per_page (sh_stores d),
     length (filter (\<lambda>s. searched search [st_name s, st_city s, st_state s]) (sh_stores d)))"

text \<open>The rows join the category, the count does not.\<close>

definition list_products :: "shop_db \<Rightarrow> string option \<Rightarrow> nat \<Rightarrow> nat \<Rightarrow> (product_row \<times> string) list \<times> nat" where
  "list_products d search page per_page =
    (let joined = concat (map (\<lambda>p. case find (\<lambda>c. ct_id c = pd_category p) (sh_categories d) of None \<Rightarrow> [] | Some c \<Rightarrow> [(p, ct_name c)]) (sh_products d))
     in (page_of (\<lambda>(p, _). pd_id p) (\<lambda>(p, _). searched search [pd_sku p, pd_name p]) page per_page joined,
         length (filter (\<lambda>p. searched search [pd_sku p, pd_name p]) (sh_products d))))"

definition get_category :: "shop_db \<Rightarrow> nat \<Rightarrow> category_row option" where
  "get_category d i = find (\<lambda>c. ct_id c = i) (sh_categories d)"

definition get_role :: "shop_db \<Rightarrow> nat \<Rightarrow> role_row option" where
  "get_role d i = find (\<lambda>r. ro_id r = i) (sh_roles d)"

definition get_channel :: "shop_db \<Rightarrow> nat \<Rightarrow> channel_row option" where
  "get_channel d i = find (\<lambda>c. ch_id c = i) (sh_channels d)"

definition get_store :: "shop_db \<Rightarrow> nat \<Rightarrow> store_row option" where
  "get_store d i = find (\<lambda>s. st_id s = i) (sh_stores d)"

definition get_product :: "shop_db \<Rightarrow> nat \<Rightarrow> product_row option" where
  "get_product d i = find (\<lambda>p. pd_id p = i) (sh_products d)"

record stock_view =
  sv_stock :: stock_row
  sv_store_name :: string
  sv_sku :: string
  sv_product_name :: string

definition LOW_STOCK_THRESHOLD :: int where "LOW_STOCK_THRESHOLD = 20"

definition is_low :: "stock_view \<Rightarrow> bool" where
  "is_low v \<longleftrightarrow> sk_quantity (sv_stock v) < LOW_STOCK_THRESHOLD"

definition stock_views :: "shop_db \<Rightarrow> stock_view list" where
  "stock_views d = concat (map (\<lambda>k.
     (case (find (\<lambda>s. st_id s = sk_store k) (sh_stores d), find (\<lambda>p. pd_id p = sk_product k) (sh_products d)) of
        (Some s, Some p) \<Rightarrow> [\<lparr>sv_stock = k, sv_store_name = st_name s, sv_sku = pd_sku p, sv_product_name = pd_name p\<rparr>]
      | _ \<Rightarrow> [])) (sh_stock d))"

definition stock_shown :: "nat option \<Rightarrow> string option \<Rightarrow> stock_view \<Rightarrow> bool" where
  "stock_shown store search v \<longleftrightarrow> (case store of None \<Rightarrow> True | Some i \<Rightarrow> sk_store (sv_stock v) = i)
     \<and> searched search [sv_sku v, sv_product_name v]"

definition list_stock :: "shop_db \<Rightarrow> nat option \<Rightarrow> string option \<Rightarrow> nat \<Rightarrow> nat \<Rightarrow> stock_view list \<times> nat" where
  "list_stock d store search page per_page =
    (page_of (\<lambda>v. (sk_store (sv_stock v), sk_product (sv_stock v))) (stock_shown store search) page per_page (stock_views d),
     length (filter (stock_shown store search) (stock_views d)))"

section \<open>A search is literal\<close>

definition escape_one :: "char \<Rightarrow> string" where
  "escape_one x = (if x \<in> {CHR 0x5C, CHR ''%'', CHR ''_''} then [CHR 0x5C, x] else [x])"

lemma escape_twice: "escape_char (CHR ''_'') (escape_char (CHR ''%'') (escape_char (CHR 0x5C) s)) = concat (map escape_one s)"
  by (induction s) (auto simp: escape_char_def escape_one_def)

lemma of_lower_char: "(of_char (lower_char x) :: nat) = (if 65 \<le> (of_char x :: nat) \<and> (of_char x :: nat) \<le> 90 then of_char x + 32 else of_char x)"
  by (simp add: lower_char_def)

lemma lower_char_special: "lower_char x = CHR ''%'' \<longleftrightarrow> x = CHR ''%''" "lower_char x = CHR 0x5C \<longleftrightarrow> x = CHR 0x5C" "lower_char x = CHR ''_'' \<longleftrightarrow> x = CHR ''_''"
proof -
  have code: "(c = c') = ((of_char c :: nat) = of_char c')" for c c' :: char by (simp only: of_char_eq_iff)
  show "lower_char x = CHR ''%'' \<longleftrightarrow> x = CHR ''%''" unfolding code of_lower_char by auto
  show "lower_char x = CHR 0x5C \<longleftrightarrow> x = CHR 0x5C" unfolding code of_lower_char by auto
  show "lower_char x = CHR ''_'' \<longleftrightarrow> x = CHR ''_''" unfolding code of_lower_char by auto
qed

lemma lower_escape: "map lower_char (concat (map escape_one s)) = concat (map escape_one (map lower_char s))"
proof (induction s)
  case (Cons x s)
  have "map lower_char (escape_one x) = escape_one (lower_char x)"
    by (auto simp: escape_one_def lower_char_special)
  with Cons show ?case by simp
qed simp

text \<open>An escaped text matches itself and what follows it.\<close>

lemma like_literal: "like (concat (map escape_one q) @ ps) t \<longleftrightarrow> (\<exists>rest. t = q @ rest \<and> like ps rest)"
proof (induction q arbitrary: t)
  case (Cons x q)
  show ?case
  proof (cases t)
    case (Cons c cs)
    with Cons.IH [of cs] show ?thesis by (auto simp: escape_one_def)
  qed (auto simp: escape_one_def)
qed simp

lemma like_percent: "like (CHR ''%'' # ps) t \<longleftrightarrow> (\<exists>skipped rest. t = skipped @ rest \<and> like ps rest)"
proof (induction t)
  case Nil
  show ?case by (subst like.simps) simp
next
  case (Cons c cs)
  have "like (CHR ''%'' # ps) (c # cs) \<longleftrightarrow> like ps (c # cs) \<or> like (CHR ''%'' # ps) cs" by (subst like.simps) simp
  also have "\<dots> \<longleftrightarrow> (\<exists>skipped rest. c # cs = skipped @ rest \<and> like ps rest)"
    unfolding Cons by (metis append_Cons append_Nil list.inject neq_Nil_conv)
  finally show ?case .
qed

declare like.simps [simp del]

lemma search_is_containment: "ilike s (ilike_pattern q) \<longleftrightarrow> sublist (map lower_char q) (map lower_char s)"
proof -
  have pattern: "map lower_char (ilike_pattern q) = CHR ''%'' # concat (map escape_one (map lower_char q)) @ ''%''"
    by (simp add: ilike_pattern_def escape_twice lower_escape lower_char_special del: map_concat map_map)
  have ending: "like ''%'' rest" for rest by (simp add: like_percent like.simps(1))
  show ?thesis unfolding ilike_def pattern like_percent [of "concat (map escape_one (map lower_char q)) @ ''%''"] like_literal sublist_def
    using ending by auto
qed

definition contains_text :: "string \<Rightarrow> string \<Rightarrow> bool" where
  "contains_text q s \<longleftrightarrow> sublist (map lower_char q) (map lower_char s)"

lemma searched_exact: "searched search columns \<longleftrightarrow> (case search of None \<Rightarrow> True | Some q \<Rightarrow> q = [] \<or> (\<exists>s\<in>set columns. contains_text q s))"
  by (auto simp: searched_def search_is_containment contains_text_def list_ex_iff split: option.split)

section \<open>The pages are the listing\<close>

lemma pages_are_prefixes: "concat (map (\<lambda>i. take n (drop (i * n) xs)) [0..<k]) = take (k * n) xs"
proof (induction k)
  case (Suc k)
  have "take (Suc k * n) xs = take (k * n) xs @ take n (drop (k * n) xs)" by (metis add.commute mult_Suc take_add)
  with Suc show ?case by simp
qed simp

lemma sort_key_of_map: "sort_key k (map f xs) = map f (sort_key (\<lambda>x. k (f x)) xs)"
proof (induction xs)
  case (Cons x xs)
  have "insort_key k (f x) (map f ys) = map f (insort_key (\<lambda>x. k (f x)) x ys)" for ys by (induction ys) simp_all
  with Cons show ?case by simp
qed simp

lemma pages_cover:
  assumes "0 < n"
  shows "concat (map (\<lambda>i. page_of key hit (Suc i) n rows) [0..<page_count (length (filter hit rows)) n]) = sort_key key (filter hit rows)"
proof -
  let ?m = "length (filter hit rows)"
  have "(?m + n - 1) div n * n + (?m + n - 1) mod n = ?m + n - 1" "(?m + n - 1) mod n < n" using assms by (simp_all only: div_mult_mod_eq mod_less_divisor)
  then have "?m \<le> (?m + n - 1) div n * n" by linarith
  also have "\<dots> \<le> page_count ?m n * n" by (simp add: page_count_def)
  finally have "?m \<le> page_count ?m n * n" .
  then show ?thesis by (simp add: page_of_def pages_are_prefixes)
qed

text \<open>
  C36. Searching and paging lose nothing: whatever text is searched for - the wildcards and the escape character of the
  pattern language among it - the pages of a listing, one after the other, are exactly the rows one of whose searched
  columns contains the text, case aside, in the order of their ids, each once; and the count is their number.
\<close>

theorem pages_are_the_matching_rows:
  assumes wf: "catalog_wf d" and n: "0 < n"
  shows "concat (map (\<lambda>i. fst (list_categories d (Some q) (Suc i) n)) [0..<page_count (snd (list_categories d (Some q) 1 n)) n])
      = sort_key ct_id (filter (\<lambda>c. contains_text q (ct_name c)) (sh_categories d))
    \<and> concat (map (\<lambda>i. fst (list_roles d (Some q) (Suc i) n)) [0..<page_count (snd (list_roles d (Some q) 1 n)) n])
      = sort_key ro_id (filter (\<lambda>r. contains_text q (ro_code r)) (sh_roles d))
    \<and> concat (map (\<lambda>i. fst (list_channels d (Some q) (Suc i) n)) [0..<page_count (snd (list_channels d (Some q) 1 n)) n])
      = sort_key ch_id (filter (\<lambda>c. contains_text q (ch_name c)) (sh_channels d))
    \<and> concat (map (\<lambda>i. fst (list_stores d (Some q) (Suc i) n)) [0..<page_count (snd (list_stores d (Some q) 1 n)) n])
      = sort_key st_id (filter (\<lambda>s. contains_text q (st_name s) \<or> contains_text q (st_city s) \<or> contains_text q (st_state s)) (sh_stores d))
    \<and> map fst (concat (map (\<lambda>i. fst (list_products d (Some q) (Suc i) n)) [0..<page_count (snd (list_products d (Some q) 1 n)) n]))
      = sort_key pd_id (filter (\<lambda>p. contains_text q (pd_sku p) \<or> contains_text q (pd_name p)) (sh_products d))"
proof -
  have hit: "searched (Some q) [x] \<longleftrightarrow> contains_text q x" "searched (Some q) [x, y] \<longleftrightarrow> contains_text q x \<or> contains_text q y"
    "searched (Some q) [x, y, z] \<longleftrightarrow> contains_text q x \<or> contains_text q y \<or> contains_text q z" for x y z
    by (auto simp: searched_exact contains_text_def)
  define name :: "product_row \<Rightarrow> string" where "name p = ct_name (the (find (\<lambda>c. ct_id c = pd_category p) (sh_categories d)))" for p
  have joined: "concat (map (\<lambda>p. case find (\<lambda>c. ct_id c = pd_category p) (sh_categories d) of None \<Rightarrow> [] | Some c \<Rightarrow> [(p, ct_name c)]) (sh_products d))
      = map (\<lambda>p. (p, name p)) (sh_products d)"
  proof -
    have "find (\<lambda>c. ct_id c = pd_category p) (sh_categories d) \<noteq> None" if "p \<in> set (sh_products d)" for p
    proof -
      from that wf have "pd_category p \<in> ct_id ` set (sh_categories d)" by (auto simp: catalog_wf_def references_ok_def)
      then show ?thesis by (auto simp: find_None_iff)
    qed
    then have "concat (map (\<lambda>p. case find (\<lambda>c. ct_id c = pd_category p) (sh_categories d) of None \<Rightarrow> [] | Some c \<Rightarrow> [(p, ct_name c)]) ps)
        = map (\<lambda>p. (p, name p)) ps" if "set ps \<subseteq> set (sh_products d)" for ps
      using that
    proof (induction ps)
      case (Cons p ps)
      then obtain c where "find (\<lambda>c. ct_id c = pd_category p) (sh_categories d) = Some c" by fastforce
      with Cons show ?case by (simp add: name_def)
    qed simp
    then show ?thesis by simp
  qed
  have count: "length (filter (\<lambda>p. searched (Some q) [pd_sku p, pd_name p]) (sh_products d))
      = length (filter (\<lambda>(p, _). searched (Some q) [pd_sku p, pd_name p]) (map (\<lambda>p. (p, name p)) (sh_products d)))"
    by (simp add: filter_map comp_def)
  have "map fst (concat (map (\<lambda>i. fst (list_products d (Some q) (Suc i) n)) [0..<page_count (snd (list_products d (Some q) 1 n)) n]))
      = sort_key pd_id (filter (\<lambda>p. contains_text q (pd_sku p) \<or> contains_text q (pd_name p)) (sh_products d))"
    unfolding list_products_def Let_def joined fst_conv snd_conv count pages_cover [OF n]
    by (simp add: filter_map comp_def hit sort_key_of_map)
  moreover have "concat (map (\<lambda>i. fst (list_categories d (Some q) (Suc i) n)) [0..<page_count (snd (list_categories d (Some q) 1 n)) n])
      = sort_key ct_id (filter (\<lambda>c. contains_text q (ct_name c)) (sh_categories d))"
    unfolding list_categories_def fst_conv snd_conv pages_cover [OF n] by (simp only: hit)
  moreover have "concat (map (\<lambda>i. fst (list_roles d (Some q) (Suc i) n)) [0..<page_count (snd (list_roles d (Some q) 1 n)) n])
      = sort_key ro_id (filter (\<lambda>r. contains_text q (ro_code r)) (sh_roles d))"
    unfolding list_roles_def fst_conv snd_conv pages_cover [OF n] by (simp only: hit)
  moreover have "concat (map (\<lambda>i. fst (list_channels d (Some q) (Suc i) n)) [0..<page_count (snd (list_channels d (Some q) 1 n)) n])
      = sort_key ch_id (filter (\<lambda>c. contains_text q (ch_name c)) (sh_channels d))"
    unfolding list_channels_def fst_conv snd_conv pages_cover [OF n] by (simp only: hit)
  moreover have "concat (map (\<lambda>i. fst (list_stores d (Some q) (Suc i) n)) [0..<page_count (snd (list_stores d (Some q) 1 n)) n])
      = sort_key st_id (filter (\<lambda>s. contains_text q (st_name s) \<or> contains_text q (st_city s) \<or> contains_text q (st_state s)) (sh_stores d))"
    unfolding list_stores_def fst_conv snd_conv pages_cover [OF n] by (simp only: hit)
  ultimately show ?thesis by blast
qed

theorem pages_are_the_matching_rows_witness:
  "concat (map (\<lambda>i. fst (list_categories example_shop (Some ''IL'') (Suc i) 20)) [0..<page_count (snd (list_categories example_shop (Some ''IL'') 1 20)) 20])
    = sort_key ct_id (filter (\<lambda>c. contains_text ''IL'' (ct_name c)) (sh_categories example_shop))"
  using pages_are_the_matching_rows [OF example_shop_wf, of 20 "''IL''"] by simp

end
