(* ===== verification/Streams.thy ===== *)
theory Streams
  imports RFM_Rules
begin

text \<open>
  The transactional outbox and the consumers of the event streams, \<open>packages/kit-py/src/mosaiq_kit/streams.py\<close>: one
  pass of \<open>OutboxRelay\<close> over a service's outbox, and one pass of \<open>StreamConsumer\<close> over what its group is given. What
  Redis and PostgreSQL answer - which additions are refused, what was synced, whether the transaction commits, which
  rows another relay holds, how often an entry was delivered - is an argument of the pass. The log is everything
  Redis took, in order; its trimming and the threads that repeat the passes are outside the model. Instants are in
  the unit of \<open>days\<close>, the monotonic clock in seconds; rows captured at the same instant are read in the order of the table.
\<close>

section \<open>The relay\<close>

record outbox_event =
  oe_id :: nat
  oe_stream :: string
  oe_type :: string
  oe_entity :: string
  oe_at :: int
  oe_relayed :: "int option"

record message =
  me_event :: nat
  me_type :: string
  me_entity :: string
  me_at :: int

record relay =
  rl_streams :: "string list"
  rl_outbox :: "outbox_event list"
  rl_log :: "(string \<times> message) list"
  rl_last_purge :: "int option"

text \<open>What a pass meets: rows held by others, additions refused, the count \<open>WAITAOF\<close> answers, the commit, that of the purge, the clocks.\<close>

record relay_pass =
  rp_locked :: "nat list"
  rp_refused :: "nat \<Rightarrow> bool"
  rp_synced :: "int option"
  rp_commits :: bool
  rp_purges :: bool
  rp_now :: int
  rp_monotonic :: int

datatype relay_error = DatabaseLost

definition RELAY_BATCH :: nat where "RELAY_BATCH = 100"

definition message_of :: "outbox_event \<Rightarrow> string \<times> message" where
  "message_of e = (oe_stream e, \<lparr>me_event = oe_id e, me_type = oe_type e, me_entity = oe_entity e, me_at = oe_at e\<rparr>)"

text \<open>\<open>WHERE relayed_at IS NULL ORDER BY occurred_at LIMIT 100 FOR UPDATE SKIP LOCKED\<close>\<close>

definition relay_rows :: "nat list \<Rightarrow> outbox_event list \<Rightarrow> outbox_event list" where
  "relay_rows locked ob = take RELAY_BATCH (sort_key oe_at (filter (\<lambda>e. oe_relayed e = None \<and> oe_id e \<notin> set locked) ob))"

text \<open>What is added before the first refusal, the events added, and whether one was refused.\<close>

fun send_rows :: "string list \<Rightarrow> (nat \<Rightarrow> bool) \<Rightarrow> outbox_event list \<Rightarrow> (string \<times> message) list \<times> nat list \<times> bool" where
  "send_rows streams refused [] = ([], [], False)"
| "send_rows streams refused (e # es) =
    (if oe_stream e \<notin> set streams then send_rows streams refused es
     else if refused (oe_id e) then ([], [], True)
     else case send_rows streams refused es of (sent, ids, failed) \<Rightarrow> (message_of e # sent, oe_id e # ids, failed))"

definition mark_relayed :: "int \<Rightarrow> nat list \<Rightarrow> outbox_event list \<Rightarrow> outbox_event list" where
  "mark_relayed now ids = map (\<lambda>e. if oe_id e \<in> set ids then e\<lparr>oe_relayed := Some now\<rparr> else e)"

definition purge_outbox :: "int \<Rightarrow> outbox_event list \<Rightarrow> outbox_event list" where
  "purge_outbox now = filter (\<lambda>e. case oe_relayed e of None \<Rightarrow> True | Some t \<Rightarrow> \<not> t < now - days 7)"

definition purge_due :: "relay \<Rightarrow> relay_pass \<Rightarrow> bool" where
  "purge_due r p \<longleftrightarrow> (case rl_last_purge r of None \<Rightarrow> True | Some t \<Rightarrow> 3600 \<le> rp_monotonic p - t)"

definition relay_once :: "relay_pass \<Rightarrow> relay \<Rightarrow> (relay_error + nat) \<times> relay" where
  "relay_once p r =
    (case send_rows (rl_streams r) (rp_refused p) (relay_rows (rp_locked p) (rl_outbox r)) of (sent, ids, failed) \<Rightarrow>
      let r1 = r\<lparr>rl_log := rl_log r @ sent\<rparr>;
          synced = (case rp_synced p of None \<Rightarrow> False | Some n \<Rightarrow> 1 \<le> n)
      in if failed \<or> (ids \<noteq> [] \<and> \<not> synced) then (Inr 0, r1)
         else if \<not> rp_commits p then (Inl DatabaseLost, r1)
         else
           (let r2 = r1\<lparr>rl_outbox := mark_relayed (rp_now p) ids (rl_outbox r1)\<rparr>
            in if purge_due r p \<and> \<not> rp_purges p then (Inl DatabaseLost, r2)
               else if purge_due r p
               then (Inr (length ids), r2\<lparr>rl_outbox := purge_outbox (rp_now p) (rl_outbox r2), rl_last_purge := Some (rp_monotonic p)\<rparr>)
               else (Inr (length ids), r2)))"

text \<open>The life of a relay: events are captured by the triggers, and passes run, in any order.\<close>

datatype relay_step = Captured outbox_event | Passed relay_pass

fun relay_steps :: "relay_step \<Rightarrow> relay \<Rightarrow> relay" where
  "relay_steps (Captured e) r = r\<lparr>rl_outbox := rl_outbox r @ [e\<lparr>oe_relayed := None\<rparr>]\<rparr>"
| "relay_steps (Passed p) r = snd (relay_once p r)"

section \<open>The consumer\<close>

type_synonym fields = "(string \<times> string) list"

record consumer =
  co_handled :: "string list"
  co_started :: bool

datatype outcome = NoFields | AlreadyHandled | Done | Failed nat | Exhausted nat

text \<open>\<open>_remember\<close>: to the end, then the oldest leave while there are too many.\<close>

definition remember :: "nat \<Rightarrow> string \<Rightarrow> string list \<Rightarrow> string list" where
  "remember capacity e handled =
    (let kept = filter (\<lambda>x. x \<noteq> e) handled @ [e] in drop (length kept - capacity) kept)"

definition event_id :: "fields \<Rightarrow> string" where
  "event_id f = (case map_of f ''event_id'' of None \<Rightarrow> [] | Some x \<Rightarrow> x)"

text \<open>One entry: its outcome, the events remembered, and the state the handler works on.\<close>

definition handle_entry ::
  "(fields \<Rightarrow> 's \<Rightarrow> bool \<times> 's) \<Rightarrow> (string \<Rightarrow> nat) \<Rightarrow> nat \<Rightarrow> string \<times> fields option \<Rightarrow> string list \<times> 's \<Rightarrow> outcome \<times> string list \<times> 's" where
  "handle_entry handler deliveries capacity entry state =
    (case (entry, state) of ((i, content), (handled, s)) \<Rightarrow>
      (case content of
         None \<Rightarrow> (NoFields, handled, s)
       | Some f \<Rightarrow>
           if event_id f \<noteq> [] \<and> event_id f \<in> set handled then (AlreadyHandled, handled, s)
           else (case handler f s of
               (False, s') \<Rightarrow> (if 5 \<le> deliveries i then Exhausted (deliveries i) else Failed (deliveries i), handled, s')
             | (True, s') \<Rightarrow> (Done, if event_id f \<noteq> [] then remember capacity (event_id f) handled else handled, s'))))"

fun handle_entries ::
  "(fields \<Rightarrow> 's \<Rightarrow> bool \<times> 's) \<Rightarrow> (string \<Rightarrow> nat) \<Rightarrow> nat \<Rightarrow> (string \<times> fields option) list \<Rightarrow> string list \<times> 's \<Rightarrow> outcome list \<times> string list \<times> 's" where
  "handle_entries handler deliveries capacity [] state = ([], state)"
| "handle_entries handler deliveries capacity (entry # entries) state =
    (case handle_entry handler deliveries capacity entry state of (o1, state') \<Rightarrow>
      (case handle_entries handler deliveries capacity entries state' of (os, state'') \<Rightarrow> (o1 # os, state'')))"

text \<open>What is acknowledged, and what \<open>_handle_entries\<close> counts.\<close>

definition settled :: "outcome \<Rightarrow> bool" where
  "settled x \<longleftrightarrow> (case x of Failed _ \<Rightarrow> False | _ \<Rightarrow> True)"

definition acknowledged :: "(string \<times> fields option) list \<Rightarrow> outcome list \<Rightarrow> string list" where
  "acknowledged entries os = map (fst \<circ> fst) (filter (\<lambda>(_, x). settled x) (zip entries os))"

text \<open>A pass: what was pending when the process starts, what another consumer left for a minute, what is new.\<close>

definition run_pass ::
  "(fields \<Rightarrow> 's \<Rightarrow> bool \<times> 's) \<Rightarrow> (string \<Rightarrow> nat) \<Rightarrow> nat \<Rightarrow> (string \<times> fields option) list \<Rightarrow> (string \<times> fields option) list
    \<Rightarrow> (string \<times> fields option) list \<Rightarrow> consumer \<times> 's \<Rightarrow> nat \<times> string list \<times> consumer \<times> 's" where
  "run_pass handler deliveries capacity pending claimed fresh state =
    (case state of (c, s) \<Rightarrow>
      let entries = (if co_started c then [] else pending) @ claimed @ fresh
      in case handle_entries handler deliveries capacity entries (co_handled c, s) of (os, handled, s') \<Rightarrow>
           (length (filter settled os), acknowledged entries os, \<lparr>co_handled = handled, co_started = True\<rparr>, s'))"

section \<open>No event is lost\<close>

lemma message_of_relayed [simp]: "message_of (e\<lparr>oe_relayed := t\<rparr>) = message_of e"
  by (simp add: message_of_def)

lemma message_of_id: "message_of x = message_of e \<Longrightarrow> oe_id x = oe_id e"
  by (simp add: message_of_def)

lemma send_rows_sent:
  assumes "send_rows streams refused es = (sent, ids, failed)"
  shows "\<exists>k. sent = map message_of (take k (filter (\<lambda>e. oe_stream e \<in> set streams) es))
      \<and> ids = map oe_id (take k (filter (\<lambda>e. oe_stream e \<in> set streams) es))"
    and "\<not> failed \<Longrightarrow> ids = map oe_id (filter (\<lambda>e. oe_stream e \<in> set streams) es)"
    and "\<not> failed \<Longrightarrow> sent = map message_of (filter (\<lambda>e. oe_stream e \<in> set streams) es)"
proof -
  have "(\<exists>k. sent = map message_of (take k (filter (\<lambda>e. oe_stream e \<in> set streams) es)) \<and> ids = map oe_id (take k (filter (\<lambda>e. oe_stream e \<in> set streams) es)))
      \<and> (\<not> failed \<longrightarrow> ids = map oe_id (filter (\<lambda>e. oe_stream e \<in> set streams) es) \<and> sent = map message_of (filter (\<lambda>e. oe_stream e \<in> set streams) es))"
    using assms
  proof (induction es arbitrary: sent ids failed)
    case (Cons e es)
    obtain m i f where rec: "send_rows streams refused es = (m, i, f)" by (cases "send_rows streams refused es") auto
    from Cons.IH [OF this] obtain k where k: "m = map message_of (take k (filter (\<lambda>e. oe_stream e \<in> set streams) es))"
      "i = map oe_id (take k (filter (\<lambda>e. oe_stream e \<in> set streams) es))" by blast
    consider "oe_stream e \<notin> set streams" | "oe_stream e \<in> set streams" "refused (oe_id e)" | "oe_stream e \<in> set streams" "\<not> refused (oe_id e)" by blast
    then show ?case
    proof cases
      case 1
      then show ?thesis using Cons.IH [OF rec] Cons.prems rec by simp
    next
      case 2
      then show ?thesis using Cons.prems by (auto intro: exI [of _ 0])
    next
      case 3
      with Cons.prems rec have "sent = message_of e # m" "ids = oe_id e # i" "failed = f" by auto
      then show ?thesis using 3 k Cons.IH [OF rec] by (auto intro!: exI [of _ "Suc k"])
    qed
  qed auto
  then show "\<exists>k. sent = map message_of (take k (filter (\<lambda>e. oe_stream e \<in> set streams) es))
      \<and> ids = map oe_id (take k (filter (\<lambda>e. oe_stream e \<in> set streams) es))"
    "\<not> failed \<Longrightarrow> ids = map oe_id (filter (\<lambda>e. oe_stream e \<in> set streams) es)"
    "\<not> failed \<Longrightarrow> sent = map message_of (filter (\<lambda>e. oe_stream e \<in> set streams) es)" by blast+
qed

lemma relay_rows_subset: "e \<in> set (relay_rows locked ob) \<Longrightarrow> e \<in> set ob \<and> oe_relayed e = None"
  by (auto simp: relay_rows_def dest: in_set_takeD)

fun captured :: "relay_step list \<Rightarrow> outbox_event list" where
  "captured [] = []"
| "captured (Captured e # steps) = e # captured steps"
| "captured (Passed p # steps) = captured steps"

text \<open>Every captured event waits in the outbox or is in the log, and what is in either was captured.\<close>

definition accounted :: "outbox_event list \<Rightarrow> relay \<Rightarrow> bool" where
  "accounted cap r \<longleftrightarrow> distinct (map oe_id cap) \<and> distinct (map oe_id (rl_outbox r))
     \<and> (\<forall>x\<in>set (rl_outbox r). message_of x \<in> message_of ` set cap \<and> (oe_relayed x = None \<or> message_of x \<in> set (rl_log r)))
     \<and> set (rl_log r) \<subseteq> message_of ` set cap
     \<and> (\<forall>e\<in>set cap. message_of e \<in> set (rl_log r) \<or> (\<exists>x\<in>set (rl_outbox r). message_of x = message_of e))"

lemma accounted_sent:
  assumes "accounted cap r" and "send_rows (rl_streams r) refused (relay_rows locked (rl_outbox r)) = (sent, ids, failed)"
  shows "accounted cap (r\<lparr>rl_log := rl_log r @ sent\<rparr>)"
proof -
  have "set sent \<subseteq> message_of ` set (rl_outbox r)"
    using send_rows_sent(1) [OF assms(2)] relay_rows_subset [of _ locked "rl_outbox r"] by (auto dest!: in_set_takeD)
  with assms(1) show ?thesis unfolding accounted_def by auto
qed

lemma accounted_marked:
  assumes "accounted cap r" and "\<forall>x\<in>set (rl_outbox r). oe_id x \<in> set ids \<longrightarrow> message_of x \<in> set (rl_log r)"
  shows "accounted cap (r\<lparr>rl_outbox := mark_relayed now ids (rl_outbox r)\<rparr>)"
proof -
  have ids: "map oe_id (mark_relayed now ids ob) = map oe_id ob" "message_of ` set (mark_relayed now ids ob) = message_of ` set ob" for ob
    by (induction ob) (auto simp: mark_relayed_def)
  have "(\<exists>x\<in>set (mark_relayed now ids (rl_outbox r)). message_of x = m) \<longleftrightarrow> (\<exists>x\<in>set (rl_outbox r). message_of x = m)" for m
  proof -
    have "(\<exists>x\<in>A. message_of x = m) \<longleftrightarrow> m \<in> message_of ` A" for A :: "outbox_event set" by auto
    then show ?thesis by (simp only: ids(2))
  qed
  moreover have "message_of x \<in> message_of ` set cap \<and> (oe_relayed x = None \<or> message_of x \<in> set (rl_log r))"
    if "x \<in> set (mark_relayed now ids (rl_outbox r))" for x
  proof -
    from that obtain y where "y \<in> set (rl_outbox r)" "x = (if oe_id y \<in> set ids then y\<lparr>oe_relayed := Some now\<rparr> else y)" by (auto simp: mark_relayed_def)
    then show ?thesis using assms unfolding accounted_def by (cases "oe_id y \<in> set ids") auto
  qed
  ultimately show ?thesis using assms(1) unfolding accounted_def by (simp add: ids)
qed

lemma accounted_purged:
  assumes "accounted cap r"
  shows "accounted cap (r\<lparr>rl_outbox := purge_outbox now (rl_outbox r), rl_last_purge := t\<rparr>)"
proof -
  have "(\<exists>x\<in>set (purge_outbox now (rl_outbox r)). message_of x = message_of e) \<or> message_of e \<in> set (rl_log r)" if "e \<in> set cap" for e
  proof (rule ccontr)
    assume lost: "\<not> ?thesis"
    with assms that obtain x where x: "x \<in> set (rl_outbox r)" "message_of x = message_of e" unfolding accounted_def by metis
    with lost have "x \<notin> set (purge_outbox now (rl_outbox r))" by metis
    with x(1) have "oe_relayed x \<noteq> None" by (cases "oe_relayed x") (auto simp: purge_outbox_def)
    with assms x have "message_of e \<in> set (rl_log r)" unfolding accounted_def by metis
    with lost show False by simp
  qed
  moreover have kept: "x \<in> set (rl_outbox r)" if "x \<in> set (purge_outbox now (rl_outbox r))" for x using that by (simp add: purge_outbox_def)
  moreover have "distinct (map oe_id (purge_outbox now (rl_outbox r)))"
    using assms by (simp add: accounted_def purge_outbox_def distinct_map_filter)
  ultimately show ?thesis using assms unfolding accounted_def by simp metis
qed

lemma relay_once_streams: "rl_streams (snd (relay_once p r)) = rl_streams r"
  by (simp add: relay_once_def Let_def split: prod.split)

lemma accounted_pass:
  assumes "accounted cap r"
  shows "accounted cap (snd (relay_once p r))"
proof -
  obtain sent ids failed where send: "send_rows (rl_streams r) (rp_refused p) (relay_rows (rp_locked p) (rl_outbox r)) = (sent, ids, failed)"
    by (metis prod_cases3)
  let ?r1 = "r\<lparr>rl_log := rl_log r @ sent\<rparr>"
  have r1: "accounted cap ?r1" by (rule accounted_sent [OF assms send])
  have "message_of x \<in> set (rl_log ?r1)" if x: "x \<in> set (rl_outbox ?r1)" "oe_id x \<in> set ids" for x
  proof -
    from send_rows_sent(1) [OF send] obtain k where k: "sent = map message_of (take k (filter (\<lambda>e. oe_stream e \<in> set (rl_streams r)) (relay_rows (rp_locked p) (rl_outbox r))))"
      "ids = map oe_id (take k (filter (\<lambda>e. oe_stream e \<in> set (rl_streams r)) (relay_rows (rp_locked p) (rl_outbox r))))" by blast
    from x(2) k(2) obtain y where y: "y \<in> set (take k (filter (\<lambda>e. oe_stream e \<in> set (rl_streams r)) (relay_rows (rp_locked p) (rl_outbox r))))" "oe_id x = oe_id y" by auto
    then have "y \<in> set (rl_outbox r)" by (auto dest!: in_set_takeD relay_rows_subset)
    moreover have "inj_on oe_id (set (rl_outbox r))" using assms by (simp add: accounted_def distinct_map)
    ultimately have "x = y" using x(1) y(2) by (auto dest: inj_onD)
    with y(1) have "message_of x \<in> set sent" unfolding k(1) by simp
    then show ?thesis by simp
  qed
  then have "accounted cap (?r1\<lparr>rl_outbox := mark_relayed (rp_now p) ids (rl_outbox ?r1)\<rparr>)" by (intro accounted_marked r1) blast
  from this accounted_purged [OF this] r1 show ?thesis
    by (auto simp: relay_once_def send Let_def)
qed

lemma accounted_steps:
  assumes "distinct (map oe_id (cap @ captured steps))" and "accounted cap r"
  shows "accounted (cap @ captured steps) (fold relay_steps steps r)"
  using assms
proof (induction steps arbitrary: cap r)
  case (Cons s steps)
  show ?case
  proof (cases s)
    case (Captured e)
    with Cons.prems have new: "oe_id e \<notin> oe_id ` set cap" by auto
    have "oe_id x \<in> oe_id ` set cap" if "x \<in> set (rl_outbox r)" for x
      using that Cons.prems(2) message_of_id unfolding accounted_def by (metis imageE image_eqI)
    with new have "oe_id e \<notin> oe_id ` set (rl_outbox r)" by auto
    with Cons.prems(2) new have "accounted (cap @ [e]) (relay_steps s r)" by (auto simp: accounted_def Captured)
    with Cons.IH [of "cap @ [e]" "relay_steps s r"] Cons.prems(1) show ?thesis by (simp add: Captured)
  next
    case (Passed p)
    with Cons accounted_pass [OF Cons.prems(2), of p] show ?thesis by simp
  qed
qed simp

definition new_relay :: "string list \<Rightarrow> relay" where
  "new_relay streams = \<lparr>rl_streams = streams, rl_outbox = [], rl_log = [], rl_last_purge = None\<rparr>"

text \<open>
  C10. No event is lost: whatever passes run and however they fail - an addition refused half way, an unconfirmed sync,
  a transaction that does not commit, a purge - every event the triggers captured is in the stream's log or still in the
  outbox, unrelayed; an event marked as relayed is in the log; and nothing but captured events is in the log.
\<close>

theorem no_event_is_lost:
  fixes streams :: "string list"
  assumes "distinct (map oe_id (captured steps))"
  defines "r \<equiv> fold relay_steps steps (new_relay streams)"
  shows "list_all (\<lambda>e. message_of e \<in> set (rl_log r) \<or> (\<exists>x\<in>set (rl_outbox r). message_of x = message_of e \<and> oe_relayed x = None)) (captured steps)
    \<and> list_all (\<lambda>x. oe_relayed x = None \<or> message_of x \<in> set (rl_log r)) (rl_outbox r)
    \<and> set (rl_log r) \<subseteq> message_of ` set (captured steps)"
proof -
  have "accounted [] (new_relay streams)" by (simp add: accounted_def new_relay_def)
  with accounted_steps [of "[]" steps "new_relay streams"] assms have "accounted (captured steps) r" by simp
  then show ?thesis unfolding accounted_def list_all_iff by metis
qed

section \<open>Passes that meet no failure empty the outbox\<close>

definition good_pass :: "relay_pass \<Rightarrow> bool" where
  "good_pass p \<longleftrightarrow> rp_locked p = [] \<and> (\<forall>i. \<not> rp_refused p i) \<and> (case rp_synced p of None \<Rightarrow> False | Some n \<Rightarrow> 1 \<le> n) \<and> rp_commits p \<and> rp_purges p"

definition waiting :: "relay \<Rightarrow> outbox_event list" where
  "waiting r = filter (\<lambda>e. oe_relayed e = None) (rl_outbox r)"

lemma waiting_subset: "set (waiting r) \<subseteq> set (rl_outbox r)"
  by (auto simp: waiting_def)

lemma waiting_marked: "filter (\<lambda>e. oe_relayed e = None) (mark_relayed now ids ob) = filter (\<lambda>e. oe_id e \<notin> set ids) (filter (\<lambda>e. oe_relayed e = None) ob)"
  by (induction ob) (auto simp: mark_relayed_def)

lemma waiting_purged: "filter (\<lambda>e. oe_relayed e = None) (purge_outbox now ob) = filter (\<lambda>e. oe_relayed e = None) ob"
  by (induction ob) (auto simp: purge_outbox_def)

lemma ids_purged: "distinct (map oe_id ob) \<Longrightarrow> distinct (map oe_id (purge_outbox now ob))"
  by (simp add: purge_outbox_def distinct_map_filter)

lemma good_pass_effect:
  assumes good: "good_pass p" and known: "oe_stream ` set (waiting r) \<subseteq> set (rl_streams r)" and ids: "distinct (map oe_id (rl_outbox r))"
  defines "r' \<equiv> snd (relay_once p r)"
  shows "fst (relay_once p r) = Inr (length (take RELAY_BATCH (sort_key oe_at (waiting r))))"
    and "rl_log r' = rl_log r @ map message_of (take RELAY_BATCH (sort_key oe_at (waiting r)))"
    and "sort_key oe_at (waiting r') = drop RELAY_BATCH (sort_key oe_at (waiting r))"
    and "set (waiting r') \<subseteq> set (waiting r)" and "distinct (map oe_id (rl_outbox r'))" and "rl_streams r' = rl_streams r"
proof -
  let ?batch = "take RELAY_BATCH (sort_key oe_at (waiting r))"
  have rows: "relay_rows (rp_locked p) (rl_outbox r) = ?batch"
    using good by (simp add: relay_rows_def waiting_def good_pass_def)
  have "filter (\<lambda>e. oe_stream e \<in> set (rl_streams r)) ?batch = ?batch"
    using known by (intro filter_True) (auto dest!: in_set_takeD)
  moreover have never: "\<not> failed" if "send_rows streams (rp_refused p) es = (sent, is, failed)" for streams es sent "is" failed
    using that good by (induction es arbitrary: sent "is" failed) (auto simp: good_pass_def split: if_splits prod.splits)
  moreover have send: "send_rows (rl_streams r) (rp_refused p) (relay_rows (rp_locked p) (rl_outbox r)) = (map message_of ?batch, map oe_id ?batch, False)"
  proof -
    obtain sent "is" failed where s: "send_rows (rl_streams r) (rp_refused p) ?batch = (sent, is, failed)" by (metis prod_cases3)
    from never [OF s] send_rows_sent(2,3) [OF s] show ?thesis
      unfolding rows using s \<open>filter (\<lambda>e. oe_stream e \<in> set (rl_streams r)) ?batch = ?batch\<close> by simp
  qed
  have outbox: "rl_outbox r' = (if purge_due r p then purge_outbox (rp_now p) else id) (mark_relayed (rp_now p) (map oe_id ?batch) (rl_outbox r))"
    and log: "rl_log r' = rl_log r @ map message_of ?batch" and "fst (relay_once p r) = Inr (length ?batch)" and "rl_streams r' = rl_streams r"
    using good unfolding r'_def relay_once_def send by (auto simp: Let_def good_pass_def)
  then show "fst (relay_once p r) = Inr (length ?batch)" "rl_log r' = rl_log r @ map message_of ?batch" "rl_streams r' = rl_streams r" by simp_all
  have left: "waiting r' = filter (\<lambda>e. oe_id e \<notin> set (map oe_id ?batch)) (waiting r)"
    unfolding waiting_def outbox by (simp add: waiting_marked waiting_purged del: set_map)
  then show "set (waiting r') \<subseteq> set (waiting r)" by auto
  have marked: "map oe_id (mark_relayed now is ob) = map oe_id ob" for now "is" ob by (induction ob) (auto simp: mark_relayed_def)
  then show "distinct (map oe_id (rl_outbox r'))" unfolding outbox using ids by (simp add: ids_purged)
  have "distinct (map oe_id (waiting r))" using ids by (simp add: waiting_def distinct_map_filter)
  then have sorted_ids: "distinct (map oe_id (sort_key oe_at (waiting r)))"
    by (metis mset_map mset_eq_imp_distinct_iff mset_sort)
  have split_filter: "filter (\<lambda>e. oe_id e \<notin> set (map oe_id (take k ys))) ys = drop k ys" if "distinct (map oe_id ys)" for k and ys :: "outbox_event list"
  proof -
    have none: "filter (\<lambda>e. oe_id e \<notin> set (map oe_id (take k ys))) (take k ys) = []" by (simp add: filter_empty_conv)
    have all: "filter (\<lambda>e. oe_id e \<notin> set (map oe_id (take k ys))) (drop k ys) = drop k ys"
    proof (rule filter_True, rule ballI)
      fix e
      assume e: "e \<in> set (drop k ys)"
      have "distinct (map oe_id (take k ys) @ map oe_id (drop k ys))" using that by (metis append_take_drop_id map_append)
      with e show "oe_id e \<notin> set (map oe_id (take k ys))" by auto
    qed
    have "filter (\<lambda>e. oe_id e \<notin> set (map oe_id (take k ys))) (take k ys @ drop k ys) = drop k ys"
      unfolding filter_append none all by simp
    then show ?thesis by (simp only: append_take_drop_id)
  qed
  show "sort_key oe_at (waiting r') = drop RELAY_BATCH (sort_key oe_at (waiting r))"
    unfolding left filter_sort [symmetric] by (rule split_filter [OF sorted_ids])
qed

text \<open>One good pass after the other.\<close>

lemma delivered_in_order:
  assumes "list_all good_pass ps" and "oe_stream ` set (waiting r) \<subseteq> set (rl_streams r)" and "distinct (map oe_id (rl_outbox r))"
    and "length (waiting r) \<le> 100 * length ps"
  defines "r' \<equiv> fold (\<lambda>p r. snd (relay_once p r)) ps r"
  shows "waiting r' = [] \<and> rl_log r' = rl_log r @ map message_of (sort_key oe_at (waiting r))"
  using assms(1-4) unfolding r'_def
proof (induction ps arbitrary: r)
  case (Cons p ps)
  let ?r = "snd (relay_once p r)"
  from Cons.prems(1) have good: "good_pass p" by simp
  note effect = good_pass_effect [OF good Cons.prems(2,3)]
  have "length (waiting ?r) = length (waiting r) - 100"
    using arg_cong [OF effect(3), of length] by (simp add: RELAY_BATCH_def)
  moreover have "oe_stream ` set (waiting ?r) \<subseteq> set (rl_streams ?r)" using effect(4,6) Cons.prems(2) by auto
  ultimately have rec: "waiting (fold (\<lambda>p r. snd (relay_once p r)) ps ?r) = []
      \<and> rl_log (fold (\<lambda>p r. snd (relay_once p r)) ps ?r) = rl_log ?r @ map message_of (sort_key oe_at (waiting ?r))"
    using Cons.IH [of ?r] Cons.prems(1,4) effect(5) by simp
  have "map message_of (take RELAY_BATCH xs) @ map message_of (drop RELAY_BATCH xs) = map message_of xs" for xs
    by (metis append_take_drop_id map_append)
  with rec show ?case by (simp add: effect(2,3))
qed simp

text \<open>
  What is captured is delivered: passes that meet no failure relay everything that waits, a hundred at a time - as
  many passes as it takes - and the log then holds it once, in the order in which it happened.
\<close>

lemma outbox_drains:
  assumes "list_all good_pass ps" and "oe_stream ` set (waiting r) \<subseteq> set (rl_streams r)" and "distinct (map oe_id (rl_outbox r))"
    and "length (waiting r) \<le> 100 * length ps"
  defines "r' \<equiv> fold (\<lambda>p r. snd (relay_once p r)) ps r"
  shows "waiting r' = [] \<and> rl_log r' = rl_log r @ map message_of (sort_key oe_at (waiting r))"
  unfolding r'_def by (rule delivered_in_order [OF assms(1-4)])

section \<open>The consumer settles what it is given\<close>

definition handled_now :: "(string \<times> fields option) list \<Rightarrow> outcome list \<Rightarrow> string list" where
  "handled_now entries os = concat (map (\<lambda>((_, content), x).
     (case content of None \<Rightarrow> [] | Some f \<Rightarrow> if x = Done \<and> event_id f \<noteq> [] then [event_id f] else [])) (zip entries os))"

text \<open>What an outcome says of its entry, when these events are remembered.\<close>

definition explained :: "(string \<Rightarrow> nat) \<Rightarrow> string list \<Rightarrow> (string \<times> fields option) \<times> outcome \<Rightarrow> bool" where
  "explained deliveries remembered e \<longleftrightarrow>
    (case e of ((i, content), x) \<Rightarrow>
      (case x of
          NoFields \<Rightarrow> content = None
        | AlreadyHandled \<Rightarrow> (case content of None \<Rightarrow> False | Some f \<Rightarrow> event_id f \<in> set remembered)
        | Done \<Rightarrow> (case content of None \<Rightarrow> False | Some f \<Rightarrow> event_id f = [] \<or> event_id f \<in> set remembered)
        | Failed n \<Rightarrow> content \<noteq> None \<and> n = deliveries i \<and> n < 5
        | Exhausted n \<Rightarrow> content \<noteq> None \<and> n = deliveries i \<and> 5 \<le> n))"

lemma explained_mono: "explained deliveries a e \<Longrightarrow> set a \<subseteq> set b \<Longrightarrow> explained deliveries b e"
  by (cases e) (auto simp: explained_def split: outcome.splits option.splits)

lemma remember_new: "e \<notin> set handled \<Longrightarrow> length handled < capacity \<Longrightarrow> remember capacity e handled = handled @ [e]"
proof -
  assume new: "e \<notin> set handled" and room: "length handled < capacity"
  have "filter (\<lambda>x. x \<noteq> e) handled = handled" using new by (intro filter_True) auto
  then show ?thesis using room by (simp add: remember_def)
qed

text \<open>
  An entry is acknowledged exactly when it is settled: it was deleted, its event was handled - now or before - or
  it failed on its fifth delivery or later; anything else stays pending. While there is room to remember them, no
  event is handled twice, however often it was delivered, and all that were handled are remembered.
\<close>

lemma consumer_settles:
  assumes "handle_entries handler deliveries capacity entries (handled, s) = (os, handled', s')"
    and "distinct handled" and "length handled + length entries \<le> capacity"
  shows "length os = length entries \<and> handled' = handled @ handled_now entries os \<and> distinct handled'
    \<and> list_all (explained deliveries handled') (zip entries os)
    \<and> acknowledged entries os = map (fst \<circ> fst) (filter (\<lambda>(_, x). \<not> (\<exists>n < 5. x = Failed n)) (zip entries os))"
  using assms
proof (induction entries arbitrary: handled s os)
  case Nil
  then show ?case by (simp add: handled_now_def acknowledged_def)
next
  case (Cons entry entries)
  obtain i content where entry: "entry = (i, content)" by (cases entry)
  obtain x h1 s1 where one: "handle_entry handler deliveries capacity entry (handled, s) = (x, h1, s1)" by (metis prod_cases3)
  obtain ys where rest: "handle_entries handler deliveries capacity entries (h1, s1) = (ys, handled', s')" and os: "os = x # ys"
    using Cons.prems(1) one by (auto split: prod.splits)
  have first: "h1 = handled @ handled_now [entry] [x] \<and> distinct h1 \<and> length h1 \<le> Suc (length handled)
      \<and> explained deliveries h1 (entry, x)"
    using one Cons.prems(2,3)
    by (auto simp: handle_entry_def entry handled_now_def remember_new explained_def split: option.splits if_splits prod.splits bool.splits)
  have "distinct h1" "length h1 + length entries \<le> capacity" using first Cons.prems(3) by auto
  note rec = Cons.IH [OF rest this]
  have IH: "length ys = length entries" "handled' = h1 @ handled_now entries ys" "distinct handled'"
    "list_all (explained deliveries handled') (zip entries ys)"
    "acknowledged entries ys = map (fst \<circ> fst) (filter (\<lambda>(_, x). \<not> (\<exists>n < 5. x = Failed n)) (zip entries ys))"
    using rec by blast+
  have "handled' = handled @ handled_now (entry # entries) os" using IH(2) first by (simp add: os handled_now_def)
  moreover have "settled x \<longleftrightarrow> \<not> (\<exists>n < 5. x = Failed n)" using first by (cases x) (auto simp: settled_def explained_def entry)
  then have "acknowledged (entry # entries) os = map (fst \<circ> fst) (filter (\<lambda>(_, x). \<not> (\<exists>n < 5. x = Failed n)) (zip (entry # entries) os))"
    using IH(5) by (simp add: acknowledged_def os)
  moreover have "explained deliveries handled' (entry, x)" using first IH(2) by (auto intro: explained_mono)
  ultimately show ?case using IH(1,3,4) by (simp add: os)
qed

section \<open>On an example\<close>

definition example_event :: "nat \<Rightarrow> outbox_event" where
  "example_event i = \<lparr>oe_id = i, oe_stream = ''stream:sales.v1.recorded'', oe_type = ''INSERT'', oe_entity = ''7'', oe_at = 100 - int i, oe_relayed = None\<rparr>"

definition example_pass :: "bool \<Rightarrow> relay_pass" where
  "example_pass fails = \<lparr>rp_locked = [], rp_refused = (\<lambda>i. fails \<and> i = 1), rp_synced = Some 1, rp_commits = True, rp_purges = True, rp_now = 200, rp_monotonic = 0\<rparr>"

text \<open>The second addition of the first pass is refused, so the event added before it is added again.\<close>

theorem no_event_is_lost_witness:
  "\<exists>r. r = fold relay_steps [Captured (example_event 1), Captured (example_event 2), Passed (example_pass True), Passed (example_pass False)]
        (new_relay [''stream:sales.v1.recorded''])
    \<and> list_all (\<lambda>x. oe_relayed x = None \<or> message_of x \<in> set (rl_log r)) (rl_outbox r)"
  using no_event_is_lost [of "[Captured (example_event 1), Captured (example_event 2), Passed (example_pass True), Passed (example_pass False)]"
      "[''stream:sales.v1.recorded'']"]
  by (simp add: example_event_def)

end
