(* ===== verification/Sale_Service.thy ===== *)
theory Sale_Service
  imports Catalog Decimals Streams
begin

text \<open>
  The atomic sale of sales-service, \<open>services/sales/app/service.py\<close> over \<open>services/sales/app/store.py\<close>,
  \<open>api_stock.consume_v1\<close> and the triggers of \<open>sql/01_schema.sql\<close>: the checks of a request, its canonical form, the one
  transaction that records the sale and consumes the stock, and the answer to what it can meet. What the contract
  checked before - the shape of the body, the token - is given; the text of a timestamp is what \<open>fromisoformat\<close> makes
  of it, SHA-256 is a parameter, and a transaction is one step of the database. Money is in cents.
\<close>

section \<open>The request\<close>

datatype timestamp_text = MalformedTimestamp | NoOffset | Instant int int

datatype quantity_value = Whole int | NotWhole

record request_line =
  ql_product :: nat
  ql_quantity :: quantity_value
  ql_price :: string

record sale_request =
  rq_key :: "nat option"
  rq_sub :: string
  rq_customer :: nat
  rq_store :: nat
  rq_channel :: nat
  rq_occurred :: timestamp_text
  rq_lines :: "request_line list"

datatype sale_error =
    IdempotencyKeyRequired
  | NoLines
  | DuplicateProductLine nat
  | QuantityNotPositive nat
  | QuantityOutOfRange nat
  | PriceInvalid nat
  | PriceOutOfRange nat
  | TotalOutOfRange
  | OccurredMalformed
  | OccurredMissingOffset
  | FutureDated
  | IdempotencyKeyReused
  | SaleUnknownCustomer
  | BeforeRegistration
  | SaleUnknownProduct nat
  | InactiveProduct nat
  | NoStockRecord nat
  | StockUnavailable nat
  | UnknownStore
  | UnknownChannel
  | DatabaseUnavailable

definition error_status :: "sale_error \<Rightarrow> nat" where
  "error_status e = (case e of
     IdempotencyKeyRequired \<Rightarrow> 400
   | DuplicateProductLine _ \<Rightarrow> 409
   | IdempotencyKeyReused \<Rightarrow> 409
   | StockUnavailable _ \<Rightarrow> 409
   | DatabaseUnavailable \<Rightarrow> 503
   | _ \<Rightarrow> 422)"

definition MAX_QUANTITY :: int where "MAX_QUANTITY = 2147483647"
definition MAX_PRICE :: int where "MAX_PRICE = 9999999999"
definition MAX_TOTAL :: int where "MAX_TOTAL = 999999999999"

text \<open>\<open>as_tuple().exponent\<close> of the finite decimal a text denotes.\<close>

definition decimal_exponent :: "string \<Rightarrow> int" where
  "decimal_exponent raw =
    (case split_on (CHR ''e'') (snd (sign_of (map lower_char (filter (\<lambda>c. c \<noteq> CHR ''_'') (py_strip raw))))) of
       [m] \<Rightarrow> (case mantissa m of None \<Rightarrow> 0 | Some (_, k) \<Rightarrow> - int k)
     | [m, e] \<Rightarrow> (case (mantissa m, exponent_value e) of (Some (_, k), Some x) \<Rightarrow> x - int k | _ \<Rightarrow> 0)
     | _ \<Rightarrow> 0)"

definition price_of :: "nat \<Rightarrow> string \<Rightarrow> sale_error + int" where
  "price_of index raw =
    (case py_decimal raw of
       Some (Finite v) \<Rightarrow>
         if v \<le> 0 \<or> decimal_exponent raw < -2 then Inl (PriceInvalid index)
         else if of_int MAX_PRICE < 100 * v then Inl (PriceOutOfRange index)
         else Inr (half_up (100 * v))
     | _ \<Rightarrow> Inl (PriceInvalid index))"

definition quantity_of :: "nat \<Rightarrow> quantity_value \<Rightarrow> sale_error + int" where
  "quantity_of index q =
    (case q of
       NotWhole \<Rightarrow> Inl (QuantityNotPositive index)
     | Whole n \<Rightarrow> if n \<le> 0 then Inl (QuantityNotPositive index) else if n > MAX_QUANTITY then Inl (QuantityOutOfRange index) else Inr n)"

fun validate_lines :: "nat \<Rightarrow> nat list \<Rightarrow> request_line list \<Rightarrow> sale_error + sale_line list" where
  "validate_lines index seen [] = Inr []"
| "validate_lines index seen (l # ls) =
    (if ql_product l \<in> set seen then Inl (DuplicateProductLine index)
     else case quantity_of index (ql_quantity l) of
         Inl e \<Rightarrow> Inl e
       | Inr q \<Rightarrow>
           (case price_of index (ql_price l) of
              Inl e \<Rightarrow> Inl e
            | Inr p \<Rightarrow>
                (case validate_lines (Suc index) (ql_product l # seen) ls of
                   Inl e \<Rightarrow> Inl e
                 | Inr rest \<Rightarrow> Inr (\<lparr>li_product = ql_product l, li_quantity = q, li_price = p\<rparr> # rest))))"

definition lines_total :: "sale_line list \<Rightarrow> int" where
  "lines_total ls = sum_list (map (\<lambda>l. li_price l * li_quantity l) ls)"

definition validate_local :: "int \<Rightarrow> sale_request \<Rightarrow> sale_error + (int \<times> int) \<times> sale_line list" where
  "validate_local now rq =
    (if rq_lines rq = [] then Inl NoLines
     else case validate_lines 0 [] (rq_lines rq) of
         Inl e \<Rightarrow> Inl e
       | Inr ls \<Rightarrow>
           if lines_total ls > MAX_TOTAL then Inl TotalOutOfRange
           else (case rq_occurred rq of
               MalformedTimestamp \<Rightarrow> Inl OccurredMalformed
             | NoOffset \<Rightarrow> Inl OccurredMissingOffset
             | Instant t date \<Rightarrow> if t > now then Inl FutureDated else Inr ((t, date), ls)))"

text \<open>The JSON the digest is of: instants in UTC, lines in the order of the products.\<close>

record canonical_sale =
  cn_sub :: string
  cn_customer :: nat
  cn_store :: nat
  cn_channel :: nat
  cn_at :: int
  cn_lines :: "sale_line list"

definition canonical :: "sale_request \<Rightarrow> int \<Rightarrow> sale_line list \<Rightarrow> canonical_sale" where
  "canonical rq t ls = \<lparr>cn_sub = rq_sub rq, cn_customer = rq_customer rq, cn_store = rq_store rq, cn_channel = rq_channel rq, cn_at = t,
     cn_lines = sort_key li_product ls\<rparr>"

section \<open>The database\<close>

record capture =
  kc_sale :: nat
  kc_digest :: nat
  kc_by :: string

record service_db =
  sv_shop :: shop_db
  sv_users :: "string list"
  sv_captures :: "capture list"
  sv_sales_events :: "outbox_event list"
  sv_stock_events :: "outbox_event list"
  sv_next_sale :: nat
  sv_next_event :: nat
  sv_clock :: int

text \<open>What the driver raises. Whether an error is an \<open>OperationalError\<close> is the driver's hierarchy, a parameter below.\<close>

datatype db_failure =
    DeadlockDetected
  | SerializationFailure
  | ConnectionLost
  | UniqueViolation string
  | ForeignKeyViolation string
  | CheckViolation string
  | InvalidParameterValue

datatype attempt_failure =
    ApiRefusal sale_error
  | StockRefusal nat db_failure
  | Database db_failure

definition hex_digit :: "nat \<Rightarrow> char" where
  "hex_digit n = ''0123456789abcdef'' ! (n mod 16)"

fun hex_text :: "nat \<Rightarrow> nat \<Rightarrow> string" where
  "hex_text 0 n = []"
| "hex_text (Suc k) n = hex_text k (n div 16) @ [hex_digit n]"

text \<open>\<open>str(UUID)\<close>\<close>

definition uuid_text :: "nat \<Rightarrow> string" where
  "uuid_text n =
    (let digits = hex_text 32 n
     in take 8 digits @ ''-'' @ take 4 (drop 8 digits) @ ''-'' @ take 4 (drop 12 digits) @ ''-'' @ take 4 (drop 16 digits) @ ''-'' @ drop 20 digits)"

definition source_id :: "nat \<Rightarrow> string" where
  "source_id key = ''svc-sales:'' @ uuid_text key"

definition validate_references :: "service_db \<Rightarrow> sale_request \<Rightarrow> int \<Rightarrow> sale_line list \<Rightarrow> sale_error option" where
  "validate_references d rq date ls =
    (case find (\<lambda>c. cu_id c = rq_customer rq) (sh_customers (sv_shop d)) of
       None \<Rightarrow> Some SaleUnknownCustomer
     | Some c \<Rightarrow>
         if date < cu_registered c then Some BeforeRegistration
         else (case find (\<lambda>(_, l). case find (\<lambda>p. pd_id p = li_product l) (sh_products (sv_shop d)) of None \<Rightarrow> True | Some p \<Rightarrow> \<not> pd_active p) (enumerate 0 ls) of
             None \<Rightarrow> None
           | Some (i, l) \<Rightarrow>
               Some (if find (\<lambda>p. pd_id p = li_product l) (sh_products (sv_shop d)) = None then SaleUnknownProduct i else InactiveProduct i)))"

text \<open>\<open>AFTER INSERT ON transaction\<close>, and the trigger on the stock.\<close>

definition capture_event :: "string \<Rightarrow> string \<Rightarrow> string \<Rightarrow> service_db \<Rightarrow> outbox_event" where
  "capture_event stream kind entity d = \<lparr>oe_id = sv_next_event d, oe_stream = stream, oe_type = kind, oe_entity = entity, oe_at = sv_clock d, oe_relayed = None\<rparr>"

text \<open>The decimal text of a number.\<close>

fun nat_text :: "nat \<Rightarrow> string" where
  "nat_text n = (if n < 10 then [] else nat_text (n div 10)) @ [''0123456789'' ! (n mod 10)]"

declare nat_text.simps [simp del]

definition SALES_STREAM :: string where "SALES_STREAM = ''stream:sales.v1.recorded''"

text \<open>\<open>consume_v1\<close>: the conditional update, else what kept it from updating.\<close>

definition consume_v1 :: "nat \<Rightarrow> nat \<Rightarrow> int \<Rightarrow> service_db \<Rightarrow> (db_failure + int) \<times> service_db" where
  "consume_v1 store product quantity d =
    (if quantity \<le> 0 then (Inl InvalidParameterValue, d)
     else case find (\<lambda>k. sk_store k = store \<and> sk_product k = product) (sh_stock (sv_shop d)) of
       None \<Rightarrow> (Inl (CheckViolation ''no_stock_record''), d)
     | Some k \<Rightarrow>
         if sk_quantity k < quantity then (Inl (CheckViolation ''stock_unavailable''), d)
         else (Inr (sk_quantity k - quantity),
           d\<lparr>sv_shop := (sv_shop d)\<lparr>sh_stock := map (\<lambda>k. if sk_store k = store \<and> sk_product k = product then k\<lparr>sk_quantity := sk_quantity k - quantity\<rparr> else k)
                (sh_stock (sv_shop d))\<rparr>,
             sv_stock_events := sv_stock_events d @ [capture_event ''stream:stock.v1.changed'' ''UPDATE'' (nat_text store @ '':'' @ nat_text product) d],
             sv_next_event := sv_next_event d + 1\<rparr>))"

fun consume_all :: "nat \<Rightarrow> (nat \<times> sale_line) list \<Rightarrow> service_db \<Rightarrow> (attempt_failure + unit) \<times> service_db" where
  "consume_all store [] d = (Inr (), d)"
| "consume_all store ((i, l) # ls) d =
    (case consume_v1 store (li_product l) (li_quantity l) d of
       (Inl (CheckViolation c), d') \<Rightarrow> (Inl (StockRefusal i (CheckViolation c)), d')
     | (Inl e, d') \<Rightarrow> (Inl (Database e), d')
     | (Inr _, d') \<Rightarrow> consume_all store ls d')"

definition header_checks :: "service_db \<Rightarrow> string \<Rightarrow> sale_request \<Rightarrow> db_failure option" where
  "header_checks d source rq =
    (if source \<in> set (map sa_source (sh_sales (sv_shop d))) then Some (UniqueViolation ''transaction_source_transaction_id_key'')
     else if rq_customer rq \<notin> set (map cu_id (sh_customers (sv_shop d))) then Some (ForeignKeyViolation ''transaction_customer_id_fkey'')
     else if rq_store rq \<notin> set (map st_id (sh_stores (sv_shop d))) then Some (ForeignKeyViolation ''transaction_store_id_fkey'')
     else if rq_channel rq \<notin> set (map ch_id (sh_channels (sv_shop d))) then Some (ForeignKeyViolation ''transaction_channel_id_fkey'')
     else None)"

text \<open>The header with its lines, and the event of the trigger on the header.\<close>

definition insert_header :: "string \<Rightarrow> sale_request \<Rightarrow> int \<Rightarrow> sale_line list \<Rightarrow> service_db \<Rightarrow> service_db" where
  "insert_header source rq t ls d =
    d\<lparr>sv_shop := (sv_shop d)\<lparr>sh_sales := sh_sales (sv_shop d) @
         [\<lparr>sa_id = sv_next_sale d, sa_source = source, sa_customer = rq_customer rq, sa_store = rq_store rq, sa_channel = rq_channel rq, sa_at = t,
           sa_total = lines_total ls, sa_origin = ''OBSERVED'', sa_lines = ls\<rparr>]\<rparr>,
      sv_sales_events := sv_sales_events d @ [capture_event SALES_STREAM ''INSERT'' (nat_text (sv_next_sale d)) d],
      sv_next_sale := sv_next_sale d + 1, sv_next_event := sv_next_event d + 1\<rparr>"

definition insert_sale :: "string \<Rightarrow> sale_request \<Rightarrow> int \<Rightarrow> sale_line list \<Rightarrow> nat \<Rightarrow> service_db \<Rightarrow> (attempt_failure + nat) \<times> service_db" where
  "insert_sale source rq t ls digest d =
    (case header_checks d source rq of
       Some e \<Rightarrow> (Inl (Database e), d)
     | None \<Rightarrow>
         if \<not> list_all (\<lambda>l. li_product l \<in> set (map pd_id (sh_products (sv_shop d)))) ls then (Inl (Database (ForeignKeyViolation ''transaction_line_product_id_fkey'')), d)
         else (case consume_all (rq_store rq) (sort_key (\<lambda>(_, l). li_product l) (enumerate 0 ls)) (insert_header source rq t ls d) of
             (Inl e, d') \<Rightarrow> (Inl e, d')
           | (Inr _, d') \<Rightarrow>
               if rq_sub rq \<notin> set (sv_users d') then (Inl (Database (ForeignKeyViolation ''sale_capture_recorded_by_fkey'')), d')
               else (Inr (sv_next_sale d), d'\<lparr>sv_captures := sv_captures d' @ [\<lparr>kc_sale = sv_next_sale d, kc_digest = digest, kc_by = rq_sub rq\<rparr>]\<rparr>)))"

text \<open>One transaction: what fails rolls back.\<close>

definition attempt :: "string \<Rightarrow> sale_request \<Rightarrow> int \<times> int \<Rightarrow> sale_line list \<Rightarrow> nat \<Rightarrow> service_db \<Rightarrow> (attempt_failure + nat) \<times> service_db" where
  "attempt source rq when_sold ls digest d =
    (case validate_references d rq (snd when_sold) ls of
       Some e \<Rightarrow> (Inl (ApiRefusal e), d)
     | None \<Rightarrow>
         (case insert_sale source rq (fst when_sold) ls digest d of
            (Inl e, _) \<Rightarrow> (Inl e, d)
          | (Inr i, d') \<Rightarrow> (Inr i, d')))"

text \<open>A sale as it is shown: the header and its lines, in the order of the products.\<close>

definition sale_shown :: "shop_sale \<Rightarrow> shop_sale" where
  "sale_shown s = s\<lparr>sa_lines := sort_key li_product (sa_lines s)\<rparr>"

definition get_sale :: "service_db \<Rightarrow> nat \<Rightarrow> shop_sale option" where
  "get_sale d i = map_option sale_shown (find (\<lambda>s. sa_id s = i) (sh_sales (sv_shop d)))"

definition find_capture :: "service_db \<Rightarrow> string \<Rightarrow> (shop_sale \<times> nat) option" where
  "find_capture d source =
    (case find (\<lambda>s. sa_source s = source \<and> sa_id s \<in> kc_sale ` set (sv_captures d)) (sh_sales (sv_shop d)) of
       None \<Rightarrow> None
     | Some s \<Rightarrow>
         (case find (\<lambda>k. kc_sale k = sa_id s) (sv_captures d) of
            None \<Rightarrow> None
          | Some k \<Rightarrow> Some (sale_shown s, kc_digest k)))"

definition replay :: "service_db \<Rightarrow> string \<Rightarrow> nat \<Rightarrow> sale_error + shop_sale option" where
  "replay d source digest =
    (case find_capture d source of
       None \<Rightarrow> Inr None
     | Some (sale, original) \<Rightarrow> if original \<noteq> digest then Inl IdempotencyKeyReused else Inr (Some sale))"

text \<open>\<open>_database_refusal\<close>: an error the client is told of, or the error again.\<close>

definition database_refusal :: "db_failure \<Rightarrow> nat \<Rightarrow> sale_error option" where
  "database_refusal e index =
    (case e of
       CheckViolation c \<Rightarrow>
         if c = ''no_stock_record'' then Some (NoStockRecord index) else if c = ''stock_unavailable'' then Some (StockUnavailable index) else None
     | ForeignKeyViolation c \<Rightarrow>
         if c = ''transaction_store_id_fkey'' then Some UnknownStore else if c = ''transaction_channel_id_fkey'' then Some UnknownChannel else None
     | _ \<Rightarrow> None)"

section \<open>What the database holds\<close>

definition phone_sale :: "shop_sale \<Rightarrow> bool" where
  "phone_sale s \<longleftrightarrow> take 10 (sa_source s) = ''svc-sales:''"

definition stock_ok :: "stock_row list \<Rightarrow> bool" where
  "stock_ok ks \<longleftrightarrow> distinct (map (\<lambda>k. (sk_store k, sk_product k)) ks) \<and> (\<forall>k\<in>set ks. 0 \<le> sk_quantity k)"

text \<open>
  Sales have their own ids and sources, totals that are those of their lines, and a phone sale has one capture. The outbox
  is any: its rows have ids given out before, and were relayed or not, or purged.
\<close>

definition service_wf :: "service_db \<Rightarrow> bool" where
  "service_wf d \<longleftrightarrow> distinct (map sa_id (sh_sales (sv_shop d))) \<and> (\<forall>s\<in>set (sh_sales (sv_shop d)). sa_id s < sv_next_sale d)
     \<and> distinct (map sa_source (sh_sales (sv_shop d))) \<and> (\<forall>s\<in>set (sh_sales (sv_shop d)). sa_total s = lines_total (sa_lines s))
     \<and> stock_ok (sh_stock (sv_shop d))
     \<and> distinct (map kc_sale (sv_captures d)) \<and> kc_sale ` set (sv_captures d) = sa_id ` {s \<in> set (sh_sales (sv_shop d)). phone_sale s}
     \<and> distinct (map oe_id (sv_sales_events d)) \<and> (\<forall>e\<in>set (sv_sales_events d). oe_id e < sv_next_event d \<and> oe_stream e = SALES_STREAM)"

definition units :: "sale_line list \<Rightarrow> nat \<Rightarrow> int" where
  "units ls p = sum_list (map li_quantity (filter (\<lambda>l. li_product l = p) ls))"

definition consumed :: "nat \<Rightarrow> sale_line list \<Rightarrow> stock_row list \<Rightarrow> stock_row list" where
  "consumed store ls = map (\<lambda>k. if sk_store k = store then k\<lparr>sk_quantity := sk_quantity k - units ls (sk_product k)\<rparr> else k)"

lemma units_simps [simp]: "units [] p = 0" "units (l # ls) p = (if li_product l = p then li_quantity l else 0) + units ls p"
  by (simp_all add: units_def)

lemma consumed_Nil [simp]: "consumed store [] ks = ks"
  by (induction ks) (simp_all add: consumed_def)

lemma consumed_Cons: "consumed store ls (consumed store [l] ks) = consumed store (l # ls) ks"
  by (simp add: consumed_def comp_def)

definition stock_keys :: "stock_row list \<Rightarrow> (nat \<times> nat) set" where
  "stock_keys ks = (\<lambda>k. (sk_store k, sk_product k)) ` set ks"

lemma stock_keys_consumed [simp]: "stock_keys (consumed store ls ks) = stock_keys ks"
  unfolding stock_keys_def consumed_def set_map image_image by (rule image_cong) simp_all

lemma consume_v1_effect:
  assumes "consume_v1 store product quantity d = (Inr n, d')" and "stock_ok (sh_stock (sv_shop d))"
  shows "sh_stock (sv_shop d') = consumed store [\<lparr>li_product = product, li_quantity = quantity, li_price = p\<rparr>] (sh_stock (sv_shop d))"
    and "stock_ok (sh_stock (sv_shop d'))"
    and "\<exists>e. d' = d\<lparr>sv_shop := (sv_shop d)\<lparr>sh_stock := sh_stock (sv_shop d')\<rparr>, sv_stock_events := sv_stock_events d @ [e], sv_next_event := sv_next_event d + 1\<rparr>"
    and "(store, product) \<in> stock_keys (sh_stock (sv_shop d))"
proof -
  from assms(1) obtain k where k: "find (\<lambda>k. sk_store k = store \<and> sk_product k = product) (sh_stock (sv_shop d)) = Some k" "quantity \<le> sk_quantity k"
    and d': "d' = d\<lparr>sv_shop := (sv_shop d)\<lparr>sh_stock := map (\<lambda>k. if sk_store k = store \<and> sk_product k = product then k\<lparr>sk_quantity := sk_quantity k - quantity\<rparr> else k)
                (sh_stock (sv_shop d))\<rparr>,
             sv_stock_events := sv_stock_events d @ [capture_event ''stream:stock.v1.changed'' ''UPDATE'' (nat_text store @ '':'' @ nat_text product) d],
             sv_next_event := sv_next_event d + 1\<rparr>"
    by (auto simp: consume_v1_def split: option.splits if_splits)
  from k(1) have in_stock: "k \<in> set (sh_stock (sv_shop d))" "sk_store k = store" "sk_product k = product" by (auto simp: find_Some_iff)
  then show "(store, product) \<in> stock_keys (sh_stock (sv_shop d))" by (force simp: stock_keys_def)
  show "sh_stock (sv_shop d') = consumed store [\<lparr>li_product = product, li_quantity = quantity, li_price = p\<rparr>] (sh_stock (sv_shop d))"
    by (auto simp: d' consumed_def)
  show "\<exists>e. d' = d\<lparr>sv_shop := (sv_shop d)\<lparr>sh_stock := sh_stock (sv_shop d')\<rparr>, sv_stock_events := sv_stock_events d @ [e], sv_next_event := sv_next_event d + 1\<rparr>"
    by (rule exI [of _ "capture_event ''stream:stock.v1.changed'' ''UPDATE'' (nat_text store @ '':'' @ nat_text product) d"]) (simp add: d')
  have only: "j = k" if "j \<in> set (sh_stock (sv_shop d))" "sk_store j = store" "sk_product j = product" for j
  proof -
    have "inj_on (\<lambda>k. (sk_store k, sk_product k)) (set (sh_stock (sv_shop d)))" using assms(2) by (simp add: stock_ok_def distinct_map)
    then show ?thesis using that in_stock by (auto dest: inj_onD)
  qed
  have keys: "map (\<lambda>k. (sk_store k, sk_product k)) (sh_stock (sv_shop d')) = map (\<lambda>k. (sk_store k, sk_product k)) (sh_stock (sv_shop d))"
    by (simp add: d' comp_def if_distrib)
  have "0 \<le> sk_quantity j" if "j \<in> set (sh_stock (sv_shop d'))" for j
    using that only k(2) assms(2) by (auto simp: d' stock_ok_def split: if_splits)
  then show "stock_ok (sh_stock (sv_shop d'))" using assms(2) unfolding stock_ok_def keys by blast
qed

lemma consume_all_effect:
  assumes "consume_all store ls d = (Inr u, d')" and "stock_ok (sh_stock (sv_shop d))"
  shows "sh_stock (sv_shop d') = consumed store (map snd ls) (sh_stock (sv_shop d)) \<and> stock_ok (sh_stock (sv_shop d'))
    \<and> (\<forall>l\<in>snd ` set ls. (store, li_product l) \<in> stock_keys (sh_stock (sv_shop d)))
    \<and> (\<exists>es. d' = d\<lparr>sv_shop := (sv_shop d)\<lparr>sh_stock := sh_stock (sv_shop d')\<rparr>, sv_stock_events := sv_stock_events d @ es, sv_next_event := sv_next_event d + length es\<rparr>)"
  using assms
proof (induction store ls d arbitrary: d' rule: consume_all.induct)
  case (1 store d)
  then show ?case by (auto intro: exI [of _ "[]"])
next
  case (2 store i l ls d)
  from 2(2) obtain n d1 where one: "consume_v1 store (li_product l) (li_quantity l) d = (Inr n, d1)" and rest: "consume_all store ls d1 = (Inr u, d')"
    by (auto split: prod.splits sum.splits db_failure.splits)
  note same = consume_v1_effect(1) [OF one 2(3), where p = "li_price l"] and effect = consume_v1_effect [OF one 2(3)]
  from 2(1) [OF one [symmetric] refl rest effect(2)] have IH: "sh_stock (sv_shop d') = consumed store (map snd ls) (sh_stock (sv_shop d1))" "stock_ok (sh_stock (sv_shop d'))"
    and rows: "\<forall>l\<in>snd ` set ls. (store, li_product l) \<in> stock_keys (sh_stock (sv_shop d1))"
    and "\<exists>es. d' = d1\<lparr>sv_shop := (sv_shop d1)\<lparr>sh_stock := sh_stock (sv_shop d')\<rparr>, sv_stock_events := sv_stock_events d1 @ es, sv_next_event := sv_next_event d1 + length es\<rparr>"
    by blast+
  then obtain es Y where es: "d' = d1\<lparr>sv_shop := (sv_shop d1)\<lparr>sh_stock := Y\<rparr>, sv_stock_events := sv_stock_events d1 @ es, sv_next_event := sv_next_event d1 + length es\<rparr>"
    by blast
  from effect(3) obtain e X where e: "d1 = d\<lparr>sv_shop := (sv_shop d)\<lparr>sh_stock := X\<rparr>, sv_stock_events := sv_stock_events d @ [e], sv_next_event := sv_next_event d + 1\<rparr>" by blast
  have "sh_stock (sv_shop d') = consumed store (l # map snd ls) (sh_stock (sv_shop d))"
    using IH(1) same by (simp add: consumed_Cons) (simp add: consumed_def)
  moreover have "\<exists>es. d' = d\<lparr>sv_shop := (sv_shop d)\<lparr>sh_stock := sh_stock (sv_shop d')\<rparr>, sv_stock_events := sv_stock_events d @ es, sv_next_event := sv_next_event d + length es\<rparr>"
    by (rule exI [of _ "e # es"]) (simp add: es e)
  moreover have "\<forall>l\<in>snd ` set ((i, l) # ls). (store, li_product l) \<in> stock_keys (sh_stock (sv_shop d))"
    using rows effect(4) same by simp
  ultimately show ?case using IH(2) by simp
qed

lemma units_sorted: "units (sort_key f ls) p = units ls p"
  unfolding units_def sum_mset_sum_list [symmetric] by simp

lemma consumed_units: "(\<And>p. units ls p = units ls' p) \<Longrightarrow> consumed store ls = consumed store ls'"
  by (rule ext) (simp add: consumed_def)

lemma map_snd_sort: "map snd (sort_key (\<lambda>(i, l). f l) (enumerate n ls)) = sort_key f ls"
proof -
  have insort: "map snd (insort_key (\<lambda>(i, l). f l) x xs) = insort_key f (snd x) (map snd xs)" for x :: "nat \<times> 'a" and xs
    by (induction xs) (auto split: prod.split)
  show ?thesis
  proof (induction ls arbitrary: n)
    case (Cons l ls)
    from Cons [of "Suc n"] show ?case by (simp add: insort)
  qed simp
qed

text \<open>What a transaction that commits has done, and nothing else.\<close>

definition sale_of :: "string \<Rightarrow> sale_request \<Rightarrow> int \<Rightarrow> sale_line list \<Rightarrow> nat \<Rightarrow> shop_sale" where
  "sale_of source rq t ls i =
    \<lparr>sa_id = i, sa_source = source, sa_customer = rq_customer rq, sa_store = rq_store rq, sa_channel = rq_channel rq, sa_at = t,
     sa_total = lines_total ls, sa_origin = ''OBSERVED'', sa_lines = ls\<rparr>"

lemma attempt_effect:
  assumes "attempt source rq (t, date) ls digest d = (Inr i, d')" and "stock_ok (sh_stock (sv_shop d))"
  shows "i = sv_next_sale d" and "source \<notin> sa_source ` set (sh_sales (sv_shop d))"
    and "\<exists>es. d' = d\<lparr>sv_shop := (sv_shop d)\<lparr>sh_sales := sh_sales (sv_shop d) @ [sale_of source rq t ls i], sh_stock := consumed (rq_store rq) ls (sh_stock (sv_shop d))\<rparr>,
        sv_captures := sv_captures d @ [\<lparr>kc_sale = i, kc_digest = digest, kc_by = rq_sub rq\<rparr>],
        sv_sales_events := sv_sales_events d @ [capture_event SALES_STREAM ''INSERT'' (nat_text i) d],
        sv_stock_events := sv_stock_events d @ es, sv_next_sale := sv_next_sale d + 1, sv_next_event := sv_next_event d + 1 + length es\<rparr>"
    and "stock_ok (consumed (rq_store rq) ls (sh_stock (sv_shop d)))" and "validate_references d rq date ls = None" and "header_checks d source rq = None"
    and "l \<in> set ls \<Longrightarrow> (rq_store rq, li_product l) \<in> stock_keys (sh_stock (sv_shop d))"
proof -
  let ?d = "insert_header source rq t ls d"
  let ?ls = "sort_key (\<lambda>(_, l). li_product l) (enumerate 0 ls)"
  from assms(1) obtain u d1 where refs: "validate_references d rq date ls = None" and header: "header_checks d source rq = None"
    and consume: "consume_all (rq_store rq) ?ls ?d = (Inr u, d1)"
    and i: "i = sv_next_sale d" and d': "d' = d1\<lparr>sv_captures := sv_captures d1 @ [\<lparr>kc_sale = sv_next_sale d, kc_digest = digest, kc_by = rq_sub rq\<rparr>]\<rparr>"
    by (auto simp: attempt_def insert_sale_def split: option.splits if_splits sum.splits prod.splits)
  have stock: "sh_stock (sv_shop ?d) = sh_stock (sv_shop d)" by (simp add: insert_header_def)
  from consume_all_effect [OF consume] assms(2) obtain es
    where after: "sh_stock (sv_shop d1) = consumed (rq_store rq) (map snd ?ls) (sh_stock (sv_shop d))" "stock_ok (sh_stock (sv_shop d1))"
    and rows: "\<forall>l\<in>snd ` set ?ls. (rq_store rq, li_product l) \<in> stock_keys (sh_stock (sv_shop d))"
    and d1: "d1 = ?d\<lparr>sv_shop := (sv_shop ?d)\<lparr>sh_stock := sh_stock (sv_shop d1)\<rparr>, sv_stock_events := sv_stock_events ?d @ es, sv_next_event := sv_next_event ?d + length es\<rparr>"
    unfolding stock by blast
  have "consumed (rq_store rq) (map snd ?ls) = consumed (rq_store rq) ls"
    unfolding map_snd_sort by (rule consumed_units) (simp add: units_sorted)
  with after have after': "sh_stock (sv_shop d1) = consumed (rq_store rq) ls (sh_stock (sv_shop d))" by simp
  show "l \<in> set ls \<Longrightarrow> (rq_store rq, li_product l) \<in> stock_keys (sh_stock (sv_shop d))"
    using rows by (metis image_eqI list.set_map map_snd_enumerate set_sort)
  show "i = sv_next_sale d" "validate_references d rq date ls = None" "header_checks d source rq = None" by fact+
  show "source \<notin> sa_source ` set (sh_sales (sv_shop d))" using header by (auto simp: header_checks_def split: if_splits)
  show "stock_ok (consumed (rq_store rq) ls (sh_stock (sv_shop d)))" using after(2) after' by simp
  show "\<exists>es. d' = d\<lparr>sv_shop := (sv_shop d)\<lparr>sh_sales := sh_sales (sv_shop d) @ [sale_of source rq t ls i], sh_stock := consumed (rq_store rq) ls (sh_stock (sv_shop d))\<rparr>,
        sv_captures := sv_captures d @ [\<lparr>kc_sale = i, kc_digest = digest, kc_by = rq_sub rq\<rparr>],
        sv_sales_events := sv_sales_events d @ [capture_event SALES_STREAM ''INSERT'' (nat_text i) d],
        sv_stock_events := sv_stock_events d @ es, sv_next_sale := sv_next_sale d + 1, sv_next_event := sv_next_event d + 1 + length es\<rparr>"
    by (rule exI [of _ es]) (simp only: d' d1 [unfolded after'], simp add: insert_header_def sale_of_def i)
qed

lemma attempt_fails: "attempt source rq w ls digest d = (Inl e, d') \<Longrightarrow> d' = d"
  by (auto simp: attempt_def split: option.splits sum.splits prod.splits)

text \<open>A positive decimal with at most two places is a cent at least.\<close>

lemma cent_at_least:
  assumes "py_decimal raw = Some (Finite v)" and "0 < v" and "\<not> decimal_exponent raw < -2"
  shows "1 / 100 \<le> v"
proof -
  obtain negative s where s: "sign_of (map lower_char (filter (\<lambda>c. c \<noteq> CHR ''_'') (py_strip raw))) = (negative, s)" by fastforce
  from assms(1) obtain w where w: "finite_decimal s = Some w" "v = (if negative then - w else w)"
    by (auto simp: py_decimal_def s split: if_splits)
  have "0 \<le> w"
    using w(1) by (auto simp: finite_decimal_def power_of_ten_def split: list.splits option.splits prod.splits)
  with w(2) assms(2) have v: "v = w" "\<not> negative" by (auto split: if_splits)
  have bound: "1 \<le> of_nat n * power_of_ten e * 100" if "0 < of_nat n * power_of_ten e" "-2 \<le> e" for n :: nat and e
  proof -
    from that(1) have "1 \<le> n" by (cases n) auto
    moreover have "1 / 100 \<le> power_of_ten e"
    proof (cases "0 \<le> e")
      case True
      have "1 \<le> (10 :: rat) ^ nat e" by (rule one_le_power) simp
      then have "1 / 100 \<le> (10 :: rat) ^ nat e" by linarith
      then show ?thesis using True by (simp only: power_of_ten_def if_True)
    next
      case False
      with that(2) consider "e = -1" | "e = -2" by linarith
      then show ?thesis by cases (simp_all add: power_of_ten_def)
    qed
    ultimately have "1 * (1 / 100) \<le> of_nat n * power_of_ten e" by (intro mult_mono) simp_all
    then have "1 / 100 \<le> of_nat n * power_of_ten e" by simp
    then show ?thesis by linarith
  qed
  show ?thesis
    using w(1) assms(2,3) unfolding v(1)
    by (auto simp: finite_decimal_def decimal_exponent_def s split: list.splits option.splits prod.splits intro!: bound)
qed

text \<open>A request that passes the local checks sells positive quantities at positive prices, each product once.\<close>

lemma validate_lines_ok:
  "validate_lines index seen ls = Inr sold \<Longrightarrow> list_all (\<lambda>l. 0 < li_quantity l \<and> 0 < li_price l) sold
    \<and> map li_product sold = map ql_product ls \<and> distinct (map li_product sold) \<and> set (map li_product sold) \<inter> set seen = {}"
proof (induction index seen ls arbitrary: sold rule: validate_lines.induct)
  case (2 index seen l ls)
  then obtain q p rest where parts: "ql_product l \<notin> set seen" "quantity_of index (ql_quantity l) = Inr q" "price_of index (ql_price l) = Inr p"
    "validate_lines (Suc index) (ql_product l # seen) ls = Inr rest" "sold = \<lparr>li_product = ql_product l, li_quantity = q, li_price = p\<rparr> # rest"
    by (auto split: if_splits sum.splits)
  have "0 < q" using parts(2) by (auto simp: quantity_of_def split: quantity_value.splits if_splits)
  moreover have "0 < p"
  proof -
    from parts(3) obtain v where v: "py_decimal (ql_price l) = Some (Finite v)" "0 < v" "\<not> decimal_exponent (ql_price l) < -2" "p = half_up (100 * v)"
      by (auto simp: price_of_def split: option.splits decimal.splits if_splits)
    have "1 / 100 \<le> v" by (rule cent_at_least [OF v(1-3)])
    then have "half_up 1 \<le> half_up (100 * v)" by (intro half_up_mono) simp
    then show ?thesis using half_up_of_int [of 1] v(4) by simp
  qed
  moreover have "list_all (\<lambda>l. 0 < li_quantity l \<and> 0 < li_price l) rest \<and> map li_product rest = map ql_product ls
      \<and> distinct (map li_product rest) \<and> set (map li_product rest) \<inter> set (ql_product l # seen) = {}"
    using 2(1) parts by blast
  ultimately show ?case using parts(1,5) by (auto simp del: set_map)
qed simp

section \<open>What is on hand\<close>

lemma find_unique: "distinct (map f xs) \<Longrightarrow> x \<in> set xs \<Longrightarrow> find (\<lambda>y. f y = f x) xs = Some x"
  by (induction xs) auto

lemma filter_unique: "distinct (map f xs) \<Longrightarrow> x \<in> set xs \<Longrightarrow> filter (\<lambda>y. f y = f x) xs = [x]"
proof (induction xs)
  case (Cons y ys)
  show ?case
  proof (cases "x = y")
    case True
    with Cons.prems(1) have "f z \<noteq> f x" if "z \<in> set ys" for z using that by (metis distinct.simps(2) imageI list.set_map list.simps(9))
    with True show ?thesis by (simp add: filter_empty_conv)
  next
    case False
    with Cons show ?thesis by auto
  qed
qed simp

definition on_hand :: "stock_row list \<Rightarrow> nat \<Rightarrow> nat \<Rightarrow> int" where
  "on_hand ks s p = sum_list (map sk_quantity (filter (\<lambda>k. sk_store k = s \<and> sk_product k = p) ks))"

lemma on_hand_consumed:
  assumes "stock_ok ks" and "\<And>l. l \<in> set ls \<Longrightarrow> (store, li_product l) \<in> stock_keys ks"
  shows "on_hand (consumed store ls ks) s p = on_hand ks s p - (if s = store then units ls p else 0)"
proof -
  let ?hit = "\<lambda>k. sk_store k = s \<and> sk_product k = p"
  have hit: "filter ?hit (consumed store ls ks) = map (\<lambda>k. if s = store then k\<lparr>sk_quantity := sk_quantity k - units ls p\<rparr> else k) (filter ?hit ks)"
    unfolding consumed_def by (induction ks) auto
  show ?thesis
  proof (cases "(s, p) \<in> stock_keys ks")
    case True
    then obtain k where k: "k \<in> set ks" "sk_store k = s" "sk_product k = p" by (auto simp: stock_keys_def)
    have "filter ?hit ks = [k]"
      using filter_unique [of "\<lambda>k. (sk_store k, sk_product k)" ks k] assms(1) k by (simp add: stock_ok_def)
    then show ?thesis unfolding on_hand_def hit by simp
  next
    case False
    then have none: "filter ?hit ks = []" by (force simp: stock_keys_def filter_empty_conv)
    have "filter (\<lambda>l. li_product l = p) ls = []" if "s = store"
      using assms(2) False that by (auto simp: filter_empty_conv)
    then show ?thesis unfolding on_hand_def hit none by (simp add: units_def)
  qed
qed

end
