(* ===== verification/Sale_Concurrency.thy ===== *)
theory Sale_Concurrency
  imports Sale_Service
begin

text \<open>
  \<open>record_sale\<close> as concurrent clients: the look-up of the key, up to three attempts, the second look-up after a duplicate,
  and what other writers and the relay of the outbox do in between, in any order. A client takes one step at a time; a
  step reads or commits once, and the answer to a commit may be lost.
  Whether a driver error is an \<open>OperationalError\<close>, which \<open>kit.db\<close> turns into 503 before \<open>record_sale\<close> sees it, is the
  parameter \<open>operational\<close>; in psycopg the errors of SQLSTATE class 40 are.
\<close>

section \<open>One client\<close>

datatype answer =
    Accepted bool shop_sale
  | RefusedWith sale_error
  | Crashed "db_failure option"

record prepared =
  pr_source :: string
  pr_when :: "int \<times> int"
  pr_lines :: "sale_line list"
  pr_digest :: nat

datatype stage =
    Looking
  | Trying nat prepared
  | Showing nat prepared nat
  | Relooking prepared db_failure
  | Answered answer

text \<open>\<open>_replay\<close> over a connection that may be lost.\<close>

definition refused_or_crashed :: "(db_failure \<Rightarrow> bool) \<Rightarrow> db_failure \<Rightarrow> stage" where
  "refused_or_crashed operational e = Answered (if operational e then RefusedWith DatabaseUnavailable else Crashed (Some e))"

definition look_up :: "(canonical_sale \<Rightarrow> nat) \<Rightarrow> sale_request \<Rightarrow> service_db \<Rightarrow> stage" where
  "look_up sha rq d =
    (case rq_key rq of
       None \<Rightarrow> Answered (RefusedWith IdempotencyKeyRequired)
     | Some key \<Rightarrow>
         (case validate_local (sv_clock d) rq of
            Inl e \<Rightarrow> Answered (RefusedWith e)
          | Inr (w, ls) \<Rightarrow>
              (let p = \<lparr>pr_source = source_id key, pr_when = w, pr_lines = ls, pr_digest = sha (canonical rq (fst w) ls)\<rparr>
               in case replay d (pr_source p) (pr_digest p) of
                    Inl e \<Rightarrow> Answered (RefusedWith e)
                  | Inr (Some sale) \<Rightarrow> Answered (Accepted True sale)
                  | Inr None \<Rightarrow> Trying 0 p)))"

text \<open>The \<open>except\<close> clauses, behind the context manager of \<open>kit.db.transaction\<close>.\<close>

definition refusal_or_crash :: "db_failure \<Rightarrow> nat \<Rightarrow> stage" where
  "refusal_or_crash e index = Answered (case database_refusal e index of Some r \<Rightarrow> RefusedWith r | None \<Rightarrow> Crashed (Some e))"

definition after_failure :: "(db_failure \<Rightarrow> bool) \<Rightarrow> nat \<Rightarrow> prepared \<Rightarrow> attempt_failure \<Rightarrow> stage" where
  "after_failure operational n p f =
    (case f of
       ApiRefusal e \<Rightarrow> Answered (RefusedWith e)
     | StockRefusal i e \<Rightarrow> refusal_or_crash e i
     | Database e \<Rightarrow>
         if operational e then Answered (RefusedWith DatabaseUnavailable)
         else if e = DeadlockDetected \<or> e = SerializationFailure then (if n = 2 then Answered (Crashed (Some e)) else Trying (Suc n) p)
         else (case e of
             UniqueViolation c \<Rightarrow> if c \<noteq> ''transaction_source_transaction_id_key'' then Answered (Crashed (Some e)) else Relooking p e
           | ConnectionLost \<Rightarrow> Answered (Crashed (Some e))
           | _ \<Rightarrow> refusal_or_crash e 0))"

definition try_once :: "(db_failure \<Rightarrow> bool) \<Rightarrow> sale_request \<Rightarrow> nat \<Rightarrow> prepared \<Rightarrow> service_db \<Rightarrow> stage \<times> service_db" where
  "try_once operational rq n p d =
    (case attempt (pr_source p) rq (pr_when p) (pr_lines p) (pr_digest p) d of
       (Inl f, d') \<Rightarrow> (after_failure operational n p f, d')
     | (Inr i, d') \<Rightarrow> (Showing n p i, d'))"

text \<open>The transaction commits and the connection is lost before its client is told; and the read of what was committed.\<close>

definition commit_unanswered :: "(db_failure \<Rightarrow> bool) \<Rightarrow> sale_request \<Rightarrow> nat \<Rightarrow> prepared \<Rightarrow> service_db \<Rightarrow> stage \<times> service_db" where
  "commit_unanswered operational rq n p d =
    (case attempt (pr_source p) rq (pr_when p) (pr_lines p) (pr_digest p) d of
       (Inl f, d') \<Rightarrow> (after_failure operational n p f, d')
     | (Inr i, d') \<Rightarrow> (after_failure operational n p (Database ConnectionLost), d'))"

definition show_sale :: "nat \<Rightarrow> service_db \<Rightarrow> stage" where
  "show_sale i d = Answered (case get_sale d i of None \<Rightarrow> Crashed None | Some sale \<Rightarrow> Accepted False sale)"

definition look_again :: "prepared \<Rightarrow> db_failure \<Rightarrow> service_db \<Rightarrow> stage" where
  "look_again p e d =
    Answered (case replay d (pr_source p) (pr_digest p) of
       Inl r \<Rightarrow> RefusedWith r
     | Inr (Some sale) \<Rightarrow> Accepted True sale
     | Inr None \<Rightarrow> Crashed (Some e))"

text \<open>A step of a client; \<open>abort\<close> is what the database answers instead, if it does.\<close>

definition client_step ::
  "(db_failure \<Rightarrow> bool) \<Rightarrow> (canonical_sale \<Rightarrow> nat) \<Rightarrow> sale_request \<Rightarrow> db_failure option \<Rightarrow> stage \<Rightarrow> service_db \<Rightarrow> stage \<times> service_db" where
  "client_step operational sha rq abort g d =
    (case g of
       Answered a \<Rightarrow> (g, d)
     | Looking \<Rightarrow>
         (case abort of
            None \<Rightarrow> (look_up sha rq d, d)
          | Some e \<Rightarrow> ((case look_up sha rq d of Answered (RefusedWith r) \<Rightarrow> if r = IdempotencyKeyReused then refused_or_crashed operational e else Answered (RefusedWith r)
                       | _ \<Rightarrow> refused_or_crashed operational e), d))
     | Trying n p \<Rightarrow> (case abort of None \<Rightarrow> try_once operational rq n p d | Some e \<Rightarrow> (after_failure operational n p (Database e), d))
     | Showing n p i \<Rightarrow> ((case abort of None \<Rightarrow> show_sale i d | Some e \<Rightarrow> after_failure operational n p (Database e)), d)
     | Relooking p e \<Rightarrow> (case abort of None \<Rightarrow> (look_again p e d, d) | Some e' \<Rightarrow> (refused_or_crashed operational e', d)))"

definition unanswered_step ::
  "(db_failure \<Rightarrow> bool) \<Rightarrow> (canonical_sale \<Rightarrow> nat) \<Rightarrow> sale_request \<Rightarrow> stage \<Rightarrow> service_db \<Rightarrow> stage \<times> service_db" where
  "unanswered_step operational sha rq g d =
    (case g of
       Trying n p \<Rightarrow> commit_unanswered operational rq n p d
     | _ \<Rightarrow> client_step operational sha rq (Some ConnectionLost) g d)"

section \<open>Many clients, and the other writers\<close>

record client =
  cl_request :: sale_request
  cl_stage :: stage

text \<open>Beside the database and the clients, what Redis took and when the relay last purged.\<close>

record system =
  sy_db :: service_db
  sy_clients :: "client list"
  sy_log :: "(string \<times> message) list"
  sy_last_purge :: "int option"

text \<open>
  What happens: a request arrives, a client steps, or steps and is not told; the relay makes a pass; time passes, another
  writer changes the stock or switches a product, or writes a sale of its own, which the guard of the namespace and the
  unique source keep from being a phone sale's.
\<close>

datatype happening =
    Arrives sale_request
  | Steps nat "db_failure option"
  | Unanswered nat
  | RelayPasses relay_pass
  | TimePasses nat
  | Restocked nat nat nat
  | ProductSwitched nat bool
  | OtherSale sale_request string int "sale_line list"

definition move_client :: "(sale_request \<Rightarrow> stage \<Rightarrow> service_db \<Rightarrow> stage \<times> service_db) \<Rightarrow> nat \<Rightarrow> system \<Rightarrow> system" where
  "move_client step i y =
    (if i < length (sy_clients y)
     then (case step (cl_request (sy_clients y ! i)) (cl_stage (sy_clients y ! i)) (sy_db y) of
        (g, d) \<Rightarrow> y\<lparr>sy_db := d, sy_clients := (sy_clients y)[i := (sy_clients y ! i)\<lparr>cl_stage := g\<rparr>]\<rparr>)
     else y)"

text \<open>The relay of the service, over its one stream.\<close>

definition relay_of :: "system \<Rightarrow> relay" where
  "relay_of y = \<lparr>rl_streams = [SALES_STREAM], rl_outbox = sv_sales_events (sy_db y), rl_log = sy_log y, rl_last_purge = sy_last_purge y\<rparr>"

definition relay_passes :: "relay_pass \<Rightarrow> system \<Rightarrow> system" where
  "relay_passes p y =
    (let r = snd (relay_once p (relay_of y))
     in y\<lparr>sy_db := (sy_db y)\<lparr>sv_sales_events := rl_outbox r\<rparr>, sy_log := rl_log r, sy_last_purge := rl_last_purge r\<rparr>)"

definition other_writer :: "happening \<Rightarrow> service_db \<Rightarrow> service_db" where
  "other_writer h d =
    (case h of
       TimePasses n \<Rightarrow> d\<lparr>sv_clock := sv_clock d + int n\<rparr>
     | Restocked s p q \<Rightarrow> d\<lparr>sv_shop := (sv_shop d)\<lparr>sh_stock := map (\<lambda>k. if sk_store k = s \<and> sk_product k = p then k\<lparr>sk_quantity := int q\<rparr> else k) (sh_stock (sv_shop d))\<rparr>\<rparr>
     | ProductSwitched p active \<Rightarrow> d\<lparr>sv_shop := (sv_shop d)\<lparr>sh_products := map (\<lambda>x. if pd_id x = p then x\<lparr>pd_active := active\<rparr> else x) (sh_products (sv_shop d))\<rparr>\<rparr>
     | OtherSale rq source t ls \<Rightarrow>
         if take 10 source = ''svc-sales:'' \<or> source \<in> set (map sa_source (sh_sales (sv_shop d))) then d else insert_header source rq t ls d
     | _ \<Rightarrow> d)"

definition happens :: "(db_failure \<Rightarrow> bool) \<Rightarrow> (canonical_sale \<Rightarrow> nat) \<Rightarrow> happening \<Rightarrow> system \<Rightarrow> system" where
  "happens operational sha h y =
    (case h of
       Arrives rq \<Rightarrow> y\<lparr>sy_clients := sy_clients y @ [\<lparr>cl_request = rq, cl_stage = Looking\<rparr>]\<rparr>
     | Steps i abort \<Rightarrow> move_client (\<lambda>rq. client_step operational sha rq abort) i y
     | Unanswered i \<Rightarrow> move_client (unanswered_step operational sha) i y
     | RelayPasses p \<Rightarrow> relay_passes p y
     | _ \<Rightarrow> y\<lparr>sy_db := other_writer h (sy_db y)\<rparr>)"

definition run_from :: "(db_failure \<Rightarrow> bool) \<Rightarrow> (canonical_sale \<Rightarrow> nat) \<Rightarrow> happening list \<Rightarrow> service_db \<Rightarrow> system" where
  "run_from operational sha hs d = fold (happens operational sha) hs \<lparr>sy_db = d, sy_clients = [], sy_log = [], sy_last_purge = None\<rparr>"

section \<open>The database stays well formed\<close>

lemma source_id_phone [simp]: "take 10 (source_id key) = ''svc-sales:''"
  by (simp add: source_id_def)

lemma insert_header_shop [simp]:
  "sh_stock (sv_shop (insert_header source rq t ls d)) = sh_stock (sv_shop d)"
  "sh_sales (sv_shop (insert_header source rq t ls d)) = sh_sales (sv_shop d) @ [sale_of source rq t ls (sv_next_sale d)]"
  by (simp_all add: insert_header_def sale_of_def)

lemma sale_of_simps [simp]:
  "sa_id (sale_of source rq t ls i) = i" "sa_source (sale_of source rq t ls i) = source" "sa_total (sale_of source rq t ls i) = lines_total ls"
  "sa_lines (sale_of source rq t ls i) = ls" "sa_store (sale_of source rq t ls i) = rq_store rq"
  by (simp_all add: sale_of_def)

lemma phone_sale_of [simp]: "phone_sale (sale_of source rq t ls i) \<longleftrightarrow> take 10 source = ''svc-sales:''"
  by (simp add: phone_sale_def)

lemma attempt_wf:
  assumes wf: "service_wf d" and a: "attempt source rq w ls digest d = (Inr i, d')" and phone: "take 10 source = ''svc-sales:''"
  shows "service_wf d'"
proof -
  obtain t date where w: "w = (t, date)" by fastforce
  have stock: "stock_ok (sh_stock (sv_shop d))" using wf by (simp add: service_wf_def)
  note effect = attempt_effect [OF a [unfolded w] stock]
  obtain es where d': "d' = d\<lparr>sv_shop := (sv_shop d)\<lparr>sh_sales := sh_sales (sv_shop d) @ [sale_of source rq t ls i], sh_stock := consumed (rq_store rq) ls (sh_stock (sv_shop d))\<rparr>,
        sv_captures := sv_captures d @ [\<lparr>kc_sale = i, kc_digest = digest, kc_by = rq_sub rq\<rparr>],
        sv_sales_events := sv_sales_events d @ [capture_event SALES_STREAM ''INSERT'' (nat_text i) d],
        sv_stock_events := sv_stock_events d @ es, sv_next_sale := sv_next_sale d + 1, sv_next_event := sv_next_event d + 1 + length es\<rparr>"
    using effect(3) by blast
  have fresh: "i \<notin> sa_id ` set (sh_sales (sv_shop d))" using wf effect(1) by (auto simp: service_wf_def)
  have "kc_sale ` set (sv_captures d) \<subseteq> sa_id ` set (sh_sales (sv_shop d))" using wf by (auto simp: service_wf_def)
  with fresh have captures: "i \<notin> kc_sale ` set (sv_captures d)" by blast
  have event: "sv_next_event d \<notin> oe_id ` set (sv_sales_events d)" using wf by (auto simp: service_wf_def)
  have phones: "{s. (s = sale_of source rq t ls i \<or> s \<in> set (sh_sales (sv_shop d))) \<and> phone_sale s} = insert (sale_of source rq t ls i) {s \<in> set (sh_sales (sv_shop d)). phone_sale s}"
    using phone by auto
  show ?thesis
    using wf effect(2,4) fresh captures event unfolding service_wf_def
    by (simp add: d' phones [unfolded effect(1)] capture_event_def effect(1)) (auto simp: less_Suc_eq)
qed

lemma restock_ok: "stock_ok ks \<Longrightarrow> stock_ok (map (\<lambda>k. if sk_store k = s \<and> sk_product k = p then k\<lparr>sk_quantity := int q\<rparr> else k) ks)"
proof -
  have keys: "map (\<lambda>k. (sk_store k, sk_product k)) (map (\<lambda>k. if sk_store k = s \<and> sk_product k = p then k\<lparr>sk_quantity := int q\<rparr> else k) ks)
      = map (\<lambda>k. (sk_store k, sk_product k)) ks" by simp
  show "stock_ok ks \<Longrightarrow> stock_ok (map (\<lambda>k. if sk_store k = s \<and> sk_product k = p then k\<lparr>sk_quantity := int q\<rparr> else k) ks)"
    unfolding stock_ok_def keys by auto
qed

lemma other_writer_wf:
  assumes "service_wf d"
  shows "service_wf (other_writer h d)"
proof (cases h)
  case (Restocked s p q)
  then show ?thesis using assms by (auto simp: other_writer_def service_wf_def restock_ok)
next
  case (OtherSale rq source t ls)
  have fresh: "sv_next_sale d \<notin> sa_id ` set (sh_sales (sv_shop d))" "sv_next_event d \<notin> oe_id ` set (sv_sales_events d)"
    using assms by (auto simp: service_wf_def)
  show ?thesis
  proof (cases "take 10 source = ''svc-sales:'' \<or> source \<in> set (map sa_source (sh_sales (sv_shop d)))")
    case False
    then have "{s. (s = sale_of source rq t ls (sv_next_sale d) \<or> s \<in> set (sh_sales (sv_shop d))) \<and> phone_sale s} = {s \<in> set (sh_sales (sv_shop d)). phone_sale s}"
      by auto
    with False fresh assms show ?thesis
      unfolding service_wf_def OtherSale other_writer_def
      by (simp add: insert_header_def capture_event_def sale_of_def) (auto simp: phone_sale_def less_Suc_eq)
  qed (use assms in \<open>simp add: OtherSale other_writer_def\<close>)
qed (use assms in \<open>simp_all add: other_writer_def service_wf_def\<close>)

text \<open>A pass of the relay marks and removes rows of the outbox, and changes nothing else.\<close>

lemma relay_outbox:
  assumes "relay_once p r = (res, r')"
  shows "set (map (\<lambda>e. (oe_id e, oe_stream e)) (rl_outbox r')) \<subseteq> set (map (\<lambda>e. (oe_id e, oe_stream e)) (rl_outbox r))"
    and "distinct (map oe_id (rl_outbox r)) \<Longrightarrow> distinct (map oe_id (rl_outbox r'))"
proof -
  have marked: "map (\<lambda>e. (oe_id e, oe_stream e)) (mark_relayed now ids ob) = map (\<lambda>e. (oe_id e, oe_stream e)) ob"
    "map oe_id (mark_relayed now ids ob) = map oe_id ob" for now ids ob
    by (induction ob) (auto simp: mark_relayed_def)
  have purged: "set (map f (purge_outbox now ob)) \<subseteq> set (map f ob)" for f :: "outbox_event \<Rightarrow> nat \<times> string" and now ob
    by (auto simp: purge_outbox_def)
  obtain sent ids failed where send: "send_rows (rl_streams r) (rp_refused p) (relay_rows (rp_locked p) (rl_outbox r)) = (sent, ids, failed)"
    by (metis prod_cases3)
  consider "rl_outbox r' = rl_outbox r" | "rl_outbox r' = mark_relayed (rp_now p) ids (rl_outbox r)"
    | "rl_outbox r' = purge_outbox (rp_now p) (mark_relayed (rp_now p) ids (rl_outbox r))"
    using assms by (auto simp: relay_once_def Let_def send split: if_splits)
  then have "set (map (\<lambda>e. (oe_id e, oe_stream e)) (rl_outbox r')) \<subseteq> set (map (\<lambda>e. (oe_id e, oe_stream e)) (rl_outbox r))
      \<and> (distinct (map oe_id (rl_outbox r)) \<longrightarrow> distinct (map oe_id (rl_outbox r')))"
  proof cases
    case 3
    show ?thesis
      unfolding 3 using purged [of "\<lambda>e. (oe_id e, oe_stream e)" "rp_now p" "mark_relayed (rp_now p) ids (rl_outbox r)"] ids_purged
      unfolding marked(1) by (metis marked(2))
  qed (simp_all only: marked subset_refl simp_thms)
  then show "set (map (\<lambda>e. (oe_id e, oe_stream e)) (rl_outbox r')) \<subseteq> set (map (\<lambda>e. (oe_id e, oe_stream e)) (rl_outbox r))"
    "distinct (map oe_id (rl_outbox r)) \<Longrightarrow> distinct (map oe_id (rl_outbox r'))" by blast+
qed

lemma relay_passes_wf:
  assumes "service_wf (sy_db y)"
  shows "service_wf (sy_db (relay_passes p y))"
proof -
  obtain res r' where pass: "relay_once p (relay_of y) = (res, r')" by fastforce
  have db: "sy_db (relay_passes p y) = (sy_db y)\<lparr>sv_sales_events := rl_outbox r'\<rparr>" by (simp add: relay_passes_def pass)
  have outbox: "rl_outbox (relay_of y) = sv_sales_events (sy_db y)" by (simp add: relay_of_def)
  have "distinct (map oe_id (rl_outbox r'))"
    using relay_outbox(2) [OF pass] assms unfolding outbox by (simp add: service_wf_def)
  moreover have "\<forall>e\<in>set (rl_outbox r'). oe_id e < sv_next_event (sy_db y) \<and> oe_stream e = SALES_STREAM"
  proof
    fix e
    assume "e \<in> set (rl_outbox r')"
    then have "(oe_id e, oe_stream e) \<in> set (map (\<lambda>e. (oe_id e, oe_stream e)) (sv_sales_events (sy_db y)))"
      using relay_outbox(1) [OF pass] unfolding outbox by auto
    then obtain x where "x \<in> set (sv_sales_events (sy_db y))" "oe_id e = oe_id x" "oe_stream e = oe_stream x" by auto
    then show "oe_id e < sv_next_event (sy_db y) \<and> oe_stream e = SALES_STREAM" using assms by (simp add: service_wf_def)
  qed
  ultimately show ?thesis using assms by (simp add: db service_wf_def)
qed

text \<open>Nobody removes or changes a sale or a capture.\<close>

definition grows :: "service_db \<Rightarrow> service_db \<Rightarrow> bool" where
  "grows d d' \<longleftrightarrow> set (sh_sales (sv_shop d)) \<subseteq> set (sh_sales (sv_shop d')) \<and> set (sv_captures d) \<subseteq> set (sv_captures d')"

lemma grows_refl [simp]: "grows d d"
  by (simp add: grows_def)

lemma other_writer_grows: "grows d (other_writer h d)"
  by (auto simp: grows_def other_writer_def insert_header_def split: happening.split)

lemma attempt_grows:
  assumes "service_wf d" and "attempt source rq w ls digest d = (r, d')"
  shows "grows d d'"
proof (cases r)
  case (Inl e)
  then show ?thesis using attempt_fails assms(2) by fastforce
next
  case (Inr i)
  obtain t date where "w = (t, date)" by fastforce
  with attempt_effect(3) [of source rq t date ls digest d i d'] assms Inr show ?thesis by (auto simp: service_wf_def grows_def)
qed

section \<open>What a client was told\<close>

text \<open>The canonical form of a recorded sale; the request that recorded it has the same.\<close>

definition canonical_of :: "capture \<Rightarrow> shop_sale \<Rightarrow> canonical_sale" where
  "canonical_of k s = \<lparr>cn_sub = kc_by k, cn_customer = sa_customer s, cn_store = sa_store s, cn_channel = sa_channel s, cn_at = sa_at s,
     cn_lines = sort_key li_product (sa_lines s)\<rparr>"

definition digests_ok :: "(canonical_sale \<Rightarrow> nat) \<Rightarrow> service_db \<Rightarrow> bool" where
  "digests_ok sha d \<longleftrightarrow> (\<forall>s\<in>set (sh_sales (sv_shop d)). \<forall>k\<in>set (sv_captures d). kc_sale k = sa_id s \<longrightarrow> kc_digest k = sha (canonical_of k s))"

text \<open>The request was accepted with the one sale of its key, whose canonical form has the digest of its own.\<close>

definition accepted_with :: "(canonical_sale \<Rightarrow> nat) \<Rightarrow> service_db \<Rightarrow> sale_request \<Rightarrow> shop_sale \<Rightarrow> bool" where
  "accepted_with sha d rq sale \<longleftrightarrow> (\<exists>key t date ls now s k. rq_key rq = Some key \<and> validate_local now rq = Inr ((t, date), ls)
     \<and> s \<in> set (sh_sales (sv_shop d)) \<and> sa_source s = source_id key \<and> sale = sale_shown s
     \<and> k \<in> set (sv_captures d) \<and> kc_sale k = sa_id s \<and> kc_digest k = sha (canonical rq t ls))"

definition prepared_for :: "(canonical_sale \<Rightarrow> nat) \<Rightarrow> sale_request \<Rightarrow> prepared \<Rightarrow> bool" where
  "prepared_for sha rq p \<longleftrightarrow> (\<exists>key now. rq_key rq = Some key \<and> validate_local now rq = Inr (pr_when p, pr_lines p)
     \<and> pr_source p = source_id key \<and> pr_digest p = sha (canonical rq (fst (pr_when p)) (pr_lines p)))"

definition stage_ok :: "(canonical_sale \<Rightarrow> nat) \<Rightarrow> service_db \<Rightarrow> sale_request \<Rightarrow> stage \<Rightarrow> bool" where
  "stage_ok sha d rq g \<longleftrightarrow> (case g of
     Looking \<Rightarrow> True
   | Trying n p \<Rightarrow> prepared_for sha rq p
   | Showing n p i \<Rightarrow> prepared_for sha rq p \<and> (\<exists>s\<in>set (sh_sales (sv_shop d)). sa_id s = i \<and> accepted_with sha d rq (sale_shown s))
   | Relooking p e \<Rightarrow> prepared_for sha rq p
   | Answered a \<Rightarrow> (case a of Accepted again sale \<Rightarrow> accepted_with sha d rq sale | _ \<Rightarrow> True))"

lemma accepted_grows: "accepted_with sha d rq sale \<Longrightarrow> grows d d' \<Longrightarrow> accepted_with sha d' rq sale"
  unfolding accepted_with_def grows_def by blast

lemma stage_ok_grows: "stage_ok sha d rq g \<Longrightarrow> grows d d' \<Longrightarrow> stage_ok sha d' rq g"
  using accepted_grows [of sha d rq _ d'] by (fastforce simp: stage_ok_def grows_def split: stage.splits answer.splits)

lemma replay_accepts:
  assumes "replay d (pr_source p) (pr_digest p) = Inr (Some sale)" and "prepared_for sha rq p"
  shows "accepted_with sha d rq sale"
proof -
  from assms(1) obtain s k where s: "find (\<lambda>s. sa_source s = pr_source p \<and> sa_id s \<in> kc_sale ` set (sv_captures d)) (sh_sales (sv_shop d)) = Some s"
    and k: "find (\<lambda>k. kc_sale k = sa_id s) (sv_captures d) = Some k" and sale: "sale = sale_shown s" "kc_digest k = pr_digest p"
    by (auto simp: replay_def find_capture_def split: option.splits if_splits)
  from s k have "s \<in> set (sh_sales (sv_shop d))" "sa_source s = pr_source p" "k \<in> set (sv_captures d)" "kc_sale k = sa_id s"
    by (auto simp: find_Some_iff)
  moreover obtain t date where "pr_when p = (t, date)" by fastforce
  ultimately show ?thesis using assms(2) sale unfolding accepted_with_def prepared_for_def by (metis fst_conv)
qed

lemma attempt_accepts:
  assumes wf: "service_wf d" and a: "attempt (pr_source p) rq (pr_when p) (pr_lines p) (pr_digest p) d = (Inr i, d')" and p: "prepared_for sha rq p"
  shows "\<exists>s\<in>set (sh_sales (sv_shop d')). sa_id s = i \<and> accepted_with sha d' rq (sale_shown s)"
    and "service_wf d'" and "digests_ok sha d \<Longrightarrow> digests_ok sha d'"
proof -
  obtain t date where w: "pr_when p = (t, date)" by fastforce
  have stock: "stock_ok (sh_stock (sv_shop d))" using wf by (simp add: service_wf_def)
  from p obtain key now where key: "rq_key rq = Some key" "validate_local now rq = Inr (pr_when p, pr_lines p)" "pr_source p = source_id key"
    "pr_digest p = sha (canonical rq t (pr_lines p))" by (auto simp: prepared_for_def w)
  note effect = attempt_effect [OF a [unfolded w] stock]
  show wf': "service_wf d'" by (rule attempt_wf [OF wf a]) (simp add: key(3))
  let ?s = "sale_of (pr_source p) rq t (pr_lines p) i" and ?k = "\<lparr>kc_sale = i, kc_digest = pr_digest p, kc_by = rq_sub rq\<rparr>"
  have new: "sh_sales (sv_shop d') = sh_sales (sv_shop d) @ [?s]" "sv_captures d' = sv_captures d @ [?k]" using effect(3) by auto
  have "?s \<in> set (sh_sales (sv_shop d'))" "?k \<in> set (sv_captures d')" by (simp_all add: new)
  then have "accepted_with sha d' rq (sale_shown ?s)"
    unfolding accepted_with_def using key w
    by (intro exI [of _ key] exI [of _ t] exI [of _ date] exI [of _ "pr_lines p"] exI [of _ now] exI [of _ ?s] exI [of _ ?k]) simp
  then show "\<exists>s\<in>set (sh_sales (sv_shop d')). sa_id s = i \<and> accepted_with sha d' rq (sale_shown s)"
    using \<open>?s \<in> set (sh_sales (sv_shop d'))\<close> by (intro bexI [of _ ?s]) simp_all
  assume digests: "digests_ok sha d"
  have ids: "i \<notin> sa_id ` set (sh_sales (sv_shop d))" using wf effect(1) by (auto simp: service_wf_def)
  have "kc_sale ` set (sv_captures d) \<subseteq> sa_id ` set (sh_sales (sv_shop d))" using wf by (auto simp: service_wf_def)
  with ids have "i \<notin> kc_sale ` set (sv_captures d)" by blast
  moreover have "canonical_of ?k ?s = canonical rq t (pr_lines p)" by (simp add: canonical_of_def canonical_def sale_of_def)
  ultimately show "digests_ok sha d'"
    using digests ids unfolding digests_ok_def by (auto simp: new key(4))
qed

section \<open>Every run\<close>

definition system_ok :: "(canonical_sale \<Rightarrow> nat) \<Rightarrow> system \<Rightarrow> bool" where
  "system_ok sha y \<longleftrightarrow> service_wf (sy_db y) \<and> digests_ok sha (sy_db y) \<and> (\<forall>c\<in>set (sy_clients y). stage_ok sha (sy_db y) (cl_request c) (cl_stage c))"

lemma after_failure_ok: "prepared_for sha rq p \<Longrightarrow> stage_ok sha d rq (after_failure operational n p f)"
  by (auto simp: after_failure_def refusal_or_crash_def stage_ok_def split: attempt_failure.split option.split db_failure.split)

lemma look_up_ok: "stage_ok sha d rq (look_up sha rq d)"
proof -
  have "accepted_with sha d rq sale"
    if "rq_key rq = Some key" "validate_local (sv_clock d) rq = Inr (w, ls)" "replay d (source_id key) (sha (canonical rq (fst w) ls)) = Inr (Some sale)"
    for key w ls sale
    by (rule replay_accepts [where p = "\<lparr>pr_source = source_id key, pr_when = w, pr_lines = ls, pr_digest = sha (canonical rq (fst w) ls)\<rparr>"])
      (use that in \<open>auto simp: prepared_for_def\<close>)
  then show ?thesis
    by (auto simp: stage_ok_def look_up_def Let_def prepared_for_def split: option.split sum.split prod.split)
qed

lemma client_step_ok:
  assumes wf: "service_wf d" "digests_ok sha d" and g: "stage_ok sha d rq g" and step: "client_step operational sha rq abort g d = (g', d')"
  shows "service_wf d' \<and> digests_ok sha d' \<and> stage_ok sha d' rq g' \<and> grows d d'"
proof (cases g)
  case Looking
  have "stage_ok sha d rq (refused_or_crashed operational e)" for e by (simp add: stage_ok_def refused_or_crashed_def)
  moreover have "stage_ok sha d rq (Answered (RefusedWith r))" for r by (simp add: stage_ok_def)
  moreover have "d' = d" and "g' = look_up sha rq d \<or> (\<exists>e. g' = refused_or_crashed operational e) \<or> (\<exists>r. g' = Answered (RefusedWith r))"
    using step by (auto simp: client_step_def Looking split: option.splits stage.splits answer.splits if_splits)
  ultimately show ?thesis using wf look_up_ok [of sha d rq] by auto
next
  case (Trying n p)
  then have p: "prepared_for sha rq p" using g by (simp add: stage_ok_def)
  show ?thesis
  proof (cases "attempt (pr_source p) rq (pr_when p) (pr_lines p) (pr_digest p) d")
    case (Pair r d1)
    show ?thesis
    proof (cases "abort = None")
      case False
      then show ?thesis using wf step after_failure_ok [OF p] by (auto simp: client_step_def Trying)
    next
      case True
      show ?thesis
      proof (cases r)
        case (Inl f)
        then have "d1 = d" using attempt_fails Pair by fastforce
        then show ?thesis using True Inl wf step after_failure_ok [OF p] by (auto simp: client_step_def Trying try_once_def Pair)
      next
        case (Inr i)
        note acc = attempt_accepts [OF wf(1) Pair [unfolded Inr] p]
        have "g' = Showing n p i" "d' = d1" using step True by (simp_all add: client_step_def Trying try_once_def Pair Inr)
        then show ?thesis using p acc(1,2) acc(3) [OF wf(2)] attempt_grows [OF wf(1) Pair] by (simp add: stage_ok_def)
      qed
    qed
  qed
next
  case (Showing n p i)
  then obtain s where p: "prepared_for sha rq p" and s: "s \<in> set (sh_sales (sv_shop d))" "sa_id s = i" "accepted_with sha d rq (sale_shown s)"
    using g by (auto simp: stage_ok_def)
  have "find (\<lambda>x. sa_id x = sa_id s) (sh_sales (sv_shop d)) = Some s" using wf(1) s(1) by (intro find_unique) (simp_all add: service_wf_def)
  then have "get_sale d i = Some (sale_shown s)" using s(2) by (simp add: get_sale_def)
  then have "stage_ok sha d rq (show_sale i d)" using s(3) by (simp add: show_sale_def stage_ok_def)
  then show ?thesis using wf step after_failure_ok [OF p] by (cases abort) (auto simp: client_step_def Showing)
next
  case (Relooking p e)
  then have p: "prepared_for sha rq p" using g by (simp add: stage_ok_def)
  have "stage_ok sha d rq (look_again p e d)"
    using replay_accepts [OF _ p] by (auto simp: stage_ok_def look_again_def split: sum.split option.split)
  moreover have "stage_ok sha d rq (refused_or_crashed operational e)" for e by (simp add: stage_ok_def refused_or_crashed_def)
  ultimately show ?thesis using wf step by (auto simp: client_step_def Relooking split: option.splits)
next
  case (Answered a)
  then show ?thesis using wf g step by (simp add: client_step_def)
qed

lemma unanswered_step_ok:
  assumes wf: "service_wf d" "digests_ok sha d" and g: "stage_ok sha d rq g" and step: "unanswered_step operational sha rq g d = (g', d')"
  shows "service_wf d' \<and> digests_ok sha d' \<and> stage_ok sha d' rq g' \<and> grows d d'"
proof (cases "\<exists>n p. g = Trying n p")
  case True
  then obtain n p where Trying: "g = Trying n p" by blast
  then have p: "prepared_for sha rq p" using g by (simp add: stage_ok_def)
  obtain r d1 where a: "attempt (pr_source p) rq (pr_when p) (pr_lines p) (pr_digest p) d = (r, d1)" by fastforce
  show ?thesis
  proof (cases r)
    case (Inl f)
    then have "d1 = d" using attempt_fails a by fastforce
    then show ?thesis using wf step after_failure_ok [OF p] by (auto simp: unanswered_step_def Trying commit_unanswered_def a Inl)
  next
    case (Inr i)
    note acc = attempt_accepts [OF wf(1) a [unfolded Inr] p]
    have "d' = d1" "g' = after_failure operational n p (Database ConnectionLost)"
      using step by (simp_all add: unanswered_step_def Trying commit_unanswered_def a Inr)
    then show ?thesis using acc(2) acc(3) [OF wf(2)] attempt_grows [OF wf(1) a] after_failure_ok [OF p] by simp
  qed
next
  case False
  then have "client_step operational sha rq (Some ConnectionLost) g d = (g', d')"
    using step by (auto simp: unanswered_step_def split: stage.splits)
  then show ?thesis by (rule client_step_ok [OF wf g])
qed

text \<open>One client moves, and everyone else is left with a database that only grew.\<close>

lemma move_client_ok:
  assumes ok: "system_ok sha y"
    and step: "\<And>rq g g' d'. stage_ok sha (sy_db y) rq g \<Longrightarrow> step rq g (sy_db y) = (g', d') \<Longrightarrow>
      service_wf d' \<and> digests_ok sha d' \<and> stage_ok sha d' rq g' \<and> grows (sy_db y) d'"
  shows "system_ok sha (move_client step i y)"
proof (cases "i < length (sy_clients y)")
  case True
  let ?c = "sy_clients y ! i"
  obtain g' d' where one: "step (cl_request ?c) (cl_stage ?c) (sy_db y) = (g', d')" by fastforce
  have "stage_ok sha (sy_db y) (cl_request ?c) (cl_stage ?c)" using ok True by (simp add: system_ok_def)
  from step [OF this one] have after: "service_wf d'" "digests_ok sha d'" "stage_ok sha d' (cl_request ?c) g'" "grows (sy_db y) d'" by blast+
  have "stage_ok sha d' (cl_request x) (cl_stage x)" if "x \<in> set ((sy_clients y)[i := ?c\<lparr>cl_stage := g'\<rparr>])" for x
  proof -
    from that set_update_subset_insert consider "x = ?c\<lparr>cl_stage := g'\<rparr>" | "x \<in> set (sy_clients y)" by fastforce
    then show ?thesis
    proof cases
      case 2
      then show ?thesis using ok stage_ok_grows [OF _ after(4)] by (auto simp: system_ok_def)
    qed (use after(3) in simp)
  qed
  then show ?thesis using after(1,2) by (simp add: move_client_def True one system_ok_def)
qed (use ok in \<open>simp add: move_client_def\<close>)

lemma relay_passes_ok:
  assumes "system_ok sha y"
  shows "system_ok sha (relay_passes p y)"
proof -
  have same: "sv_shop (sy_db (relay_passes p y)) = sv_shop (sy_db y)" "sv_captures (sy_db (relay_passes p y)) = sv_captures (sy_db y)"
    "sy_clients (relay_passes p y) = sy_clients y" by (simp_all add: relay_passes_def Let_def)
  then have "grows (sy_db y) (sy_db (relay_passes p y))" "digests_ok sha (sy_db (relay_passes p y)) = digests_ok sha (sy_db y)"
    by (simp_all add: grows_def digests_ok_def)
  then show ?thesis
    using assms relay_passes_wf [of y p] stage_ok_grows by (fastforce simp: system_ok_def same)
qed

lemma happens_ok: "system_ok sha y \<Longrightarrow> system_ok sha (happens operational sha h y)"
proof -
  assume ok: "system_ok sha y"
  have others: "system_ok sha (y\<lparr>sy_db := other_writer h (sy_db y)\<rparr>)"
  proof -
    have "digests_ok sha (other_writer h (sy_db y))"
    proof -
      have "kc_sale ` set (sv_captures (sy_db y)) \<subseteq> sa_id ` set (sh_sales (sv_shop (sy_db y)))"
        "\<forall>s\<in>set (sh_sales (sv_shop (sy_db y))). sa_id s < sv_next_sale (sy_db y)" using ok by (auto simp: system_ok_def service_wf_def)
      then have "\<forall>k\<in>set (sv_captures (sy_db y)). kc_sale k \<noteq> sv_next_sale (sy_db y)" 
      proof (intro ballI notI)
        fix k
        assume "k \<in> set (sv_captures (sy_db y))" "kc_sale k = sv_next_sale (sy_db y)"
        then have "sv_next_sale (sy_db y) \<in> sa_id ` set (sh_sales (sv_shop (sy_db y)))"
          using \<open>kc_sale ` set (sv_captures (sy_db y)) \<subseteq> sa_id ` set (sh_sales (sv_shop (sy_db y)))\<close> by force
        then show False using \<open>\<forall>s\<in>set (sh_sales (sv_shop (sy_db y))). sa_id s < sv_next_sale (sy_db y)\<close> by auto
      qed
      then show ?thesis
        using ok by (auto simp: system_ok_def digests_ok_def other_writer_def insert_header_def split: happening.split)
    qed
    then show ?thesis
      using ok other_writer_wf stage_ok_grows [OF _ other_writer_grows] by (auto simp: system_ok_def)
  qed
  have ok': "service_wf (sy_db y)" "digests_ok sha (sy_db y)" using ok by (simp_all add: system_ok_def)
  show "system_ok sha (happens operational sha h y)"
  proof (cases h)
    case (Steps i abort)
    show ?thesis unfolding happens_def Steps happening.case by (rule move_client_ok [OF ok]) (rule client_step_ok [OF ok'])
  next
    case (Unanswered i)
    show ?thesis unfolding happens_def Unanswered happening.case by (rule move_client_ok [OF ok]) (rule unanswered_step_ok [OF ok'])
  next
    case (RelayPasses p)
    show ?thesis unfolding happens_def RelayPasses happening.case by (rule relay_passes_ok [OF ok])
  qed (use ok others in \<open>auto simp: happens_def system_ok_def stage_ok_def\<close>)
qed

lemma run_ok: "service_wf d \<Longrightarrow> digests_ok sha d \<Longrightarrow> system_ok sha (run_from operational sha hs d)"
proof -
  have "system_ok sha (fold (happens operational sha) hs y)" if "system_ok sha y" for y
    using that by (induction hs arbitrary: y) (simp_all add: happens_ok)
  then show "service_wf d \<Longrightarrow> digests_ok sha d \<Longrightarrow> system_ok sha (run_from operational sha hs d)"
    by (simp add: run_from_def system_ok_def)
qed

section \<open>A sale happens once\<close>

text \<open>
  C1. A sale happens once. Whatever requests arrive, however their steps interleave with each other's and with other
  writers, and whatever the database aborts: every request that was accepted was answered with the one sale recorded
  under its key - the same for every retry and every concurrent duplicate - and the digest of the request is that of
  the canonical form of that sale, so a key is never answered with another sale.
\<close>

theorem sale_happens_once:
  fixes hs :: "happening list" and operational :: "db_failure \<Rightarrow> bool"
  assumes "service_wf d" and "digests_ok sha d"
  defines "y \<equiv> run_from operational sha hs d"
  shows "service_wf (sy_db y) \<and> list_all (\<lambda>c. case cl_stage c of
      Answered (Accepted again sale) \<Rightarrow>
        (\<exists>key t date ls now s k. rq_key (cl_request c) = Some key \<and> filter (\<lambda>s. sa_source s = source_id key) (sh_sales (sv_shop (sy_db y))) = [s]
          \<and> sale = sale_shown s \<and> validate_local now (cl_request c) = Inr ((t, date), ls)
          \<and> filter (\<lambda>k. kc_sale k = sa_id s) (sv_captures (sy_db y)) = [k] \<and> sha (canonical (cl_request c) t ls) = sha (canonical_of k s))
    | _ \<Rightarrow> True) (sy_clients y)"
proof -
  have ok: "system_ok sha y" unfolding y_def by (rule run_ok [OF assms(1,2)])
  have "\<exists>key t date ls now s k. rq_key rq = Some key \<and> filter (\<lambda>s. sa_source s = source_id key) (sh_sales (sv_shop (sy_db y))) = [s]
          \<and> sale = sale_shown s \<and> validate_local now rq = Inr ((t, date), ls)
          \<and> filter (\<lambda>k. kc_sale k = sa_id s) (sv_captures (sy_db y)) = [k] \<and> sha (canonical rq t ls) = sha (canonical_of k s)"
    if "accepted_with sha (sy_db y) rq sale" for rq sale
  proof -
    from that obtain key t date ls now s k where a: "rq_key rq = Some key" "validate_local now rq = Inr ((t, date), ls)" "s \<in> set (sh_sales (sv_shop (sy_db y)))"
      "sa_source s = source_id key" "sale = sale_shown s" "k \<in> set (sv_captures (sy_db y))" "kc_sale k = sa_id s" "kc_digest k = sha (canonical rq t ls)"
      unfolding accepted_with_def by blast
    have "distinct (map sa_source (sh_sales (sv_shop (sy_db y))))" "distinct (map kc_sale (sv_captures (sy_db y)))"
      using ok by (simp_all add: system_ok_def service_wf_def)
    then have "filter (\<lambda>s. sa_source s = source_id key) (sh_sales (sv_shop (sy_db y))) = [s]" "filter (\<lambda>k. kc_sale k = sa_id s) (sv_captures (sy_db y)) = [k]"
      using filter_unique [of sa_source _ s] filter_unique [of kc_sale _ k] a by metis+
    moreover have "kc_digest k = sha (canonical_of k s)" using ok a by (auto simp: system_ok_def digests_ok_def)
    ultimately show ?thesis using a by metis
  qed
  then show ?thesis
    using ok by (auto simp: system_ok_def stage_ok_def list_all_iff split: stage.split answer.split)
qed

section \<open>The stock is conserved\<close>

definition phone_units :: "shop_sale list \<Rightarrow> nat \<Rightarrow> nat \<Rightarrow> int" where
  "phone_units ss s p = sum_list (map (\<lambda>x. units (sa_lines x) p) (filter (\<lambda>x. phone_sale x \<and> sa_store x = s) ss))"

text \<open>One step of a client changes the stock and the sales together.\<close>

definition accounted_units :: "service_db \<Rightarrow> nat \<Rightarrow> nat \<Rightarrow> int" where
  "accounted_units d s p = on_hand (sh_stock (sv_shop d)) s p + phone_units (sh_sales (sv_shop d)) s p"

lemma attempt_accounted:
  assumes "service_wf d" and "take 10 source = ''svc-sales:''" and "attempt source rq w ls digest d = (Inr i, d')"
  shows "accounted_units d' s p = accounted_units d s p"
proof -
  obtain t date where w: "w = (t, date)" by fastforce
  note a = assms(3) [unfolded w]
  have stock: "stock_ok (sh_stock (sv_shop d))" using assms(1) by (simp add: service_wf_def)
  show ?thesis
    using assms(2) attempt_effect(3) [OF a stock] on_hand_consumed [OF stock attempt_effect(7) [OF a stock]]
    by (auto simp: accounted_units_def phone_units_def)
qed

text \<open>What a step of a client does to the database: nothing, or one attempt that commits.\<close>

lemma steps_attempt:
  assumes "stage_ok sha d rq g" and "client_step operational sha rq abort g d = (g', d') \<or> unanswered_step operational sha rq g d = (g', d')"
  shows "d' = d \<or> (\<exists>(p :: prepared) i. take 10 (pr_source p) = ''svc-sales:'' \<and> attempt (pr_source p) rq (pr_when p) (pr_lines p) (pr_digest p) d = (Inr i, d'))"
proof (cases "\<exists>n p. g = Trying n p")
  case True
  then obtain n p where Trying: "g = Trying n p" by blast
  then have phone: "take 10 (pr_source p) = ''svc-sales:''" using assms(1) by (auto simp: stage_ok_def prepared_for_def)
  obtain r d1 where a: "attempt (pr_source p) rq (pr_when p) (pr_lines p) (pr_digest p) d = (r, d1)" by fastforce
  have "d' = d \<or> d' = d1"
    using assms(2) by (cases r; cases abort) (auto simp: client_step_def unanswered_step_def Trying try_once_def commit_unanswered_def a)
  moreover have "d1 = d \<or> (\<exists>i. attempt (pr_source p) rq (pr_when p) (pr_lines p) (pr_digest p) d = (Inr i, d1))"
    using attempt_fails [of "pr_source p" rq "pr_when p" "pr_lines p" "pr_digest p" d] by (cases r) (simp_all add: a)
  ultimately consider "d' = d" | i where "attempt (pr_source p) rq (pr_when p) (pr_lines p) (pr_digest p) d = (Inr i, d')" by blast
  then show ?thesis
  proof cases
    case 2
    with phone show ?thesis by (intro disjI2 exI [of _ p] exI [of _ i] conjI)
  qed simp
next
  case False
  then show ?thesis
    using assms(2) by (cases g; cases abort) (auto simp: client_step_def unanswered_step_def)
qed

text \<open>
  C2. The stock is conserved: while nobody else changes it, what is on hand of a product at a store and what phone sales
  took of it there add up to what they did at the start, whatever interleaves and aborts; and a quantity never goes
  below zero, so the same unit is never sold twice.
\<close>

theorem stock_is_conserved:
  fixes hs :: "happening list" and operational :: "db_failure \<Rightarrow> bool"
  assumes "service_wf d" and "digests_ok sha d" and "list_all (\<lambda>h. case h of Restocked _ _ _ \<Rightarrow> False | _ \<Rightarrow> True) hs"
  defines "e \<equiv> sy_db (run_from operational sha hs d)"
  shows "on_hand (sh_stock (sv_shop e)) s p + phone_units (sh_sales (sv_shop e)) s p = on_hand (sh_stock (sv_shop d)) s p + phone_units (sh_sales (sv_shop d)) s p
    \<and> list_all (\<lambda>k. 0 \<le> sk_quantity k) (sh_stock (sv_shop e))"
proof -
  have moved: "accounted_units (sy_db (move_client step i y)) s p = accounted_units (sy_db y) s p"
    if ok: "system_ok sha y"
      and step: "\<And>rq g. \<exists>abort. \<forall>g' d'. step rq g (sy_db y) = (g', d') \<longrightarrow>
        client_step operational sha rq abort g (sy_db y) = (g', d') \<or> unanswered_step operational sha rq g (sy_db y) = (g', d')"
    for step i y
  proof (cases "i < length (sy_clients y)")
    case True
    let ?c = "sy_clients y ! i"
    obtain g' d' where one: "step (cl_request ?c) (cl_stage ?c) (sy_db y) = (g', d')" by fastforce
    have "stage_ok sha (sy_db y) (cl_request ?c) (cl_stage ?c)" using ok True by (simp add: system_ok_def)
    from steps_attempt [OF this] step [of "cl_request ?c" "cl_stage ?c"] one
    have "d' = sy_db y \<or> (\<exists>(p :: prepared) i. take 10 (pr_source p) = ''svc-sales:''
        \<and> attempt (pr_source p) (cl_request ?c) (pr_when p) (pr_lines p) (pr_digest p) (sy_db y) = (Inr i, d'))" by blast
    then have "accounted_units d' s p = accounted_units (sy_db y) s p"
    proof (elim disjE exE conjE)
      fix q j
      assume "take 10 (pr_source q) = ''svc-sales:''"
        and "attempt (pr_source q) (cl_request ?c) (pr_when q) (pr_lines q) (pr_digest q) (sy_db y) = (Inr j, d')"
      with ok show ?thesis by (intro attempt_accounted) (simp_all add: system_ok_def)
    qed simp
    then show ?thesis by (simp add: move_client_def True one)
  qed (simp add: move_client_def)
  have step: "accounted_units (sy_db (happens operational sha h y)) s p = accounted_units (sy_db y) s p"
    if "system_ok sha y" "case h of Restocked _ _ _ \<Rightarrow> False | _ \<Rightarrow> True" for h y
  proof (cases h)
    case (Steps i abort)
    show ?thesis unfolding happens_def Steps happening.case by (rule moved [OF that(1)]) blast
  next
    case (Unanswered i)
    show ?thesis unfolding happens_def Unanswered happening.case by (rule moved [OF that(1)]) blast
  next
    case (RelayPasses q)
    show ?thesis by (simp add: happens_def RelayPasses relay_passes_def accounted_units_def Let_def)
  qed (use that(2) in \<open>auto simp: happens_def other_writer_def accounted_units_def phone_units_def phone_sale_def\<close>)
  have run: "accounted_units (sy_db (fold (happens operational sha) hs y)) s p = accounted_units (sy_db y) s p"
    if "system_ok sha y" "list_all (\<lambda>h. case h of Restocked _ _ _ \<Rightarrow> False | _ \<Rightarrow> True) hs" for y hs
    using that by (induction hs arbitrary: y) (simp_all add: happens_ok step)
  have "system_ok sha (run_from operational sha hs d)" by (rule run_ok [OF assms(1,2)])
  then have "list_all (\<lambda>k. 0 \<le> sk_quantity k) (sh_stock (sv_shop e))"
    by (simp add: e_def system_ok_def service_wf_def stock_ok_def list_all_iff)
  moreover have "accounted_units e s p = accounted_units d s p"
    using run [of "\<lparr>sy_db = d, sy_clients = [], sy_log = [], sy_last_purge = None\<rparr>" hs] assms by (simp add: e_def run_from_def system_ok_def)
  ultimately show ?thesis by (simp add: accounted_units_def)
qed

section \<open>What the retries are worth\<close>

text \<open>
  C37. A transaction is never retried: as the driver's hierarchy has it, a deadlock and a serialization failure are
  operational errors, so the context manager of the database answers 503 before the loop of attempts sees them. A client
  that meets one is refused at once, and no client ever makes a second attempt, whatever happens.
\<close>

theorem aborted_sale_is_not_retried:
  assumes "operational DeadlockDetected" and "operational SerializationFailure" and "e = DeadlockDetected \<or> e = SerializationFailure"
  shows "client_step operational sha rq (Some e) (Trying 0 p) d = (Answered (RefusedWith DatabaseUnavailable), d)
    \<and> list_all (\<lambda>c. case cl_stage c of Trying n _ \<Rightarrow> n = 0 | _ \<Rightarrow> True) (sy_clients (run_from operational sha hs d0))"
proof -
  have never: "after_failure operational n q f \<noteq> Trying m r" for n q f m r
    using assms(1,2) by (auto simp: after_failure_def refusal_or_crash_def split: attempt_failure.split option.split db_failure.split)
  have one: "case fst (client_step operational sha rq abort g d) of Trying n _ \<Rightarrow> n = 0 | _ \<Rightarrow> True"
    if "case g of Trying n _ \<Rightarrow> n = 0 | _ \<Rightarrow> True" for rq abort g d
  proof (cases g)
    case (Trying n q)
    have "case fst (try_once operational rq n q d) of Trying n _ \<Rightarrow> n = 0 | _ \<Rightarrow> True"
      by (auto simp: try_once_def never split: prod.split sum.split stage.split)
    then show ?thesis by (auto simp: client_step_def Trying never split: option.split stage.split)
  next
    case Looking
    have "case look_up sha rq d of Trying n _ \<Rightarrow> n = 0 | _ \<Rightarrow> True"
      by (simp add: look_up_def Let_def split: option.split sum.split prod.split)
    then show ?thesis
      by (auto simp: client_step_def Looking refused_or_crashed_def split: option.split stage.splits answer.splits)
  next
    case (Showing n q i)
    then show ?thesis by (auto simp: client_step_def show_sale_def never split: option.split stage.split)
  qed (use that in \<open>auto simp: client_step_def look_again_def refused_or_crashed_def split: option.split\<close>)
  have silent: "case fst (unanswered_step operational sha rq g d) of Trying n _ \<Rightarrow> n = 0 | _ \<Rightarrow> True"
    if "case g of Trying n _ \<Rightarrow> n = 0 | _ \<Rightarrow> True" for rq g d
  proof (cases "\<exists>n p. g = Trying n p")
    case True
    then show ?thesis by (auto simp: unanswered_step_def commit_unanswered_def never split: prod.split sum.split stage.split)
  next
    case False
    then have "unanswered_step operational sha rq g d = client_step operational sha rq (Some ConnectionLost) g d"
      by (auto simp: unanswered_step_def split: stage.split)
    then show ?thesis using one [OF that] by simp
  qed
  have moved: "list_all (\<lambda>c. case cl_stage c of Trying n _ \<Rightarrow> n = 0 | _ \<Rightarrow> True) (sy_clients (move_client step i y))"
    if all: "list_all (\<lambda>c. case cl_stage c of Trying n _ \<Rightarrow> n = 0 | _ \<Rightarrow> True) (sy_clients y)"
      and step: "\<And>rq g d. (case g of Trying n _ \<Rightarrow> n = 0 | _ \<Rightarrow> True) \<Longrightarrow> (case fst (step rq g d) of Trying n _ \<Rightarrow> n = 0 | _ \<Rightarrow> True)"
    for step i y
  proof (cases "i < length (sy_clients y)")
    case True
    let ?c = "sy_clients y ! i"
    obtain g' d' where made: "step (cl_request ?c) (cl_stage ?c) (sy_db y) = (g', d')" by fastforce
    have "case cl_stage ?c of Trying n _ \<Rightarrow> n = 0 | _ \<Rightarrow> True" using all True by (simp add: list_all_length)
    from step [OF this, of "cl_request ?c" "sy_db y"] have "case g' of Trying n _ \<Rightarrow> n = 0 | _ \<Rightarrow> True" by (simp add: made)
    then show ?thesis using all True by (auto simp: move_client_def made list_all_length nth_list_update)
  qed (use all in \<open>simp add: move_client_def\<close>)
  have "list_all (\<lambda>c. case cl_stage c of Trying n _ \<Rightarrow> n = 0 | _ \<Rightarrow> True) (sy_clients (happens operational sha h y))"
    if "list_all (\<lambda>c. case cl_stage c of Trying n _ \<Rightarrow> n = 0 | _ \<Rightarrow> True) (sy_clients y)" for h y
    using that moved [OF that, of "\<lambda>rq. client_step operational sha rq abort" for abort, OF one]
      moved [OF that, of "unanswered_step operational sha", OF silent]
    by (cases h) (auto simp: happens_def relay_passes_def Let_def)
  then have "list_all (\<lambda>c. case cl_stage c of Trying n _ \<Rightarrow> n = 0 | _ \<Rightarrow> True) (sy_clients (fold (happens operational sha) hs y))"
    if "list_all (\<lambda>c. case cl_stage c of Trying n _ \<Rightarrow> n = 0 | _ \<Rightarrow> True) (sy_clients y)" for y
    using that by (induction hs arbitrary: y) simp_all
  then have "list_all (\<lambda>c. case cl_stage c of Trying n _ \<Rightarrow> n = 0 | _ \<Rightarrow> True) (sy_clients (run_from operational sha hs d0))"
    by (simp add: run_from_def)
  then show ?thesis using assms by (auto simp: client_step_def after_failure_def)
qed

section \<open>From the sale to the stream\<close>

text \<open>A sale is announced when its event waits in the outbox or is in the log of the stream.\<close>

definition announced :: "nat \<Rightarrow> system \<Rightarrow> bool" where
  "announced i y \<longleftrightarrow> (\<exists>e\<in>set (sv_sales_events (sy_db y)). oe_relayed e = None \<and> oe_stream e = SALES_STREAM \<and> oe_type e = ''INSERT'' \<and> oe_entity e = nat_text i)
     \<or> (\<exists>m. (SALES_STREAM, m) \<in> set (sy_log y) \<and> me_type m = ''INSERT'' \<and> me_entity m = nat_text i)"

definition new_announced :: "shop_sale set \<Rightarrow> system \<Rightarrow> bool" where
  "new_announced old y \<longleftrightarrow> (\<forall>s\<in>set (sh_sales (sv_shop (sy_db y))). s \<in> old \<or> announced (sa_id s) y)"

text \<open>Every write of a sale leaves an event, unrelayed; nobody but the relay removes or marks one.\<close>

definition captures_sale :: "service_db \<Rightarrow> service_db \<Rightarrow> bool" where
  "captures_sale d d' \<longleftrightarrow>
    (sh_sales (sv_shop d') = sh_sales (sv_shop d) \<and> sv_sales_events d' = sv_sales_events d)
    \<or> (\<exists>s e. sh_sales (sv_shop d') = sh_sales (sv_shop d) @ [s] \<and> sv_sales_events d' = sv_sales_events d @ [e]
         \<and> oe_relayed e = None \<and> oe_stream e = SALES_STREAM \<and> oe_type e = ''INSERT'' \<and> oe_entity e = nat_text (sa_id s))"

lemma captures_nothing [simp]: "captures_sale d d"
  by (simp add: captures_sale_def)

lemma attempt_captures:
  assumes "service_wf d" and "attempt source rq w ls digest d = (Inr i, d')"
  shows "captures_sale d d'"
proof -
  obtain t date where "w = (t, date)" by fastforce
  then show ?thesis
    using attempt_effect(3) [of source rq t date ls digest d i d'] assms by (auto simp: captures_sale_def capture_event_def service_wf_def)
qed

lemma other_writer_captures: "captures_sale d (other_writer h d)"
  by (auto simp: captures_sale_def other_writer_def insert_header_def capture_event_def split: happening.split)

lemma new_announced_write:
  assumes "new_announced old y" and "captures_sale (sy_db y) (sy_db y')" and "sy_log y' = sy_log y"
  shows "new_announced old y'"
proof -
  have kept: "announced i y'" if "announced i y" for i
    using that assms(2,3) by (auto simp: announced_def captures_sale_def)
  from assms(2) show ?thesis
    unfolding captures_sale_def
  proof (elim disjE exE conjE)
    assume "sh_sales (sv_shop (sy_db y')) = sh_sales (sv_shop (sy_db y))"
    then show ?thesis using assms(1) kept by (auto simp: new_announced_def)
  next
    fix s e
    assume new: "sh_sales (sv_shop (sy_db y')) = sh_sales (sv_shop (sy_db y)) @ [s]" "sv_sales_events (sy_db y') = sv_sales_events (sy_db y) @ [e]"
      "oe_relayed e = None" "oe_stream e = SALES_STREAM" "oe_type e = ''INSERT''" "oe_entity e = nat_text (sa_id s)"
    then have "announced (sa_id s) y'" by (simp add: announced_def)
    then show ?thesis using assms(1) kept new(1) by (auto simp: new_announced_def)
  qed
qed

lemma pass_log:
  assumes "relay_once p r = (res, r')"
  shows "set (rl_log r) \<subseteq> set (rl_log r')"
proof -
  obtain sent ids failed where send: "send_rows (rl_streams r) (rp_refused p) (relay_rows (rp_locked p) (rl_outbox r)) = (sent, ids, failed)"
    by (metis prod_cases3)
  show ?thesis using assms by (auto simp: relay_once_def Let_def send split: if_splits)
qed

text \<open>What waits before a pass waits after it, or was added to the stream.\<close>

lemma pass_keeps_or_sends:
  assumes "relay_once p r = (res, r')" and ids: "distinct (map oe_id (rl_outbox r))" and x: "x \<in> set (rl_outbox r)" "oe_relayed x = None"
  shows "x \<in> set (rl_outbox r') \<or> message_of x \<in> set (rl_log r')"
proof -
  obtain sent ids failed where send: "send_rows (rl_streams r) (rp_refused p) (relay_rows (rp_locked p) (rl_outbox r)) = (sent, ids, failed)"
    by (metis prod_cases3)
  have log: "rl_log r' = rl_log r @ sent" using assms(1) by (auto simp: relay_once_def Let_def send split: if_splits)
  show ?thesis
  proof (cases "oe_id x \<in> set ids")
    case True
    from send_rows_sent(1) [OF send] obtain k where k: "sent = map message_of (take k (filter (\<lambda>e. oe_stream e \<in> set (rl_streams r)) (relay_rows (rp_locked p) (rl_outbox r))))"
      "ids = map oe_id (take k (filter (\<lambda>e. oe_stream e \<in> set (rl_streams r)) (relay_rows (rp_locked p) (rl_outbox r))))" by blast
    from True k(2) obtain z where z: "z \<in> set (take k (filter (\<lambda>e. oe_stream e \<in> set (rl_streams r)) (relay_rows (rp_locked p) (rl_outbox r))))" "oe_id x = oe_id z" by auto
    then have "z \<in> set (rl_outbox r)" by (auto dest!: in_set_takeD relay_rows_subset)
    moreover have "inj_on oe_id (set (rl_outbox r))" using assms(2) by (simp add: distinct_map)
    ultimately have "x = z" using x(1) z(2) by (auto dest: inj_onD)
    with z(1) show ?thesis unfolding log k(1) by simp
  next
    case False
    then have "x \<in> set (mark_relayed now ids (rl_outbox r))" for now using x(1) by (force simp: mark_relayed_def)
    moreover have "z \<in> set (purge_outbox now ob)" if "z \<in> set ob" "oe_relayed z = None" for z now ob
      using that by (simp add: purge_outbox_def)
    ultimately show ?thesis using assms(1) x by (auto simp: relay_once_def Let_def send split: if_splits)
  qed
qed

lemma new_announced_pass:
  assumes "service_wf (sy_db y)" and "new_announced old y"
  shows "new_announced old (relay_passes p y)"
proof -
  obtain res r' where pass: "relay_once p (relay_of y) = (res, r')" by fastforce
  have fields: "sv_shop (sy_db (relay_passes p y)) = sv_shop (sy_db y)" "sv_sales_events (sy_db (relay_passes p y)) = rl_outbox r'"
    "sy_log (relay_passes p y) = rl_log r'" by (simp_all add: relay_passes_def pass)
  have start: "rl_outbox (relay_of y) = sv_sales_events (sy_db y)" "rl_log (relay_of y) = sy_log y" by (simp_all add: relay_of_def)
  have ids: "distinct (map oe_id (rl_outbox (relay_of y)))" using assms(1) by (simp add: start service_wf_def)
  have "announced i (relay_passes p y)" if told: "announced i y" for i
  proof -
    from told consider e where "e \<in> set (sv_sales_events (sy_db y))" "oe_relayed e = None" "oe_stream e = SALES_STREAM" "oe_type e = ''INSERT''" "oe_entity e = nat_text i"
      | m where "(SALES_STREAM, m) \<in> set (sy_log y)" "me_type m = ''INSERT''" "me_entity m = nat_text i"
      unfolding announced_def by blast
    then show ?thesis
    proof cases
      case 1
      then have "message_of e = (SALES_STREAM, \<lparr>me_event = oe_id e, me_type = oe_type e, me_entity = oe_entity e, me_at = oe_at e\<rparr>)"
        by (simp add: message_of_def)
      moreover have "e \<in> set (rl_outbox r') \<or> message_of e \<in> set (rl_log r')"
        using pass_keeps_or_sends [OF pass ids, of e] 1(1,2) unfolding start by blast
      ultimately show ?thesis using 1 unfolding announced_def fields by auto
    next
      case 2
      then show ?thesis using pass_log [OF pass] unfolding start announced_def fields by blast
    qed
  qed
  then show ?thesis using assms(2) by (auto simp: new_announced_def fields)
qed

lemma new_announced_moves:
  assumes ok: "system_ok sha y" and new: "new_announced old y"
    and step: "\<And>rq g. \<exists>abort. \<forall>g' d'. step rq g (sy_db y) = (g', d') \<longrightarrow>
      client_step operational sha rq abort g (sy_db y) = (g', d') \<or> unanswered_step operational sha rq g (sy_db y) = (g', d')"
  shows "new_announced old (move_client step i y)"
proof (cases "i < length (sy_clients y)")
  case True
  let ?c = "sy_clients y ! i"
  obtain g' d' where one: "step (cl_request ?c) (cl_stage ?c) (sy_db y) = (g', d')" by fastforce
  have "stage_ok sha (sy_db y) (cl_request ?c) (cl_stage ?c)" using ok True by (simp add: system_ok_def)
  from steps_attempt [OF this] step [of "cl_request ?c" "cl_stage ?c"] one
  have "d' = sy_db y \<or> (\<exists>(p :: prepared) i. attempt (pr_source p) (cl_request ?c) (pr_when p) (pr_lines p) (pr_digest p) (sy_db y) = (Inr i, d'))" by blast
  then have "captures_sale (sy_db y) d'"
  proof (elim disjE exE)
    fix q j
    assume "attempt (pr_source q) (cl_request ?c) (pr_when q) (pr_lines q) (pr_digest q) (sy_db y) = (Inr j, d')"
    with ok show ?thesis by (intro attempt_captures) (simp_all add: system_ok_def)
  qed simp
  then show ?thesis by (intro new_announced_write [OF new]) (simp_all add: move_client_def True one)
qed (use new in \<open>simp add: move_client_def\<close>)

lemma new_announced_happens:
  assumes ok: "system_ok sha y" and new: "new_announced old y"
  shows "new_announced old (happens operational sha h y)"
proof (cases h)
  case (Steps i abort)
  show ?thesis unfolding happens_def Steps happening.case by (rule new_announced_moves [OF ok new]) blast
next
  case (Unanswered i)
  show ?thesis unfolding happens_def Unanswered happening.case by (rule new_announced_moves [OF ok new]) blast
next
  case (RelayPasses p)
  then show ?thesis using new_announced_pass [OF _ new] ok by (simp add: happens_def system_ok_def)
qed (auto simp: happens_def intro!: new_announced_write [OF new] other_writer_captures)

lemma relay_of_passes: "relay_of (fold (happens operational sha) (map RelayPasses ps) y) = fold (\<lambda>p r. snd (relay_once p r)) ps (relay_of y)"
proof (induction ps arbitrary: y)
  case (Cons p ps)
  have "rl_streams (snd (relay_once p (relay_of y))) = [SALES_STREAM]" by (simp add: relay_once_streams) (simp add: relay_of_def)
  moreover have "sv_sales_events (sy_db (relay_passes p y)) = rl_outbox (snd (relay_once p (relay_of y)))"
    "sy_log (relay_passes p y) = rl_log (snd (relay_once p (relay_of y)))"
    "sy_last_purge (relay_passes p y) = rl_last_purge (snd (relay_once p (relay_of y)))"
    by (simp_all add: relay_passes_def Let_def)
  ultimately have "relay_of (relay_passes p y) = snd (relay_once p (relay_of y))"
    by (intro relay.equality) (simp_all add: relay_of_def [of "relay_passes p y"])
  with Cons [of "relay_passes p y"] show ?case by (simp add: happens_def)
qed simp

text \<open>
  C26. A recorded sale is announced: in a database whose outbox holds anything, relayed or not or purged, whatever requests
  come and however their steps and those of the relay interleave and fail, a sale recorded since - by the service or by
  another writer of the sales - has left an event, and passes of the relay that meet no failure, as many as the outbox
  needs by then, put that event on the stream of sales, if it is not there already.
\<close>

theorem sale_reaches_the_stream:
  fixes hs :: "happening list" and operational :: "db_failure \<Rightarrow> bool"
  assumes "service_wf d" and "digests_ok sha d"
    and "s \<in> set (sh_sales (sv_shop (sy_db (run_from operational sha hs d)))) - set (sh_sales (sv_shop d))"
    and "list_all good_pass ps"
    and "length (filter (\<lambda>e. oe_relayed e = None) (sv_sales_events (sy_db (run_from operational sha hs d)))) \<le> 100 * length ps"
  shows "\<exists>m. (SALES_STREAM, m) \<in> set (sy_log (run_from operational sha (hs @ map RelayPasses ps) d))
    \<and> me_type m = ''INSERT'' \<and> me_entity m = nat_text (sa_id s)"
proof -
  let ?old = "set (sh_sales (sv_shop d))" and ?y = "run_from operational sha hs d"
  have kept: "system_ok sha (fold (happens operational sha) hs y) \<and> new_announced ?old (fold (happens operational sha) hs y)"
    if "system_ok sha y" "new_announced ?old y" for y
    using that by (induction hs arbitrary: y) (simp_all add: happens_ok new_announced_happens)
  have ok: "system_ok sha ?y" and new: "new_announced ?old ?y"
    using kept [of "\<lparr>sy_db = d, sy_clients = [], sy_log = [], sy_last_purge = None\<rparr>"] assms(1,2)
    by (simp_all add: run_from_def system_ok_def new_announced_def)
  from ok have wf: "service_wf (sy_db ?y)" by (simp add: system_ok_def)
  have waiting: "waiting (relay_of ?y) = filter (\<lambda>e. oe_relayed e = None) (sv_sales_events (sy_db ?y))" by (simp add: waiting_def relay_of_def)
  have log: "sy_log (run_from operational sha (hs @ map RelayPasses ps) d)
      = sy_log ?y @ map message_of (sort_key oe_at (filter (\<lambda>e. oe_relayed e = None) (sv_sales_events (sy_db ?y))))"
  proof -
    have "\<forall>e\<in>set (sv_sales_events (sy_db ?y)). oe_stream e = SALES_STREAM" "distinct (map oe_id (sv_sales_events (sy_db ?y)))"
      using wf by (simp_all add: service_wf_def)
    then have "oe_stream ` set (waiting (relay_of ?y)) \<subseteq> set (rl_streams (relay_of ?y))" "distinct (map oe_id (rl_outbox (relay_of ?y)))"
      unfolding waiting by (auto simp: relay_of_def)
    from delivered_in_order [OF assms(4) this] assms(5)
    have "rl_log (relay_of (fold (happens operational sha) (map RelayPasses ps) ?y)) = rl_log (relay_of ?y) @ map message_of (sort_key oe_at (waiting (relay_of ?y)))"
      by (simp add: relay_of_passes waiting)
    then show ?thesis unfolding waiting by (simp add: relay_of_def run_from_def)
  qed
  from new assms(3) have "announced (sa_id s) ?y" by (auto simp: new_announced_def)
  then show ?thesis
    unfolding announced_def
  proof (elim disjE bexE exE conjE)
    fix e
    assume e: "e \<in> set (sv_sales_events (sy_db ?y))" "oe_relayed e = None" "oe_stream e = SALES_STREAM" "oe_type e = ''INSERT''" "oe_entity e = nat_text (sa_id s)"
    then have "message_of e \<in> set (sy_log (run_from operational sha (hs @ map RelayPasses ps) d))" unfolding log by auto
    moreover have "message_of e = (SALES_STREAM, \<lparr>me_event = oe_id e, me_type = oe_type e, me_entity = oe_entity e, me_at = oe_at e\<rparr>)"
      using e(3) by (simp add: message_of_def)
    ultimately show ?thesis using e(4,5) by auto
  next
    fix m
    assume "(SALES_STREAM, m) \<in> set (sy_log ?y)" "me_type m = ''INSERT''" "me_entity m = nat_text (sa_id s)"
    then show ?thesis unfolding log by auto
  qed
qed

section \<open>Examples\<close>

definition example_service :: service_db where
  "example_service = \<lparr>sv_shop = example_shop\<lparr>sh_sales := [], sh_stock := [\<lparr>sk_store = 1, sk_product = 1, sk_quantity = 5\<rparr>]\<rparr>,
     sv_users = [''clerk''], sv_captures = [], sv_sales_events = [], sv_stock_events = [], sv_next_sale = 1, sv_next_event = 1, sv_clock = 2000\<rparr>"

definition example_request :: sale_request where
  "example_request = \<lparr>rq_key = Some 7, rq_sub = ''clerk'', rq_customer = 1, rq_store = 1, rq_channel = 1, rq_occurred = Instant 1500 1,
     rq_lines = [\<lparr>ql_product = 1, ql_quantity = Whole 2, ql_price = ''0.5''\<rparr>]\<rparr>"

definition lines_digest :: "canonical_sale \<Rightarrow> nat" where
  "lines_digest c = length (cn_lines c)"

definition psycopg_operational :: "db_failure \<Rightarrow> bool" where
  "psycopg_operational e \<longleftrightarrow> e = DeadlockDetected \<or> e = SerializationFailure \<or> e = ConnectionLost"

definition duplicate_run :: "happening list" where
  "duplicate_run = [Arrives example_request, Arrives example_request, Steps 0 None, Steps 1 None, TimePasses 1, Steps 0 None, Steps 1 None, Steps 1 None, Steps 0 None]"

definition after_duplicates :: system where
  "after_duplicates = run_from psycopg_operational lines_digest duplicate_run example_service"

lemma example_service_ok: "service_wf example_service" "digests_ok lines_digest example_service"
  by (simp_all add: example_service_def service_wf_def digests_ok_def stock_ok_def)

lemma after_duplicates_run:
  "map (\<lambda>c. case cl_stage c of Answered (Accepted again sale) \<Rightarrow> Some (again, sa_id sale) | _ \<Rightarrow> None) (sy_clients after_duplicates) = [Some (False, 1), Some (True, 1)]
    \<and> map sk_quantity (sh_stock (sv_shop (sy_db after_duplicates))) = [3]
    \<and> map sa_id (filter phone_sale (sh_sales (sv_shop (sy_db after_duplicates)))) = [1] \<and> length (sv_sales_events (sy_db after_duplicates)) = 1"
  by code_simp

theorem sale_happens_once_witness:
  "map (\<lambda>c. case cl_stage c of Answered (Accepted again sale) \<Rightarrow> Some (again, sa_id sale) | _ \<Rightarrow> None) (sy_clients after_duplicates) = [Some (False, 1), Some (True, 1)]
    \<and> service_wf (sy_db after_duplicates)"
  using sale_happens_once [OF example_service_ok, of psycopg_operational duplicate_run] after_duplicates_run unfolding after_duplicates_def by blast

theorem stock_is_conserved_witness:
  "map sk_quantity (sh_stock (sv_shop (sy_db after_duplicates))) = [3]
    \<and> on_hand (sh_stock (sv_shop (sy_db after_duplicates))) 1 1 + phone_units (sh_sales (sv_shop (sy_db after_duplicates))) 1 1 = 5"
proof -
  have "list_all (\<lambda>h. case h of Restocked _ _ _ \<Rightarrow> False | _ \<Rightarrow> True) duplicate_run" by (simp add: duplicate_run_def)
  from stock_is_conserved [OF example_service_ok this, of psycopg_operational 1 1] after_duplicates_run show ?thesis
    unfolding after_duplicates_def by (simp add: example_service_def on_hand_def phone_units_def)
qed

theorem aborted_sale_is_not_retried_witness:
  "client_step psycopg_operational lines_digest example_request (Some SerializationFailure)
      (Trying 0 \<lparr>pr_source = source_id 7, pr_when = (1500, 1), pr_lines = [\<lparr>li_product = 1, li_quantity = 2, li_price = 50\<rparr>], pr_digest = 1\<rparr>) example_service
    = (Answered (RefusedWith DatabaseUnavailable), example_service)"
  using aborted_sale_is_not_retried [of psycopg_operational SerializationFailure] by (simp add: psycopg_operational_def)

text \<open>A clerk's sale in a database whose earlier sale was announced, and its event relayed; the first pass for it fails.\<close>

definition example_later_service :: service_db where
  "example_later_service = example_service\<lparr>sv_shop := (sv_shop example_service)\<lparr>sh_sales :=
       [\<lparr>sa_id = 1, sa_source = source_id 3, sa_customer = 1, sa_store = 1, sa_channel = 1, sa_at = 1400, sa_total = 50, sa_origin = ''OBSERVED'',
         sa_lines = [\<lparr>li_product = 1, li_quantity = 1, li_price = 50\<rparr>]\<rparr>]\<rparr>,
     sv_captures := [\<lparr>kc_sale = 1, kc_digest = 1, kc_by = ''clerk''\<rparr>],
     sv_sales_events := [\<lparr>oe_id = 1, oe_stream = SALES_STREAM, oe_type = ''INSERT'', oe_entity = ''1'', oe_at = 1400, oe_relayed = Some 1500\<rparr>],
     sv_next_sale := 2, sv_next_event := 2\<rparr>"

lemma example_later_service_ok: "service_wf example_later_service" "digests_ok lines_digest example_later_service"
proof -
  have "filter phone_sale (sh_sales (sv_shop example_later_service)) = sh_sales (sv_shop example_later_service)"
    by (simp add: example_later_service_def phone_sale_def)
  then have "{s \<in> set (sh_sales (sv_shop example_later_service)). phone_sale s} = set (sh_sales (sv_shop example_later_service))"
    by (metis set_filter)
  then show "service_wf example_later_service"
    unfolding service_wf_def by (simp add: example_later_service_def example_service_def stock_ok_def lines_total_def)
  show "digests_ok lines_digest example_later_service"
    by (simp add: example_later_service_def digests_ok_def lines_digest_def canonical_of_def)
qed

definition unanswered_run :: "happening list" where
  "unanswered_run = [Arrives example_request, Steps 0 None, Unanswered 0, RelayPasses ((example_pass True)\<lparr>rp_commits := False\<rparr>)]"

definition after_unanswered :: system where
  "after_unanswered = run_from psycopg_operational lines_digest unanswered_run example_later_service"

lemma after_unanswered_run:
  "map cl_stage (sy_clients after_unanswered) = [Answered (RefusedWith DatabaseUnavailable)]
    \<and> map sa_id (sh_sales (sv_shop (sy_db after_unanswered))) = [1, 2]
    \<and> map (\<lambda>e. oe_relayed e = None) (sv_sales_events (sy_db after_unanswered)) = [False, True]"
  by code_simp

theorem sale_reaches_the_stream_witness:
  "map cl_stage (sy_clients after_unanswered) = [Answered (RefusedWith DatabaseUnavailable)]
    \<and> (\<exists>m. (SALES_STREAM, m) \<in> set (sy_log (run_from psycopg_operational lines_digest (unanswered_run @ map RelayPasses [example_pass False]) example_later_service))
         \<and> me_type m = ''INSERT'' \<and> me_entity m = ''2'')"
proof -
  note ran = after_unanswered_run [unfolded after_unanswered_def]
  let ?y = "run_from psycopg_operational lines_digest unanswered_run example_later_service"
  have "2 \<in> sa_id ` set (sh_sales (sv_shop (sy_db ?y)))" using ran by (metis list.set_intros(1,2) list.set_map)
  then obtain s where recorded: "2 = sa_id s" "s \<in> set (sh_sales (sv_shop (sy_db ?y)))" by (rule imageE)
  then have "s \<notin> set (sh_sales (sv_shop example_later_service))" by (auto simp: example_later_service_def)
  with recorded have s: "s \<in> set (sh_sales (sv_shop (sy_db ?y))) - set (sh_sales (sv_shop example_later_service))" "sa_id s = 2" by simp_all
  have good: "list_all good_pass [example_pass False]" by (simp add: good_pass_def example_pass_def)
  have "length (filter (\<lambda>e. oe_relayed e = None) (sv_sales_events (sy_db ?y))) \<le> length (sv_sales_events (sy_db ?y))" by simp
  also have "\<dots> = 2" using ran by (metis length_map length_Cons list.size(3) numeral_2_eq_2)
  finally have room: "length (filter (\<lambda>e. oe_relayed e = None) (sv_sales_events (sy_db ?y))) \<le> 100 * length [example_pass False]" by simp
  have text_of: "nat_text 2 = ''2''" by (simp add: nat_text.simps)
  from sale_reaches_the_stream [OF example_later_service_ok s(1) good room] show ?thesis
    using after_unanswered_run unfolding s(2) text_of by blast
qed

end
