(* ===== verification/Csv_Files.thy ===== *)
theory Csv_Files
  imports Parsing
begin

text \<open>
  The \<open>csv\<close> module of the standard library as the program uses it, with its default dialect: the reader of
  \<open>web/services/sales_csv.py\<close> over a file opened with \<open>newline=""\<close>, and the writer of the report that
  \<open>web/routes/sales_import.py\<close> offers for download. What is written is read back, whatever the fields contain.
\<close>

abbreviation LF :: char where "LF \<equiv> CHR 0x0A"
abbreviation CR :: char where "CR \<equiv> CHR 0x0D"
abbreviation QUOTE :: char where "QUOTE \<equiv> CHR 0x22"
abbreviation COMMA :: char where "COMMA \<equiv> CHR '',''"

section \<open>The reader\<close>

datatype reader_state = StartRecord | StartField | InField | InQuoted | QuoteInQuoted | EatNewline

record reader =
  rd_state :: reader_state
  rd_field :: string
  rd_fields :: "string list"

datatype csv_error = FieldTooLong | StrayNewline

definition FIELD_LIMIT :: nat where "FIELD_LIMIT = 131072"

definition new_record :: reader where
  "new_record = \<lparr>rd_state = StartRecord, rd_field = [], rd_fields = []\<rparr>"

definition add_char :: "char \<Rightarrow> reader_state \<Rightarrow> reader \<Rightarrow> csv_error + reader" where
  "add_char c g r = (if FIELD_LIMIT \<le> length (rd_field r) then Inl FieldTooLong else Inr (r\<lparr>rd_field := rd_field r @ [c], rd_state := g\<rparr>))"

definition save_field :: "reader_state \<Rightarrow> reader \<Rightarrow> reader" where
  "save_field g r = \<lparr>rd_state = g, rd_field = [], rd_fields = rd_fields r @ [rd_field r]\<rparr>"

definition newline :: "char \<Rightarrow> bool" where
  "newline c \<longleftrightarrow> c = LF \<or> c = CR"

text \<open>A character of a line.\<close>

definition read_char :: "char \<Rightarrow> reader \<Rightarrow> csv_error + reader" where
  "read_char c r =
    (case rd_state r of
       InField \<Rightarrow> if newline c then Inr (save_field EatNewline r) else if c = COMMA then Inr (save_field StartField r) else add_char c InField r
     | InQuoted \<Rightarrow> if c = QUOTE then Inr (r\<lparr>rd_state := QuoteInQuoted\<rparr>) else add_char c InQuoted r
     | QuoteInQuoted \<Rightarrow>
         if c = QUOTE then add_char c InQuoted r
         else if c = COMMA then Inr (save_field StartField r)
         else if newline c then Inr (save_field EatNewline r)
         else add_char c InField r
     | EatNewline \<Rightarrow> if newline c then Inr r else Inl StrayNewline
     | _ \<Rightarrow>
         if newline c then Inr (if rd_state r = StartRecord then r\<lparr>rd_state := EatNewline\<rparr> else save_field EatNewline r)
         else if c = QUOTE then Inr (r\<lparr>rd_state := InQuoted\<rparr>)
         else if c = COMMA then Inr (save_field StartField r)
         else add_char c InField r)"

text \<open>The end of a line. An unfinished quotation goes on in the next.\<close>

definition end_line :: "reader \<Rightarrow> reader" where
  "end_line r =
    (case rd_state r of
       InQuoted \<Rightarrow> r
     | StartRecord \<Rightarrow> r
     | EatNewline \<Rightarrow> r\<lparr>rd_state := StartRecord\<rparr>
     | _ \<Rightarrow> save_field StartRecord r)"

text \<open>The end of the file: a quotation left open is a field all the same.\<close>

definition end_file :: "reader \<Rightarrow> string list list" where
  "end_file r = (if rd_field r \<noteq> [] \<or> rd_state r = InQuoted then [rd_fields r @ [rd_field r]] else [])"

text \<open>A line ends after a line feed, and after a carriage return that no line feed follows.\<close>

definition ends_line :: "char \<Rightarrow> string \<Rightarrow> bool" where
  "ends_line c s \<longleftrightarrow> c = LF \<or> c = CR \<and> (case s of [] \<Rightarrow> True | d # _ \<Rightarrow> d \<noteq> LF)"

definition finish_line :: "reader \<Rightarrow> string list list \<times> reader" where
  "finish_line r = (let r' = end_line r in if rd_state r' = StartRecord then ([rd_fields r'], new_record) else ([], r'))"

text \<open>The records of a file, or the error and the number of the line it is in; \<open>mid\<close> says that the line has begun.\<close>

fun read_text :: "nat \<Rightarrow> bool \<Rightarrow> reader \<Rightarrow> string \<Rightarrow> (nat \<times> csv_error) + string list list" where
  "read_text n mid r [] = Inr (if mid then (case finish_line r of (records, r') \<Rightarrow> records @ end_file r') else end_file r)"
| "read_text n mid r (c # s) =
    (let n' = (if mid then n else Suc n)
     in case read_char c r of
         Inl e \<Rightarrow> Inl (n', e)
       | Inr r1 \<Rightarrow>
           if ends_line c s
           then (case finish_line r1 of (records, r2) \<Rightarrow>
              (case read_text n' False r2 s of Inl e \<Rightarrow> Inl e | Inr rest \<Rightarrow> Inr (records @ rest)))
           else read_text n' True r1 s)"

definition read_csv :: "string \<Rightarrow> (nat \<times> csv_error) + string list list" where
  "read_csv s = read_text 0 False new_record s"

section \<open>The writer\<close>

definition needs_quotes :: "string \<Rightarrow> bool" where
  "needs_quotes f \<longleftrightarrow> list_ex (\<lambda>c. c = COMMA \<or> c = QUOTE \<or> newline c) f"

definition quoted_field :: "string \<Rightarrow> string" where
  "quoted_field f = QUOTE # concat (map (\<lambda>c. if c = QUOTE then [QUOTE, QUOTE] else [c]) f) @ [QUOTE]"

definition write_field :: "string \<Rightarrow> string" where
  "write_field f = (if needs_quotes f then quoted_field f else f)"

text \<open>A record; the only field of one is quoted when it is empty.\<close>

definition write_record :: "string list \<Rightarrow> string" where
  "write_record fs =
    (if fs = [[]] then [QUOTE, QUOTE]
     else case map write_field fs of [] \<Rightarrow> [] | w # ws \<Rightarrow> w @ concat (map (\<lambda>w. COMMA # w) ws)) @ [CR, LF]"

definition write_csv :: "string list list \<Rightarrow> string" where
  "write_csv records = concat (map write_record records)"

section \<open>What is written is read\<close>

text \<open>\<open>reads r s R\<close>: from \<open>r\<close>, wherever in its line, the text \<open>s\<close> gives the records \<open>R\<close>.\<close>

definition reads :: "reader \<Rightarrow> string \<Rightarrow> string list list \<Rightarrow> bool" where
  "reads r s R \<longleftrightarrow> (\<forall>n mid. (rd_state r = StartRecord \<longrightarrow> \<not> mid) \<longrightarrow> read_text n mid r s = Inr R)"

lemma read_char_state: "read_char c r = Inr r1 \<Longrightarrow> rd_state r1 \<noteq> StartRecord"
  by (auto simp: read_char_def add_char_def save_field_def split: reader_state.splits if_splits)

lemma reads_char:
  assumes "read_char c r = Inr r1" and "\<not> newline c" and "reads r1 s R"
  shows "reads r (c # s) R"
  using assms read_char_state [OF assms(1)] by (simp add: reads_def newline_def ends_line_def)

text \<open>Inside a quotation the end of a line changes nothing.\<close>

lemma reads_quoted_char:
  assumes "rd_state r = InQuoted" and "c \<noteq> QUOTE" and "length (rd_field r) < FIELD_LIMIT" and "reads (r\<lparr>rd_field := rd_field r @ [c]\<rparr>) s R"
  shows "reads r (c # s) R"
proof -
  have "read_char c r = Inr (r\<lparr>rd_field := rd_field r @ [c]\<rparr>)" using assms(1-3) by (simp add: read_char_def add_char_def)
  then show ?thesis using assms(1,4) by (simp add: reads_def finish_line_def end_line_def)
qed

lemma reads_quoted:
  assumes "rd_state r = InQuoted" and "length (rd_field r @ f) \<le> FIELD_LIMIT" and "reads (r\<lparr>rd_field := rd_field r @ f, rd_state := QuoteInQuoted\<rparr>) s R"
  shows "reads r (concat (map (\<lambda>c. if c = QUOTE then [QUOTE, QUOTE] else [c]) f) @ QUOTE # s) R"
  using assms
proof (induction f arbitrary: r)
  case Nil
  then show ?case using reads_char [of QUOTE r "r\<lparr>rd_state := QuoteInQuoted\<rparr>" s R] by (simp add: read_char_def newline_def)
next
  case (Cons c f)
  let ?r = "r\<lparr>rd_field := rd_field r @ [c]\<rparr>"
  have rest: "reads ?r (concat (map (\<lambda>c. if c = QUOTE then [QUOTE, QUOTE] else [c]) f) @ QUOTE # s) R"
    by (rule Cons.IH) (use Cons.prems in simp_all)
  have room: "length (rd_field r) < FIELD_LIMIT" using Cons.prems(2) by simp
  show ?case
  proof (cases "c = QUOTE")
    case True
    let ?q = "r\<lparr>rd_state := QuoteInQuoted\<rparr>"
    have "?r = ?q\<lparr>rd_field := rd_field r @ [QUOTE], rd_state := InQuoted\<rparr>" using Cons.prems(1) True by simp
    then have second: "read_char QUOTE ?q = Inr ?r" using room by (simp add: read_char_def add_char_def)
    have "read_char QUOTE r = Inr ?q" using Cons.prems(1) by (simp add: read_char_def)
    moreover have "\<not> newline QUOTE" by (simp add: newline_def)
    ultimately have "reads r (QUOTE # QUOTE # concat (map (\<lambda>c. if c = QUOTE then [QUOTE, QUOTE] else [c]) f) @ QUOTE # s) R"
      using reads_char second rest by meson
    then show ?thesis by (simp add: True)
  next
    case False
    then show ?thesis using reads_quoted_char [OF Cons.prems(1) False room rest] by simp
  qed
qed

lemma reads_plain:
  assumes "rd_state r = InField" and "length (rd_field r @ f) \<le> FIELD_LIMIT" and "\<not> needs_quotes f" and "reads (r\<lparr>rd_field := rd_field r @ f\<rparr>) s R"
  shows "reads r (f @ s) R"
  using assms
proof (induction f arbitrary: r)
  case (Cons c f)
  let ?r = "r\<lparr>rd_field := rd_field r @ [c]\<rparr>"
  have "reads ?r (f @ s) R" by (rule Cons.IH) (use Cons.prems in \<open>simp_all add: needs_quotes_def\<close>)
  moreover have "read_char c r = Inr ?r" "\<not> newline c"
    using Cons.prems by (auto simp: read_char_def add_char_def needs_quotes_def)
  ultimately show ?case using reads_char [of c r ?r "f @ s" R] by simp
qed simp

text \<open>A field that was written, from where a field begins.\<close>

lemma reads_quoted_field:
  assumes "rd_state r = StartRecord \<or> rd_state r = StartField" and "rd_field r = []" and "length f \<le> FIELD_LIMIT"
    and "reads (r\<lparr>rd_field := f, rd_state := QuoteInQuoted\<rparr>) s R"
  shows "reads r (quoted_field f @ s) R"
proof -
  let ?q = "r\<lparr>rd_state := InQuoted\<rparr>"
  have "reads ?q (concat (map (\<lambda>c. if c = QUOTE then [QUOTE, QUOTE] else [c]) f) @ QUOTE # s) R"
    by (rule reads_quoted) (use assms in simp_all)
  moreover have "read_char QUOTE r = Inr ?q" using assms(1) by (auto simp: read_char_def newline_def)
  ultimately show ?thesis using reads_char [of QUOTE r ?q] by (simp add: quoted_field_def newline_def)
qed

lemma reads_field:
  assumes "rd_state r = StartRecord \<or> rd_state r = StartField" and "rd_field r = []" and "length f \<le> FIELD_LIMIT"
    and "\<And>g. g = InField \<or> g = QuoteInQuoted \<or> (f = [] \<and> g = rd_state r) \<Longrightarrow> reads (r\<lparr>rd_field := f, rd_state := g\<rparr>) s R"
  shows "reads r (write_field f @ s) R"
proof (cases "needs_quotes f")
  case True
  then show ?thesis using reads_quoted_field [OF assms(1-3)] assms(4) by (simp add: write_field_def)
next
  case False
  show ?thesis
  proof (cases f)
    case Nil
    have "r\<lparr>rd_field := f, rd_state := rd_state r\<rparr> = r" using Nil assms(2) by simp
    then show ?thesis using assms(4) [of "rd_state r"] Nil by (simp add: write_field_def needs_quotes_def)
  next
    case (Cons c cs)
    let ?r = "r\<lparr>rd_field := [c], rd_state := InField\<rparr>"
    have "?r\<lparr>rd_field := rd_field ?r @ cs\<rparr> = r\<lparr>rd_field := f, rd_state := InField\<rparr>" by (simp add: Cons)
    then have "reads (?r\<lparr>rd_field := rd_field ?r @ cs\<rparr>) s R" using assms(4) [of InField] by simp
    then have "reads ?r (cs @ s) R"
      by (intro reads_plain) (use assms(3) False Cons in \<open>simp_all add: needs_quotes_def\<close>)
    moreover have "read_char c r = Inr ?r" "\<not> newline c"
      using assms(1-3) False Cons by (auto simp: read_char_def add_char_def needs_quotes_def FIELD_LIMIT_def)
    ultimately show ?thesis using reads_char [of c r ?r "cs @ s" R] False by (simp add: write_field_def Cons)
  qed
qed

lemma reads_comma:
  assumes "rd_state r = InField \<or> rd_state r = QuoteInQuoted \<or> rd_state r = StartField \<or> rd_state r = StartRecord" and "reads (save_field StartField r) s R"
  shows "reads r (COMMA # s) R"
  by (rule reads_char [OF _ _ assms(2)]) (use assms(1) in \<open>auto simp: read_char_def newline_def\<close>)

lemma reads_newline:
  assumes "rd_state r = InField \<or> rd_state r = QuoteInQuoted \<or> rd_state r = StartField" and "reads new_record s R"
  shows "reads r (CR # LF # s) ((rd_fields r @ [rd_field r]) # R)"
proof -
  have "read_char CR r = Inr (save_field EatNewline r)" using assms(1) by (auto simp: read_char_def newline_def)
  moreover have "read_char LF (save_field EatNewline r) = Inr (save_field EatNewline r)" by (simp add: read_char_def newline_def save_field_def)
  moreover have "finish_line (save_field EatNewline r) = ([rd_fields r @ [rd_field r]], new_record)" by (simp add: finish_line_def end_line_def save_field_def)
  ultimately show ?thesis using assms(2) by (simp add: reads_def ends_line_def)
qed

lemma reads_fields:
  assumes "rd_state r = StartField" and "rd_field r = []" and "list_all (\<lambda>f. length f \<le> FIELD_LIMIT) (f # fs)" and "reads new_record s R"
  shows "reads r (write_field f @ concat (map (\<lambda>w. COMMA # w) (map write_field fs)) @ CR # LF # s) ((rd_fields r @ f # fs) # R)"
  using assms(1-3)
proof (induction fs arbitrary: r f)
  case Nil
  have "reads (r\<lparr>rd_field := f, rd_state := g\<rparr>) (CR # LF # s) ((rd_fields r @ [f]) # R)" if "g = InField \<or> g = QuoteInQuoted \<or> (f = [] \<and> g = rd_state r)" for g
    using reads_newline [of "r\<lparr>rd_field := f, rd_state := g\<rparr>", OF _ assms(4)] that Nil.prems(1) by auto
  then show ?case using reads_field [of r f] Nil.prems by simp
next
  case (Cons h fs)
  have "reads (r\<lparr>rd_field := f, rd_state := g\<rparr>) (COMMA # write_field h @ concat (map (\<lambda>w. COMMA # w) (map write_field fs)) @ CR # LF # s) ((rd_fields r @ f # h # fs) # R)"
    if "g = InField \<or> g = QuoteInQuoted \<or> (f = [] \<and> g = rd_state r)" for g
  proof (rule reads_comma)
    show "reads (save_field StartField (r\<lparr>rd_field := f, rd_state := g\<rparr>)) (write_field h @ concat (map (\<lambda>w. COMMA # w) (map write_field fs)) @ CR # LF # s)
        ((rd_fields r @ f # h # fs) # R)"
      using Cons.IH [of "save_field StartField (r\<lparr>rd_field := f, rd_state := g\<rparr>)" h] Cons.prems(3) by (simp add: save_field_def)
  qed (use that Cons.prems(1) in auto)
  then show ?case using reads_field [of r f] Cons.prems by simp
qed

lemma reads_record:
  assumes "list_all (\<lambda>f. length f \<le> FIELD_LIMIT) fs" and "reads new_record s R"
  shows "reads new_record (write_record fs @ s) (fs # R)"
proof -
  consider "fs = []" | "fs = [[]]" | f where "fs = [f]" "f \<noteq> []" | f h gs where "fs = f # h # gs"
    by (cases fs; cases "tl fs"; cases "hd fs") auto
  then show ?thesis
  proof cases
    case 1
    have "read_char CR new_record = Inr (new_record\<lparr>rd_state := EatNewline\<rparr>)" "read_char LF (new_record\<lparr>rd_state := EatNewline\<rparr>) = Inr (new_record\<lparr>rd_state := EatNewline\<rparr>)"
      "finish_line (new_record\<lparr>rd_state := EatNewline\<rparr>) = ([[]], new_record)"
      by (simp_all add: read_char_def new_record_def newline_def finish_line_def end_line_def)
    then show ?thesis using assms(2) 1 by (simp add: reads_def write_record_def ends_line_def)
  next
    case 2
    have "reads (new_record\<lparr>rd_field := [], rd_state := QuoteInQuoted\<rparr>) (CR # LF # s) ([[]] # R)"
      using reads_newline [of "new_record\<lparr>rd_field := [], rd_state := QuoteInQuoted\<rparr>", OF _ assms(2)] by (simp add: new_record_def)
    then have "reads new_record (quoted_field [] @ CR # LF # s) ([[]] # R)"
      using reads_quoted_field [of new_record "[]"] by (simp add: new_record_def FIELD_LIMIT_def)
    then show ?thesis by (simp add: 2 write_record_def quoted_field_def)
  next
    case (3 f)
    have "reads (new_record\<lparr>rd_field := f, rd_state := g\<rparr>) (CR # LF # s) ([f] # R)" if "g = InField \<or> g = QuoteInQuoted \<or> (f = [] \<and> g = rd_state new_record)" for g
      using reads_newline [of "new_record\<lparr>rd_field := f, rd_state := g\<rparr>", OF _ assms(2)] that 3(2) by (auto simp: new_record_def)
    then have "reads new_record (write_field f @ CR # LF # s) ([f] # R)"
      using reads_field [of new_record f] assms(1) 3(1) by (simp add: new_record_def)
    then show ?thesis using 3 by (simp add: write_record_def)
  next
    case (4 f h gs)
    have "reads (new_record\<lparr>rd_field := f, rd_state := g\<rparr>) (COMMA # write_field h @ concat (map (\<lambda>w. COMMA # w) (map write_field gs)) @ CR # LF # s) ((f # h # gs) # R)"
      if "g = InField \<or> g = QuoteInQuoted \<or> (f = [] \<and> g = rd_state new_record)" for g
    proof (rule reads_comma)
      show "reads (save_field StartField (new_record\<lparr>rd_field := f, rd_state := g\<rparr>)) (write_field h @ concat (map (\<lambda>w. COMMA # w) (map write_field gs)) @ CR # LF # s)
          ((f # h # gs) # R)"
        using reads_fields [of "save_field StartField (new_record\<lparr>rd_field := f, rd_state := g\<rparr>)" h gs, OF _ _ _ assms(2)] assms(1) 4
        by (simp add: save_field_def new_record_def)
    qed (use that in \<open>auto simp: new_record_def\<close>)
    then have "reads new_record (write_field f @ COMMA # write_field h @ concat (map (\<lambda>w. COMMA # w) (map write_field gs)) @ CR # LF # s) ((f # h # gs) # R)"
      using reads_field [of new_record f] assms(1) 4 by (simp add: new_record_def)
    then show ?thesis by (simp add: 4 write_record_def)
  qed
qed

theorem written_is_read:
  assumes "list_all (list_all (\<lambda>f. length f \<le> FIELD_LIMIT)) records"
  shows "read_csv (write_csv records) = Inr records"
proof -
  have "reads new_record (write_csv records) records"
    using assms
  proof (induction records)
    case Nil
    then show ?case by (simp add: write_csv_def reads_def finish_line_def end_line_def new_record_def end_file_def)
  next
    case (Cons fs records)
    then show ?case using reads_record [of fs "write_csv records"] by (simp add: write_csv_def)
  qed
  then show ?thesis by (simp add: read_csv_def reads_def)
qed

end
