(* ===== verification/Sales_Import.thy ===== *)
theory Sales_Import
  imports Sale_Service Csv_Files Notifications
begin

text \<open>
  The row-level ingestion of sales, \<open>web/services/ingestion.py\<close> over \<open>web/db/sales.py\<close> and \<open>decrement_stock\<close> of
  \<open>web/db/inventory.py\<close>: the checks of a row, its header, its line, the stock it takes and the total. PostgreSQL's reading of a
  UUID is a parameter, and a row is one step of the database: the loss of a race for a new header is not modelled. Money
  is in cents. The lemmas say when a row passes, what one that passes does, and that a row once refused or accepted is
  refused from then on.
\<close>

section \<open>Rows\<close>

record sales_row =
  sr_source :: string
  sr_customer :: string
  sr_store :: int
  sr_channel :: int
  sr_at :: timestamp_text
  sr_product :: int
  sr_quantity :: int
  sr_price :: decimal

datatype rejection =
    ExtraColumns
  | MissingColumns
  | MalformedColumn string string
  | OffsetMissing
  | SourceRequired
  | SourceIsFormula
  | RowNaive
  | RowInFuture
  | RowQuantityNotPositive
  | PriceNotFinite
  | PriceNotPositive
  | PriceNotCents
  | MalformedRow string
  | RowUnknownCustomer
  | RowBeforeRegistration
  | RowUnknownProduct
  | RowInactiveProduct
  | UnknownReference string
  | SeededHeader string
  | HeaderDisagrees string
  | DuplicateLine string int
  | NoInventory int int
  | InsufficientStock int int int

text \<open>What a row ends in besides: errors that nothing here catches.\<close>

datatype row_failure = Rejects rejection | NulInSource | HeaderTotalOverflow

definition int_text :: "int \<Rightarrow> string" where
  "int_text i = (if i < 0 then ''-'' @ nat_text (nat (- i)) else nat_text (nat i))"

definition reason_text :: "rejection \<Rightarrow> string" where
  "reason_text x = (case x of
     ExtraColumns \<Rightarrow> ''row has more columns than the header''
   | MissingColumns \<Rightarrow> ''row has fewer columns than the header''
   | MalformedColumn name expected \<Rightarrow> ''malformed row: '' @ name @ '' must be '' @ expected
   | OffsetMissing \<Rightarrow> ''malformed row: occurred_at must include a UTC offset''
   | SourceRequired \<Rightarrow> ''source transaction id is required''
   | SourceIsFormula \<Rightarrow> ''source transaction id cannot be a spreadsheet formula''
   | RowNaive \<Rightarrow> ''occurred_at must include a UTC offset''
   | RowInFuture \<Rightarrow> ''occurred_at cannot be in the future''
   | RowQuantityNotPositive \<Rightarrow> ''quantity must be positive''
   | PriceNotFinite \<Rightarrow> ''unit price must be a finite number''
   | PriceNotPositive \<Rightarrow> ''unit price must be positive''
   | PriceNotCents \<Rightarrow> ''unit price must have at most 2 decimal places''
   | MalformedRow reason \<Rightarrow> ''malformed row: '' @ reason
   | RowUnknownCustomer \<Rightarrow> ''unknown customer''
   | RowBeforeRegistration \<Rightarrow> ''sale occurred before customer registration''
   | RowUnknownProduct \<Rightarrow> ''unknown product''
   | RowInactiveProduct \<Rightarrow> ''product is inactive''
   | UnknownReference entity \<Rightarrow> ''unknown '' @ entity
   | SeededHeader source \<Rightarrow> ''duplicate: '' @ source @ '' is a seeded sale''
   | HeaderDisagrees source \<Rightarrow> ''row disagrees with the accepted header for '' @ source
   | DuplicateLine source product \<Rightarrow> ''duplicate: '' @ source @ '' already has a line for product '' @ int_text product
   | NoInventory store product \<Rightarrow> ''no inventory for store '' @ int_text store @ '' and product '' @ int_text product
   | InsufficientStock store product available \<Rightarrow>
       ''insufficient stock for store '' @ int_text store @ '' and product '' @ int_text product @ '': '' @ int_text available @ '' available'')"

section \<open>One row\<close>

text \<open>What PostgreSQL answers to a statement, in the classes the code tells apart.\<close>

datatype data_error = InvalidText | TextTooLong | OutOfRange | OtherData

definition header_reason :: "data_error \<Rightarrow> string" where
  "header_reason e = (case e of
     InvalidText \<Rightarrow> ''customer_id is not a valid identifier''
   | TextTooLong \<Rightarrow> ''transaction_id is too long''
   | OutOfRange \<Rightarrow> ''store_id or channel_id is out of range''
   | OtherData \<Rightarrow> ''a value is not in the expected format'')"

definition line_reason :: "data_error \<Rightarrow> string" where
  "line_reason e = (if e = OutOfRange then ''product_id, quantity or unit_price is out of range'' else ''a value is not in the expected format'')"

definition is_spreadsheet_formula :: "string \<Rightarrow> bool" where
  "is_spreadsheet_formula s = (case dropWhile py_isspace s of [] \<Rightarrow> False | c # _ \<Rightarrow> c \<in> set ''=+-@'')"

text \<open>\<open>unit_price.quantize(Decimal("0.01")) != unit_price\<close>; a result of more than 28 digits is refused the same way.\<close>

definition price_cents :: "rat \<Rightarrow> int option" where
  "price_cents v = (if of_int \<lfloor>100 * v\<rfloor> = 100 * v \<and> \<lfloor>100 * v\<rfloor> < 10 ^ 28 then Some \<lfloor>100 * v\<rfloor> else None)"

definition row_checks :: "int \<Rightarrow> sales_row \<Rightarrow> rejection + (string \<times> int \<times> int \<times> int)" where
  "row_checks now r =
    (let source = py_strip (sr_source r) in
     if source = [] then Inl SourceRequired
     else if is_spreadsheet_formula source then Inl SourceIsFormula
     else case sr_at r of
         Instant t date \<Rightarrow>
           if t > now then Inl RowInFuture
           else if sr_quantity r \<le> 0 then Inl RowQuantityNotPositive
           else (case sr_price r of
               Finite v \<Rightarrow> if v \<le> 0 then Inl PriceNotPositive else (case price_cents v of None \<Rightarrow> Inl PriceNotCents | Some c \<Rightarrow> Inr (source, t, date, c))
             | _ \<Rightarrow> Inl PriceNotFinite)
       | _ \<Rightarrow> Inl RowNaive)"

text \<open>\<open>get_sale_references\<close>: the customer's registration, and whether the product is active, if it is known.\<close>

definition get_sale_references :: "(string \<Rightarrow> nat option) \<Rightarrow> string \<Rightarrow> int \<Rightarrow> service_db \<Rightarrow> data_error + (nat \<times> int \<times> bool option) option" where
  "get_sale_references parse_uuid customer product d =
    (if CHR 0x00 \<in> set customer then Inl OtherData
     else case parse_uuid customer of
         None \<Rightarrow> Inl InvalidText
       | Some u \<Rightarrow> Inr (map_option (\<lambda>c. (u, cu_registered c, map_option pd_active (find (\<lambda>p. int (pd_id p) = product) (sh_products (sv_shop d)))))
           (find (\<lambda>c. cu_id c = u) (sh_customers (sv_shop d)))))"

definition get_transaction_by_source_id :: "string \<Rightarrow> service_db \<Rightarrow> shop_sale option" where
  "get_transaction_by_source_id source d = find (\<lambda>s. sa_source s = source) (sh_sales (sv_shop d))"

definition smallint :: "int \<Rightarrow> bool" where "smallint i \<longleftrightarrow> -32768 \<le> i \<and> i \<le> 32767"

text \<open>A header with total 0: the width of the columns, the guard of the namespace, the foreign keys, and the event of the trigger.\<close>

definition insert_transaction :: "string \<Rightarrow> nat \<Rightarrow> int \<Rightarrow> int \<Rightarrow> int \<Rightarrow> service_db \<Rightarrow> (rejection + nat) \<times> service_db" where
  "insert_transaction source customer store channel t d =
    (if 64 < length source then (Inl (MalformedRow (header_reason TextTooLong)), d)
     else if \<not> smallint store \<or> \<not> smallint channel then (Inl (MalformedRow (header_reason OutOfRange)), d)
     else if take 10 source = ''svc-sales:'' then (Inl (MalformedRow (header_reason OtherData)), d)
     else if store \<notin> set (map (int \<circ> st_id) (sh_stores (sv_shop d))) then (Inl (UnknownReference ''store''), d)
     else if channel \<notin> set (map (int \<circ> ch_id) (sh_channels (sv_shop d))) then (Inl (UnknownReference ''channel''), d)
     else (Inr (sv_next_sale d),
       d\<lparr>sv_shop := (sv_shop d)\<lparr>sh_sales := sh_sales (sv_shop d) @
           [\<lparr>sa_id = sv_next_sale d, sa_source = source, sa_customer = customer, sa_store = nat store, sa_channel = nat channel, sa_at = t,
             sa_total = 0, sa_origin = ''OBSERVED'', sa_lines = []\<rparr>]\<rparr>,
         sv_sales_events := sv_sales_events d @ [capture_event SALES_STREAM ''INSERT'' (nat_text (sv_next_sale d)) d],
         sv_next_sale := sv_next_sale d + 1, sv_next_event := sv_next_event d + 1\<rparr>))"

definition header_of :: "string \<Rightarrow> nat \<Rightarrow> int \<Rightarrow> sales_row \<Rightarrow> service_db \<Rightarrow> (rejection + nat) \<times> service_db" where
  "header_of source customer t r d =
    (case get_transaction_by_source_id source d of
       None \<Rightarrow> insert_transaction source customer (sr_store r) (sr_channel r) t d
     | Some h \<Rightarrow>
         (if sa_origin h \<noteq> ''OBSERVED'' then Inl (SeededHeader source)
          else if uuid_text (sa_customer h) \<noteq> sr_customer r \<or> int (sa_store h) \<noteq> sr_store r \<or> int (sa_channel h) \<noteq> sr_channel r \<or> sa_at h \<noteq> t
          then Inl (HeaderDisagrees source) else Inr (sa_id h), d))"

definition change_sale :: "nat \<Rightarrow> (shop_sale \<Rightarrow> shop_sale) \<Rightarrow> service_db \<Rightarrow> service_db" where
  "change_sale i f d = d\<lparr>sv_shop := (sv_shop d)\<lparr>sh_sales := map (\<lambda>s. if sa_id s = i then f s else s) (sh_sales (sv_shop d))\<rparr>\<rparr>"

definition insert_transaction_line :: "nat \<Rightarrow> string \<Rightarrow> int \<Rightarrow> int \<Rightarrow> int \<Rightarrow> service_db \<Rightarrow> (rejection + unit) \<times> service_db" where
  "insert_transaction_line i source product quantity cents d =
    (case find (\<lambda>s. sa_id s = i) (sh_sales (sv_shop d)) of
       None \<Rightarrow> (Inl (UnknownReference ''reference''), d)
     | Some s \<Rightarrow>
         if quantity > MAX_QUANTITY \<or> cents > MAX_PRICE then (Inl (MalformedRow (line_reason OutOfRange)), d)
         else if phone_sale s then (Inl (MalformedRow (line_reason OtherData)), d)
         else if product \<in> set (map (int \<circ> li_product) (sa_lines s)) then (Inl (DuplicateLine source product), d)
         else if product \<notin> set (map (int \<circ> pd_id) (sh_products (sv_shop d))) then (Inl (UnknownReference ''product''), d)
         else (Inr (), change_sale i (\<lambda>s. s\<lparr>sa_lines := sa_lines s @ [\<lparr>li_product = nat product, li_quantity = quantity, li_price = cents\<rparr>]\<rparr>) d))"

text \<open>\<open>decrement_stock\<close>: what is left, or what there is, if anything. The trigger captures the change.\<close>

definition decrement_stock :: "int \<Rightarrow> int \<Rightarrow> int \<Rightarrow> service_db \<Rightarrow> (int option + int) \<times> service_db" where
  "decrement_stock store product quantity d =
    (case find (\<lambda>k. int (sk_store k) = store \<and> int (sk_product k) = product) (sh_stock (sv_shop d)) of
       None \<Rightarrow> (Inl None, d)
     | Some k \<Rightarrow>
         if sk_quantity k < quantity then (Inl (Some (sk_quantity k)), d)
         else (Inr (sk_quantity k - quantity),
           d\<lparr>sv_shop := (sv_shop d)\<lparr>sh_stock := map (\<lambda>k. if int (sk_store k) = store \<and> int (sk_product k) = product then k\<lparr>sk_quantity := sk_quantity k - quantity\<rparr> else k)
                (sh_stock (sv_shop d))\<rparr>,
             sv_stock_events := sv_stock_events d @ [capture_event ''stream:stock.v1.changed'' ''UPDATE'' (int_text store @ '':'' @ int_text product) d],
             sv_next_event := sv_next_event d + 1\<rparr>))"

text \<open>The sum of the lines, which has to fit the column; and the event of the update.\<close>

definition recompute_total :: "nat \<Rightarrow> service_db \<Rightarrow> (row_failure + unit) \<times> service_db" where
  "recompute_total i d =
    (case find (\<lambda>s. sa_id s = i) (sh_sales (sv_shop d)) of
       None \<Rightarrow> (Inr (), d)
     | Some s \<Rightarrow>
         if lines_total (sa_lines s) > MAX_TOTAL then (Inl HeaderTotalOverflow, d)
         else (Inr (), (change_sale i (\<lambda>s. s\<lparr>sa_total := lines_total (sa_lines s)\<rparr>) d)
           \<lparr>sv_sales_events := sv_sales_events d @ [capture_event SALES_STREAM ''UPDATE'' (nat_text i) d], sv_next_event := sv_next_event d + 1\<rparr>))"

text \<open>The writes of a row, after its checks.\<close>

definition persist_row :: "string \<Rightarrow> nat \<Rightarrow> int \<Rightarrow> int \<Rightarrow> sales_row \<Rightarrow> service_db \<Rightarrow> (row_failure + unit) \<times> service_db" where
  "persist_row source customer t cents r d =
    (if CHR 0x00 \<in> set source then (Inl NulInSource, d)
     else case header_of source customer t r d of
         (Inl x, d1) \<Rightarrow> (Inl (Rejects x), d1)
       | (Inr i, d1) \<Rightarrow>
           (case insert_transaction_line i source (sr_product r) (sr_quantity r) cents d1 of
              (Inl x, d2) \<Rightarrow> (Inl (Rejects x), d2)
            | (Inr _, d2) \<Rightarrow>
                (case decrement_stock (sr_store r) (sr_product r) (sr_quantity r) d2 of
                   (Inl None, d3) \<Rightarrow> (Inl (Rejects (NoInventory (sr_store r) (sr_product r))), d3)
                 | (Inl (Some n), d3) \<Rightarrow> (Inl (Rejects (InsufficientStock (sr_store r) (sr_product r) n)), d3)
                 | (Inr _, d3) \<Rightarrow> recompute_total i d3)))"

definition ingest_body :: "(string \<Rightarrow> nat option) \<Rightarrow> sales_row \<Rightarrow> service_db \<Rightarrow> (row_failure + unit) \<times> service_db" where
  "ingest_body parse_uuid r d =
    (case row_checks (sv_clock d) r of
       Inl x \<Rightarrow> (Inl (Rejects x), d)
     | Inr (source, t, date, cents) \<Rightarrow>
         (case get_sale_references parse_uuid (sr_customer r) (sr_product r) d of
            Inl e \<Rightarrow> (Inl (Rejects (MalformedRow (header_reason e))), d)
          | Inr None \<Rightarrow> (Inl (Rejects RowUnknownCustomer), d)
          | Inr (Some (customer, registered, active)) \<Rightarrow>
              if date < registered then (Inl (Rejects RowBeforeRegistration), d)
              else (case active of
                  None \<Rightarrow> (Inl (Rejects RowUnknownProduct), d)
                | Some False \<Rightarrow> (Inl (Rejects RowInactiveProduct), d)
                | Some True \<Rightarrow> persist_row source customer t cents r d)))"

definition ingest_row :: "(string \<Rightarrow> nat option) \<Rightarrow> sales_row \<Rightarrow> (service_db, row_failure, unit) operation" where
  "ingest_row parse_uuid r = atomic (statements (ingest_body parse_uuid r))"

section \<open>When a row passes\<close>

definition header_passes :: "string \<Rightarrow> int \<Rightarrow> sales_row \<Rightarrow> service_db \<Rightarrow> bool" where
  "header_passes source t r d \<longleftrightarrow>
    (case get_transaction_by_source_id source d of
       None \<Rightarrow> length source \<le> 64 \<and> smallint (sr_store r) \<and> smallint (sr_channel r) \<and> take 10 source \<noteq> ''svc-sales:''
         \<and> sr_store r \<in> set (map (int \<circ> st_id) (sh_stores (sv_shop d))) \<and> sr_channel r \<in> set (map (int \<circ> ch_id) (sh_channels (sv_shop d)))
     | Some h \<Rightarrow> sa_origin h = ''OBSERVED'' \<and> uuid_text (sa_customer h) = sr_customer r \<and> int (sa_store h) = sr_store r \<and> int (sa_channel h) = sr_channel r
         \<and> sa_at h = t)"

definition line_passes :: "string \<Rightarrow> int \<Rightarrow> sales_row \<Rightarrow> service_db \<Rightarrow> bool" where
  "line_passes source cents r d \<longleftrightarrow> sr_quantity r \<le> MAX_QUANTITY \<and> cents \<le> MAX_PRICE \<and> sr_product r \<in> set (map (int \<circ> pd_id) (sh_products (sv_shop d)))
     \<and> (case get_transaction_by_source_id source d of
          None \<Rightarrow> True
        | Some h \<Rightarrow> \<not> phone_sale h \<and> sr_product r \<notin> set (map (int \<circ> li_product) (sa_lines h)))"

definition stock_passes :: "sales_row \<Rightarrow> service_db \<Rightarrow> bool" where
  "stock_passes r d \<longleftrightarrow> (\<exists>k\<in>set (sh_stock (sv_shop d)). int (sk_store k) = sr_store r \<and> int (sk_product k) = sr_product r \<and> sr_quantity r \<le> sk_quantity k)"

definition new_line :: "sales_row \<Rightarrow> int \<Rightarrow> sale_line" where
  "new_line r cents = \<lparr>li_product = nat (sr_product r), li_quantity = sr_quantity r, li_price = cents\<rparr>"

text \<open>The database after the header of a row is there, and the header.\<close>

definition with_header :: "string \<Rightarrow> nat \<Rightarrow> int \<Rightarrow> sales_row \<Rightarrow> service_db \<Rightarrow> service_db" where
  "with_header source customer t r d = snd (header_of source customer t r d)"

definition header_at :: "string \<Rightarrow> nat \<Rightarrow> int \<Rightarrow> sales_row \<Rightarrow> service_db \<Rightarrow> shop_sale" where
  "header_at source customer t r d = (case get_transaction_by_source_id source d of
     Some h \<Rightarrow> h
   | None \<Rightarrow> \<lparr>sa_id = sv_next_sale d, sa_source = source, sa_customer = customer, sa_store = nat (sr_store r), sa_channel = nat (sr_channel r), sa_at = t,
             sa_total = 0, sa_origin = ''OBSERVED'', sa_lines = []\<rparr>)"

text \<open>The database after all the writes of a row.\<close>

definition with_line :: "string \<Rightarrow> nat \<Rightarrow> int \<Rightarrow> int \<Rightarrow> sales_row \<Rightarrow> service_db \<Rightarrow> service_db" where
  "with_line source customer t cents r d =
    (let h = header_at source customer t r d;
         d1 = with_header source customer t r d;
         d2 = change_sale (sa_id h) (\<lambda>s. s\<lparr>sa_lines := sa_lines s @ [new_line r cents]\<rparr>) d1;
         d3 = snd (decrement_stock (sr_store r) (sr_product r) (sr_quantity r) d2)
     in (change_sale (sa_id h) (\<lambda>s. s\<lparr>sa_total := lines_total (sa_lines s)\<rparr>) d3)
           \<lparr>sv_sales_events := sv_sales_events d3 @ [capture_event SALES_STREAM ''UPDATE'' (nat_text (sa_id h)) d3], sv_next_event := sv_next_event d3 + 1\<rparr>)"

lemma header_of_fails: "\<not> header_passes source t r d \<Longrightarrow> \<exists>x d'. header_of source u t r d = (Inl x, d')"
  by (auto simp: header_passes_def header_of_def insert_transaction_def split: option.splits)

lemma header_of_succeeds:
  assumes "header_passes source t r d"
  shows "header_of source u t r d = (Inr (sa_id (header_at source u t r d)), with_header source u t r d)"
  using assms unfolding header_passes_def header_of_def insert_transaction_def header_at_def with_header_def
  by (cases "get_transaction_by_source_id source d") auto

lemma fresh_id: "service_wf d \<Longrightarrow> find (\<lambda>s. sa_id s = sv_next_sale d) (sh_sales (sv_shop d)) = None"
  unfolding service_wf_def by (auto simp: find_None_iff)

lemma find_append: "find P (xs @ ys) = (case find P xs of None \<Rightarrow> find P ys | Some x \<Rightarrow> Some x)"
  by (induction xs) auto

lemma header_found:
  assumes "service_wf d" and "header_passes source t r d"
  shows "find (\<lambda>s. sa_id s = sa_id (header_at source u t r d)) (sh_sales (sv_shop (with_header source u t r d))) = Some (header_at source u t r d)"
proof (cases "get_transaction_by_source_id source d")
  case None
  with assms(2) have "with_header source u t r d = snd (insert_transaction source u (sr_store r) (sr_channel r) t d)" by (simp add: with_header_def header_of_def)
  then show ?thesis
    using None assms fresh_id [OF assms(1)] by (auto simp: header_passes_def insert_transaction_def header_at_def find_append)
next
  case (Some h)
  then have h: "h \<in> set (sh_sales (sv_shop d))" by (auto simp: get_transaction_by_source_id_def find_Some_iff)
  have "distinct (map sa_id (sh_sales (sv_shop d)))" using assms(1) by (simp add: service_wf_def)
  from find_unique [OF this h] have "find (\<lambda>s. sa_id s = sa_id h) (sh_sales (sv_shop d)) = Some h" .
  moreover have "with_header source u t r d = d" using Some assms(2) by (simp add: with_header_def header_of_def header_passes_def)
  ultimately show ?thesis using Some by (simp add: header_at_def)
qed

lemma with_header_keeps [simp]:
  "sh_products (sv_shop (with_header source u t r d)) = sh_products (sv_shop d)" "sh_stock (sv_shop (with_header source u t r d)) = sh_stock (sv_shop d)"
  "sh_customers (sv_shop (with_header source u t r d)) = sh_customers (sv_shop d)" "sh_stores (sv_shop (with_header source u t r d)) = sh_stores (sv_shop d)"
  "sh_channels (sv_shop (with_header source u t r d)) = sh_channels (sv_shop d)" "sv_clock (with_header source u t r d) = sv_clock d"
  "sv_captures (with_header source u t r d) = sv_captures d" "sv_users (with_header source u t r d) = sv_users d"
  by (auto simp: with_header_def header_of_def insert_transaction_def split: option.split)

lemma change_sale_keeps [simp]:
  "sh_products (sv_shop (change_sale i f d)) = sh_products (sv_shop d)" "sh_stock (sv_shop (change_sale i f d)) = sh_stock (sv_shop d)"
  "sh_customers (sv_shop (change_sale i f d)) = sh_customers (sv_shop d)" "sh_stores (sv_shop (change_sale i f d)) = sh_stores (sv_shop d)"
  "sh_channels (sv_shop (change_sale i f d)) = sh_channels (sv_shop d)" "sv_clock (change_sale i f d) = sv_clock d"
  "sv_captures (change_sale i f d) = sv_captures d" "sv_users (change_sale i f d) = sv_users d" "sv_sales_events (change_sale i f d) = sv_sales_events d"
  "sv_next_sale (change_sale i f d) = sv_next_sale d" "sv_next_event (change_sale i f d) = sv_next_event d"
  "sh_sales (sv_shop (change_sale i f d)) = map (\<lambda>s. if sa_id s = i then f s else s) (sh_sales (sv_shop d))"
  by (simp_all add: change_sale_def)

lemma insert_line_fails:
  assumes "service_wf d" and "header_passes source t r d" and "\<not> line_passes source cents r d"
  shows "\<exists>x d'. insert_transaction_line (sa_id (header_at source u t r d)) source (sr_product r) (sr_quantity r) cents (with_header source u t r d) = (Inl x, d')"
  using assms(3) header_found [OF assms(1,2), of u]
  by (auto simp: insert_transaction_line_def line_passes_def header_at_def split: option.splits)

lemma insert_line_succeeds:
  assumes "service_wf d" and "header_passes source t r d" and "line_passes source cents r d"
  shows "insert_transaction_line (sa_id (header_at source u t r d)) source (sr_product r) (sr_quantity r) cents (with_header source u t r d)
    = (Inr (), change_sale (sa_id (header_at source u t r d)) (\<lambda>s. s\<lparr>sa_lines := sa_lines s @ [new_line r cents]\<rparr>) (with_header source u t r d))"
proof -
  have "\<not> phone_sale (header_at source u t r d)"
    using assms(2,3) by (auto simp: header_at_def line_passes_def header_passes_def phone_sale_def split: option.splits)
  moreover have "sr_product r \<notin> set (map (int \<circ> li_product) (sa_lines (header_at source u t r d)))"
    using assms(3) by (auto simp: header_at_def line_passes_def split: option.splits)
  ultimately show ?thesis
    using assms(3) header_found [OF assms(1,2), of u] by (simp add: insert_transaction_line_def line_passes_def new_line_def)
qed

lemma stock_row_of:
  assumes "stock_ok ks" and "k \<in> set ks" and "int (sk_store k) = s" and "int (sk_product k) = p"
  shows "find (\<lambda>k. int (sk_store k) = s \<and> int (sk_product k) = p) ks = Some k"
proof -
  have "find (\<lambda>j. (sk_store j, sk_product j) = (sk_store k, sk_product k)) ks = Some k"
    using find_unique [of "\<lambda>j. (sk_store j, sk_product j)" ks k] assms by (simp add: stock_ok_def)
  moreover have "(\<lambda>j. (sk_store j, sk_product j) = (sk_store k, sk_product k)) = (\<lambda>k. int (sk_store k) = s \<and> int (sk_product k) = p)"
    using assms(3,4) by auto
  ultimately show ?thesis by (rule subst [rotated, where P = "\<lambda>q. find q ks = Some k"])
qed

lemma decrement_stock_iff:
  assumes "stock_ok (sh_stock (sv_shop d))" and "sh_stock (sv_shop d2) = sh_stock (sv_shop d)"
  shows "(\<exists>n d'. decrement_stock (sr_store r) (sr_product r) (sr_quantity r) d2 = (Inr n, d')) \<longleftrightarrow> stock_passes r d"
proof
  assume "\<exists>n d'. decrement_stock (sr_store r) (sr_product r) (sr_quantity r) d2 = (Inr n, d')"
  then show "stock_passes r d" by (auto simp: decrement_stock_def stock_passes_def assms(2) find_Some_iff split: option.splits if_splits)
next
  assume "stock_passes r d"
  then obtain k where "k \<in> set (sh_stock (sv_shop d))" "int (sk_store k) = sr_store r" "int (sk_product k) = sr_product r" "sr_quantity r \<le> sk_quantity k"
    by (auto simp: stock_passes_def)
  then show "\<exists>n d'. decrement_stock (sr_store r) (sr_product r) (sr_quantity r) d2 = (Inr n, d')"
    using stock_row_of [OF assms(1)] by (auto simp: decrement_stock_def assms(2))
qed

text \<open>A row ends in one of these ways.\<close>

definition row_passes :: "string \<Rightarrow> int \<Rightarrow> int \<Rightarrow> sales_row \<Rightarrow> service_db \<Rightarrow> bool" where
  "row_passes source t cents r d \<longleftrightarrow> header_passes source t r d \<and> line_passes source cents r d \<and> stock_passes r d"

lemma persist_row_rejects:
  assumes "service_wf d" and "\<not> row_passes source t cents r d" and "CHR 0x00 \<notin> set source"
  shows "\<exists>x d'. persist_row source u t cents r d = (Inl (Rejects x), d')"
proof -
  consider "\<not> header_passes source t r d" | "header_passes source t r d" "\<not> line_passes source cents r d"
    | "header_passes source t r d" "line_passes source cents r d" "\<not> stock_passes r d" using assms(2) by (auto simp: row_passes_def)
  then show ?thesis
  proof cases
    case 1
    from header_of_fails [OF this, of u] obtain x d' where "header_of source u t r d = (Inl x, d')" by blast
    then show ?thesis using assms(3) by (simp add: persist_row_def)
  next
    case 2
    from insert_line_fails [OF assms(1) this, of u] obtain x d'
      where "insert_transaction_line (sa_id (header_at source u t r d)) source (sr_product r) (sr_quantity r) cents (with_header source u t r d) = (Inl x, d')" by blast
    then show ?thesis using assms(3) header_of_succeeds [OF 2(1), of u] by (simp add: persist_row_def)
  next
    case 3
    let ?d2 = "change_sale (sa_id (header_at source u t r d)) (\<lambda>s. s\<lparr>sa_lines := sa_lines s @ [new_line r cents]\<rparr>) (with_header source u t r d)"
    have "stock_ok (sh_stock (sv_shop d))" using assms(1) by (simp add: service_wf_def)
    from decrement_stock_iff [OF this, of ?d2 r] 3(3) obtain n d3 where "decrement_stock (sr_store r) (sr_product r) (sr_quantity r) ?d2 = (Inl n, d3)"
      by (cases "decrement_stock (sr_store r) (sr_product r) (sr_quantity r) ?d2"; cases "fst (decrement_stock (sr_store r) (sr_product r) (sr_quantity r) ?d2)") auto
    then show ?thesis
      using assms(3) header_of_succeeds [OF 3(1), of u] insert_line_succeeds [OF assms(1) 3(1,2), of u]
      by (cases n) (simp_all add: persist_row_def)
  qed
qed

lemma decrement_stock_keeps [simp]:
  "sh_sales (sv_shop (snd (decrement_stock s p q d))) = sh_sales (sv_shop d)" "sv_clock (snd (decrement_stock s p q d)) = sv_clock d"
  "sh_products (sv_shop (snd (decrement_stock s p q d))) = sh_products (sv_shop d)" "sh_customers (sv_shop (snd (decrement_stock s p q d))) = sh_customers (sv_shop d)"
  "sh_stores (sv_shop (snd (decrement_stock s p q d))) = sh_stores (sv_shop d)" "sh_channels (sv_shop (snd (decrement_stock s p q d))) = sh_channels (sv_shop d)"
  "sv_captures (snd (decrement_stock s p q d)) = sv_captures d" "sv_users (snd (decrement_stock s p q d)) = sv_users d"
  "sv_sales_events (snd (decrement_stock s p q d)) = sv_sales_events d" "sv_next_sale (snd (decrement_stock s p q d)) = sv_next_sale d"
  by (auto simp: decrement_stock_def split: option.split)

lemma find_map_changed:
  assumes "find (\<lambda>s. sa_id s = i) ss = Some s" and "\<And>s. sa_id (f s) = sa_id s"
  shows "find (\<lambda>s. sa_id s = i) (map (\<lambda>s. if sa_id s = i then f s else s) ss) = Some (f s)"
  using assms by (induction ss) (auto split: if_splits)

lemma persist_row_passes:
  fixes u :: nat
  assumes "service_wf d" and "row_passes source t cents r d" and "CHR 0x00 \<notin> set source"
  defines "h \<equiv> header_at source u t r d"
  shows "persist_row source u t cents r d =
    (if lines_total (sa_lines h @ [new_line r cents]) > MAX_TOTAL
     then (Inl HeaderTotalOverflow, snd (persist_row source u t cents r d)) else (Inr (), with_line source u t cents r d))"
proof -
  from assms(2) have pass: "header_passes source t r d" "line_passes source cents r d" "stock_passes r d" by (simp_all add: row_passes_def)
  let ?d2 = "change_sale (sa_id h) (\<lambda>s. s\<lparr>sa_lines := sa_lines s @ [new_line r cents]\<rparr>) (with_header source u t r d)"
  have "stock_ok (sh_stock (sv_shop d))" using assms(1) by (simp add: service_wf_def)
  from decrement_stock_iff [OF this, of ?d2 r] pass(3) obtain n d3 where d3: "decrement_stock (sr_store r) (sr_product r) (sr_quantity r) ?d2 = (Inr n, d3)" by auto
  have "sh_sales (sv_shop d3) = map (\<lambda>s. if sa_id s = sa_id h then s\<lparr>sa_lines := sa_lines s @ [new_line r cents]\<rparr> else s) (sh_sales (sv_shop (with_header source u t r d)))"
    using decrement_stock_keeps(1) [of "sr_store r" "sr_product r" "sr_quantity r" ?d2] by (simp add: d3)
  then have "find (\<lambda>s. sa_id s = sa_id h) (sh_sales (sv_shop d3)) = Some (h\<lparr>sa_lines := sa_lines h @ [new_line r cents]\<rparr>)"
    using find_map_changed [OF header_found [OF assms(1) pass(1), of u]] by (simp add: h_def)
  moreover have "sv_sales_events d3 = sv_sales_events (with_header source u t r d)"
    using decrement_stock_keeps(9) [of "sr_store r" "sr_product r" "sr_quantity r" ?d2] by (simp add: d3)
  ultimately show ?thesis
    using assms(3) header_of_succeeds [OF pass(1), of u] insert_line_succeeds [OF assms(1) pass(1,2), of u] d3
    by (simp add: persist_row_def recompute_total_def with_line_def h_def [symmetric] Let_def)
qed

section \<open>What a row that passes does\<close>

lemma map_changed_ids: "(\<And>s. sa_id (f s) = sa_id s) \<Longrightarrow> map sa_id (map (\<lambda>s. if sa_id s = i then f s else s) ss) = map sa_id ss"
  by simp

definition extended :: "sale_line \<Rightarrow> shop_sale \<Rightarrow> shop_sale" where
  "extended l s = s\<lparr>sa_lines := sa_lines s @ [l], sa_total := lines_total (sa_lines s @ [l])\<rparr>"

lemma extended_simps [simp]:
  "sa_id (extended l s) = sa_id s" "sa_source (extended l s) = sa_source s" "sa_customer (extended l s) = sa_customer s" "sa_store (extended l s) = sa_store s"
  "sa_channel (extended l s) = sa_channel s" "sa_at (extended l s) = sa_at s" "sa_origin (extended l s) = sa_origin s"
  "sa_lines (extended l s) = sa_lines s @ [l]" "sa_total (extended l s) = lines_total (sa_lines s @ [l])" "phone_sale (extended l s) = phone_sale s"
  by (simp_all add: extended_def phone_sale_def)

lemma with_line_sales:
  "sh_sales (sv_shop (with_line source u t cents r d)) =
    map (\<lambda>s. if sa_id s = sa_id (header_at source u t r d) then extended (new_line r cents) s else s) (sh_sales (sv_shop (with_header source u t r d)))"
  by (simp add: with_line_def Let_def extended_def)

lemma with_line_keeps [simp]:
  "sh_products (sv_shop (with_line source u t c r d)) = sh_products (sv_shop d)" "sh_customers (sv_shop (with_line source u t c r d)) = sh_customers (sv_shop d)"
  "sh_stores (sv_shop (with_line source u t c r d)) = sh_stores (sv_shop d)" "sh_channels (sv_shop (with_line source u t c r d)) = sh_channels (sv_shop d)"
  "sv_clock (with_line source u t c r d) = sv_clock d" "sv_captures (with_line source u t c r d) = sv_captures d" "sv_users (with_line source u t c r d) = sv_users d"
  "sv_next_sale (with_line source u t c r d) = sv_next_sale (with_header source u t r d)"
  by (simp_all add: with_line_def Let_def)

lemma decrement_is_consume:
  assumes "stock_passes r d" and "stock_ok (sh_stock (sv_shop d))" and "sh_stock (sv_shop d2) = sh_stock (sv_shop d)" and "0 < sr_quantity r"
  shows "sh_stock (sv_shop (snd (decrement_stock (sr_store r) (sr_product r) (sr_quantity r) d2))) = consumed (nat (sr_store r)) [new_line r c] (sh_stock (sv_shop d))"
    and "stock_ok (consumed (nat (sr_store r)) [new_line r c] (sh_stock (sv_shop d)))"
    and "(nat (sr_store r), nat (sr_product r)) \<in> stock_keys (sh_stock (sv_shop d))"
    and "sv_next_event (snd (decrement_stock (sr_store r) (sr_product r) (sr_quantity r) d2)) = sv_next_event d2 + 1"
proof -
  obtain k where k: "k \<in> set (sh_stock (sv_shop d))" "int (sk_store k) = sr_store r" "int (sk_product k) = sr_product r" "sr_quantity r \<le> sk_quantity k"
    using assms(1) by (auto simp: stock_passes_def)
  have found: "find (\<lambda>k. int (sk_store k) = sr_store r \<and> int (sk_product k) = sr_product r) (sh_stock (sv_shop d2)) = Some k"
    using stock_row_of [OF assms(2) k(1-3)] by (simp add: assms(3))
  have keys: "int a = sr_store r \<longleftrightarrow> a = nat (sr_store r)" "int b = sr_product r \<longleftrightarrow> nat (sr_product r) = b" for a b using k(2,3) by auto
  have "(int (sk_store j) = sr_store r \<and> int (sk_product j) = sr_product r) = (sk_store j = nat (sr_store r) \<and> nat (sr_product r) = sk_product j)" for j
    using keys by simp
  then show stock: "sh_stock (sv_shop (snd (decrement_stock (sr_store r) (sr_product r) (sr_quantity r) d2))) = consumed (nat (sr_store r)) [new_line r c] (sh_stock (sv_shop d))"
    using found k(4) by (auto simp: decrement_stock_def assms(3) consumed_def new_line_def k(2,3) [symmetric])
  show "sv_next_event (snd (decrement_stock (sr_store r) (sr_product r) (sr_quantity r) d2)) = sv_next_event d2 + 1"
    using found k(4) by (simp add: decrement_stock_def)
  show "(nat (sr_store r), nat (sr_product r)) \<in> stock_keys (sh_stock (sv_shop d))"
    using k keys by (auto simp: stock_keys_def image_iff intro!: bexI [of _ k])
  have "consume_v1 (nat (sr_store r)) (nat (sr_product r)) (sr_quantity r) d = (Inr (sk_quantity k - sr_quantity r), snd (consume_v1 (nat (sr_store r)) (nat (sr_product r)) (sr_quantity r) d))"
  proof -
    have "find (\<lambda>k. sk_store k = nat (sr_store r) \<and> sk_product k = nat (sr_product r)) (sh_stock (sv_shop d)) = Some k"
      using stock_row_of [OF assms(2) k(1) refl refl] by (simp add: k(2,3) [symmetric])
    then show ?thesis using k(4) assms(4) by (simp add: consume_v1_def)
  qed
  from consume_v1_effect(1) [OF this assms(2), where p = c] consume_v1_effect(2) [OF this assms(2)] show "stock_ok (consumed (nat (sr_store r)) [new_line r c] (sh_stock (sv_shop d)))"
    by (simp add: new_line_def)
qed

lemma with_header_wf:
  assumes "service_wf d" and "header_passes source t r d"
  shows "service_wf (with_header source u t r d)" and "set (sh_sales (sv_shop d)) \<subseteq> set (sh_sales (sv_shop (with_header source u t r d)))"
    and "filter phone_sale (sh_sales (sv_shop (with_header source u t r d))) = filter phone_sale (sh_sales (sv_shop d))"
    and "sh_sales (sv_shop (with_header source u t r d)) = sh_sales (sv_shop d)
      \<or> get_transaction_by_source_id source d = None \<and> sh_sales (sv_shop (with_header source u t r d)) = sh_sales (sv_shop d) @ [header_at source u t r d]"
proof -
  have all: "service_wf (with_header source u t r d) \<and> set (sh_sales (sv_shop d)) \<subseteq> set (sh_sales (sv_shop (with_header source u t r d)))
    \<and> filter phone_sale (sh_sales (sv_shop (with_header source u t r d))) = filter phone_sale (sh_sales (sv_shop d))
    \<and> (sh_sales (sv_shop (with_header source u t r d)) = sh_sales (sv_shop d)
      \<or> get_transaction_by_source_id source d = None \<and> sh_sales (sv_shop (with_header source u t r d)) = sh_sales (sv_shop d) @ [header_at source u t r d])"
  proof (cases "get_transaction_by_source_id source d")
    case (Some h)
    then have "with_header source u t r d = d" using assms(2) by (simp add: with_header_def header_of_def header_passes_def)
    then show ?thesis using assms(1) by simp
  next
    case None
    then have fresh_source: "source \<notin> sa_source ` set (sh_sales (sv_shop d))" by (auto simp: get_transaction_by_source_id_def find_None_iff)
    have fresh: "sv_next_sale d \<notin> sa_id ` set (sh_sales (sv_shop d))" "sv_next_event d \<notin> oe_id ` set (sv_sales_events d)"
      using assms(1) by (auto simp: service_wf_def)
    let ?h = "header_at source u t r d"
    have h: "sa_id ?h = sv_next_sale d" "sa_source ?h = source" "sa_total ?h = 0" "sa_lines ?h = []" "\<not> phone_sale ?h"
      using None assms(2) by (simp_all add: header_at_def phone_sale_def header_passes_def)
    have d': "with_header source u t r d = d\<lparr>sv_shop := (sv_shop d)\<lparr>sh_sales := sh_sales (sv_shop d) @ [?h]\<rparr>,
         sv_sales_events := sv_sales_events d @ [capture_event SALES_STREAM ''INSERT'' (nat_text (sv_next_sale d)) d],
         sv_next_sale := sv_next_sale d + 1, sv_next_event := sv_next_event d + 1\<rparr>"
      using None assms(2) by (simp add: with_header_def header_of_def insert_transaction_def header_passes_def header_at_def)
    have phones: "{s. (s = ?h \<or> s \<in> set (sh_sales (sv_shop d))) \<and> phone_sale s} = {s \<in> set (sh_sales (sv_shop d)). phone_sale s}" using h(5) by auto
    have "service_wf (with_header source u t r d)"
      using assms(1) fresh fresh_source unfolding service_wf_def d'
      by (simp add: capture_event_def h phones) (auto simp: h lines_total_def less_Suc_eq)
    then show ?thesis using None h(5) by (auto simp: d')
  qed
  then show "service_wf (with_header source u t r d)" "set (sh_sales (sv_shop d)) \<subseteq> set (sh_sales (sv_shop (with_header source u t r d)))"
    "filter phone_sale (sh_sales (sv_shop (with_header source u t r d))) = filter phone_sale (sh_sales (sv_shop d))"
    "sh_sales (sv_shop (with_header source u t r d)) = sh_sales (sv_shop d)
      \<or> get_transaction_by_source_id source d = None \<and> sh_sales (sv_shop (with_header source u t r d)) = sh_sales (sv_shop d) @ [header_at source u t r d]"
    by blast+
qed

lemma transaction_source: "get_transaction_by_source_id source d = Some h \<Longrightarrow> sa_source h = source \<and> h \<in> set (sh_sales (sv_shop d))"
  by (auto simp: get_transaction_by_source_id_def find_Some_iff)

lemma row_header:
  fixes u :: nat
  assumes "service_wf d" and "row_passes source t cents r d"
  defines "h \<equiv> header_at source u t r d"
  shows "h \<in> set (sh_sales (sv_shop (with_header source u t r d)))" and "\<not> phone_sale h" and "int (sa_store h) = sr_store r" and "sa_source h = source"
    and "sa_origin h = ''OBSERVED''" and "sr_product r \<notin> set (map (int \<circ> li_product) (sa_lines h))"
proof -
  have "header_passes source t r d" "line_passes source cents r d" using assms(2) by (simp_all add: row_passes_def)
  then show "\<not> phone_sale h" "int (sa_store h) = sr_store r" "sa_source h = source" "sa_origin h = ''OBSERVED''" "sr_product r \<notin> set (map (int \<circ> li_product) (sa_lines h))"
    using transaction_source [of source d] by (auto simp: h_def header_at_def header_passes_def line_passes_def phone_sale_def split: option.splits)
  show "h \<in> set (sh_sales (sv_shop (with_header source u t r d)))"
    using header_found [OF assms(1) \<open>header_passes source t r d\<close>, of u] by (auto simp: h_def find_Some_iff)
qed

lemma with_line_wf:
  assumes wf: "service_wf d" and pass: "row_passes source t cents r d" and quantity: "0 < sr_quantity r"
  shows "service_wf (with_line source u t cents r d)"
proof -
  let ?h = "header_at source u t r d" and ?d1 = "with_header source u t r d" and ?l = "new_line r cents"
  have parts: "header_passes source t r d" "stock_passes r d" using pass by (simp_all add: row_passes_def)
  note h = row_header [OF wf pass, of u]
  have wf1: "service_wf ?d1" by (rule with_header_wf(1) [OF wf parts(1)])
  have stock: "stock_ok (sh_stock (sv_shop d))" using wf by (simp add: service_wf_def)
  let ?d2 = "change_sale (sa_id ?h) (\<lambda>s. s\<lparr>sa_lines := sa_lines s @ [?l]\<rparr>) ?d1"
  let ?d3 = "snd (decrement_stock (sr_store r) (sr_product r) (sr_quantity r) ?d2)"
  have same: "sh_stock (sv_shop ?d2) = sh_stock (sv_shop d)" by simp
  note dec = decrement_is_consume(1) [OF parts(2) stock same quantity, of cents] decrement_is_consume(2) [OF parts(2) stock same quantity, of cents]
    decrement_is_consume(3) [OF parts(2) stock same quantity] decrement_is_consume(4) [OF parts(2) stock same quantity]
  have ids: "distinct (map sa_id (sh_sales (sv_shop ?d1)))" using wf1 by (simp add: service_wf_def)
  have only: "s = ?h" if "s \<in> set (sh_sales (sv_shop ?d1))" "sa_id s = sa_id ?h" for s
    using that h(1) ids by (auto simp: distinct_map dest: inj_onD)
  then have other: "sa_id s \<noteq> sa_id ?h" if "s \<in> set (sh_sales (sv_shop ?d1))" "phone_sale s" for s using that h(2) by blast
  let ?ss = "sh_sales (sv_shop (with_line source u t cents r d))"
  have phones: "{s \<in> set ?ss. phone_sale s} = {s \<in> set (sh_sales (sv_shop ?d1)). phone_sale s}"
    unfolding with_line_sales using other by auto
  have members: "s \<in> set ?ss \<Longrightarrow> s \<in> set (sh_sales (sv_shop ?d1)) \<and> sa_id s \<noteq> sa_id ?h \<or> s = extended ?l ?h" for s
    unfolding with_line_sales using only by auto
  have events: "sv_sales_events (with_line source u t cents r d) = sv_sales_events ?d1 @ [capture_event SALES_STREAM ''UPDATE'' (nat_text (sa_id ?h)) ?d3]"
    "sv_next_event (with_line source u t cents r d) = sv_next_event ?d1 + 2" "sv_next_event ?d3 = sv_next_event ?d1 + 1"
    using dec(4) by (simp_all add: with_line_def Let_def)
  have stock': "sh_stock (sv_shop (with_line source u t cents r d)) = consumed (nat (sr_store r)) [?l] (sh_stock (sv_shop d))"
    using dec(1) by (simp add: with_line_def Let_def)
  have sources: "map sa_source ?ss = map sa_source (sh_sales (sv_shop ?d1))" "map sa_id ?ss = map sa_id (sh_sales (sv_shop ?d1))"
    unfolding with_line_sales by simp_all
  have below: "\<forall>s\<in>set (sh_sales (sv_shop ?d1)). sa_id s < sv_next_sale ?d1" and totals: "\<forall>s\<in>set (sh_sales (sv_shop ?d1)). sa_total s = lines_total (sa_lines s)"
    using wf1 by (simp_all add: service_wf_def)
  show ?thesis
    unfolding service_wf_def sources phones stock' events
  proof (intro conjI)
    show "\<forall>s\<in>set ?ss. sa_id s < sv_next_sale (with_line source u t cents r d)" using members below h(1) by fastforce
    show "\<forall>s\<in>set ?ss. sa_total s = lines_total (sa_lines s)" using members totals by fastforce
  qed (use wf1 events(3) dec(2) in \<open>auto simp: service_wf_def capture_event_def\<close>)
qed

section \<open>The stock and the sales move together\<close>

definition sold_units :: "shop_sale list \<Rightarrow> nat \<Rightarrow> nat \<Rightarrow> int" where
  "sold_units ss s p = sum_list (map (\<lambda>x. units (sa_lines x) p) (filter (\<lambda>x. sa_store x = s) ss))"

lemma sold_units_append [simp]: "sold_units (xs @ ys) s p = sold_units xs s p + sold_units ys s p"
  by (simp add: sold_units_def)

lemma units_append [simp]: "units (xs @ ys) p = units xs p + units ys p"
  by (simp add: units_def)

lemma map_unchanged: "i \<notin> sa_id ` set ss \<Longrightarrow> map (\<lambda>s. if sa_id s = i then f s else s) ss = ss"
  by (induction ss) auto

lemma sold_units_extended:
  assumes "distinct (map sa_id ss)" and "h \<in> set ss"
  shows "sold_units (map (\<lambda>s. if sa_id s = sa_id h then extended l s else s) ss) s p = sold_units ss s p + (if sa_store h = s then units [l] p else 0)"
  using assms
proof (induction ss)
  case (Cons x xs)
  show ?case
  proof (cases "x = h")
    case True
    then have "map (\<lambda>s. if sa_id s = sa_id h then extended l s else s) xs = xs" using Cons.prems(1) by (intro map_unchanged) auto
    then show ?thesis by (simp add: True sold_units_def)
  next
    case False
    with Cons.prems have "h \<in> set xs" "sa_id x \<noteq> sa_id h" by auto
    with Cons show ?thesis by (simp add: sold_units_def)
  qed
qed simp

lemma header_at_new: "get_transaction_by_source_id source d = None \<Longrightarrow> sa_lines (header_at source u t r d) = []"
  by (simp add: header_at_def)

lemma with_line_stock:
  assumes wf: "service_wf d" and pass: "row_passes source t cents r d" and quantity: "0 < sr_quantity r"
  shows "sh_stock (sv_shop (with_line source u t cents r d)) = consumed (nat (sr_store r)) [new_line r cents] (sh_stock (sv_shop d))"
    and "(nat (sr_store r), nat (sr_product r)) \<in> stock_keys (sh_stock (sv_shop d))"
proof -
  let ?d2 = "change_sale (sa_id (header_at source u t r d)) (\<lambda>s. s\<lparr>sa_lines := sa_lines s @ [new_line r cents]\<rparr>) (with_header source u t r d)"
  have stock: "stock_ok (sh_stock (sv_shop d))" using wf by (simp add: service_wf_def)
  have parts: "stock_passes r d" "sh_stock (sv_shop ?d2) = sh_stock (sv_shop d)" using pass by (simp_all add: row_passes_def)
  show "sh_stock (sv_shop (with_line source u t cents r d)) = consumed (nat (sr_store r)) [new_line r cents] (sh_stock (sv_shop d))"
    using decrement_is_consume(1) [OF parts(1) stock parts(2) quantity, of cents] by (simp add: with_line_def Let_def)
  show "(nat (sr_store r), nat (sr_product r)) \<in> stock_keys (sh_stock (sv_shop d))" by (rule decrement_is_consume(3) [OF parts(1) stock parts(2) quantity])
qed

lemma with_line_accounted:
  fixes u :: nat
  assumes wf: "service_wf d" and pass: "row_passes source t cents r d" and quantity: "0 < sr_quantity r"
  defines "d' \<equiv> with_line source u t cents r d"
  shows "on_hand (sh_stock (sv_shop d')) s p + sold_units (sh_sales (sv_shop d')) s p = on_hand (sh_stock (sv_shop d)) s p + sold_units (sh_sales (sv_shop d)) s p"
    and "filter phone_sale (sh_sales (sv_shop d')) = filter phone_sale (sh_sales (sv_shop d))"
proof -
  let ?h = "header_at source u t r d" and ?d1 = "with_header source u t r d" and ?l = "new_line r cents"
  have parts: "header_passes source t r d" using pass by (simp add: row_passes_def)
  have wf1: "service_wf ?d1" by (rule with_header_wf(1) [OF wf parts])
  have ids: "distinct (map sa_id (sh_sales (sv_shop ?d1)))" using wf1 by (simp add: service_wf_def)
  note h = row_header [OF wf pass, of u]
  have stock: "stock_ok (sh_stock (sv_shop d))" using wf by (simp add: service_wf_def)
  have "sold_units (sh_sales (sv_shop ?d1)) s p = sold_units (sh_sales (sv_shop d)) s p"
    using with_header_wf(4) [OF wf parts, of u] header_at_new [of source d u t r] by (auto simp: sold_units_def)
  then have sold: "sold_units (sh_sales (sv_shop d')) s p = sold_units (sh_sales (sv_shop d)) s p + (if sa_store ?h = s then units [?l] p else 0)"
    unfolding d'_def with_line_sales using sold_units_extended [OF ids h(1), of ?l s p] by simp
  have "on_hand (consumed (nat (sr_store r)) [?l] (sh_stock (sv_shop d))) s p = on_hand (sh_stock (sv_shop d)) s p - (if s = nat (sr_store r) then units [?l] p else 0)"
    by (rule on_hand_consumed [OF stock]) (use with_line_stock(2) [OF wf pass quantity] in \<open>simp add: new_line_def\<close>)
  moreover have "sa_store ?h = nat (sr_store r)" using h(3) by simp
  ultimately show "on_hand (sh_stock (sv_shop d')) s p + sold_units (sh_sales (sv_shop d')) s p = on_hand (sh_stock (sv_shop d)) s p + sold_units (sh_sales (sv_shop d)) s p"
    using sold with_line_stock(1) [OF wf pass quantity, of u] by (auto simp: d'_def)
  have only: "s = ?h" if "s \<in> set (sh_sales (sv_shop ?d1))" "sa_id s = sa_id ?h" for s
    using that h(1) ids by (auto simp: distinct_map dest: inj_onD)
  have other: "sa_id s \<noteq> sa_id ?h" if "s \<in> set (sh_sales (sv_shop ?d1))" "phone_sale s" for s using only that h(2) by blast
  have "filter phone_sale (map (\<lambda>s. if sa_id s = sa_id ?h then extended ?l s else s) ss) = filter phone_sale ss" if "set ss \<subseteq> set (sh_sales (sv_shop ?d1))" for ss
    using that by (induction ss) (auto dest: other)
  then show "filter phone_sale (sh_sales (sv_shop d')) = filter phone_sale (sh_sales (sv_shop d))"
    unfolding d'_def with_line_sales using with_header_wf(3) [OF wf parts, of u] by simp
qed

section \<open>The ways a row ends\<close>

lemma row_checks_facts:
  assumes "row_checks now r = Inr (source, t, date, cents)"
  shows "0 < sr_quantity r" and "sr_at r = Instant t date" and "t \<le> now" and "0 < cents" and "source = py_strip (sr_source r)" and "source \<noteq> []"
proof -
  from assms obtain v where v: "sr_price r = Finite v" "0 < v" "price_cents v = Some cents" and rest: "0 < sr_quantity r" "sr_at r = Instant t date" "t \<le> now"
    "source = py_strip (sr_source r)" "source \<noteq> []"
    by (auto simp: row_checks_def Let_def split: if_splits timestamp_text.splits decimal.splits option.splits)
  show "0 < sr_quantity r" "sr_at r = Instant t date" "t \<le> now" "source = py_strip (sr_source r)" "source \<noteq> []" by fact+
  from v(3) have "of_int cents = 100 * v" by (auto simp: price_cents_def split: if_splits)
  then have "0 < (of_int cents :: rat)" using v(2) by simp
  then show "0 < cents" by simp
qed

text \<open>The checks and the references of a row: what is written is the same on every path.\<close>

definition row_reaches :: "(string \<Rightarrow> nat option) \<Rightarrow> sales_row \<Rightarrow> service_db \<Rightarrow> (string \<times> nat \<times> int \<times> int) option" where
  "row_reaches parse_uuid r d =
    (case row_checks (sv_clock d) r of
       Inl x \<Rightarrow> None
     | Inr (source, t, date, cents) \<Rightarrow>
         (case get_sale_references parse_uuid (sr_customer r) (sr_product r) d of
            Inr (Some (customer, registered, Some True)) \<Rightarrow> if date < registered then None else Some (source, customer, t, cents)
          | _ \<Rightarrow> None))"

lemma ingest_body_reaches:
  "ingest_body parse_uuid r d = (case row_reaches parse_uuid r d of
     Some (source, u, t, cents) \<Rightarrow> persist_row source u t cents r d
   | None \<Rightarrow> (Inl (Rejects (case fst (ingest_body parse_uuid r d) of Inl (Rejects x) \<Rightarrow> x | _ \<Rightarrow> SourceRequired)), d))"
  by (auto simp: ingest_body_def row_reaches_def split: sum.splits prod.splits option.splits bool.splits)

lemma ingest_outcomes:
  assumes "service_wf d"
  obtains (rejected) x d' where "ingest_body parse_uuid r d = (Inl (Rejects x), d')" and "\<forall>source u t cents. row_reaches parse_uuid r d = Some (source, u, t, cents) \<longrightarrow> CHR 0x00 \<notin> set source \<and> \<not> row_passes source t cents r d"
  | (nul) source u t cents where "row_reaches parse_uuid r d = Some (source, u, t, cents)" and "CHR 0x00 \<in> set source" and "ingest_body parse_uuid r d = (Inl NulInSource, d)"
  | (overflow) source u t cents d' where "row_reaches parse_uuid r d = Some (source, u, t, cents)" and "row_passes source t cents r d" and "CHR 0x00 \<notin> set source"
      and "MAX_TOTAL < lines_total (sa_lines (header_at source u t r d) @ [new_line r cents])" and "ingest_body parse_uuid r d = (Inl HeaderTotalOverflow, d')"
  | (accepted) source u t cents where "row_reaches parse_uuid r d = Some (source, u, t, cents)" and "row_passes source t cents r d" and "CHR 0x00 \<notin> set source"
      and "lines_total (sa_lines (header_at source u t r d) @ [new_line r cents]) \<le> MAX_TOTAL" and "ingest_body parse_uuid r d = (Inr (), with_line source u t cents r d)"
      and "0 < sr_quantity r"
proof (cases "row_reaches parse_uuid r d")
  case None
  then have "ingest_body parse_uuid r d = (Inl (Rejects (case fst (ingest_body parse_uuid r d) of Inl (Rejects x) \<Rightarrow> x | _ \<Rightarrow> SourceRequired)), d)"
    using ingest_body_reaches [of parse_uuid r d] by simp
  then show thesis using rejected None by simp
next
  case (Some reached)
  obtain source u t cents where reached: "reached = (source, u, t, cents)" by (cases reached) auto
  have body: "ingest_body parse_uuid r d = persist_row source u t cents r d" using ingest_body_reaches [of parse_uuid r d] Some reached by simp
  have quantity: "0 < sr_quantity r"
    using Some reached row_checks_facts(1) by (auto simp: row_reaches_def split: sum.splits prod.splits)
  consider "CHR 0x00 \<in> set source" | "CHR 0x00 \<notin> set source" "\<not> row_passes source t cents r d" | "CHR 0x00 \<notin> set source" "row_passes source t cents r d" by blast
  then show thesis
  proof cases
    case 1
    then show ?thesis using nul [of source u t cents] Some reached body by (simp add: persist_row_def)
  next
    case 2
    from persist_row_rejects [OF assms 2(2,1), of u] obtain x d' where "persist_row source u t cents r d = (Inl (Rejects x), d')" by blast
    then show ?thesis using rejected 2 Some reached body by simp
  next
    case 3
    then show ?thesis
      using overflow [of source u t cents] accepted [of source u t cents] persist_row_passes [OF assms 3(2,1), of u] Some reached body quantity
      by (cases "MAX_TOTAL < lines_total (sa_lines (header_at source u t r d) @ [new_line r cents])") simp_all
  qed
qed

lemma ingest_keeps:
  assumes "service_wf d" and "ingest_body parse_uuid r d = (Inr x, d')"
  shows "service_wf d'"
    and "on_hand (sh_stock (sv_shop d')) s p + sold_units (sh_sales (sv_shop d')) s p = on_hand (sh_stock (sv_shop d)) s p + sold_units (sh_sales (sv_shop d)) s p"
    and "filter phone_sale (sh_sales (sv_shop d')) = filter phone_sale (sh_sales (sv_shop d))"
  using assms with_line_wf [OF assms(1)] with_line_accounted [OF assms(1)]
  by (cases rule: ingest_outcomes [OF assms(1), of parse_uuid r]; force)+

text \<open>A row that does not commit leaves nothing behind, and a load is its rows one after the other.\<close>

lemma ingest_row_at_rest:
  "ingest_row parse_uuid r False (at_rest d) = (case ingest_body parse_uuid r d of (Inr x, d') \<Rightarrow> (Inr x, at_rest d') | (Inl e, d') \<Rightarrow> (Inl e, at_rest d))"
  unfolding ingest_row_def by (rule atomic_statements)

section \<open>Loading a file again\<close>

definition same_header :: "shop_sale \<Rightarrow> shop_sale \<Rightarrow> bool" where
  "same_header s s' \<longleftrightarrow> sa_source s' = sa_source s \<and> sa_customer s' = sa_customer s \<and> sa_store s' = sa_store s \<and> sa_channel s' = sa_channel s
     \<and> sa_at s' = sa_at s \<and> sa_origin s' = sa_origin s \<and> set (sa_lines s) \<subseteq> set (sa_lines s')"

text \<open>A header that passed the checks of an insertion.\<close>

definition insertable :: "service_db \<Rightarrow> shop_sale \<Rightarrow> bool" where
  "insertable d s \<longleftrightarrow> length (sa_source s) \<le> 64 \<and> \<not> phone_sale s \<and> smallint (int (sa_store s)) \<and> smallint (int (sa_channel s))
     \<and> sa_store s \<in> set (map st_id (sh_stores (sv_shop d))) \<and> sa_channel s \<in> set (map ch_id (sh_channels (sv_shop d)))"

text \<open>What rows that were accepted leave as it was, and what they only take from or add to.\<close>

definition later :: "service_db \<Rightarrow> service_db \<Rightarrow> bool" where
  "later d d' \<longleftrightarrow> sh_customers (sv_shop d') = sh_customers (sv_shop d) \<and> sh_products (sv_shop d') = sh_products (sv_shop d)
     \<and> sh_stores (sv_shop d') = sh_stores (sv_shop d) \<and> sh_channels (sv_shop d') = sh_channels (sv_shop d) \<and> sv_clock d \<le> sv_clock d'
     \<and> (\<forall>k'\<in>set (sh_stock (sv_shop d')). \<exists>k\<in>set (sh_stock (sv_shop d)). sk_store k = sk_store k' \<and> sk_product k = sk_product k' \<and> sk_quantity k' \<le> sk_quantity k)
     \<and> (\<forall>s\<in>set (sh_sales (sv_shop d)). \<exists>s'\<in>set (sh_sales (sv_shop d')). same_header s s')
     \<and> (\<forall>s'\<in>set (sh_sales (sv_shop d')). (\<exists>s\<in>set (sh_sales (sv_shop d)). same_header s s') \<or> insertable d s')"

lemma same_header_refl [simp]: "same_header s s"
  by (simp add: same_header_def)

lemma same_header_trans: "same_header s s' \<Longrightarrow> same_header s' s'' \<Longrightarrow> same_header s s''"
  by (auto simp: same_header_def)

lemma insertable_same: "insertable d s \<Longrightarrow> same_header s s' \<Longrightarrow> insertable d s'"
  by (simp add: insertable_def same_header_def phone_sale_def)

lemma later_refl: "later d d"
  unfolding later_def by (intro conjI ballI bexI disjI1) (simp_all add: same_header_def)

lemma later_clock: "later d (d\<lparr>sv_clock := sv_clock d + int n\<rparr>)"
  using later_refl [of d] by (simp add: later_def)

lemma later_trans:
  assumes "later d d'" and "later d' d''"
  shows "later d d''"
proof -
  have "\<forall>k''\<in>set (sh_stock (sv_shop d'')). \<exists>k\<in>set (sh_stock (sv_shop d)). sk_store k = sk_store k'' \<and> sk_product k = sk_product k'' \<and> sk_quantity k'' \<le> sk_quantity k"
    using assms unfolding later_def by (metis order_trans)
  moreover have "\<forall>s\<in>set (sh_sales (sv_shop d)). \<exists>s''\<in>set (sh_sales (sv_shop d'')). same_header s s''"
    using assms same_header_trans unfolding later_def by metis
  moreover have "\<forall>s''\<in>set (sh_sales (sv_shop d'')). (\<exists>s\<in>set (sh_sales (sv_shop d)). same_header s s'') \<or> insertable d s''"
  proof
    fix s''
    assume "s'' \<in> set (sh_sales (sv_shop d''))"
    then consider s' where "s' \<in> set (sh_sales (sv_shop d'))" "same_header s' s''" | "insertable d' s''" using assms(2) unfolding later_def by blast
    then show "(\<exists>s\<in>set (sh_sales (sv_shop d)). same_header s s'') \<or> insertable d s''"
    proof cases
      case (1 s')
      then show ?thesis using assms(1) same_header_trans insertable_same unfolding later_def by metis
    next
      case 2
      then show ?thesis using assms(1) by (simp add: later_def insertable_def)
    qed
  qed
  ultimately show ?thesis using assms by (simp add: later_def)
qed

lemma transaction_unique:
  assumes "service_wf d" and "s \<in> set (sh_sales (sv_shop d))"
  shows "get_transaction_by_source_id (sa_source s) d = Some s"
  using find_unique [of sa_source "sh_sales (sv_shop d)" s] assms by (simp add: get_transaction_by_source_id_def service_wf_def)

lemma passes_later:
  assumes wf: "service_wf d" "service_wf d'" and later: "later d d'" and pass: "row_passes source t cents r d'"
  shows "row_passes source t cents r d"
proof -
  have same: "sh_products (sv_shop d') = sh_products (sv_shop d)" "sh_stores (sv_shop d') = sh_stores (sv_shop d)" "sh_channels (sv_shop d') = sh_channels (sv_shop d)"
    using later by (simp_all add: later_def)
  have p: "header_passes source t r d'" "line_passes source cents r d'" "stock_passes r d'" using pass by (simp_all add: row_passes_def)
  have stock: "stock_passes r d"
  proof -
    obtain k' where k': "k' \<in> set (sh_stock (sv_shop d'))" "int (sk_store k') = sr_store r" "int (sk_product k') = sr_product r" "sr_quantity r \<le> sk_quantity k'"
      using p(3) by (auto simp: stock_passes_def)
    then obtain k where "k \<in> set (sh_stock (sv_shop d))" "sk_store k = sk_store k'" "sk_product k = sk_product k'" "sk_quantity k' \<le> sk_quantity k"
      using later by (auto simp: later_def)
    then show ?thesis using k' by (auto simp: stock_passes_def intro!: bexI [of _ k])
  qed
  show ?thesis
  proof (cases "get_transaction_by_source_id source d'")
    case None
    have "get_transaction_by_source_id source d = None"
    proof (cases "get_transaction_by_source_id source d")
      case (Some s)
      then obtain s' where "s' \<in> set (sh_sales (sv_shop d'))" "sa_source s' = source"
        using later transaction_source [OF Some] by (auto simp: later_def same_header_def)
      then show ?thesis using transaction_unique [OF wf(2)] None by fastforce
    qed
    then show ?thesis using p stock None by (simp add: row_passes_def header_passes_def line_passes_def same)
  next
    case (Some s')
    note s' = transaction_source [OF Some]
    consider s where "s \<in> set (sh_sales (sv_shop d))" "same_header s s'" | "get_transaction_by_source_id source d = None" "insertable d s'"
    proof (cases "get_transaction_by_source_id source d")
      case None
      then have "\<not> (\<exists>s\<in>set (sh_sales (sv_shop d)). same_header s s')"
        using s' transaction_unique [OF wf(1)] by (fastforce simp: same_header_def)
      then show thesis using that(2) None later s' by (auto simp: later_def)
    next
      case (Some s)
      then obtain s1 where "s1 \<in> set (sh_sales (sv_shop d'))" "same_header s s1" using later transaction_source [OF Some] by (auto simp: later_def)
      moreover from this have "s1 = s'"
        using transaction_unique [OF wf(2)] s' transaction_source [OF Some] by (metis option.inject same_header_def)
      ultimately show thesis using that(1) transaction_source [OF Some] by blast
    qed
    then show ?thesis
    proof cases
      case (1 s)
      then have "get_transaction_by_source_id source d = Some s" using transaction_unique [OF wf(1) 1(1)] s' by (simp add: same_header_def)
      then show ?thesis
        using p stock Some 1(2) by (auto simp: row_passes_def header_passes_def line_passes_def same same_header_def phone_sale_def)
    next
      case 2
      have "sr_store r = int (sa_store s')" "sr_channel r = int (sa_channel s')" using p(1) Some by (auto simp: header_passes_def)
      then show ?thesis
        using 2 p(2) stock s' Some by (auto simp: row_passes_def header_passes_def line_passes_def same insertable_def phone_sale_def)
    qed
  qed
qed

lemma accepted_later:
  fixes u :: nat
  assumes wf: "service_wf d" and pass: "row_passes source t cents r d" and quantity: "0 < sr_quantity r"
  defines "d' \<equiv> with_line source u t cents r d"
  shows "later d d'" and "\<exists>s\<in>set (sh_sales (sv_shop d')). sa_source s = source \<and> sr_product r \<in> set (map (int \<circ> li_product) (sa_lines s))"
proof -
  let ?h = "header_at source u t r d" and ?d1 = "with_header source u t r d" and ?l = "new_line r cents"
  have parts: "header_passes source t r d" "line_passes source cents r d" using pass by (simp_all add: row_passes_def)
  note h = row_header [OF wf pass, of u]
  have ids: "distinct (map sa_id (sh_sales (sv_shop ?d1)))" using with_header_wf(1) [OF wf parts(1), of u] by (simp add: service_wf_def)
  have only: "s = ?h" if "s \<in> set (sh_sales (sv_shop ?d1))" "sa_id s = sa_id ?h" for s
    using that h(1) ids by (auto simp: distinct_map dest: inj_onD)
  have sales: "sh_sales (sv_shop d') = map (\<lambda>s. if sa_id s = sa_id ?h then extended ?l s else s) (sh_sales (sv_shop ?d1))"
    unfolding d'_def by (rule with_line_sales)
  have grown: "same_header s (extended ?l s)" for s by (auto simp: same_header_def)
  have up: "\<exists>s'\<in>set (sh_sales (sv_shop d')). same_header s s'" if "s \<in> set (sh_sales (sv_shop ?d1))" for s
  proof (cases "sa_id s = sa_id ?h")
    case True
    then show ?thesis using that grown [of s] unfolding sales by force
  next
    case False
    then have "s \<in> set (map (\<lambda>s. if sa_id s = sa_id ?h then extended ?l s else s) (sh_sales (sv_shop ?d1)))" using that by force
    then show ?thesis unfolding sales using same_header_refl by blast
  qed
  have down: "\<exists>s\<in>set (sh_sales (sv_shop ?d1)). same_header s s'" if "s' \<in> set (sh_sales (sv_shop d'))" for s'
    using that grown unfolding sales by force
  have new: "insertable d ?h" if "get_transaction_by_source_id source d = None"
  proof -
    have "sr_store r = int (sa_store ?h)" "sr_channel r = int (sa_channel ?h)"
      using that parts(1) by (auto simp: header_at_def header_passes_def)
    then show ?thesis using that parts(1) h(2,4) by (auto simp: insertable_def header_passes_def)
  qed
  have "(\<exists>s\<in>set (sh_sales (sv_shop d)). same_header s s') \<or> insertable d s'" if member: "s' \<in> set (sh_sales (sv_shop d'))" for s'
  proof -
    obtain s where s: "s \<in> set (sh_sales (sv_shop ?d1))" "same_header s s'" using down [OF member] by blast
    then consider "s \<in> set (sh_sales (sv_shop d))" | "s = ?h" "get_transaction_by_source_id source d = None"
      using with_header_wf(4) [OF wf parts(1), of u] by auto
    then show ?thesis using s(2) new insertable_same by cases auto
  qed
  moreover have "\<forall>s\<in>set (sh_sales (sv_shop d)). \<exists>s'\<in>set (sh_sales (sv_shop d')). same_header s s'"
    using up with_header_wf(2) [OF wf parts(1), of u] by blast
  moreover have "\<forall>k'\<in>set (sh_stock (sv_shop d')). \<exists>k\<in>set (sh_stock (sv_shop d)). sk_store k = sk_store k' \<and> sk_product k = sk_product k' \<and> sk_quantity k' \<le> sk_quantity k"
    using quantity unfolding d'_def with_line_stock(1) [OF wf pass quantity] by (force simp: consumed_def new_line_def)
  ultimately show "later d d'" by (simp add: later_def d'_def)
  have "extended ?l ?h \<in> set (sh_sales (sv_shop d'))" using h(1) unfolding sales by force
  moreover have "int (nat (sr_product r)) = sr_product r" using parts(2) by (auto simp: line_passes_def)
  ultimately show "\<exists>s\<in>set (sh_sales (sv_shop d')). sa_source s = source \<and> sr_product r \<in> set (map (int \<circ> li_product) (sa_lines s))"
    using h(4) by (intro bexI [of _ "extended ?l ?h"]) (simp_all add: new_line_def)
qed

lemma row_reaches_later:
  assumes "later d d'"
  shows "row_reaches parse_uuid r d = Some x \<Longrightarrow> row_reaches parse_uuid r d' = Some x"
    and "row_checks (sv_clock d) r \<noteq> Inl RowInFuture \<Longrightarrow> row_reaches parse_uuid r d' = row_reaches parse_uuid r d"
proof -
  have checks: "row_checks (sv_clock d') r = row_checks (sv_clock d) r" if "row_checks (sv_clock d) r \<noteq> Inl RowInFuture"
    using that assms by (auto simp: row_checks_def later_def Let_def split: timestamp_text.split if_splits)
  have references: "get_sale_references parse_uuid c p d' = get_sale_references parse_uuid c p d" for c p
    using assms by (cases "parse_uuid c") (simp_all add: get_sale_references_def later_def)
  show "row_checks (sv_clock d) r \<noteq> Inl RowInFuture \<Longrightarrow> row_reaches parse_uuid r d' = row_reaches parse_uuid r d"
    by (cases "row_checks (sv_clock d) r") (auto simp: row_reaches_def checks references)
  then show "row_reaches parse_uuid r d = Some x \<Longrightarrow> row_reaches parse_uuid r d' = Some x"
    by (cases "row_checks (sv_clock d) r = Inl RowInFuture") (simp_all add: row_reaches_def)
qed

text \<open>A row that was refused, but for its future date, is refused later; and one that was accepted is refused from then on.\<close>

lemma refused_later:
  assumes wf: "service_wf d" "service_wf d'" and later: "later d d'"
    and refused: "ingest_body parse_uuid r d = (Inl (Rejects x), e)" "x \<noteq> RowInFuture"
  shows "\<exists>y e'. ingest_body parse_uuid r d' = (Inl (Rejects y), e')"
proof -
  have "row_checks (sv_clock d) r \<noteq> Inl RowInFuture" using refused by (auto simp: ingest_body_def)
  note same = row_reaches_later(2) [OF later this, of parse_uuid]
  have not_passing: "CHR 0x00 \<notin> set source \<and> \<not> row_passes source t cents r d" if "row_reaches parse_uuid r d = Some (source, u, t, cents)" for source u t cents
    by (rule ingest_outcomes [OF wf(1), of parse_uuid r]) (use refused that in auto)
  show ?thesis
  proof (rule ingest_outcomes [OF wf(2), of parse_uuid r])
    fix source u t cents e'
    assume "row_reaches parse_uuid r d' = Some (source, u, t, cents)" "row_passes source t cents r d'"
    then show ?thesis using not_passing passes_later [OF wf later] same by metis
  next
    fix source u t cents
    assume "row_reaches parse_uuid r d' = Some (source, u, t, cents)" "row_passes source t cents r d'"
    then show ?thesis using not_passing passes_later [OF wf later] same by metis
  next
    fix source u t cents
    assume "row_reaches parse_uuid r d' = Some (source, u, t, cents)" "CHR 0x00 \<in> set source"
    then show ?thesis using not_passing same by metis
  qed blast
qed

lemma refused_after:
  assumes wf: "service_wf d" "service_wf d'" and accepted: "ingest_body parse_uuid r d = (Inr x, d1)" and later: "later d1 d'"
  shows "\<exists>y e'. ingest_body parse_uuid r d' = (Inl (Rejects y), e')"
proof -
  obtain source u t cents where reach: "row_reaches parse_uuid r d = Some (source, u, t, cents)" and pass: "row_passes source t cents r d" "CHR 0x00 \<notin> set source" "0 < sr_quantity r"
    and d1: "d1 = with_line source u t cents r d"
    by (rule ingest_outcomes [OF wf(1), of parse_uuid r]) (use accepted in auto)
  from accepted_later(2) [OF wf(1) pass(1,3), of u] obtain s where "s \<in> set (sh_sales (sv_shop d1))" "sa_source s = source" "sr_product r \<in> set (map (int \<circ> li_product) (sa_lines s))"
    by (auto simp: d1)
  then obtain s' where s': "s' \<in> set (sh_sales (sv_shop d'))" "sa_source s' = source" "sr_product r \<in> set (map (int \<circ> li_product) (sa_lines s'))"
    using later unfolding later_def same_header_def by fastforce
  then have found: "get_transaction_by_source_id source d' = Some s'" using transaction_unique [OF wf(2)] by auto
  have not_passing: "\<not> row_passes source t' cents' r d'" for t' cents' using found s'(3) by (auto simp: row_passes_def line_passes_def)
  have "row_reaches parse_uuid r d' = Some (source, u, t, cents)"
    by (rule row_reaches_later(1) [OF later_trans [OF accepted_later(1) [OF wf(1) pass(1,3)] later [unfolded d1]] reach])
  then show ?thesis using not_passing pass(2) by (cases rule: ingest_outcomes [OF wf(2), of parse_uuid r]) auto
qed

end
