(* ===== verification/Sales_Loads.thy ===== *)
theory Sales_Loads
  imports Sales_Import
begin

text \<open>
  The sales file of the administrator: the adapter of \<open>web/services/sales_csv.py\<close>, the recorded loads of
  \<open>web/db/sales_loads.py\<close>, and the upload and the report of \<open>web/routes/sales_import.py\<close>. \<open>datetime.fromisoformat\<close> and
  \<open>secure_filename\<close> are parameters; the bytes of a file are its text when they are UTF-8.
\<close>

section \<open>One file\<close>

text \<open>\<open>int(text)\<close>, which takes white space around and underscores between digits, and at most 4300 of them.\<close>

definition py_int :: "string \<Rightarrow> int option" where
  "py_int raw =
    (case sign_of (py_strip raw) of (negative, s) \<Rightarrow>
      let digits = filter (\<lambda>c. c \<noteq> CHR ''_'') s
      in if list_all ascii_digits (split_on (CHR ''_'') s) \<and> length digits \<le> INT_DIGITS_MAX
         then Some (if negative then - int (digits_value digits) else int (digits_value digits)) else None)"

definition EXPECTED_HEADER :: "string list" where
  "EXPECTED_HEADER = [''transaction_id'', ''customer_id'', ''store_id'', ''channel_id'', ''occurred_at'', ''product_id'', ''quantity'', ''unit_price'']"

definition CONTRACT_VERSION :: int where "CONTRACT_VERSION = 1"

definition column :: "string \<Rightarrow> string \<Rightarrow> 'a option \<Rightarrow> ('a \<Rightarrow> rejection + 'b) \<Rightarrow> rejection + 'b" where
  "column name expected v k = (case v of None \<Rightarrow> Inl (MalformedColumn name expected) | Some x \<Rightarrow> k x)"

text \<open>\<open>_parse_row\<close> of the record \<open>DictReader\<close> pairs with the header.\<close>

definition parse_row :: "(string \<Rightarrow> timestamp_text) \<Rightarrow> string list \<Rightarrow> rejection + sales_row" where
  "parse_row parse_time cells =
    (case cells of
       [source, customer, store, channel, occurred, product, quantity, price] \<Rightarrow>
         (case parse_time occurred of
            MalformedTimestamp \<Rightarrow> Inl (MalformedColumn ''occurred_at'' ''an ISO 8601 date and time'')
          | NoOffset \<Rightarrow> Inl OffsetMissing
          | at_time \<Rightarrow>
              column ''store_id'' ''a whole number'' (py_int store) (\<lambda>s.
              column ''channel_id'' ''a whole number'' (py_int channel) (\<lambda>c.
              column ''product_id'' ''a whole number'' (py_int product) (\<lambda>p.
              column ''quantity'' ''a whole number'' (py_int quantity) (\<lambda>q.
              column ''unit_price'' ''a decimal number'' (py_decimal price) (\<lambda>v.
                Inr \<lparr>sr_source = py_strip source, sr_customer = py_strip customer, sr_store = s, sr_channel = c, sr_at = at_time, sr_product = p,
                  sr_quantity = q, sr_price = v\<rparr>))))))
     | _ \<Rightarrow> Inl (if length cells > 8 then ExtraColumns else MissingColumns))"

record load_report =
  lr_received :: nat
  lr_accepted :: nat
  lr_rejected :: nat
  lr_rejections :: "(nat \<times> rejection) list"

datatype load_error = UnsupportedVersion int | NotUtf8 | Unparsable nat csv_error | HeaderMismatch | Escapes row_failure

text \<open>The loop over the records: the rejections, unless an error escapes; each row is its own unit of work.\<close>

fun ingest_records ::
  "(string \<Rightarrow> timestamp_text) \<Rightarrow> (string \<Rightarrow> nat option) \<Rightarrow> nat \<Rightarrow> string list list \<Rightarrow> service_db session \<Rightarrow> (row_failure + (nat \<times> rejection) list) \<times> service_db session" where
  "ingest_records parse_time parse_uuid n [] s = (Inr [], s)"
| "ingest_records parse_time parse_uuid n (cells # records) s =
    (case (case parse_row parse_time cells of Inl x \<Rightarrow> (Inl (Rejects x), s) | Inr row \<Rightarrow> ingest_row parse_uuid row False s) of
       (Inl (Rejects x), s') \<Rightarrow>
         (case ingest_records parse_time parse_uuid (Suc n) records s' of (Inl e, s'') \<Rightarrow> (Inl e, s'') | (Inr xs, s'') \<Rightarrow> (Inr ((n, x) # xs), s''))
     | (Inl e, s') \<Rightarrow> (Inl e, s')
     | (Inr _, s') \<Rightarrow> ingest_records parse_time parse_uuid (Suc n) records s')"

text \<open>A blank line is no record.\<close>

definition load_sales_csv ::
  "(string \<Rightarrow> timestamp_text) \<Rightarrow> (string \<Rightarrow> nat option) \<Rightarrow> int \<Rightarrow> string option \<Rightarrow> service_db session \<Rightarrow> (load_error + load_report) \<times> service_db session" where
  "load_sales_csv parse_time parse_uuid contract_version file s =
    (if contract_version \<noteq> CONTRACT_VERSION then (Inl (UnsupportedVersion contract_version), s)
     else case file of
         None \<Rightarrow> (Inl NotUtf8, s)
       | Some content \<Rightarrow>
           (case read_csv content of
              Inl (n, e) \<Rightarrow> (Inl (Unparsable n e), s)
            | Inr [] \<Rightarrow> (Inl HeaderMismatch, s)
            | Inr (header # records) \<Rightarrow>
                if header \<noteq> EXPECTED_HEADER then (Inl HeaderMismatch, s)
                else (let rows = filter (\<lambda>r. r \<noteq> []) records
                      in case ingest_records parse_time parse_uuid 2 rows s of
                          (Inl e, s') \<Rightarrow> (Inl (Escapes e), s')
                        | (Inr xs, s') \<Rightarrow>
                            (Inr \<lparr>lr_received = length rows, lr_accepted = length rows - length xs, lr_rejected = length xs, lr_rejections = xs\<rparr>, s'))))"

section \<open>The recorded loads\<close>

record sales_load =
  sl_load :: nat
  sl_filename :: string
  sl_version :: int
  sl_received :: nat
  sl_accepted :: nat
  sl_rejected :: nat
  sl_by :: "nat option"
  sl_loaded_at :: int

record rejection_row =
  rj_load :: nat
  rj_line :: nat
  rj_reason :: string

record import_db =
  im_service :: service_db
  im_app :: app_db
  im_loads :: "sales_load list"
  im_rejections :: "rejection_row list"
  im_next_load :: nat

datatype record_error = ValueTooLong | CountsDisagree | UnknownLoader | NotAnnounced note_error

definition insert_sales_load ::
  "string \<Rightarrow> int \<Rightarrow> nat \<Rightarrow> nat \<Rightarrow> nat \<Rightarrow> nat option \<Rightarrow> (nat \<times> string) list \<Rightarrow> int \<Rightarrow> import_db \<Rightarrow> (record_error + nat) \<times> import_db" where
  "insert_sales_load filename version received accepted rejected by rejections now d =
    (if 255 < length filename \<or> INT_MAX < received then (Inl ValueTooLong, d)
     else if received \<noteq> accepted + rejected then (Inl CountsDisagree, d)
     else if (case by of None \<Rightarrow> False | Some u \<Rightarrow> find_user (accounts (im_app d)) u = None) then (Inl UnknownLoader, d)
     else if list_ex (\<lambda>(n, reason). INT_MAX < n \<or> 255 < length reason) rejections then (Inl ValueTooLong, d)
     else (Inr (im_next_load d),
       d\<lparr>im_loads := im_loads d @ [\<lparr>sl_load = im_next_load d, sl_filename = filename, sl_version = version, sl_received = received, sl_accepted = accepted,
             sl_rejected = rejected, sl_by = by, sl_loaded_at = now\<rparr>],
         im_rejections := im_rejections d @ map (\<lambda>(n, reason). \<lparr>rj_load = im_next_load d, rj_line = n, rj_reason = reason\<rparr>) rejections,
         im_next_load := im_next_load d + 1\<rparr>))"

definition record_load_body :: "load_report \<Rightarrow> string \<Rightarrow> int \<Rightarrow> nat option \<Rightarrow> import_db \<Rightarrow> (record_error + nat) \<times> import_db" where
  "record_load_body report filename version by d =
    (let now = sv_clock (im_service d)
     in case insert_sales_load filename version (lr_received report) (lr_accepted report) (lr_rejected report) by
            (map (\<lambda>(n, x). (n, reason_text x)) (lr_rejections report)) now d of
         (Inl e, d1) \<Rightarrow> (Inl e, d1)
       | (Inr i, d1) \<Rightarrow>
           (case write_event now (SalesLoadSubject i) (im_app d1) of
              (Inl e, a) \<Rightarrow> (Inl (NotAnnounced e), d1\<lparr>im_app := a\<rparr>)
            | (Inr _, a) \<Rightarrow> (Inr i, d1\<lparr>im_app := a\<rparr>)))"

definition record_load :: "load_report \<Rightarrow> string \<Rightarrow> int \<Rightarrow> nat option \<Rightarrow> (import_db, record_error, nat) operation" where
  "record_load report filename version by = atomic (statements (record_load_body report filename version by))"

datatype import_error = NotLoaded load_error | NotRecorded record_error

definition load_and_record_sales_csv ::
  "(string \<Rightarrow> timestamp_text) \<Rightarrow> (string \<Rightarrow> nat option) \<Rightarrow> string option \<Rightarrow> string \<Rightarrow> int \<Rightarrow> nat option \<Rightarrow> import_db \<Rightarrow> (import_error + load_report \<times> nat) \<times> import_db" where
  "load_and_record_sales_csv parse_time parse_uuid file filename version by d =
    (case load_sales_csv parse_time parse_uuid version file (at_rest (im_service d)) of
       (Inl e, s) \<Rightarrow> (Inl (NotLoaded e), d\<lparr>im_service := committed s\<rparr>)
     | (Inr report, s) \<Rightarrow>
         (case record_load report filename version by False (at_rest (d\<lparr>im_service := committed s\<rparr>)) of
            (Inl e, s') \<Rightarrow> (Inl (NotRecorded e), committed s')
          | (Inr i, s') \<Rightarrow> (Inr (report, i), committed s')))"


text \<open>Most recent first.\<close>

definition list_sales_loads :: "nat \<Rightarrow> nat \<Rightarrow> import_db \<Rightarrow> sales_load list \<times> nat" where
  "list_sales_loads page per_page d =
    (take per_page (drop ((page - 1) * per_page) (sort_key (\<lambda>l. - sl_loaded_at l) (sort_key (\<lambda>l. - int (sl_load l)) (im_loads d)))), length (im_loads d))"

definition list_sales_load_rejections :: "nat \<Rightarrow> import_db \<Rightarrow> (nat \<times> string) list" where
  "list_sales_load_rejections i d = sort_key fst (map (\<lambda>r. (rj_line r, rj_reason r)) (filter (\<lambda>r. rj_load r = i) (im_rejections d)))"

definition list_sales_load_rejections_page :: "nat \<Rightarrow> nat \<Rightarrow> nat \<Rightarrow> import_db \<Rightarrow> (nat \<times> string) list \<times> nat" where
  "list_sales_load_rejections_page i page per_page d =
    (take per_page (drop ((page - 1) * per_page) (list_sales_load_rejections i d)), length (filter (\<lambda>r. rj_load r = i) (im_rejections d)))"



section \<open>The upload\<close>

definition FILENAME_MAX :: nat where "FILENAME_MAX = 255"

datatype upload_answer = NoFile | FileTooLarge | FileRefused load_error | SeeReport nat | ServerError import_error

definition stored_filename :: "(string \<Rightarrow> string) \<Rightarrow> string \<Rightarrow> string" where
  "stored_filename secure_filename name = (let f = take FILENAME_MAX (secure_filename name) in if f = [] then ''upload.csv'' else f)"

text \<open>\<open>upload\<close>: the submitted name and content, and the size of the file in bytes.\<close>

definition upload ::
  "(string \<Rightarrow> timestamp_text) \<Rightarrow> (string \<Rightarrow> nat option) \<Rightarrow> (string \<Rightarrow> string) \<Rightarrow> nat \<Rightarrow> nat option \<Rightarrow> (string \<times> nat \<times> string option) option \<Rightarrow> import_db
    \<Rightarrow> upload_answer \<times> import_db" where
  "upload parse_time parse_uuid secure_filename max_bytes by submitted d =
    (case submitted of
       None \<Rightarrow> (NoFile, d)
     | Some (name, bytes, content) \<Rightarrow>
         if name = [] then (NoFile, d)
         else if bytes > max_bytes then (FileTooLarge, d)
         else (case load_and_record_sales_csv parse_time parse_uuid content (stored_filename secure_filename name) CONTRACT_VERSION by d of
             (Inr (_, i), d') \<Rightarrow> (SeeReport i, d')
           | (Inl (NotLoaded (Escapes e)), d') \<Rightarrow> (ServerError (NotLoaded (Escapes e)), d')
           | (Inl (NotLoaded e), d') \<Rightarrow> (FileRefused e, d')
           | (Inl e, d') \<Rightarrow> (ServerError e, d')))"


section \<open>A load is its rows\<close>

lemma ingest_records_invariant:
  assumes step: "\<And>d r x d'. P d \<Longrightarrow> ingest_body parse_uuid r d = (Inr x, d') \<Longrightarrow> P d'"
    and "P d" and "ingest_records parse_time parse_uuid n records (at_rest d) = (res, s)"
  shows "\<exists>d'. s = at_rest d' \<and> P d'"
  using assms(2,3)
proof (induction records arbitrary: n d res s)
  case Nil
  then show ?case by auto
next
  case (Cons cells records)
  obtain o1 d1 where first: "(case parse_row parse_time cells of Inl x \<Rightarrow> (Inl (Rejects x), at_rest d) | Inr row \<Rightarrow> ingest_row parse_uuid row False (at_rest d)) = (o1, at_rest d1)" and P: "P d1"
  proof (cases "parse_row parse_time cells")
    case (Inl x)
    then show thesis using that [of "Inl (Rejects x)" d] Cons.prems(1) by simp
  next
    case (Inr row)
    obtain r1 d2 where body: "ingest_body parse_uuid row d = (r1, d2)" by fastforce
    show thesis
    proof (cases r1)
      case (Inl e)
      then show thesis using that [of "Inl e" d] Cons.prems(1) by (simp add: Inr ingest_row_at_rest body)
    next
      case (Inr x)
      then show thesis using that [of "Inr x" d2] step [OF Cons.prems(1)] body \<open>parse_row parse_time cells = Inr row\<close> by (simp add: ingest_row_at_rest)
    qed
  qed
  obtain res' s' where rest: "ingest_records parse_time parse_uuid (Suc n) records (at_rest d1) = (res', s')" by fastforce
  from Cons.IH [OF P rest] obtain d' where "s' = at_rest d'" "P d'" by blast
  then show ?case using Cons.prems(2) P by (auto simp: first rest split: sum.splits row_failure.splits)
qed

section \<open>Whatever the file holds\<close>

text \<open>
  C11. An import conserves the stock: whatever the file holds, and whether the load finishes, is refused or is stopped by an
  error, what is on hand of a product at a store and what the sales there took of it add up to what they did before; no
  quantity is negative, the total of every sale is the sum of its lines, and the phone sales are untouched.
\<close>

theorem import_conserves_stock:
  assumes "service_wf (im_service d)" and "load_and_record_sales_csv parse_time parse_uuid file filename version by d = (res, d')"
  shows "service_wf (im_service d')
    \<and> on_hand (sh_stock (sv_shop (im_service d'))) s p + sold_units (sh_sales (sv_shop (im_service d'))) s p
      = on_hand (sh_stock (sv_shop (im_service d))) s p + sold_units (sh_sales (sv_shop (im_service d))) s p
    \<and> list_all (\<lambda>k. 0 \<le> sk_quantity k) (sh_stock (sv_shop (im_service d')))
    \<and> list_all (\<lambda>x. sa_total x = lines_total (sa_lines x)) (sh_sales (sv_shop (im_service d')))
    \<and> filter phone_sale (sh_sales (sv_shop (im_service d'))) = filter phone_sale (sh_sales (sv_shop (im_service d)))"
proof -
  let ?P = "\<lambda>e. service_wf e
    \<and> on_hand (sh_stock (sv_shop e)) s p + sold_units (sh_sales (sv_shop e)) s p
      = on_hand (sh_stock (sv_shop (im_service d))) s p + sold_units (sh_sales (sv_shop (im_service d))) s p
    \<and> filter phone_sale (sh_sales (sv_shop e)) = filter phone_sale (sh_sales (sv_shop (im_service d)))"
  have records: "\<exists>e. w = at_rest e \<and> ?P e" if "ingest_records parse_time parse_uuid n rows (at_rest (im_service d)) = (x, w)" for n rows x w
    by (rule ingest_records_invariant [OF _ _ that]) (use assms(1) ingest_keeps(1,3) ingest_keeps(2) [where s = s and p = p] in auto)
  obtain x w where load: "load_sales_csv parse_time parse_uuid version file (at_rest (im_service d)) = (x, w)" by fastforce
  have "\<exists>e. w = at_rest e \<and> ?P e"
    using load assms(1) records
    by (fastforce simp: load_sales_csv_def Let_def split: if_splits option.splits sum.splits list.splits prod.splits)
  then obtain e where e: "w = at_rest e" "?P e" by blast
  have kept: "im_service (snd (record_load_body report filename version by d0)) = im_service d0" for report d0
    by (auto simp: record_load_body_def insert_sales_load_def Let_def split: prod.split sum.split)
  have "im_service d' = e"
  proof (cases x)
    case (Inl err)
    then show ?thesis using assms(2) load by (auto simp: load_and_record_sales_csv_def e(1))
  next
    case (Inr report)
    have "im_service (committed (snd (record_load report filename version by False (at_rest (d\<lparr>im_service := e\<rparr>))))) = e"
      using kept [of report "d\<lparr>im_service := e\<rparr>"] by (auto simp: record_load_def atomic_statements split: prod.split sum.split)
    then show ?thesis using assms(2) load Inr by (auto simp: load_and_record_sales_csv_def e(1) split: prod.splits sum.splits)
  qed
  then show ?thesis using e(2) by (auto simp: service_wf_def stock_ok_def list_all_iff)
qed

section \<open>The second load\<close>

lemma records_later:
  assumes "service_wf d" and "ingest_records parse_time parse_uuid n records (at_rest d) = (res, s)"
  shows "\<exists>d1. s = at_rest d1 \<and> service_wf d1 \<and> later d d1"
proof -
  have step: "service_wf e' \<and> later d e'" if so_far: "service_wf e \<and> later d e" and next_row: "ingest_body parse_uuid r e = (Inr x, e')" for e r x e'
  proof -
    have wf: "service_wf e" using so_far by blast
    obtain source u t cents where "row_passes source t cents r e" "e' = with_line source u t cents r e" "0 < sr_quantity r"
      by (rule ingest_outcomes [OF wf, of parse_uuid r]) (use next_row in auto)
    then have "later e e'" using accepted_later(1) [OF wf] by blast
    then show ?thesis using so_far later_trans ingest_keeps(1) [OF wf next_row] by blast
  qed
  show ?thesis by (rule ingest_records_invariant [OF _ _ assms(2)]) (use step assms(1) later_refl in blast)+
qed

lemma at_rest_inject [simp]: "at_rest d = at_rest e \<longleftrightarrow> d = e"
  by (auto simp: at_rest_def)



section \<open>What is recorded of a load\<close>




text \<open>Every value fits its column.\<close>

definition columns_fit :: "service_db \<Rightarrow> bool" where
  "columns_fit d \<longleftrightarrow> (\<forall>s\<in>set (sh_sales (sv_shop d)). length (sa_source s) \<le> 64 \<and> smallint (int (sa_store s)))
     \<and> (\<forall>p\<in>set (sh_products (sv_shop d)). pd_id p \<le> INT_MAX) \<and> (\<forall>k\<in>set (sh_stock (sv_shop d)). \<bar>sk_quantity k\<bar> \<le> int INT_MAX)"











text \<open>The loads of the web: ids of their own, nothing of a load that is not there yet.\<close>

definition loads_wf :: "import_db \<Rightarrow> bool" where
  "loads_wf d \<longleftrightarrow> (\<forall>l\<in>set (im_loads d). sl_load l < im_next_load d) \<and> (\<forall>r\<in>set (im_rejections d). rj_load r < im_next_load d)
     \<and> (\<forall>i. SalesLoadSubject i \<in> note_subject ` set (note_rows (im_app d)) \<longrightarrow> i < im_next_load d)"



section \<open>A total that does not fit\<close>

lemma ingest_records_append:
  "ingest_records parse_time parse_uuid n (xs @ ys) s =
    (case ingest_records parse_time parse_uuid n xs s of
       (Inl e, s') \<Rightarrow> (Inl e, s')
     | (Inr rs, s') \<Rightarrow> (case ingest_records parse_time parse_uuid (n + length xs) ys s' of (Inl e, s'') \<Rightarrow> (Inl e, s'') | (Inr more_rs, s'') \<Rightarrow> (Inr (rs @ more_rs), s'')))"
proof (induction xs arbitrary: n s)
  case Nil
  then show ?case by (simp split: prod.split sum.split)
next
  case (Cons x xs)
  obtain o1 s1 where step: "(case parse_row parse_time x of Inl x \<Rightarrow> (Inl (Rejects x), s) | Inr row \<Rightarrow> ingest_row parse_uuid row False s) = (o1, s1)" by fastforce
  obtain r2 s2 where first_part: "ingest_records parse_time parse_uuid (Suc n) xs s1 = (r2, s2)" by fastforce
  obtain r3 s3 where last_part: "ingest_records parse_time parse_uuid (Suc n + length xs) ys s2 = (r3, s3)" by fastforce
  consider y where "o1 = Inl (Rejects y)" | y where "o1 = Inl y" "\<And>z. y \<noteq> Rejects z" | y where "o1 = Inr y"
    by (cases o1; cases "projl o1") auto
  then show ?case
    using last_part by cases (cases r2; cases r3; simp add: Cons.IH step first_part split: row_failure.split)+
qed

text \<open>
  C39. A total that does not fit stops the load: a row that passes every check, and whose sale comes to more than the column of
  totals holds, is neither accepted nor rejected. The error of the last update is caught nowhere, so the rows before it
  stay, the rows after it are never read, and no load, no rejection and no notification is recorded.
\<close>

theorem overflow_stops_the_load:
  fixes d1 :: service_db
  assumes "service_wf (im_service d)" and "read_csv content = Inr (EXPECTED_HEADER # before @ cells # after)"
    and "ingest_records parse_time parse_uuid 2 (filter (\<lambda>r. r \<noteq> []) before) (at_rest (im_service d)) = (Inr xs, at_rest d1)"
    and "parse_row parse_time cells = Inr row" and "row_reaches parse_uuid row d1 = Some (source, u, t, cents)" and "CHR 0x00 \<notin> set source"
    and "row_passes source t cents row d1" and "MAX_TOTAL < lines_total (sa_lines (header_at source u t row d1) @ [new_line row cents])"
  shows "load_and_record_sales_csv parse_time parse_uuid (Some content) filename CONTRACT_VERSION by d
    = (Inl (NotLoaded (Escapes HeaderTotalOverflow)), d\<lparr>im_service := d1\<rparr>)"
proof -
  have wf: "service_wf d1" using records_later [OF assms(1,3)] by auto
  have "ingest_body parse_uuid row d1 = persist_row source u t cents row d1" using ingest_body_reaches [of parse_uuid row d1] assms(5) by simp
  then obtain d2 where "ingest_body parse_uuid row d1 = (Inl HeaderTotalOverflow, d2)" using persist_row_passes [OF wf assms(7,6), of u] assms(8) by simp
  moreover have "cells \<noteq> []" using assms(4) by (auto simp: parse_row_def)
  ultimately have "ingest_records parse_time parse_uuid 2 (filter (\<lambda>r. r \<noteq> []) (before @ cells # after)) (at_rest (im_service d)) = (Inl HeaderTotalOverflow, at_rest d1)"
    using assms(3,4) by (simp add: ingest_records_append ingest_row_at_rest)
  then show ?thesis using assms(2) by (simp add: load_and_record_sales_csv_def load_sales_csv_def)
qed

section \<open>Examples\<close>

definition example_import :: import_db where
  "example_import =
    \<lparr>im_service = \<lparr>sv_shop = example_shop\<lparr>sh_sales := [], sh_stock := [\<lparr>sk_store = 1, sk_product = 1, sk_quantity = 300\<rparr>, \<lparr>sk_store = 1, sk_product = 2, sk_quantity = 5\<rparr>]\<rparr>,
       sv_users = [], sv_captures = [], sv_sales_events = [], sv_stock_events = [], sv_next_sale = 1, sv_next_event = 1, sv_clock = 2000\<rparr>,
     im_app = example_app, im_loads = [], im_rejections = [], im_next_load = 1\<rparr>"

definition example_time :: "string \<Rightarrow> timestamp_text" where
  "example_time s = (if s = ''2026-01-05T10:00:00Z'' then Instant 1500 1 else MalformedTimestamp)"

definition example_uuid :: "string \<Rightarrow> nat option" where
  "example_uuid s = (if s = uuid_text 1 then Some 1 else None)"

definition example_cells :: "string \<Rightarrow> string \<Rightarrow> string \<Rightarrow> string \<Rightarrow> string list" where
  "example_cells source product quantity price = [source, uuid_text 1, ''1'', ''2'', ''2026-01-05T10:00:00Z'', product, quantity, price]"

definition example_rows :: "string list list" where
  "example_rows = [example_cells ''T,1'' ''1'' ''2'' ''0.5'', [], example_cells ''T,1'' ''2'' '' 3 '' ''9.9'', example_cells ''T,1'' ''2'' ''1'' ''9.9'']"

definition example_file :: "string list list \<Rightarrow> string" where
  "example_file rows = write_csv (EXPECTED_HEADER # rows)"

lemma example_import_wf: "service_wf (im_service example_import)" "columns_fit (im_service example_import)" "loads_wf example_import"
  by (simp_all add: example_import_def service_wf_def stock_ok_def columns_fit_def loads_wf_def example_shop_def INT_MAX_def example_app_def)


lemma example_digits: "length (hex_text k n) = k"
  by (induction k arbitrary: n) simp_all



theorem import_conserves_stock_witness:
  "\<exists>res d'. load_and_record_sales_csv example_time example_uuid (Some (example_file example_rows)) ''sales.csv'' 1 None example_import = (res, d')
    \<and> on_hand (sh_stock (sv_shop (im_service d'))) 1 2 + sold_units (sh_sales (sv_shop (im_service d'))) 1 2 = 5"
proof -
  obtain res d' where run: "load_and_record_sales_csv example_time example_uuid (Some (example_file example_rows)) ''sales.csv'' 1 None example_import = (res, d')" by fastforce
  from import_conserves_stock [OF example_import_wf(1) run, of 1 2] run show ?thesis
    by (auto simp: example_import_def on_hand_def sold_units_def)
qed



definition example_huge :: "string list" where "example_huge = example_cells ''T,2'' ''1'' ''200'' ''9e7''"

theorem overflow_stops_the_load_witness:
  "fst (load_and_record_sales_csv example_time example_uuid (Some (example_file [example_cells ''T,1'' ''1'' ''2'' ''0.5'', example_huge, example_cells ''T,1'' ''2'' ''1'' ''9.9'']))
      ''sales.csv'' CONTRACT_VERSION None example_import) = Inl (NotLoaded (Escapes HeaderTotalOverflow))"
proof -
  let ?before = "[example_cells ''T,1'' ''1'' ''2'' ''0.5'']" and ?after = "[example_cells ''T,1'' ''2'' ''1'' ''9.9'']"
  have read: "read_csv (example_file (?before @ example_huge # ?after)) = Inr (EXPECTED_HEADER # ?before @ example_huge # ?after)"
    unfolding example_file_def
    by (rule written_is_read) (simp add: example_huge_def example_cells_def EXPECTED_HEADER_def FIELD_LIMIT_def uuid_text_def Let_def example_digits)
  define run where "run = ingest_records example_time example_uuid 2 (filter (\<lambda>r. r \<noteq> []) ?before) (at_rest (im_service example_import))"
  have first_row: "fst run = Inr []" unfolding run_def by code_simp
  obtain d1 where d1: "run = (Inr [], at_rest d1)"
    using records_later [OF example_import_wf(1), of example_time example_uuid 2 "filter (\<lambda>r. r \<noteq> []) ?before" "fst run" "snd run"] first_row
    by (metis prod.collapse run_def)
  have "case parse_row example_time example_huge of Inl x \<Rightarrow> False | Inr row \<Rightarrow>
      (case row_reaches example_uuid row (committed (snd run)) of None \<Rightarrow> False | Some (source, u, t, cents) \<Rightarrow>
        CHR 0x00 \<notin> set source \<and> row_passes source t cents row (committed (snd run))
        \<and> MAX_TOTAL < lines_total (sa_lines (header_at source u t row (committed (snd run))) @ [new_line row cents]))"
    unfolding run_def by code_simp
  then obtain row source u t cents where "parse_row example_time example_huge = Inr row" "row_reaches example_uuid row d1 = Some (source, u, t, cents)"
    "CHR 0x00 \<notin> set source" "row_passes source t cents row d1" "MAX_TOTAL < lines_total (sa_lines (header_at source u t row d1) @ [new_line row cents])"
    by (auto simp: d1 split: sum.splits option.splits)
  from overflow_stops_the_load [OF example_import_wf(1) read d1 [unfolded run_def] this] show ?thesis by simp
qed

end
