(* ===== verification/Uploads.thy ===== *)
theory Uploads
  imports Prelude "HOL-Library.Word" "HOL-Library.AList"
begin

text \<open>
  Product images, \<open>web/services/uploads.py\<close>: what an upload is refused for, the walk over the chunks of a PNG, and where
  a file is stored and deleted. Bytes are \<open>8 word\<close>s; a path is the list of its components, without symbolic links;
  the generated name is an argument.
\<close>

unbundle bit_operations_syntax

type_synonym bytes = "8 word list"

section \<open>The chunks of a PNG\<close>

definition ascii_bytes :: "string \<Rightarrow> bytes" where
  "ascii_bytes s = map (\<lambda>c. word_of_int (of_char c)) s"

text \<open>\<open>struct.unpack(">I")\<close>, and the bytes of such a number.\<close>

definition be_value :: "bytes \<Rightarrow> int" where
  "be_value bs = foldl (\<lambda>n b. 256 * n + uint b) 0 bs"

definition be4 :: "int \<Rightarrow> bytes" where
  "be4 n = map word_of_int [n div 2 ^ 24, n div 2 ^ 16, n div 2 ^ 8, n]"

text \<open>\<open>zlib.crc32\<close>\<close>

definition crc_step :: "32 word \<Rightarrow> 32 word" where
  "crc_step c = (if bit c 0 then drop_bit 1 c XOR 0xEDB88320 else drop_bit 1 c)"

definition crc32 :: "bytes \<Rightarrow> 32 word" where
  "crc32 bs = NOT (foldl (\<lambda>c b. (crc_step ^^ 8) (c XOR ucast b)) (- 1) bs)"

definition PNG_SIGNATURE :: bytes where "PNG_SIGNATURE = [0x89, 0x50, 0x4E, 0x47, 0x0D, 0x0A, 0x1A, 0x0A]"
definition MAX_IMAGE_SIDE_PIXELS :: int where "MAX_IMAGE_SIDE_PIXELS = 8192"

definition IHDR :: bytes where "IHDR = [0x49, 0x48, 0x44, 0x52]"
definition IEND :: bytes where "IEND = [0x49, 0x45, 0x4E, 0x44]"

datatype upload_refusal =
    WrongType
  | EmptyFile
  | FileTooLarge
  | ContentMismatch
  | DamagedPng
  | TooManyPixels int int
  | DataAfterEnd

text \<open>The loop of \<open>_check_png\<close>; \<open>data\<close> is what lies from \<open>position\<close> on.\<close>

function check_chunks :: "bool \<Rightarrow> bytes \<Rightarrow> upload_refusal option" where
  "check_chunks is_first data =
    (if length data < 8 then Some DamagedPng
     else let size = be_value (take 4 data); kind = take 4 (drop 4 data)
       in if int (length data) < 8 + size + 4 then Some DamagedPng
          else let body = take (nat size) (drop 8 data); crc = be_value (take 4 (drop (8 + nat size) data)); rest = drop (12 + nat size) data
            in if uint (crc32 (kind @ body)) \<noteq> crc then Some DamagedPng
               else if is_first
               then (if kind \<noteq> IHDR \<or> size \<noteq> 13 then Some DamagedPng
                     else let width = be_value (take 4 body); height = be_value (take 4 (drop 4 body))
                       in if \<not> (0 < width \<and> width \<le> MAX_IMAGE_SIDE_PIXELS) \<or> \<not> (0 < height \<and> height \<le> MAX_IMAGE_SIDE_PIXELS)
                          then Some (TooManyPixels width height) else check_chunks False rest)
               else if kind = IEND then (if rest \<noteq> [] then Some DataAfterEnd else None)
               else check_chunks False rest)"
  by pat_completeness auto
termination by (relation "measure (\<lambda>(_, data). length data)") auto

declare check_chunks.simps [simp del]

definition check_png :: "bytes \<Rightarrow> upload_refusal option" where
  "check_png data = check_chunks True (drop (length PNG_SIGNATURE) data)"

section \<open>The upload\<close>

definition EXTENSION_BY_TYPE :: "(string \<times> string) list" where
  "EXTENSION_BY_TYPE = [(''image/jpeg'', ''.jpg''), (''image/png'', ''.png''), (''image/webp'', ''.webp'')]"

definition starts_with :: "bytes \<Rightarrow> bytes \<Rightarrow> bool" where
  "starts_with p bs \<longleftrightarrow> take (length p) bs = p"

definition signature_matches :: "string \<Rightarrow> bytes \<Rightarrow> bool" where
  "signature_matches content_type data =
    (let header = take 12 data
     in if content_type = ''image/jpeg'' then starts_with [0xFF, 0xD8, 0xFF] header
        else if content_type = ''image/png'' then starts_with PNG_SIGNATURE header
        else starts_with (ascii_bytes ''RIFF'') header \<and> take 4 (drop 8 header) = ascii_bytes ''WEBP'')"

record upload_config =
  uc_directory :: "string list"
  uc_allowed :: "string list"
  uc_max_bytes :: nat

text \<open>\<open>_validate\<close>: the extension, or the refusal. The type comes in lower case.\<close>

definition validate_image :: "upload_config \<Rightarrow> string \<Rightarrow> bytes \<Rightarrow> upload_refusal + string" where
  "validate_image config content_type data =
    (case map_of EXTENSION_BY_TYPE content_type of
       None \<Rightarrow> Inl WrongType
     | Some extension \<Rightarrow>
         if content_type \<notin> set (uc_allowed config) then Inl WrongType
         else if data = [] then Inl EmptyFile
         else if uc_max_bytes config < length data then Inl FileTooLarge
         else if \<not> signature_matches content_type data then Inl ContentMismatch
         else (case (if content_type = ''image/png'' then check_png data else None) of
             Some e \<Rightarrow> Inl e
           | None \<Rightarrow> Inr extension))"

type_synonym files = "(string list \<times> bytes) list"

definition save_product_image :: "upload_config \<Rightarrow> string \<Rightarrow> string \<Rightarrow> bytes \<Rightarrow> files \<Rightarrow> (upload_refusal + string) \<times> files" where
  "save_product_image config hex content_type data fs =
    (case validate_image config content_type data of
       Inl e \<Rightarrow> (Inl e, fs)
     | Inr extension \<Rightarrow> (Inr (hex @ extension), AList.update (uc_directory config @ [hex @ extension]) data fs))"

text \<open>\<open>(root / path).resolve()\<close>\<close>

fun resolve :: "string list \<Rightarrow> string list \<Rightarrow> string list" where
  "resolve base [] = base"
| "resolve base (c # cs) =
    (if c = [] \<or> c = ''.'' then resolve base cs
     else if c = ''..'' then resolve (butlast base) cs
     else resolve (base @ [c]) cs)"

definition path_under :: "string list \<Rightarrow> string \<Rightarrow> string list" where
  "path_under base path = resolve (case path of [] \<Rightarrow> base | c # _ \<Rightarrow> if c = CHR ''/'' then [] else base) (split_on (CHR ''/'') path)"

definition delete_product_image :: "string \<Rightarrow> upload_config \<Rightarrow> files \<Rightarrow> files" where
  "delete_product_image path config fs =
    (if path = [] then fs
     else let base = resolve [] (uc_directory config); goal = path_under base path
       in if butlast goal \<noteq> base then fs else AList.delete goal fs)"

section \<open>What the walk accepts\<close>

definition chunk :: "bytes \<Rightarrow> bytes \<Rightarrow> bytes" where
  "chunk kind body = be4 (int (length body)) @ kind @ body @ be4 (uint (crc32 (kind @ body)))"

lemma byte_digits:
  fixes y :: "8 word"
  shows "(256 * x + uint y) div 256 = x" and "word_of_int (256 * x + uint y) = y" and "(256 * x + uint y) mod 256 = uint y"
proof -
  have bounds: "0 \<le> uint y" "uint y < 256" using uint_lt2p [of y] by simp_all
  then show "(256 * x + uint y) div 256 = x" "(256 * x + uint y) mod 256 = uint y" by simp_all
  have zero: "(256 :: 8 word) = 0" by simp
  have "word_of_int (256 * x) = (256 :: 8 word) * word_of_int x" by (simp only: of_int_mult of_int_numeral)
  then have "word_of_int (256 * x) = (0 :: 8 word)" unfolding zero by simp
  then show "word_of_int (256 * x + uint y) = y" by (simp only: of_int_add) simp
qed

lemma be_value_4: "be_value [a, b, c, d] = 256 * (256 * (256 * uint a + uint b) + uint c) + uint d"
  by (simp add: be_value_def)

lemma be4_value: "be4 (be_value [a, b, c, d]) = [a, b, c, d]"
proof -
  let ?n = "be_value [a, b, c, d]"
  have "?n div 256 = 256 * (256 * uint a + uint b) + uint c" unfolding be_value_4 by (rule byte_digits(1))
  then have one: "?n div 2 ^ 8 = 256 * (256 * uint a + uint b) + uint c" by simp
  have "?n div 2 ^ 16 = ?n div 2 ^ 8 div 256" by (simp add: zdiv_zmult2_eq [symmetric])
  then have two: "?n div 2 ^ 16 = 256 * uint a + uint b" unfolding one by (simp only: byte_digits(1))
  have "?n div 2 ^ 24 = ?n div 2 ^ 16 div 256" by (simp add: zdiv_zmult2_eq [symmetric])
  then have three: "?n div 2 ^ 24 = uint a" unfolding two by (simp only: byte_digits(1))
  have "word_of_int ?n = d" unfolding be_value_4 by (rule byte_digits(2))
  moreover have "word_of_int (?n div 2 ^ 8) = c" unfolding one by (rule byte_digits(2))
  moreover have "word_of_int (?n div 2 ^ 16) = b" unfolding two by (rule byte_digits(2))
  moreover have "word_of_int (?n div 2 ^ 24) = a" unfolding three by simp
  ultimately show ?thesis by (simp add: be4_def)
qed

lemma be_value_be4: "0 \<le> n \<Longrightarrow> n < 2 ^ 32 \<Longrightarrow> be_value (be4 n) = n"
proof -
  assume n: "0 \<le> n" "n < 2 ^ 32"
  have byte: "uint (word_of_int k :: 8 word) = k mod 256" for k by (simp add: uint_word_of_int)
  have "n div 2 ^ 24 = n div 2 ^ 16 div 256" "n div 2 ^ 16 = n div 2 ^ 8 div 256" "n div 2 ^ 8 = n div 256" by (simp_all add: zdiv_zmult2_eq [symmetric])
  moreover have "n div 2 ^ 24 < 256" "0 \<le> n div 2 ^ 24" using n by (simp_all add: div_less_iff_less_mult)
  ultimately show ?thesis by (simp add: be4_def be_value_4 byte) 
qed

lemma length_be4 [simp]: "length (be4 n) = 4"
  by (simp add: be4_def)

lemma be4_of_bytes: "length bs = 4 \<Longrightarrow> be4 (be_value bs) = bs"
  using be4_value by (auto simp: length_Suc_conv eval_nat_numeral)

lemma be_value_range: "length bs = 4 \<Longrightarrow> 0 \<le> be_value bs \<and> be_value bs < 2 ^ 32"
proof -
  assume "length bs = 4"
  then obtain a b c d where bs: "bs = [a, b, c, d]" by (auto simp: length_Suc_conv eval_nat_numeral)
  have "0 \<le> uint x" "uint x < 256" for x :: "8 word" using uint_lt2p [of x] by simp_all
  from this [of a] this [of b] this [of c] this [of d] show ?thesis by (simp add: bs be_value_4)
qed

text \<open>One round of the loop on data that begins with a chunk, and what data that passes it begins with.\<close>

lemma check_first_chunk:
  assumes "length kind = 4" and "int (length body) < 2 ^ 32"
  shows "check_chunks is_first (chunk kind body @ rest) =
    (if is_first
     then (if kind \<noteq> IHDR \<or> length body \<noteq> 13 then Some DamagedPng
           else let width = be_value (take 4 body); height = be_value (take 4 (drop 4 body))
             in if \<not> (0 < width \<and> width \<le> MAX_IMAGE_SIDE_PIXELS) \<or> \<not> (0 < height \<and> height \<le> MAX_IMAGE_SIDE_PIXELS)
                then Some (TooManyPixels width height) else check_chunks False rest)
     else if kind = IEND then (if rest \<noteq> [] then Some DataAfterEnd else None)
     else check_chunks False rest)"
proof -
  define data where "data = chunk kind body @ rest"
  let ?crc = "be4 (uint (crc32 (kind @ body)))"
  have "be_value (be4 (int (length body))) = int (length body)" by (rule be_value_be4) (use assms(2) in simp_all)
  then have size: "be_value (take 4 data) = int (length body)" by (simp add: data_def chunk_def)
  have "uint (crc32 (kind @ body)) < 2 ^ 32" using uint_lt2p [of "crc32 (kind @ body)"] by simp
  then have crc: "be_value ?crc = uint (crc32 (kind @ body))" by (intro be_value_be4) simp_all
  have parts: "take 4 (drop 4 data) = kind" "take (length body) (drop 8 data) = body" "take 4 (drop (8 + length body) data) = ?crc" "drop (12 + length body) data = rest"
    and long_enough: "\<not> length data < 8" "\<not> int (length data) < 8 + int (length body) + 4" by (simp_all add: data_def chunk_def assms(1))
  show ?thesis
    unfolding data_def [symmetric] check_chunks.simps [of is_first data] size parts nat_int Let_def crc using long_enough by simp
qed

lemma begins_with_chunk:
  assumes "8 \<le> length data" and "\<not> int (length data) < 8 + be_value (take 4 data) + 4"
    and "uint (crc32 (take 4 (drop 4 data) @ take (nat (be_value (take 4 data))) (drop 8 data))) = be_value (take 4 (drop (8 + nat (be_value (take 4 data))) data))"
  shows "data = chunk (take 4 (drop 4 data)) (take (nat (be_value (take 4 data))) (drop 8 data)) @ drop (12 + nat (be_value (take 4 data))) data"
    and "length (take 4 (drop 4 data)) = 4" and "int (length (take (nat (be_value (take 4 data))) (drop 8 data))) = be_value (take 4 data)"
proof -
  let ?size = "be_value (take 4 data)"
  have size: "0 \<le> ?size" "?size < 2 ^ 32" using be_value_range [of "take 4 data"] assms(1) by simp_all
  then have enough: "12 + nat ?size \<le> length data" using assms(2) by linarith
  then show body: "int (length (take (nat ?size) (drop 8 data))) = ?size" using size by simp
  show "length (take 4 (drop 4 data)) = 4" using assms(1) by simp
  have "be4 (be_value (take 4 (drop (8 + nat ?size) data))) = take 4 (drop (8 + nat ?size) data)" using enough by (intro be4_of_bytes) simp
  then have "chunk (take 4 (drop 4 data)) (take (nat ?size) (drop 8 data))
    = take 4 data @ take 4 (drop 4 data) @ take (nat ?size) (drop 8 data) @ take 4 (drop (8 + nat ?size) data)"
    using be4_of_bytes [of "take 4 data"] assms(1) unfolding chunk_def assms(3) body by simp
  moreover have "data = take 4 data @ take 4 (drop 4 data) @ take (nat ?size) (drop 8 data) @ take 4 (drop (8 + nat ?size) data) @ drop (12 + nat ?size) data"
  proof -
    have step: "drop m data = take k (drop m data) @ drop (m + k) data" for m k
      using append_take_drop_id [of k "drop m data"] by (simp add: add.commute)
    have "8 + nat ?size + 4 = 12 + nat ?size" by simp
    with step [of "8 + nat ?size" 4] have "drop (8 + nat ?size) data = take 4 (drop (8 + nat ?size) data) @ drop (12 + nat ?size) data" by metis
    with step [of 8 "nat ?size"] step [of 4 4] step [of 0 4] show ?thesis by simp
  qed
  ultimately show "data = chunk (take 4 (drop 4 data)) (take (nat ?size) (drop 8 data)) @ drop (12 + nat ?size) data" by simp
qed

text \<open>Chunks that are not the last.\<close>

definition inner_chunk :: "bytes \<times> bytes \<Rightarrow> bool" where
  "inner_chunk c \<longleftrightarrow> length (fst c) = 4 \<and> fst c \<noteq> IEND \<and> int (length (snd c)) < 2 ^ 32"

definition chunks :: "(bytes \<times> bytes) list \<Rightarrow> bytes" where
  "chunks cs = concat (map (\<lambda>c. chunk (fst c) (snd c)) cs)"

lemma length_PNG: "length PNG_SIGNATURE = 8"
  by (simp add: PNG_SIGNATURE_def)

lemma names_4 [simp]: "length IHDR = 4" "length IEND = 4" "IHDR \<noteq> IEND"
  by (simp_all add: IHDR_def IEND_def)

lemma check_rest:
  "check_chunks False data = None \<longleftrightarrow>
    (\<exists>cs body. data = chunks cs @ chunk IEND body \<and> list_all inner_chunk cs \<and> int (length body) < 2 ^ 32)"
proof
  assume "check_chunks False data = None"
  then show "\<exists>cs body. data = chunks cs @ chunk IEND body \<and> list_all inner_chunk cs \<and> int (length body) < 2 ^ 32"
  proof (induction "length data" arbitrary: data rule: less_induct)
    case less
    let ?size = "be_value (take 4 data)" and ?kind = "take 4 (drop 4 data)"
    let ?body = "take (nat ?size) (drop 8 data)" and ?rest = "drop (12 + nat ?size) data"
    have walked: "8 \<le> length data" "\<not> int (length data) < 8 + ?size + 4" "uint (crc32 (?kind @ ?body)) = be_value (take 4 (drop (8 + nat ?size) data))"
      using less.prems by (auto simp: check_chunks.simps [of False data] Let_def split: if_splits)
    note data = begins_with_chunk [OF walked]
    have small: "int (length ?body) < 2 ^ 32" using data(3) be_value_range [of "take 4 data"] walked(1) by simp
    have step: "(if ?kind = IEND then (if ?rest \<noteq> [] then Some DataAfterEnd else None) else check_chunks False ?rest) = None"
      using check_first_chunk [OF data(2) small, of False ?rest] less.prems data(1) by (simp only: if_False)
    show ?case
    proof (cases "?kind = IEND")
      case True
      then have "?rest = []" using step by (simp split: if_splits)
      then have "data = chunks [] @ chunk IEND ?body" using data(1) True by (simp add: chunks_def)
      then show ?thesis using small by (metis list.pred_inject(1))
    next
      case False
      then have accepted: "check_chunks False ?rest = None" using step by simp
      have "length ?rest < length data" using walked(1) by simp
      from less.hyps [OF this accepted] obtain cs body where rest: "?rest = chunks cs @ chunk IEND body" "list_all inner_chunk cs" "int (length body) < 2 ^ 32" by blast
      have "data = chunks ((?kind, ?body) # cs) @ chunk IEND body"
        using data(1) unfolding rest(1) by (simp add: chunks_def)
      moreover have "list_all inner_chunk ((?kind, ?body) # cs)" using rest(2) data(2) small False by (simp add: inner_chunk_def)
      ultimately show ?thesis using rest(3) by blast
    qed
  qed
next
  assume "\<exists>cs body. data = chunks cs @ chunk IEND body \<and> list_all inner_chunk cs \<and> int (length body) < 2 ^ 32"
  then obtain cs0 body0 where data: "data = chunks cs0 @ chunk IEND body0" "list_all inner_chunk cs0" "int (length body0) < 2 ^ 32" by blast
  have "check_chunks False (chunks cs @ chunk IEND body) = None" if "list_all inner_chunk cs" "int (length body) < 2 ^ 32" for cs body
    using that(1)
  proof (induction cs)
    case Nil
    then show ?case using check_first_chunk [of IEND body False "[]"] that(2) by (simp add: chunks_def)
  next
    case (Cons c cs)
    then show ?case using check_first_chunk [of "fst c" "snd c" False "chunks cs @ chunk IEND body"] by (simp add: chunks_def inner_chunk_def)
  qed
  from this [OF data(2,3)] show "check_chunks False data = None" by (simp only: data(1))
qed

definition side_fits :: "int \<Rightarrow> bool" where
  "side_fits n \<longleftrightarrow> 0 < n \<and> n \<le> MAX_IMAGE_SIDE_PIXELS"

lemma check_whole:
  "check_chunks True data = None \<longleftrightarrow>
    (\<exists>width height tail cs body. data = chunk IHDR (be4 width @ be4 height @ tail) @ chunks cs @ chunk IEND body
      \<and> side_fits width \<and> side_fits height \<and> length tail = 5 \<and> list_all inner_chunk cs \<and> int (length body) < 2 ^ 32)"
proof
  assume accepted: "check_chunks True data = None"
  let ?size = "be_value (take 4 data)" and ?kind = "take 4 (drop 4 data)"
  let ?body = "take (nat ?size) (drop 8 data)" and ?rest = "drop (12 + nat ?size) data"
  have walked: "8 \<le> length data" "\<not> int (length data) < 8 + ?size + 4" "uint (crc32 (?kind @ ?body)) = be_value (take 4 (drop (8 + nat ?size) data))"
    using accepted by (auto simp: check_chunks.simps [of True data] Let_def split: if_splits)
  note data = begins_with_chunk [OF walked]
  have small: "int (length ?body) < 2 ^ 32" using data(3) be_value_range [of "take 4 data"] walked(1) by simp
  define b where "b = ?body"
  have "(if ?kind \<noteq> IHDR \<or> length b \<noteq> 13 then Some DamagedPng
     else let width = be_value (take 4 b); height = be_value (take 4 (drop 4 b))
       in if \<not> (0 < width \<and> width \<le> MAX_IMAGE_SIDE_PIXELS) \<or> \<not> (0 < height \<and> height \<le> MAX_IMAGE_SIDE_PIXELS)
          then Some (TooManyPixels width height) else check_chunks False ?rest) = None"
    using check_first_chunk [OF data(2) small, of True ?rest] accepted data(1) unfolding b_def by (simp only: if_True)
  then have header: "?kind = IHDR" "length b = 13" "side_fits (be_value (take 4 b))" "side_fits (be_value (take 4 (drop 4 b)))" "check_chunks False ?rest = None"
    by (simp_all add: Let_def side_fits_def split: if_splits)
  from header(5) obtain cs body where rest: "?rest = chunks cs @ chunk IEND body" "list_all inner_chunk cs" "int (length body) < 2 ^ 32"
    by (auto simp: check_rest)
  have "b = take 4 b @ take 4 (drop 4 b) @ drop 8 b" using append_take_drop_id [of 4 b] append_take_drop_id [of 4 "drop 4 b"] by (metis add_2_eq_Suc' drop_drop numeral_plus_numeral semiring_norm(2,6,7))
  moreover have "be4 (be_value (take 4 b)) = take 4 b" "be4 (be_value (take 4 (drop 4 b))) = take 4 (drop 4 b)" using header(2) by (simp_all add: be4_of_bytes)
  ultimately have "b = be4 (be_value (take 4 b)) @ be4 (be_value (take 4 (drop 4 b))) @ drop 8 b" by simp
  moreover have "data = chunk IHDR b @ chunks cs @ chunk IEND body" using data(1) header(1) unfolding rest(1) b_def by simp
  moreover have "length (drop 8 b) = 5" using header(2) by simp
  ultimately show "\<exists>width height tail cs body. data = chunk IHDR (be4 width @ be4 height @ tail) @ chunks cs @ chunk IEND body
      \<and> side_fits width \<and> side_fits height \<and> length tail = 5 \<and> list_all inner_chunk cs \<and> int (length body) < 2 ^ 32"
    using header(3,4) rest(2,3) by metis
next
  assume "\<exists>width height tail cs body. data = chunk IHDR (be4 width @ be4 height @ tail) @ chunks cs @ chunk IEND body
      \<and> side_fits width \<and> side_fits height \<and> length tail = 5 \<and> list_all inner_chunk cs \<and> int (length body) < 2 ^ 32"
  then obtain width height tail cs body where data: "data = chunk IHDR (be4 width @ be4 height @ tail) @ chunks cs @ chunk IEND body"
    and fits: "side_fits width" "side_fits height" "length tail = 5" and rest: "list_all inner_chunk cs" "int (length body) < 2 ^ 32" by blast
  have "check_chunks False (chunks cs @ chunk IEND body) = None" using rest by (auto simp: check_rest)
  moreover have "be_value (be4 width) = width" "be_value (be4 height) = height"
    using fits by (auto simp: side_fits_def MAX_IMAGE_SIDE_PIXELS_def intro!: be_value_be4)
  ultimately show "check_chunks True data = None"
    unfolding data using fits check_first_chunk [of IHDR "be4 width @ be4 height @ tail" True "chunks cs @ chunk IEND body"]
    by (simp add: side_fits_def)
qed

text \<open>
  C18. An accepted PNG is exactly one image: an upload declared as PNG is accepted if and only if it is not empty, not larger than
  the limit, and consists of the signature, a header chunk whose sides are between 1 and 8192 pixels, any number of
  other chunks, and the end chunk - each with its length, its name and the CRC-32 of what it holds - and of nothing after it.
\<close>

theorem accepted_png_is_one_image:
  "validate_image config ''image/png'' data = Inr extension \<longleftrightarrow>
    extension = ''.png'' \<and> ''image/png'' \<in> set (uc_allowed config) \<and> length data \<le> uc_max_bytes config
    \<and> (\<exists>width height tail cs body. data = PNG_SIGNATURE @ chunk IHDR (be4 width @ be4 height @ tail) @ chunks cs @ chunk IEND body
      \<and> 1 \<le> width \<and> width \<le> 8192 \<and> 1 \<le> height \<and> height \<le> 8192 \<and> length tail = 5 \<and> list_all inner_chunk cs \<and> int (length body) < 2 ^ 32)"
proof -
  have signature: "signature_matches ''image/png'' data \<longleftrightarrow> (\<exists>rest. data = PNG_SIGNATURE @ rest)"
  proof -
    have "take 8 (take 12 data) = take 8 data" by simp
    moreover have "take 8 data = PNG_SIGNATURE \<longleftrightarrow> (\<exists>rest. data = PNG_SIGNATURE @ rest)"
      by (metis append_eq_conv_conj append_take_drop_id length_PNG)
    ultimately show ?thesis by (simp add: signature_matches_def starts_with_def length_PNG)
  qed
  show ?thesis
  proof (cases "\<exists>rest. data = PNG_SIGNATURE @ rest")
    case True
    then obtain rest where data: "data = PNG_SIGNATURE @ rest" by blast
    have "check_png data = check_chunks True rest" by (simp add: check_png_def data)
    moreover have "data \<noteq> []" by (simp add: data PNG_SIGNATURE_def)
    ultimately show ?thesis
      using signature True check_whole [of rest] by (auto simp: validate_image_def EXTENSION_BY_TYPE_def side_fits_def MAX_IMAGE_SIDE_PIXELS_def data int_one_le_iff_zero_less split: option.splits)
  next
    case False
    then show ?thesis using signature by (auto simp: validate_image_def EXTENSION_BY_TYPE_def split: if_splits option.splits)
  qed
qed

section \<open>Where images are\<close>

definition plain_name :: "string \<Rightarrow> bool" where
  "plain_name s \<longleftrightarrow> s \<noteq> [] \<and> s \<noteq> ''.'' \<and> s \<noteq> ''..'' \<and> CHR ''/'' \<notin> set s"

lemma path_of_name: "plain_name name \<Longrightarrow> path_under base name = base @ [name]"
  by (cases name) (auto simp: path_under_def plain_name_def split_on_single)

lemma stored_name_plain:
  assumes "list_all (\<lambda>c. c \<in> set ''0123456789abcdef'') hex" and "hex \<noteq> []" and "validate_image config content_type data = Inr extension"
  shows "plain_name (hex @ extension)"
proof -
  have "extension = ''.jpg'' \<or> extension = ''.png'' \<or> extension = ''.webp''"
    using assms(3) by (auto simp: validate_image_def EXTENSION_BY_TYPE_def split: option.splits if_splits)
  then have length: "4 \<le> length extension" "CHR ''/'' \<notin> set extension" by auto
  have "CHR ''/'' \<notin> set hex" using assms(1) by (auto simp: list_all_iff)
  moreover have "length (hex @ extension) \<noteq> length ''.''" "length (hex @ extension) \<noteq> length ''..''" using length(1) by simp_all
  then have "hex @ extension \<noteq> ''.''" "hex @ extension \<noteq> ''..''" by metis+
  ultimately show ?thesis using length(2) assms(2) by (simp add: plain_name_def)
qed

text \<open>
  An image is kept where it was put, and deleting stays there: a stored image is found under its recorded path, deleting
  that path removes it and nothing else, and deleting any path at all - whatever was recorded, \<open>..\<close> and \<open>/\<close> in it
  included - never removes a file that does not lie directly in the directory of uploads.
\<close>

lemma images_stay_in_their_directory:
  assumes "resolve [] (uc_directory config) = uc_directory config" and "list_all (\<lambda>c. c \<in> set ''0123456789abcdef'') hex" and "hex \<noteq> []"
    and "save_product_image config hex content_type data fs = (Inr path, fs')"
  shows "map_of fs' (path_under (uc_directory config) path) = Some data
    \<and> map_of (delete_product_image path config fs') = (map_of fs')(path_under (uc_directory config) path := None)
    \<and> (map_of (delete_product_image other config fs') p \<noteq> map_of fs' p \<longrightarrow> butlast p = uc_directory config)"
proof -
  obtain extension where valid: "validate_image config content_type data = Inr extension" and path: "path = hex @ extension"
    and fs': "fs' = AList.update (uc_directory config @ [hex @ extension]) data fs"
    using assms(4) by (auto simp: save_product_image_def split: sum.splits)
  have plain: "plain_name path" unfolding path by (rule stored_name_plain [OF assms(2,3) valid])
  then have place: "path_under (uc_directory config) path = uc_directory config @ [path]" "path \<noteq> []" by (auto simp: path_of_name plain_name_def)
  have "map_of fs' (path_under (uc_directory config) path) = Some data" by (simp add: place fs' path [symmetric] update_conv')
  moreover have "map_of (delete_product_image path config fs') = (map_of fs')(path_under (uc_directory config) path := None)"
    using place by (simp add: delete_product_image_def Let_def assms(1) delete_conv')
  moreover have "map_of (delete_product_image other config fs') p \<noteq> map_of fs' p \<longrightarrow> butlast p = uc_directory config"
    by (auto simp: delete_product_image_def Let_def assms(1) delete_conv')
  ultimately show ?thesis by blast
qed

section \<open>Examples\<close>

text \<open>The end chunk every PNG has.\<close>

lemma crc_steps: "(crc_step ^^ 8) c = crc_step (crc_step (crc_step (crc_step (crc_step (crc_step (crc_step (crc_step c)))))))"
  by (simp add: numeral_eq_Suc)

lemma end_chunk: "uint (crc32 IEND) = 0xAE426082"
  unfolding crc32_def IEND_def crc_steps by (simp add: crc_step_def)

definition example_config :: upload_config where
  "example_config = \<lparr>uc_directory = [''srv'', ''uploads''], uc_allowed = [''image/png'', ''image/jpeg''], uc_max_bytes = 1000\<rparr>"

end
