(* ===== verification/Auth_Sessions.thy ===== *)
theory Auth_Sessions
  imports Streams "HOL-Library.AList"
begin

text \<open>
  The sessions of the authentication service, \<open>services/auth/app\<close>: \<open>store.py\<close> over Redis, \<open>service.py\<close>, and the reconciler
  of \<open>background.py\<close>, as threads that take one command of Redis or one query at a time, in any order. A rotation under
  \<open>WATCH\<close> takes effect at once, since it is repeated until nothing came between. What \<open>uuid4\<close>, \<open>token_urlsafe\<close>, SHA-256,
  argon2 and \<open>str.lower\<close> answer is a parameter; Redis and the processes share one clock, in seconds. Signing is outside: a
  token is its claims.
\<close>

section \<open>The store\<close>

record session_hash =
  hs_user :: string
  hs_role :: string
  hs_expires :: int
  hs_password :: string

datatype refresh_state = CurrentToken | RotatedToken

record refresh_entry =
  rf_sid :: string
  rf_state :: refresh_state

text \<open>A key is its value and the instant it expires at.\<close>

record auth_store =
  ax_sessions :: "string \<Rightarrow> (session_hash \<times> int) option"
  ax_refresh :: "string \<Rightarrow> (refresh_entry \<times> int) option"
  ax_families :: "string \<Rightarrow> (string list \<times> int) option"
  ax_user_sids :: "string \<Rightarrow> (string list \<times> int) option"
  ax_live :: "string \<Rightarrow> (unit \<times> int) option"
  ax_users :: "(string list \<times> int) option"

definition EXPIRED_REFRESH_GRACE_SECONDS :: int where "EXPIRED_REFRESH_GRACE_SECONDS = 86400"

definition unexpired :: "int \<Rightarrow> ('v \<times> int) option \<Rightarrow> 'v option" where
  "unexpired now entry = (case entry of None \<Rightarrow> None | Some (v, e) \<Rightarrow> if now < e then Some v else None)"

definition smembers :: "int \<Rightarrow> (string list \<times> int) option \<Rightarrow> string list" where
  "smembers now entry = (case unexpired now entry of None \<Rightarrow> [] | Some xs \<Rightarrow> xs)"

text \<open>\<open>SADD\<close> and then \<open>EXPIREAT\<close>; \<open>SREM\<close>, which deletes a set it empties.\<close>

definition sadd_expireat :: "int \<Rightarrow> string \<Rightarrow> int \<Rightarrow> (string list \<times> int) option \<Rightarrow> (string list \<times> int) option" where
  "sadd_expireat now x e entry = Some (List.insert x (smembers now entry), e)"

definition srem :: "string \<Rightarrow> (string list \<times> int) option \<Rightarrow> (string list \<times> int) option" where
  "srem x entry = (case entry of None \<Rightarrow> None | Some (xs, e) \<Rightarrow> if removeAll x xs = [] then None else Some (removeAll x xs, e))"

definition create_session :: "int \<Rightarrow> string \<Rightarrow> session_hash \<Rightarrow> string \<Rightarrow> auth_store \<Rightarrow> auth_store" where
  "create_session now sid s refresh_hash r =
    r\<lparr>ax_sessions := (ax_sessions r)(sid \<mapsto> (s, hs_expires s)),
      ax_user_sids := (ax_user_sids r)(hs_user s := sadd_expireat now sid (hs_expires s) (ax_user_sids r (hs_user s))),
      ax_refresh := (ax_refresh r)(refresh_hash \<mapsto> (\<lparr>rf_sid = sid, rf_state = CurrentToken\<rparr>, hs_expires s + EXPIRED_REFRESH_GRACE_SECONDS)),
      ax_families := (ax_families r)(sid := sadd_expireat now refresh_hash (hs_expires s + EXPIRED_REFRESH_GRACE_SECONDS) (ax_families r sid)),
      ax_live := (ax_live r)(sid \<mapsto> ((), hs_expires s)),
      ax_users := sadd_expireat now (hs_user s) (hs_expires s) (ax_users r)\<rparr>"

definition get_refresh :: "int \<Rightarrow> string \<Rightarrow> auth_store \<Rightarrow> refresh_entry option" where
  "get_refresh now h r = unexpired now (ax_refresh r h)"

definition get_session :: "int \<Rightarrow> string \<Rightarrow> auth_store \<Rightarrow> session_hash option" where
  "get_session now sid r = unexpired now (ax_sessions r sid)"

definition is_live :: "int \<Rightarrow> string \<Rightarrow> auth_store \<Rightarrow> bool" where
  "is_live now sid r \<longleftrightarrow> unexpired now (ax_live r sid) \<noteq> None"

definition is_expired :: "session_hash \<Rightarrow> int \<Rightarrow> bool" where
  "is_expired s now \<longleftrightarrow> hs_expires s \<le> now"

datatype rotation = RotationDone | RotationLost | RotationMissing

definition rotate_refresh :: "int \<Rightarrow> string \<Rightarrow> string \<Rightarrow> string \<Rightarrow> int \<Rightarrow> auth_store \<Rightarrow> rotation \<times> auth_store" where
  "rotate_refresh now old_hash new_hash sid expires r =
    (case get_refresh now old_hash r of
       None \<Rightarrow> (RotationMissing, r)
     | Some e \<Rightarrow>
         if rf_state e \<noteq> CurrentToken then (RotationLost, r)
         else if rf_sid e \<noteq> sid then (RotationMissing, r)
         else (RotationDone,
           r\<lparr>ax_refresh := (ax_refresh r)
               (old_hash := map_option (\<lambda>(e, x). (e\<lparr>rf_state := RotatedToken\<rparr>, x)) (ax_refresh r old_hash),
                new_hash \<mapsto> (\<lparr>rf_sid = sid, rf_state = CurrentToken\<rparr>, expires + EXPIRED_REFRESH_GRACE_SECONDS)),
             ax_families := (ax_families r)(sid := sadd_expireat now new_hash (expires + EXPIRED_REFRESH_GRACE_SECONDS) (ax_families r sid))\<rparr>))"

text \<open>The commands of the pipeline of a revocation; a \<open>DEL\<close> of several keys is one command.\<close>

datatype command = DeleteSession string "string list" | RemoveSid string string | DeleteUserSet string | RemoveUser string

definition run_command :: "command \<Rightarrow> auth_store \<Rightarrow> auth_store" where
  "run_command c r =
    (case c of
       DeleteSession sid hashes \<Rightarrow>
         r\<lparr>ax_live := (ax_live r)(sid := None), ax_sessions := (ax_sessions r)(sid := None), ax_families := (ax_families r)(sid := None),
           ax_refresh := (\<lambda>h. if h \<in> set hashes then None else ax_refresh r h)\<rparr>
     | RemoveSid user sid \<Rightarrow> r\<lparr>ax_user_sids := (ax_user_sids r)(user := srem sid (ax_user_sids r user))\<rparr>
     | DeleteUserSet user \<Rightarrow> r\<lparr>ax_user_sids := (ax_user_sids r)(user := None)\<rparr>
     | RemoveUser user \<Rightarrow> r\<lparr>ax_users := srem user (ax_users r)\<rparr>)"

text \<open>\<open>dict.fromkeys\<close>: the first of each, in order.\<close>

definition dict_keys :: "string list \<Rightarrow> string list" where
  "dict_keys xs = rev (remdups (rev xs))"

definition session_commands :: "string \<times> string option \<Rightarrow> string list \<Rightarrow> command list" where
  "session_commands su family =
    DeleteSession (fst su) family # (case snd su of None \<Rightarrow> [] | Some u \<Rightarrow> if u = [] then [] else [RemoveSid u (fst su)])"

definition user_commands :: "string list \<Rightarrow> command list" where
  "user_commands users = concat (map (\<lambda>u. [DeleteUserSet u, RemoveUser u]) users)"

section \<open>The service\<close>

record auth_platform =
  au_lower :: "string \<Rightarrow> string"
  au_verify :: "string \<Rightarrow> string \<Rightarrow> bool"
  au_sha256 :: "string \<Rightarrow> string"
  au_uuid4 :: "nat \<Rightarrow> string"
  au_token :: "nat \<Rightarrow> string"
  au_issuer :: string
  au_access_ttl :: int
  au_session_ttl :: int

record credential =
  cd_user :: string
  cd_email :: string
  cd_password_hash :: string
  cd_active :: bool
  cd_role :: string

datatype auth_error =
    InvalidCredentials
  | InvalidRefresh
  | SessionRevoked
  | SessionExpired
  | RefreshReused
  | AuthUnavailable
  | CredentialsUnavailable
  | InvalidToken
  | RateLimited int

record claims =
  tk_iss :: string
  tk_aud :: string
  tk_sub :: string
  tk_sid :: string
  tk_role :: string
  tk_jti :: string
  tk_iat :: int
  tk_exp :: int

record token_result =
  tr_access :: claims
  tr_refresh :: string
  tr_type :: string
  tr_expires_in :: int
  tr_expires_at :: int

definition AUDIENCE :: string where "AUDIENCE = ''mosaiq-api''"

definition DUMMY_HASH :: string where
  "DUMMY_HASH = ''$argon2id$v=19$m=65536,t=3,p=4$BTg0ZDnIiX0UXEv10Pa1Pw$kPMnEtE7i3rQKZhkDCbDiN3R6FEKkEmsN2CKncGfd1c''"

definition credential_by_email :: "auth_platform \<Rightarrow> credential list \<Rightarrow> string \<Rightarrow> credential option" where
  "credential_by_email pf db email = find (\<lambda>c. cd_email c = au_lower pf email) db"

definition credential_by_user :: "credential list \<Rightarrow> string \<Rightarrow> credential option" where
  "credential_by_user db user = find (\<lambda>c. cd_user c = user) db"

definition credential_matches_session :: "auth_platform \<Rightarrow> credential option \<Rightarrow> session_hash \<Rightarrow> bool" where
  "credential_matches_session pf c s \<longleftrightarrow>
    (case c of None \<Rightarrow> False
     | Some c \<Rightarrow> cd_active c \<and> cd_role c = hs_role s \<and> au_sha256 pf (cd_password_hash c) = hs_password s)"

text \<open>The check of \<open>sign_in\<close>; an unknown address costs a verification as well.\<close>

definition sign_in_check :: "auth_platform \<Rightarrow> credential option \<Rightarrow> string \<Rightarrow> credential option" where
  "sign_in_check pf c password =
    (let valid = au_verify pf (case c of None \<Rightarrow> DUMMY_HASH | Some c \<Rightarrow> cd_password_hash c) password
     in case c of None \<Rightarrow> None | Some c \<Rightarrow> if valid \<and> cd_active c then Some c else None)"

definition new_session :: "auth_platform \<Rightarrow> int \<Rightarrow> credential \<Rightarrow> session_hash" where
  "new_session pf now c =
    \<lparr>hs_user = cd_user c, hs_role = cd_role c, hs_expires = now + au_session_ttl pf, hs_password = au_sha256 pf (cd_password_hash c)\<rparr>"

definition token_result_of :: "auth_platform \<Rightarrow> int \<Rightarrow> string \<Rightarrow> string \<Rightarrow> session_hash \<Rightarrow> string \<Rightarrow> token_result" where
  "token_result_of pf now jti sid s refresh_token =
    (let token_expires_at = min (now + au_access_ttl pf) (hs_expires s)
     in \<lparr>tr_access = \<lparr>tk_iss = au_issuer pf, tk_aud = AUDIENCE, tk_sub = hs_user s, tk_sid = sid, tk_role = hs_role s, tk_jti = jti,
           tk_iat = now, tk_exp = token_expires_at\<rparr>,
         tr_refresh = refresh_token, tr_type = ''Bearer'', tr_expires_in = au_access_ttl pf, tr_expires_at = token_expires_at\<rparr>)"

text \<open>\<open>Authenticator.verify\<close> of the kit, for a token whose signature holds: its end, then the liveness of its session.\<close>

definition verify :: "int \<Rightarrow> claims \<Rightarrow> auth_store \<Rightarrow> auth_error option" where
  "verify now c r =
    (if tk_exp c \<le> now then Some InvalidToken
     else if \<not> is_live now (tk_sid c) r then Some SessionRevoked
     else None)"

section \<open>Threads\<close>

text \<open>
  A request, and where its thread stands: the next step is one command or query. \<open>Gathering\<close> to \<open>Syncing\<close> are
  \<open>revoke_users\<close> and \<open>revoke_sessions\<close>, with the reply that follows; \<open>Listing\<close> is \<open>session_snapshot\<close>.
\<close>

datatype request = SignIn string string | RefreshWith string | SignOut claims | AccessChanged "string list" | Reconcile

datatype reply = Tokens token_result | NoContent | Revoked nat | Refused auth_error

datatype stage =
    Begins
  | Creating credential
  | Loading string string
  | Checking string string session_hash
  | Rotating string string session_hash
  | Issuing string session_hash string
  | Gathering "string list" "string list" "string list" reply
  | Reading "string list" "(string \<times> string option) list" "string list" reply
  | Collecting "(string \<times> string option) list" "command list" "string list" reply
  | Deleting "command list" reply
  | Syncing reply
  | Listing "string list" "string list" "(string \<times> session_hash) list"
  | Comparing "(string \<times> session_hash) list"
  | Answers reply

text \<open>What befalls a step: nothing; the connection before it, or its answer only; or \<open>WAITAOF\<close> confirms nothing.\<close>

datatype fault = Fine | Lost | AnswerLost | Unsynced

definition start_revocation :: "string list \<Rightarrow> string list \<Rightarrow> reply \<Rightarrow> stage" where
  "start_revocation sids users reply =
    (if dict_keys sids = [] \<and> dict_keys users = [] then Answers reply else Reading (dict_keys sids) [] (dict_keys users) reply)"

definition revoke_named :: "string \<Rightarrow> auth_error \<Rightarrow> stage" where
  "revoke_named sid e = (if sid = [] then Answers (Refused e) else start_revocation [sid] [] (Refused e))"

text \<open>What an \<open>ApiError\<close> of Redis becomes: the reconciler logs it and counts nothing.\<close>

definition unavailable :: "request \<Rightarrow> reply" where
  "unavailable rq = (case rq of Reconcile \<Rightarrow> Revoked 0 | _ \<Rightarrow> Refused AuthUnavailable)"

definition begin_step :: "auth_platform \<Rightarrow> int \<Rightarrow> credential list \<Rightarrow> fault \<Rightarrow> request \<Rightarrow> auth_store \<Rightarrow> stage" where
  "begin_step pf now db fault rq r =
    (case rq of
       SignIn email password \<Rightarrow>
         if fault \<noteq> Fine then Answers (Refused CredentialsUnavailable)
         else (case sign_in_check pf (credential_by_email pf db email) password of
             None \<Rightarrow> Answers (Refused InvalidCredentials) | Some c \<Rightarrow> Creating c)
     | RefreshWith token \<Rightarrow>
         if fault \<noteq> Fine then Answers (unavailable rq)
         else (case get_refresh now (au_sha256 pf token) r of
             None \<Rightarrow> Answers (Refused InvalidRefresh)
           | Some e \<Rightarrow> if rf_state e \<noteq> CurrentToken then revoke_named (rf_sid e) RefreshReused else Loading (au_sha256 pf token) (rf_sid e))
     | SignOut c \<Rightarrow>
         if fault \<noteq> Fine then Answers (unavailable rq)
         else (case verify now c r of Some e \<Rightarrow> Answers (Refused e) | None \<Rightarrow> start_revocation [tk_sid c] [] NoContent)
     | AccessChanged users \<Rightarrow> if dict_keys users = [] then Answers NoContent else Gathering (dict_keys users) [] (dict_keys users) NoContent
     | Reconcile \<Rightarrow> if fault \<noteq> Fine then Answers (unavailable rq) else Listing (smembers now (ax_users r)) [] [])"

text \<open>The refresh, after its token was found.\<close>

definition refresh_step :: "auth_platform \<Rightarrow> int \<Rightarrow> credential list \<Rightarrow> nat \<Rightarrow> fault \<Rightarrow> stage \<Rightarrow> auth_store \<Rightarrow> stage \<times> auth_store" where
  "refresh_step pf now db n fault g r =
    (case g of
       Loading h sid \<Rightarrow>
         (if fault \<noteq> Fine then Answers (Refused AuthUnavailable)
          else case get_session now sid r of
              None \<Rightarrow> revoke_named sid SessionExpired
            | Some s \<Rightarrow> if is_expired s now then revoke_named sid SessionExpired else Checking h sid s, r)
     | Checking h sid s \<Rightarrow>
         (if fault \<noteq> Fine then Answers (Refused CredentialsUnavailable)
          else if \<not> credential_matches_session pf (credential_by_user db (hs_user s)) s then start_revocation [sid] [] (Refused SessionRevoked)
          else Rotating h sid s, r)
     | Rotating h sid s \<Rightarrow>
         if fault = Lost then (Answers (Refused AuthUnavailable), r)
         else (case rotate_refresh now h (au_sha256 pf (au_token pf n)) sid (hs_expires s) r of
             (outcome, r') \<Rightarrow>
               (if fault \<noteq> Fine then Answers (Refused AuthUnavailable)
                else (case outcome of
                    RotationDone \<Rightarrow> Issuing sid s (au_token pf n)
                  | RotationLost \<Rightarrow> start_revocation [sid] [] (Refused RefreshReused)
                  | RotationMissing \<Rightarrow> Answers (Refused (if is_expired s now then SessionExpired else InvalidRefresh))), r'))
     | _ \<Rightarrow> (g, r))"

text \<open>\<open>revoke_users\<close> and \<open>revoke_sessions\<close>; when only the answers of the pipeline are lost, Redis still runs what it was sent.\<close>

definition revocation_step :: "int \<Rightarrow> fault \<Rightarrow> request \<Rightarrow> stage \<Rightarrow> auth_store \<Rightarrow> stage \<times> auth_store" where
  "revocation_step now fault rq g r =
    (case g of
       Gathering [] sids users reply \<Rightarrow> (start_revocation sids users reply, r)
     | Gathering (u # us) sids users reply \<Rightarrow>
         (if fault \<noteq> Fine then Answers (unavailable rq) else Gathering us (sids @ smembers now (ax_user_sids r u)) users reply, r)
     | Reading [] found users reply \<Rightarrow> (Collecting found [] users reply, r)
     | Reading (sid # sids) found users reply \<Rightarrow>
         (if fault \<noteq> Fine then Answers (unavailable rq)
          else Reading sids (found @ [(sid, map_option hs_user (get_session now sid r))]) users reply, r)
     | Collecting [] cs users reply \<Rightarrow> (Deleting (cs @ user_commands users) reply, r)
     | Collecting (su # found) cs users reply \<Rightarrow>
         (if fault \<noteq> Fine then Answers (unavailable rq)
          else Collecting found (cs @ session_commands su (smembers now (ax_families r (fst su)))) users reply, r)
     | Deleting [] reply \<Rightarrow> (Syncing reply, r)
     | Deleting (c # cs) reply \<Rightarrow>
         (case fault of
            Lost \<Rightarrow> (Answers (unavailable rq), r)
          | AnswerLost \<Rightarrow> (Deleting cs (unavailable rq), run_command c r)
          | _ \<Rightarrow> (Deleting cs reply, run_command c r))
     | Syncing reply \<Rightarrow> (Answers (if fault = Fine then reply else unavailable rq), r)
     | _ \<Rightarrow> (g, r))"

text \<open>\<open>Reconciler.run_once\<close>: the snapshot, the credentials of all its users in one query, and the revocation of what differs.\<close>

definition mismatching :: "auth_platform \<Rightarrow> credential list \<Rightarrow> (string \<times> session_hash) list \<Rightarrow> string list" where
  "mismatching pf db sessions = map fst (filter (\<lambda>(sid, s). \<not> credential_matches_session pf (credential_by_user db (hs_user s)) s) sessions)"

definition reconcile_step :: "auth_platform \<Rightarrow> int \<Rightarrow> credential list \<Rightarrow> fault \<Rightarrow> stage \<Rightarrow> auth_store \<Rightarrow> stage" where
  "reconcile_step pf now db fault g r =
    (case g of
       Listing users (sid # sids) found \<Rightarrow>
         if fault \<noteq> Fine then Answers (Revoked 0)
         else Listing users sids (case get_session now sid r of None \<Rightarrow> found | Some s \<Rightarrow> AList.update sid s found)
     | Listing (u # users) [] found \<Rightarrow>
         if fault \<noteq> Fine then Answers (Revoked 0) else Listing users (smembers now (ax_user_sids r u)) found
     | Listing [] [] found \<Rightarrow> Comparing found
     | Comparing found \<Rightarrow>
         if fault \<noteq> Fine \<or> mismatching pf db found = [] then Answers (Revoked 0)
         else start_revocation (mismatching pf db found) [] (Revoked (length (mismatching pf db found)))
     | _ \<Rightarrow> g)"

definition thread_step ::
  "auth_platform \<Rightarrow> int \<Rightarrow> credential list \<Rightarrow> nat \<Rightarrow> fault \<Rightarrow> request \<Rightarrow> stage \<Rightarrow> auth_store \<Rightarrow> stage \<times> auth_store" where
  "thread_step pf now db n fault rq g r =
    (case g of
       Answers _ \<Rightarrow> (g, r)
     | Begins \<Rightarrow> (begin_step pf now db fault rq r, r)
     | Creating c \<Rightarrow>
         if fault = Lost then (Answers (Refused AuthUnavailable), r)
         else (if fault \<noteq> Fine then Answers (Refused AuthUnavailable) else Issuing (au_uuid4 pf n) (new_session pf now c) (au_token pf n),
               create_session now (au_uuid4 pf n) (new_session pf now c) (au_sha256 pf (au_token pf n)) r)
     | Issuing sid s token \<Rightarrow> (Answers (Tokens (token_result_of pf now (au_uuid4 pf (Suc n)) sid s token)), r)
     | Loading _ _ \<Rightarrow> refresh_step pf now db n fault g r
     | Checking _ _ _ \<Rightarrow> refresh_step pf now db n fault g r
     | Rotating _ _ _ \<Rightarrow> refresh_step pf now db n fault g r
     | Listing _ _ _ \<Rightarrow> (reconcile_step pf now db fault g r, r)
     | Comparing _ \<Rightarrow> (reconcile_step pf now db fault g r, r)
     | _ \<Rightarrow> revocation_step now fault rq g r)"

section \<open>The service at work\<close>

text \<open>
  Threads, the database other services change, and time. \<open>az_opened\<close> and \<open>az_born\<close> are not in Redis: they remember the last
  value each session and each refresh entry had, for the statements to speak about what is deleted.
\<close>

record thread =
  th_request :: request
  th_stage :: stage

record auth_system =
  az_now :: int
  az_db :: "credential list"
  az_store :: auth_store
  az_threads :: "thread list"
  az_draws :: nat
  az_opened :: "string \<Rightarrow> session_hash option"
  az_born :: "string \<Rightarrow> string option"

datatype auth_event = Comes request | Moves nat fault | Ticks nat | Edits "credential list"

definition remembered :: "('k \<Rightarrow> ('v \<times> int) option) \<Rightarrow> ('v \<Rightarrow> 'w) \<Rightarrow> ('k \<Rightarrow> 'w option) \<Rightarrow> 'k \<Rightarrow> 'w option" where
  "remembered m f past k = (case m k of None \<Rightarrow> past k | Some (v, _) \<Rightarrow> Some (f v))"

definition auth_happens :: "auth_platform \<Rightarrow> auth_event \<Rightarrow> auth_system \<Rightarrow> auth_system" where
  "auth_happens pf h y =
    (case h of
       Comes rq \<Rightarrow> y\<lparr>az_threads := az_threads y @ [\<lparr>th_request = rq, th_stage = Begins\<rparr>]\<rparr>
     | Ticks n \<Rightarrow> y\<lparr>az_now := az_now y + int n\<rparr>
     | Edits db \<Rightarrow> y\<lparr>az_db := db\<rparr>
     | Moves i fault \<Rightarrow>
         if i < length (az_threads y)
         then (case thread_step pf (az_now y) (az_db y) (az_draws y) fault (th_request (az_threads y ! i)) (th_stage (az_threads y ! i)) (az_store y) of
            (g, r) \<Rightarrow> y\<lparr>az_store := r, az_threads := (az_threads y)[i := (az_threads y ! i)\<lparr>th_stage := g\<rparr>], az_draws := az_draws y + 2,
              az_opened := remembered (ax_sessions r) id (az_opened y), az_born := remembered (ax_refresh r) rf_sid (az_born y)\<rparr>)
         else y)"

definition no_keys :: auth_store where
  "no_keys = \<lparr>ax_sessions = (\<lambda>_. None), ax_refresh = (\<lambda>_. None), ax_families = (\<lambda>_. None), ax_user_sids = (\<lambda>_. None),
    ax_live = (\<lambda>_. None), ax_users = None\<rparr>"

definition starts_empty :: "auth_system \<Rightarrow> bool" where
  "starts_empty y \<longleftrightarrow> az_store y = no_keys \<and> az_threads y = [] \<and> az_opened y = (\<lambda>_. None) \<and> az_born y = (\<lambda>_. None)"

text \<open>What is relied on: values drawn at random never repeat, nor do their digests.\<close>

definition draws_distinct :: "auth_platform \<Rightarrow> bool" where
  "draws_distinct pf \<longleftrightarrow> inj (au_uuid4 pf) \<and> inj (\<lambda>n. au_sha256 pf (au_token pf n)) \<and> (\<forall>n. au_uuid4 pf n \<noteq> [])"

end
