(* ===== verification/Auth_Safety.thy ===== *)
theory Auth_Safety
  imports Auth_Sessions
begin

text \<open>
  What holds of the authentication service however its threads, the database and time interleave: a refresh token buys at
  most once, a session that is over stays over, and no token outlives its session.
\<close>

section \<open>What always holds\<close>

definition over :: "auth_system \<Rightarrow> string \<Rightarrow> bool" where
  "over y sid \<longleftrightarrow> az_opened y sid \<noteq> None \<and> \<not> is_live (az_now y) sid (az_store y) \<and> get_session (az_now y) sid (az_store y) = None"

definition is_current :: "auth_store \<Rightarrow> string \<Rightarrow> bool" where
  "is_current r h \<longleftrightarrow> (case ax_refresh r h of None \<Rightarrow> False | Some (e, _) \<Rightarrow> rf_state e = CurrentToken)"

definition spent :: "auth_system \<Rightarrow> string \<Rightarrow> bool" where
  "spent y h \<longleftrightarrow> az_born y h \<noteq> None \<and> \<not> is_current (az_store y) h"

definition later :: "auth_system \<Rightarrow> auth_system \<Rightarrow> bool" where
  "later y y' \<longleftrightarrow> az_now y \<le> az_now y'
    \<and> (\<forall>sid s. az_opened y sid = Some s \<longrightarrow> az_opened y' sid = Some s) \<and> (\<forall>h sid. az_born y h = Some sid \<longrightarrow> az_born y' h = Some sid)
    \<and> (\<forall>h. spent y h \<longrightarrow> spent y' h) \<and> (\<forall>sid. over y sid \<longrightarrow> over y' sid)"

definition store_ok :: "auth_platform \<Rightarrow> auth_system \<Rightarrow> bool" where
  "store_ok pf y \<longleftrightarrow>
    (\<forall>sid s. az_opened y sid = Some s \<longrightarrow> (\<exists>k < az_draws y. sid = au_uuid4 pf k))
    \<and> (\<forall>h sid. az_born y h = Some sid \<longrightarrow> az_opened y sid \<noteq> None \<and> (\<exists>k < az_draws y. h = au_sha256 pf (au_token pf k)))
    \<and> (\<forall>sid s e. ax_sessions (az_store y) sid = Some (s, e) \<longrightarrow> az_opened y sid = Some s \<and> e = hs_expires s)
    \<and> (\<forall>sid v e. ax_live (az_store y) sid = Some (v, e) \<longrightarrow> (\<exists>s. az_opened y sid = Some s \<and> e = hs_expires s))
    \<and> (\<forall>h e x. ax_refresh (az_store y) h = Some (e, x) \<longrightarrow> az_born y h = Some (rf_sid e))
    \<and> (\<forall>h h' sid. is_current (az_store y) h \<longrightarrow> is_current (az_store y) h' \<longrightarrow> az_born y h = Some sid \<longrightarrow> az_born y h' = Some sid \<longrightarrow> h = h')"

text \<open>The sessions a revocation still has to delete.\<close>

definition deleted_by :: "command list \<Rightarrow> string list" where
  "deleted_by cs = concat (map (\<lambda>c. case c of DeleteSession sid _ \<Rightarrow> [sid] | _ \<Rightarrow> []) cs)"

definition pending :: "stage \<Rightarrow> string list" where
  "pending g =
    (case g of
       Reading sids found _ _ \<Rightarrow> map fst found @ sids
     | Collecting found cs _ _ \<Rightarrow> deleted_by cs @ map fst found
     | Deleting cs _ \<Rightarrow> deleted_by cs
     | _ \<Rightarrow> [])"

definition in_time :: "auth_platform \<Rightarrow> request \<Rightarrow> session_hash \<Rightarrow> int \<Rightarrow> bool" where
  "in_time pf rq s now \<longleftrightarrow> (case rq of SignIn _ _ \<Rightarrow> hs_expires s \<le> now + au_session_ttl pf | _ \<Rightarrow> True)"

definition granted :: "auth_platform \<Rightarrow> auth_system \<Rightarrow> request \<Rightarrow> string \<Rightarrow> session_hash \<Rightarrow> string \<Rightarrow> bool" where
  "granted pf y rq sid s token \<longleftrightarrow> az_opened y sid = Some s \<and> az_born y (au_sha256 pf token) = Some sid
    \<and> in_time pf rq s (az_now y)
    \<and> (case rq of
         SignIn _ _ \<Rightarrow> True
       | RefreshWith x \<Rightarrow> az_born y (au_sha256 pf x) = Some sid \<and> spent y (au_sha256 pf x)
       | _ \<Rightarrow> False)"

definition presented :: "auth_platform \<Rightarrow> auth_system \<Rightarrow> request \<Rightarrow> string \<Rightarrow> string \<Rightarrow> bool" where
  "presented pf y rq h sid \<longleftrightarrow> (case rq of RefreshWith x \<Rightarrow> h = au_sha256 pf x \<and> az_born y h = Some sid | _ \<Rightarrow> False)"

definition ends :: "auth_platform \<Rightarrow> auth_system \<Rightarrow> request \<Rightarrow> string list \<Rightarrow> reply \<Rightarrow> bool" where
  "ends pf y rq left reply \<longleftrightarrow>
    (case reply of
       Tokens _ \<Rightarrow> False
     | NoContent \<Rightarrow> (case rq of SignOut c \<Rightarrow> az_opened y (tk_sid c) \<noteq> None \<and> (tk_sid c \<in> set left \<or> over y (tk_sid c)) | _ \<Rightarrow> True)
     | Revoked _ \<Rightarrow> True
     | Refused e \<Rightarrow>
         (case rq of
            RefreshWith x \<Rightarrow>
              e \<in> {RefreshReused, SessionRevoked, SessionExpired}
                \<longrightarrow> (\<exists>sid. az_born y (au_sha256 pf x) = Some sid \<and> az_opened y sid \<noteq> None \<and> (sid \<in> set left \<or> over y sid))
          | _ \<Rightarrow> True))"

definition stage_ok :: "auth_platform \<Rightarrow> auth_system \<Rightarrow> request \<Rightarrow> stage \<Rightarrow> bool" where
  "stage_ok pf y rq g \<longleftrightarrow>
    (case g of
       Begins \<Rightarrow> True
     | Creating _ \<Rightarrow> (case rq of SignIn _ _ \<Rightarrow> True | _ \<Rightarrow> False)
     | Loading h sid \<Rightarrow> presented pf y rq h sid
     | Checking h sid s \<Rightarrow> presented pf y rq h sid \<and> az_opened y sid = Some s
     | Rotating h sid s \<Rightarrow> presented pf y rq h sid \<and> az_opened y sid = Some s
     | Issuing sid s token \<Rightarrow> granted pf y rq sid s token
     | Gathering _ _ _ reply \<Rightarrow> (case rq of AccessChanged _ \<Rightarrow> reply = NoContent | _ \<Rightarrow> False)
     | Reading _ _ _ reply \<Rightarrow> ends pf y rq (pending g) reply
     | Collecting _ _ _ reply \<Rightarrow> ends pf y rq (pending g) reply
     | Deleting _ reply \<Rightarrow> ends pf y rq (pending g) reply
     | Syncing reply \<Rightarrow> ends pf y rq [] reply
     | Listing _ _ _ \<Rightarrow> rq = Reconcile
     | Comparing _ \<Rightarrow> rq = Reconcile
     | Answers reply \<Rightarrow>
         (case reply of
            Tokens t \<Rightarrow> (\<exists>now \<le> az_now y. \<exists>jti sid s token. t = token_result_of pf now jti sid s token \<and> granted pf y rq sid s token \<and> in_time pf rq s now)
          | _ \<Rightarrow> ends pf y rq [] reply))"

definition bought :: "auth_platform \<Rightarrow> thread \<Rightarrow> string \<Rightarrow> bool" where
  "bought pf t h \<longleftrightarrow>
    (case th_request t of RefreshWith x \<Rightarrow> au_sha256 pf x = h | _ \<Rightarrow> False)
    \<and> (case th_stage t of Issuing _ _ _ \<Rightarrow> True | Answers (Tokens _) \<Rightarrow> True | _ \<Rightarrow> False)"

definition system_ok :: "auth_platform \<Rightarrow> auth_system \<Rightarrow> bool" where
  "system_ok pf y \<longleftrightarrow> store_ok pf y \<and> list_all (\<lambda>t. stage_ok pf y (th_request t) (th_stage t)) (az_threads y)
    \<and> (\<forall>h i j. i < length (az_threads y) \<longrightarrow> j < length (az_threads y)
         \<longrightarrow> bought pf (az_threads y ! i) h \<longrightarrow> bought pf (az_threads y ! j) h \<longrightarrow> i = j)"

lemmas auth_defs = create_session_def rotate_refresh_def run_command_def get_refresh_def get_session_def is_live_def unexpired_def

text \<open>The ways a step changes the store.\<close>

lemma thread_step_store:
  assumes "thread_step pf now db n fault rq g r = (g', r')"
  obtains "r' = r"
  | c where "g = Creating c" "r' = create_session now (au_uuid4 pf n) (new_session pf now c) (au_sha256 pf (au_token pf n)) r"
  | h sid s where "g = Rotating h sid s" "rotate_refresh now h (au_sha256 pf (au_token pf n)) sid (hs_expires s) r = (RotationDone, r')"
  | c cs reply where "g = Deleting (c # cs) reply" "r' = run_command c r"
proof (cases g)
  case (Rotating h sid s)
  show ?thesis
  proof (cases "fault = Lost")
    case True
    then show ?thesis using assms Rotating that(1) by (simp add: thread_step_def refresh_step_def)
  next
    case False
    obtain outcome r1 where r1: "rotate_refresh now h (au_sha256 pf (au_token pf n)) sid (hs_expires s) r = (outcome, r1)" by fastforce
    then have "r' = r1" using assms Rotating False by (simp add: thread_step_def refresh_step_def)
    moreover have "outcome = RotationDone \<or> r1 = r"
      using r1 by (auto simp: rotate_refresh_def split: option.splits if_splits)
    ultimately show ?thesis using that(1,3) Rotating r1 by blast
  qed
next
  case (Deleting cs reply)
  then show ?thesis using assms that(1,4) by (cases cs; cases fault) (auto simp: thread_step_def revocation_step_def)
next
  case (Gathering us sids users reply)
  then show ?thesis using assms that(1) by (cases us) (auto simp: thread_step_def revocation_step_def)
next
  case (Reading sids found users reply)
  then show ?thesis using assms that(1) by (cases sids) (auto simp: thread_step_def revocation_step_def)
next
  case (Collecting found cs users reply)
  then show ?thesis using assms that(1) by (cases found) (auto simp: thread_step_def revocation_step_def)
qed (use assms that(1,2) in \<open>auto simp: thread_step_def refresh_step_def revocation_step_def split: if_splits\<close>)

section \<open>One change of the store\<close>

definition settle :: "auth_store \<Rightarrow> auth_system \<Rightarrow> auth_system" where
  "settle r y = y\<lparr>az_store := r, az_draws := az_draws y + 2,
    az_opened := remembered (ax_sessions r) id (az_opened y), az_born := remembered (ax_refresh r) rf_sid (az_born y)\<rparr>"

lemma settle_simps [simp]:
  "az_now (settle r y) = az_now y" "az_db (settle r y) = az_db y" "az_store (settle r y) = r" "az_threads (settle r y) = az_threads y"
  "az_draws (settle r y) = az_draws y + 2"
  by (simp_all add: settle_def)

lemma settle_past:
  "az_opened (settle r y) = remembered (ax_sessions r) id (az_opened y)" "az_born (settle r y) = remembered (ax_refresh r) rf_sid (az_born y)"
  by (simp_all add: settle_def)

lemma store_okD:
  assumes "store_ok pf y"
  shows "az_opened y sid = Some s \<Longrightarrow> \<exists>k < az_draws y. sid = au_uuid4 pf k"
    and "az_born y h = Some sid \<Longrightarrow> az_opened y sid \<noteq> None"
    and "az_born y h = Some sid \<Longrightarrow> \<exists>k < az_draws y. h = au_sha256 pf (au_token pf k)"
    and "ax_sessions (az_store y) sid = Some (s, e) \<Longrightarrow> az_opened y sid = Some s \<and> e = hs_expires s"
    and "ax_live (az_store y) sid = Some (v, e) \<Longrightarrow> \<exists>s. az_opened y sid = Some s \<and> e = hs_expires s"
    and "ax_refresh (az_store y) h = Some (entry, e) \<Longrightarrow> az_born y h = Some (rf_sid entry)"
    and "is_current (az_store y) h \<Longrightarrow> is_current (az_store y) h' \<Longrightarrow> az_born y h = Some sid \<Longrightarrow> az_born y h' = Some sid \<Longrightarrow> h = h'"
proof -
  note ok = assms [unfolded store_ok_def]
  show "az_opened y sid = Some s \<Longrightarrow> \<exists>k < az_draws y. sid = au_uuid4 pf k" by (rule ok [THEN conjunct1, rule_format])
  show "az_born y h = Some sid \<Longrightarrow> az_opened y sid \<noteq> None"
    by (rule ok [THEN conjunct2, THEN conjunct1, rule_format, THEN conjunct1])
  show "az_born y h = Some sid \<Longrightarrow> \<exists>k < az_draws y. h = au_sha256 pf (au_token pf k)"
    by (rule ok [THEN conjunct2, THEN conjunct1, rule_format, THEN conjunct2])
  show "ax_sessions (az_store y) sid = Some (s, e) \<Longrightarrow> az_opened y sid = Some s \<and> e = hs_expires s"
    by (rule ok [THEN conjunct2, THEN conjunct2, THEN conjunct1, rule_format])
  show "ax_live (az_store y) sid = Some (v, e) \<Longrightarrow> \<exists>s. az_opened y sid = Some s \<and> e = hs_expires s"
    by (rule ok [THEN conjunct2, THEN conjunct2, THEN conjunct2, THEN conjunct1, rule_format])
  show "ax_refresh (az_store y) h = Some (entry, e) \<Longrightarrow> az_born y h = Some (rf_sid entry)"
    by (rule ok [THEN conjunct2, THEN conjunct2, THEN conjunct2, THEN conjunct2, THEN conjunct1, rule_format])
  show "is_current (az_store y) h \<Longrightarrow> is_current (az_store y) h' \<Longrightarrow> az_born y h = Some sid \<Longrightarrow> az_born y h' = Some sid \<Longrightarrow> h = h'"
    by (rule ok [THEN conjunct2, THEN conjunct2, THEN conjunct2, THEN conjunct2, THEN conjunct2, rule_format])
qed

lemma store_okI:
  assumes "\<And>sid s. az_opened y sid = Some s \<Longrightarrow> \<exists>k < az_draws y. sid = au_uuid4 pf k"
    and "\<And>h sid. az_born y h = Some sid \<Longrightarrow> az_opened y sid \<noteq> None"
    and "\<And>h sid. az_born y h = Some sid \<Longrightarrow> \<exists>k < az_draws y. h = au_sha256 pf (au_token pf k)"
    and "\<And>sid s e. ax_sessions (az_store y) sid = Some (s, e) \<Longrightarrow> az_opened y sid = Some s \<and> e = hs_expires s"
    and "\<And>sid v e. ax_live (az_store y) sid = Some (v, e) \<Longrightarrow> \<exists>s. az_opened y sid = Some s \<and> e = hs_expires s"
    and "\<And>h entry e. ax_refresh (az_store y) h = Some (entry, e) \<Longrightarrow> az_born y h = Some (rf_sid entry)"
    and "\<And>h h' sid. is_current (az_store y) h \<Longrightarrow> is_current (az_store y) h' \<Longrightarrow> az_born y h = Some sid \<Longrightarrow> az_born y h' = Some sid \<Longrightarrow> h = h'"
  shows "store_ok pf y"
proof -
  have born: "az_opened y sid \<noteq> None \<and> (\<exists>k < az_draws y. h = au_sha256 pf (au_token pf k))" if "az_born y h = Some sid" for h sid
    using assms(2,3) [OF that] by (rule conjI)
  show ?thesis unfolding store_ok_def using assms(1) born assms(4-7) by simp
qed

lemma fresh_uuid:
  assumes "store_ok pf y" and "draws_distinct pf"
  shows "az_opened y (au_uuid4 pf (az_draws y)) = None" and "ax_sessions (az_store y) (au_uuid4 pf (az_draws y)) = None"
    and "ax_live (az_store y) (au_uuid4 pf (az_draws y)) = None" and "az_born y h \<noteq> Some (au_uuid4 pf (az_draws y))"
proof -
  have "au_uuid4 pf a = au_uuid4 pf b \<Longrightarrow> a = b" for a b
    using assms(2) by (simp add: draws_distinct_def inj_eq)
  then show opened: "az_opened y (au_uuid4 pf (az_draws y)) = None"
    using store_okD(1) [OF assms(1), of "au_uuid4 pf (az_draws y)"] by fastforce
  show "ax_sessions (az_store y) (au_uuid4 pf (az_draws y)) = None"
    using store_okD(4) [OF assms(1)] opened by (cases "ax_sessions (az_store y) (au_uuid4 pf (az_draws y))") auto
  show "ax_live (az_store y) (au_uuid4 pf (az_draws y)) = None"
    using store_okD(5) [OF assms(1)] opened by (cases "ax_live (az_store y) (au_uuid4 pf (az_draws y))") fastforce+
  show "az_born y h \<noteq> Some (au_uuid4 pf (az_draws y))" using store_okD(2) [OF assms(1), of h] opened by auto
qed

lemma fresh_hash:
  assumes "store_ok pf y" and "draws_distinct pf"
  shows "az_born y (au_sha256 pf (au_token pf (az_draws y))) = None" and "ax_refresh (az_store y) (au_sha256 pf (au_token pf (az_draws y))) = None"
proof -
  have "au_sha256 pf (au_token pf a) = au_sha256 pf (au_token pf b) \<Longrightarrow> a = b" for a b
    using assms(2) by (auto simp: draws_distinct_def dest: injD)
  then show born: "az_born y (au_sha256 pf (au_token pf (az_draws y))) = None"
    using store_okD(3) [OF assms(1), of "au_sha256 pf (au_token pf (az_draws y))"] by fastforce
  show "ax_refresh (az_store y) (au_sha256 pf (au_token pf (az_draws y))) = None"
    using store_okD(6) [OF assms(1)] born by (cases "ax_refresh (az_store y) (au_sha256 pf (au_token pf (az_draws y)))") fastforce+
qed

text \<open>The session of a key that is there is what was opened.\<close>

lemma kept_store:
  assumes "store_ok pf y"
  shows "settle (az_store y) y = y\<lparr>az_draws := az_draws y + 2\<rparr>"
proof -
  have "remembered (ax_sessions (az_store y)) id (az_opened y) x = az_opened y x" for x
    using store_okD(4) [OF assms, of x] by (auto simp: remembered_def split: option.split)
  moreover have "remembered (ax_refresh (az_store y)) rf_sid (az_born y) x = az_born y x" for x
    using store_okD(6) [OF assms, of x] by (auto simp: remembered_def split: option.split)
  ultimately show ?thesis by (simp add: settle_def fun_eq_iff)
qed

lemma auth_later_refl [simp]: "later y y"
  by (simp add: later_def)

lemma auth_later_trans: "later y y' \<Longrightarrow> later y' y'' \<Longrightarrow> later y y''"
  by (auto simp: later_def)

text \<open>A session is created.\<close>

lemma created:
  fixes s :: session_hash
  assumes ok: "store_ok pf y" and draws: "draws_distinct pf"
  defines "sid \<equiv> au_uuid4 pf (az_draws y)" and "h \<equiv> au_sha256 pf (au_token pf (az_draws y))"
  defines "r \<equiv> create_session (az_now y) sid s h (az_store y)"
  shows "later y (settle r y)" and "store_ok pf (settle r y)"
    and "az_opened (settle r y) = (az_opened y)(sid \<mapsto> s)" and "az_born (settle r y) = (az_born y)(h \<mapsto> sid)"
proof -
  note fresh = fresh_uuid [OF ok draws, folded sid_def] fresh_hash [OF ok draws, folded h_def]
  have sessions: "ax_sessions r = (ax_sessions (az_store y))(sid \<mapsto> (s, hs_expires s))"
    and live: "ax_live r = (ax_live (az_store y))(sid \<mapsto> ((), hs_expires s))"
    and refresh: "ax_refresh r = (ax_refresh (az_store y))(h \<mapsto> (\<lparr>rf_sid = sid, rf_state = CurrentToken\<rparr>, hs_expires s + EXPIRED_REFRESH_GRACE_SECONDS))"
    by (simp_all add: r_def create_session_def)
  show opened: "az_opened (settle r y) = (az_opened y)(sid \<mapsto> s)"
  proof
    fix x
    show "az_opened (settle r y) x = ((az_opened y)(sid \<mapsto> s)) x"
      using store_okD(4) [OF ok, of x] by (auto simp: settle_past remembered_def sessions split: option.split)
  qed
  show born: "az_born (settle r y) = (az_born y)(h \<mapsto> sid)"
  proof
    fix x
    show "az_born (settle r y) x = ((az_born y)(h \<mapsto> sid)) x"
      using store_okD(6) [OF ok, of x] by (auto simp: settle_past remembered_def refresh split: option.split)
  qed
  have current: "is_current r x \<longleftrightarrow> x = h \<or> is_current (az_store y) x" for x
    by (simp add: is_current_def refresh)
  have ended: "\<not> is_live (az_now y) x r \<and> get_session (az_now y) x r = None" if "over y x" for x
    using that fresh(1) by (cases "x = sid") (auto simp: over_def is_live_def get_session_def sessions live)
  show "later y (settle r y)"
    using fresh(1) fresh(5) ended by (auto simp: later_def opened born spent_def current over_def)
  show "store_ok pf (settle r y)"
  proof (rule store_okI)
    show "\<exists>k < az_draws (settle r y). x = au_uuid4 pf k" if given: "az_opened (settle r y) x = Some v" for x v
    proof (cases "x = sid")
      case True
      then show ?thesis by (intro exI [of _ "az_draws y"]) (simp add: sid_def)
    next
      case False
      then obtain k where "k < az_draws y" "x = au_uuid4 pf k" using given store_okD(1) [OF ok, of x] by (auto simp: opened)
      then show ?thesis by (intro exI [of _ k]) simp
    qed
  next
    show "az_opened (settle r y) v \<noteq> None" if "az_born (settle r y) x = Some v" for x v
      using that store_okD(2) [OF ok, of x] by (auto simp: opened born split: if_splits)
  next
    show "\<exists>k < az_draws (settle r y). x = au_sha256 pf (au_token pf k)" if given: "az_born (settle r y) x = Some v" for x v
    proof (cases "x = h")
      case True
      then show ?thesis by (intro exI [of _ "az_draws y"]) (simp add: h_def)
    next
      case False
      then obtain k where "k < az_draws y" "x = au_sha256 pf (au_token pf k)" using given store_okD(3) [OF ok, of x] by (auto simp: born)
      then show ?thesis by (intro exI [of _ k]) simp
    qed
  next
    show "az_opened (settle r y) x = Some v \<and> e = hs_expires v" if "ax_sessions (az_store (settle r y)) x = Some (v, e)" for x v e
      using that store_okD(4) [OF ok, of x] by (auto simp: opened sessions split: if_splits)
  next
    show "\<exists>w. az_opened (settle r y) x = Some w \<and> e = hs_expires w" if "ax_live (az_store (settle r y)) x = Some (v, e)" for x v e
      using that store_okD(5) [OF ok, of x] by (auto simp: opened live split: if_splits)
  next
    show "az_born (settle r y) x = Some (rf_sid entry)" if "ax_refresh (az_store (settle r y)) x = Some (entry, e)" for x entry e
      using that store_okD(6) [OF ok, of x] by (auto simp: born refresh split: if_splits)
  next
    show "x = x'" if "is_current (az_store (settle r y)) x" "is_current (az_store (settle r y)) x'"
      "az_born (settle r y) x = Some v" "az_born (settle r y) x' = Some v" for x x' v
      using that store_okD(7) [OF ok, of x x'] fresh(4) by (auto simp: born current split: if_splits)
  qed
qed

text \<open>A token is rotated.\<close>

lemma rotated:
  assumes ok: "store_ok pf y" and draws: "draws_distinct pf"
    and rotate: "rotate_refresh (az_now y) old (au_sha256 pf (au_token pf (az_draws y))) sid expires (az_store y) = (RotationDone, r)"
  defines "h \<equiv> au_sha256 pf (au_token pf (az_draws y))"
  shows "later y (settle r y)" and "store_ok pf (settle r y)" and "az_opened (settle r y) = az_opened y"
    and "az_born (settle r y) = (az_born y)(h \<mapsto> sid)" and "is_current (az_store y) old" and "spent (settle r y) old" and "az_born y old = Some sid"
proof -
  note fresh = fresh_hash [OF ok draws, folded h_def]
  obtain e x where entry: "ax_refresh (az_store y) old = Some (e, x)" "rf_state e = CurrentToken" "rf_sid e = sid"
    and r: "r = (az_store y)\<lparr>ax_refresh := (ax_refresh (az_store y)) (old := Some (e\<lparr>rf_state := RotatedToken\<rparr>, x),
                h \<mapsto> (\<lparr>rf_sid = sid, rf_state = CurrentToken\<rparr>, expires + EXPIRED_REFRESH_GRACE_SECONDS)),
             ax_families := (ax_families (az_store y))(sid := sadd_expireat (az_now y) h (expires + EXPIRED_REFRESH_GRACE_SECONDS) (ax_families (az_store y) sid))\<rparr>"
    using rotate by (auto simp: rotate_refresh_def get_refresh_def unexpired_def h_def split: option.splits if_splits)
  have sessions: "ax_sessions r = ax_sessions (az_store y)" and live: "ax_live r = ax_live (az_store y)"
    and refresh: "ax_refresh r = (ax_refresh (az_store y)) (old := Some (e\<lparr>rf_state := RotatedToken\<rparr>, x),
                h \<mapsto> (\<lparr>rf_sid = sid, rf_state = CurrentToken\<rparr>, expires + EXPIRED_REFRESH_GRACE_SECONDS))"
    by (simp_all add: r)
  have differs: "h \<noteq> old" using fresh(2) entry(1) by auto
  have opened: "az_opened (settle r y) = az_opened y"
  proof
    fix z
    show "az_opened (settle r y) z = az_opened y z"
      using store_okD(4) [OF ok, of z] by (auto simp: sessions settle_past remembered_def split: option.split)
  qed
  have born: "az_born (settle r y) = (az_born y)(h \<mapsto> sid)"
  proof
    fix z
    show "az_born (settle r y) z = ((az_born y)(h \<mapsto> sid)) z"
      using store_okD(6) [OF ok, of z] entry by (auto simp: refresh settle_past remembered_def split: option.split)
  qed
  have current: "is_current r z \<longleftrightarrow> z = h \<or> z \<noteq> old \<and> is_current (az_store y) z" for z
    using differs by (auto simp: refresh is_current_def)
  show old: "is_current (az_store y) old" using entry by (simp add: is_current_def)
  show was: "az_born y old = Some sid" using store_okD(6) [OF ok entry(1)] entry(3) by simp
  show "spent (settle r y) old" using was differs by (simp add: spent_def born current)
  show "later y (settle r y)"
    using fresh(1) by (auto simp: later_def opened born spent_def current over_def is_live_def get_session_def sessions live)
  have single: "z = old" if "is_current (az_store y) z" "az_born y z = Some sid" for z
    using store_okD(7) [OF ok that(1) old that(2) was] .
  show "store_ok pf (settle r y)"
  proof (rule store_okI)
    show "\<exists>k < az_draws (settle r y). z = au_uuid4 pf k" if "az_opened (settle r y) z = Some v" for z v
      using that store_okD(1) [OF ok, of z v] by (auto simp: opened intro: less_SucI)
  next
    show "az_opened (settle r y) v \<noteq> None" if "az_born (settle r y) z = Some v" for z v
      using that store_okD(2) [OF ok, of z] store_okD(2) [OF ok was] by (auto simp: opened born split: if_splits)
  next
    show "\<exists>k < az_draws (settle r y). z = au_sha256 pf (au_token pf k)" if given: "az_born (settle r y) z = Some v" for z v
    proof (cases "z = h")
      case True
      then show ?thesis by (intro exI [of _ "az_draws y"]) (simp add: h_def)
    next
      case False
      then obtain k where "k < az_draws y" "z = au_sha256 pf (au_token pf k)" using given store_okD(3) [OF ok, of z] by (auto simp: born)
      then show ?thesis by (intro exI [of _ k]) simp
    qed
  next
    show "az_opened (settle r y) z = Some v \<and> t = hs_expires v" if "ax_sessions (az_store (settle r y)) z = Some (v, t)" for z v t
      using that store_okD(4) [OF ok, of z] by (auto simp: opened sessions live)
  next
    show "\<exists>w. az_opened (settle r y) z = Some w \<and> t = hs_expires w" if "ax_live (az_store (settle r y)) z = Some (v, t)" for z v t
      using that store_okD(5) [OF ok, of z] by (auto simp: opened sessions live)
  next
    show "az_born (settle r y) z = Some (rf_sid en)" if "ax_refresh (az_store (settle r y)) z = Some (en, t)" for z en t
      using that store_okD(6) [OF ok, of z] was entry(3) by (auto simp: born refresh split: if_splits)
  next
    show "z = z'" if "is_current (az_store (settle r y)) z" "is_current (az_store (settle r y)) z'"
      "az_born (settle r y) z = Some v" "az_born (settle r y) z' = Some v" for z z' v
      using that store_okD(7) [OF ok, of z z'] single by (auto simp: born current split: if_splits)
  qed
  show "az_opened (settle r y) = az_opened y" by (rule opened)
  show "az_born (settle r y) = (az_born y)(h \<mapsto> sid)" by (rule born)
qed

text \<open>A command of a revocation runs.\<close>

lemma commanded:
  assumes ok: "store_ok pf y"
  shows "later y (settle (run_command c (az_store y)) y)" and "store_ok pf (settle (run_command c (az_store y)) y)"
    and "az_opened (settle (run_command c (az_store y)) y) = az_opened y" and "az_born (settle (run_command c (az_store y)) y) = az_born y"
    and "sid \<in> set (deleted_by [c]) \<Longrightarrow> az_opened y sid \<noteq> None \<Longrightarrow> over (settle (run_command c (az_store y)) y) sid"
proof -
  let ?y = "settle (run_command c (az_store y)) y"
  have sessions: "ax_sessions (run_command c (az_store y)) z = None \<or> ax_sessions (run_command c (az_store y)) z = ax_sessions (az_store y) z" for z
    by (simp add: run_command_def split: command.split)
  have live: "ax_live (run_command c (az_store y)) z = None \<or> ax_live (run_command c (az_store y)) z = ax_live (az_store y) z" for z
    by (simp add: run_command_def split: command.split)
  have refresh: "ax_refresh (run_command c (az_store y)) z = None \<or> ax_refresh (run_command c (az_store y)) z = ax_refresh (az_store y) z" for z
    by (simp add: run_command_def split: command.split)
  show opened: "az_opened ?y = az_opened y"
  proof
    fix z
    show "az_opened ?y z = az_opened y z"
      using sessions [of z] store_okD(4) [OF ok, of z] by (auto simp: settle_past remembered_def split: option.split)
  qed
  show born: "az_born ?y = az_born y"
  proof
    fix z
    show "az_born ?y z = az_born y z"
      using refresh [of z] store_okD(6) [OF ok, of z] by (auto simp: settle_past remembered_def split: option.split)
  qed
  have current: "is_current (az_store y) z" if "is_current (run_command c (az_store y)) z" for z
    using that refresh [of z] by (cases "ax_refresh (az_store y) z") (auto simp: is_current_def)
  have ends: "\<not> is_live (az_now y) z (run_command c (az_store y))" "get_session (az_now y) z (run_command c (az_store y)) = None"
    if "over y z" for z
    using that live [of z] sessions [of z] by (auto simp: over_def is_live_def get_session_def unexpired_def)
  show "later y ?y"
    using current ends by (auto simp: later_def opened born spent_def over_def)
  show "store_ok pf ?y"
  proof (rule store_okI)
    show "\<exists>k < az_draws ?y. z = au_uuid4 pf k" if "az_opened ?y z = Some v" for z v
      using that store_okD(1) [OF ok, of z v] by (auto simp: opened intro: less_SucI)
  next
    show "az_opened ?y v \<noteq> None" if "az_born ?y z = Some v" for z v
      using that store_okD(2) [OF ok, of z] by (simp add: opened born)
  next
    show "\<exists>k < az_draws ?y. z = au_sha256 pf (au_token pf k)" if "az_born ?y z = Some v" for z v
      using that store_okD(3) [OF ok, of z v] by (auto simp: born intro: less_SucI)
  next
    show "az_opened ?y z = Some v \<and> t = hs_expires v" if "ax_sessions (az_store ?y) z = Some (v, t)" for z v t
      using that sessions [of z] store_okD(4) [OF ok, of z v t] by (auto simp: opened)
  next
    show "\<exists>w. az_opened ?y z = Some w \<and> t = hs_expires w" if "ax_live (az_store ?y) z = Some (v, t)" for z v t
      using that live [of z] store_okD(5) [OF ok, of z] by (auto simp: opened)
  next
    show "az_born ?y z = Some (rf_sid en)" if "ax_refresh (az_store ?y) z = Some (en, t)" for z en t
      using that refresh [of z] store_okD(6) [OF ok, of z en t] by (auto simp: born)
  next
    show "z = z'" if "is_current (az_store ?y) z" "is_current (az_store ?y) z'" "az_born ?y z = Some v" "az_born ?y z' = Some v" for z z' v
      using that store_okD(7) [OF ok, of z z'] current by (simp add: born)
  qed
  show "over ?y sid" if deleted: "sid \<in> set (deleted_by [c])" and known: "az_opened y sid \<noteq> None"
  proof -
    obtain hs where "c = DeleteSession sid hs" using deleted by (auto simp: deleted_by_def split: command.splits)
    then have "\<not> is_live (az_now y) sid (run_command c (az_store y))" "get_session (az_now y) sid (run_command c (az_store y)) = None"
      by (simp_all add: run_command_def is_live_def get_session_def unexpired_def)
    then show ?thesis using known by (simp add: over_def opened)
  qed
qed

section \<open>One step of a thread\<close>

lemma later_parts:
  assumes "later y y'"
  shows "az_opened y sid = Some s \<Longrightarrow> az_opened y' sid = Some s" and "az_born y h = Some sid \<Longrightarrow> az_born y' h = Some sid"
    and "spent y h \<Longrightarrow> spent y' h" and "over y sid \<Longrightarrow> over y' sid" and "az_now y \<le> az_now y'"
    and "az_opened y sid \<noteq> None \<Longrightarrow> az_opened y' sid \<noteq> None"
  using assms by (auto simp: later_def)

lemma in_time_later: "in_time pf rq s t \<Longrightarrow> t \<le> t' \<Longrightarrow> in_time pf rq s t'"
  by (auto simp: in_time_def split: request.splits)

lemma granted_later: "later y y' \<Longrightarrow> granted pf y rq sid s token \<Longrightarrow> granted pf y' rq sid s token"
  by (auto simp: granted_def later_parts intro: in_time_later split: request.splits)

lemma presented_later: "later y y' \<Longrightarrow> presented pf y rq h sid \<Longrightarrow> presented pf y' rq h sid"
  by (auto simp: presented_def later_parts split: request.splits)

lemma ends_later:
  assumes "later y y'" and "ends pf y rq left reply"
  shows "ends pf y' rq left reply"
proof (cases reply)
  case NoContent
  then show ?thesis using assms(2) later_parts(4,6) [OF assms(1)] by (cases rq) (auto simp: ends_def)
next
  case (Refused e)
  show ?thesis
  proof (cases rq)
    case (RefreshWith x)
    then show ?thesis using assms(2) Refused later_parts(2,4,6) [OF assms(1)] by (fastforce simp: ends_def)
  qed (simp_all add: ends_def Refused)
qed (use assms(2) in \<open>simp_all add: ends_def\<close>)

lemma stage_ok_later:
  assumes "later y y'" and "stage_ok pf y rq g"
  shows "stage_ok pf y' rq g"
proof (cases g)
  case (Answers reply)
  show ?thesis
  proof (cases reply)
    case (Tokens t)
    then obtain now jti sid s token where "now \<le> az_now y" "t = token_result_of pf now jti sid s token" "granted pf y rq sid s token" "in_time pf rq s now"
      using assms(2) Answers by (auto simp: stage_ok_def)
    moreover from this have "now \<le> az_now y'" "granted pf y' rq sid s token"
      using later_parts(5) [OF assms(1)] granted_later [OF assms(1)] by auto
    ultimately have "\<exists>now \<le> az_now y'. \<exists>jti sid s token. t = token_result_of pf now jti sid s token \<and> granted pf y' rq sid s token
      \<and> in_time pf rq s now" by blast
    then show ?thesis using Answers Tokens by (simp add: stage_ok_def)
  qed (use assms(2) ends_later [OF assms(1)] Answers in \<open>simp_all add: stage_ok_def\<close>)
qed (use assms(2) granted_later [OF assms(1)] presented_later [OF assms(1)] ends_later [OF assms(1)] later_parts(1) [OF assms(1)]
     in \<open>simp_all add: stage_ok_def\<close>)

lemma dict_keys_one [simp]: "dict_keys [] = []" "dict_keys [x] = [x]"
  by (simp_all add: dict_keys_def)

lemma set_dict_keys [simp]: "set (dict_keys xs) = set xs"
  by (simp add: dict_keys_def)

lemma ends_set: "set left = set left' \<Longrightarrow> ends pf y rq left reply = ends pf y rq left' reply"
  by (cases reply; cases rq) (simp_all add: ends_def)

lemma ended_answer: "ends pf y rq [] reply \<Longrightarrow> stage_ok pf y rq (Answers reply)"
  by (cases reply) (simp_all add: stage_ok_def ends_def)

lemma start_revocation_ok:
  assumes "ends pf y rq sids reply"
  shows "stage_ok pf y rq (start_revocation sids users reply)"
proof (cases "dict_keys sids = [] \<and> dict_keys users = []")
  case True
  then have "set sids = set []" by (metis set_dict_keys)
  then have "ends pf y rq [] reply" using assms ends_set by blast
  then show ?thesis using True by (simp add: start_revocation_def ended_answer)
next
  case False
  have "ends pf y rq (dict_keys sids) reply" using assms by (simp add: ends_set [of "dict_keys sids" sids])
  moreover have "start_revocation sids users reply = Reading (dict_keys sids) [] (dict_keys users) reply"
    using False by (auto simp: start_revocation_def)
  ultimately show ?thesis by (simp add: stage_ok_def pending_def)
qed

lemma unavailable_ok [simp]: "ends pf y rq left (unavailable rq)"
  by (cases rq) (simp_all add: ends_def unavailable_def)

lemma unavailable_answer [simp]: "stage_ok pf y rq (Answers (unavailable rq))"
  using unavailable_ok [of pf y rq "[]"] by (cases rq) (simp_all add: stage_ok_def unavailable_def)

lemma refused_answer:
  assumes "e \<notin> {RefreshReused, SessionRevoked, SessionExpired} \<or> (\<forall>x. rq \<noteq> RefreshWith x)"
  shows "stage_ok pf y rq (Answers (Refused e))"
  using assms by (cases rq) (auto simp: stage_ok_def ends_def)

lemma revoke_named_ok:
  assumes "az_born y (au_sha256 pf x) = Some sid" and "az_opened y sid \<noteq> None" and "sid \<noteq> []"
  shows "stage_ok pf y (RefreshWith x) (revoke_named sid e)"
  using assms by (auto simp: revoke_named_def intro!: start_revocation_ok) (auto simp: ends_def)

lemma deleted_by_append [simp]: "deleted_by (cs @ ds) = deleted_by cs @ deleted_by ds"
  by (simp add: deleted_by_def)

lemma deleted_by_session [simp]: "deleted_by (session_commands su family) = [fst su]"
  by (cases "snd su") (simp_all add: deleted_by_def session_commands_def)

lemma deleted_by_user [simp]: "deleted_by (user_commands users) = []"
  by (induction users) (simp_all add: deleted_by_def user_commands_def)

lemma opened_not_empty:
  assumes "store_ok pf y" and "draws_distinct pf" and "az_opened y sid \<noteq> None"
  shows "sid \<noteq> []"
proof -
  obtain s where "az_opened y sid = Some s" using assms(3) by auto
  from store_okD(1) [OF assms(1) this] assms(2) show ?thesis by (auto simp: draws_distinct_def)
qed

lemma settled:
  assumes "store_ok pf y" and "draws_distinct pf"
    and "thread_step pf (az_now y) (az_db y) (az_draws y) fault rq g (az_store y) = (g', r')"
  shows "later y (settle r' y) \<and> store_ok pf (settle r' y)"
  using assms(3)
proof (cases rule: thread_step_store)
  case 1
  have "store_ok pf (y\<lparr>az_draws := az_draws y + 2\<rparr>)"
  proof (rule store_okI)
    show "\<exists>k < az_draws (y\<lparr>az_draws := az_draws y + 2\<rparr>). sid = au_uuid4 pf k" if "az_opened (y\<lparr>az_draws := az_draws y + 2\<rparr>) sid = Some s" for sid s
      using that store_okD(1) [OF assms(1), of sid s] by (auto intro: less_SucI)
    show "\<exists>k < az_draws (y\<lparr>az_draws := az_draws y + 2\<rparr>). h = au_sha256 pf (au_token pf k)" if "az_born (y\<lparr>az_draws := az_draws y + 2\<rparr>) h = Some sid" for h sid
      using that store_okD(3) [OF assms(1), of h sid] by (auto intro: less_SucI)
  qed (use store_okD(2,4-7) [OF assms(1)] in simp_all)
  then show ?thesis by (simp add: 1 kept_store [OF assms(1)]) (simp add: later_def spent_def over_def)
next
  case (2 c)
  show ?thesis unfolding 2(2) using created(1,2) [OF assms(1,2)] by simp
next
  case (3 h sid s)
  show ?thesis using rotated(1,2) [OF assms(1,2) 3(2)] by simp
next
  case (4 c cs reply)
  show ?thesis unfolding 4(2) using commanded(1,2) [OF assms(1)] by simp
qed

lemma begin_ok:
  assumes ok: "store_ok pf y" and draws: "draws_distinct pf"
  shows "stage_ok pf y rq (begin_step pf (az_now y) (az_db y) fault rq (az_store y))"
proof (cases "fault = Fine")
  case False
  then show ?thesis
    by (cases rq) (auto simp: begin_step_def refused_answer start_revocation_def stage_ok_def ends_def unavailable_def split: if_splits)
next
  case Fine: True
  show ?thesis
  proof (cases rq)
    case (SignIn email password)
    then show ?thesis
      by (cases "sign_in_check pf (credential_by_email pf (az_db y) email) password") (simp_all add: begin_step_def Fine stage_ok_def ends_def)
  next
    case (RefreshWith x)
    show ?thesis
    proof (cases "get_refresh (az_now y) (au_sha256 pf x) (az_store y)")
      case None
      then show ?thesis by (simp add: begin_step_def Fine RefreshWith refused_answer)
    next
      case (Some e)
      then obtain t where "ax_refresh (az_store y) (au_sha256 pf x) = Some (e, t)"
        by (auto simp: get_refresh_def unexpired_def split: option.splits if_splits)
      from store_okD(6) [OF ok this] have born: "az_born y (au_sha256 pf x) = Some (rf_sid e)" .
      from store_okD(2) [OF ok this] have opened: "az_opened y (rf_sid e) \<noteq> None" .
      show ?thesis
        using revoke_named_ok [OF born opened opened_not_empty [OF ok draws opened]] born
        by (simp add: begin_step_def Fine RefreshWith Some) (simp add: stage_ok_def presented_def)
    qed
  next
    case (SignOut c)
    show ?thesis
    proof (cases "verify (az_now y) c (az_store y)")
      case None
      then obtain v e where "ax_live (az_store y) (tk_sid c) = Some (v, e)"
        by (auto simp: verify_def is_live_def unexpired_def split: if_splits option.splits)
      from store_okD(5) [OF ok this] have "ends pf y rq [tk_sid c] NoContent" by (auto simp: ends_def SignOut)
      from start_revocation_ok [OF this] None show ?thesis by (simp add: begin_step_def Fine SignOut)
    next
      case (Some e)
      then show ?thesis by (simp add: begin_step_def Fine SignOut refused_answer)
    qed
  next
    case (AccessChanged users)
    then show ?thesis by (simp add: begin_step_def stage_ok_def ends_def)
  next
    case Reconcile
    then show ?thesis by (simp add: begin_step_def Fine stage_ok_def)
  qed
qed

lemma revoke_presented:
  assumes "store_ok pf y" and "draws_distinct pf" and "presented pf y rq h sid"
  shows "stage_ok pf y rq (revoke_named sid e)" and "stage_ok pf y rq (start_revocation [sid] [] (Refused e))"
proof -
  obtain x where x: "rq = RefreshWith x" "h = au_sha256 pf x" "az_born y h = Some sid"
    using assms(3) by (cases rq) (auto simp: presented_def)
  from store_okD(2) [OF assms(1) x(3)] have opened: "az_opened y sid \<noteq> None" .
  show "stage_ok pf y rq (revoke_named sid e)"
    using revoke_named_ok [OF x(3) [unfolded x(2)] opened opened_not_empty [OF assms(1,2) opened]] x(1) by simp
  then show "stage_ok pf y rq (start_revocation [sid] [] (Refused e))"
    using opened_not_empty [OF assms(1,2) opened] by (simp add: revoke_named_def)
qed

text \<open>The stages that leave the store alone.\<close>

lemma quiet_ok:
  assumes ok: "store_ok pf y" and draws: "draws_distinct pf" and g: "stage_ok pf y rq g"
    and step: "thread_step pf (az_now y) (az_db y) n fault rq g (az_store y) = (g', r')"
    and quiet: "\<And>c. g \<noteq> Creating c" "\<And>h sid s. g \<noteq> Rotating h sid s" "\<And>c cs reply. g \<noteq> Deleting (c # cs) reply"
  shows "stage_ok pf y rq g'"
proof (cases g)
  case Begins
  then show ?thesis using step begin_ok [OF ok draws] by (auto simp: thread_step_def)
next
  case (Loading h sid)
  then have "presented pf y rq h sid" using g by (simp add: stage_ok_def)
  note named = revoke_presented(1) [OF ok draws this]
  show ?thesis
  proof (cases "get_session (az_now y) sid (az_store y)")
    case None
    then show ?thesis using step Loading named by (auto simp: thread_step_def refresh_step_def refused_answer)
  next
    case (Some s)
    then obtain t where "ax_sessions (az_store y) sid = Some (s, t)"
      by (auto simp: get_session_def unexpired_def split: option.splits if_splits)
    from store_okD(4) [OF ok this] have "az_opened y sid = Some s" by simp
    then have "stage_ok pf y rq (Checking h sid s)" using g Loading by (simp add: stage_ok_def)
    then show ?thesis using step Loading named Some by (auto simp: thread_step_def refresh_step_def refused_answer split: if_splits)
  qed
next
  case (Checking h sid s)
  then have presented: "presented pf y rq h sid" and "stage_ok pf y rq (Rotating h sid s)" using g by (simp_all add: stage_ok_def)
  then show ?thesis using step Checking revoke_presented(2) [OF ok draws presented]
    by (auto simp: thread_step_def refresh_step_def refused_answer split: if_splits)
next
  case (Issuing sid s token)
  then have "granted pf y rq sid s token" using g by (simp add: stage_ok_def)
  then have "\<exists>now \<le> az_now y. \<exists>jti sid' s' token'. token_result_of pf (az_now y) (au_uuid4 pf (Suc n)) sid s token = token_result_of pf now jti sid' s' token'
      \<and> granted pf y rq sid' s' token' \<and> in_time pf rq s' now" unfolding granted_def by blast
  then have "stage_ok pf y rq (Answers (Tokens (token_result_of pf (az_now y) (au_uuid4 pf (Suc n)) sid s token)))"
    by (simp add: stage_ok_def)
  then show ?thesis using step Issuing by (simp add: thread_step_def)
next
  case (Gathering us sids users reply)
  then obtain xs where "rq = AccessChanged xs" "reply = NoContent" using g by (auto simp: stage_ok_def split: request.splits)
  then have "ends pf y rq sids reply" "stage_ok pf y rq (Gathering vs ws users reply)" for vs ws by (simp_all add: ends_def stage_ok_def)
  then show ?thesis using step Gathering start_revocation_ok by (cases us) (auto simp: thread_step_def revocation_step_def split: if_splits)
next
  case (Reading sids found users reply)
  then have ends: "ends pf y rq (map fst found @ sids) reply" using g by (simp add: stage_ok_def pending_def)
  show ?thesis
  proof (cases sids)
    case Nil
    then show ?thesis using step Reading ends by (auto simp: thread_step_def revocation_step_def stage_ok_def pending_def deleted_by_def)
  next
    case (Cons sid rest)
    let ?g = "Reading rest (found @ [(sid, map_option hs_user (get_session (az_now y) sid (az_store y)))]) users reply"
    have "stage_ok pf y rq ?g" using ends Cons by (simp add: stage_ok_def pending_def)
    then show ?thesis using step Reading Cons by (auto simp: thread_step_def revocation_step_def split: if_splits)
  qed
next
  case (Collecting found cs users reply)
  then have ends: "ends pf y rq (deleted_by cs @ map fst found) reply" using g by (simp add: stage_ok_def pending_def)
  show ?thesis
  proof (cases found)
    case Nil
    then show ?thesis using step Collecting ends by (auto simp: thread_step_def revocation_step_def stage_ok_def pending_def)
  next
    case (Cons su rest)
    let ?g = "Collecting rest (cs @ session_commands su (smembers (az_now y) (ax_families (az_store y) (fst su)))) users reply"
    have "stage_ok pf y rq ?g" using ends Cons by (simp add: stage_ok_def pending_def)
    then show ?thesis using step Collecting Cons by (auto simp: thread_step_def revocation_step_def split: if_splits)
  qed
next
  case (Deleting cs reply)
  then show ?thesis using step g quiet(3)
    by (cases cs) (auto simp: thread_step_def revocation_step_def stage_ok_def pending_def deleted_by_def)
next
  case (Syncing reply)
  then have "stage_ok pf y rq (Answers reply)" using g by (intro ended_answer) (simp add: stage_ok_def)
  then show ?thesis using step Syncing by (auto simp: thread_step_def revocation_step_def split: if_splits)
next
  case (Listing users sids found)
  then have rq: "rq = Reconcile" using g by (simp add: stage_ok_def)
  then have stage: "stage_ok pf y rq (Listing vs ws fs)" "stage_ok pf y rq (Comparing fs)" "stage_ok pf y rq (Answers (Revoked 0))" for vs ws fs
    by (simp_all add: stage_ok_def ends_def)
  show ?thesis
    using step Listing stage by (cases sids; cases users) (auto simp: thread_step_def reconcile_step_def split: if_splits)
next
  case (Comparing found)
  then have rq: "rq = Reconcile" using g by (simp add: stage_ok_def)
  have "ends pf y rq sids (Revoked k)" "stage_ok pf y rq (Answers (Revoked 0))" for sids k by (simp_all add: ends_def stage_ok_def)
  then show ?thesis using step Comparing start_revocation_ok by (auto simp: thread_step_def reconcile_step_def split: if_splits)
next
  case (Answers reply)
  then show ?thesis using step g by (simp add: thread_step_def)
qed (use quiet in auto)

lemma moved_ok:
  assumes ok: "store_ok pf y" and draws: "draws_distinct pf" and g: "stage_ok pf y rq g"
    and step: "thread_step pf (az_now y) (az_db y) (az_draws y) fault rq g (az_store y) = (g', r')"
  shows "stage_ok pf (settle r' y) rq g'"
proof -
  have later: "later y (settle r' y)" using settled [OF ok draws step] ..
  show ?thesis
  proof (cases g)
    case (Creating c)
    obtain e p where rq: "rq = SignIn e p" using g Creating by (cases rq) (auto simp: stage_ok_def)
    show ?thesis
    proof (cases "fault = Lost")
      case True
      then show ?thesis using step Creating rq by (auto simp: thread_step_def refused_answer)
    next
      case False
      let ?h = "au_sha256 pf (au_token pf (az_draws y))"
      have r': "r' = create_session (az_now y) (au_uuid4 pf (az_draws y)) (new_session pf (az_now y) c) ?h (az_store y)"
        using step Creating False by (simp add: thread_step_def)
      have "granted pf (settle r' y) rq (au_uuid4 pf (az_draws y)) (new_session pf (az_now y) c) (au_token pf (az_draws y))"
        using created(3,4) [OF ok draws, of "new_session pf (az_now y) c"] by (simp add: r' granted_def rq in_time_def new_session_def)
      then have "stage_ok pf (settle r' y) rq (Issuing (au_uuid4 pf (az_draws y)) (new_session pf (az_now y) c) (au_token pf (az_draws y)))"
        by (simp add: stage_ok_def)
      then show ?thesis using step Creating False rq by (auto simp: thread_step_def refused_answer split: if_splits)
    qed
  next
    case (Rotating h sid s)
    then have presented: "presented pf y rq h sid" and opened: "az_opened y sid = Some s" using g by (simp_all add: stage_ok_def)
    obtain x where rq: "rq = RefreshWith x" "h = au_sha256 pf x" using presented by (cases rq) (auto simp: presented_def)
    show ?thesis
    proof (cases "fault = Lost")
      case True
      then show ?thesis using step Rotating by (auto simp: thread_step_def refresh_step_def refused_answer)
    next
      case False
      let ?new = "au_sha256 pf (au_token pf (az_draws y))"
      obtain outcome where rotate: "rotate_refresh (az_now y) h ?new sid (hs_expires s) (az_store y) = (outcome, r')"
        using step Rotating False by (auto simp: thread_step_def refresh_step_def split: prod.splits)
      show ?thesis
      proof (cases outcome)
        case RotationDone
        have "granted pf (settle r' y) rq sid s (au_token pf (az_draws y))"
          using rotated(3,4,6,7) [OF ok draws rotate [unfolded RotationDone]] opened rq fresh_hash(1) [OF ok draws]
          by (auto simp: granted_def in_time_def)
        then have "stage_ok pf (settle r' y) rq (Issuing sid s (au_token pf (az_draws y)))" by (simp add: stage_ok_def)
        then show ?thesis using step Rotating False rotate RotationDone
          by (auto simp: thread_step_def refresh_step_def refused_answer split: if_splits)
      next
        case RotationLost
        have "stage_ok pf (settle r' y) rq (start_revocation [sid] [] (Refused RefreshReused))"
          using revoke_presented(2) [OF ok draws presented] stage_ok_later [OF later] by blast
        then show ?thesis using step Rotating False rotate RotationLost
          by (auto simp: thread_step_def refresh_step_def refused_answer split: if_splits)
      next
        case RotationMissing
        have "over y sid" if "is_expired s (az_now y)"
          using that opened store_okD(4) [OF ok, of sid] store_okD(5) [OF ok, of sid]
          by (auto simp: over_def is_expired_def is_live_def get_session_def unexpired_def split: option.split)
        then have "stage_ok pf y rq (Answers (Refused (if is_expired s (az_now y) then SessionExpired else InvalidRefresh)))"
          using presented rq opened by (auto simp: stage_ok_def ends_def presented_def)
        from stage_ok_later [OF later this] show ?thesis using step Rotating False rotate RotationMissing
          by (auto simp: thread_step_def refresh_step_def refused_answer split: if_splits)
      qed
    qed
  next
    case (Deleting cs reply)
    show ?thesis
    proof (cases cs)
      case Nil
      then show ?thesis using quiet_ok [OF ok draws g step] stage_ok_later [OF later] Deleting by blast
    next
      case (Cons c rest)
      show ?thesis
      proof (cases "fault = Lost")
        case True
        then show ?thesis using step Deleting Cons by (auto simp: thread_step_def revocation_step_def)
      next
        case False
        then have r': "r' = run_command c (az_store y)" and g': "g' = Deleting rest (if fault = AnswerLost then unavailable rq else reply)"
          using step Deleting Cons by (cases fault; simp add: thread_step_def revocation_step_def)+
        have "ends pf y rq (deleted_by [c] @ deleted_by rest) reply"
          using g Deleting Cons deleted_by_append [of "[c]" rest] by (simp add: stage_ok_def pending_def)
        then have "ends pf (settle r' y) rq (deleted_by rest) reply"
          using commanded(3,4,5) [OF ok, where c = c] later_parts(4) [OF later] unfolding r'
          by (cases reply; cases rq) (auto simp: ends_def)
        then show ?thesis by (simp add: g' stage_ok_def pending_def)
      qed
    qed
  qed (use quiet_ok [OF ok draws g step] stage_ok_later [OF later] in blast)+
qed

section \<open>Everything that happens\<close>

lemma bought_spent:
  assumes "stage_ok pf y (th_request t) (th_stage t)" and "bought pf t h"
  shows "spent y h"
  using assms by (auto simp: bought_def stage_ok_def granted_def split: request.splits stage.splits reply.splits)

text \<open>A step makes a thread a buyer only of a token that was current.\<close>

lemma newly_bought:
  assumes "store_ok pf y" and "stage_ok pf y rq g"
    and "thread_step pf (az_now y) (az_db y) n fault rq g (az_store y) = (g', r')"
    and "bought pf \<lparr>th_request = rq, th_stage = g'\<rparr> h" and "\<not> bought pf \<lparr>th_request = rq, th_stage = g\<rparr> h"
  shows "is_current (az_store y) h"
proof -
  have named: "\<not> bought pf \<lparr>th_request = rq, th_stage = start_revocation a b reply\<rparr> h" if "\<And>t. reply \<noteq> Tokens t" for a b reply
    using that by (cases reply) (auto simp: bought_def start_revocation_def)
  have plain: "\<not> bought pf \<lparr>th_request = rq, th_stage = Answers (unavailable rq)\<rparr> h"
    by (cases rq) (simp_all add: bought_def unavailable_def)
  obtain x where x: "rq = RefreshWith x" "h = au_sha256 pf x" using assms(4) by (auto simp: bought_def split: request.splits)
  show ?thesis
  proof (cases g)
    case (Rotating k sid s)
    then have "presented pf y rq k sid" using assms(2) by (simp add: stage_ok_def)
    then have k: "k = h" by (simp add: presented_def x)
    obtain outcome r1 where rotate: "rotate_refresh (az_now y) k (au_sha256 pf (au_token pf n)) sid (hs_expires s) (az_store y) = (outcome, r1)" by fastforce
    have "outcome = RotationDone"
      using assms(3,4) Rotating rotate named
      by (cases outcome) (auto simp: thread_step_def refresh_step_def bought_def split: if_splits)
    then show ?thesis using rotate k
      by (auto simp: rotate_refresh_def get_refresh_def unexpired_def is_current_def split: option.splits if_splits)
  next
    case Begins
    then show ?thesis using assms(3,4) named
      by (auto simp: thread_step_def begin_step_def x bought_def revoke_named_def unavailable_def split: option.splits if_splits)
  next
    case (Creating c)
    then show ?thesis using assms(2) by (simp add: stage_ok_def x)
  next
    case (Loading k sid)
    then show ?thesis using assms(3,4) named by (auto simp: thread_step_def refresh_step_def bought_def revoke_named_def split: option.splits if_splits)
  next
    case (Checking k sid s)
    then show ?thesis using assms(3,4) named by (auto simp: thread_step_def refresh_step_def bought_def split: if_splits)
  next
    case (Issuing sid s token)
    then show ?thesis using assms(5) by (simp add: bought_def x)
  next
    case (Gathering us sids users reply)
    then show ?thesis using assms(2) by (simp add: stage_ok_def x)
  next
    case (Reading sids found users reply)
    then show ?thesis using assms(3,4) plain by (cases sids) (auto simp: thread_step_def revocation_step_def bought_def split: if_splits)
  next
    case (Collecting found cs users reply)
    then show ?thesis using assms(3,4) plain by (cases found) (auto simp: thread_step_def revocation_step_def bought_def split: if_splits)
  next
    case (Deleting cs reply)
    then show ?thesis using assms(3,4) plain by (cases cs; cases fault) (auto simp: thread_step_def revocation_step_def bought_def)
  next
    case (Syncing reply)
    then have "\<And>t. reply \<noteq> Tokens t" using assms(2) by (auto simp: stage_ok_def ends_def)
    then show ?thesis using assms(3,4) plain Syncing by (cases reply) (auto simp: thread_step_def revocation_step_def bought_def split: if_splits)
  next
    case (Listing users sids found)
    then show ?thesis using assms(2) by (simp add: stage_ok_def x)
  next
    case (Comparing found)
    then show ?thesis using assms(2) by (simp add: stage_ok_def x)
  next
    case (Answers reply)
    then show ?thesis using assms(3,4,5) by (simp add: thread_step_def)
  qed
qed

lemma one_moves:
  assumes ok: "system_ok pf y" and later: "later y y'" and store: "store_ok pf y'"
    and others: "\<And>j. j < length (az_threads y') \<Longrightarrow> j \<noteq> i \<Longrightarrow> j < length (az_threads y) \<and> az_threads y' ! j = az_threads y ! j"
    and stage: "i < length (az_threads y') \<Longrightarrow> stage_ok pf y' (th_request (az_threads y' ! i)) (th_stage (az_threads y' ! i))"
    and buys: "\<And>h. i < length (az_threads y') \<Longrightarrow> bought pf (az_threads y' ! i) h
      \<Longrightarrow> i < length (az_threads y) \<and> bought pf (az_threads y ! i) h \<or> is_current (az_store y) h"
  shows "system_ok pf y'"
proof -
  have kept: "stage_ok pf y (th_request (az_threads y ! j)) (th_stage (az_threads y ! j))" if "j < length (az_threads y)" for j
    using ok that by (simp add: system_ok_def list_all_length)
  have "stage_ok pf y' (th_request (az_threads y' ! j)) (th_stage (az_threads y' ! j))" if "j < length (az_threads y')" for j
  proof (cases "j = i")
    case True
    then show ?thesis using stage that by simp
  next
    case False
    then show ?thesis using others [OF that False] kept [of j] stage_ok_later [OF later] by simp
  qed
  moreover have "j = k"
    if j: "j < length (az_threads y')" and k: "k < length (az_threads y')" and bj: "bought pf (az_threads y' ! j) h" and bk: "bought pf (az_threads y' ! k) h"
    for h j k
  proof (rule ccontr)
    assume differ: "j \<noteq> k"
    have once: "j' = k'" if "j' < length (az_threads y)" "k' < length (az_threads y)" "bought pf (az_threads y ! j') h" "bought pf (az_threads y ! k') h"
      for j' k' using ok that unfolding system_ok_def by blast
    have spent: "\<not> is_current (az_store y) h" if "j' < length (az_threads y)" "bought pf (az_threads y ! j') h" for j'
      using bought_spent [OF kept [OF that(1)] that(2)] by (simp add: spent_def)
    show False
    proof (cases "j = i")
      case True
      then have "k < length (az_threads y)" "bought pf (az_threads y ! k) h" using others [OF k] differ bk by auto
      then show False using buys [of h] j bj True once [of i k] spent [of k] differ by auto
    next
      case False
      then have old: "j < length (az_threads y)" "bought pf (az_threads y ! j) h" using others [OF j] bj by auto
      then show False
        using others [OF k] buys [of h] k bk once [of j k] once [of j i] spent [of j] differ by (cases "k = i") auto
    qed
  qed
  ultimately show ?thesis using store unfolding system_ok_def list_all_length by blast
qed

lemma auth_happens_ok:
  assumes draws: "draws_distinct pf" and ok: "system_ok pf y"
  shows "system_ok pf (auth_happens pf h y)" and "later y (auth_happens pf h y)"
proof -
  have store: "store_ok pf y" using ok by (simp add: system_ok_def)
  have "system_ok pf (auth_happens pf h y) \<and> later y (auth_happens pf h y)"
  proof (cases h)
    case (Comes rq)
    let ?y = "y\<lparr>az_threads := az_threads y @ [\<lparr>th_request = rq, th_stage = Begins\<rparr>]\<rparr>"
    have later: "later y ?y" by (simp add: later_def spent_def over_def)
    moreover have "system_ok pf ?y"
      by (rule one_moves [OF ok later, where i = "length (az_threads y)"])
        (use store in \<open>auto simp: store_ok_def nth_append stage_ok_def bought_def split: request.splits\<close>)
    ultimately show ?thesis by (simp add: auth_happens_def Comes)
  next
    case (Ticks n)
    let ?y = "y\<lparr>az_now := az_now y + int n\<rparr>"
    have later: "later y ?y"
      by (auto simp: later_def spent_def over_def is_live_def get_session_def unexpired_def split: option.splits if_splits)
    moreover have "system_ok pf ?y"
      by (rule one_moves [OF ok later, where i = "length (az_threads y)"]) (use store in \<open>simp_all add: store_ok_def\<close>)
    ultimately show ?thesis by (simp add: auth_happens_def Ticks)
  next
    case (Edits db)
    let ?y = "y\<lparr>az_db := db\<rparr>"
    have later: "later y ?y" by (simp add: later_def spent_def over_def)
    moreover have "system_ok pf ?y"
      by (rule one_moves [OF ok later, where i = "length (az_threads y)"]) (use store in \<open>simp_all add: store_ok_def\<close>)
    ultimately show ?thesis by (simp add: auth_happens_def Edits)
  next
    case (Moves i fault)
    show ?thesis
    proof (cases "i < length (az_threads y)")
      case False
      then show ?thesis using ok by (simp add: auth_happens_def Moves)
    next
      case True
      let ?t = "az_threads y ! i"
      obtain g r where step: "thread_step pf (az_now y) (az_db y) (az_draws y) fault (th_request ?t) (th_stage ?t) (az_store y) = (g, r)" by fastforce
      let ?y = "(settle r y)\<lparr>az_threads := (az_threads y)[i := ?t\<lparr>th_stage := g\<rparr>]\<rparr>"
      have happens: "auth_happens pf h y = ?y" using True by (simp add: auth_happens_def Moves step settle_def)
      have stage: "stage_ok pf y (th_request ?t) (th_stage ?t)" using ok True by (simp add: system_ok_def list_all_length)
      have settled: "later y (settle r y)" "store_ok pf (settle r y)" using settled [OF store draws step] by simp_all
      have same: "later (settle r y) ?y" by (simp add: later_def spent_def over_def)
      have later: "later y ?y" using auth_later_trans [OF settled(1) same] .
      moreover have "system_ok pf ?y"
      proof (rule one_moves [OF ok later, where i = i])
        show "store_ok pf ?y" using settled(2) by (simp add: store_ok_def)
        show "j < length (az_threads y) \<and> az_threads ?y ! j = az_threads y ! j" if "j < length (az_threads ?y)" "j \<noteq> i" for j
          using that by simp
        show "stage_ok pf ?y (th_request (az_threads ?y ! i)) (th_stage (az_threads ?y ! i))"
          using stage_ok_later [OF same moved_ok [OF store draws stage step]] True by simp
        show "i < length (az_threads y) \<and> bought pf (az_threads y ! i) x \<or> is_current (az_store y) x" if "bought pf (az_threads ?y ! i) x" for x
          using newly_bought [OF store stage step, of x] that True by (auto simp: bought_def)
      qed
      ultimately show ?thesis by (simp add: happens)
    qed
  qed
  then show "system_ok pf (auth_happens pf h y)" "later y (auth_happens pf h y)" by simp_all
qed

lemma started_ok: "starts_empty y \<Longrightarrow> system_ok pf y"
  by (simp add: starts_empty_def system_ok_def store_ok_def no_keys_def is_current_def)

interpretation auth_run: stepwise "auth_happens pf" "\<lambda>y. draws_distinct pf \<and> system_ok pf y" for pf
  by unfold_locales (use auth_happens_ok(1) in blast)

lemma runs_later:
  assumes "draws_distinct pf" and "system_ok pf y"
  shows "later y (fold (auth_happens pf) hs y)"
  using assms(2)
proof (induction hs arbitrary: y)
  case (Cons h hs)
  from auth_happens_ok [OF assms(1) Cons.prems, of h] Cons.IH [of "auth_happens pf h y"] show ?case by (auto intro: auth_later_trans)
qed simp

lemma reached_ok:
  assumes "draws_distinct pf" and "starts_empty y"
  shows "system_ok pf (fold (auth_happens pf) hs y)"
  using auth_run.run_inv [of pf y hs] started_ok [OF assms(2)] assms(1) by blast

lemma at_most_one:
  assumes "\<And>i j. i < length xs \<Longrightarrow> j < length xs \<Longrightarrow> P (xs ! i) \<Longrightarrow> P (xs ! j) \<Longrightarrow> i = j"
  shows "length (filter P xs) \<le> 1"
proof -
  have "finite {i. i < length xs \<and> P (xs ! i)}" by simp
  moreover have "\<forall>i\<in>{i. i < length xs \<and> P (xs ! i)}. \<forall>j\<in>{i. i < length xs \<and> P (xs ! i)}. i = j" using assms by auto
  ultimately show ?thesis unfolding length_filter_conv_card One_nat_def using card_le_Suc0_iff_eq by blast
qed

text \<open>A thread that has not got hold of a session that is over never does.\<close>

definition engaged :: "string \<Rightarrow> stage \<Rightarrow> bool" where
  "engaged sid g \<longleftrightarrow>
    (case g of
       Checking _ i _ \<Rightarrow> i = sid
     | Rotating _ i _ \<Rightarrow> i = sid
     | Issuing i _ _ \<Rightarrow> i = sid
     | Answers (Tokens t) \<Rightarrow> tk_sid (tr_access t) = sid
     | _ \<Rightarrow> False)"

lemma engaged_simps [simp]:
  "\<not> engaged sid Begins" "\<not> engaged sid (Creating c)" "\<not> engaged sid (Loading h i)" "engaged sid (Checking h i s) = (i = sid)"
  "engaged sid (Rotating h i s) = (i = sid)" "engaged sid (Issuing i s token) = (i = sid)" "\<not> engaged sid (Gathering us is users reply)"
  "\<not> engaged sid (Reading is found users reply)" "\<not> engaged sid (Collecting found cs users reply)" "\<not> engaged sid (Deleting cs reply)"
  "\<not> engaged sid (Syncing reply)" "\<not> engaged sid (Listing us is pairs)" "\<not> engaged sid (Comparing pairs)"
  "engaged sid (Answers (Tokens t)) = (tk_sid (tr_access t) = sid)" "\<not> engaged sid (Answers NoContent)"
  "\<not> engaged sid (Answers (Revoked k))" "\<not> engaged sid (Answers (Refused e))"
  by (simp_all add: engaged_def)

lemma token_result_simps [simp]:
  "tk_sid (tr_access (token_result_of pf now jti sid s token)) = sid" "tr_refresh (token_result_of pf now jti sid s token) = token"
  "tk_sub (tr_access (token_result_of pf now jti sid s token)) = hs_user s" "tk_role (tr_access (token_result_of pf now jti sid s token)) = hs_role s"
  "tk_iat (tr_access (token_result_of pf now jti sid s token)) = now"
  "tk_exp (tr_access (token_result_of pf now jti sid s token)) = min (now + au_access_ttl pf) (hs_expires s)"
  "tr_expires_at (token_result_of pf now jti sid s token) = min (now + au_access_ttl pf) (hs_expires s)"
  by (simp_all add: token_result_of_def Let_def)

lemma engaged_revocation [simp]:
  "\<not> engaged sid (start_revocation sids users NoContent)" "\<not> engaged sid (start_revocation sids users (Revoked k))"
  "\<not> engaged sid (start_revocation sids users (Refused e))"
  by (simp_all add: start_revocation_def)

lemma engaged_refusal [simp]: "\<not> engaged sid (revoke_named i e)" "\<not> engaged sid (Answers (unavailable rq))"
  by (simp add: revoke_named_def) (cases rq; simp add: unavailable_def)

lemma not_engaged:
  assumes ok: "store_ok pf y" and draws: "draws_distinct pf" and over: "over y sid" and g: "stage_ok pf y rq g" "\<not> engaged sid g"
    and step: "thread_step pf (az_now y) (az_db y) (az_draws y) fault rq g (az_store y) = (g', r')"
  shows "\<not> engaged sid g'"
proof (cases g)
  case Begins
  then have "g' = begin_step pf (az_now y) (az_db y) fault rq (az_store y)" using step by (auto simp: thread_step_def)
  moreover have "\<not> engaged sid (begin_step pf (az_now y) (az_db y) fault rq (az_store y))"
    by (cases rq) (simp_all add: begin_step_def split: option.split)
  ultimately show ?thesis by simp
next
  case (Creating c)
  have "au_uuid4 pf (az_draws y) \<noteq> sid" using fresh_uuid(1) [OF ok draws] over by (auto simp: over_def)
  then show ?thesis using step Creating by (auto simp: thread_step_def split: if_splits)
next
  case (Loading h i)
  have "i \<noteq> sid \<or> get_session (az_now y) i (az_store y) = None" using over by (auto simp: over_def)
  then show ?thesis using step Loading
    by (auto simp: thread_step_def refresh_step_def split: option.splits if_splits)
next
  case (Checking h i s)
  then show ?thesis using step g(2)
    by (auto simp: thread_step_def refresh_step_def split: if_splits)
next
  case (Rotating h i s)
  then show ?thesis using step g(2)
    by (auto simp: thread_step_def refresh_step_def split: prod.splits rotation.splits if_splits)
next
  case (Issuing i s token)
  then show ?thesis using step g(2) by (auto simp: thread_step_def)
next
  case (Gathering us sids users reply)
  then have "reply = NoContent" using g(1) by (auto simp: stage_ok_def split: request.splits)
  then show ?thesis using step Gathering
    by (cases us) (auto simp: thread_step_def revocation_step_def split: if_splits)
next
  case (Reading sids found users reply)
  then show ?thesis using step
    by (cases sids) (auto simp: thread_step_def revocation_step_def split: if_splits)
next
  case (Collecting found cs users reply)
  then show ?thesis using step
    by (cases found) (auto simp: thread_step_def revocation_step_def split: if_splits)
next
  case (Deleting cs reply)
  then show ?thesis using step
    by (cases cs; cases fault) (auto simp: thread_step_def revocation_step_def)
next
  case (Syncing reply)
  then have "\<And>t. reply \<noteq> Tokens t" using g(1) by (auto simp: stage_ok_def ends_def)
  then have "\<not> engaged sid (Answers reply)" by (cases reply) auto
  then show ?thesis using step Syncing by (auto simp: thread_step_def revocation_step_def split: if_splits)
next
  case (Listing users sids found)
  then show ?thesis using step by (cases sids; cases users) (auto simp: thread_step_def reconcile_step_def split: if_splits)
next
  case (Comparing found)
  then show ?thesis using step
    by (auto simp: thread_step_def reconcile_step_def split: if_splits)
next
  case (Answers reply)
  then show ?thesis using step g(2) by (simp add: thread_step_def)
qed

lemma over_for_good:
  assumes draws: "draws_distinct pf" and "system_ok pf y" and "over y sid"
    and "\<And>k. n \<le> k \<Longrightarrow> k < length (az_threads y) \<Longrightarrow> \<not> engaged sid (th_stage (az_threads y ! k))"
  shows "over (fold (auth_happens pf) hs y) sid \<and> (\<forall>k \<ge> n. k < length (az_threads (fold (auth_happens pf) hs y))
    \<longrightarrow> \<not> engaged sid (th_stage (az_threads (fold (auth_happens pf) hs y) ! k)))"
  using assms(2-4)
proof (induction hs arbitrary: y)
  case (Cons h hs)
  have store: "store_ok pf y" using Cons.prems(1) by (simp add: system_ok_def)
  have "\<not> engaged sid (th_stage (az_threads (auth_happens pf h y) ! k))" if k: "n \<le> k" "k < length (az_threads (auth_happens pf h y))" for k
  proof (cases h)
    case (Moves i fault)
    show ?thesis
    proof (cases "i < length (az_threads y)")
      case True
      let ?t = "az_threads y ! i"
      obtain g r where step: "thread_step pf (az_now y) (az_db y) (az_draws y) fault (th_request ?t) (th_stage ?t) (az_store y) = (g, r)" by fastforce
      have "\<not> engaged sid g" if "n \<le> i"
        using not_engaged [OF store draws Cons.prems(2) _ Cons.prems(3) step] that True Cons.prems(1) by (simp add: system_ok_def list_all_length)
      then show ?thesis using k True Cons.prems(3) [of k] by (cases "k = i") (auto simp: auth_happens_def Moves step)
    qed (use k Cons.prems(3) in \<open>simp add: auth_happens_def Moves\<close>)
  qed (use k Cons.prems(3) in \<open>auto simp: auth_happens_def nth_append\<close>)
  then show ?case
    using Cons.IH [of "auth_happens pf h y"] auth_happens_ok [OF draws Cons.prems(1), of h] later_parts(4) [OF auth_happens_ok(2) [OF draws Cons.prems(1), of h] Cons.prems(2)]
    by simp
qed simp

lemma stage_of:
  assumes "system_ok pf y" and "i < length (az_threads y)"
  shows "stage_ok pf y (th_request (az_threads y ! i)) (th_stage (az_threads y ! i))"
  using assms by (simp add: system_ok_def list_all_length)

lemma tokens_of:
  assumes "system_ok pf y" and "i < length (az_threads y)" and "th_stage (az_threads y ! i) = Answers (Tokens t)"
  shows "\<exists>s. granted pf y (th_request (az_threads y ! i)) (tk_sid (tr_access t)) s (tr_refresh t)
    \<and> in_time pf (th_request (az_threads y ! i)) s (tk_iat (tr_access t)) \<and> tk_sub (tr_access t) = hs_user s \<and> tk_role (tr_access t) = hs_role s
    \<and> tk_exp (tr_access t) = min (tk_iat (tr_access t) + au_access_ttl pf) (hs_expires s) \<and> tr_expires_at t = tk_exp (tr_access t)"
proof -
  obtain now jti sid s token where "t = token_result_of pf now jti sid s token"
    and "granted pf y (th_request (az_threads y ! i)) sid s token" "in_time pf (th_request (az_threads y ! i)) s now"
    using stage_of [OF assms(1,2)] assms(3) by (auto simp: stage_ok_def)
  then show ?thesis by (intro exI [of _ s]) simp
qed

section \<open>What the service promises\<close>

definition gives_tokens :: "stage \<Rightarrow> bool" where
  "gives_tokens g \<longleftrightarrow> (case g of Answers (Tokens _) \<Rightarrow> True | _ \<Rightarrow> False)"

text \<open>
  C8. A refresh token buys at most once: however requests, revocations, lost answers and changes of the database
  interleave, at most one request that presented it is given tokens, and a session never has two refresh tokens that would
  be accepted.
\<close>

theorem refresh_token_buys_once:
  assumes draws: "draws_distinct pf" and start: "starts_empty y"
  shows "length (filter (\<lambda>t. th_request t = RefreshWith x \<and> gives_tokens (th_stage t)) (az_threads (fold (auth_happens pf) hs y))) \<le> 1
    \<and> (ax_refresh (az_store (fold (auth_happens pf) hs y)) h = Some (\<lparr>rf_sid = sid, rf_state = CurrentToken\<rparr>, e)
        \<longrightarrow> ax_refresh (az_store (fold (auth_happens pf) hs y)) h' = Some (\<lparr>rf_sid = sid, rf_state = CurrentToken\<rparr>, e') \<longrightarrow> h = h')"
proof -
  let ?y = "fold (auth_happens pf) hs y"
  have ok: "system_ok pf ?y" using reached_ok [OF draws start] .
  then have store: "store_ok pf ?y" by (simp add: system_ok_def)
  have "bought pf t (au_sha256 pf x)" if "th_request t = RefreshWith x" "gives_tokens (th_stage t)" for t
    using that by (auto simp: bought_def gives_tokens_def split: stage.splits reply.splits)
  then have "length (filter (\<lambda>t. th_request t = RefreshWith x \<and> gives_tokens (th_stage t)) (az_threads ?y)) \<le> 1"
    using ok unfolding system_ok_def by (intro at_most_one) blast
  moreover have "h = h'"
    if "ax_refresh (az_store ?y) h = Some (\<lparr>rf_sid = sid, rf_state = CurrentToken\<rparr>, e)"
      "ax_refresh (az_store ?y) h' = Some (\<lparr>rf_sid = sid, rf_state = CurrentToken\<rparr>, e')"
    using store_okD(7) [OF store, of h h' sid] store_okD(6) [OF store that(1)] store_okD(6) [OF store that(2)] that
    by (simp add: is_current_def)
  ultimately show ?thesis by blast
qed

definition gives_token_of :: "string \<Rightarrow> stage \<Rightarrow> bool" where
  "gives_token_of sid g \<longleftrightarrow> (case g of Answers (Tokens t) \<Rightarrow> tk_sid (tr_access t) = sid | _ \<Rightarrow> False)"

definition gives_refresh_token :: "string \<Rightarrow> string \<Rightarrow> stage \<Rightarrow> bool" where
  "gives_refresh_token x sid g \<longleftrightarrow> (case g of Answers (Tokens t) \<Rightarrow> tr_refresh t = x \<and> tk_sid (tr_access t) = sid | _ \<Rightarrow> False)"

lemma gives_refresh_token_iff:
  "gives_refresh_token x sid g \<longleftrightarrow> (\<exists>t. g = Answers (Tokens t) \<and> tr_refresh t = x \<and> tk_sid (tr_access t) = sid)"
  by (auto simp: gives_refresh_token_def split: stage.splits reply.splits)

text \<open>Told that a session is over: by a sign-out, or by a refresh with one of its tokens that was refused for the session's sake.\<close>

definition told_over :: "auth_system \<Rightarrow> nat \<Rightarrow> string \<Rightarrow> bool" where
  "told_over y i sid \<longleftrightarrow>
    (case (th_request (az_threads y ! i), th_stage (az_threads y ! i)) of
       (SignOut c, Answers NoContent) \<Rightarrow> tk_sid c = sid
     | (RefreshWith x, Answers (Refused e)) \<Rightarrow>
         e \<in> {RefreshReused, SessionRevoked, SessionExpired}
         \<and> list_ex (\<lambda>t. gives_refresh_token x sid (th_stage t)) (az_threads y)
     | _ \<Rightarrow> False)"

lemma told_over_is_over:
  assumes ok: "system_ok pf y" and i: "i < length (az_threads y)" and told: "told_over y i sid"
  shows "over y sid"
proof (cases "th_request (az_threads y ! i)")
  case (SignOut c)
  then have "th_stage (az_threads y ! i) = Answers NoContent" "tk_sid c = sid"
    using told by (auto simp: told_over_def split: stage.splits reply.splits)
  then show ?thesis using stage_of [OF ok i] SignOut by (simp add: stage_ok_def ends_def)
next
  case (RefreshWith x)
  then obtain e where e: "th_stage (az_threads y ! i) = Answers (Refused e)" "e \<in> {RefreshReused, SessionRevoked, SessionExpired}"
    and "list_ex (\<lambda>t. gives_refresh_token x sid (th_stage t)) (az_threads y)"
    using told by (auto simp: told_over_def split: stage.splits reply.splits)
  then obtain j r where j: "j < length (az_threads y)" "th_stage (az_threads y ! j) = Answers (Tokens r)" "tr_refresh r = x" "tk_sid (tr_access r) = sid"
    by (auto simp: list_ex_length gives_refresh_token_iff)
  have "az_born y (au_sha256 pf x) = Some sid"
    using tokens_of [OF ok j(1,2)] j(3,4) by (auto simp: granted_def)
  then show ?thesis using stage_of [OF ok i] RefreshWith e by (auto simp: stage_ok_def ends_def)
qed (use told in \<open>simp_all add: told_over_def\<close>)

text \<open>
  C9. A session that is over stays over: once a sign-out was answered, or a refresh was refused because its token was
  used before, because the account changed or because the session ended, no service ever accepts a token of that session
  again, and no request that arrives later is given one, whatever was under way.
\<close>

theorem ended_session_stays_over:
  assumes draws: "draws_distinct pf" and start: "starts_empty y0"
    and i: "i < length (az_threads (fold (auth_happens pf) hs y0))" and told: "told_over (fold (auth_happens pf) hs y0) i sid"
  shows "(tk_sid c = sid \<longrightarrow> verify (az_now (fold (auth_happens pf) (hs @ later_hs) y0)) c (az_store (fold (auth_happens pf) (hs @ later_hs) y0)) \<noteq> None)
    \<and> list_all (\<lambda>t. \<not> gives_token_of sid (th_stage t))
        (drop (length (az_threads (fold (auth_happens pf) hs y0))) (az_threads (fold (auth_happens pf) (hs @ later_hs) y0)))"
proof -
  let ?y = "fold (auth_happens pf) hs y0" and ?y' = "fold (auth_happens pf) (hs @ later_hs) y0"
  have ok: "system_ok pf ?y" using reached_ok [OF draws start] .
  have good: "over ?y' sid \<and> (\<forall>k \<ge> length (az_threads ?y). k < length (az_threads ?y') \<longrightarrow> \<not> engaged sid (th_stage (az_threads ?y' ! k)))"
    using over_for_good [OF draws ok told_over_is_over [OF ok i told], of "length (az_threads ?y)" later_hs] by simp
  have "verify (az_now ?y') c (az_store ?y') \<noteq> None" if "tk_sid c = sid"
    using good that by (simp add: verify_def over_def)
  moreover have "list_all (\<lambda>t. \<not> gives_token_of sid (th_stage t)) (drop (length (az_threads ?y)) (az_threads ?y'))"
    unfolding list_all_length
  proof (intro allI impI)
    fix k
    assume "k < length (drop (length (az_threads ?y)) (az_threads ?y'))"
    then have "\<not> engaged sid (th_stage (drop (length (az_threads ?y)) (az_threads ?y') ! k))" using good by simp
    then show "\<not> gives_token_of sid (th_stage (drop (length (az_threads ?y)) (az_threads ?y') ! k))"
      by (auto simp: gives_token_of_def split: stage.splits reply.splits)
  qed
  ultimately show ?thesis by blast
qed

text \<open>
  C16. A session ends when it was to end at its sign-in: every token of it is for the user and role that signed in, lasts no
  longer than an access token does, and no refresh, however many, takes a token past the absolute end; from then on no
  service accepts any token of the session.
\<close>

theorem tokens_end_with_session:
  assumes draws: "draws_distinct pf" and start: "starts_empty y0"
    and i: "i < length (az_threads (fold (auth_happens pf) hs y0))" "th_request (az_threads (fold (auth_happens pf) hs y0) ! i) = SignIn email password"
      "th_stage (az_threads (fold (auth_happens pf) hs y0) ! i) = Answers (Tokens t0)"
    and j: "j < length (az_threads (fold (auth_happens pf) hs y0))" "th_stage (az_threads (fold (auth_happens pf) hs y0) ! j) = Answers (Tokens t)"
      "tk_sid (tr_access t) = tk_sid (tr_access t0)"
  shows "tk_sub (tr_access t) = tk_sub (tr_access t0) \<and> tk_role (tr_access t) = tk_role (tr_access t0)
    \<and> tr_expires_at t = tk_exp (tr_access t) \<and> tk_exp (tr_access t) \<le> tk_iat (tr_access t) + au_access_ttl pf
    \<and> tk_exp (tr_access t) \<le> tk_iat (tr_access t0) + au_session_ttl pf
    \<and> (tk_sid c = tk_sid (tr_access t0) \<longrightarrow> verify now c (az_store (fold (auth_happens pf) hs y0)) = None
        \<longrightarrow> now < tk_iat (tr_access t0) + au_session_ttl pf)"
proof -
  let ?y = "fold (auth_happens pf) hs y0"
  have ok: "system_ok pf ?y" using reached_ok [OF draws start] .
  then have store: "store_ok pf ?y" by (simp add: system_ok_def)
  obtain s0 where t0: "granted pf ?y (th_request (az_threads ?y ! i)) (tk_sid (tr_access t0)) s0 (tr_refresh t0)"
      "in_time pf (th_request (az_threads ?y ! i)) s0 (tk_iat (tr_access t0))" "tk_sub (tr_access t0) = hs_user s0" "tk_role (tr_access t0) = hs_role s0"
    using tokens_of [OF ok i(1,3)] by blast
  obtain s where t: "granted pf ?y (th_request (az_threads ?y ! j)) (tk_sid (tr_access t)) s (tr_refresh t)"
      "tk_sub (tr_access t) = hs_user s" "tk_role (tr_access t) = hs_role s"
      "tk_exp (tr_access t) = min (tk_iat (tr_access t) + au_access_ttl pf) (hs_expires s)" "tr_expires_at t = tk_exp (tr_access t)"
    using tokens_of [OF ok j(1,2)] by blast
  have opened: "az_opened ?y (tk_sid (tr_access t0)) = Some s0" and same: "s = s0" using t0(1) t(1) j(3) by (auto simp: granted_def)
  have ends: "hs_expires s0 \<le> tk_iat (tr_access t0) + au_session_ttl pf" using t0(2) i(2) by (simp add: in_time_def)
  have live: "now < tk_iat (tr_access t0) + au_session_ttl pf" if accepted: "tk_sid c = tk_sid (tr_access t0)" "verify now c (az_store ?y) = None"
  proof -
    obtain e where "ax_live (az_store ?y) (tk_sid (tr_access t0)) = Some ((), e)" "now < e"
      using accepted by (auto simp: verify_def is_live_def unexpired_def split: if_splits option.splits)
    with store_okD(5) [OF store this(1)] opened ends show ?thesis by auto
  qed
  have parts: "tk_sub (tr_access t) = tk_sub (tr_access t0)" "tk_role (tr_access t) = tk_role (tr_access t0)"
    "tr_expires_at t = tk_exp (tr_access t)" "tk_exp (tr_access t) \<le> tk_iat (tr_access t) + au_access_ttl pf"
    "tk_exp (tr_access t) \<le> tk_iat (tr_access t0) + au_session_ttl pf"
    using t t0(3,4) same ends by simp_all
  show ?thesis by (intro conjI impI parts live)
qed

section \<open>A run of the service\<close>

text \<open>
  A user signs in and refreshes; the first token is presented again, by someone who kept it. The reuse is refused and ends
  the session; the second token is refused from then on.
\<close>

definition example_auth_platform :: auth_platform where
  "example_auth_platform = \<lparr>au_lower = id, au_verify = (=), au_sha256 = id, au_uuid4 = (\<lambda>n. replicate (Suc n) CHR ''u''),
    au_token = (\<lambda>n. replicate (Suc n) CHR ''t''), au_issuer = ''https://auth.invalid/'', au_access_ttl = 600, au_session_ttl = 43200\<rparr>"

definition example_credential :: credential where
  "example_credential = \<lparr>cd_user = ''7'', cd_email = ''a'', cd_password_hash = ''p'', cd_active = True, cd_role = ''analyst''\<rparr>"

definition example_start :: auth_system where
  "example_start = \<lparr>az_now = 0, az_db = [example_credential], az_store = no_keys, az_threads = [], az_draws = 0,
    az_opened = (\<lambda>_. None), az_born = (\<lambda>_. None)\<rparr>"

definition signs_in :: "auth_event list" where
  "signs_in = Comes (SignIn ''a'' ''p'') # replicate 3 (Moves 0 Fine)"

definition refreshes :: "auth_event list" where
  "refreshes = Ticks 500 # Comes (RefreshWith ''ttt'') # replicate 5 (Moves 1 Fine)"

definition reuses :: "auth_event list" where
  "reuses = Comes (RefreshWith ''ttt'') # replicate 9 (Moves 2 Fine)"

lemma example_draws [simp]: "draws_distinct example_auth_platform"
proof -
  have "replicate (Suc a) x = replicate (Suc b) x \<Longrightarrow> a = b" for a b :: nat and x :: char
    using arg_cong [of "replicate (Suc a) x" "replicate (Suc b) x" length] by simp
  then show ?thesis by (auto simp: draws_distinct_def example_auth_platform_def inj_def)
qed

lemma example_starts [simp]: "starts_empty example_start"
  by (simp add: starts_empty_def example_start_def)

lemmas example_auth_defs = example_start_def example_auth_platform_def example_credential_def signs_in_def refreshes_def reuses_def

text \<open>The token of the second request is presented by one that arrives after the session ended.\<close>

definition comes_too_late :: "auth_event list" where
  "comes_too_late = Comes (RefreshWith ''ttttttttttttt'') # replicate 9 (Moves 3 Fine)"

theorem refresh_token_buys_once_witness:
  "map (\<lambda>t. gives_tokens (th_stage t)) (az_threads (fold (auth_happens example_auth_platform) (signs_in @ refreshes @ reuses) example_start)) = [True, True, False]
    \<and> length (filter (\<lambda>t. th_request t = RefreshWith ''ttt'' \<and> gives_tokens (th_stage t))
         (az_threads (fold (auth_happens example_auth_platform) (signs_in @ refreshes @ reuses) example_start))) \<le> 1"
proof
  show "map (\<lambda>t. gives_tokens (th_stage t)) (az_threads (fold (auth_happens example_auth_platform) (signs_in @ refreshes @ reuses) example_start)) = [True, True, False]"
    by code_simp
  show "length (filter (\<lambda>t. th_request t = RefreshWith ''ttt'' \<and> gives_tokens (th_stage t))
      (az_threads (fold (auth_happens example_auth_platform) (signs_in @ refreshes @ reuses) example_start))) \<le> 1"
    using refresh_token_buys_once [OF example_draws example_starts] by blast
qed

lemma example_reuse:
  "length (az_threads (fold (auth_happens example_auth_platform) (signs_in @ refreshes @ reuses) example_start)) = 3"
  "told_over (fold (auth_happens example_auth_platform) (signs_in @ refreshes @ reuses) example_start) 2 ''uuu''"
  by code_simp+

theorem ended_session_stays_over_witness:
  "list_all (\<lambda>t. \<not> gives_token_of ''uuu'' (th_stage t))
      (drop 3 (az_threads (fold (auth_happens example_auth_platform) ((signs_in @ refreshes @ reuses) @ comes_too_late) example_start)))
    \<and> th_stage (az_threads (fold (auth_happens example_auth_platform) ((signs_in @ refreshes @ reuses) @ comes_too_late) example_start) ! 3)
        = Answers (Refused InvalidRefresh)"
proof
  show "list_all (\<lambda>t. \<not> gives_token_of ''uuu'' (th_stage t))
      (drop 3 (az_threads (fold (auth_happens example_auth_platform) ((signs_in @ refreshes @ reuses) @ comes_too_late) example_start)))"
    using ended_session_stays_over [OF example_draws example_starts, of 2 "signs_in @ refreshes @ reuses" "''uuu''" _ comes_too_late] example_reuse
    by (simp del: fold_append)
  show "th_stage (az_threads (fold (auth_happens example_auth_platform) ((signs_in @ refreshes @ reuses) @ comes_too_late) example_start) ! 3)
      = Answers (Refused InvalidRefresh)"
    by code_simp
qed

lemma example_tokens:
  "length (az_threads (fold (auth_happens example_auth_platform) (signs_in @ refreshes) example_start)) = 2"
  "th_request (az_threads (fold (auth_happens example_auth_platform) (signs_in @ refreshes) example_start) ! 0) = SignIn ''a'' ''p''"
  "th_stage (az_threads (fold (auth_happens example_auth_platform) (signs_in @ refreshes) example_start) ! 0)
    = Answers (Tokens (token_result_of example_auth_platform 0 (replicate 6 CHR ''u'') ''uuu'' (new_session example_auth_platform 0 example_credential) ''ttt''))"
  "th_stage (az_threads (fold (auth_happens example_auth_platform) (signs_in @ refreshes) example_start) ! 1)
    = Answers (Tokens (token_result_of example_auth_platform 500 (replicate 16 CHR ''u'') ''uuu'' (new_session example_auth_platform 0 example_credential) ''ttttttttttttt''))"
  by code_simp+

theorem tokens_end_with_session_witness:
  "tk_exp (tr_access (token_result_of example_auth_platform 500 (replicate 16 CHR ''u'') ''uuu'' (new_session example_auth_platform 0 example_credential) ''ttttttttttttt''))
    \<le> tk_iat (tr_access (token_result_of example_auth_platform 0 (replicate 6 CHR ''u'') ''uuu'' (new_session example_auth_platform 0 example_credential) ''ttt''))
       + au_session_ttl example_auth_platform"
proof -
  let ?y = "fold (auth_happens example_auth_platform) (signs_in @ refreshes) example_start"
  have "0 < length (az_threads ?y)" "1 < length (az_threads ?y)" unfolding example_tokens(1) by simp_all
  from tokens_end_with_session [OF example_draws example_starts this(1) example_tokens(2,3) this(2) example_tokens(4)]
  show ?thesis by simp
qed

end
