(* ===== verification/Auth_Background.thy ===== *)
theory Auth_Background
  imports Auth_Safety
begin

text \<open>
  What runs beside the requests of the authentication service, \<open>services/auth/app/background.py\<close>: the reconciler to its end,
  and the consumer of access changes, which revokes a whole read at once. The reconciler finds what the sets of users
  lead to; the last section shows a session they do not lead to.
\<close>

section \<open>The snapshot\<close>

definition snapshot_sids :: "int \<Rightarrow> auth_store \<Rightarrow> string list \<Rightarrow> (string \<times> session_hash) list \<Rightarrow> (string \<times> session_hash) list" where
  "snapshot_sids now r = fold (\<lambda>sid found. case get_session now sid r of None \<Rightarrow> found | Some s \<Rightarrow> AList.update sid s found)"

definition session_snapshot :: "int \<Rightarrow> auth_store \<Rightarrow> (string \<times> session_hash) list" where
  "session_snapshot now r = fold (\<lambda>u. snapshot_sids now r (smembers now (ax_user_sids r u))) (smembers now (ax_users r)) []"

definition indexed :: "int \<Rightarrow> auth_store \<Rightarrow> string \<Rightarrow> bool" where
  "indexed now r sid \<longleftrightarrow> list_ex (\<lambda>u. sid \<in> set (smembers now (ax_user_sids r u))) (smembers now (ax_users r))"

lemma snapshot_sids_lookup:
  "map_of (snapshot_sids now r sids found) sid =
    (if sid \<in> set sids \<and> get_session now sid r \<noteq> None then get_session now sid r else map_of found sid)"
proof (induction sids arbitrary: found)
  case (Cons x sids)
  show ?case
  proof (cases "get_session now x r")
    case None
    then show ?thesis using Cons.IH by (auto simp: snapshot_sids_def)
  next
    case (Some s)
    then show ?thesis using Cons.IH [of "AList.update x s found"] by (auto simp: snapshot_sids_def update_conv)
  qed
qed (simp add: snapshot_sids_def)

lemma snapshot_sids_distinct:
  "distinct (map fst found) \<Longrightarrow> distinct (map fst (snapshot_sids now r sids found))"
  by (induction sids arbitrary: found) (auto simp: snapshot_sids_def distinct_update split: option.split)

lemma session_snapshot_lookup:
  "map_of (session_snapshot now r) sid = (if indexed now r sid then get_session now sid r else None)"
proof -
  have "map_of (fold (\<lambda>u. snapshot_sids now r (smembers now (ax_user_sids r u))) us found) sid =
      (if list_ex (\<lambda>u. sid \<in> set (smembers now (ax_user_sids r u))) us \<and> get_session now sid r \<noteq> None then get_session now sid r else map_of found sid)"
    for us found
  proof (induction us arbitrary: found)
    case (Cons u us)
    show ?case unfolding fold_simps comp_apply Cons.IH snapshot_sids_lookup by auto
  qed simp
  then show ?thesis by (auto simp: session_snapshot_def indexed_def)
qed

lemma session_snapshot_distinct: "distinct (map fst (session_snapshot now r))"
proof -
  have "distinct (map fst found) \<Longrightarrow> distinct (map fst (fold (\<lambda>u. snapshot_sids now r (smembers now (ax_user_sids r u))) us found))" for us found
    by (induction us arbitrary: found) (auto intro: snapshot_sids_distinct)
  then show ?thesis by (simp add: session_snapshot_def)
qed

lemma mismatching_snapshot:
  "sid \<in> set (mismatching pf db (session_snapshot now r)) \<longleftrightarrow>
    indexed now r sid \<and> (\<exists>s. get_session now sid r = Some s \<and> \<not> credential_matches_session pf (credential_by_user db (hs_user s)) s)"
proof -
  have "sid \<in> set (mismatching pf db (session_snapshot now r)) \<longleftrightarrow>
      (\<exists>s. (sid, s) \<in> set (session_snapshot now r) \<and> \<not> credential_matches_session pf (credential_by_user db (hs_user s)) s)"
    by (force simp: mismatching_def)
  also have "\<dots> \<longleftrightarrow> (\<exists>s. map_of (session_snapshot now r) sid = Some s \<and> \<not> credential_matches_session pf (credential_by_user db (hs_user s)) s)"
    using session_snapshot_distinct by (metis map_of_eq_Some_iff)
  finally show ?thesis by (auto simp: session_snapshot_lookup)
qed

lemma mismatching_distinct: "distinct (mismatching pf db (session_snapshot now r))"
  unfolding mismatching_def using session_snapshot_distinct [of now r] by (simp add: distinct_map_filter)

section \<open>A reconciliation, undisturbed\<close>

text \<open>The steps of one thread while nothing else happens.\<close>

fun alone :: "auth_platform \<Rightarrow> int \<Rightarrow> credential list \<Rightarrow> request \<Rightarrow> nat \<Rightarrow> nat \<Rightarrow> stage \<times> auth_store \<Rightarrow> stage \<times> auth_store" where
  "alone pf now db rq 0 n gr = gr"
| "alone pf now db rq (Suc k) n gr = alone pf now db rq k (n + 2) (thread_step pf now db n Fine rq (fst gr) (snd gr))"

definition gets_to :: "auth_platform \<Rightarrow> int \<Rightarrow> credential list \<Rightarrow> request \<Rightarrow> stage \<times> auth_store \<Rightarrow> stage \<times> auth_store \<Rightarrow> bool" where
  "gets_to pf now db rq gr gr' \<longleftrightarrow> (\<forall>n. \<exists>k. alone pf now db rq k n gr = gr')"

lemma alone_add: "alone pf now db rq (j + k) n gr = alone pf now db rq k (n + 2 * j) (alone pf now db rq j n gr)"
  by (induction j arbitrary: n gr) simp_all

lemma gets_to_refl [simp]: "gets_to pf now db rq gr gr"
  by (auto simp: gets_to_def intro: exI [of _ 0])

lemma gets_to_trans:
  assumes "gets_to pf now db rq a b" and "gets_to pf now db rq b c"
  shows "gets_to pf now db rq a c"
  unfolding gets_to_def
proof
  fix n
  obtain j where "alone pf now db rq j n a = b" using assms(1) by (auto simp: gets_to_def)
  moreover obtain k where "alone pf now db rq k (n + 2 * j) b = c" using assms(2) by (auto simp: gets_to_def)
  ultimately show "\<exists>k. alone pf now db rq k n a = c" by (intro exI [of _ "j + k"]) (simp add: alone_add)
qed

lemma gets_to_step:
  assumes "\<And>n. thread_step pf now db n Fine rq g r = gr" and "gets_to pf now db rq gr gr'"
  shows "gets_to pf now db rq (g, r) gr'"
  unfolding gets_to_def
proof
  fix n
  obtain k where "alone pf now db rq k (n + 2) gr = gr'" using assms(2) by (auto simp: gets_to_def)
  then show "\<exists>k. alone pf now db rq k n (g, r) = gr'" by (intro exI [of _ "Suc k"]) (simp add: assms(1))
qed

lemma alone_happens:
  assumes "i < length (az_threads y)"
  shows "th_stage (az_threads (fold (auth_happens pf) (replicate k (Moves i Fine)) y) ! i) =
      fst (alone pf (az_now y) (az_db y) (th_request (az_threads y ! i)) k (az_draws y) (th_stage (az_threads y ! i), az_store y))"
    and "az_store (fold (auth_happens pf) (replicate k (Moves i Fine)) y) =
      snd (alone pf (az_now y) (az_db y) (th_request (az_threads y ! i)) k (az_draws y) (th_stage (az_threads y ! i), az_store y))"
    and "az_now (fold (auth_happens pf) (replicate k (Moves i Fine)) y) = az_now y"
proof -
  have "th_stage (az_threads (fold (auth_happens pf) (replicate k (Moves i Fine)) y) ! i) =
      fst (alone pf (az_now y) (az_db y) (th_request (az_threads y ! i)) k (az_draws y) (th_stage (az_threads y ! i), az_store y))
    \<and> az_store (fold (auth_happens pf) (replicate k (Moves i Fine)) y) =
      snd (alone pf (az_now y) (az_db y) (th_request (az_threads y ! i)) k (az_draws y) (th_stage (az_threads y ! i), az_store y))
    \<and> az_now (fold (auth_happens pf) (replicate k (Moves i Fine)) y) = az_now y"
    using assms
  proof (induction k arbitrary: y)
    case (Suc k)
    let ?t = "az_threads y ! i"
    obtain g r where step: "thread_step pf (az_now y) (az_db y) (az_draws y) Fine (th_request ?t) (th_stage ?t) (az_store y) = (g, r)" by fastforce
    let ?y = "auth_happens pf (Moves i Fine) y"
    have "az_now ?y = az_now y" "az_db ?y = az_db y" "az_store ?y = r" "az_draws ?y = az_draws y + 2" "i < length (az_threads ?y)"
      "th_request (az_threads ?y ! i) = th_request ?t" "th_stage (az_threads ?y ! i) = g"
      using Suc.prems by (simp_all add: auth_happens_def step)
    then show ?case using Suc.IH [of ?y] by (simp add: step)
  qed simp
  then show "th_stage (az_threads (fold (auth_happens pf) (replicate k (Moves i Fine)) y) ! i) =
      fst (alone pf (az_now y) (az_db y) (th_request (az_threads y ! i)) k (az_draws y) (th_stage (az_threads y ! i), az_store y))"
    and "az_store (fold (auth_happens pf) (replicate k (Moves i Fine)) y) =
      snd (alone pf (az_now y) (az_db y) (th_request (az_threads y ! i)) k (az_draws y) (th_stage (az_threads y ! i), az_store y))"
    and "az_now (fold (auth_happens pf) (replicate k (Moves i Fine)) y) = az_now y" by blast+
qed

lemma lists_sids:
  "gets_to pf now db rq (Listing users sids found, r) (Listing users [] (snapshot_sids now r sids found), r)"
proof (induction sids arbitrary: found)
  case (Cons sid sids)
  show ?case
    by (rule gets_to_step [OF _ Cons.IH [of "case get_session now sid r of None \<Rightarrow> found | Some s \<Rightarrow> AList.update sid s found", THEN gets_to_trans]])
      (cases users; simp add: thread_step_def reconcile_step_def snapshot_sids_def)+
qed (simp add: snapshot_sids_def)

lemma lists_users:
  "gets_to pf now db rq (Listing users [] found, r)
    (Comparing (fold (\<lambda>u. snapshot_sids now r (smembers now (ax_user_sids r u))) users found), r)"
proof (induction users arbitrary: found)
  case Nil
  show ?case by (rule gets_to_step [where gr = "(Comparing found, r)"]) (simp_all add: thread_step_def reconcile_step_def)
next
  case (Cons u users)
  have "gets_to pf now db rq (Listing users (smembers now (ax_user_sids r u)) found, r)
      (Comparing (fold (\<lambda>u. snapshot_sids now r (smembers now (ax_user_sids r u))) (u # users) found), r)"
    using gets_to_trans [OF lists_sids Cons.IH] by simp
  then show ?case by (rule gets_to_step [rotated]) (simp add: thread_step_def reconcile_step_def)
qed

text \<open>\<open>revoke_sessions\<close>, undisturbed.\<close>

definition user_of :: "int \<Rightarrow> auth_store \<Rightarrow> string \<Rightarrow> string \<times> string option" where
  "user_of now r sid = (sid, map_option hs_user (get_session now sid r))"

definition revocation_commands :: "int \<Rightarrow> auth_store \<Rightarrow> string list \<Rightarrow> string list \<Rightarrow> command list" where
  "revocation_commands now r sids users =
    concat (map (\<lambda>sid. session_commands (user_of now r sid) (smembers now (ax_families r sid))) sids) @ user_commands users"

lemma reads_sessions:
  "gets_to pf now db rq (Reading sids found users reply, r) (Collecting (found @ map (user_of now r) sids) [] users reply, r)"
proof (induction sids arbitrary: found)
  case Nil
  show ?case by (rule gets_to_step [where gr = "(Collecting found [] users reply, r)"]) (simp_all add: thread_step_def revocation_step_def)
next
  case (Cons sid sids)
  show ?case
    by (rule gets_to_step [OF _ Cons.IH [of "found @ [user_of now r sid]", THEN gets_to_trans]])
      (simp_all add: thread_step_def revocation_step_def user_of_def)
qed

lemma collects_families:
  "gets_to pf now db rq (Collecting (map (user_of now r) sids) cs users reply, r) (Deleting (cs @ revocation_commands now r sids users) reply, r)"
proof (induction sids arbitrary: cs)
  case Nil
  show ?case by (rule gets_to_step [where gr = "(Deleting (cs @ user_commands users) reply, r)"])
    (simp_all add: thread_step_def revocation_step_def revocation_commands_def)
next
  case (Cons sid sids)
  show ?case
    by (rule gets_to_step [OF _ Cons.IH [of "cs @ session_commands (user_of now r sid) (smembers now (ax_families r sid))", THEN gets_to_trans]])
      (simp_all add: thread_step_def revocation_step_def user_of_def revocation_commands_def)
qed

lemma deletes:
  "gets_to pf now db rq (Deleting cs reply, r) (Answers reply, fold run_command cs r)"
proof (induction cs arbitrary: r)
  case Nil
  have "gets_to pf now db rq (Syncing reply, r) (Answers reply, r)"
    by (rule gets_to_step [where gr = "(Answers reply, r)"]) (simp_all add: thread_step_def revocation_step_def)
  then show ?case unfolding fold_simps(1) id_apply by (rule gets_to_step [rotated]) (simp add: thread_step_def revocation_step_def)
next
  case (Cons c cs)
  show ?case
    by (rule gets_to_step [OF _ Cons.IH [of "run_command c r", THEN gets_to_trans]]) (simp_all add: thread_step_def revocation_step_def)
qed

lemma dict_keys_distinct: "distinct xs \<Longrightarrow> dict_keys xs = xs"
  by (simp add: dict_keys_def distinct_remdups_id)

lemma revokes_sessions:
  assumes "distinct sids" and "sids \<noteq> []"
  shows "gets_to pf now db rq (start_revocation sids [] reply, r) (Answers reply, fold run_command (revocation_commands now r sids []) r)"
proof -
  have "gets_to pf now db rq (Reading sids [] [] reply, r) (Answers reply, fold run_command (revocation_commands now r sids []) r)"
    using gets_to_trans [OF reads_sessions [where found = "[]"], unfolded append_Nil, OF gets_to_trans [OF collects_families deletes]] by simp
  then show ?thesis using assms by (simp add: start_revocation_def dict_keys_distinct)
qed

lemma commands_delete:
  "ax_live (fold run_command cs r) sid = (if sid \<in> set (deleted_by cs) then None else ax_live r sid)"
  "ax_sessions (fold run_command cs r) sid = (if sid \<in> set (deleted_by cs) then None else ax_sessions r sid)"
  by (induction cs arbitrary: r) (auto simp: run_command_def deleted_by_def split: command.split)

lemma deleted_by_revocation: "deleted_by (revocation_commands now r sids users) = sids"
  by (induction sids) (simp_all add: revocation_commands_def user_of_def deleted_by_def [of "[]"])

section \<open>What the reconciler promises\<close>

text \<open>
  C27. A reconciliation that nothing disturbs ends, and revokes exactly the sessions it finds whose account is gone,
  inactive, of another role or of another password: those are dead, with the number of them for its answer, every other
  session is as it was, whether it was found or not.
\<close>

theorem reconcile_revokes_what_differs:
  assumes "i < length (az_threads y)" and "az_threads y ! i = \<lparr>th_request = Reconcile, th_stage = Begins\<rparr>"
  shows "\<exists>k. th_stage (az_threads (fold (auth_happens pf) (replicate k (Moves i Fine)) y) ! i)
        = Answers (Revoked (length (mismatching pf (az_db y) (session_snapshot (az_now y) (az_store y)))))
    \<and> (\<forall>sid s. get_session (az_now y) sid (az_store y) = Some s \<longrightarrow>
         (if indexed (az_now y) (az_store y) sid \<and> \<not> credential_matches_session pf (credential_by_user (az_db y) (hs_user s)) s
          then \<not> is_live (az_now y) sid (az_store (fold (auth_happens pf) (replicate k (Moves i Fine)) y))
            \<and> get_session (az_now y) sid (az_store (fold (auth_happens pf) (replicate k (Moves i Fine)) y)) = None
          else is_live (az_now y) sid (az_store (fold (auth_happens pf) (replicate k (Moves i Fine)) y)) = is_live (az_now y) sid (az_store y)
            \<and> get_session (az_now y) sid (az_store (fold (auth_happens pf) (replicate k (Moves i Fine)) y)) = Some s))"
proof -
  let ?now = "az_now y" and ?db = "az_db y" and ?r = "az_store y"
  let ?snapshot = "session_snapshot ?now ?r"
  let ?gone = "mismatching pf ?db ?snapshot"
  let ?r' = "fold run_command (if ?gone = [] then [] else revocation_commands ?now ?r ?gone []) ?r"
  have compares: "gets_to pf ?now ?db Reconcile (Comparing ?snapshot, ?r) (Answers (Revoked (length ?gone)), ?r')"
  proof (cases "?gone = []")
    case True
    show ?thesis
      by (rule gets_to_step [where gr = "(Answers (Revoked 0), ?r)"]) (simp_all add: True thread_step_def reconcile_step_def)
  next
    case False
    show ?thesis
    proof (rule gets_to_step)
      show "thread_step pf ?now ?db n Fine Reconcile (Comparing ?snapshot) ?r = (start_revocation ?gone [] (Revoked (length ?gone)), ?r)" for n
        using False by (simp add: thread_step_def reconcile_step_def)
      show "gets_to pf ?now ?db Reconcile (start_revocation ?gone [] (Revoked (length ?gone)), ?r) (Answers (Revoked (length ?gone)), ?r')"
        using revokes_sessions [OF mismatching_distinct False] False by simp
    qed
  qed
  have "gets_to pf ?now ?db Reconcile (Begins, ?r) (Answers (Revoked (length ?gone)), ?r')"
  proof (rule gets_to_step)
    show "thread_step pf ?now ?db n Fine Reconcile Begins ?r = (Listing (smembers ?now (ax_users ?r)) [] [], ?r)" for n
      by (simp add: thread_step_def begin_step_def)
    show "gets_to pf ?now ?db Reconcile (Listing (smembers ?now (ax_users ?r)) [] [], ?r) (Answers (Revoked (length ?gone)), ?r')"
      using gets_to_trans [OF lists_users [of pf ?now ?db Reconcile "smembers ?now (ax_users ?r)" "[]" ?r, folded session_snapshot_def] compares] .
  qed
  then obtain k where k: "alone pf ?now ?db Reconcile k (az_draws y) (Begins, ?r) = (Answers (Revoked (length ?gone)), ?r')"
    by (auto simp: gets_to_def)
  let ?y = "fold (auth_happens pf) (replicate k (Moves i Fine)) y"
  have stage: "th_stage (az_threads ?y ! i) = Answers (Revoked (length ?gone))" and store: "az_store ?y = ?r'"
    using alone_happens(1,2) [OF assms(1), of pf k] by (simp_all add: assms(2) k)
  have deleted: "ax_live ?r' sid = (if sid \<in> set ?gone then None else ax_live ?r sid)" "ax_sessions ?r' sid = (if sid \<in> set ?gone then None else ax_sessions ?r sid)"
    for sid by (simp_all add: commands_delete deleted_by_revocation deleted_by_def [of "[]"])
  have "if indexed ?now ?r sid \<and> \<not> credential_matches_session pf (credential_by_user ?db (hs_user s)) s
      then \<not> is_live ?now sid ?r' \<and> get_session ?now sid ?r' = None
      else is_live ?now sid ?r' = is_live ?now sid ?r \<and> get_session ?now sid ?r' = Some s" if session: "get_session ?now sid ?r = Some s" for sid s
  proof -
    have "sid \<in> set ?gone \<longleftrightarrow> indexed ?now ?r sid \<and> \<not> credential_matches_session pf (credential_by_user ?db (hs_user s)) s"
      unfolding mismatching_snapshot session by simp
    then show ?thesis using session by (auto simp: is_live_def get_session_def deleted unexpired_def)
  qed
  then show ?thesis using stage unfolding store [symmetric] by blast
qed

text \<open>Of two sessions, the one whose account lost its role is revoked; the other stays.\<close>

definition other_credential :: credential where
  "other_credential = \<lparr>cd_user = ''8'', cd_email = ''b'', cd_password_hash = ''q'', cd_active = True, cd_role = ''analyst''\<rparr>"

definition two_sign_ins :: "auth_event list" where
  "two_sign_ins = Edits [example_credential, other_credential] # signs_in @ Comes (SignIn ''b'' ''q'') # replicate 3 (Moves 1 Fine)
    @ [Edits [example_credential, other_credential\<lparr>cd_role := ''viewer''\<rparr>], Comes Reconcile]"

lemma example_reconciler:
  "2 < length (az_threads (fold (auth_happens example_auth_platform) two_sign_ins example_start))"
  "az_threads (fold (auth_happens example_auth_platform) two_sign_ins example_start) ! 2 = \<lparr>th_request = Reconcile, th_stage = Begins\<rparr>"
  "mismatching example_auth_platform (az_db (fold (auth_happens example_auth_platform) two_sign_ins example_start))
    (session_snapshot (az_now (fold (auth_happens example_auth_platform) two_sign_ins example_start)) (az_store (fold (auth_happens example_auth_platform) two_sign_ins example_start)))
    = [replicate 9 CHR ''u'']"
  by code_simp+

theorem reconcile_revokes_what_differs_witness:
  "\<exists>k. th_stage (az_threads (fold (auth_happens example_auth_platform) (replicate k (Moves 2 Fine))
      (fold (auth_happens example_auth_platform) two_sign_ins example_start)) ! 2) = Answers (Revoked 1)"
  using reconcile_revokes_what_differs [OF example_reconciler(1,2), of example_auth_platform] example_reconciler(3) by auto

section \<open>What it does not find\<close>

text \<open>
  A sign-in has read its account; the account is made inactive and the event of that arrives; the revocation reads the
  sessions of the user, of which there is none yet; the sign-in creates one; the revocation deletes the set of the user, and
  the session from its index with it.
\<close>

definition sign_in_overtaken :: "auth_event list" where
  "sign_in_overtaken =
    [Comes (SignIn ''a'' ''p''), Moves 0 Fine, Edits [example_credential\<lparr>cd_active := False\<rparr>], Comes (AccessChanged [''7''])]
    @ replicate 3 (Moves 1 Fine) @ replicate 2 (Moves 0 Fine) @ replicate 6 (Moves 1 Fine) @ Comes Reconcile # replicate 3 (Moves 2 Fine)"

text \<open>
  A sign-in overtaken by the revocation of its user's sessions escapes it and the reconciler: the revocation is confirmed,
  the reconciliation answers that nothing differs, and yet the token of the inactive account is accepted.
\<close>

lemma overtaken_sign_in_escapes:
  "th_stage (az_threads (fold (auth_happens example_auth_platform) sign_in_overtaken example_start) ! 1) = Answers NoContent
    \<and> th_stage (az_threads (fold (auth_happens example_auth_platform) sign_in_overtaken example_start) ! 2) = Answers (Revoked 0)
    \<and> (case th_stage (az_threads (fold (auth_happens example_auth_platform) sign_in_overtaken example_start) ! 0) of
         Answers (Tokens t) \<Rightarrow>
           verify (az_now (fold (auth_happens example_auth_platform) sign_in_overtaken example_start)) (tr_access t)
             (az_store (fold (auth_happens example_auth_platform) sign_in_overtaken example_start)) = None
           \<and> \<not> list_ex (\<lambda>c. cd_user c = tk_sub (tr_access t) \<and> cd_active c) (az_db (fold (auth_happens example_auth_platform) sign_in_overtaken example_start))
       | _ \<Rightarrow> False)"
  by code_simp

section \<open>The consumer of access changes\<close>

definition ACCESS_CHANGED_STREAM :: string where "ACCESS_CHANGED_STREAM = ''stream:users.v1.access_changed''"

definition entity_of :: "fields \<Rightarrow> string" where
  "entity_of f = (case map_of f ''entity_id'' of None \<Rightarrow> [] | Some x \<Rightarrow> x)"

text \<open>A read is sorted: what is acknowledged at once, the batch with its events, and the users to revoke.\<close>

fun sort_entries :: "string list \<Rightarrow> string list \<Rightarrow> (string \<times> fields option) list \<Rightarrow> string list \<times> (string \<times> string) list \<times> string list" where
  "sort_entries handled seen [] = ([], [], [])"
| "sort_entries handled seen ((i, None) # es) =
    (case sort_entries handled seen es of (acked, batch, users) \<Rightarrow> (i # acked, batch, users))"
| "sort_entries handled seen ((i, Some f) # es) =
    (if event_id f \<noteq> [] \<and> (event_id f \<in> set handled \<or> event_id f \<in> set seen)
     then (case sort_entries handled seen es of (acked, batch, users) \<Rightarrow> (i # acked, batch, users))
     else (case sort_entries handled (if event_id f \<noteq> [] then event_id f # seen else seen) es of (acked, batch, users) \<Rightarrow>
        (acked, (i, event_id f) # batch, if entity_of f \<noteq> [] then entity_of f # users else users)))"

text \<open>\<open>revoked\<close> is whether \<open>revoke_users\<close> returned: the entries acknowledged, and the events remembered.\<close>

definition handle_access_entries ::
  "(string \<Rightarrow> nat) \<Rightarrow> nat \<Rightarrow> (string list \<Rightarrow> bool) \<Rightarrow> string list \<Rightarrow> (string \<times> fields option) list \<Rightarrow> string list \<times> string list" where
  "handle_access_entries deliveries capacity revoked handled es =
    (case sort_entries handled [] es of (acked, batch, users) \<Rightarrow>
       if batch = [] then (acked, handled)
       else if revoked users
       then (acked @ map fst batch, fold (\<lambda>(_, e) h. if e \<noteq> [] then remember capacity e h else h) batch handled)
       else (acked @ map fst (filter (\<lambda>(i, _). 5 \<le> deliveries i) batch), handled))"

lemma sort_entries_ids:
  assumes "sort_entries handled seen es = (acked, batch, users)"
  shows "mset (acked @ map fst batch) = mset (map fst es)"
  using assms by (induction handled seen es arbitrary: acked batch users rule: sort_entries.induct) (auto split: prod.splits if_splits)

lemma sort_entries_acked:
  assumes "sort_entries handled seen es = (acked, batch, users)" and "i \<in> set acked"
  shows "\<exists>c. (i, c) \<in> set es \<and> (case c of None \<Rightarrow> True | Some f \<Rightarrow> event_id f \<in> set handled \<union> set seen \<union> set (map snd batch))"
  using assms
proof (induction handled seen es arbitrary: acked batch users rule: sort_entries.induct)
  case (2 handled seen j es)
  obtain a b u where rest: "sort_entries handled seen es = (a, b, u)" by (cases "sort_entries handled seen es")
  with 2 show ?case by (cases "i = j") force+
next
  case (3 handled seen j f es)
  show ?case
  proof (cases "event_id f \<noteq> [] \<and> (event_id f \<in> set handled \<or> event_id f \<in> set seen)")
    case True
    obtain a b u where "sort_entries handled seen es = (a, b, u)" by (cases "sort_entries handled seen es")
    with 3(1) 3(3,4) True show ?thesis by (cases "i = j") force+
  next
    case False
    let ?seen = "if event_id f \<noteq> [] then event_id f # seen else seen"
    obtain a b u where "sort_entries handled ?seen es = (a, b, u)" by (cases "sort_entries handled ?seen es")
    note rest = this
    then have "acked = a" "batch = (j, event_id f) # b" using 3(3) False by auto
    then obtain c where "(i, c) \<in> set es" "case c of None \<Rightarrow> True | Some g \<Rightarrow> event_id g \<in> set handled \<union> set ?seen \<union> set (map snd b)"
      using 3(2) [OF False rest] 3(4) by blast
    then show ?thesis using \<open>batch = (j, event_id f) # b\<close> by (intro exI [of _ c]) (auto split: option.splits if_splits)
  qed
qed simp

lemma sort_entries_batch:
  assumes "sort_entries handled seen es = (acked, batch, users)" and "(i, e) \<in> set batch"
  shows "\<exists>f. (i, Some f) \<in> set es \<and> event_id f = e \<and> (entity_of f \<noteq> [] \<longrightarrow> entity_of f \<in> set users)"
  using assms
  by (induction handled seen es arbitrary: acked batch users rule: sort_entries.induct) (auto split: prod.splits if_splits; blast)+

text \<open>A read whose revocation returned is acknowledged in full, each entry once.\<close>

lemma revoked_read_is_acknowledged:
  assumes "\<And>users. revoked users"
  shows "mset (fst (handle_access_entries deliveries capacity revoked handled es)) = mset (map fst es)"
proof -
  obtain acked batch users where sorted: "sort_entries handled [] es = (acked, batch, users)" by (cases "sort_entries handled [] es")
  show ?thesis using sort_entries_ids [OF sorted] assms by (auto simp: handle_access_entries_def sorted)
qed

text \<open>Of one whose revocation failed, only what needs none is acknowledged, and what was delivered five times.\<close>

lemma failed_read_is_kept:
  assumes "\<And>users. \<not> revoked users" and ids: "distinct (map fst es)" and "i \<in> set (fst (handle_access_entries deliveries capacity revoked handled es))"
  shows "5 \<le> deliveries i \<or> (\<exists>c. (i, c) \<in> set es \<and> (case c of None \<Rightarrow> True
    | Some f \<Rightarrow> event_id f \<in> set handled \<or> (\<exists>j g. (j, Some g) \<in> set es \<and> j \<noteq> i \<and> event_id g = event_id f)))"
proof -
  obtain acked batch users where sorted: "sort_entries handled [] es = (acked, batch, users)" by (cases "sort_entries handled [] es")
  consider "i \<in> set acked" | e where "(i, e) \<in> set batch" "5 \<le> deliveries i"
    using assms by (auto simp: handle_access_entries_def sorted split: if_splits)
  then show ?thesis
  proof cases
    case 1
    then obtain c where c: "(i, c) \<in> set es" "case c of None \<Rightarrow> True | Some f \<Rightarrow> event_id f \<in> set handled \<union> set [] \<union> set (map snd batch)"
      using sort_entries_acked [OF sorted] by blast
    have "distinct (acked @ map fst batch)" using ids sort_entries_ids [OF sorted] mset_eq_imp_distinct_iff by blast
    then have other: "j \<noteq> i" if "(j, e) \<in> set batch" for j e using that 1 by (force simp: disjoint_iff)
    have "event_id f \<in> set handled \<or> (\<exists>j g. (j, Some g) \<in> set es \<and> j \<noteq> i \<and> event_id g = event_id f)" if "c = Some f" for f
    proof (cases "event_id f \<in> set handled")
      case False
      then obtain j where "(j, event_id f) \<in> set batch" using c(2) \<open>c = Some f\<close> by auto
      with sort_entries_batch [OF sorted this] other [OF this] show ?thesis by blast
    qed simp
    then show ?thesis using c(1) by (cases c) fastforce+
  qed blast
qed

end
