(* ===== verification/Auth_Limits.thy ===== *)
theory Auth_Limits
  imports Auth_Sessions
begin

text \<open>
  The limits of the sign-in endpoint, \<open>SignInLimits\<close> and the handler \<open>create_session\<close> of \<open>services/auth/app/__init__.py\<close>, as
  concurrent requests: the requests of an address are counted in fixed windows, its wrong passwords for an account until
  none came for a quarter of an hour. A step is one command of Redis, or one step of \<open>sign_in\<close> (\<open>Auth_Sessions\<close>), and what
  other requests and the clock do comes in between: the counter is read before the password is verified, and incremented
  after. A pipeline is not a transaction: its commands run one by one, and when the connection is lost the rest does not,
  or runs with nobody waiting for it. \<open>TTL\<close> is in whole seconds.
\<close>

section \<open>Counters\<close>

type_synonym counter = "nat \<times> int option"
type_synonym counters = "string \<Rightarrow> counter option"

definition FAILURE_LIMIT :: nat where "FAILURE_LIMIT = 5"
definition FAILURE_WINDOW_SECONDS :: int where "FAILURE_WINDOW_SECONDS = 900"
definition LOGIN_LIMIT :: nat where "LOGIN_LIMIT = 30"
definition LOGIN_WINDOW_SECONDS :: int where "LOGIN_WINDOW_SECONDS = 60"

text \<open>The one worker of the service runs four threads.\<close>

definition AUTH_THREADS :: nat where "AUTH_THREADS = 4"

definition counter_at :: "int \<Rightarrow> counter option \<Rightarrow> counter option" where
  "counter_at now entry =
    (case entry of
       None \<Rightarrow> None
     | Some (n, e) \<Rightarrow> (case e of None \<Rightarrow> Some (n, e) | Some t \<Rightarrow> if now < t then Some (n, e) else None))"

definition incr :: "int \<Rightarrow> counter option \<Rightarrow> counter" where
  "incr now entry = (case counter_at now entry of None \<Rightarrow> (1, None) | Some (n, e) \<Rightarrow> (Suc n, e))"

text \<open>\<open>EXPIRE\<close>, and with \<open>NX\<close>: nothing when the key is gone.\<close>

definition expire :: "int \<Rightarrow> int \<Rightarrow> counter option \<Rightarrow> counter option" where
  "expire now t entry = (case counter_at now entry of None \<Rightarrow> None | Some (n, _) \<Rightarrow> Some (n, Some t))"

definition expire_nx :: "int \<Rightarrow> int \<Rightarrow> counter option \<Rightarrow> counter option" where
  "expire_nx now t entry =
    (case counter_at now entry of None \<Rightarrow> None | Some (n, e) \<Rightarrow> Some (n, case e of None \<Rightarrow> Some t | Some t' \<Rightarrow> Some t'))"

definition ttl :: "int \<Rightarrow> counter option \<Rightarrow> int" where
  "ttl now entry = (case counter_at now entry of None \<Rightarrow> - 2 | Some (_, None) \<Rightarrow> - 1 | Some (_, Some t) \<Rightarrow> t - now)"

definition counted :: "int \<Rightarrow> counter option \<Rightarrow> nat" where
  "counted now entry = (case counter_at now entry of None \<Rightarrow> 0 | Some (n, _) \<Rightarrow> n)"

section \<open>One request\<close>

definition failure_key :: "auth_platform \<Rightarrow> string \<Rightarrow> string \<Rightarrow> string" where
  "failure_key pf email ip = ''auth:fail:'' @ au_sha256 pf (au_lower pf email) @ '':'' @ ip"

definition login_key :: "string \<Rightarrow> string" where
  "login_key ip = ''auth:rl:login:'' @ ip"

definition rate_limited :: "int \<Rightarrow> int \<Rightarrow> auth_error" where
  "rate_limited seconds otherwise = RateLimited (max 1 (if 0 < seconds then seconds else otherwise))"

text \<open>
  Where a request stands: the command to run next. \<open>True\<close> marks a pipeline whose connection was lost after it was sent:
  Redis still runs the rest, and the request was answered already.
\<close>

datatype sign_in_stage =
    CountsLogin
  | ExpiresLogin nat bool
  | ReadsFailures nat bool
  | AsksTtl string int
  | Verifies stage
  | CountsFailure
  | ExpiresFailure bool
  | ForgetsFailures reply
  | Replied reply

definition unreachable :: sign_in_stage where
  "unreachable = Replied (Refused AuthUnavailable)"

definition before_step :: "int \<Rightarrow> fault \<Rightarrow> string \<Rightarrow> string \<Rightarrow> sign_in_stage \<Rightarrow> counters \<Rightarrow> sign_in_stage \<times> counters" where
  "before_step now fault login failure g s =
    (case g of
       CountsLogin \<Rightarrow>
         if fault = Lost then (unreachable, s)
         else (ExpiresLogin (fst (incr now (s login))) (fault \<noteq> Fine), s(login \<mapsto> incr now (s login)))
     | ExpiresLogin n gone \<Rightarrow>
         if fault = Lost then (unreachable, s)
         else (ReadsFailures n (gone \<or> fault \<noteq> Fine), s(login := expire_nx now (now + LOGIN_WINDOW_SECONDS) (s login)))
     | ReadsFailures n gone \<Rightarrow>
         (if gone \<or> fault \<noteq> Fine then unreachable
          else if LOGIN_LIMIT < n then AsksTtl login LOGIN_WINDOW_SECONDS
          else if FAILURE_LIMIT \<le> counted now (s failure) then AsksTtl failure FAILURE_WINDOW_SECONDS
          else Verifies Begins, s)
     | AsksTtl key otherwise \<Rightarrow>
         (Replied (Refused (if fault \<noteq> Fine then AuthUnavailable else rate_limited (ttl now (s key)) otherwise)), s)
     | _ \<Rightarrow> (g, s))"

definition failed_step :: "int \<Rightarrow> fault \<Rightarrow> string \<Rightarrow> sign_in_stage \<Rightarrow> counters \<Rightarrow> sign_in_stage \<times> counters" where
  "failed_step now fault failure g s =
    (case g of
       CountsFailure \<Rightarrow>
         if fault = Lost then (unreachable, s) else (ExpiresFailure (fault \<noteq> Fine), s(failure \<mapsto> incr now (s failure)))
     | ExpiresFailure gone \<Rightarrow>
         if fault = Lost then (unreachable, s)
         else (if gone \<or> fault \<noteq> Fine then unreachable else Replied (Refused InvalidCredentials),
               s(failure := expire now (now + FAILURE_WINDOW_SECONDS) (s failure)))
     | _ \<Rightarrow> (g, s))"

definition succeeded_step :: "fault \<Rightarrow> string \<Rightarrow> reply \<Rightarrow> counters \<Rightarrow> sign_in_stage \<times> counters" where
  "succeeded_step fault failure result s =
    (if fault = Lost then (unreachable, s)
     else (if fault \<noteq> Fine then unreachable else Replied result, s(failure := None)))"

text \<open>What \<open>create_session\<close> does with the outcome of \<open>sign_in\<close>.\<close>

definition after_sign_in :: "stage \<Rightarrow> sign_in_stage" where
  "after_sign_in g =
    (case g of
       Answers result \<Rightarrow>
         (case result of
            Refused e \<Rightarrow> if e = InvalidCredentials then CountsFailure else Replied (Refused e)
          | _ \<Rightarrow> ForgetsFailures result)
     | _ \<Rightarrow> Verifies g)"

record sign_in_request =
  si_email :: string
  si_password :: string
  si_ip :: string
  si_stage :: sign_in_stage

text \<open>The handler; \<open>X-Real-IP\<close> is set by the gateway, and is \<open>unknown\<close> without it.\<close>

definition request_key :: "auth_platform \<Rightarrow> sign_in_request \<Rightarrow> string" where
  "request_key pf a = failure_key pf (au_lower pf (si_email a)) (si_ip a)"

definition create_session_step ::
  "auth_platform \<Rightarrow> int \<Rightarrow> credential list \<Rightarrow> nat \<Rightarrow> fault \<Rightarrow> sign_in_request \<Rightarrow> counters \<Rightarrow> auth_store \<Rightarrow> sign_in_stage \<times> counters \<times> auth_store" where
  "create_session_step pf now db n fault a s r =
    (case si_stage a of
       Verifies g \<Rightarrow>
         (case thread_step pf now db n fault (SignIn (au_lower pf (si_email a)) (si_password a)) g r of
            (g', r') \<Rightarrow> (after_sign_in g', s, r'))
     | CountsFailure \<Rightarrow> (case failed_step now fault (request_key pf a) (si_stage a) s of (g, s') \<Rightarrow> (g, s', r))
     | ExpiresFailure _ \<Rightarrow> (case failed_step now fault (request_key pf a) (si_stage a) s of (g, s') \<Rightarrow> (g, s', r))
     | ForgetsFailures result \<Rightarrow> (case succeeded_step fault (request_key pf a) result s of (g, s') \<Rightarrow> (g, s', r))
     | _ \<Rightarrow> (case before_step now fault (login_key (si_ip a)) (request_key pf a) (si_stage a) s of (g, s') \<Rightarrow> (g, s', r)))"

section \<open>Requests at once\<close>

text \<open>
  \<open>ls_wrong\<close> is not in Redis: when each request was answered that its credentials are wrong, with its key, since the last time
  the failures of that key were forgotten.
\<close>

record limits_system =
  ls_now :: int
  ls_db :: "credential list"
  ls_store :: auth_store
  ls_counters :: counters
  ls_requests :: "sign_in_request list"
  ls_draws :: nat
  ls_wrong :: "(string \<times> int) list"

text \<open>A request arrives, with its address, password and IP; one runs a step; time passes; other requests and services change the rest.\<close>

datatype limits_event = Requests string string string | Runs nat fault | Passes nat | Changes "credential list" auth_store

definition under_way :: "sign_in_stage \<Rightarrow> bool" where
  "under_way g =
    (case g of Replied _ \<Rightarrow> False | ExpiresLogin _ gone \<Rightarrow> \<not> gone | ReadsFailures _ gone \<Rightarrow> \<not> gone | ExpiresFailure gone \<Rightarrow> \<not> gone | _ \<Rightarrow> True)"

definition wrong_after :: "auth_platform \<Rightarrow> int \<Rightarrow> fault \<Rightarrow> sign_in_request \<Rightarrow> sign_in_stage \<Rightarrow> (string \<times> int) list \<Rightarrow> (string \<times> int) list" where
  "wrong_after pf now fault a g fs =
    (case si_stage a of
       Replied _ \<Rightarrow> fs
     | ForgetsFailures _ \<Rightarrow> if fault = Lost then fs else filter (\<lambda>(k, _). k \<noteq> request_key pf a) fs
     | _ \<Rightarrow> if g = Replied (Refused InvalidCredentials) then (request_key pf a, now) # fs else fs)"

definition limits_happens :: "auth_platform \<Rightarrow> limits_event \<Rightarrow> limits_system \<Rightarrow> limits_system" where
  "limits_happens pf h y =
    (case h of
       Requests email password ip \<Rightarrow>
         if length (filter (\<lambda>a. under_way (si_stage a)) (ls_requests y)) < AUTH_THREADS
         then y\<lparr>ls_requests := ls_requests y @ [\<lparr>si_email = email, si_password = password, si_ip = ip, si_stage = CountsLogin\<rparr>]\<rparr>
         else y
     | Runs i fault \<Rightarrow>
         if i < length (ls_requests y)
         then (case create_session_step pf (ls_now y) (ls_db y) (ls_draws y) fault (ls_requests y ! i) (ls_counters y) (ls_store y) of
            (g, s, r) \<Rightarrow> y\<lparr>ls_counters := s, ls_store := r, ls_requests := (ls_requests y)[i := (ls_requests y ! i)\<lparr>si_stage := g\<rparr>],
              ls_draws := ls_draws y + 2, ls_wrong := wrong_after pf (ls_now y) fault (ls_requests y ! i) g (ls_wrong y)\<rparr>)
         else y
     | Passes n \<Rightarrow> y\<lparr>ls_now := ls_now y + int n\<rparr>
     | Changes db r \<Rightarrow> y\<lparr>ls_db := db, ls_store := r\<rparr>)"

definition nobody_yet :: "int \<Rightarrow> credential list \<Rightarrow> auth_store \<Rightarrow> limits_system" where
  "nobody_yet now db r = \<lparr>ls_now = now, ls_db = db, ls_store = r, ls_counters = (\<lambda>_. None), ls_requests = [], ls_draws = 0, ls_wrong = []\<rparr>"

section \<open>What a counter remembers\<close>

text \<open>The wrong passwords of the last quarter of an hour, and those of a window.\<close>

definition near :: "int \<Rightarrow> int list \<Rightarrow> nat" where
  "near now fs = length (filter (\<lambda>f. now < f + FAILURE_WINDOW_SECONDS) fs)"

definition few :: "int list \<Rightarrow> bool" where
  "few fs \<longleftrightarrow> (\<forall>t. length (filter (\<lambda>f. t \<le> f \<and> f < t + FAILURE_WINDOW_SECONDS) fs) \<le> 12)"

text \<open>
  Of one key: \<open>fs\<close> are the wrong passwords answered, \<open>w\<close> the requests that incremented the counter and have not set its
  expiry, \<open>p\<close> those admitted and not answered, \<open>u\<close> all that are under way. A counter that has an expiry outlasts the window of
  every wrong password answered; one that expires forgets at most what the requests between \<open>INCR\<close> and \<open>EXPIRE\<close> counted.
\<close>

definition lock_holds :: "int \<Rightarrow> counter option \<Rightarrow> int list \<Rightarrow> nat \<Rightarrow> nat \<Rightarrow> nat \<Rightarrow> bool" where
  "lock_holds now entry fs w p u \<longleftrightarrow> w \<le> p \<and> p \<le> u \<and> u \<le> 4
     \<and> (\<forall>f\<in>set fs. f \<le> now \<and> (case counter_at now entry of Some (_, Some e) \<Rightarrow> f + FAILURE_WINDOW_SECONDS \<le> e | _ \<Rightarrow> True))
     \<and> near now fs + w \<le> counted now entry + 4 \<and> near now fs + p \<le> 12 \<and> few fs"

lemma near_Nil [simp]: "near now [] = 0"
  by (simp add: near_def)

lemma near_Cons [simp]: "near now (now # fs) = Suc (near now fs)"
  by (simp add: near_def FAILURE_WINDOW_SECONDS_def)

lemma length_filter_mono: "(\<And>x. x \<in> set xs \<Longrightarrow> P x \<Longrightarrow> Q x) \<Longrightarrow> length (filter P xs) \<le> length (filter Q xs)"
  by (induction xs) auto

lemma counted_incr [simp]: "counted now (Some (incr now entry)) = Suc (counted now entry)"
  by (auto simp: counted_def incr_def counter_at_def split: option.splits if_splits)

lemma counted_expire [simp]: "counted now (expire now (now + FAILURE_WINDOW_SECONDS) entry) = counted now entry"
  by (auto simp: counted_def expire_def counter_at_def FAILURE_WINDOW_SECONDS_def split: option.splits if_splits)

text \<open>The moves of the counter and of the requests, one by one.\<close>

lemma lock_admits:
  assumes "lock_holds now entry fs w p u" and "counted now entry < FAILURE_LIMIT" and "Suc p \<le> u"
  shows "lock_holds now entry fs w (Suc p) u"
  using assms by (auto simp: lock_holds_def FAILURE_LIMIT_def)

lemma lock_leaves: "lock_holds now entry fs w p u \<Longrightarrow> w' \<le> w \<Longrightarrow> p' \<le> p \<Longrightarrow> w' \<le> p' \<Longrightarrow> p' \<le> u' \<Longrightarrow> u' \<le> u \<Longrightarrow> lock_holds now entry fs w' p' u'"
  by (auto simp: lock_holds_def)

lemma lock_counts:
  assumes "lock_holds now entry fs w p u" and "w' \<le> Suc w" and "w' \<le> p'" and "p' \<le> p" and "p' \<le> u'" and "u' \<le> u"
  shows "lock_holds now (Some (incr now entry)) fs w' p' u'"
proof -
  have "case counter_at now (Some (incr now entry)) of Some (_, Some e) \<Rightarrow> f + FAILURE_WINDOW_SECONDS \<le> e | _ \<Rightarrow> True"
    if "case counter_at now entry of Some (_, Some e) \<Rightarrow> f + FAILURE_WINDOW_SECONDS \<le> e | _ \<Rightarrow> True" for f
    using that by (auto simp: incr_def counter_at_def split: option.splits if_splits)
  with assms show ?thesis unfolding lock_holds_def counted_incr by auto
qed

lemma lock_expires:
  assumes "lock_holds now entry fs w p u" and "w' \<le> w" and "w' \<le> p'" and "p' \<le> p" and "p' \<le> u'" and "u' \<le> u"
  shows "lock_holds now (expire now (now + FAILURE_WINDOW_SECONDS) entry) fs w' p' u'"
proof -
  have "case counter_at now (expire now (now + FAILURE_WINDOW_SECONDS) entry) of Some (_, Some e) \<Rightarrow> f + FAILURE_WINDOW_SECONDS \<le> e | _ \<Rightarrow> True"
    if "f \<le> now" for f
    using that by (auto simp: expire_def counter_at_def split: option.splits if_splits)
  with assms show ?thesis unfolding lock_holds_def counted_expire by auto
qed

lemma lock_answers:
  assumes "lock_holds now entry fs (Suc w) (Suc p) u" and "p \<le> u'" and "u' \<le> u"
  shows "lock_holds now (expire now (now + FAILURE_WINDOW_SECONDS) entry) (now # fs) w p u'"
proof -
  have "case counter_at now (expire now (now + FAILURE_WINDOW_SECONDS) entry) of Some (_, Some e) \<Rightarrow> f + FAILURE_WINDOW_SECONDS \<le> e | _ \<Rightarrow> True"
    if "f \<le> now" for f
    using that by (auto simp: expire_def counter_at_def split: option.splits if_splits)
  moreover have "few (now # fs)"
    unfolding few_def
  proof
    fix t
    show "length (filter (\<lambda>f. t \<le> f \<and> f < t + FAILURE_WINDOW_SECONDS) (now # fs)) \<le> 12"
    proof (cases "t \<le> now \<and> now < t + FAILURE_WINDOW_SECONDS")
      case True
      have "length (filter (\<lambda>f. t \<le> f \<and> f < t + FAILURE_WINDOW_SECONDS) fs) \<le> near now fs"
        unfolding near_def using True by (intro length_filter_mono) auto
      then show ?thesis using assms(1) True by (simp add: lock_holds_def)
    next
      case False
      then show ?thesis using assms(1) by (auto simp: lock_holds_def few_def)
    qed
  qed
  ultimately show ?thesis using assms unfolding lock_holds_def counted_expire by auto
qed

lemma lock_forgets: "lock_holds now entry fs w p u \<Longrightarrow> w \<le> p' \<Longrightarrow> p' \<le> u' \<Longrightarrow> u' \<le> u \<Longrightarrow> lock_holds now None [] w p' u'"
  by (auto simp: lock_holds_def counter_at_def few_def)

lemma lock_later:
  assumes "lock_holds now entry fs w p u" and "now \<le> later"
  shows "lock_holds later entry fs w p u"
proof -
  have fewer: "near later fs \<le> near now fs" unfolding near_def using assms(2) by (intro length_filter_mono) auto
  show ?thesis
  proof (cases "counter_at later entry = counter_at now entry")
    case True
    then have "counted later entry = counted now entry" by (simp add: counted_def)
    then show ?thesis using assms fewer unfolding lock_holds_def True by force
  next
    case False
    then obtain n e where e: "counter_at now entry = Some (n, Some e)" "e \<le> later" "counter_at later entry = None"
      using assms(2) by (auto simp: counter_at_def split: option.splits if_splits)
    then have "\<forall>f\<in>set fs. f + FAILURE_WINDOW_SECONDS \<le> later" using assms(1) by (force simp: lock_holds_def)
    then have "near later fs = 0" by (auto simp: near_def filter_empty_conv)
    then show ?thesis using assms fewer e(3) by (force simp: lock_holds_def)
  qed
qed

section \<open>Every step keeps the lock\<close>

definition counting :: "sign_in_stage \<Rightarrow> bool" where
  "counting g \<longleftrightarrow> g = ExpiresFailure False"

definition admitted :: "sign_in_stage \<Rightarrow> bool" where
  "admitted g \<longleftrightarrow> (case g of Verifies _ \<Rightarrow> True | CountsFailure \<Rightarrow> True | ExpiresFailure gone \<Rightarrow> \<not> gone | _ \<Rightarrow> False)"

definition wrong_of :: "string \<Rightarrow> (string \<times> int) list \<Rightarrow> int list" where
  "wrong_of k fs = map snd (filter (\<lambda>(k', _). k' = k) fs)"

definition key_locked :: "auth_platform \<Rightarrow> string \<Rightarrow> limits_system \<Rightarrow> bool" where
  "key_locked pf k y \<longleftrightarrow> lock_holds (ls_now y) (ls_counters y k) (wrong_of k (ls_wrong y))
     (length (filter (\<lambda>a. request_key pf a = k \<and> counting (si_stage a)) (ls_requests y)))
     (length (filter (\<lambda>a. request_key pf a = k \<and> admitted (si_stage a)) (ls_requests y)))
     (length (filter (\<lambda>a. under_way (si_stage a)) (ls_requests y)))"

lemma keys_differ [simp]: "failure_key pf email ip \<noteq> login_key ip'" "login_key ip' \<noteq> failure_key pf email ip"
  by (simp_all add: failure_key_def login_key_def)

lemma request_key_not_login [simp]: "request_key pf a \<noteq> login_key ip" "login_key ip \<noteq> request_key pf a"
  by (simp_all add: request_key_def)

lemma request_key_stage [simp]: "request_key pf (a\<lparr>si_stage := g\<rparr>) = request_key pf a"
  by (simp add: request_key_def)

lemma changed_request_count:
  assumes "i < length xs"
  shows "length (filter Q (xs[i := x])) + (if Q (xs ! i) then 1 else 0) = length (filter Q xs) + (if Q x then 1 else 0)"
proof -
  have "length (filter Q xs) = length (filter Q (take i xs @ xs ! i # drop (Suc i) xs))" using id_take_nth_drop [OF assms] by simp
  moreover have "length (filter Q (xs[i := x])) = length (filter Q (take i xs @ x # drop (Suc i) xs))"
    using upd_conv_take_nth_drop [OF assms, of x] by simp
  ultimately show ?thesis by simp
qed

lemma stages_nested: "counting g \<Longrightarrow> admitted g" "admitted g \<Longrightarrow> under_way g"
  by (auto simp: counting_def admitted_def under_way_def split: sign_in_stage.splits)

lemma requests_nested:
  "length (filter (\<lambda>a. request_key pf a = k \<and> counting (si_stage a)) xs) \<le> length (filter (\<lambda>a. request_key pf a = k \<and> admitted (si_stage a)) xs)"
  "length (filter (\<lambda>a. request_key pf a = k \<and> admitted (si_stage a)) xs) \<le> length (filter (\<lambda>a. under_way (si_stage a)) xs)"
  by (rule length_filter_mono, use stages_nested in blast)+

lemma after_sign_in_stage:
  "after_sign_in g \<noteq> Replied (Refused InvalidCredentials)" "\<not> counting (after_sign_in g)"
  by (auto simp: after_sign_in_def counting_def split: stage.split reply.split)

lemma step_under_way:
  "create_session_step pf now db n fault a s r = (g, s', r') \<Longrightarrow> under_way g \<Longrightarrow> under_way (si_stage a)"
  by (cases "si_stage a")
    (auto simp: create_session_step_def before_step_def failed_step_def succeeded_step_def under_way_def unreachable_def split: if_splits prod.splits)

lemma step_other_key:
  assumes "create_session_step pf now db n fault a s r = (g, s', r')" and "request_key pf a \<noteq> k" and "k = failure_key pf email ip"
  shows "s' k = s k" and "wrong_of k (wrong_after pf now fault a g fs) = wrong_of k fs"
proof -
  have no_login: "login_key x \<noteq> k" "k \<noteq> login_key x" for x using assms(3) by simp_all
  show "s' k = s k"
    using assms(1,2) no_login
    by (cases "si_stage a")
      (auto simp: create_session_step_def before_step_def failed_step_def succeeded_step_def Let_def split: if_splits prod.splits)
  have "filter (\<lambda>(k', _). k' = k) (filter (\<lambda>(k', _). k' \<noteq> request_key pf a) fs) = filter (\<lambda>(k', _). k' = k) fs"
    using assms(2) by (induction fs) auto
  then show "wrong_of k (wrong_after pf now fault a g fs) = wrong_of k fs"
    using assms(2) by (cases "si_stage a") (simp_all add: wrong_of_def wrong_after_def)
qed

lemma wrong_of_forgotten: "wrong_of k (filter (\<lambda>(k', _). k' \<noteq> k) fs) = []"
  by (auto simp: wrong_of_def filter_empty_conv)

text \<open>A step of a request for this key, by where it stands.\<close>

lemma step_own_key:
  assumes step: "create_session_step pf now db n fault a s r = (g, s', r')" and k: "request_key pf a = k"
    and lock: "lock_holds now (s k) (wrong_of k fs) w p u"
    and w: "w' + (if counting (si_stage a) then 1 else 0) = w + (if counting g then 1 else 0)"
    and p: "p' + (if admitted (si_stage a) then 1 else 0) = p + (if admitted g then 1 else 0)"
    and order: "w' \<le> p'" "p' \<le> u'" "u' \<le> u"
  shows "lock_holds now (s' k) (wrong_of k (wrong_after pf now fault a g fs)) w' p' u'"
proof -
  have login: "login_key x \<noteq> k" "k \<noteq> login_key x" for x using k by auto
  show ?thesis
  proof (cases "si_stage a")
    case CountsLogin
    then have "s' k = s k" "wrong_after pf now fault a g fs = fs" "\<not> admitted g" "\<not> counting g"
      using step login by (auto simp: create_session_step_def before_step_def unreachable_def wrong_after_def admitted_def counting_def split: if_splits)
    with lock w p order CountsLogin show ?thesis by (auto simp: admitted_def counting_def intro!: lock_leaves [OF lock])
  next
    case (ExpiresLogin m gone)
    then have "s' k = s k" "wrong_after pf now fault a g fs = fs" "\<not> admitted g" "\<not> counting g"
      using step login by (auto simp: create_session_step_def before_step_def unreachable_def wrong_after_def admitted_def counting_def split: if_splits)
    with lock w p order ExpiresLogin show ?thesis by (auto simp: admitted_def counting_def intro!: lock_leaves [OF lock])
  next
    case (ReadsFailures m gone)
    then have same: "s' k = s k" "wrong_after pf now fault a g fs = fs" "\<not> counting g" and admits: "admitted g \<Longrightarrow> counted now (s k) < FAILURE_LIMIT"
      using step k by (auto simp: create_session_step_def before_step_def unreachable_def wrong_after_def admitted_def counting_def split: if_splits)
    show ?thesis
    proof (cases "admitted g")
      case True
      then have "w' = w" "p' = Suc p" using w p same(3) ReadsFailures by (simp_all add: admitted_def counting_def)
      then show ?thesis
        using lock_leaves [OF lock_admits [OF lock admits [OF True]], of w' p' u'] order by (simp add: same)
    next
      case False
      with same w p order ReadsFailures show ?thesis by (auto simp: admitted_def counting_def intro!: lock_leaves [OF lock])
    qed
  next
    case (AsksTtl key otherwise)
    then have "s' k = s k" "wrong_after pf now fault a g fs = fs" "\<not> admitted g" "\<not> counting g"
      using step by (auto simp: create_session_step_def before_step_def rate_limited_def wrong_after_def admitted_def counting_def split: if_splits)
    with lock w p order AsksTtl show ?thesis by (auto simp: admitted_def counting_def intro!: lock_leaves [OF lock])
  next
    case (Verifies x)
    then obtain x' where "g = after_sign_in x'" and same: "s' k = s k"
      using step by (auto simp: create_session_step_def split: prod.splits)
    with after_sign_in_stage have "wrong_after pf now fault a g fs = fs" "\<not> counting g" by (simp_all add: wrong_after_def Verifies)
    with same w p order Verifies show ?thesis by (auto simp: admitted_def counting_def split: if_splits intro!: lock_leaves [OF lock])
  next
    case CountsFailure
    show ?thesis
    proof (cases "fault = Lost")
      case True
      then have "g = unreachable" "s' = s" using step by (auto simp: create_session_step_def failed_step_def CountsFailure)
      with w p order show ?thesis
        by (auto simp: CountsFailure wrong_after_def unreachable_def admitted_def counting_def intro!: lock_leaves [OF lock])
    next
      case False
      then have g: "g = ExpiresFailure (fault \<noteq> Fine)" "s' k = Some (incr now (s k))"
        using step k by (auto simp: create_session_step_def failed_step_def CountsFailure)
      have "w' \<le> Suc w" "p' \<le> p" using w p by (auto simp: CountsFailure g admitted_def counting_def split: if_splits)
      then show ?thesis using lock_counts [OF lock, of w' p' u'] order by (simp add: CountsFailure wrong_after_def g)
    qed
  next
    case (ExpiresFailure gone)
    show ?thesis
    proof (cases "fault = Lost")
      case True
      then have "g = unreachable" "s' = s" using step by (auto simp: create_session_step_def failed_step_def ExpiresFailure)
      with w p order show ?thesis
        by (auto simp: ExpiresFailure wrong_after_def unreachable_def admitted_def counting_def split: if_splits intro!: lock_leaves [OF lock])
    next
      case False
      then have g: "g = (if gone \<or> fault \<noteq> Fine then unreachable else Replied (Refused InvalidCredentials))"
        "s' k = expire now (now + FAILURE_WINDOW_SECONDS) (s k)"
        using step k by (auto simp: create_session_step_def failed_step_def ExpiresFailure)
      show ?thesis
      proof (cases "gone \<or> fault \<noteq> Fine")
        case True
        then have "w' \<le> w" "p' \<le> p" using w p by (auto simp: ExpiresFailure g unreachable_def admitted_def counting_def split: if_splits)
        then show ?thesis
          using lock_expires [OF lock, of w' p' u'] order True by (simp add: ExpiresFailure wrong_after_def g unreachable_def)
      next
        case False
        then have "w = Suc w'" "p = Suc p'" using w p by (auto simp: ExpiresFailure g admitted_def counting_def)
        then show ?thesis
          using lock_answers [of now "s k" "wrong_of k fs" w' p' u u'] lock order False k
          by (simp add: ExpiresFailure wrong_after_def g wrong_of_def)
      qed
    qed
  next
    case (ForgetsFailures result)
    show ?thesis
    proof (cases "fault = Lost")
      case True
      then have "g = unreachable" "s' = s" using step by (auto simp: create_session_step_def succeeded_step_def ForgetsFailures)
      with True w p order show ?thesis
        by (auto simp: ForgetsFailures wrong_after_def unreachable_def admitted_def counting_def intro!: lock_leaves [OF lock])
    next
      case False
      then have "s' k = None" "\<not> admitted g" "\<not> counting g"
        using step k by (auto simp: create_session_step_def succeeded_step_def ForgetsFailures unreachable_def admitted_def counting_def split: if_splits)
      moreover from this have "w' = w" using w by (simp add: ForgetsFailures counting_def)
      ultimately show ?thesis
        using lock_forgets [OF lock, of p' u'] order False k by (simp add: ForgetsFailures wrong_after_def wrong_of_forgotten)
    qed
  next
    case (Replied result)
    then have "g = si_stage a" "s' = s" using step by (auto simp: create_session_step_def before_step_def)
    with w p order Replied show ?thesis by (auto simp: wrong_after_def intro!: lock_leaves [OF lock])
  qed
qed

lemma limits_keep:
  assumes "key_locked pf k y" and k: "k = failure_key pf email ip"
  shows "key_locked pf k (limits_happens pf h y)"
proof (cases h)
  case (Requests email password ip)
  have "under_way CountsLogin" "\<not> counting CountsLogin" "\<not> admitted CountsLogin" by (simp_all add: under_way_def counting_def admitted_def)
  then show ?thesis
    using assms(1) by (auto simp: limits_happens_def Requests key_locked_def lock_holds_def AUTH_THREADS_def)
next
  case (Runs i fault)
  show ?thesis
  proof (cases "i < length (ls_requests y)")
    case True
    let ?a = "ls_requests y ! i"
    obtain g s' r' where step: "create_session_step pf (ls_now y) (ls_db y) (ls_draws y) fault ?a (ls_counters y) (ls_store y) = (g, s', r')"
      by (metis prod_cases3)
    let ?xs = "(ls_requests y)[i := ?a\<lparr>si_stage := g\<rparr>]"
    have u: "length (filter (\<lambda>a. under_way (si_stage a)) ?xs) \<le> length (filter (\<lambda>a. under_way (si_stage a)) (ls_requests y))"
      using changed_request_count [OF True, of "\<lambda>a. under_way (si_stage a)" "?a\<lparr>si_stage := g\<rparr>"] step_under_way [OF step] by (auto split: if_splits)
    note w = changed_request_count [OF True, of "\<lambda>a. request_key pf a = k \<and> counting (si_stage a)" "?a\<lparr>si_stage := g\<rparr>"]
      and p = changed_request_count [OF True, of "\<lambda>a. request_key pf a = k \<and> admitted (si_stage a)" "?a\<lparr>si_stage := g\<rparr>"]
    note nested = requests_nested [of pf k ?xs]
    note lock = assms(1) [unfolded key_locked_def]
    have "lock_holds (ls_now y) (s' k) (wrong_of k (wrong_after pf (ls_now y) fault ?a g (ls_wrong y)))
      (length (filter (\<lambda>a. request_key pf a = k \<and> counting (si_stage a)) ?xs))
      (length (filter (\<lambda>a. request_key pf a = k \<and> admitted (si_stage a)) ?xs))
      (length (filter (\<lambda>a. under_way (si_stage a)) ?xs))"
    proof (cases "request_key pf ?a = k")
      case True
      show ?thesis
        by (rule step_own_key [OF step True lock]) (use w p True u nested in simp_all)
    next
      case False
      show ?thesis
        unfolding step_other_key [OF step False k]
        by (rule lock_leaves [OF lock]) (use w p False u nested in \<open>simp_all\<close>)
    qed
    then show ?thesis by (simp add: limits_happens_def Runs True step key_locked_def)
  qed (use assms in \<open>simp add: limits_happens_def Runs\<close>)
next
  case (Passes n)
  then show ?thesis using assms(1) lock_later by (simp add: limits_happens_def key_locked_def)
next
  case (Changes db r)
  then show ?thesis using assms(1) by (simp add: limits_happens_def key_locked_def)
qed

text \<open>
  C17. Guessing is bounded: however many requests come for one account from one address and however their steps interleave
  on the service's four threads, whatever is lost and whatever else happens, at most twelve are answered as wrong passwords
  within any quarter of an hour, since the account was last signed into from there. Four are the limit less one, four can
  be verified at once before any is counted, and four more can lose their count, incremented just before the counter of
  earlier ones expires.
\<close>

theorem guesses_are_bounded:
  "length (filter (\<lambda>(k, t). k = failure_key pf email ip \<and> start \<le> t \<and> t < start + FAILURE_WINDOW_SECONDS)
      (ls_wrong (fold (limits_happens pf) hs (nobody_yet now db r)))) \<le> FAILURE_LIMIT - 1 + 2 * AUTH_THREADS"
proof -
  let ?k = "failure_key pf email ip" and ?y = "fold (limits_happens pf) hs (nobody_yet now db r)"
  have "key_locked pf ?k (fold (limits_happens pf) hs y)" if "key_locked pf ?k y" for y
    using that limits_keep [OF _ refl] by (induction hs arbitrary: y) simp_all
  moreover have "key_locked pf ?k (nobody_yet now db r)"
    by (simp add: key_locked_def nobody_yet_def lock_holds_def wrong_of_def few_def)
  ultimately have "few (wrong_of ?k (ls_wrong ?y))" by (simp add: key_locked_def lock_holds_def)
  then have "length (filter (\<lambda>f. start \<le> f \<and> f < start + FAILURE_WINDOW_SECONDS) (wrong_of ?k (ls_wrong ?y))) \<le> 12"
    by (simp add: few_def)
  moreover have "filter (\<lambda>f. start \<le> f \<and> f < start + FAILURE_WINDOW_SECONDS) (wrong_of ?k fs)
      = map snd (filter (\<lambda>(k, t). k = ?k \<and> start \<le> t \<and> t < start + FAILURE_WINDOW_SECONDS) fs)" for fs
    by (induction fs) (auto simp: wrong_of_def)
  ultimately show ?thesis by (simp add: FAILURE_LIMIT_def AUTH_THREADS_def)
qed

section \<open>On an example\<close>

definition example_limits_platform :: auth_platform where
  "example_limits_platform = \<lparr>au_lower = id, au_verify = (=), au_sha256 = id, au_uuid4 = (\<lambda>n. replicate (Suc n) CHR ''u''),
    au_token = (\<lambda>n. replicate (Suc n) CHR ''t''), au_issuer = ''https://auth.invalid/'', au_access_ttl = 600, au_session_ttl = 43200\<rparr>"

text \<open>The request \<open>i\<close>, with a wrong password: up to its look at the counter, and to its answer.\<close>

definition looks :: "nat \<Rightarrow> limits_event list" where
  "looks i = Requests ''a'' ''guess'' ''ip'' # replicate 3 (Runs i Fine)"

definition answers :: "nat \<Rightarrow> limits_event list" where
  "answers i = replicate 3 (Runs i Fine)"

text \<open>
  One after the other the sixth is not looked at. But four that look at the counter before any of them is counted are all
  verified: eight wrong passwords are answered within a second where five are meant to lock.
\<close>

definition example_sequence :: "limits_event list" where
  "example_sequence = concat (map (\<lambda>i. looks i @ answers i) [0, 1, 2, 3, 4]) @ looks 5 @ [Runs 5 Fine]"

definition example_overrun :: "limits_event list" where
  "example_overrun = concat (map (\<lambda>i. looks i @ answers i) [0, 1, 2, 3]) @ concat (map looks [4, 5, 6, 7]) @ concat (map answers [4, 5, 6, 7])"

lemma sixth_is_locked:
  "map si_stage (ls_requests (fold (limits_happens example_limits_platform) example_sequence (nobody_yet 0 [] no_keys)))
    = replicate 5 (Replied (Refused InvalidCredentials)) @ [Replied (Refused (RateLimited 900))]"
  by code_simp

lemma lock_is_overrun:
  "ls_wrong (fold (limits_happens example_limits_platform) example_overrun (nobody_yet 0 [] no_keys))
    = replicate 8 (failure_key example_limits_platform ''a'' ''ip'', 0)"
  by code_simp

end
