(* ===== verification/Spec2Isabelle.thy ===== *)
theory Spec2Isabelle
  imports Migration Experiment_Life Accounts Login Recommendations Consumption_Shift Catalog_Search Sale_Concurrency Sales_Loads Uploads
    Auth_Background Auth_Limits
begin

text \<open>
  A verification library of the retail segmentation platform: a Flask web application over PostgreSQL (\<open>src/web\<close>), the
  services that are being split from it (\<open>src/services\<close>), and the package they share (\<open>src/packages/kit-py\<close>).

  \<^bold>\<open>The program and its parts.\<close> Customers buy; sales reach the database as files an administrator uploads
  (\<open>web/services/sales_csv.py\<close>, \<open>ingestion.py\<close>) or one at a time from the sales service (\<open>services/sales/app\<close>), both taking
  stock. A run of the segmentation pipeline (\<open>web/services/segmentation.py\<close>) scores every customer, by the RFM rules or by
  K-means, and replaces the open rows of the segment history. On the history stand the migration between two runs, the
  consumption profile and its shifts, the recommendations, and the experiments: customers of segments are dealt to the arms of
  a campaign, exposed, and their later sales counted as conversions. Accounts, permissions, sessions and notifications are
  shared by all of it. Every write of the web runs in a unit of work (\<open>web/db/transactions.py\<close>); what changes is captured by
  triggers in outbox tables and relayed to Redis streams, which the services consume; the authentication service keeps
  its sessions in Redis.

  \<^bold>\<open>How the model corresponds to it.\<close> A function of the source is a definition of the same name, a class a record, the errors
  it raises constructors of a datatype, its result \<open>Inl\<close> the error or \<open>Inr\<close> the value, and the database or Redis a record
  of tables, given and returned. SQL is modelled with the program that sends it: the constraints and triggers of
  \<open>src/sql/01_schema.sql\<close> that decide a write are part of the write. Steps that can interleave are constructors of an event
  type or rules of a relation, and what holds of every run is proved by induction over them.

  \<^item> \<open>Prelude\<close>: results, counting, rankings without ties (the locale \<open>total_ranking\<close>), runs of a state machine (\<open>stepwise\<close>),
    splitting and stripping text. Every locale of the library is interpreted on the model's own definitions.
  \<^item> \<open>KMeans\<close>, \<open>Cluster_Labels\<close>: the fit of \<open>kmeans.py\<close> and the pairing of its clusters with the segment labels. A fit puts every
    customer in one of k clusters, none empty, and does not depend on the order customers arrive in.
  \<^item> \<open>Transactions\<close>: \<open>atomic\<close>, commit and rollback; the locale \<open>unit_of_work\<close> gives each service that a failure leaves nothing behind.
  \<^item> \<open>Sessions\<close>, \<open>Authz\<close>, \<open>Login_Throttle\<close>, \<open>Login\<close>, \<open>Accounts\<close>: server-side sessions, the permission matrix and the gate before
    every request, the failed sign-in counter (shown to decide as a sliding window over the full history), the sign-in pages,
    and user administration with its single administrator.
  \<^item> \<open>Notifications\<close>: events, their recipients and who may read them.
  \<^item> \<open>RFM_Rules\<close>, \<open>Segmentation\<close>: the scoring queries and the pipeline. The history of every customer stays a chain of
    contiguous rows with at most one open; a run that fails changes nothing.
  \<^item> \<open>Migration\<close>: the comparison of two runs, its matrix, and the explanation of one customer.
  \<^item> \<open>Experiments\<close>, \<open>Uplift\<close>, \<open>Campaigns\<close>, \<open>Experiment_Life\<close>: the setup, assignment, exposure, conversion and measurement of an
    experiment, the lifecycle of its campaign, and the step relation of all of them together, on which the invariants that
    span the three services are proved.
  \<^item> \<open>Parsing\<close>, \<open>Decimals\<close>: the numbers, dates and amounts of a form.
  \<^item> \<open>Catalog\<close>, \<open>Catalog_Search\<close>: the writes of the catalogues with the tree of categories, and their listings with the escape of \<open>ILIKE\<close>.
  \<^item> \<open>Consumption\<close>, \<open>Consumption_Shift\<close>, \<open>Recommendations\<close>: a customer's profile, what changed between two periods, and what to offer.
  \<^item> \<open>Streams\<close>: a pass of the outbox relay, whose purge may fail on its own, and of a consumer (\<open>mosaiq_kit/streams.py\<close>).
  \<^item> \<open>Sale_Service\<close>, \<open>Sale_Concurrency\<close>: \<open>record_sale\<close> as one attempt, and as concurrent clients among other writers and the
    relay of the service; the commit of a sale and the read that shows it are two steps, and an answer may be lost between.
  \<^item> \<open>Csv_Files\<close>, \<open>Sales_Import\<close>, \<open>Sales_Loads\<close>: the csv module as the import uses it, the ingestion of a row, and the recorded load of a file.
  \<^item> \<open>Uploads\<close>: product images, down to the chunks of a PNG and their CRC-32.
  \<^item> \<open>Auth_Sessions\<close>, \<open>Auth_Safety\<close>: the sessions of the authentication service as threads over Redis, and what holds of every
    interleaving: a refresh token buys once, a session that is over stays over, no token outlives its session.
  \<^item> \<open>Auth_Background\<close>, \<open>Auth_Limits\<close>: the reconciler (with a run that escapes it), the consumer of access changes, and the limits
    of the sign-in endpoint, as requests whose check, verification and count interleave on the four threads of the service:
    the bound that holds of every interleaving is twelve wrong passwords, and a run is shown that exceeds the intended five.

  \<^bold>\<open>Representation.\<close> Money is in cents, instants are whole microseconds (seconds in the throttle and in the authentication
  service), customer identifiers are numbers in the order of their UUIDs, floats are reals, and strings are lists of
  characters of one byte. A sentence the program composes is a constructor with the values it names. PostgreSQL's \<open>lower\<close>
  and parsing of UUIDs, argon2, SHA-256, \<open>erfc\<close>, Python's random generator and the values drawn at random are parameters of the
  definitions that use them.

  \<^bold>\<open>Bounds and fuel.\<close> The Lloyd loop runs at most the iterations its parameters allow, as in the source. The category tree is
  walked down in as many rounds as there are categories, which reaches every descendant (proved), and the walk up of a
  recommendation ends because the tree has no cycle (proved, \<open>recommend_terminates\<close>). A sale is tried three times, a
  relay reads 100 rows, a consumer gives an entry up after five deliveries: the constants of the source. The quotients
  of a profile have at most 14 digits above and below, so the 28 digits of the decimal context round them as exact
  arithmetic does; the columns NUMERIC(12,2) and smallint overflow where the
  schema says so. The CRC-32 is computed on 32-bit words, the chunk lengths of a PNG are read as unsigned 32-bit numbers.

  \<^bold>\<open>Not modelled.\<close> What renders or only reads: the templates, the routes other than sign-in, upload and download
  (\<open>web/routes\<close>, most of \<open>admin.py\<close>), the dashboards and reports (\<open>segmentation_dashboard.py\<close>, \<open>experiment_dashboard.py\<close>, \<open>experiment_report.py\<close>,
  \<open>consumption_reports.py\<close>, \<open>segment_history_report.py\<close>, \<open>customer_timeline.py\<close>, \<open>audit.py\<close>), \<open>model_comparison.py\<close>, the wording of notifications and
  reasons, and the display names of labels. Services whose rules repeat those modelled in the web (categories, products,
  customers, users, campaigns, recommendations) or that work on MongoDB (engagement). The trigger \<open>fn_campaign_activation_guard\<close>,
  which repeats a check the service makes. The HTTP layer and the contracts of the kit, which interpret OpenAPI documents of
  the repository; configuration, the command line, logging, the start of processes and threads; the clients, benchmarks,
  analyses, deployment and the operations console. A lost race for a new sales header during an import, symbolic links and
  disk failures of an upload, the trimming of a stream.

  \<^bold>\<open>Idealised.\<close> The floats of K-means and of the statistics are reals: the rounding of sums and the ties it makes are outside
  the model. A day of a conversion window is 24 hours, which is what \<open>make_interval\<close> adds when the session's time zone has no
  daylight saving, as the default of the database image, UTC. \<open>ILIKE\<close> folds the letters of ASCII, PostgreSQL those of its
  collation. The sign-in counter of the web is that of one process that handles its sign-ins one after another; each of
  the two workers of gunicorn has its own.
\<close>

end
